(* ===== verification/Prelude.thy ===== *)
theory Prelude
  imports Main "HOL-Library.Word" "HOL-Library.Monad_Syntax" "HOL-Library.Sublist"
begin

text \<open>
  Shared vocabulary of the development.
  \<^item> \<open>uint32\<close> is the value of an \<open>unsigned int\<close> (or \<open>uint32\<close>) of the code, kept as a natural
    number below \<open>2^32\<close>; \<open>add32\<close> and \<open>sub32\<close> are its wrapping addition and subtraction.
  \<^item> A computation that may abort (a failed \<open>GPU_CHECK\<close> or \<open>GPU_DCHECK\<close>, a fatal log message,
    an access outside a container) or that may not return has an \<open>option\<close> result, with
    \<open>None\<close> for "no result", and is composed in the \<open>option\<close> monad.
  \<^item> \<open>erase\<close> and \<open>insert_at\<close> are \<open>vector::erase\<close> and \<open>vector::insert\<close> at a position.
\<close>

unbundle bit_operations_syntax

type_synonym uint32 = nat
type_synonym int32 = int
type_synonym byte = "8 word"

definition add32 :: "uint32 \<Rightarrow> uint32 \<Rightarrow> uint32" where
  "add32 a b = (a + b) mod 2 ^ 32"

definition sub32 :: "uint32 \<Rightarrow> uint32 \<Rightarrow> uint32" where
  "sub32 a b = (a + 2 ^ 32 - b) mod 2 ^ 32"

text \<open>Reinterpretation of a 32-bit pattern as a signed value and back.\<close>

definition to_int32 :: "uint32 \<Rightarrow> int32" where
  "to_int32 n = (let m = int (n mod 2 ^ 32) in if m < 2 ^ 31 then m else m - 2 ^ 32)"

definition to_uint32 :: "int32 \<Rightarrow> uint32" where
  "to_uint32 i = nat (i mod 2 ^ 32)"

definition guard :: "bool \<Rightarrow> unit option" where
  "guard b = (if b then Some () else None)"

declare Option.bind_cong [fundef_cong]

definition erase :: "nat \<Rightarrow> 'a list \<Rightarrow> 'a list" where
  "erase i xs = take i xs @ drop (Suc i) xs"

definition insert_at :: "nat \<Rightarrow> 'a \<Rightarrow> 'a list \<Rightarrow> 'a list" where
  "insert_at i x xs = take i xs @ x # drop i xs"

lemma add32_small [simp]: "a + b < 2 ^ 32 \<Longrightarrow> add32 a b = a + b"
  by (simp add: add32_def)

lemma sub32_small [simp]: "b \<le> a \<Longrightarrow> a < 2 ^ 32 \<Longrightarrow> sub32 a b = a - b"
proof -
  assume a: "b \<le> a" "a < 2 ^ 32"
  then have "(a + 2 ^ 32 - b) mod 2 ^ 32 = (a - b + 2 ^ 32) mod 2 ^ 32" by simp
  also have "\<dots> = a - b" using a by (simp only: mod_add_self2) simp
  finally show ?thesis by (simp add: sub32_def)
qed

lemma add32_bound [simp]: "add32 a b < 2 ^ 32"
  by (simp add: add32_def)

lemma to_uint32_bound [simp]: "to_uint32 i < 2 ^ 32"
  by (simp add: to_uint32_def nat_less_iff)

lemma to_int32_to_uint32: "- (2 ^ 31) \<le> i \<Longrightarrow> i < 2 ^ 31 \<Longrightarrow> to_int32 (to_uint32 i) = i"
proof -
  assume i: "- (2 ^ 31) \<le> i" "i < 2 ^ 31"
  show ?thesis
  proof (cases "0 \<le> i")
    case True
    then show ?thesis using i by (simp add: to_int32_def to_uint32_def Let_def)
  next
    case False
    have "i mod 2 ^ 32 = (i + 2 ^ 32) mod 2 ^ 32" by simp
    also have "\<dots> = i + 2 ^ 32" using False i by (intro mod_pos_pos_trivial) auto
    finally have m: "i mod 2 ^ 32 = i + 2 ^ 32" .
    then show ?thesis using False i by (simp add: to_int32_def to_uint32_def Let_def)
  qed
qed

lemma guard_Some [simp]: "guard b = Some u \<longleftrightarrow> b"
  by (simp add: guard_def)

lemma guard_bind [simp]: "Option.bind (guard b) f = (if b then f () else None)"
  by (simp add: guard_def)

lemma erase_append [simp]: "erase (length xs) (xs @ y # ys) = xs @ ys"
  by (simp add: erase_def)

lemma erase_append_Suc [simp]: "erase (Suc (length xs)) (xs @ x # y # ys) = xs @ x # ys"
  by (simp add: erase_def)

lemma insert_at_append [simp]: "insert_at (length xs) y (xs @ ys) = xs @ y # ys"
  by (simp add: insert_at_def)

lemma insert_at_append_Suc [simp]:
  "insert_at (Suc (length xs)) y (xs @ x # ys) = xs @ x # y # ys"
  by (simp add: insert_at_def)

lemma length_erase: "i < length xs \<Longrightarrow> length (erase i xs) = length xs - 1"
  by (simp add: erase_def)

lemma length_insert_at: "i \<le> length xs \<Longrightarrow> length (insert_at i x xs) = Suc (length xs)"
  by (simp add: insert_at_def)

lemma id_take_nth_drop2: "i < length xs \<Longrightarrow> \<exists>pre x post. xs = pre @ x # post \<and> length pre = i"
  by (metis id_take_nth_drop length_take min.absorb4)

text \<open>The first index whose element satisfies a test, as the search loops of the code find it.\<close>

fun find_index :: "('a \<Rightarrow> bool) \<Rightarrow> 'a list \<Rightarrow> nat option" where
  "find_index P [] = None"
| "find_index P (x # xs) = (if P x then Some 0 else map_option Suc (find_index P xs))"

lemma find_index_None [simp]: "find_index P xs = None \<longleftrightarrow> (\<forall>x \<in> set xs. \<not> P x)"
  by (induction xs) auto

lemma find_index_SomeD:
  "find_index P xs = Some i \<Longrightarrow>
     i < length xs \<and> P (xs ! i) \<and> (\<forall>j < i. \<not> P (xs ! j))"
  by (induction xs arbitrary: i) (auto split: if_splits simp: less_Suc_eq_0_disj)

lemma find_index_split:
  "find_index P xs = Some i \<Longrightarrow>
     \<exists>pre x post. xs = pre @ x # post \<and> length pre = i \<and> P x \<and> (\<forall>y \<in> set pre. \<not> P y)"
proof (induction xs arbitrary: i)
  case (Cons x xs)
  show ?case
  proof (cases "P x")
    case True
    with Cons.prems show ?thesis by force
  next
    case False
    with Cons.prems obtain j where j: "find_index P xs = Some j" "i = Suc j" by auto
    then obtain pre y post where "xs = pre @ y # post" "length pre = j" "P y" "\<forall>z \<in> set pre. \<not> P z"
      using Cons.IH by blast
    with False j show ?thesis by (intro exI [of _ "x # pre"]) auto
  qed
qed simp

end
