(* ===== verification/IdAllocator.thy ===== *)
theory IdAllocator
  imports Prelude
begin

text \<open>
  The resource id bookkeeping of the GPU command buffer:
  \<open>IdAllocator\<close> (\<open>src/gpu/command_buffer/common/id_allocator.cc\<close>), a set of used 32-bit ids,
  and \<open>IdManager\<close> (\<open>src/gpu/command_buffer/service/id_manager.cc\<close>), a map from client ids to
  service ids. An id is its value below \<open>2^32\<close>; \<open>std::set\<close> iterates in increasing order.
\<close>

section \<open>IdAllocator\<close>

type_synonym resource_id = uint32

abbreviation (input) kInvalidResource :: resource_id where
  "kInvalidResource \<equiv> 0"

definition InUse :: "resource_id set \<Rightarrow> resource_id \<Rightarrow> bool" where
  "InUse used i \<longleftrightarrow> i = kInvalidResource \<or> i \<in> used"

definition MarkAsUsed :: "resource_id \<Rightarrow> resource_id set \<Rightarrow> resource_id set \<times> bool" where
  "MarkAsUsed i used = (insert i used, i \<notin> used)"

definition FreeID :: "resource_id \<Rightarrow> resource_id set \<Rightarrow> resource_id set" where
  "FreeID i used = used - {i}"

text \<open>The loop of \<open>FindFirstFree\<close> over the ids in increasing order.\<close>

fun first_gap :: "resource_id \<Rightarrow> resource_id list \<Rightarrow> resource_id" where
  "first_gap i [] = i"
| "first_gap i (x # xs) = (if x \<noteq> i then i else first_gap (add32 i 1) xs)"

definition FindFirstFree :: "resource_id set \<Rightarrow> resource_id" where
  "FindFirstFree used = first_gap 1 (sorted_list_of_set used)"

definition AllocateID :: "resource_id set \<Rightarrow> resource_id set \<times> resource_id" where
  "AllocateID used = (let i = FindFirstFree used in (fst (MarkAsUsed i used), i))"

text \<open>
  \<open>AllocateIDAtOrAbove\<close> wraps at the top of the range and would search forever when every id is
  in use; the model has no result then.
\<close>

partial_function (option) first_at_or_above :: "resource_id set \<Rightarrow> resource_id \<Rightarrow> resource_id option"
  where "first_at_or_above used i =
    (if InUse used i then first_at_or_above used (add32 i 1) else Some i)"

definition AllocateIDAtOrAbove ::
  "resource_id \<Rightarrow> resource_id set \<Rightarrow> (resource_id set \<times> resource_id) option" where
  "AllocateIDAtOrAbove desired used = do {
     guard (card used < 2 ^ 32 - 1);
     i \<leftarrow> first_at_or_above used desired;
     Some (fst (MarkAsUsed i used), i)
   }"

text \<open>The well-formed states: 32-bit ids, and never the invalid one.\<close>

definition ids_ok :: "resource_id set \<Rightarrow> bool" where
  "ids_ok used \<longleftrightarrow> (\<forall>i \<in> used. 0 < i \<and> i < 2 ^ 32)"

lemma ids_ok_finite: "ids_ok used \<Longrightarrow> finite used"
  by (rule finite_subset [of _ "{..< 2 ^ 32}"]) (auto simp: ids_ok_def)

lemma ids_ok_FreeID: "ids_ok used \<Longrightarrow> ids_ok (FreeID i used)"
  by (simp add: ids_ok_def FreeID_def)

lemma ids_ok_MarkAsUsed:
  "ids_ok used \<Longrightarrow> 0 < i \<Longrightarrow> i < 2 ^ 32 \<Longrightarrow> ids_ok (fst (MarkAsUsed i used))"
  by (simp add: ids_ok_def MarkAsUsed_def)

lemma first_gap_sorted:
  assumes "sorted_wrt (<) xs" and "\<forall>x \<in> set xs. i \<le> x \<and> x < 2 ^ 32"
    and "i + length xs < 2 ^ 32"
  shows "first_gap i xs \<notin> set xs \<and> i \<le> first_gap i xs \<and> first_gap i xs \<le> i + length xs \<and>
    {i ..< first_gap i xs} \<subseteq> set xs"
  using assms
proof (induction i xs rule: first_gap.induct)
  case (1 i)
  then show ?case by simp
next
  case (2 i x xs)
  show ?case
  proof (cases "x = i")
    case True
    have a: "add32 i 1 = i + 1" using "2.prems"(3) by simp
    let ?g = "first_gap (i + 1) xs"
    have IH: "?g \<notin> set xs \<and> i + 1 \<le> ?g \<and> ?g \<le> i + 1 + length xs \<and> {i + 1 ..< ?g} \<subseteq> set xs"
    proof (rule "2.IH" [unfolded a])
      show "\<not> x \<noteq> i" using True by simp
      show "sorted_wrt (<) xs" using "2.prems"(1) by simp
      show "\<forall>y \<in> set xs. i + 1 \<le> y \<and> y < 2 ^ 32"
        using "2.prems"(1,2) True by (auto simp: Suc_le_eq)
      show "i + 1 + length xs < 2 ^ 32" using "2.prems"(3) by simp
    qed
    have "{i ..< ?g} \<subseteq> insert i {i + 1 ..< ?g}" by auto
    with IH True a show ?thesis by auto
  next
    case False
    with "2.prems" show ?thesis by force
  qed
qed

lemma FindFirstFree_least:
  assumes "ids_ok used" and "card used < 2 ^ 32 - 1"
  shows "FindFirstFree used \<notin> used \<and> 0 < FindFirstFree used \<and> FindFirstFree used < 2 ^ 32 \<and>
    (\<forall>j. 0 < j \<and> j < FindFirstFree used \<longrightarrow> j \<in> used)"
proof -
  have fin: "finite used" using assms(1) by (rule ids_ok_finite)
  have "first_gap 1 (sorted_list_of_set used) \<notin> set (sorted_list_of_set used) \<and>
    1 \<le> first_gap 1 (sorted_list_of_set used) \<and>
    first_gap 1 (sorted_list_of_set used) \<le> 1 + length (sorted_list_of_set used) \<and>
    {1 ..< first_gap 1 (sorted_list_of_set used)} \<subseteq> set (sorted_list_of_set used)"
    by (rule first_gap_sorted)
      (use assms fin in \<open>auto simp: ids_ok_def Suc_le_eq\<close>)
  then show ?thesis using fin assms(2) by (auto simp: FindFirstFree_def subset_iff)
qed

text \<open>The search upwards ends at a free id: the first free one at or above the wish.\<close>

lemma first_at_or_above_run:
  assumes "\<forall>k < n. InUse used (d + k)" and "\<not> InUse used (d + n)" and "d + n < 2 ^ 32"
  shows "first_at_or_above used d = Some (d + n)"
  using assms
proof (induction n arbitrary: d)
  case 0
  then show ?case by (simp add: first_at_or_above.simps)
next
  case (Suc n)
  from Suc.prems(1) have "InUse used (d + 0)" by blast
  moreover have "first_at_or_above used (d + 1) = Some (d + 1 + n)"
  proof (rule Suc.IH)
    show "\<forall>k < n. InUse used (d + 1 + k)" using Suc.prems(1)
      by (metis Suc_less_eq add.assoc plus_1_eq_Suc)
  qed (use Suc.prems in auto)
  ultimately show ?case using Suc.prems(3) by (subst first_at_or_above.simps) simp
qed

section \<open>Properties of the allocator\<close>

text \<open>The search does not care whether it passes the top of the range.\<close>

lemma first_at_or_above_skip:
  assumes "\<forall>k < n. InUse used (add32 d k)" "d < 2 ^ 32"
  shows "first_at_or_above used d = first_at_or_above used (add32 d n)"
  using assms
proof (induction n)
  case 0
  then show ?case by (simp add: add32_def)
next
  case (Suc n)
  have "InUse used (add32 d n)" using Suc.prems(1) by blast
  then have "first_at_or_above used (add32 d n) = first_at_or_above used (add32 (add32 d n) 1)"
    by (subst first_at_or_above.simps) simp
  moreover have "add32 (add32 d n) 1 = add32 d (Suc n)" by (simp add: add32_def mod_Suc_eq)
  moreover have "first_at_or_above used d = first_at_or_above used (add32 d n)"
    using Suc by simp
  ultimately show ?case by simp
qed

lemma first_at_or_above_wraps:
  assumes "\<forall>j. d \<le> j \<and> j < 2 ^ 32 \<longrightarrow> InUse used j" "d < 2 ^ 32"
  shows "first_at_or_above used d = first_at_or_above used 0"
proof -
  have "first_at_or_above used d = first_at_or_above used (add32 d (2 ^ 32 - d))"
    by (rule first_at_or_above_skip) (use assms in \<open>auto simp: add32_def\<close>)
  moreover have "add32 d (2 ^ 32 - d) = 0" using assms(2) by (simp add: add32_def)
  ultimately show ?thesis by simp
qed

lemma first_at_or_above_least:
  assumes "\<not> InUse used i" "d \<le> i" "i < 2 ^ 32" "\<forall>j. d \<le> j \<and> j < i \<longrightarrow> InUse used j"
  shows "first_at_or_above used d = Some i"
  using first_at_or_above_run [of "i - d" used d] assms by simp

text \<open>
  As long as an id is free, \<open>AllocateID\<close> hands out the least free one, never the
  invalid id, and marks exactly it as used; giving it back restores the set.
\<close>

theorem allocate_id_least:
  assumes "ids_ok used" "card used < 2 ^ 32 - 1"
  shows "\<exists>i. AllocateID used = (insert i used, i) \<and> \<not> InUse used i \<and> i < 2 ^ 32 \<and>
    (\<forall>j < i. InUse used j) \<and> ids_ok (insert i used) \<and> FreeID i (insert i used) = used"
proof -
  have f: "FindFirstFree used \<notin> used" "0 < FindFirstFree used" "FindFirstFree used < 2 ^ 32"
    "\<forall>j. 0 < j \<and> j < FindFirstFree used \<longrightarrow> j \<in> used"
    using FindFirstFree_least [OF assms] by blast+
  have "AllocateID used = (insert (FindFirstFree used) used, FindFirstFree used)"
    by (simp add: AllocateID_def MarkAsUsed_def Let_def)
  moreover have "ids_ok (insert (FindFirstFree used) used)" using assms(1) f(2,3) by (simp add: ids_ok_def)
  moreover have "\<forall>j < FindFirstFree used. InUse used j" using f(4) by (auto simp: InUse_def)
  ultimately show ?thesis using f(1-3) by (auto simp: InUse_def FreeID_def)
qed

theorem allocate_id_least_witness:
  "\<exists>i. AllocateID {1, 2, 4} = (insert i {1, 2, 4}, i) \<and> \<not> InUse {1, 2, 4} i"
  using allocate_id_least [of "{1, 2, 4}"] by (auto simp: ids_ok_def)

text \<open>
  \<open>AllocateIDAtOrAbove\<close> returns as long as an id is free: the least free id at or
  above the wish, or, when all of those are in use, the least free id of all.
\<close>

theorem allocate_at_or_above:
  assumes "ids_ok used" "card used < 2 ^ 32 - 1" "desired < 2 ^ 32"
  shows "\<exists>i. AllocateIDAtOrAbove desired used = Some (insert i used, i) \<and> \<not> InUse used i \<and> i < 2 ^ 32 \<and>
    (if \<exists>j. desired \<le> j \<and> j < 2 ^ 32 \<and> \<not> InUse used j
     then desired \<le> i \<and> (\<forall>j. desired \<le> j \<and> j < i \<longrightarrow> InUse used j) else \<forall>j < i. InUse used j)"
proof -
  have run: "AllocateIDAtOrAbove desired used = Some (insert i used, i)"
    if "first_at_or_above used desired = Some i" for i
    using that assms(2) by (simp add: AllocateIDAtOrAbove_def MarkAsUsed_def)
  show ?thesis
  proof (cases "\<exists>j. desired \<le> j \<and> j < 2 ^ 32 \<and> \<not> InUse used j")
    case True
    let ?P = "\<lambda>j. desired \<le> j \<and> j < 2 ^ 32 \<and> \<not> InUse used j"
    define i where "i = Least ?P"
    have i: "?P i" unfolding i_def using True by (rule LeastI_ex)
    have "\<forall>j. desired \<le> j \<and> j < i \<longrightarrow> InUse used j"
      using not_less_Least [of _ ?P] i unfolding i_def by (meson less_trans)
    with i True run [of i] first_at_or_above_least [of used i desired] show ?thesis by auto
  next
    case False
    have f: "FindFirstFree used \<notin> used" "0 < FindFirstFree used" "FindFirstFree used < 2 ^ 32"
      "\<forall>j. 0 < j \<and> j < FindFirstFree used \<longrightarrow> j \<in> used"
      using FindFirstFree_least [OF assms(1,2)] by blast+
    have u: "\<forall>j < FindFirstFree used. InUse used j" using f(4) by (auto simp: InUse_def)
    have "first_at_or_above used desired = first_at_or_above used 0"
      using False assms(3) by (intro first_at_or_above_wraps) auto
    also have "\<dots> = Some (FindFirstFree used)"
      using f(1-3) u by (intro first_at_or_above_least) (auto simp: InUse_def)
    finally show ?thesis using False f(1-3) u run [of "FindFirstFree used"] by (auto simp: InUse_def)
  qed
qed

theorem allocate_at_or_above_witness:
  "\<exists>i. AllocateIDAtOrAbove 4 {1, 2, 4} = Some (insert i {1, 2, 4}, i) \<and> \<not> InUse {1, 2, 4} i"
proof -
  have "ids_ok {1, 2, 4}" "card {1, 2, 4 :: nat} < 2 ^ 32 - 1" "(4::nat) < 2 ^ 32" by (auto simp: ids_ok_def)
  from allocate_at_or_above [OF this] show ?thesis by blast
qed

section \<open>IdManager\<close>

type_synonym id_map = "(uint32 \<times> uint32) list"

text \<open>\<open>std::map\<close> as its entries in key order; \<open>insert\<close> leaves an existing key alone.\<close>

fun map_insert :: "uint32 \<Rightarrow> 'v \<Rightarrow> (uint32 \<times> 'v) list \<Rightarrow> (uint32 \<times> 'v) list" where
  "map_insert k v [] = [(k, v)]"
| "map_insert k v ((k', v') # m) =
     (if k < k' then (k, v) # (k', v') # m
      else if k = k' then (k', v') # m else (k', v') # map_insert k v m)"

definition AddMapping :: "uint32 \<Rightarrow> uint32 \<Rightarrow> id_map \<Rightarrow> id_map \<times> bool" where
  "AddMapping client service m =
     (map_insert client service m, map_of m client = None)"

definition RemoveMapping :: "uint32 \<Rightarrow> uint32 \<Rightarrow> id_map \<Rightarrow> id_map \<times> bool" where
  "RemoveMapping client service m =
     (if map_of m client = Some service
      then (filter (\<lambda>(k, v). k \<noteq> client) m, True) else (m, False))"

definition GetServiceId :: "uint32 \<Rightarrow> id_map \<Rightarrow> uint32 option" where
  "GetServiceId client m = map_of m client"

definition GetClientId :: "uint32 \<Rightarrow> id_map \<Rightarrow> uint32 option" where
  "GetClientId service m = map_option fst (List.find (\<lambda>(k, v). v = service) m)"

definition map_ok :: "(uint32 \<times> 'v) list \<Rightarrow> bool" where
  "map_ok m \<longleftrightarrow> sorted_wrt (<) (map fst m)"

lemma map_ok_distinct: "map_ok m \<Longrightarrow> distinct (map fst m)"
  by (simp add: map_ok_def strict_sorted_iff)

lemma map_insert_keys: "fst ` set (map_insert k v m) = insert k (fst ` set m)"
  by (induction k v m rule: map_insert.induct) auto

lemma map_ok_insert: "map_ok m \<Longrightarrow> map_ok (map_insert k v m)"
proof (induction k v m rule: map_insert.induct)
  case (2 k v k' v' m)
  then show ?case using map_insert_keys [of k v m]
    by (auto simp: map_ok_def)
qed (simp add: map_ok_def)

lemma map_of_insert:
  "map_ok m \<Longrightarrow>
     map_of (map_insert k v m) = (if map_of m k = None then (map_of m)(k \<mapsto> v) else map_of m)"
proof (induction k v m rule: map_insert.induct)
  case (2 k v k' v' m)
  have "k < k' \<Longrightarrow> map_of m k = None"
    using "2.prems" by (auto simp: map_ok_def map_of_eq_None_iff)
  moreover have "map_ok m" using "2.prems" by (simp add: map_ok_def)
  ultimately show ?case using "2.IH" by (auto simp: fun_eq_iff)
qed simp

lemma map_of_remove: "map_of (filter (\<lambda>(k, v). k \<noteq> c) m) = (map_of m)(c := None)"
  by (induction m) (auto simp: fun_eq_iff)

lemma map_ok_remove: "map_ok m \<Longrightarrow> map_ok (filter P m)"
  unfolding map_ok_def by (induction m) auto

lemma GetClientId_sound:
  "map_ok m \<Longrightarrow> GetClientId s m = Some c \<Longrightarrow> GetServiceId c m = Some s"
  by (auto simp: GetClientId_def GetServiceId_def find_Some_iff dest!: map_ok_distinct)
    (metis map_of_is_SomeI nth_mem)

lemma GetClientId_complete:
  "GetServiceId c m = Some s \<Longrightarrow> GetClientId s m \<noteq> None"
  by (auto simp: GetClientId_def GetServiceId_def find_None_iff dest!: map_of_SomeD)

text \<open>
  The entries of the id manager are a finite map: \<open>AddMapping\<close> adds a pair unless the
  client id is mapped, which it reports; \<open>RemoveMapping\<close> removes exactly the pair it is given, if it
  is there; both keep the order of the keys.
\<close>

theorem id_manager_map:
  assumes "map_ok m"
  shows "(\<exists>m'. AddMapping c s m = (m', map_of m c = None) \<and> map_ok m' \<and>
      map_of m' = (if map_of m c = None then (map_of m)(c \<mapsto> s) else map_of m)) \<and>
    (\<exists>m'. RemoveMapping c s m = (m', map_of m c = Some s) \<and> map_ok m' \<and>
      map_of m' = (if map_of m c = Some s then (map_of m)(c := None) else map_of m))"
  unfolding AddMapping_def RemoveMapping_def
  using map_ok_insert [OF assms] map_of_insert [OF assms] map_ok_remove [OF assms] map_of_remove assms by auto

theorem id_manager_map_witness:
  "\<exists>m'. AddMapping 3 30 [(1, 10), (5, 50)] = (m', True) \<and> map_of m' 3 = Some 30 \<and> map_of m' 5 = Some 50"
proof -
  have "map_ok [(1, 10), (5, 50 :: uint32)]" by (simp add: map_ok_def)
  from id_manager_map [OF this, of 3 30] show ?thesis by auto
qed

text \<open>
  Looking up a client id by its service id finds an entry whenever one exists, and
  the entry it finds is a pair of the map; after \<open>AddMapping\<close> of a fresh client id both lookups see it.
\<close>

theorem id_manager_lookup:
  assumes "map_ok m" "GetServiceId c m = None"
  shows "GetServiceId c (fst (AddMapping c s m)) = Some s \<and>
    (\<exists>c'. GetClientId s (fst (AddMapping c s m)) = Some c' \<and>
      GetServiceId c' (fst (AddMapping c s m)) = Some s)"
proof -
  let ?m = "fst (AddMapping c s m)"
  have ok: "map_ok ?m" using map_ok_insert [OF assms(1)] by (simp add: AddMapping_def)
  have g: "GetServiceId c ?m = Some s"
    using map_of_insert [OF assms(1), of c s] assms(2) by (simp add: AddMapping_def GetServiceId_def)
  then obtain c' where c': "GetClientId s ?m = Some c'" using GetClientId_complete by blast
  with GetClientId_sound [OF ok c'] g show ?thesis by blast
qed

theorem id_manager_lookup_witness:
  "GetServiceId 3 (fst (AddMapping 3 30 [(1, 10), (5, 50)])) = Some 30"
proof -
  have "map_ok [(1, 10), (5, 50 :: uint32)]" "GetServiceId 3 [(1, 10), (5, 50)] = None"
    by (simp_all add: map_ok_def GetServiceId_def)
  from id_manager_lookup [OF this, of 30] show ?thesis by blast
qed

end
