(* ===== verification/FencedAllocator.thy ===== *)
theory FencedAllocator
  imports Prelude
begin

text \<open>
  \<open>FencedAllocator\<close> (\<open>src/gpu/command_buffer/client/fenced_allocator.cc\<close>): first-fit allocation
  in a block of memory whose freed parts may be pending a command-buffer token. The state is
  the vector \<open>blocks_\<close>. The helper the allocator waits on is a parameter: its state \<open>h\<close> and its
  \<open>WaitForToken\<close> as \<open>wait token h\<close>, with no result when the wait aborts or does not return.
  A failing \<open>GPU_DCHECK\<close> of the code is a missing result too.
\<close>

section \<open>State and operations\<close>

datatype fa_state = IN_USE | FREE | FREE_PENDING_TOKEN

record fa_block =
  b_state :: fa_state
  b_offset :: uint32
  b_size :: uint32
  b_token :: int32

abbreviation (input) kInvalidOffset :: uint32 where
  "kInvalidOffset \<equiv> 4294967295"

abbreviation (input) kUnusedToken :: int32 where
  "kUnusedToken \<equiv> 0"

type_synonym 'h waiter = "int32 \<Rightarrow> 'h \<Rightarrow> 'h option"

definition FencedAllocator_init :: "uint32 \<Rightarrow> fa_block list" where
  "FencedAllocator_init sz =
     [\<lparr>b_state = FREE, b_offset = 0, b_size = sz, b_token = kUnusedToken\<rparr>]"

text \<open>\<open>std::lower_bound\<close> on the offsets, then the check that the block was found.\<close>

definition GetBlockByOffset :: "uint32 \<Rightarrow> fa_block list \<Rightarrow> nat option" where
  "GetBlockByOffset offset bs =
     (let i = length (takeWhile (\<lambda>b. b_offset b < offset) bs)
      in if i < length bs \<and> b_offset (bs ! i) = offset then Some i else None)"

definition CollapseFreeBlock :: "nat \<Rightarrow> fa_block list \<Rightarrow> nat \<times> fa_block list" where
  "CollapseFreeBlock index bs =
     (let bs1 = (if index + 1 < length bs \<and> b_state (bs ! (index + 1)) = FREE
                 then erase (index + 1)
                   (bs[index := (bs ! index)\<lparr>b_size :=
                      add32 (b_size (bs ! index)) (b_size (bs ! (index + 1)))\<rparr>])
                 else bs)
      in if 0 < index \<and> b_state (bs1 ! (index - 1)) = FREE
         then (index - 1, erase index
                (bs1[index - 1 := (bs1 ! (index - 1))\<lparr>b_size :=
                   add32 (b_size (bs1 ! (index - 1))) (b_size (bs1 ! index))\<rparr>]))
         else (index, bs1))"

definition WaitForTokenAndFreeBlock ::
  "'h waiter \<Rightarrow> nat \<Rightarrow> fa_block list \<Rightarrow> 'h \<Rightarrow> (nat \<times> fa_block list \<times> 'h) option" where
  "WaitForTokenAndFreeBlock wait index bs h =
     (if b_state (bs ! index) = FREE_PENDING_TOKEN
      then case wait (b_token (bs ! index)) h of
             None \<Rightarrow> None
           | Some h' \<Rightarrow>
               (case CollapseFreeBlock index (bs[index := (bs ! index)\<lparr>b_state := FREE\<rparr>]) of
                  (i, bs') \<Rightarrow> Some (i, bs', h'))
      else None)"

definition AllocInBlock :: "nat \<Rightarrow> uint32 \<Rightarrow> fa_block list \<Rightarrow> (fa_block list \<times> uint32) option" where
  "AllocInBlock index sz bs =
     (let block = bs ! index; offset = b_offset block
      in if sz \<le> b_size block \<and> b_state block = FREE
         then if b_size block = sz
              then Some (bs[index := block\<lparr>b_state := IN_USE\<rparr>], offset)
              else Some (insert_at (index + 1)
                     \<lparr>b_state = FREE, b_offset = add32 offset sz,
                      b_size = sub32 (b_size block) sz, b_token = kUnusedToken\<rparr>
                     (bs[index := block\<lparr>b_state := IN_USE, b_size := sz\<rparr>]), offset)
         else None)"

section \<open>Collapsing, by position in the list\<close>

definition free_block :: "fa_block \<Rightarrow> bool" where
  "free_block b \<longleftrightarrow> b_state b = FREE"

definition grow :: "uint32 \<Rightarrow> fa_block \<Rightarrow> fa_block" where
  "grow n b = b\<lparr>b_size := add32 (b_size b) n\<rparr>"

definition merge_next :: "fa_block \<Rightarrow> fa_block list \<Rightarrow> fa_block \<times> fa_block list" where
  "merge_next b post =
     (case post of [] \<Rightarrow> (b, [])
      | n # ns \<Rightarrow> if free_block n then (grow (b_size n) b, ns) else (b, post))"

lemma grow_simps [simp]:
  "b_state (grow n b) = b_state b" "b_offset (grow n b) = b_offset b"
  "b_token (grow n b) = b_token b" "b_size (grow n b) = add32 (b_size b) n"
  by (simp_all add: grow_def)

lemma Collapse_split:
  assumes "merge_next b post = (b1, post1)"
  shows "CollapseFreeBlock (length pre) (pre @ b # post) =
    (if pre \<noteq> [] \<and> free_block (last pre)
     then (length pre - 1, butlast pre @ grow (b_size b1) (last pre) # post1)
     else (length pre, pre @ b1 # post1))"
  using assms
  by (cases pre rule: rev_cases; cases post)
    (auto simp: CollapseFreeBlock_def merge_next_def Let_def nth_append list_update_append
      erase_def grow_def free_block_def split: if_splits)

lemma Collapse_cases:
  assumes "i < length bs"
  obtains pre b post b1 post1 where "bs = pre @ b # post" and "i = length pre"
    and "merge_next b post = (b1, post1)"
  using id_take_nth_drop2 [OF assms] by (metis surj_pair)

lemma merge_next_length: "merge_next b post = (b1, post1) \<Longrightarrow> length post1 \<le> length post"
  by (auto simp: merge_next_def split: list.splits if_splits)

lemma length_Collapse:
  assumes "i < length bs" and "CollapseFreeBlock i bs = (i', bs')"
  shows "length bs' - Suc i' < length bs - i \<and> i' < length bs' \<and> i' \<le> i"
  using assms(1)
proof (cases rule: Collapse_cases)
  case (1 pre b post b1 post1)
  with assms(2) have "(i', bs') = (if pre \<noteq> [] \<and> free_block (last pre)
     then (length pre - 1, butlast pre @ grow (b_size b1) (last pre) # post1)
     else (length pre, pre @ b1 # post1))"
    using Collapse_split [OF 1(3), of pre] by simp
  with 1(1,2) merge_next_length [OF 1(3)] show ?thesis
    by (cases pre rule: rev_cases) (auto split: if_splits)
qed

lemma filter_Collapse:
  assumes "i < length bs" and "b_state (bs ! i) = FREE" and "\<And>b. b_state b = FREE \<Longrightarrow> \<not> P b"
  shows "filter P (snd (CollapseFreeBlock i bs)) = filter P bs"
  using assms(1)
proof (cases rule: Collapse_cases)
  case (1 pre b post b1 post1)
  have "filter P (b1 # post1) = filter P (b # post)" and "b_state b1 = FREE"
    using 1 assms(2,3) by (auto simp: merge_next_def free_block_def split: list.splits if_splits)
  with assms(2,3) 1(1,2) Collapse_split [OF 1(3), of pre] show ?thesis
    by (cases pre rule: rev_cases) (auto simp: free_block_def)
qed

lemma length_Wait:
  "i < length bs \<Longrightarrow> WaitForTokenAndFreeBlock wait i bs h = Some (i', bs', h') \<Longrightarrow>
     length bs' - Suc i' < length bs - i \<and> i' < length bs' \<and> i' \<le> i"
  using length_Collapse [of i "bs[i := (bs ! i)\<lparr>b_state := FREE\<rparr>]" i' bs']
  by (auto simp: WaitForTokenAndFreeBlock_def split: if_splits option.splits prod.splits)

text \<open>The second loop of \<open>Alloc\<close>, over the blocks that are pending a token.\<close>

function alloc_pending ::
  "'h waiter \<Rightarrow> uint32 \<Rightarrow> nat \<Rightarrow> fa_block list \<Rightarrow> 'h \<Rightarrow> (fa_block list \<times> 'h \<times> uint32) option"
where
  "alloc_pending wait sz i bs h =
     (if i < length bs
      then if b_state (bs ! i) \<noteq> FREE_PENDING_TOKEN
           then alloc_pending wait sz (Suc i) bs h
           else case WaitForTokenAndFreeBlock wait i bs h of
                  None \<Rightarrow> None
                | Some (i', bs', h') \<Rightarrow>
                    if sz \<le> b_size (bs' ! i')
                    then map_option (\<lambda>(bs'', offset). (bs'', h', offset)) (AllocInBlock i' sz bs')
                    else alloc_pending wait sz (Suc i') bs' h'
      else Some (bs, h, kInvalidOffset))"
  by pat_completeness auto
termination
  by (relation "measure (\<lambda>(wait, sz, i, bs, h). length bs - i)") (auto dest: length_Wait)

declare alloc_pending.simps [simp del]

definition FencedAllocator_Alloc ::
  "'h waiter \<Rightarrow> uint32 \<Rightarrow> fa_block list \<Rightarrow> 'h \<Rightarrow> (fa_block list \<times> 'h \<times> uint32) option" where
  "FencedAllocator_Alloc wait sz0 bs h =
     (let sz = (if sz0 = 0 then 1 else sz0)
      in case find_index (\<lambda>b. b_state b = FREE \<and> sz \<le> b_size b) bs of
           Some i \<Rightarrow> map_option (\<lambda>(bs', offset). (bs', h, offset)) (AllocInBlock i sz bs)
         | None \<Rightarrow> alloc_pending wait sz 0 bs h)"

definition FencedAllocator_Free :: "uint32 \<Rightarrow> fa_block list \<Rightarrow> fa_block list option" where
  "FencedAllocator_Free offset bs =
     (case GetBlockByOffset offset bs of
        None \<Rightarrow> None
      | Some i \<Rightarrow>
          if b_state (bs ! i) \<noteq> FREE
          then Some (snd (CollapseFreeBlock i (bs[i := (bs ! i)\<lparr>b_state := FREE\<rparr>])))
          else None)"

definition FencedAllocator_FreePendingToken ::
  "uint32 \<Rightarrow> int32 \<Rightarrow> fa_block list \<Rightarrow> fa_block list option" where
  "FencedAllocator_FreePendingToken offset token bs =
     map_option (\<lambda>i. bs[i := (bs ! i)\<lparr>b_state := FREE_PENDING_TOKEN, b_token := token\<rparr>])
       (GetBlockByOffset offset bs)"

text \<open>
  \<open>FreeUnused\<close> and the destructor. \<open>FreeUnused\<close> does not advance after it frees a block: the
  collapsed block is looked at again.
\<close>

definition pending_count :: "fa_block list \<Rightarrow> nat" where
  "pending_count bs = length (filter (\<lambda>b. b_state b = FREE_PENDING_TOKEN) bs)"

lemma pending_count_freed:
  assumes "i < length bs" and "b_state (bs ! i) = FREE_PENDING_TOKEN"
  shows "pending_count (snd (CollapseFreeBlock i (bs[i := (bs ! i)\<lparr>b_state := FREE\<rparr>]))) <
    pending_count bs"
proof -
  obtain pre b post where "bs = pre @ b # post" "length pre = i"
    using id_take_nth_drop2 [OF assms(1)] by blast
  then show ?thesis using assms
    by (auto simp: pending_count_def filter_Collapse)
qed

function FreeUnused_loop :: "int32 \<Rightarrow> nat \<Rightarrow> fa_block list \<Rightarrow> fa_block list" where
  "FreeUnused_loop last_token_read i bs =
     (if i < length bs
      then if b_state (bs ! i) = FREE_PENDING_TOKEN \<and> b_token (bs ! i) \<le> last_token_read
           then (case CollapseFreeBlock i (bs[i := (bs ! i)\<lparr>b_state := FREE\<rparr>]) of
                   (i', bs') \<Rightarrow> FreeUnused_loop last_token_read i' bs')
           else FreeUnused_loop last_token_read (Suc i) bs
      else bs)"
  by pat_completeness auto
termination
proof (relation "measures [\<lambda>(t, i, bs). pending_count bs, \<lambda>(t, i, bs). length bs - i]", goal_cases)
  case (2 last_token_read i bs i' bs')
  then have "pending_count bs' < pending_count bs"
    using pending_count_freed [of i bs] by (metis snd_conv)
  then show ?case by simp
qed simp_all

declare FreeUnused_loop.simps [simp del]

definition FreeUnused :: "int32 \<Rightarrow> fa_block list \<Rightarrow> fa_block list" where
  "FreeUnused last_token_read bs = FreeUnused_loop last_token_read 0 bs"

function FencedAllocator_destroy :: "'h waiter \<Rightarrow> nat \<Rightarrow> fa_block list \<Rightarrow> 'h \<Rightarrow> (fa_block list \<times> 'h) option"
where
  "FencedAllocator_destroy wait i bs h =
     (if i < length bs
      then if b_state (bs ! i) = FREE_PENDING_TOKEN
           then case WaitForTokenAndFreeBlock wait i bs h of
                  None \<Rightarrow> None
                | Some (i', bs', h') \<Rightarrow> FencedAllocator_destroy wait (Suc i') bs' h'
           else FencedAllocator_destroy wait (Suc i) bs h
      else Some (bs, h))"
  by pat_completeness auto
termination
  by (relation "measure (\<lambda>(wait, i, bs, h). length bs - i)") (auto dest: length_Wait)

declare FencedAllocator_destroy.simps [simp del]

definition GetLargestFreeSize :: "fa_block list \<Rightarrow> uint32" where
  "GetLargestFreeSize bs =
     foldl (\<lambda>max_size b. if b_state b = FREE then max max_size (b_size b) else max_size) 0 bs"

definition largest_step :: "uint32 \<times> uint32 \<Rightarrow> fa_block \<Rightarrow> uint32 \<times> uint32" where
  "largest_step acc b = (case acc of (max_size, current_size) \<Rightarrow>
     if b_state b = IN_USE then (max max_size current_size, 0)
     else (max_size, add32 current_size (b_size b)))"

definition GetLargestFreeOrPendingSize :: "fa_block list \<Rightarrow> uint32" where
  "GetLargestFreeOrPendingSize bs =
     (case foldl largest_step (0, 0) bs of (max_size, current_size) \<Rightarrow> max max_size current_size)"

fun consistent_pairs :: "fa_block list \<Rightarrow> bool" where
  "consistent_pairs (current # nxt # bs) =
     (if b_offset nxt \<le> b_offset current then False
      else if b_offset nxt \<noteq> add32 (b_offset current) (b_size current) then False
      else if b_state current = FREE \<and> b_state nxt = FREE then False
      else consistent_pairs (nxt # bs))"
| "consistent_pairs bs = True"

definition CheckConsistency :: "fa_block list \<Rightarrow> bool" where
  "CheckConsistency bs = (if length bs < 1 then False else consistent_pairs bs)"

section \<open>The invariant\<close>

text \<open>
  The blocks partition \<open>[0, N)\<close> in order, none is empty, and no two neighbours are both free:
  what \<open>CheckConsistency\<close> tests, and the cover of the whole buffer besides.
\<close>

fun layout :: "uint32 \<Rightarrow> fa_block list \<Rightarrow> uint32 \<Rightarrow> bool" where
  "layout a [] e \<longleftrightarrow> a = e"
| "layout a (b # bs) e \<longleftrightarrow> b_offset b = a \<and> 0 < b_size b \<and> layout (a + b_size b) bs e"

abbreviation sizes :: "fa_block list \<Rightarrow> nat" where
  "sizes bs \<equiv> sum_list (map b_size bs)"

definition not_both_free :: "fa_block \<Rightarrow> fa_block \<Rightarrow> bool" where
  "not_both_free a b \<longleftrightarrow> \<not> (free_block a \<and> free_block b)"

definition fa_inv :: "nat \<Rightarrow> fa_block list \<Rightarrow> bool" where
  "fa_inv N bs \<longleftrightarrow> bs \<noteq> [] \<and> layout 0 bs N \<and> N < 2 ^ 32 \<and> successively not_both_free bs"

definition live :: "fa_block list \<Rightarrow> (uint32 \<times> uint32) list" where
  "live bs = map (\<lambda>b. (b_offset b, b_size b)) (filter (\<lambda>b. b_state b = IN_USE) bs)"

definition pend :: "fa_block list \<Rightarrow> (uint32 \<times> uint32 \<times> int32) list" where
  "pend bs = map (\<lambda>b. (b_offset b, b_size b, b_token b))
     (filter (\<lambda>b. b_state b = FREE_PENDING_TOKEN) bs)"

lemma live_simps [simp]:
  "live [] = []" "live (xs @ ys) = live xs @ live ys"
  "live (b # bs) = (if b_state b = IN_USE then (b_offset b, b_size b) # live bs else live bs)"
  by (simp_all add: live_def)

lemma pend_simps [simp]:
  "pend [] = []" "pend (xs @ ys) = pend xs @ pend ys"
  "pend (b # bs) = (if b_state b = FREE_PENDING_TOKEN
     then (b_offset b, b_size b, b_token b) # pend bs else pend bs)"
  by (simp_all add: pend_def)

lemma layout_append:
  "layout a (xs @ ys) e \<longleftrightarrow> layout a xs (a + sizes xs) \<and> layout (a + sizes xs) ys e"
  by (induction xs arbitrary: a) (auto simp: add.assoc)

lemma layout_end: "layout a bs e \<Longrightarrow> e = a + sizes bs"
proof (induction bs arbitrary: a)
  case (Cons b bs)
  then have "layout (a + b_size b) bs e" by simp
  then have "e = a + b_size b + sizes bs" by (rule Cons.IH)
  then show ?case by simp
qed simp

lemma layout_mem:
  "layout a bs e \<Longrightarrow> b \<in> set bs \<Longrightarrow> a \<le> b_offset b \<and> b_offset b + b_size b \<le> e \<and> 0 < b_size b"
  by (induction bs arbitrary: a) (fastforce dest: layout_end)+

lemma layout_sorted:
  "layout a bs e \<Longrightarrow> sorted_wrt (\<lambda>b c. b_offset b + b_size b \<le> b_offset c) bs"
  by (induction bs arbitrary: a) (auto dest: layout_mem)

lemma layout_offsets:
  "layout a bs e \<Longrightarrow> sorted_wrt (\<lambda>b c. b_offset b < b_offset c) bs"
proof (induction bs arbitrary: a)
  case (Cons b bs)
  then show ?case by (fastforce dest: layout_mem)
qed simp

lemma fa_inv_init: "0 < N \<Longrightarrow> N < 2 ^ 32 \<Longrightarrow> fa_inv N (FencedAllocator_init N)"
  by (simp add: fa_inv_def FencedAllocator_init_def)

lemma fa_inv_CheckConsistency:
  assumes "fa_inv N bs"
  shows "CheckConsistency bs"
proof -
  have "layout a bs e \<Longrightarrow> e < 2 ^ 32 \<Longrightarrow> successively not_both_free bs \<Longrightarrow> consistent_pairs bs"
    for a e bs
  proof (induction bs arbitrary: a rule: consistent_pairs.induct)
    case (1 b c bs)
    then have "b_offset b + b_size b < 2 ^ 32" by (auto dest!: layout_end)
    with 1 show ?case by (auto simp: not_both_free_def free_block_def)
  qed simp_all
  with assms show ?thesis
    by (auto simp: fa_inv_def CheckConsistency_def Suc_le_eq)
qed

section \<open>The size of the largest run of non-used blocks\<close>

definition run_step :: "nat \<times> nat \<Rightarrow> fa_block \<Rightarrow> nat \<times> nat" where
  "run_step acc b = (case acc of (m, c) \<Rightarrow>
     if b_state b = IN_USE then (max m c, 0) else (m, c + b_size b))"

lemma largest_step_run:
  "snd acc + sizes bs < 2 ^ 32 \<Longrightarrow> foldl largest_step acc bs = foldl run_step acc bs"
proof (induction bs arbitrary: acc)
  case (Cons b bs)
  then have "largest_step acc b = run_step acc b"
    by (auto simp: largest_step_def run_step_def split: prod.splits)
  moreover have "snd (run_step acc b) + sizes bs < 2 ^ 32"
    using Cons.prems by (auto simp: run_step_def split: prod.splits)
  ultimately show ?case using Cons.IH by simp
qed simp

definition largest_run :: "fa_block list \<Rightarrow> nat" where
  "largest_run bs = (case foldl run_step (0, 0) bs of (m, c) \<Rightarrow> max m c)"

lemma GetLargestFreeOrPendingSize_run:
  "fa_inv N bs \<Longrightarrow> GetLargestFreeOrPendingSize bs = largest_run bs"
  by (auto simp: GetLargestFreeOrPendingSize_def largest_run_def fa_inv_def
      largest_step_run dest!: layout_end)

text \<open>Merging two blocks that are not in use does not change the runs.\<close>

lemma run_step_merge:
  assumes "b_state a \<noteq> IN_USE" "b_state b \<noteq> IN_USE" "b_state m \<noteq> IN_USE"
    and "b_size m = b_size a + b_size b"
  shows "run_step (run_step acc a) b = run_step acc m"
  using assms by (auto simp: run_step_def split: prod.splits)

lemma run_step_cong:
  "b_state a = IN_USE \<longleftrightarrow> b_state b = IN_USE \<Longrightarrow> b_size a = b_size b \<Longrightarrow> run_step acc a = run_step acc b"
  by (auto simp: run_step_def)

text \<open>When no block is pending and the free blocks do not touch, each run is one free block.\<close>

lemma runs_below:
  assumes "\<forall>b \<in> set bs. b_state b \<noteq> FREE_PENDING_TOKEN"
    and "\<forall>b \<in> set bs. b_state b = FREE \<longrightarrow> b_size b < n"
    and "successively not_both_free bs" and "m < n" and "c < n"
    and "c > 0 \<Longrightarrow> bs \<noteq> [] \<Longrightarrow> \<not> free_block (hd bs)"
  shows "(case foldl run_step (m, c) bs of (m', c') \<Rightarrow> max m' c') < n"
  using assms
proof (induction bs arbitrary: m c)
  case (Cons b bs)
  show ?case
  proof (cases "b_state b")
    case IN_USE
    with Cons show ?thesis by (auto simp: run_step_def successively_Cons)
  next
    case FREE
    with Cons.prems(6) have "c = 0" by (auto simp: free_block_def)
    moreover have "bs \<noteq> [] \<Longrightarrow> \<not> free_block (hd bs)"
      using Cons.prems(3) FREE by (auto simp: successively_Cons not_both_free_def free_block_def)
    ultimately show ?thesis using Cons FREE by (auto simp: run_step_def successively_Cons)
  next
    case FREE_PENDING_TOKEN
    with Cons.prems(1) show ?thesis by simp
  qed
qed simp

text \<open>A block that is not in use is part of a run.\<close>

lemma run_grows: "(case acc of (m, c) \<Rightarrow> max m c) \<le> (case foldl run_step acc bs of (m, c) \<Rightarrow> max m c)"
proof (induction bs arbitrary: acc)
  case (Cons b bs)
  have "(case acc of (m, c) \<Rightarrow> max m c) \<le> (case run_step acc b of (m, c) \<Rightarrow> max m c)"
    by (cases acc) (auto simp: run_step_def)
  also have "\<dots> \<le> (case foldl run_step (run_step acc b) bs of (m, c) \<Rightarrow> max m c)" by (rule Cons.IH)
  finally show ?case by simp
qed simp

lemma block_within_run:
  assumes "b_state b \<noteq> IN_USE"
  shows "b_size b \<le> largest_run (pre @ b # post)"
proof -
  let ?acc = "foldl run_step (0, 0) pre"
  have "b_size b \<le> (case run_step ?acc b of (m, c) \<Rightarrow> max m c)"
    using assms by (cases ?acc) (simp add: run_step_def)
  also have "\<dots> \<le> largest_run (pre @ b # post)" unfolding largest_run_def using run_grows by simp
  finally show ?thesis .
qed

section \<open>Freeing a block\<close>

text \<open>
  What setting a block free and collapsing it does: the block grows over free neighbours, the
  rest of the list stays, and neither the used nor the pending blocks elsewhere change.
\<close>

definition freed :: "fa_block \<Rightarrow> fa_block" where
  "freed b = b\<lparr>b_state := FREE\<rparr>"

lemma freed_simps [simp]:
  "b_state (freed b) = FREE" "b_offset (freed b) = b_offset b" "b_size (freed b) = b_size b"
  by (simp_all add: freed_def)

lemma free_block_grow [simp]: "free_block (grow n b) = free_block b"
  by (simp add: free_block_def)

lemma not_both_free_cong:
  "free_block b = free_block b' \<Longrightarrow> not_both_free a b = not_both_free a b'"
  "free_block b = free_block b' \<Longrightarrow> not_both_free b a = not_both_free b' a"
  by (auto simp: not_both_free_def)

lemma merge_next_facts:
  assumes "merge_next b post = (b1, post1)" and "free_block b"
    and "layout a (b # post) e" and "e < 2 ^ 32" and "successively not_both_free post"
  shows "free_block b1 \<and> layout a (b1 # post1) e \<and> successively not_both_free (b1 # post1) \<and>
    set post1 \<subseteq> set post \<and> b_size b \<le> b_size b1 \<and> live post1 = live post \<and>
    pend post1 = pend post \<and>
    foldl run_step acc (b1 # post1) = foldl run_step acc (b # post)"
proof (cases "post \<noteq> [] \<and> free_block (hd post)")
  case True
  then obtain n ns where post: "post = n # ns" and n: "free_block n" by (cases post) auto
  then have m: "b1 = grow (b_size n) b" "post1 = ns" using assms(1) by (auto simp: merge_next_def)
  have "b_size b + b_size n < 2 ^ 32"
    using assms(3,4) post by (auto dest!: layout_end)
  moreover have "successively not_both_free (b1 # ns)"
    using assms(2,5) post n m not_both_free_cong(2) [of n b1]
    by (auto simp: successively_Cons free_block_def)
  ultimately show ?thesis using assms(2-5) post n m
    by (auto simp: free_block_def add.assoc run_step_merge [of b n b1])
next
  case False
  then have "b1 = b" "post1 = post" using assms(1) by (auto simp: merge_next_def split: list.splits)
  with False assms(2-5) show ?thesis by (auto simp: successively_Cons not_both_free_def)
qed

lemma free_collapse:
  assumes inv: "fa_inv N (pre @ b # post)"
  obtains pre' m post' where
    "CollapseFreeBlock (length pre) (pre @ freed b # post) = (length pre', pre' @ m # post')"
    "free_block m" "fa_inv N (pre' @ m # post')" "set pre' \<subseteq> set pre" "set post' \<subseteq> set post"
    "b_size b \<le> b_size m" "live pre' = live pre" "live post' = live post"
    "pend pre' = pend pre" "pend post' = pend post"
    "b_state b \<noteq> IN_USE \<Longrightarrow> largest_run (pre' @ m # post') = largest_run (pre @ b # post)"
proof -
  obtain b1 post1 where mn: "merge_next (freed b) post = (b1, post1)" by fastforce
  let ?a = "sizes pre"
  have lay: "layout 0 pre ?a" "layout ?a (b # post) N" and N: "N < 2 ^ 32"
    and suc: "successively not_both_free pre" "successively not_both_free post"
    using inv by (auto simp: fa_inv_def layout_append successively_append_iff successively_Cons)
  have lay1: "layout ?a (freed b # post) N" using lay(2) by simp
  note f = merge_next_facts [OF mn _ lay1 N suc(2)]
  have free1: "free_block b1" and l1: "layout ?a (b1 # post1) N"
    and s1: "successively not_both_free (b1 # post1)" and set1: "set post1 \<subseteq> set post"
    and le1: "b_size b \<le> b_size b1" and lv1: "live post1 = live post" "pend post1 = pend post"
    using f by (auto simp: free_block_def)
  have run1: "foldl run_step acc (b1 # post1) = foldl run_step acc (freed b # post)" for acc
    using f [of acc] by (simp add: free_block_def)
  have runb: "b_state b \<noteq> IN_USE \<Longrightarrow> run_step acc (freed b) = run_step acc b" for acc
    by (rule run_step_cong) simp_all
  show thesis
  proof (cases "pre \<noteq> [] \<and> free_block (last pre)")
    case True
    define p where "p = last pre"
    then have p: "pre = butlast pre @ [p]" "free_block p" using True by simp_all
    let ?m = "grow (b_size b1) p"
    have "layout 0 (butlast pre @ [p]) ?a" using lay(1) p(1) by metis
    then have lp: "layout 0 (butlast pre) (sizes (butlast pre))" "layout (sizes (butlast pre)) [p] ?a"
      by (simp_all add: layout_append)
    then have "b_size p + b_size b1 < 2 ^ 32" using l1 N by (auto dest!: layout_end)
    then have mm: "b_size ?m = b_size p + b_size b1" by simp
    have "successively not_both_free (butlast pre @ [p])" using suc(1) p(1) by metis
    then have "successively not_both_free (butlast pre @ ?m # post1)"
      using s1 free1 p(2) not_both_free_cong(2) [of b1 ?m] not_both_free_cong(1) [of p ?m]
      by (auto simp: successively_append_iff successively_Cons)
    moreover have "layout 0 (butlast pre @ ?m # post1) N"
      using lp l1 mm by (auto simp: layout_append simp flip: add.assoc)
    ultimately have "fa_inv N (butlast pre @ ?m # post1)" using N by (simp add: fa_inv_def)
    moreover have "CollapseFreeBlock (length pre) (pre @ freed b # post) =
        (length (butlast pre), butlast pre @ ?m # post1)"
      using True by (simp add: Collapse_split [OF mn] p_def)
    moreover have "b_state b \<noteq> IN_USE \<Longrightarrow>
        largest_run (butlast pre @ ?m # post1) = largest_run (pre @ b # post)"
    proof -
      assume nb: "b_state b \<noteq> IN_USE"
      have "run_step (run_step acc p) b1 = run_step acc ?m" for acc
        by (rule run_step_merge) (use p(2) free1 mm in \<open>auto simp: free_block_def\<close>)
      then have "foldl run_step acc (?m # post1) = foldl run_step acc ([p] @ b # post)" for acc
        using run1 [of "run_step acc p"] runb [OF nb] by simp
      moreover have "pre @ b # post = butlast pre @ [p] @ b # post"
        using p(1) by (metis append.assoc)
      ultimately show ?thesis by (simp only: largest_run_def foldl_append)
    qed
    moreover have "live (butlast pre) = live pre" "pend (butlast pre) = pend pre"
      using p by (metis (no_types, lifting) append_Nil2 fa_state.distinct free_block_def live_simps
          pend_simps)+
    ultimately show thesis
      using that [of "butlast pre" ?m post1] True p(2) set1 le1 lv1 mm
      by (auto dest: in_set_butlastD)
  next
    case False
    have "successively not_both_free (pre @ b1 # post1)"
      using suc(1) s1 False by (auto simp: successively_append_iff not_both_free_def)
    then have "fa_inv N (pre @ b1 # post1)"
      using lay(1) l1 N by (simp add: fa_inv_def layout_append)
    moreover have "CollapseFreeBlock (length pre) (pre @ freed b # post) =
        (length pre, pre @ b1 # post1)"
      using False by (auto simp: Collapse_split [OF mn])
    moreover have "b_state b \<noteq> IN_USE \<Longrightarrow> largest_run (pre @ b1 # post1) = largest_run (pre @ b # post)"
      using run1 runb by (simp add: largest_run_def)
    ultimately show thesis using that [of pre b1 post1] free1 set1 le1 lv1 by auto
  qed
qed

section \<open>Allocating\<close>

text \<open>The outcome of an allocation that found room, and of one that did not.\<close>

definition alloc_found :: "nat \<Rightarrow> uint32 \<Rightarrow> fa_block list \<Rightarrow> fa_block list \<Rightarrow> uint32 \<Rightarrow> bool" where
  "alloc_found N sz bs bs' offset \<longleftrightarrow> fa_inv N bs' \<and>
     (\<exists>xs ys. live bs = xs @ ys \<and> live bs' = xs @ (offset, sz) # ys) \<and>
     set (pend bs') \<subseteq> set (pend bs) \<and> offset \<noteq> kInvalidOffset \<and> sz \<le> largest_run bs"

definition alloc_failed :: "nat \<Rightarrow> uint32 \<Rightarrow> fa_block list \<Rightarrow> fa_block list \<Rightarrow> uint32 \<Rightarrow> bool" where
  "alloc_failed N sz bs bs' offset \<longleftrightarrow> fa_inv N bs' \<and> live bs' = live bs \<and>
     pend bs' = [] \<and> offset = kInvalidOffset \<and> largest_run bs < sz"

lemma AllocInBlock_spec:
  assumes inv: "fa_inv N (pre @ b # post)" and "free_block b" "sz \<le> b_size b" "0 < sz"
  obtains bs' where "AllocInBlock (length pre) sz (pre @ b # post) = Some (bs', b_offset b)"
    "fa_inv N bs'" "live bs' = live pre @ (b_offset b, sz) # live post"
    "pend bs' = pend pre @ pend post" "b_offset b + sz \<le> N"
proof -
  let ?a = "sizes pre"
  let ?u = "b\<lparr>b_state := IN_USE, b_size := sz\<rparr>"
  let ?r = "\<lparr>b_state = FREE, b_offset = add32 (b_offset b) sz,
              b_size = sub32 (b_size b) sz, b_token = kUnusedToken\<rparr>"
  have lay: "layout 0 pre ?a" "b_offset b = ?a" "0 < b_size b" "layout (?a + b_size b) post N"
    and N: "N < 2 ^ 32" and suc: "successively not_both_free pre" "successively not_both_free (b # post)"
    using inv by (auto simp: fa_inv_def layout_append successively_append_iff)
  have le: "?a + b_size b \<le> N" using lay(4) by (auto dest: layout_end)
  with N have lt: "?a + b_size b < 2 ^ 32" by simp
  have nf: "not_both_free x ?u" "not_both_free ?u x" for x
    by (simp_all add: not_both_free_def free_block_def)
  show thesis
  proof (cases "b_size b = sz")
    case True
    then have "b\<lparr>b_state := IN_USE\<rparr> = ?u" by simp
    with True assms(2) have "AllocInBlock (length pre) sz (pre @ b # post) = Some (pre @ ?u # post, b_offset b)"
      by (simp add: AllocInBlock_def Let_def free_block_def)
    moreover have "fa_inv N (pre @ ?u # post)"
      using lay N suc nf True by (auto simp: fa_inv_def layout_append successively_append_iff successively_Cons)
    ultimately show thesis using that lay(2) le True by simp
  next
    case False
    with assms(3) have ls: "sz < b_size b" by simp
    then have "AllocInBlock (length pre) sz (pre @ b # post) = Some (pre @ ?u # ?r # post, b_offset b)"
      using assms(2) by (simp add: AllocInBlock_def Let_def free_block_def)
    moreover have "successively not_both_free (?r # post)"
      using suc(2) assms(2) by (auto simp: successively_Cons not_both_free_def free_block_def)
    then have "fa_inv N (pre @ ?u # ?r # post)"
      using lay N suc(1) nf ls lt assms(4)
      by (auto simp: fa_inv_def layout_append successively_append_iff successively_Cons)
    ultimately show thesis using that lay(2) le ls by simp
  qed
qed

lemma alloc_found_at:
  assumes "fa_inv N bs" "i < length bs" "free_block (bs ! i)" "sz \<le> b_size (bs ! i)" "0 < sz"
  obtains bs' offset where "AllocInBlock i sz bs = Some (bs', offset)" "alloc_found N sz bs bs' offset"
proof -
  obtain pre b post where bs: "bs = pre @ b # post" "length pre = i"
    using id_take_nth_drop2 [OF assms(2)] by blast
  with assms have "fa_inv N (pre @ b # post)" "free_block b" "sz \<le> b_size b" by auto
  then obtain bs' where "AllocInBlock (length pre) sz (pre @ b # post) = Some (bs', b_offset b)"
    "fa_inv N bs'" "live bs' = live pre @ (b_offset b, sz) # live post"
    "pend bs' = pend pre @ pend post" "b_offset b + sz \<le> N"
    using assms(5) by (rule AllocInBlock_spec)
  moreover have "live bs = live pre @ live post" "pend bs = pend pre @ pend post"
    using bs \<open>free_block b\<close> by (auto simp: free_block_def)
  moreover have "N < 2 ^ 32" using assms(1) by (simp add: fa_inv_def)
  moreover have "sz \<le> largest_run bs"
    using block_within_run [of b pre post] \<open>free_block b\<close> \<open>sz \<le> b_size b\<close> bs(1) by (simp add: free_block_def)
  ultimately show thesis using that bs assms(5) unfolding alloc_found_def by fastforce
qed

text \<open>What waiting for the block at \<open>i\<close> and freeing it yields.\<close>

lemma WaitForTokenAndFreeBlock_spec:
  assumes inv: "fa_inv N bs" and i: "i < length bs"
    and r: "WaitForTokenAndFreeBlock wait i bs h = Some (i', bs', h')"
  shows "wait (b_token (bs ! i)) h = Some h' \<and> fa_inv N bs' \<and> i' < length bs' \<and>
    free_block (bs' ! i') \<and> live bs' = live bs \<and> set (pend bs') \<subseteq> set (pend bs) \<and>
    largest_run bs' = largest_run bs \<and> set (take i' bs') \<subseteq> set (take i bs) \<and>
    set bs' \<subseteq> insert (bs' ! i') (set bs)"
proof -
  obtain pre b post where bs: "bs = pre @ b # post" "length pre = i"
    using id_take_nth_drop2 [OF i] by blast
  have st: "b_state b = FREE_PENDING_TOKEN" and w: "wait (b_token b) h = Some h'"
    and c: "CollapseFreeBlock (length pre) (pre @ freed b # post) = (i', bs')"
    using r bs by (auto simp: WaitForTokenAndFreeBlock_def freed_def split: if_splits option.splits prod.splits)
  obtain pre' m post' where f: "CollapseFreeBlock (length pre) (pre @ freed b # post) = (length pre', pre' @ m # post')"
    "free_block m" "fa_inv N (pre' @ m # post')" "set pre' \<subseteq> set pre" "set post' \<subseteq> set post"
    "live pre' = live pre" "live post' = live post"
    "pend pre' = pend pre" "pend post' = pend post"
    "b_state b \<noteq> IN_USE \<Longrightarrow> largest_run (pre' @ m # post') = largest_run (pre @ b # post)"
    using inv free_collapse [of N pre b post] unfolding bs by metis
  show ?thesis using f c st w bs by (auto simp: free_block_def)
qed

lemma alloc_pending_spec:
  assumes "fa_inv N bs" and "i \<le> length bs" and "0 < sz"
    and "\<forall>b \<in> set (take i bs). b_state b \<noteq> FREE_PENDING_TOKEN"
    and "\<forall>b \<in> set bs. b_state b = FREE \<longrightarrow> b_size b < sz"
    and "alloc_pending wait sz i bs h = Some (bs', h', offset)"
  shows "alloc_found N sz bs bs' offset \<or> alloc_failed N sz bs bs' offset"
  using assms
proof (induction wait sz i bs h rule: alloc_pending.induct)
  case (1 wait sz i bs h)
  note eq = "1.prems"(6) [unfolded alloc_pending.simps [of wait sz i bs h]]
  show ?case
  proof (cases "i < length bs")
    case False
    then have all: "\<forall>b \<in> set bs. b_state b \<noteq> FREE_PENDING_TOKEN" using "1.prems"(2,4) by simp
    then have "pend bs = []" by (simp add: pend_def)
    moreover have "largest_run bs < sz" unfolding largest_run_def
      by (rule runs_below) (use all "1.prems" in \<open>auto simp: fa_inv_def\<close>)
    ultimately show ?thesis using False eq "1.prems"(1) by (auto simp: alloc_failed_def)
  next
    case i: True
    show ?thesis
    proof (cases "b_state (bs ! i) = FREE_PENDING_TOKEN")
      case False
      then show ?thesis using "1.IH"(1) i "1.prems" eq by (auto simp: take_Suc_conv_app_nth)
    next
      case True
      with i eq obtain i1 bs1 h1 where w: "WaitForTokenAndFreeBlock wait i bs h = Some (i1, bs1, h1)"
        by (auto split: option.splits)
      note f = WaitForTokenAndFreeBlock_spec [OF "1.prems"(1) i w]
      have lift: "alloc_found N sz bs1 bs' offset \<or> alloc_failed N sz bs1 bs' offset \<Longrightarrow> ?thesis"
        using f by (auto simp: alloc_found_def alloc_failed_def)
      show ?thesis
      proof (cases "sz \<le> b_size (bs1 ! i1)")
        case True
        obtain bs2 off2 where "AllocInBlock i1 sz bs1 = Some (bs2, off2)" "alloc_found N sz bs1 bs2 off2"
          by (rule alloc_found_at [of N bs1 i1 sz]) (use f True "1.prems"(3) in auto)
        with True w i \<open>b_state (bs ! i) = FREE_PENDING_TOKEN\<close> eq lift show ?thesis by auto
      next
        case small: False
        have "alloc_found N sz bs1 bs' offset \<or> alloc_failed N sz bs1 bs' offset"
        proof (rule "1.IH"(2) [OF i _ w])
          show "\<not> b_state (bs ! i) \<noteq> FREE_PENDING_TOKEN" using True by simp
          show "fa_inv N bs1" "Suc i1 \<le> length bs1" "0 < sz" using f "1.prems"(3) by auto
          show "\<forall>b \<in> set (take (Suc i1) bs1). b_state b \<noteq> FREE_PENDING_TOKEN"
            using f "1.prems"(4) by (auto simp: take_Suc_conv_app_nth free_block_def)
          show "\<forall>b \<in> set bs1. b_state b = FREE \<longrightarrow> b_size b < sz"
            using f "1.prems"(5) small by auto
          show "alloc_pending wait sz (Suc i1) bs1 h1 = Some (bs', h', offset)"
            using eq i True w small by simp
        qed (use small in auto)
        then show ?thesis by (rule lift)
      qed
    qed
  qed
qed

lemma FencedAllocator_Alloc_spec:
  assumes "fa_inv N bs" and "FencedAllocator_Alloc wait sz0 bs h = Some (bs', h', offset)"
  shows "alloc_found N (max 1 sz0) bs bs' offset \<or> alloc_failed N (max 1 sz0) bs bs' offset"
proof -
  define sz where "sz = (if sz0 = 0 then 1 else sz0)"
  have sz: "0 < sz" "max 1 sz0 = sz" by (auto simp: sz_def)
  note eq = assms(2) [unfolded FencedAllocator_Alloc_def, folded sz_def, unfolded Let_def]
  show ?thesis
  proof (cases "find_index (\<lambda>b. b_state b = FREE \<and> sz \<le> b_size b) bs")
    case None
    then have "alloc_pending wait sz 0 bs h = Some (bs', h', offset)"
      using eq by (simp only: option.case)
    moreover have "\<forall>b \<in> set bs. b_state b = FREE \<longrightarrow> b_size b < sz"
      using None by (auto simp: not_le)
    ultimately show ?thesis
      using alloc_pending_spec [of N bs 0 sz wait h bs' h' offset] assms(1) sz(1)
      unfolding sz(2) by simp
  next
    case (Some i)
    then have "i < length bs" "free_block (bs ! i)" "sz \<le> b_size (bs ! i)"
      by (auto dest!: find_index_SomeD simp: free_block_def)
    then obtain bs1 off1 where "AllocInBlock i sz bs = Some (bs1, off1)" "alloc_found N sz bs bs1 off1"
      using alloc_found_at [OF assms(1)] sz(1) by blast
    with Some eq sz show ?thesis by auto
  qed
qed

text \<open>The allocation always has a result when every wait has one.\<close>

lemma alloc_pending_total:
  assumes "fa_inv N bs" and "0 < sz" and "\<And>t h. wait t h \<noteq> None"
  shows "alloc_pending wait sz i bs h \<noteq> None"
  using assms
proof (induction wait sz i bs h rule: alloc_pending.induct)
  case (1 wait sz i bs h)
  show ?case
  proof (cases "i < length bs \<and> b_state (bs ! i) = FREE_PENDING_TOKEN")
    case False
    then show ?thesis using "1.IH"(1) "1.prems" by (auto simp: alloc_pending.simps [of wait sz i bs h])
  next
    case True
    then have "WaitForTokenAndFreeBlock wait i bs h \<noteq> None"
      using "1.prems"(3) by (auto simp: WaitForTokenAndFreeBlock_def split: option.splits prod.splits)
    then obtain i1 bs1 h1 where w: "WaitForTokenAndFreeBlock wait i bs h = Some (i1, bs1, h1)" by auto
    note f = WaitForTokenAndFreeBlock_spec [OF "1.prems"(1) _ w]
    show ?thesis
    proof (cases "sz \<le> b_size (bs1 ! i1)")
      case big: True
      obtain bs2 off2 where "AllocInBlock i1 sz bs1 = Some (bs2, off2)"
        by (rule alloc_found_at [of N bs1 i1 sz]) (use f True big "1.prems"(2) in auto)
      with True w big show ?thesis by (simp add: alloc_pending.simps [of wait sz i bs h])
    next
      case False
      then have "alloc_pending wait sz (Suc i1) bs1 h1 \<noteq> None"
        using "1.IH"(2) True w f "1.prems" by auto
      with True w False show ?thesis by (simp add: alloc_pending.simps [of wait sz i bs h])
    qed
  qed
qed

lemma FencedAllocator_Alloc_total:
  assumes inv: "fa_inv N bs" and "\<And>t h. wait t h \<noteq> None"
  shows "FencedAllocator_Alloc wait sz0 bs h \<noteq> None"
proof -
  define sz where "sz = (if sz0 = 0 then 1 else sz0)"
  have sz: "0 < sz" by (auto simp: sz_def)
  show ?thesis
  proof (cases "find_index (\<lambda>b. b_state b = FREE \<and> sz \<le> b_size b) bs")
    case None
    then have "FencedAllocator_Alloc wait sz0 bs h = alloc_pending wait sz 0 bs h"
      by (simp only: FencedAllocator_Alloc_def sz_def [symmetric] Let_def option.case)
    then show ?thesis using alloc_pending_total [of N bs sz wait 0 h] inv sz assms(2) by simp
  next
    case (Some i)
    then have "i < length bs" "free_block (bs ! i)" "sz \<le> b_size (bs ! i)"
      by (auto dest!: find_index_SomeD simp: free_block_def)
    then obtain bs1 off1 where "AllocInBlock i sz bs = Some (bs1, off1)"
      using alloc_found_at [OF inv] sz by blast
    with Some show ?thesis by (simp add: FencedAllocator_Alloc_def sz_def)
  qed
qed

section \<open>Freeing, and the destructor\<close>

lemma GetBlockByOffset_Some:
  assumes "GetBlockByOffset offset bs = Some i"
  obtains pre b post where "bs = pre @ b # post" "length pre = i" "b_offset b = offset"
proof -
  have "i < length bs" "b_offset (bs ! i) = offset"
    using assms by (auto simp: GetBlockByOffset_def Let_def split: if_splits)
  then show thesis using that id_take_nth_drop2 [of i bs] by force
qed

lemma GetBlockByOffset_found:
  assumes "fa_inv N (pre @ b # post)"
  shows "GetBlockByOffset (b_offset b) (pre @ b # post) = Some (length pre)"
proof -
  have "\<forall>x \<in> set pre. b_offset x < b_offset b"
    using assms layout_offsets [of 0 "pre @ b # post" N] by (simp add: fa_inv_def sorted_wrt_append)
  then have "takeWhile (\<lambda>x. b_offset x < b_offset b) (pre @ b # post) = pre"
    by (simp add: takeWhile_append2)
  then show ?thesis by (simp add: GetBlockByOffset_def)
qed

lemma FencedAllocator_Free_spec:
  assumes inv: "fa_inv N (pre @ b # post)" and "b_state b \<noteq> FREE"
  obtains bs' where "FencedAllocator_Free (b_offset b) (pre @ b # post) = Some bs'" "fa_inv N bs'"
    "live bs' = live pre @ live post" "pend bs' = pend pre @ pend post"
proof -
  obtain pre' m post' where f: "CollapseFreeBlock (length pre) (pre @ freed b # post) = (length pre', pre' @ m # post')"
    "free_block m" "fa_inv N (pre' @ m # post')" "live pre' = live pre" "live post' = live post"
    "pend pre' = pend pre" "pend post' = pend post"
    using free_collapse [OF inv] by metis
  then show thesis
    using that [of "pre' @ m # post'"] assms(2) GetBlockByOffset_found [OF inv]
    by (simp add: FencedAllocator_Free_def freed_def free_block_def)
qed

lemma FencedAllocator_Free_live:
  assumes inv: "fa_inv N bs" and "(a, n) \<in> set (live bs)"
  shows "\<exists>bs'. FencedAllocator_Free a bs = Some bs' \<and> fa_inv N bs' \<and>
    set (live bs') = set (live bs) - {(a, n)} \<and> pend bs' = pend bs"
proof -
  obtain b where b: "b \<in> set bs" "b_state b = IN_USE" "a = b_offset b" "n = b_size b"
    using assms(2) by (auto simp: live_def)
  then obtain pre post where bs: "bs = pre @ b # post" by (auto simp: in_set_conv_decomp)
  then obtain bs' where f: "FencedAllocator_Free (b_offset b) bs = Some bs'" "fa_inv N bs'"
    "live bs' = live pre @ live post" "pend bs' = pend pre @ pend post"
    using FencedAllocator_Free_spec [of N pre b post] inv b(2) by auto
  have "\<forall>x \<in> set pre \<union> set post. b_offset x \<noteq> b_offset b"
    using layout_offsets [of 0 "pre @ b # post" N] inv bs
    by (auto simp: fa_inv_def sorted_wrt_append)
  then have "(a, n) \<notin> set (live pre) \<union> set (live post)" using b by (auto simp: live_def)
  then show ?thesis using f bs b by auto
qed

lemma fa_inv_Free:
  assumes inv: "fa_inv N bs" and r: "FencedAllocator_Free offset bs = Some bs'"
  shows "fa_inv N bs'"
proof -
  obtain i where i: "GetBlockByOffset offset bs = Some i"
    using r by (auto simp: FencedAllocator_Free_def split: option.splits)
  then obtain pre b post where bs: "bs = pre @ b # post" "length pre = i" "b_offset b = offset"
    by (rule GetBlockByOffset_Some)
  then have "b_state b \<noteq> FREE" using r i by (auto simp: FencedAllocator_Free_def)
  then show ?thesis using FencedAllocator_Free_spec [of N pre b post] inv r bs by auto
qed

lemma FencedAllocator_FreePendingToken_spec:
  fixes token :: int32
  assumes inv: "fa_inv N (pre @ b # post)"
  defines "b' \<equiv> b\<lparr>b_state := FREE_PENDING_TOKEN, b_token := token\<rparr>"
  shows "FencedAllocator_FreePendingToken (b_offset b) token (pre @ b # post) = Some (pre @ b' # post) \<and>
    fa_inv N (pre @ b' # post)"
proof -
  have "not_both_free x b'" "not_both_free b' x" for x
    by (simp_all add: b'_def not_both_free_def free_block_def)
  then have "fa_inv N (pre @ b' # post)"
    using inv by (auto simp: fa_inv_def layout_append successively_append_iff successively_Cons b'_def)
  then show ?thesis
    using GetBlockByOffset_found [OF inv] by (simp add: FencedAllocator_FreePendingToken_def b'_def)
qed

lemma fa_inv_FreePendingToken:
  assumes inv: "fa_inv N bs" and r: "FencedAllocator_FreePendingToken offset token bs = Some bs'"
  shows "fa_inv N bs'"
proof -
  obtain i where "GetBlockByOffset offset bs = Some i"
    using r by (auto simp: FencedAllocator_FreePendingToken_def)
  then obtain pre b post where "bs = pre @ b # post" "b_offset b = offset"
    by (rule GetBlockByOffset_Some)
  then show ?thesis using FencedAllocator_FreePendingToken_spec [of N pre b post token] inv r by auto
qed

lemma FreeUnused_loop_spec:
  assumes "fa_inv N bs"
    and "\<forall>b \<in> set (take i bs). b_state b = FREE_PENDING_TOKEN \<longrightarrow> t < b_token b"
  shows "fa_inv N (FreeUnused_loop t i bs) \<and> live (FreeUnused_loop t i bs) = live bs \<and>
    pend (FreeUnused_loop t i bs) = filter (\<lambda>(a, s, u). t < u) (pend bs)"
  using assms
proof (induction t i bs rule: FreeUnused_loop.induct)
  case (1 t i bs)
  show ?case
  proof (cases "i < length bs")
    case False
    with "1.prems" have "filter (\<lambda>b. b_state b = FREE_PENDING_TOKEN \<and> t < b_token b) bs =
        filter (\<lambda>b. b_state b = FREE_PENDING_TOKEN) bs"
      by (intro filter_cong) auto
    with False "1.prems" show ?thesis
      by (simp add: FreeUnused_loop.simps [of t i bs] pend_def filter_map comp_def conj_commute)
  next
    case i: True
    then obtain pre b post where bs: "bs = pre @ b # post" "length pre = i"
      using id_take_nth_drop2 [OF i] by blast
    show ?thesis
    proof (cases "b_state b = FREE_PENDING_TOKEN \<and> b_token b \<le> t")
      case False
      then have nf: "\<not> (b_state (bs ! i) = FREE_PENDING_TOKEN \<and> b_token (bs ! i) \<le> t)"
        using bs by auto
      have "\<forall>b \<in> set (take (Suc i) bs). b_state b = FREE_PENDING_TOKEN \<longrightarrow> t < b_token b"
        using "1.prems"(2) nf i by (auto simp: take_Suc_conv_app_nth)
      moreover have "FreeUnused_loop t i bs = FreeUnused_loop t (Suc i) bs"
        using i nf by (simp only: FreeUnused_loop.simps [of t i bs] if_True if_False)
      ultimately show ?thesis using "1.IH"(2) [OF i nf "1.prems"(1)] by simp
    next
      case True
      have "fa_inv N (pre @ b # post)" using "1.prems"(1) bs by simp
      then obtain pre' m post' where f: "CollapseFreeBlock (length pre) (pre @ freed b # post) = (length pre', pre' @ m # post')"
        "free_block m" "fa_inv N (pre' @ m # post')" "set pre' \<subseteq> set pre"
        "live pre' = live pre" "live post' = live post" "pend pre' = pend pre" "pend post' = pend post"
        using free_collapse [of N pre b post] by metis
      have pend_i: "b_state (bs ! i) = FREE_PENDING_TOKEN \<and> b_token (bs ! i) \<le> t"
        and c: "CollapseFreeBlock i (bs[i := (bs ! i)\<lparr>b_state := FREE\<rparr>]) = (length pre', pre' @ m # post')"
        using bs True f(1) by (auto simp: freed_def)
      have step: "FreeUnused_loop t i bs = FreeUnused_loop t (length pre') (pre' @ m # post')"
        using i pend_i c by (simp only: FreeUnused_loop.simps [of t i bs] if_True simp_thms prod.case)
      have "\<forall>b \<in> set pre. b_state b = FREE_PENDING_TOKEN \<longrightarrow> t < b_token b"
        using "1.prems"(2) bs by auto
      then have "\<forall>b \<in> set (take (length pre') (pre' @ m # post')).
          b_state b = FREE_PENDING_TOKEN \<longrightarrow> t < b_token b" using f(4) by auto
      from "1.IH"(1) [OF i pend_i c [symmetric] f(3) this] show ?thesis
        unfolding step using f True bs by (simp add: free_block_def)
    qed
  qed
qed

lemma FreeUnused_spec:
  "fa_inv N bs \<Longrightarrow> fa_inv N (FreeUnused t bs) \<and> live (FreeUnused t bs) = live bs \<and>
     pend (FreeUnused t bs) = filter (\<lambda>(a, s, u). t < u) (pend bs)"
  unfolding FreeUnused_def by (rule FreeUnused_loop_spec) simp_all

lemma FencedAllocator_destroy_spec:
  assumes "fa_inv N bs" and "\<And>t h. wait t h \<noteq> None"
    and "\<forall>b \<in> set (take i bs). b_state b \<noteq> FREE_PENDING_TOKEN" and "i \<le> length bs"
  shows "\<exists>bs' h'. FencedAllocator_destroy wait i bs h = Some (bs', h') \<and> fa_inv N bs' \<and>
    live bs' = live bs \<and> pend bs' = []"
  using assms
proof (induction wait i bs h rule: FencedAllocator_destroy.induct)
  case (1 wait i bs h)
  note eq = FencedAllocator_destroy.simps [of wait i bs h]
  show ?case
  proof (cases "i < length bs")
    case False
    with "1.prems"(3,4) have "pend bs = []" by (simp add: pend_def)
    moreover have "FencedAllocator_destroy wait i bs h = Some (bs, h)"
      using False by (simp only: eq if_False)
    ultimately show ?thesis using "1.prems"(1) by blast
  next
    case i: True
    show ?thesis
    proof (cases "b_state (bs ! i) = FREE_PENDING_TOKEN")
      case False
      then have "FencedAllocator_destroy wait i bs h = FencedAllocator_destroy wait (Suc i) bs h"
        using i by (simp only: eq if_True if_False)
      then show ?thesis using "1.IH"(2) [OF i False] "1.prems" i False
        by (auto simp: take_Suc_conv_app_nth)
    next
      case True
      then have "WaitForTokenAndFreeBlock wait i bs h \<noteq> None"
        using "1.prems"(2) by (auto simp: WaitForTokenAndFreeBlock_def split: option.splits prod.splits)
      then obtain i1 bs1 h1 where w: "WaitForTokenAndFreeBlock wait i bs h = Some (i1, bs1, h1)" by auto
      note f = WaitForTokenAndFreeBlock_spec [OF "1.prems"(1) i w]
      have "\<forall>b \<in> set (take (Suc i1) bs1). b_state b \<noteq> FREE_PENDING_TOKEN"
        using f "1.prems"(3) by (auto simp: take_Suc_conv_app_nth free_block_def)
      moreover have "FencedAllocator_destroy wait i bs h = FencedAllocator_destroy wait (Suc i1) bs1 h1"
        using i w True by (simp only: eq if_True simp_thms option.case prod.case)
      ultimately show ?thesis
        using "1.IH"(1) [OF i True w] "1.prems"(2) f by simp
    qed
  qed
qed

lemma all_free_single:
  assumes "fa_inv N bs" and "live bs = []" and "pend bs = []"
  shows "\<exists>b. bs = [b] \<and> b_state b = FREE \<and> b_offset b = 0 \<and> b_size b = N"
proof -
  have all: "\<forall>b \<in> set bs. b_state b = FREE"
    using assms(2,3) by (auto simp: live_def pend_def filter_empty_conv) (metis fa_state.exhaust)
  moreover have "successively not_both_free bs" "bs \<noteq> []" using assms(1) by (auto simp: fa_inv_def)
  ultimately obtain b where "bs = [b]"
    by (cases bs; cases "tl bs") (auto simp: not_both_free_def free_block_def)
  with assms(1) all show ?thesis by (auto simp: fa_inv_def)
qed

text \<open>Used regions do not overlap each other or the pending ones, and lie in the buffer.\<close>

definition regions :: "fa_block list \<Rightarrow> (uint32 \<times> uint32) list" where
  "regions bs = map (\<lambda>b. (b_offset b, b_size b)) (filter (\<lambda>b. b_state b \<noteq> FREE) bs)"

definition disjoint_in :: "nat \<Rightarrow> (uint32 \<times> uint32) list \<Rightarrow> bool" where
  "disjoint_in N rs \<longleftrightarrow> sorted_wrt (\<lambda>(a, m) (b, n). a + m \<le> b) rs \<and>
     (\<forall>(a, m) \<in> set rs. 0 < m \<and> a + m \<le> N)"

lemma fa_inv_disjoint:
  assumes "fa_inv N bs"
  shows "disjoint_in N (regions bs)"
proof -
  have "sorted_wrt (\<lambda>b c. b_offset b + b_size b \<le> b_offset c) (filter P bs)" for P
    using assms layout_sorted by (auto simp: fa_inv_def sorted_wrt_filter)
  moreover have "\<forall>b \<in> set bs. 0 < b_size b \<and> b_offset b + b_size b \<le> N"
    using assms layout_mem by (auto simp: fa_inv_def)
  ultimately show ?thesis by (auto simp: disjoint_in_def regions_def sorted_wrt_map)
qed

section \<open>Every history of calls\<close>

text \<open>
  One client call, with any helper: an allocation, a free, a free pending a token, or the sweep
  of \<open>FreeUnused\<close> with whatever token the helper has read.
\<close>

inductive fa_step :: "'h waiter \<Rightarrow> fa_block list \<times> 'h \<Rightarrow> fa_block list \<times> 'h \<Rightarrow> bool"
  for wait :: "'h waiter" where
  fa_alloc: "FencedAllocator_Alloc wait sz bs h = Some (bs', h', offset) \<Longrightarrow> fa_step wait (bs, h) (bs', h')"
| fa_free: "FencedAllocator_Free offset bs = Some bs' \<Longrightarrow> fa_step wait (bs, h) (bs', h)"
| fa_free_pending: "FencedAllocator_FreePendingToken offset token bs = Some bs' \<Longrightarrow>
     fa_step wait (bs, h) (bs', h)"
| fa_free_unused: "fa_step wait (bs, h) (FreeUnused last_read bs, h)"

inductive_cases fa_stepE: "fa_step wait (bs, h) s"

lemma fa_step_inv: "fa_step wait s s' \<Longrightarrow> fa_inv N (fst s) \<Longrightarrow> fa_inv N (fst s')"
  by (induction rule: fa_step.induct)
    (auto dest: FencedAllocator_Alloc_spec fa_inv_Free fa_inv_FreePendingToken
      simp: FreeUnused_spec alloc_found_def alloc_failed_def)

inductive fa_reachable :: "nat \<Rightarrow> 'h waiter \<Rightarrow> fa_block list \<times> 'h \<Rightarrow> bool"
  for N :: nat and wait :: "'h waiter" where
  fa_start: "fa_reachable N wait (FencedAllocator_init N, h)"
| fa_more: "fa_reachable N wait s \<Longrightarrow> fa_step wait s s' \<Longrightarrow> fa_reachable N wait s'"

lemma fa_reachable_inv:
  "fa_reachable N wait s \<Longrightarrow> 0 < N \<Longrightarrow> N < 2 ^ 32 \<Longrightarrow> fa_inv N (fst s)"
  by (induction rule: fa_reachable.induct) (auto simp: fa_inv_init fa_step_inv)

section \<open>Properties\<close>

text \<open>
  After any history of allocations, frees, pending frees and sweeps, on any helper,
  the book-keeping passes \<open>CheckConsistency\<close>, its blocks cover exactly the \<open>N\<close> bytes of the buffer,
  and the regions that are in use or pending are non-empty, inside the buffer and pairwise disjoint.
\<close>

theorem fenced_consistent:
  assumes "fa_reachable N wait (bs, h)" and "0 < N" and "N < 2 ^ 32"
  shows "CheckConsistency bs \<and> sizes bs = N \<and> disjoint_in N (regions bs)"
proof -
  have "fa_inv N bs" using fa_reachable_inv [OF assms] by simp
  then show ?thesis
    by (auto simp: fa_inv_CheckConsistency fa_inv_disjoint) (auto simp: fa_inv_def dest: layout_end)
qed

theorem fenced_consistent_witness:
  "CheckConsistency [\<lparr>b_state = IN_USE, b_offset = 0, b_size = 3, b_token = 0\<rparr>,
                     \<lparr>b_state = FREE, b_offset = 3, b_size = 5, b_token = 0\<rparr>]"
proof -
  let ?bs = "[\<lparr>b_state = IN_USE, b_offset = 0, b_size = 3, b_token = 0\<rparr>,
              \<lparr>b_state = FREE, b_offset = 3, b_size = 5, b_token = 0\<rparr>]"
  let ?wait = "\<lambda>t (h :: unit). Some h"
  have "FencedAllocator_Alloc ?wait 3 (FencedAllocator_init 8) () = Some (?bs, (), 0)"
    by (simp add: FencedAllocator_Alloc_def FencedAllocator_init_def AllocInBlock_def insert_at_def)
  then have "fa_reachable 8 ?wait (?bs, ())"
    by (intro fa_more [OF fa_start [of 8 ?wait "()"]] fa_alloc)
  from fenced_consistent [OF this] show ?thesis by simp
qed

text \<open>
  C36 (safety): an allocation that does not return \<open>kInvalidOffset\<close> adds exactly one used region, of
  the requested size (1 for a request of 0), that lies in the buffer and overlaps no region that was
  in use; every other used region is kept.
\<close>

theorem fenced_alloc_disjoint:
  assumes "fa_reachable N wait (bs, h)" and "0 < N" and "N < 2 ^ 32"
    and "FencedAllocator_Alloc wait sz bs h = Some (bs', h', offset)" and "offset \<noteq> kInvalidOffset"
  shows "set (live bs') = insert (offset, max 1 sz) (set (live bs)) \<and> offset + max 1 sz \<le> N \<and>
    (\<forall>(a, n) \<in> set (live bs). a + n \<le> offset \<or> offset + max 1 sz \<le> a)"
proof -
  have inv: "fa_inv N bs" using fa_reachable_inv [OF assms(1-3)] by simp
  then have "alloc_found N (max 1 sz) bs bs' offset"
    using FencedAllocator_Alloc_spec [OF inv assms(4)] assms(5) by (auto simp: alloc_failed_def)
  then obtain xs ys where l: "live bs = xs @ ys" "live bs' = xs @ (offset, max 1 sz) # ys"
    and "fa_inv N bs'"
    by (auto simp: alloc_found_def)
  have "layout 0 bs' N" using \<open>fa_inv N bs'\<close> by (simp add: fa_inv_def)
  then have "sorted_wrt (\<lambda>(a, m) (b, n). a + m \<le> b) (live bs')" "\<forall>(a, m) \<in> set (live bs'). a + m \<le> N"
    using layout_sorted layout_mem by (fastforce simp: live_def sorted_wrt_map sorted_wrt_filter)+
  with l show ?thesis by (fastforce simp: sorted_wrt_append)
qed

theorem fenced_alloc_disjoint_witness:
  "set (live [\<lparr>b_state = IN_USE, b_offset = 0, b_size = 3, b_token = 0\<rparr>,
              \<lparr>b_state = FREE, b_offset = 3, b_size = 5, b_token = 0\<rparr>]) = {(0, 3)} \<and>
   (0 :: nat) + 3 \<le> 8"
proof -
  let ?bs = "[\<lparr>b_state = IN_USE, b_offset = 0, b_size = 3, b_token = 0\<rparr>,
              \<lparr>b_state = FREE, b_offset = 3, b_size = 5, b_token = 0\<rparr>]"
  let ?wait = "\<lambda>t (h :: unit). Some h"
  have "FencedAllocator_Alloc ?wait 3 (FencedAllocator_init 8) () = Some (?bs, (), 0)"
    by (simp add: FencedAllocator_Alloc_def FencedAllocator_init_def AllocInBlock_def insert_at_def)
  from fenced_alloc_disjoint [OF fa_start _ _ this] show ?thesis
    by (simp add: FencedAllocator_init_def)
qed

text \<open>
  C37 (functional): "allocating a block of this size will succeed": when every wait returns, an
  allocation always returns, and it finds a block exactly when the size (1 for a request of 0) is at most
  \<open>GetLargestFreeOrPendingSize\<close>; otherwise it answers \<open>kInvalidOffset\<close>.
\<close>

theorem fenced_alloc_succeeds:
  assumes "fa_reachable N wait (bs, h)" and "0 < N" and "N < 2 ^ 32"
    and "\<And>t h. wait t h \<noteq> None"
  shows "\<exists>bs' h' offset. FencedAllocator_Alloc wait sz bs h = Some (bs', h', offset) \<and>
    (offset \<noteq> kInvalidOffset \<longleftrightarrow> max 1 sz \<le> GetLargestFreeOrPendingSize bs)"
proof -
  have inv: "fa_inv N bs" using fa_reachable_inv [OF assms(1-3)] by simp
  then obtain bs' h' offset where "FencedAllocator_Alloc wait sz bs h = Some (bs', h', offset)"
    using FencedAllocator_Alloc_total [OF inv, of wait sz h] assms(4) by auto
  moreover from this have "offset \<noteq> kInvalidOffset \<longleftrightarrow> max 1 sz \<le> GetLargestFreeOrPendingSize bs"
    using FencedAllocator_Alloc_spec [OF inv, of wait sz h bs' h' offset]
      GetLargestFreeOrPendingSize_run [OF inv]
    by (auto simp: alloc_found_def alloc_failed_def)
  ultimately show ?thesis by blast
qed

theorem fenced_alloc_succeeds_witness:
  "\<exists>bs' h' offset. FencedAllocator_Alloc (\<lambda>t (h :: unit). Some h) 3 (FencedAllocator_init 8) () =
     Some (bs', h', offset) \<and> offset \<noteq> kInvalidOffset"
  using fenced_alloc_succeeds [OF fa_start, where N = 8 and wait = "\<lambda>t (h :: unit). Some h" and sz = 3]
  by (simp add: GetLargestFreeOrPendingSize_def FencedAllocator_init_def largest_step_def)

text \<open>
  Freeing a used region succeeds and removes exactly that region from the used ones;
  a later sweep with token \<open>t\<close> keeps every used region and exactly the pending regions whose token
  is greater than \<open>t\<close>.
\<close>

theorem fenced_free_exact:
  assumes "fa_reachable N wait (bs, h)" and "0 < N" and "N < 2 ^ 32" and "(a, n) \<in> set (live bs)"
  shows "\<exists>bs'. FencedAllocator_Free a bs = Some bs' \<and> set (live bs') = set (live bs) - {(a, n)} \<and>
    pend bs' = pend bs \<and> live (FreeUnused t bs') = live bs' \<and>
    pend (FreeUnused t bs') = filter (\<lambda>(a, s, u). t < u) (pend bs)"
proof -
  have "fa_inv N bs" using fa_reachable_inv [OF assms(1-3)] by simp
  then obtain bs' where "FencedAllocator_Free a bs = Some bs'" "fa_inv N bs'"
    "set (live bs') = set (live bs) - {(a, n)}" "pend bs' = pend bs"
    using FencedAllocator_Free_live assms(4) by blast
  then show ?thesis using FreeUnused_spec [of N bs' t] by auto
qed

theorem fenced_free_exact_witness:
  "\<exists>bs'. FencedAllocator_Free 0
     [\<lparr>b_state = IN_USE, b_offset = 0, b_size = 3, b_token = 0\<rparr>,
      \<lparr>b_state = FREE, b_offset = 3, b_size = 5, b_token = 0\<rparr>] = Some bs' \<and> live bs' = []"
proof -
  let ?bs = "[\<lparr>b_state = IN_USE, b_offset = 0, b_size = 3, b_token = 0\<rparr>,
              \<lparr>b_state = FREE, b_offset = 3, b_size = 5, b_token = 0\<rparr>]"
  let ?wait = "\<lambda>t (h :: unit). Some h"
  have "FencedAllocator_Alloc ?wait 3 (FencedAllocator_init 8) () = Some (?bs, (), 0)"
    by (simp add: FencedAllocator_Alloc_def FencedAllocator_init_def AllocInBlock_def insert_at_def)
  then have "fa_reachable 8 ?wait (?bs, ())"
    by (intro fa_more [OF fa_start [of 8 ?wait "()"]] fa_alloc)
  from fenced_free_exact [OF this, of 0 3] show ?thesis by auto
qed

text \<open>
  Once nothing is in use, the destructor's loop returns when every wait does, and
  leaves the one free block of the whole buffer that its commented-out checks name.
\<close>

theorem fenced_destroy_single:
  assumes "fa_reachable N wait (bs, h)" and "0 < N" and "N < 2 ^ 32" and "live bs = []"
    and "\<And>t h. wait t h \<noteq> None"
  shows "\<exists>b h'. FencedAllocator_destroy wait 0 bs h = Some ([b], h') \<and>
    b_state b = FREE \<and> b_offset b = 0 \<and> b_size b = N"
proof -
  have inv: "fa_inv N bs" using fa_reachable_inv [OF assms(1-3)] by simp
  then obtain bs' h' where "FencedAllocator_destroy wait 0 bs h = Some (bs', h')" "fa_inv N bs'"
    "live bs' = []" "pend bs' = []"
    using FencedAllocator_destroy_spec [OF inv, of wait 0 h] assms(4,5) by auto
  then show ?thesis using all_free_single by blast
qed

theorem fenced_destroy_single_witness:
  "\<exists>b h'. FencedAllocator_destroy (\<lambda>t (h :: unit). Some h) 0 (FencedAllocator_init 8) () = Some ([b], h') \<and>
     b_size b = 8"
  using fenced_destroy_single [OF fa_start, where N = 8 and wait = "\<lambda>t (h :: unit). Some h"]
  by (auto simp: FencedAllocator_init_def)

end
