(* ===== verification/RingBuffer.thy ===== *)
theory RingBuffer
  imports Prelude
begin

text \<open>
  \<open>RingBuffer\<close> (\<open>src/gpu/command_buffer/client/ring_buffer.cc\<close>): a piece of memory allocated in
  ring order, freed in the same order once tokens have passed, and its pointer wrapper. As in
  \<open>FencedAllocator\<close> the helper is a parameter \<open>wait\<close>, and a failing \<open>GPU_DCHECK\<close> or a fatal
  wait is a missing result.
\<close>

section \<open>State and operations\<close>

datatype rb_state = RB_IN_USE | RB_PADDING | RB_FREE_PENDING_TOKEN

record rb_block =
  r_offset :: uint32
  r_size :: uint32
  r_token :: uint32
  r_state :: rb_state

record ring_buffer =
  rb_blocks :: "rb_block list"
  rb_base_offset :: uint32
  rb_size :: uint32
  rb_free_offset :: uint32
  rb_in_use_offset :: uint32

definition RingBuffer_init :: "uint32 \<Rightarrow> uint32 \<Rightarrow> ring_buffer" where
  "RingBuffer_init base n = \<lparr>rb_blocks = [], rb_base_offset = base, rb_size = n,
     rb_free_offset = 0, rb_in_use_offset = 0\<rparr>"

definition mk_block :: "uint32 \<Rightarrow> uint32 \<Rightarrow> rb_state \<Rightarrow> rb_block" where
  "mk_block offset n st = \<lparr>r_offset = offset, r_size = n, r_token = 0, r_state = st\<rparr>"

definition FreeOldestBlock ::
  "(int32 \<Rightarrow> 'h \<Rightarrow> 'h option) \<Rightarrow> ring_buffer \<Rightarrow> 'h \<Rightarrow> (ring_buffer \<times> 'h) option" where
  "FreeOldestBlock wait rb h =
     (case rb_blocks rb of
        [] \<Rightarrow> None
      | block # rest \<Rightarrow>
          if r_state block = RB_IN_USE then None
          else do {
            h' \<leftarrow> (if r_state block = RB_FREE_PENDING_TOKEN
                   then wait (to_int32 (r_token block)) h else Some h);
            let in_use1 = add32 (rb_in_use_offset rb) (r_size block);
            let in_use2 = (if in_use1 = rb_size rb then 0 else in_use1);
            let all_free = (in_use2 = rb_free_offset rb);
            Some (rb\<lparr>rb_blocks := rest,
                     rb_in_use_offset := (if all_free then 0 else in_use2),
                     rb_free_offset := (if all_free then 0 else rb_free_offset rb)\<rparr>, h')
          })"

definition GetLargestFreeSizeNoWaiting :: "ring_buffer \<Rightarrow> uint32 option" where
  "GetLargestFreeSizeNoWaiting rb =
     (if rb_free_offset rb = rb_in_use_offset rb
      then if rb_blocks rb = []
           then if rb_free_offset rb = 0 then Some (rb_size rb) else None
           else Some 0
      else if rb_in_use_offset rb < rb_free_offset rb
           then Some (max (sub32 (rb_size rb) (rb_free_offset rb)) (rb_in_use_offset rb))
           else Some (sub32 (rb_in_use_offset rb) (rb_free_offset rb)))"

definition RingBuffer_GetLargestFreeOrPendingSize :: "ring_buffer \<Rightarrow> uint32" where
  "RingBuffer_GetLargestFreeOrPendingSize rb = rb_size rb"

lemma FreeOldestBlock_shorter:
  "FreeOldestBlock wait rb h = Some (rb', h') \<Longrightarrow> length (rb_blocks rb') < length (rb_blocks rb)"
  by (auto simp: FreeOldestBlock_def Let_def split: list.splits if_splits Option.bind_splits)

text \<open>"Wait until there is enough room."\<close>

function make_room ::
  "(int32 \<Rightarrow> 'h \<Rightarrow> 'h option) \<Rightarrow> uint32 \<Rightarrow> ring_buffer \<Rightarrow> 'h \<Rightarrow> (ring_buffer \<times> 'h) option" where
  "make_room wait n rb h =
     (case GetLargestFreeSizeNoWaiting rb of
        None \<Rightarrow> None
      | Some room \<Rightarrow>
          if room < n
          then case FreeOldestBlock wait rb h of
                 None \<Rightarrow> None
               | Some (rb', h') \<Rightarrow> make_room wait n rb' h'
          else Some (rb, h))"
  by pat_completeness auto
termination
  by (relation "measure (\<lambda>(wait, n, rb, h). length (rb_blocks rb))")
    (auto dest: FreeOldestBlock_shorter)

declare make_room.simps [simp del]

definition place_block :: "uint32 \<Rightarrow> ring_buffer \<Rightarrow> ring_buffer \<times> uint32" where
  "place_block n rb =
     (let rb1 = (if rb_size rb < add32 n (rb_free_offset rb)
                 then rb\<lparr>rb_blocks := rb_blocks rb @
                        [mk_block (rb_free_offset rb) (sub32 (rb_size rb) (rb_free_offset rb)) RB_PADDING],
                        rb_free_offset := 0\<rparr>
                 else rb);
          offset = rb_free_offset rb1;
          free1 = add32 offset n
      in (rb1\<lparr>rb_blocks := rb_blocks rb1 @ [mk_block offset n RB_IN_USE],
              rb_free_offset := (if free1 = rb_size rb1 then 0 else free1)\<rparr>,
          add32 offset (rb_base_offset rb1)))"

definition RingBuffer_Alloc ::
  "(int32 \<Rightarrow> 'h \<Rightarrow> 'h option) \<Rightarrow> uint32 \<Rightarrow> ring_buffer \<Rightarrow> 'h \<Rightarrow> (ring_buffer \<times> 'h \<times> uint32) option" where
  "RingBuffer_Alloc wait n0 rb h = do {
     guard (n0 \<le> rb_size rb);
     guard (rb_blocks rb = [] \<or> r_state (last (rb_blocks rb)) \<noteq> RB_IN_USE);
     let n = (if n0 = 0 then 1 else n0);
     (rb1, h1) \<leftarrow> make_room wait n rb h;
     let (rb2, offset) = place_block n rb1;
     Some (rb2, h1, offset)
   }"

text \<open>\<open>FreePendingToken\<close> looks for the block from the back of the deque.\<close>

definition RingBuffer_FreePendingToken :: "uint32 \<Rightarrow> uint32 \<Rightarrow> ring_buffer \<Rightarrow> ring_buffer option" where
  "RingBuffer_FreePendingToken offset0 token rb =
     (let offset = sub32 offset0 (rb_base_offset rb); bs = rb_blocks rb
      in if bs = [] then None
         else case find_index (\<lambda>b. r_offset b = offset) (rev bs) of
                None \<Rightarrow> None
              | Some j \<Rightarrow>
                  let i = length bs - 1 - j
                  in if r_state (bs ! i) = RB_IN_USE
                     then Some (rb\<lparr>rb_blocks :=
                            bs[i := (bs ! i)\<lparr>r_token := token, r_state := RB_FREE_PENDING_TOKEN\<rparr>]\<rparr>)
                     else None)"

function RingBuffer_destroy ::
  "(int32 \<Rightarrow> 'h \<Rightarrow> 'h option) \<Rightarrow> ring_buffer \<Rightarrow> 'h \<Rightarrow> (ring_buffer \<times> 'h) option" where
  "RingBuffer_destroy wait rb h =
     (if rb_blocks rb = [] then Some (rb, h)
      else case FreeOldestBlock wait rb h of
             None \<Rightarrow> None
           | Some (rb', h') \<Rightarrow> RingBuffer_destroy wait rb' h')"
  by pat_completeness auto
termination
  by (relation "measure (\<lambda>(wait, rb, h). length (rb_blocks rb))")
    (auto dest: FreeOldestBlock_shorter)

declare RingBuffer_destroy.simps [simp del]

text \<open>The pointer wrapper: an address is the offset moved by the base of the memory.\<close>

definition RingBufferWrapper_GetPointer :: "int \<Rightarrow> uint32 \<Rightarrow> uint32 \<Rightarrow> int" where
  "RingBufferWrapper_GetPointer base base_offset offset = (base - int base_offset) + int offset"

definition RingBufferWrapper_GetOffset :: "int \<Rightarrow> uint32 \<Rightarrow> int \<Rightarrow> uint32" where
  "RingBufferWrapper_GetOffset base base_offset pointer =
     nat ((pointer - (base - int base_offset)) mod 2 ^ 32)"

section \<open>The invariant\<close>

text \<open>
  The blocks follow each other around the ring from \<open>in_use_offset_\<close> to \<open>free_offset_\<close>, none is
  empty or crosses the end, and together they take at most the size.
\<close>

definition ring_next :: "nat \<Rightarrow> nat \<Rightarrow> nat" where
  "ring_next N x = (if x = N then 0 else x)"

fun chain :: "nat \<Rightarrow> nat \<Rightarrow> rb_block list \<Rightarrow> nat \<Rightarrow> bool" where
  "chain N a [] e \<longleftrightarrow> a = e"
| "chain N a (b # bs) e \<longleftrightarrow> r_offset b = a \<and> 0 < r_size b \<and> a + r_size b \<le> N \<and>
     chain N (ring_next N (a + r_size b)) bs e"

abbreviation rsizes :: "rb_block list \<Rightarrow> nat" where
  "rsizes bs \<equiv> sum_list (map r_size bs)"

definition rb_inv :: "ring_buffer \<Rightarrow> bool" where
  "rb_inv rb \<longleftrightarrow> 0 < rb_size rb \<and> rb_size rb < 2 ^ 32 \<and>
     rb_in_use_offset rb < rb_size rb \<and> rb_free_offset rb < rb_size rb \<and>
     chain (rb_size rb) (rb_in_use_offset rb) (rb_blocks rb) (rb_free_offset rb) \<and>
     rsizes (rb_blocks rb) \<le> rb_size rb \<and>
     (rb_blocks rb = [] \<longrightarrow> rb_in_use_offset rb = 0)"

lemma rb_inv_init: "0 < n \<Longrightarrow> n < 2 ^ 32 \<Longrightarrow> rb_inv (RingBuffer_init base n)"
  by (simp add: rb_inv_def RingBuffer_init_def)

lemma chain_append:
  "chain N a (xs @ ys) e \<longleftrightarrow> (\<exists>m. chain N a xs m \<and> chain N m ys e)"
  by (induction xs arbitrary: a) auto

lemma chain_mod:
  "chain N a bs e \<Longrightarrow> a < N \<Longrightarrow> e < N \<and> e = (a + rsizes bs) mod N"
proof (induction bs arbitrary: a)
  case (Cons b bs)
  let ?n = "ring_next N (a + r_size b)"
  have c: "chain N ?n bs e" and "a + r_size b \<le> N" using Cons.prems by auto
  then have n: "?n < N" "?n = (a + r_size b) mod N" using Cons.prems(2) by (auto simp: ring_next_def)
  from Cons.IH [OF c n(1)] have e: "e < N" "e = (?n + rsizes bs) mod N" by auto
  have "e = ((a + r_size b) mod N + rsizes bs) mod N" using e(2) unfolding n(2) .
  then show ?case using e(1) by (simp add: mod_add_left_eq add.assoc)
qed simp

lemma rsizes_pos: "chain N a bs e \<Longrightarrow> bs \<noteq> [] \<Longrightarrow> 0 < rsizes bs"
  by (cases bs) auto

text \<open>When the two offsets meet, the ring is either empty or full.\<close>

lemma chain_meet:
  assumes "chain N a bs a" and "a < N" and "rsizes bs \<le> N" and "bs \<noteq> []"
  shows "rsizes bs = N"
proof -
  have "(a + rsizes bs) mod N = a mod N" using chain_mod [OF assms(1,2)] assms(2) by simp
  then have "N dvd rsizes bs" by (metis add_diff_cancel_left' le_add1 mod_eq_dvd_iff_nat)
  with rsizes_pos [OF assms(1,4)] assms(3) show ?thesis by (simp add: dvd_imp_le le_antisym)
qed

text \<open>The ring after its oldest block is gone, and the wait that has to come first.\<close>

definition popped :: "ring_buffer \<Rightarrow> ring_buffer" where
  "popped rb =
     (let n = ring_next (rb_size rb) (add32 (rb_in_use_offset rb) (r_size (hd (rb_blocks rb))))
      in rb\<lparr>rb_blocks := tl (rb_blocks rb),
            rb_in_use_offset := (if n = rb_free_offset rb then 0 else n),
            rb_free_offset := (if n = rb_free_offset rb then 0 else rb_free_offset rb)\<rparr>)"

definition wait_for :: "(int32 \<Rightarrow> 'h \<Rightarrow> 'h option) \<Rightarrow> rb_block \<Rightarrow> 'h \<Rightarrow> 'h option" where
  "wait_for wait b h =
     (case r_state b of RB_IN_USE \<Rightarrow> None | RB_PADDING \<Rightarrow> Some h
      | RB_FREE_PENDING_TOKEN \<Rightarrow> wait (to_int32 (r_token b)) h)"

lemma FreeOldestBlock_eq:
  "FreeOldestBlock wait rb h =
     (if rb_blocks rb = [] then None
      else map_option (Pair (popped rb)) (wait_for wait (hd (rb_blocks rb)) h))"
proof (cases "rb_blocks rb")
  case (Cons b bs)
  then show ?thesis
    by (cases "r_state b"; cases "wait (to_int32 (r_token b)) h")
      (simp_all add: FreeOldestBlock_def wait_for_def popped_def ring_next_def Let_def)
qed (simp add: FreeOldestBlock_def)

lemma popped_inv:
  assumes inv: "rb_inv rb" and bs: "rb_blocks rb \<noteq> []"
  shows "rb_inv (popped rb)"
proof -
  obtain b bs where bs: "rb_blocks rb = b # bs" using assms(2) by (cases "rb_blocks rb") auto
  define N a n where "N = rb_size rb" and "a = rb_in_use_offset rb" and "n = ring_next N (a + r_size b)"
  have c: "a + r_size b \<le> N" "0 < r_size b" "chain N n bs (rb_free_offset rb)"
    and N: "0 < N" "N < 2 ^ 32" "rsizes bs + r_size b \<le> N" "rb_free_offset rb < N"
    using inv bs by (auto simp: rb_inv_def N_def a_def n_def)
  have n: "n < N" using c(1) N(1) by (simp add: n_def ring_next_def)
  have nonempty: "bs \<noteq> [] \<Longrightarrow> n \<noteq> rb_free_offset rb"
    using chain_meet [of N n bs] c N(3) n by fastforce
  have p: "popped rb = rb\<lparr>rb_blocks := bs, rb_in_use_offset := (if n = rb_free_offset rb then 0 else n),
      rb_free_offset := (if n = rb_free_offset rb then 0 else rb_free_offset rb)\<rparr>"
    using c(1) N(2) bs by (simp add: popped_def N_def a_def n_def Let_def)
  show ?thesis
  proof (cases "bs = []")
    case True
    then show ?thesis using c(3) N by (simp add: p rb_inv_def N_def)
  next
    case False
    then show ?thesis using nonempty [OF False] c(3) N n by (simp add: p rb_inv_def N_def)
  qed
qed

lemma popped_simps [simp]:
  "rb_blocks (popped rb) = tl (rb_blocks rb)" "rb_size (popped rb) = rb_size rb"
  "rb_base_offset (popped rb) = rb_base_offset rb"
  by (simp_all add: popped_def Let_def)

text \<open>Waiting for several blocks, oldest first.\<close>

fun wait_all :: "(int32 \<Rightarrow> 'h \<Rightarrow> 'h option) \<Rightarrow> rb_block list \<Rightarrow> 'h \<Rightarrow> 'h option" where
  "wait_all wait [] h = Some h"
| "wait_all wait (b # bs) h = (case wait_for wait b h of None \<Rightarrow> None | Some h' \<Rightarrow> wait_all wait bs h')"

section \<open>Making room and allocating\<close>

definition room :: "ring_buffer \<Rightarrow> nat" where
  "room rb = (if rb_blocks rb = [] then rb_size rb
     else if rb_free_offset rb = rb_in_use_offset rb then 0
     else if rb_in_use_offset rb < rb_free_offset rb
          then max (rb_size rb - rb_free_offset rb) (rb_in_use_offset rb)
          else rb_in_use_offset rb - rb_free_offset rb)"

lemma GetLargestFreeSizeNoWaiting_room:
  "rb_inv rb \<Longrightarrow> GetLargestFreeSizeNoWaiting rb = Some (room rb)"
  by (auto simp: GetLargestFreeSizeNoWaiting_def room_def rb_inv_def)

lemma make_room_spec:
  assumes "rb_inv rb"
  shows "make_room wait n rb h = Some (rb', h') \<Longrightarrow>
    rb_inv rb' \<and> n \<le> room rb' \<and> rb_size rb' = rb_size rb \<and> rb_base_offset rb' = rb_base_offset rb \<and>
    (\<exists>k. rb_blocks rb' = drop k (rb_blocks rb) \<and> wait_all wait (take k (rb_blocks rb)) h = Some h')"
  using assms
proof (induction wait n rb h rule: make_room.induct)
  case (1 wait n rb h)
  note eq = make_room.simps [of wait n rb h]
    and g = GetLargestFreeSizeNoWaiting_room [OF "1.prems"(2)]
  show ?case
  proof (cases "room rb < n")
    case False
    then have "rb' = rb" "h' = h" using "1.prems"(1) by (auto simp: eq g)
    with False "1.prems"(2) show ?thesis by (auto intro: exI [of _ 0])
  next
    case True
    with "1.prems"(1) obtain rb1 h1 where f: "FreeOldestBlock wait rb h = Some (rb1, h1)"
      and m: "make_room wait n rb1 h1 = Some (rb', h')"
      by (auto simp: eq g split: option.splits)
    then have ne: "rb_blocks rb \<noteq> []" "rb1 = popped rb"
      and w: "wait_for wait (hd (rb_blocks rb)) h = Some h1"
      by (auto simp: FreeOldestBlock_eq split: if_splits)
    then obtain b bs where bs: "rb_blocks rb = b # bs" by (cases "rb_blocks rb") auto
    from "1.IH" [OF g True f _ m] obtain k where k: "rb_blocks rb' = drop k bs"
      "wait_all wait (take k bs) h1 = Some h'" "rb_inv rb'" "n \<le> room rb'"
      "rb_size rb' = rb_size rb" "rb_base_offset rb' = rb_base_offset rb"
      using popped_inv [OF "1.prems"(2) ne(1)] ne(2) bs by auto
    then show ?thesis using w bs by (auto intro!: exI [of _ "Suc k"])
  qed
qed

text \<open>
  Room is always made when nothing is in use and every wait returns: in the end the ring is empty.
\<close>

lemma make_room_total:
  assumes "rb_inv rb" and "n \<le> rb_size rb" and "\<forall>b \<in> set (rb_blocks rb). r_state b \<noteq> RB_IN_USE"
    and "\<And>t h. wait t h \<noteq> None"
  shows "make_room wait n rb h \<noteq> None"
  using assms
proof (induction wait n rb h rule: make_room.induct)
  case (1 wait n rb h)
  note eq = make_room.simps [of wait n rb h]
    and g = GetLargestFreeSizeNoWaiting_room [OF "1.prems"(1)]
  show ?case
  proof (cases "room rb < n")
    case True
    then have ne: "rb_blocks rb \<noteq> []" using "1.prems"(2) by (auto simp: room_def)
    then have "r_state (hd (rb_blocks rb)) \<noteq> RB_IN_USE" using "1.prems"(3) by simp
    then obtain h1 where "wait_for wait (hd (rb_blocks rb)) h = Some h1"
      using "1.prems"(4) by (cases "r_state (hd (rb_blocks rb))") (auto simp: wait_for_def)
    then have f: "FreeOldestBlock wait rb h = Some (popped rb, h1)"
      using ne by (simp add: FreeOldestBlock_eq)
    have "\<forall>b \<in> set (rb_blocks (popped rb)). r_state b \<noteq> RB_IN_USE"
      using "1.prems"(3) ne by (auto dest: list.set_sel(2))
    from "1.IH" [OF g True f refl popped_inv [OF "1.prems"(1) ne] _ this "1.prems"(4)] "1.prems"(2)
    show ?thesis using True by (simp add: eq g f)
  qed (simp add: eq g)
qed

lemma place_block_spec:
  assumes inv: "rb_inv rb" and n: "0 < n" "n \<le> room rb" and p: "place_block n rb = (rb', offset)"
    and base: "rb_base_offset rb + rb_size rb \<le> 2 ^ 32" and big: "rb_size rb \<le> 2 ^ 31"
  shows "rb_inv rb' \<and> rb_size rb' = rb_size rb \<and> rb_base_offset rb' = rb_base_offset rb \<and>
    (\<exists>pad a. rb_blocks rb' = rb_blocks rb @ pad @ [mk_block a n RB_IN_USE] \<and>
       (\<forall>b \<in> set pad. r_state b = RB_PADDING) \<and>
       offset = a + rb_base_offset rb \<and> a + n \<le> rb_size rb)"
proof -
  define N f u where "N = rb_size rb" and "f = rb_free_offset rb" and "u = rb_in_use_offset rb"
  have i: "0 < N" "N < 2 ^ 32" "u < N" "f < N" "chain N u (rb_blocks rb) f"
    "rsizes (rb_blocks rb) \<le> N" "rb_blocks rb = [] \<Longrightarrow> u = 0"
    using inv by (auto simp: rb_inv_def N_def f_def u_def)
  have nN: "n \<le> N" "f = u \<longrightarrow> rb_blocks rb = []" "f < u \<longrightarrow> f + n \<le> u" "u < f \<longrightarrow> f + n \<le> N \<or> n \<le> u"
    using n i by (auto simp: room_def N_def f_def u_def split: if_splits)
  have u0: "rb_blocks rb = [] \<Longrightarrow> f = 0" using i(5,7) by auto
  have sum: "f = (u + rsizes (rb_blocks rb)) mod N" using chain_mod [OF i(5,3)] by simp
  have used: "rb_blocks rb \<noteq> [] \<Longrightarrow> rsizes (rb_blocks rb) = (if u < f then f - u else f + N - u)"
  proof -
    assume ne: "rb_blocks rb \<noteq> []"
    then have "f \<noteq> u" using nN(2) by simp
    moreover have "0 < rsizes (rb_blocks rb)" using rsizes_pos [OF i(5) ne] .
    moreover have "u + rsizes (rb_blocks rb) < 2 * N" using i(3,6) by simp
    ultimately show ?thesis using sum i(3,4,6) by (auto simp: mod_if split: if_splits)
  qed
  have nf: "add32 n f = n + f" using nN(1) i(4) big by (simp add: N_def)
  show ?thesis
  proof (cases "N < n + f")
    case False
    let ?b = "mk_block f n RB_IN_USE"
    have fits: "rsizes (rb_blocks rb) + n \<le> N"
    proof (cases "rb_blocks rb = []")
      case True
      then show ?thesis using nN(1) by simp
    next
      case ne: False
      then have "rsizes (rb_blocks rb) = (if u < f then f - u else f + N - u)" by (rule used)
      moreover have "f \<noteq> u" using nN(2) ne by simp
      ultimately show ?thesis using nN(3) False i(3) by (cases "u < f") simp_all
    qed
    have "add32 f n = f + n" using nf by (simp only: add32_def add.commute)
    moreover have "add32 f (rb_base_offset rb) = f + rb_base_offset rb"
      using base i(4) by (simp add: N_def)
    ultimately
    have r: "rb' = rb\<lparr>rb_blocks := rb_blocks rb @ [?b], rb_free_offset := ring_next N (f + n)\<rparr>"
      "offset = f + rb_base_offset rb"
      using p False nf by (auto simp: place_block_def Let_def ring_next_def N_def f_def)
    have "rb_inv rb'" using i fits n(1) False
      by (auto simp: r rb_inv_def chain_append mk_block_def ring_next_def simp flip: N_def u_def)
    then show ?thesis using r False by (auto simp: N_def intro!: exI [of _ "[]"])
  next
    case True
    then have "f \<noteq> 0" using nN(1) by linarith
    then have ne: "rb_blocks rb \<noteq> []" using u0 by blast
    then have "f \<noteq> u" using nN(2) by blast
    moreover have "\<not> f < u" using nN(3) True i(3) by linarith
    ultimately have uf: "u < f" by simp
    then have un: "n \<le> u" using nN(4) True by linarith
    let ?p = "mk_block f (N - f) RB_PADDING" and ?b = "mk_block 0 n RB_IN_USE"
    have "rsizes (rb_blocks rb) = f - u" using used [OF ne] uf by simp
    then have fits: "rsizes (rb_blocks rb) + (N - f) + n \<le> N" using uf un i(4) by simp
    have "sub32 N f = N - f" using i(2,4) by simp
    moreover have "n < 2 ^ 32" "rb_base_offset rb < 2 ^ 32" using un i base by (simp_all add: N_def)
    then have "add32 0 n = n" "add32 0 (rb_base_offset rb) = rb_base_offset rb" by simp_all
    ultimately have r: "rb' = rb\<lparr>rb_blocks := rb_blocks rb @ [?p, ?b], rb_free_offset := n\<rparr>"
      "offset = rb_base_offset rb"
      using p True nf un i(3) by (auto simp: place_block_def Let_def ring_next_def N_def f_def)
    have "rb_inv rb'" using i fits n(1) True uf un
      by (auto simp: r rb_inv_def chain_append mk_block_def ring_next_def simp flip: N_def u_def)
    then show ?thesis using r un i(3)
      by (auto simp: N_def mk_block_def intro!: exI [of _ "[?p]"] exI [of _ 0])
  qed
qed

lemma RingBuffer_Alloc_spec:
  assumes inv: "rb_inv rb" and base: "rb_base_offset rb + rb_size rb \<le> 2 ^ 32" "rb_size rb \<le> 2 ^ 31"
    and r: "RingBuffer_Alloc wait n rb h = Some (rb', h', offset)"
  shows "rb_inv rb' \<and> rb_size rb' = rb_size rb \<and> rb_base_offset rb' = rb_base_offset rb \<and>
    (\<exists>k pad a. rb_blocks rb' = drop k (rb_blocks rb) @ pad @ [mk_block a (max 1 n) RB_IN_USE] \<and>
       (\<forall>b \<in> set pad. r_state b = RB_PADDING) \<and>
       wait_all wait (take k (rb_blocks rb)) h = Some h' \<and>
       offset = a + rb_base_offset rb \<and> a + max 1 n \<le> rb_size rb)"
proof -
  have m: "(if n = 0 then 1 else n) = max 1 n" by simp
  obtain rb1 where mk: "make_room wait (max 1 n) rb h = Some (rb1, h')"
    and pl: "place_block (max 1 n) rb1 = (rb', offset)"
    using r unfolding RingBuffer_Alloc_def m
    by (auto split: Option.bind_splits if_splits prod.splits simp: Let_def)
  from make_room_spec [OF inv mk] obtain k where k: "rb_inv rb1" "max 1 n \<le> room rb1"
    "rb_size rb1 = rb_size rb" "rb_base_offset rb1 = rb_base_offset rb"
    "rb_blocks rb1 = drop k (rb_blocks rb)" "wait_all wait (take k (rb_blocks rb)) h = Some h'"
    by auto
  show ?thesis
    using place_block_spec [OF k(1) _ k(2) pl] k base by fastforce
qed

section \<open>Blocks do not overlap\<close>

definition apart :: "rb_block \<Rightarrow> rb_block \<Rightarrow> bool" where
  "apart b c \<longleftrightarrow> r_offset b + r_size b \<le> r_offset c \<or> r_offset c + r_size c \<le> r_offset b"

lemma chain_position:
  assumes "chain N a bs e" and "a < N" and "c \<in> set bs"
  shows "\<exists>p. a \<le> p \<and> p + r_size c \<le> a + rsizes bs \<and> r_offset c = p mod N \<and>
    r_offset c + r_size c \<le> N \<and> 0 < r_size c"
  using assms
proof (induction bs arbitrary: a)
  case (Cons b bs)
  show ?case
  proof (cases "c = b")
    case True
    then show ?thesis using Cons.prems by (intro exI [of _ a]) auto
  next
    case False
    let ?n = "ring_next N (a + r_size b)"
    have c: "chain N ?n bs e" "c \<in> set bs" "a + r_size b \<le> N" using Cons.prems False by auto
    then have n: "?n < N" using Cons.prems(2) by (auto simp: ring_next_def)
    from Cons.IH [OF c(1) n c(2)] obtain p where p: "?n \<le> p" "p + r_size c \<le> ?n + rsizes bs"
      "r_offset c = p mod N" "r_offset c + r_size c \<le> N" "0 < r_size c" by blast
    show ?thesis
    proof (cases "a + r_size b = N")
      case True
      then have "?n = 0" by (simp add: ring_next_def)
      then show ?thesis using p True by (intro exI [of _ "p + N"]) auto
    next
      case False
      then have "?n = a + r_size b" by (simp add: ring_next_def)
      then show ?thesis using p by (intro exI [of _ p]) auto
    qed
  qed
qed simp

lemma chain_apart:
  assumes "chain N a bs e" and "a < N" and "rsizes bs \<le> N"
  shows "sorted_wrt apart bs"
  using assms
proof (induction bs arbitrary: a)
  case (Cons b bs)
  let ?n = "ring_next N (a + r_size b)"
  have c: "chain N ?n bs e" "a + r_size b \<le> N" "r_offset b = a" "0 < r_size b" using Cons.prems by auto
  then have n: "?n < N" using Cons.prems(2) by (auto simp: ring_next_def)
  have "apart b c" if mem: "c \<in> set bs" for c
  proof -
    obtain p where p: "?n \<le> p" "p + r_size c \<le> ?n + rsizes bs" "r_offset c = p mod N" "0 < r_size c"
      using chain_position [OF c(1) n mem] by blast
    show ?thesis
    proof (cases "p < N")
      case True
      then show ?thesis using p c Cons.prems(3) by (auto simp: apart_def ring_next_def split: if_splits)
    next
      case False
      then have "a + r_size b \<noteq> N" using p(1,2,4) Cons.prems(3) c(4) by (auto simp: ring_next_def)
      then have "?n = a + r_size b" by (simp add: ring_next_def)
      moreover from this have "p < 2 * N" using p(2,4) Cons.prems(2,3) by simp
      then have "r_offset c = p - N" using p(3) False by (simp add: mod_if)
      moreover have "r_size b + rsizes bs \<le> N" using Cons.prems(3) by simp
      ultimately have "r_offset c + r_size c \<le> a" using p(2) False by linarith
      then show ?thesis using c(3) by (simp add: apart_def)
    qed
  qed
  then show ?case using Cons.IH [OF c(1) n] Cons.prems(3) by auto
qed simp

lemma chain_in:
  "chain N a bs e \<Longrightarrow> b \<in> set bs \<Longrightarrow> 0 < r_size b \<and> r_offset b + r_size b \<le> N"
  by (induction bs arbitrary: a) auto

lemma rb_inv_apart: "rb_inv rb \<Longrightarrow> sorted_wrt apart (rb_blocks rb)"
  by (auto simp: rb_inv_def intro: chain_apart)

lemma chain_cong:
  "map r_offset bs = map r_offset cs \<Longrightarrow> map r_size bs = map r_size cs \<Longrightarrow>
     chain N a bs e = chain N a cs e"
proof (induction bs arbitrary: a cs)
  case (Cons b bs)
  then obtain c cs' where cs: "cs = c # cs'" by (cases cs) auto
  with Cons.prems have "map r_offset bs = map r_offset cs'" "map r_size bs = map r_size cs'"
    and "r_offset b = r_offset c" "r_size b = r_size c" by simp_all
  with Cons.IH [of cs'] show ?case by (simp only: cs chain.simps)
qed simp

lemma rb_inv_update:
  assumes "rb_inv rb" and "map r_offset bs = map r_offset (rb_blocks rb)"
    and "map r_size bs = map r_size (rb_blocks rb)"
  shows "rb_inv (rb\<lparr>rb_blocks := bs\<rparr>)"
proof -
  have "bs = [] \<longleftrightarrow> rb_blocks rb = []" using assms(2) by (metis map_is_Nil_conv)
  then show ?thesis using assms chain_cong [OF assms(2,3)] by (simp add: rb_inv_def)
qed

section \<open>Freeing pending a token\<close>

lemma RingBuffer_FreePendingToken_shape:
  assumes "RingBuffer_FreePendingToken offset token rb = Some rb'"
  obtains i where "i < length (rb_blocks rb)" "r_state (rb_blocks rb ! i) = RB_IN_USE"
    "r_offset (rb_blocks rb ! i) = sub32 offset (rb_base_offset rb)"
    "rb' = rb\<lparr>rb_blocks := (rb_blocks rb)[i := (rb_blocks rb ! i)
       \<lparr>r_token := token, r_state := RB_FREE_PENDING_TOKEN\<rparr>]\<rparr>"
proof -
  let ?bs = "rb_blocks rb" and ?o = "sub32 offset (rb_base_offset rb)"
  obtain j where j: "find_index (\<lambda>b. r_offset b = ?o) (rev ?bs) = Some j"
    using assms by (auto simp: RingBuffer_FreePendingToken_def Let_def split: if_splits option.splits)
  let ?i = "length ?bs - 1 - j"
  from find_index_SomeD [OF j] have "j < length ?bs" "r_offset (?bs ! ?i) = ?o"
    by (auto simp: rev_nth)
  moreover have "r_state (?bs ! ?i) = RB_IN_USE \<and> rb' = rb\<lparr>rb_blocks := ?bs[?i := (?bs ! ?i)
       \<lparr>r_token := token, r_state := RB_FREE_PENDING_TOKEN\<rparr>]\<rparr>"
    using assms j by (auto simp: RingBuffer_FreePendingToken_def Let_def split: if_splits)
  ultimately show thesis using that [of ?i] by auto
qed

lemma rb_inv_FreePendingToken:
  assumes "rb_inv rb" and "RingBuffer_FreePendingToken offset token rb = Some rb'"
  shows "rb_inv rb' \<and> rb_size rb' = rb_size rb \<and> rb_base_offset rb' = rb_base_offset rb"
  using assms(2)
proof (rule RingBuffer_FreePendingToken_shape)
  fix i
  assume i: "i < length (rb_blocks rb)"
    and rb': "rb' = rb\<lparr>rb_blocks := (rb_blocks rb)[i := (rb_blocks rb ! i)
       \<lparr>r_token := token, r_state := RB_FREE_PENDING_TOKEN\<rparr>]\<rparr>"
  then show ?thesis using assms(1)
    by (auto simp: rb' map_update list_update_same_conv intro!: rb_inv_update)
qed

text \<open>A block in use can always be freed.\<close>

lemma RingBuffer_FreePendingToken_total:
  assumes inv: "rb_inv rb" and b: "b \<in> set (rb_blocks rb)" "r_state b = RB_IN_USE"
    and base: "rb_base_offset rb + rb_size rb \<le> 2 ^ 32"
  shows "RingBuffer_FreePendingToken (r_offset b + rb_base_offset rb) token rb \<noteq> None"
proof -
  let ?bs = "rb_blocks rb" and ?P = "\<lambda>c. r_offset c = r_offset b"
  have sz: "0 < r_size c \<and> r_offset c + r_size c \<le> rb_size rb" if "c \<in> set ?bs" for c
    using inv that chain_in by (auto simp: rb_inv_def)
  have o: "sub32 (r_offset b + rb_base_offset rb) (rb_base_offset rb) = r_offset b"
    using base sz [OF b(1)] by simp
  have "find_index ?P (rev ?bs) \<noteq> None" using b by auto
  then obtain j where j: "find_index ?P (rev ?bs) = Some j" by (auto simp del: find_index_None)
  let ?i = "length ?bs - 1 - j"
  from find_index_SomeD [OF j] have i: "?i < length ?bs" "r_offset (?bs ! ?i) = r_offset b"
    by (auto simp: rev_nth)
  obtain k where k: "k < length ?bs" "?bs ! k = b" using b(1) by (auto simp: in_set_conv_nth)
  have "?bs ! ?i = b"
  proof (rule ccontr)
    assume ne: "?bs ! ?i \<noteq> b"
    then consider "k < ?i" | "?i < k" using k by (metis linorder_neqE_nat)
    then have "apart b (?bs ! ?i) \<or> apart (?bs ! ?i) b"
      using rb_inv_apart [OF inv] k i(1) by cases (auto simp: sorted_wrt_iff_nth_less)
    then show False using i sz [OF b(1)] sz [of "?bs ! ?i"] by (auto simp: apart_def)
  qed
  then show ?thesis using b j o by (auto simp: RingBuffer_FreePendingToken_def Let_def)
qed

section \<open>Every history of calls\<close>

inductive rb_step :: "(int32 \<Rightarrow> 'h \<Rightarrow> 'h option) \<Rightarrow> ring_buffer \<times> 'h \<Rightarrow> ring_buffer \<times> 'h \<Rightarrow> bool"
  for wait :: "int32 \<Rightarrow> 'h \<Rightarrow> 'h option" where
  rb_alloc: "RingBuffer_Alloc wait n rb h = Some (rb', h', offset) \<Longrightarrow> rb_step wait (rb, h) (rb', h')"
| rb_free_pending: "RingBuffer_FreePendingToken offset token rb = Some rb' \<Longrightarrow>
     rb_step wait (rb, h) (rb', h)"

inductive rb_reachable ::
  "nat \<Rightarrow> nat \<Rightarrow> (int32 \<Rightarrow> 'h \<Rightarrow> 'h option) \<Rightarrow> ring_buffer \<times> 'h \<Rightarrow> bool"
  for base :: nat and N :: nat and wait :: "int32 \<Rightarrow> 'h \<Rightarrow> 'h option" where
  rb_start: "rb_reachable base N wait (RingBuffer_init base N, h)"
| rb_more: "rb_reachable base N wait s \<Longrightarrow> rb_step wait s s' \<Longrightarrow> rb_reachable base N wait s'"

definition rb_fits :: "nat \<Rightarrow> nat \<Rightarrow> bool" where
  "rb_fits base N \<longleftrightarrow> 0 < N \<and> N \<le> 2 ^ 31 \<and> base + N \<le> 2 ^ 32"

lemma rb_step_inv:
  "rb_step wait s s' \<Longrightarrow> rb_inv (fst s) \<Longrightarrow> rb_fits base N \<Longrightarrow> rb_size (fst s) = N \<Longrightarrow>
     rb_base_offset (fst s) = base \<Longrightarrow>
     rb_inv (fst s') \<and> rb_size (fst s') = N \<and> rb_base_offset (fst s') = base"
  by (induction rule: rb_step.induct)
    (auto simp: rb_fits_def dest: RingBuffer_Alloc_spec rb_inv_FreePendingToken)

lemma rb_reachable_inv:
  "rb_reachable base N wait s \<Longrightarrow> rb_fits base N \<Longrightarrow>
     rb_inv (fst s) \<and> rb_size (fst s) = N \<and> rb_base_offset (fst s) = base"
proof (induction rule: rb_reachable.induct)
  case (rb_start h)
  then show ?case using rb_inv_init [of N base] by (simp add: rb_fits_def RingBuffer_init_def)
next
  case (rb_more s s')
  then show ?case using rb_step_inv [OF rb_more.hyps(2)] by blast
qed

section \<open>Properties\<close>

text \<open>
  A full ring: five bytes pending the token 7 and behind them three bytes pending the token 9.
\<close>

definition sample_ring :: ring_buffer where
  "sample_ring = \<lparr>rb_blocks = [\<lparr>r_offset = 0, r_size = 5, r_token = 7, r_state = RB_FREE_PENDING_TOKEN\<rparr>,
       \<lparr>r_offset = 5, r_size = 3, r_token = 9, r_state = RB_FREE_PENDING_TOKEN\<rparr>],
     rb_base_offset = 16, rb_size = 8, rb_free_offset = 0, rb_in_use_offset = 0\<rparr>"

lemma sample_ring_reachable: "rb_reachable 16 8 wait (sample_ring, h)"
proof -
  let ?a = "\<lparr>r_offset = 0, r_size = 5, r_token = 7, r_state = RB_FREE_PENDING_TOKEN\<rparr>"
  let ?r = "\<lambda>bs free. \<lparr>rb_blocks = bs, rb_base_offset = 16, rb_size = 8, rb_free_offset = free, rb_in_use_offset = 0\<rparr>"
  note defs = RingBuffer_Alloc_def RingBuffer_FreePendingToken_def RingBuffer_init_def make_room.simps
    GetLargestFreeSizeNoWaiting_def place_block_def mk_block_def sample_ring_def
  have "RingBuffer_Alloc wait 5 (RingBuffer_init 16 8) h = Some (?r [mk_block 0 5 RB_IN_USE] 5, h, 16)" by (simp add: defs)
  from rb_more [OF rb_start rb_alloc [OF this]] have s: "rb_reachable 16 8 wait (?r [mk_block 0 5 RB_IN_USE] 5, h)" .
  have "RingBuffer_FreePendingToken 16 7 (?r [mk_block 0 5 RB_IN_USE] 5) = Some (?r [?a] 5)" by (simp add: defs)
  from rb_more [OF s rb_free_pending [OF this]] have s: "rb_reachable 16 8 wait (?r [?a] 5, h)" .
  have "RingBuffer_Alloc wait 3 (?r [?a] 5) h = Some (?r [?a, mk_block 5 3 RB_IN_USE] 0, h, 21)" by (simp add: defs)
  from rb_more [OF s rb_alloc [OF this]] have s: "rb_reachable 16 8 wait (?r [?a, mk_block 5 3 RB_IN_USE] 0, h)" .
  have "RingBuffer_FreePendingToken 21 9 (?r [?a, mk_block 5 3 RB_IN_USE] 0) = Some sample_ring" by (simp add: defs)
  from rb_more [OF s rb_free_pending [OF this]] show ?thesis .
qed

text \<open>
  C38 (safety): an allocation first waits, oldest first, for the tokens of exactly the blocks it takes
  back, and returns a region of the requested size (1 for a request of 0) inside the ring that
  overlaps no block that is still in use or pending.
\<close>

theorem ring_alloc_disjoint:
  assumes "rb_reachable base N wait (rb, h)" and "rb_fits base N"
    and "RingBuffer_Alloc wait n rb h = Some (rb', h', offset)"
  shows "\<exists>k. wait_all wait (take k (rb_blocks rb)) h = Some h' \<and>
    base \<le> offset \<and> offset - base + max 1 n \<le> N \<and>
    (\<forall>b \<in> set (drop k (rb_blocks rb)). b \<in> set (rb_blocks rb') \<and>
       (r_offset b + r_size b \<le> offset - base \<or> offset - base + max 1 n \<le> r_offset b))"
proof -
  have inv: "rb_inv rb" "rb_size rb = N" "rb_base_offset rb = base"
    using rb_reachable_inv [OF assms(1,2)] by auto
  have b: "rb_base_offset rb + rb_size rb \<le> 2 ^ 32" "rb_size rb \<le> 2 ^ 31"
    using assms(2) inv by (auto simp: rb_fits_def)
  from RingBuffer_Alloc_spec [OF inv(1) b assms(3)] obtain k pad a where k: "rb_inv rb'"
    "rb_blocks rb' = drop k (rb_blocks rb) @ pad @ [mk_block a (max 1 n) RB_IN_USE]"
    "wait_all wait (take k (rb_blocks rb)) h = Some h'" "offset = a + base" "a + max 1 n \<le> N"
    using inv by blast
  then have "\<forall>b \<in> set (drop k (rb_blocks rb)). apart b (mk_block a (max 1 n) RB_IN_USE)"
    using rb_inv_apart [OF k(1)] by (auto simp: sorted_wrt_append)
  then show ?thesis using k by (intro exI [of _ k]) (auto simp: apart_def mk_block_def)
qed

theorem ring_alloc_disjoint_witness:
  "rb_reachable 16 8 (\<lambda>t h. Some (h + t)) (sample_ring, 0) \<and>
    (\<exists>rb' k. RingBuffer_Alloc (\<lambda>t h. Some (h + t)) 4 sample_ring 0 = Some (rb', 7, 16) \<and>
      wait_all (\<lambda>t h. Some (h + t)) (take k (rb_blocks sample_ring)) 0 = Some 7 \<and>
      list_all (\<lambda>b. b \<in> set (rb_blocks rb') \<and> (r_offset b + r_size b \<le> 0 \<or> 4 \<le> r_offset b)) (drop k (rb_blocks sample_ring)))"
proof -
  have fits: "rb_fits 16 8" by (simp add: rb_fits_def)
  have "\<exists>rb'. RingBuffer_Alloc (\<lambda>t h. Some (h + t)) 4 sample_ring 0 = Some (rb', 7, 16)"
    by (simp add: RingBuffer_Alloc_def sample_ring_def make_room.simps GetLargestFreeSizeNoWaiting_def FreeOldestBlock_def
        place_block_def to_int32_def)
  then obtain rb' where r: "RingBuffer_Alloc (\<lambda>t h. Some (h + t)) 4 sample_ring 0 = Some (rb', 7, 16)" ..
  from ring_alloc_disjoint [OF sample_ring_reachable fits r] show ?thesis
    using r sample_ring_reachable by (auto simp: list_all_iff)
qed

text \<open>
  When the earlier allocations have been freed (pending tokens) and every wait
  returns, an allocation of up to the whole size of the ring returns a block: no check fails.
\<close>

theorem ring_alloc_succeeds:
  assumes "rb_reachable base N wait (rb, h)" and "rb_fits base N"
    and "n \<le> RingBuffer_GetLargestFreeOrPendingSize rb"
    and "\<forall>b \<in> set (rb_blocks rb). r_state b \<noteq> RB_IN_USE" and "\<And>t h. wait t h \<noteq> None"
  shows "RingBuffer_Alloc wait n rb h \<noteq> None"
proof -
  have inv: "rb_inv rb" using rb_reachable_inv [OF assms(1,2)] by simp
  have n: "n \<le> rb_size rb" "(if n = 0 then 1 else n) = max 1 n"
    using assms(3) by (auto simp: RingBuffer_GetLargestFreeOrPendingSize_def)
  have "max 1 n \<le> rb_size rb" using n(1) inv by (simp add: rb_inv_def Suc_le_eq)
  from make_room_total [OF inv this assms(4,5)] obtain rb1 h1
    where "make_room wait (max 1 n) rb h = Some (rb1, h1)" by fastforce
  moreover have "rb_blocks rb = [] \<or> r_state (last (rb_blocks rb)) \<noteq> RB_IN_USE"
    using assms(4) by auto
  ultimately show ?thesis using n
    by (auto simp: RingBuffer_Alloc_def Let_def split: prod.splits)
qed

theorem ring_alloc_succeeds_witness:
  "RingBuffer_Alloc (\<lambda>t (h :: nat). Some (Suc h)) 8 (RingBuffer_init 16 8) 0 \<noteq> None"
  by (rule ring_alloc_succeeds [OF rb_start, of 16 8])
    (simp_all add: rb_fits_def RingBuffer_GetLargestFreeOrPendingSize_def RingBuffer_init_def)

end
