(* ===== verification/MappedMemory.thy ===== *)
theory MappedMemory
  imports FencedAllocator
begin

text \<open>
  \<open>MappedMemoryManager\<close> (\<open>src/gpu/command_buffer/client/mapped_memory.cc\<close>): a list of shared-memory
  chunks, each with a \<open>FencedAllocatorWrapper\<close> over it. A pointer is an address (0 is \<open>NULL\<close>).
  The helper and its command buffer are parameters: the token read last, the wait for a token,
  \<open>CreateTransferBuffer\<close> (a new state and an id, \<open>-1\<close> on failure) and \<open>GetTransferBuffer\<close> (the
  address and the size of a buffer). A failing \<open>GPU_DCHECK\<close> is a missing result.
\<close>

section \<open>The pointer wrapper of the allocator\<close>

type_synonym pointer = int

abbreviation (input) NULL :: pointer where
  "NULL \<equiv> 0"

definition FencedAllocatorWrapper_GetPointer :: "pointer \<Rightarrow> uint32 \<Rightarrow> pointer" where
  "FencedAllocatorWrapper_GetPointer base offset =
     (if offset = kInvalidOffset then NULL else base + int offset)"

definition FencedAllocatorWrapper_GetOffset :: "pointer \<Rightarrow> pointer \<Rightarrow> uint32" where
  "FencedAllocatorWrapper_GetOffset base pointer =
     (if pointer \<noteq> NULL then nat ((pointer - base) mod 2 ^ 32) else kInvalidOffset)"

lemma wrapper_roundtrip:
  "0 < base \<Longrightarrow> offset < 2 ^ 32 \<Longrightarrow>
     FencedAllocatorWrapper_GetOffset base (FencedAllocatorWrapper_GetPointer base offset) = offset"
  by (simp add: FencedAllocatorWrapper_GetOffset_def FencedAllocatorWrapper_GetPointer_def)

section \<open>Chunks\<close>

record chunk =
  shm_id :: int32
  shm_ptr :: pointer
  shm_size :: uint32
  allocator :: "fa_block list"

definition MemoryChunk_init :: "int32 \<Rightarrow> pointer \<Rightarrow> uint32 \<Rightarrow> chunk" where
  "MemoryChunk_init i p n = \<lparr>shm_id = i, shm_ptr = p, shm_size = n, allocator = FencedAllocator_init n\<rparr>"

definition MemoryChunk_Alloc ::
  "'h waiter \<Rightarrow> uint32 \<Rightarrow> chunk \<Rightarrow> 'h \<Rightarrow> (chunk \<times> 'h \<times> pointer) option" where
  "MemoryChunk_Alloc wait n c h =
     map_option (\<lambda>(bs, h', offset).
         (c\<lparr>allocator := bs\<rparr>, h', FencedAllocatorWrapper_GetPointer (shm_ptr c) offset))
       (FencedAllocator_Alloc wait n (allocator c) h)"

definition MemoryChunk_Free :: "pointer \<Rightarrow> chunk \<Rightarrow> chunk option" where
  "MemoryChunk_Free p c =
     (if p \<noteq> NULL
      then map_option (\<lambda>bs. c\<lparr>allocator := bs\<rparr>)
             (FencedAllocator_Free (FencedAllocatorWrapper_GetOffset (shm_ptr c) p) (allocator c))
      else None)"

definition MemoryChunk_FreePendingToken :: "pointer \<Rightarrow> int32 \<Rightarrow> chunk \<Rightarrow> chunk option" where
  "MemoryChunk_FreePendingToken p token c =
     (if p \<noteq> NULL
      then map_option (\<lambda>bs. c\<lparr>allocator := bs\<rparr>)
             (FencedAllocator_FreePendingToken
               (FencedAllocatorWrapper_GetOffset (shm_ptr c) p) token (allocator c))
      else None)"

definition IsInChunk :: "pointer \<Rightarrow> chunk \<Rightarrow> bool" where
  "IsInChunk p c \<longleftrightarrow> shm_ptr c \<le> p \<and> p < shm_ptr c + int (shm_size c)"

section \<open>The manager\<close>

text \<open>The loop over the chunks: each chunk looked at frees its unused blocks, fit or not.\<close>

fun alloc_in_chunks ::
  "('h \<Rightarrow> int32) \<Rightarrow> 'h waiter \<Rightarrow> uint32 \<Rightarrow> chunk list \<Rightarrow> 'h \<Rightarrow>
     (chunk list \<times> 'h \<times> (pointer \<times> int32 \<times> uint32) option) option" where
  "alloc_in_chunks last_read wait n [] h = Some ([], h, None)"
| "alloc_in_chunks last_read wait n (c # cs) h =
     (let c1 = c\<lparr>allocator := FreeUnused (last_read h) (allocator c)\<rparr>
      in if n \<le> GetLargestFreeSize (allocator c1)
         then do {
           (c2, h', mem) \<leftarrow> MemoryChunk_Alloc wait n c1 h;
           guard (mem \<noteq> NULL);
           Some (c2 # cs, h',
             Some (mem, shm_id c2, FencedAllocatorWrapper_GetOffset (shm_ptr c2) mem))
         }
         else do {
           (cs', h', r) \<leftarrow> alloc_in_chunks last_read wait n cs h;
           Some (c1 # cs', h', r)
         })"

definition MappedMemoryManager_Alloc ::
  "('h \<Rightarrow> int32) \<Rightarrow> 'h waiter \<Rightarrow> (uint32 \<Rightarrow> int32 \<Rightarrow> 'h \<Rightarrow> 'h \<times> int32) \<Rightarrow>
     (int32 \<Rightarrow> 'h \<Rightarrow> pointer \<times> uint32) \<Rightarrow> uint32 \<Rightarrow> chunk list \<Rightarrow> 'h \<Rightarrow>
     (chunk list \<times> 'h \<times> (pointer \<times> int32 \<times> uint32) option) option" where
  "MappedMemoryManager_Alloc last_read wait create get_buffer n cs h = do {
     (cs1, h1, found) \<leftarrow> alloc_in_chunks last_read wait n cs h;
     (case found of
        Some r \<Rightarrow> Some (cs1, h1, Some r)
      | None \<Rightarrow>
          (case create n (-1) h1 of (h2, i) \<Rightarrow>
             if i = -1 then Some (cs1, h2, None)
             else (case get_buffer i h2 of (p, sz) \<Rightarrow> do {
               (mc, h3, mem) \<leftarrow> MemoryChunk_Alloc wait n (MemoryChunk_init i p sz) h2;
               guard (mem \<noteq> NULL);
               Some (cs1 @ [mc], h3,
                 Some (mem, shm_id mc, FencedAllocatorWrapper_GetOffset (shm_ptr mc) mem))
             })))
   }"

fun MappedMemoryManager_Free :: "pointer \<Rightarrow> chunk list \<Rightarrow> chunk list option" where
  "MappedMemoryManager_Free p [] = None"
| "MappedMemoryManager_Free p (c # cs) =
     (if IsInChunk p c then map_option (\<lambda>c'. c' # cs) (MemoryChunk_Free p c)
      else map_option ((#) c) (MappedMemoryManager_Free p cs))"

fun MappedMemoryManager_FreePendingToken :: "pointer \<Rightarrow> int32 \<Rightarrow> chunk list \<Rightarrow> chunk list option" where
  "MappedMemoryManager_FreePendingToken p token [] = None"
| "MappedMemoryManager_FreePendingToken p token (c # cs) =
     (if IsInChunk p c then map_option (\<lambda>c'. c' # cs) (MemoryChunk_FreePendingToken p token c)
      else map_option ((#) c) (MappedMemoryManager_FreePendingToken p token cs))"

section \<open>Lemmas\<close>

definition chunk_ok :: "chunk \<Rightarrow> bool" where
  "chunk_ok c \<longleftrightarrow> 0 < shm_ptr c \<and> fa_inv (shm_size c) (allocator c)"

text \<open>Chunks mapped at addresses that do not overlap.\<close>

definition chunks_ok :: "chunk list \<Rightarrow> bool" where
  "chunks_ok cs \<longleftrightarrow> (\<forall>c \<in> set cs. chunk_ok c) \<and>
     sorted_wrt (\<lambda>c d. shm_ptr c + int (shm_size c) \<le> shm_ptr d \<or>
       shm_ptr d + int (shm_size d) \<le> shm_ptr c) cs"

lemma GetLargestFreeSize_le:
  "n \<le> foldl (\<lambda>m b. if b_state b = FREE then max m (b_size b) else m) k bs \<longleftrightarrow>
     n \<le> k \<or> (\<exists>b \<in> set bs. b_state b = FREE \<and> n \<le> b_size b)"
  by (induction bs arbitrary: k) auto

lemma largest_free_found:
  assumes "0 < n" and "n \<le> GetLargestFreeSize bs"
  shows "find_index (\<lambda>b. b_state b = FREE \<and> n \<le> b_size b) bs \<noteq> None"
  using assms by (auto simp: GetLargestFreeSize_def GetLargestFreeSize_le)

text \<open>When a free block is large enough, the allocation neither waits nor touches the helper.\<close>

lemma MemoryChunk_Alloc_free:
  assumes ok: "chunk_ok c" and n: "0 < n" "n \<le> GetLargestFreeSize (allocator c)"
  obtains bs offset where "\<And>(wait :: 'h waiter) h. MemoryChunk_Alloc wait n c h =
      Some (c\<lparr>allocator := bs\<rparr>, h, shm_ptr c + int offset)"
    "alloc_found (shm_size c) n (allocator c) bs offset" "offset < 2 ^ 32"
proof -
  have inv: "fa_inv (shm_size c) (allocator c)" using ok by (simp add: chunk_ok_def)
  obtain i where i: "find_index (\<lambda>b. b_state b = FREE \<and> n \<le> b_size b) (allocator c) = Some i"
    using largest_free_found [OF n] by (auto simp del: find_index_None)
  then have "i < length (allocator c)" "free_block (allocator c ! i)" "n \<le> b_size (allocator c ! i)"
    by (auto dest!: find_index_SomeD simp: free_block_def)
  then obtain bs offset where a: "AllocInBlock i n (allocator c) = Some (bs, offset)"
    "alloc_found (shm_size c) n (allocator c) bs offset"
    using alloc_found_at [OF inv] n(1) by blast
  then have off: "offset \<noteq> kInvalidOffset" and "fa_inv (shm_size c) bs" "(offset, n) \<in> set (live bs)"
    by (auto simp: alloc_found_def)
  then have "offset + n \<le> shm_size c" "shm_size c < 2 ^ 32"
    using layout_mem by (fastforce simp: fa_inv_def live_def)+
  then have "offset < 2 ^ 32" by simp
  moreover have "MemoryChunk_Alloc wait n c h = Some (c\<lparr>allocator := bs\<rparr>, h, shm_ptr c + int offset)"
    for wait :: "'h waiter" and h
    using i a(1) n(1) off
    by (simp add: MemoryChunk_Alloc_def FencedAllocator_Alloc_def FencedAllocatorWrapper_GetPointer_def)
  ultimately show thesis using that a(2) by blast
qed

text \<open>The used regions as absolute addresses.\<close>

definition mapped_live :: "chunk list \<Rightarrow> (pointer \<times> uint32) set" where
  "mapped_live cs = (\<Union>c \<in> set cs. (\<lambda>(a, m). (shm_ptr c + int a, m)) ` set (live (allocator c)))"

definition mapped_apart :: "pointer \<times> uint32 \<Rightarrow> pointer \<times> uint32 \<Rightarrow> bool" where
  "mapped_apart r q \<longleftrightarrow> fst r + int (snd r) \<le> fst q \<or> fst q + int (snd q) \<le> fst r"

definition chunk_key :: "chunk \<Rightarrow> int32 \<times> pointer \<times> uint32" where
  "chunk_key c = (shm_id c, shm_ptr c, shm_size c)"

lemma mapped_live_Cons:
  "mapped_live (c # cs) =
     (\<lambda>(a, m). (shm_ptr c + int a, m)) ` set (live (allocator c)) \<union> mapped_live cs"
  by (simp add: mapped_live_def)

lemma live_bounds: "fa_inv N bs \<Longrightarrow> (a, m) \<in> set (live bs) \<Longrightarrow> a + m \<le> N \<and> 0 < m \<and> N < 2 ^ 32"
  using layout_mem by (fastforce simp: fa_inv_def live_def)

lemma live_sorted: "fa_inv N bs \<Longrightarrow> sorted_wrt (\<lambda>(a, m) (b, n). a + m \<le> b) (live bs)"
  using layout_sorted [of 0 bs N] by (simp add: fa_inv_def live_def sorted_wrt_map sorted_wrt_filter)

lemma alloc_found_apart:
  assumes "alloc_found N n bs bs' offset" and "(a, m) \<in> set (live bs)"
  shows "a + m \<le> offset \<or> offset + n \<le> a"
  using assms live_sorted by (fastforce simp: alloc_found_def sorted_wrt_append)

lemma chunk_ok_FreeUnused:
  "chunk_ok c \<Longrightarrow> chunk_ok (c\<lparr>allocator := FreeUnused t (allocator c)\<rparr>) \<and>
     live (FreeUnused t (allocator c)) = live (allocator c)"
  using FreeUnused_spec [of "shm_size c" "allocator c" t] by (simp add: chunk_ok_def)

lemma chunks_ok_Cons:
  "chunks_ok (c # cs) \<longleftrightarrow> chunk_ok c \<and> chunks_ok cs \<and>
     (\<forall>d \<in> set cs. shm_ptr c + int (shm_size c) \<le> shm_ptr d \<or>
       shm_ptr d + int (shm_size d) \<le> shm_ptr c)"
  by (auto simp: chunks_ok_def)

lemma chunk_keys_range:
  assumes "map chunk_key cs = map chunk_key ds"
  shows "(\<lambda>c. (shm_ptr c, shm_size c)) ` set cs = (\<lambda>c. (shm_ptr c, shm_size c)) ` set ds"
proof -
  have "(\<lambda>c. (shm_ptr c, shm_size c)) = snd \<circ> chunk_key" by (auto simp: chunk_key_def)
  moreover have "chunk_key ` set cs = chunk_key ` set ds" using assms by (metis set_map)
  ultimately show ?thesis by (metis image_comp)
qed

lemma mapped_live_range:
  assumes "\<forall>c \<in> set cs. chunk_ok c" and "r \<in> mapped_live cs"
  shows "\<exists>c \<in> set cs. shm_ptr c \<le> fst r \<and> fst r + int (snd r) \<le> shm_ptr c + int (shm_size c)"
proof -
  obtain c a m where c: "c \<in> set cs" "(a, m) \<in> set (live (allocator c))"
    "r = (shm_ptr c + int a, m)"
    using assms(2) by (auto simp: mapped_live_def)
  then have "a + m \<le> shm_size c"
    using live_bounds [of "shm_size c" "allocator c" a m] assms(1) by (simp add: chunk_ok_def)
  with c show ?thesis by (intro bexI [of _ c]) auto
qed

lemma alloc_in_chunks_spec:
  assumes "chunks_ok cs" and "0 < n"
  shows "\<exists>cs' r. alloc_in_chunks last_read wait n cs h = Some (cs', h, r) \<and> chunks_ok cs' \<and>
    map chunk_key cs' = map chunk_key cs \<and>
    (case r of None \<Rightarrow> mapped_live cs' = mapped_live cs
     | Some (mem, i, offset) \<Rightarrow>
         mapped_live cs' = insert (mem, n) (mapped_live cs) \<and>
         (\<forall>q \<in> mapped_live cs. mapped_apart (mem, n) q) \<and>
         (\<exists>c \<in> set cs'. shm_id c = i \<and> mem = shm_ptr c + int offset \<and> offset + n \<le> shm_size c))"
  using assms
proof (induction cs)
  case Nil
  then show ?case by simp
next
  case (Cons c cs)
  define c1 where "c1 = c\<lparr>allocator := FreeUnused (last_read h) (allocator c)\<rparr>"
  have c1: "chunk_ok c1" "live (allocator c1) = live (allocator c)" "chunk_key c1 = chunk_key c"
    "shm_ptr c1 = shm_ptr c" "shm_size c1 = shm_size c" "shm_id c1 = shm_id c"
    using Cons.prems(1) chunk_ok_FreeUnused by (auto simp: c1_def chunks_ok_Cons chunk_key_def)
  show ?case
  proof (cases "n \<le> GetLargestFreeSize (allocator c1)")
    case True
    obtain bs offset where a: "\<And>(wait :: 'a waiter) h. MemoryChunk_Alloc wait n c1 h =
        Some (c1\<lparr>allocator := bs\<rparr>, h, shm_ptr c1 + int offset)"
      "alloc_found (shm_size c1) n (allocator c1) bs offset" "offset < 2 ^ 32"
      using MemoryChunk_Alloc_free [OF c1(1) Cons.prems(2) True] by blast
    let ?c2 = "c1\<lparr>allocator := bs\<rparr>" and ?mem = "shm_ptr c + int offset"
    have inv: "fa_inv (shm_size c) bs" and l: "set (live bs) = insert (offset, n) (set (live (allocator c)))"
      using a(2) c1 by (auto simp: alloc_found_def)
    have b: "offset + n \<le> shm_size c" using live_bounds [OF inv] l by auto
    have "0 < shm_ptr c" using Cons.prems(1) by (simp add: chunks_ok_Cons chunk_ok_def)
    then have run: "alloc_in_chunks last_read wait n (c # cs) h =
        Some (?c2 # cs, h, Some (?mem, shm_id c, offset))"
      using True a(1,3) c1(4,6)
      by (simp add: FencedAllocatorWrapper_GetOffset_def flip: c1_def)
    have ok: "chunks_ok (?c2 # cs)" using Cons.prems(1) inv c1 by (auto simp: chunks_ok_Cons chunk_ok_def)
    have ap: "mapped_apart (?mem, n) q" if q: "q \<in> mapped_live (c # cs)" for q
    proof (cases "q \<in> mapped_live cs")
      case True
      then obtain d where "d \<in> set cs" "shm_ptr d \<le> fst q" "fst q + int (snd q) \<le> shm_ptr d + int (shm_size d)"
        using mapped_live_range [of cs q] Cons.prems(1) by (auto simp: chunks_ok_def)
      then show ?thesis using Cons.prems(1) b by (auto simp: chunks_ok_Cons mapped_apart_def)
    next
      case False
      then obtain x m where "q = (shm_ptr c + int x, m)" "(x, m) \<in> set (live (allocator c))"
        using q by (auto simp: mapped_live_Cons)
      then have "x + m \<le> offset \<or> offset + n \<le> x" using alloc_found_apart [OF a(2)] c1(2) by simp
      then show ?thesis using \<open>q = _\<close> by (elim disjE) (simp_all add: mapped_apart_def)
    qed
    have "mapped_live (?c2 # cs) = insert (?mem, n) (mapped_live (c # cs))"
      using l c1 by (auto simp: mapped_live_Cons)
    moreover have "map chunk_key (?c2 # cs) = map chunk_key (c # cs)" using c1 by (simp add: chunk_key_def)
    moreover have "\<exists>d \<in> set (?c2 # cs). shm_id d = shm_id c \<and> ?mem = shm_ptr d + int offset \<and> offset + n \<le> shm_size d"
      using b c1 by simp
    ultimately show ?thesis using ok ap
      by (intro exI [of _ "?c2 # cs"] exI [of _ "Some (?mem, shm_id c, offset)"])
        (simp only: run simp_thms option.case prod.case, blast)
  next
    case False
    have "chunks_ok cs" using Cons.prems(1) by (simp add: chunks_ok_Cons)
    from Cons.IH [OF this Cons.prems(2)] obtain cs' r where ih: "alloc_in_chunks last_read wait n cs h = Some (cs', h, r)"
      "chunks_ok cs'" "map chunk_key cs' = map chunk_key cs"
      "case r of None \<Rightarrow> mapped_live cs' = mapped_live cs
     | Some (mem, i, offset) \<Rightarrow>
         mapped_live cs' = insert (mem, n) (mapped_live cs) \<and>
         (\<forall>q \<in> mapped_live cs. mapped_apart (mem, n) q) \<and>
         (\<exists>c \<in> set cs'. shm_id c = i \<and> mem = shm_ptr c + int offset \<and> offset + n \<le> shm_size c)"
      by blast
    have run: "alloc_in_chunks last_read wait n (c # cs) h = Some (c1 # cs', h, r)"
      using False ih(1) by (simp flip: c1_def)
    have sep: "\<forall>d \<in> set cs'. shm_ptr c + int (shm_size c) \<le> shm_ptr d \<or>
       shm_ptr d + int (shm_size d) \<le> shm_ptr c"
    proof
      fix d assume "d \<in> set cs'"
      then have "(shm_ptr d, shm_size d) \<in> (\<lambda>c. (shm_ptr c, shm_size c)) ` set cs'"
        by (rule image_eqI [OF refl])
      then obtain e where "e \<in> set cs" "shm_ptr e = shm_ptr d" "shm_size e = shm_size d"
        unfolding chunk_keys_range [OF ih(3)] by (metis (no_types, lifting) Pair_inject imageE)
      then show "shm_ptr c + int (shm_size c) \<le> shm_ptr d \<or> shm_ptr d + int (shm_size d) \<le> shm_ptr c"
        using Cons.prems(1) by (fastforce simp: chunks_ok_Cons)
    qed
    then have ok: "chunks_ok (c1 # cs')" using c1 ih(2) by (simp add: chunks_ok_Cons)
    have "mapped_apart (mem, n) q"
      if r: "r = Some (mem, i, offset)" and qm: "q \<in> mapped_live (c # cs)" for mem i offset q
    proof (cases "q \<in> mapped_live cs")
      case True
      then show ?thesis using ih(4) r by simp
    next
      case False
      then obtain x m where q: "q = (shm_ptr c + int x, m)" "(x, m) \<in> set (live (allocator c))"
        using qm by (auto simp: mapped_live_Cons)
      have "x + m \<le> shm_size c"
        using live_bounds q(2) Cons.prems(1) by (fastforce simp: chunks_ok_Cons chunk_ok_def)
      moreover obtain d where "d \<in> set cs'" "mem = shm_ptr d + int offset" "offset + n \<le> shm_size d"
        using ih(4) r by auto
      ultimately show ?thesis using sep q(1) by (auto simp: mapped_apart_def)
    qed
    then show ?thesis using ok ih(3,4) c1
      by (intro exI [of _ "c1 # cs'"] exI [of _ r], unfold run)
        (auto simp: mapped_live_Cons split: option.splits)
  qed
qed

text \<open>Freeing finds the chunk of the pointer.\<close>

lemma GetOffset_in_chunk:
  "0 \<le> p - base \<Longrightarrow> p - base < 2 ^ 32 \<Longrightarrow> p \<noteq> 0 \<Longrightarrow>
     FencedAllocatorWrapper_GetOffset base p = nat (p - base)"
  by (simp add: FencedAllocatorWrapper_GetOffset_def)

lemma MemoryChunk_Free_spec:
  assumes ok: "chunk_ok c" and l: "(a, n) \<in> set (live (allocator c))"
  shows "\<exists>bs. MemoryChunk_Free (shm_ptr c + int a) c = Some (c\<lparr>allocator := bs\<rparr>) \<and>
    chunk_ok (c\<lparr>allocator := bs\<rparr>) \<and> set (live bs) = set (live (allocator c)) - {(a, n)}"
proof -
  have inv: "fa_inv (shm_size c) (allocator c)" "0 < shm_ptr c" using ok by (auto simp: chunk_ok_def)
  obtain bs where "FencedAllocator_Free a (allocator c) = Some bs" "fa_inv (shm_size c) bs"
    "set (live bs) = set (live (allocator c)) - {(a, n)}"
    using FencedAllocator_Free_live [OF inv(1) l] by blast
  moreover have "a < 2 ^ 32" using live_bounds [OF inv(1) l] by simp
  then have "FencedAllocatorWrapper_GetOffset (shm_ptr c) (shm_ptr c + int a) = a"
    using inv(2) by (simp add: FencedAllocatorWrapper_GetOffset_def)
  ultimately show ?thesis using inv(2)
    by (intro exI [of _ bs]) (simp add: MemoryChunk_Free_def chunk_ok_def)
qed

lemma MappedMemoryManager_Free_spec:
  assumes "chunks_ok cs" and "(p, n) \<in> mapped_live cs"
  shows "\<exists>cs'. MappedMemoryManager_Free p cs = Some cs' \<and> mapped_live cs' = mapped_live cs - {(p, n)}"
  using assms
proof (induction cs)
  case Nil
  then show ?case by (simp add: mapped_live_def)
next
  case (Cons c cs)
  have ok: "chunk_ok c" "chunks_ok cs" "\<forall>d \<in> set cs. chunk_ok d"
    using Cons.prems(1) by (auto simp: chunks_ok_Cons chunks_ok_def)
  let ?here = "(\<lambda>(a, m). (shm_ptr c + int a, m)) ` set (live (allocator c))"
  have range_c: "shm_ptr c \<le> fst r \<and> fst r + int (snd r) \<le> shm_ptr c + int (shm_size c) \<and> 0 < snd r"
    if "r \<in> ?here" for r
    using that ok(1) live_bounds by (fastforce simp: chunk_ok_def)
  have range_cs: "fst r < shm_ptr c \<or> shm_ptr c + int (shm_size c) \<le> fst r" if r: "r \<in> mapped_live cs" for r
  proof -
    obtain d a m where d: "d \<in> set cs" and m: "(a, m) \<in> set (live (allocator d))" "r = (shm_ptr d + int a, m)"
      using r by (auto simp: mapped_live_def)
    have "a + m \<le> shm_size d \<and> 0 < m"
      using live_bounds [of "shm_size d" "allocator d" a m] m(1) ok(3) d by (simp add: chunk_ok_def)
    moreover have "shm_ptr c + int (shm_size c) \<le> shm_ptr d \<or> shm_ptr d + int (shm_size d) \<le> shm_ptr c"
      using Cons.prems(1) d by (simp add: chunks_ok_Cons)
    ultimately show ?thesis using m(2) by auto
  qed
  show ?case
  proof (cases "IsInChunk p c")
    case True
    then have "(p, n) \<notin> mapped_live cs" using range_cs [of "(p, n)"] by (auto simp: IsInChunk_def)
    then obtain a where a: "(a, n) \<in> set (live (allocator c))" "p = shm_ptr c + int a"
      using Cons.prems(2) by (auto simp: mapped_live_Cons)
    from MemoryChunk_Free_spec [OF ok(1) a(1)] obtain bs where
      "MemoryChunk_Free p c = Some (c\<lparr>allocator := bs\<rparr>)"
      "set (live bs) = set (live (allocator c)) - {(a, n)}" using a(2) by blast
    note f = this
    have "mapped_live (c\<lparr>allocator := bs\<rparr> # cs) = mapped_live (c # cs) - {(p, n)}"
    proof -
      have "(\<lambda>(a, m). (shm_ptr c + int a, m)) ` (set (live (allocator c)) - {(a, n)}) = ?here - {(p, n)}"
        using a by (auto simp: image_iff)
      then show ?thesis using f(2) \<open>(p, n) \<notin> mapped_live cs\<close>
        unfolding mapped_live_Cons by (simp add: Un_Diff)
    qed
    then show ?thesis using True f(1) by simp
  next
    case False
    have notc: "(p, n) \<notin> ?here"
    proof
      assume "(p, n) \<in> ?here"
      from range_c [OF this] False show False by (simp add: IsInChunk_def)
    qed
    then have "(p, n) \<in> mapped_live cs" using Cons.prems(2) by (simp add: mapped_live_Cons)
    then obtain cs' where "MappedMemoryManager_Free p cs = Some cs'"
      "mapped_live cs' = mapped_live cs - {(p, n)}" using Cons.IH ok(2) by blast
    then show ?thesis using False notc by (simp add: mapped_live_Cons Un_Diff)
  qed
qed

section \<open>Properties\<close>

lemma give_back:
  assumes "chunks_ok cs'" "mapped_live cs' = insert (mem, n) (mapped_live cs)" "0 < n"
    and "\<forall>q \<in> mapped_live cs. mapped_apart (mem, n) q"
  shows "\<exists>cs''. MappedMemoryManager_Free mem cs' = Some cs'' \<and> mapped_live cs'' = mapped_live cs"
proof -
  have "(mem, n) \<notin> mapped_live cs" using assms(3,4) by (auto simp: mapped_apart_def)
  then show ?thesis using MappedMemoryManager_Free_spec [OF assms(1), of mem n] assms(2) by auto
qed

text \<open>The first allocation of a new chunk behind the others.\<close>

lemma alloc_new_chunk:
  assumes ok: "chunks_ok cs1" and n: "0 < n" "n < 2 ^ 32" and p: "0 < p"
    and far: "\<forall>c \<in> set cs1. p + int n \<le> shm_ptr c \<or> shm_ptr c + int (shm_size c) \<le> p"
  shows "\<exists>bs offset. let mc = MemoryChunk_init i p n; cs' = cs1 @ [mc\<lparr>allocator := bs\<rparr>] in
    (\<forall>w h. MemoryChunk_Alloc (w :: 'a waiter) n mc h = Some (mc\<lparr>allocator := bs\<rparr>, h, p + int offset)) \<and>
    offset < 2 ^ 32 \<and> offset + n \<le> n \<and> chunks_ok cs' \<and>
    mapped_live cs' = insert (p + int offset, n) (mapped_live cs1) \<and>
    (\<forall>q \<in> mapped_live cs1. mapped_apart (p + int offset, n) q)"
proof -
  let ?mc = "MemoryChunk_init i p n"
  have mc: "chunk_ok ?mc" "live (allocator ?mc) = []" "n \<le> GetLargestFreeSize (allocator ?mc)"
    using fa_inv_init [OF n] p
    by (auto simp: chunk_ok_def MemoryChunk_init_def FencedAllocator_init_def GetLargestFreeSize_def)
  obtain bs offset where m: "\<And>(w :: 'a waiter) h. MemoryChunk_Alloc w n ?mc h =
      Some (?mc\<lparr>allocator := bs\<rparr>, h, shm_ptr ?mc + int offset)"
    "alloc_found (shm_size ?mc) n (allocator ?mc) bs offset" "offset < 2 ^ 32"
    using MemoryChunk_Alloc_free [OF mc(1) n(1) mc(3)] by blast
  have l: "set (live bs) = {(offset, n)}" "fa_inv n bs"
    using m(2) mc(2) by (auto simp: alloc_found_def MemoryChunk_init_def)
  have b: "offset + n \<le> n" using live_bounds [OF l(2)] l(1) by auto
  let ?cs' = "cs1 @ [?mc\<lparr>allocator := bs\<rparr>]"
  have "mapped_live ?cs' = insert (p + int offset, n) (mapped_live cs1)"
    using l(1) by (auto simp: mapped_live_def MemoryChunk_init_def)
  moreover have "\<forall>q \<in> mapped_live cs1. mapped_apart (p + int offset, n) q"
  proof
    fix q assume "q \<in> mapped_live cs1"
    then obtain d where "d \<in> set cs1" "shm_ptr d \<le> fst q" "fst q + int (snd q) \<le> shm_ptr d + int (shm_size d)"
      using mapped_live_range [of cs1 q] ok by (auto simp: chunks_ok_def)
    then show "mapped_apart (p + int offset, n) q" using bspec [OF far, of d] b by (auto simp: mapped_apart_def)
  qed
  moreover have "chunks_ok ?cs'"
    using ok l(2) p far by (auto simp: chunks_ok_def chunk_ok_def sorted_wrt_append MemoryChunk_init_def)
  moreover have "shm_ptr ?mc = p" by (simp add: MemoryChunk_init_def)
  ultimately show ?thesis using m(1,3) b unfolding Let_def by (intro exI [of _ bs] exI [of _ offset]) simp
qed

text \<open>
  C39 (functional): \<open>Alloc\<close> of at least one byte always returns, without waiting for any token; it either
  fails because no transfer buffer could be created, or returns a pointer whose region lies in the
  chunk named by the returned id, at the returned offset, and overlaps no region in use in any chunk.
  Freeing that pointer afterwards succeeds and gives back exactly the regions of before. The command
  buffer may be any that maps each buffer it creates at fresh addresses.
\<close>

theorem mapped_alloc_free:
  assumes ok: "chunks_ok cs" and n: "0 < n" "n < 2 ^ 32"
    and fresh: "\<And>h2 i. create n (-1) h = (h2, i) \<Longrightarrow> i \<noteq> -1 \<Longrightarrow>
      (\<exists>p. get_buffer i h2 = (p, n) \<and> 0 < p \<and>
         (\<forall>c \<in> set cs. p + int n \<le> shm_ptr c \<or> shm_ptr c + int (shm_size c) \<le> p))"
  shows "\<exists>cs' h' r. MappedMemoryManager_Alloc last_read wait create get_buffer n cs h = Some (cs', h', r) \<and>
    (h' = h \<or> h' = fst (create n (-1) h)) \<and>
    (case r of None \<Rightarrow> snd (create n (-1) h) = -1 \<and> mapped_live cs' = mapped_live cs
     | Some (mem, i, offset) \<Rightarrow>
         (\<exists>c \<in> set cs'. shm_id c = i \<and> mem = shm_ptr c + int offset \<and> offset + n \<le> shm_size c) \<and>
         (\<forall>q \<in> mapped_live cs. mapped_apart (mem, n) q) \<and>
         mapped_live cs' = insert (mem, n) (mapped_live cs) \<and>
         (\<exists>cs''. MappedMemoryManager_Free mem cs' = Some cs'' \<and> mapped_live cs'' = mapped_live cs))"
proof -
  from alloc_in_chunks_spec [OF ok n(1), of last_read wait h] obtain cs1 r1 where
    a: "alloc_in_chunks last_read wait n cs h = Some (cs1, h, r1)" "chunks_ok cs1"
      "map chunk_key cs1 = map chunk_key cs" and
    r1: "case r1 of None \<Rightarrow> mapped_live cs1 = mapped_live cs
     | Some (mem, i, offset) \<Rightarrow>
         mapped_live cs1 = insert (mem, n) (mapped_live cs) \<and>
         (\<forall>q \<in> mapped_live cs. mapped_apart (mem, n) q) \<and>
         (\<exists>c \<in> set cs1. shm_id c = i \<and> mem = shm_ptr c + int offset \<and> offset + n \<le> shm_size c)"
    by blast
  obtain h2 i where cr: "create n (-1) h = (h2, i)" by fastforce
  show ?thesis
  proof (cases r1)
    case (Some t)
    obtain mem j offset where t: "t = (mem, j, offset)" by (cases t)
    then have "MappedMemoryManager_Alloc last_read wait create get_buffer n cs h = Some (cs1, h, Some (mem, j, offset))"
      using a(1) Some by (simp add: MappedMemoryManager_Alloc_def)
    then show ?thesis using r1 Some t give_back [OF a(2) _ n(1), of mem] by auto
  next
    case None
    with r1 have same: "mapped_live cs1 = mapped_live cs" by simp
    show ?thesis
    proof (cases "i = -1")
      case True
      then have "MappedMemoryManager_Alloc last_read wait create get_buffer n cs h = Some (cs1, h2, None)"
        using a(1) None cr by (simp add: MappedMemoryManager_Alloc_def)
      then show ?thesis using same cr True by auto
    next
      case False
      obtain p where p: "get_buffer i h2 = (p, n)" "0 < p"
        "\<forall>c \<in> set cs. p + int n \<le> shm_ptr c \<or> shm_ptr c + int (shm_size c) \<le> p"
        using fresh [OF cr False] by blast
      have far: "p + int n \<le> shm_ptr c \<or> shm_ptr c + int (shm_size c) \<le> p" if c: "c \<in> set cs1" for c
      proof -
        have "(shm_ptr c, shm_size c) \<in> (\<lambda>c. (shm_ptr c, shm_size c)) ` set cs1"
          using c by (rule image_eqI [OF refl])
        then obtain d where "d \<in> set cs" "shm_ptr d = shm_ptr c" "shm_size d = shm_size c"
          unfolding chunk_keys_range [OF a(3)] by (metis (no_types, lifting) Pair_inject imageE)
        then show ?thesis using p(3) by fastforce
      qed
      have far: "\<forall>c \<in> set cs1. p + int n \<le> shm_ptr c \<or> shm_ptr c + int (shm_size c) \<le> p" using far by blast
      let ?mc = "MemoryChunk_init i p n"
      from alloc_new_chunk [OF a(2) n p(2) far, of i] obtain bs offset where
        m: "\<And>(w :: 'a waiter) h. MemoryChunk_Alloc w n ?mc h = Some (?mc\<lparr>allocator := bs\<rparr>, h, p + int offset)"
          "offset < 2 ^ 32" "offset + n \<le> n" and
        new: "chunks_ok (cs1 @ [?mc\<lparr>allocator := bs\<rparr>])"
          "mapped_live (cs1 @ [?mc\<lparr>allocator := bs\<rparr>]) = insert (p + int offset, n) (mapped_live cs)"
          "\<forall>q \<in> mapped_live cs. mapped_apart (p + int offset, n) q"
        unfolding Let_def same by blast
      have "MappedMemoryManager_Alloc last_read wait create get_buffer n cs h =
          Some (cs1 @ [?mc\<lparr>allocator := bs\<rparr>], h2, Some (p + int offset, i, offset))"
        using a(1) None cr False p(1,2) m(1,2)
        by (simp add: MappedMemoryManager_Alloc_def MemoryChunk_init_def FencedAllocatorWrapper_GetOffset_def)
      then show ?thesis using cr new give_back [OF new(1,2) n(1) new(3)] m(3) by (auto simp: MemoryChunk_init_def)
    qed
  qed
qed

theorem mapped_alloc_free_witness:
  "\<exists>cs' h' mem i offset.
     MappedMemoryManager_Alloc (\<lambda>h. 0) (\<lambda>t h. Some h) (\<lambda>n i h. (Suc h, int h)) (\<lambda>i h. (4096, 16)) 16 [] (0 :: nat)
       = Some (cs', h', Some (mem, i, offset)) \<and> mapped_live cs' = {(mem, 16)}"
  using mapped_alloc_free [of "[]" 16 "\<lambda>n i h. (Suc h, int h)" 0 "\<lambda>i h. (4096, 16)" "\<lambda>h. 0" "\<lambda>t h. Some h"]
  by (fastforce simp: chunks_ok_def mapped_live_def split: option.splits)

end
