(* ===== verification/CmdBufferCommon.thy ===== *)
theory CmdBufferCommon
  imports Prelude
begin

text \<open>
  The command buffer format (\<open>src/gpu/command_buffer/common/cmd_buffer_common.h\<close>,
  \<open>bitfield_helpers.h\<close>, \<open>constants.h\<close>). An entry is its 32 bits as a \<open>uint32\<close>. The header of a
  command is one entry: the bit field \<open>size:21\<close> in the low bits and \<open>command:11\<close> above it, as the
  compilers the code is built with lay bit fields out on a little-endian machine. Each \<open>Init\<close> of a
  command structure is the list of the entries it writes.
\<close>

section \<open>Errors\<close>

datatype error = kNoError | kInvalidSize | kOutOfBounds | kUnknownCommand | kInvalidArguments
  | kLostContext | kGenericError | kWaiting | kYield

fun IsError :: "error \<Rightarrow> bool" where
  "IsError kNoError = False"
| "IsError kWaiting = False"
| "IsError kYield = False"
| "IsError _ = True"

section \<open>Bit fields\<close>

definition BitField_kMask :: "nat \<Rightarrow> 32 word" where
  "BitField_kMask len = 1 + (push_bit (len - 1) 1 - 1) * 2"

definition BitField_Get :: "nat \<Rightarrow> nat \<Rightarrow> 32 word \<Rightarrow> 32 word" where
  "BitField_Get shift len container = drop_bit shift container AND BitField_kMask len"

definition BitField_MakeValue :: "nat \<Rightarrow> nat \<Rightarrow> 32 word \<Rightarrow> 32 word" where
  "BitField_MakeValue shift len value = push_bit shift (value AND BitField_kMask len)"

definition BitField_Set :: "nat \<Rightarrow> nat \<Rightarrow> 32 word \<Rightarrow> 32 word \<Rightarrow> 32 word" where
  "BitField_Set shift len container field_value =
     (container AND NOT (push_bit shift (BitField_kMask len)))
       OR BitField_MakeValue shift len field_value"

lemma BitField_kMask_eq:
  assumes "0 < n"
  shows "BitField_kMask n = mask n"
proof -
  obtain m where n: "n = Suc m" using assms by (cases n) auto
  have e: "push_bit m (1 :: 32 word) = 2 ^ m" by (simp add: push_bit_eq_mult)
  have "mask (Suc m) = (2 ^ Suc m - 1 :: 32 word)" by (rule mask_eq_exp_minus_1)
  also have "\<dots> = 1 + (2 ^ m - 1) * 2" by (simp add: algebra_simps)
  finally show ?thesis by (simp add: n BitField_kMask_def e)
qed

lemma bit_BitField_kMask: "0 < n \<Longrightarrow> bit (BitField_kMask n) i \<longleftrightarrow> i < 32 \<and> i < n"
  by (simp add: BitField_kMask_eq bit_mask_iff)

lemma bit_BitField_Get:
  "0 < n \<Longrightarrow> bit (BitField_Get s n c) i \<longleftrightarrow> i < n \<and> bit c (s + i)"
  by (auto simp: BitField_Get_def bit_and_iff bit_drop_bit_eq bit_BitField_kMask
      dest: bit_imp_le_length)

lemma bit_BitField_MakeValue:
  "0 < n \<Longrightarrow> bit (BitField_MakeValue s n v) i \<longleftrightarrow> i < 32 \<and> s \<le> i \<and> i - s < n \<and> bit v (i - s)"
  by (auto simp: BitField_MakeValue_def bit_and_iff bit_push_bit_iff bit_BitField_kMask
      dest: bit_imp_le_length)

lemma bit_BitField_Set:
  "0 < n \<Longrightarrow> bit (BitField_Set s n c v) i \<longleftrightarrow>
     i < 32 \<and> (if s \<le> i \<and> i < s + n then bit v (i - s) else bit c i)"
  by (auto simp: BitField_Set_def bit_or_iff bit_and_iff bit_not_iff bit_push_bit_iff
      bit_BitField_kMask bit_BitField_MakeValue dest: bit_imp_le_length)

text \<open>
  Writing a bit field that lies within the 32 bits makes that field read as the
  written value, cut to the field's length, and leaves every field that does not overlap it as it
  was.
\<close>

theorem bitfield_set_get:
  assumes "0 < n" "s + n \<le> 32" "0 < n'" "s' + n' \<le> s \<or> s + n \<le> s'"
  shows "BitField_Get s n (BitField_Set s n c v) = take_bit n v \<and>
    BitField_Get s' n' (BitField_Set s n c v) = BitField_Get s' n' c"
proof
  show "BitField_Get s n (BitField_Set s n c v) = take_bit n v"
    using assms by (intro bit_word_eqI) (auto simp: bit_BitField_Get bit_BitField_Set bit_take_bit_iff)
  show "BitField_Get s' n' (BitField_Set s n c v) = BitField_Get s' n' c"
    using assms
    by (intro bit_word_eqI) (auto simp: bit_BitField_Get bit_BitField_Set dest: bit_imp_le_length)
qed

theorem bitfield_set_get_witness:
  "BitField_Get 4 8 (BitField_Set 4 8 0xABCDEF01 0x1234) = take_bit 8 0x1234 \<and>
    BitField_Get 20 12 (BitField_Set 4 8 0xABCDEF01 0x1234) = BitField_Get 20 12 0xABCDEF01"
  by (rule bitfield_set_get) simp_all

section \<open>Entries and the command header\<close>

definition kCommandBufferEntrySize :: uint32 where
  "kCommandBufferEntrySize = 4"

definition ComputeNumEntries :: "uint32 \<Rightarrow> uint32" where
  "ComputeNumEntries size_in_bytes = sub32 (add32 size_in_bytes 4) 1 div 4"

definition RoundSizeToMultipleOfEntries :: "uint32 \<Rightarrow> uint32" where
  "RoundSizeToMultipleOfEntries size_in_bytes = ComputeNumEntries size_in_bytes * 4 mod 2 ^ 32"

definition kMaxSize :: int32 where
  "kMaxSize = 2 ^ 21 - 1"

definition header_size :: "uint32 \<Rightarrow> uint32" where
  "header_size h = h mod 2 ^ 21"

definition header_command :: "uint32 \<Rightarrow> uint32" where
  "header_command h = h div 2 ^ 21 mod 2 ^ 11"

definition CommandHeader_Init :: "uint32 \<Rightarrow> int32 \<Rightarrow> uint32 option" where
  "CommandHeader_Init c sz = do {
     guard (sz \<le> kMaxSize);
     Some (c mod 2 ^ 11 * 2 ^ 21 + nat (sz mod 2 ^ 21))
   }"

text \<open>\<open>SetCmd\<close>, \<open>SetCmdBySize\<close> and \<open>SetCmdByTotalSize\<close>, with the id and the \<open>sizeof\<close> of the command.\<close>

definition SetCmd :: "uint32 \<Rightarrow> uint32 \<Rightarrow> uint32 option" where
  "SetCmd kCmdId sizeof_T = CommandHeader_Init kCmdId (to_int32 (ComputeNumEntries sizeof_T))"

definition SetCmdBySize :: "uint32 \<Rightarrow> uint32 \<Rightarrow> uint32 \<Rightarrow> uint32 option" where
  "SetCmdBySize kCmdId sizeof_T size_of_data_in_bytes =
     CommandHeader_Init kCmdId
       (to_int32 (ComputeNumEntries (add32 sizeof_T size_of_data_in_bytes)))"

definition SetCmdByTotalSize :: "uint32 \<Rightarrow> uint32 \<Rightarrow> uint32 \<Rightarrow> uint32 option" where
  "SetCmdByTotalSize kCmdId sizeof_T size_in_bytes = do {
     guard (sizeof_T \<le> size_in_bytes);
     CommandHeader_Init kCmdId (to_int32 (ComputeNumEntries size_in_bytes))
   }"

text \<open>Where the next command goes, as a byte address.\<close>

definition NextCmdAddress :: "uint32 \<Rightarrow> uint32 \<Rightarrow> uint32" where
  "NextCmdAddress sizeof_T cmd = add32 cmd sizeof_T"

definition NextImmediateCmdAddress :: "uint32 \<Rightarrow> uint32 \<Rightarrow> uint32 \<Rightarrow> uint32" where
  "NextImmediateCmdAddress sizeof_T cmd size_of_data_in_bytes =
     add32 (add32 cmd sizeof_T) (RoundSizeToMultipleOfEntries size_of_data_in_bytes)"

definition NextImmediateCmdAddressTotalSize :: "uint32 \<Rightarrow> uint32 \<Rightarrow> uint32 \<Rightarrow> uint32 option" where
  "NextImmediateCmdAddressTotalSize sizeof_T cmd total_size_in_bytes = do {
     guard (sizeof_T \<le> total_size_in_bytes);
     Some (add32 cmd (RoundSizeToMultipleOfEntries total_size_in_bytes))
   }"

lemma ComputeNumEntries_small:
  "n + 4 < 2 ^ 32 \<Longrightarrow> ComputeNumEntries n = (n + 3) div 4"
  by (simp add: ComputeNumEntries_def)

lemma header_size_Init [simp]:
  "CommandHeader_Init c sz = Some h \<Longrightarrow> header_size h = nat (sz mod 2 ^ 21)"
  by (auto simp: CommandHeader_Init_def header_size_def split: if_splits)

lemma header_command_Init [simp]:
  "CommandHeader_Init c sz = Some h \<Longrightarrow> header_command h = c mod 2 ^ 11"
proof -
  assume "CommandHeader_Init c sz = Some h"
  then have h: "h = c mod 2 ^ 11 * 2 ^ 21 + nat (sz mod 2 ^ 21)"
    by (auto simp: CommandHeader_Init_def split: if_splits)
  have lt: "nat (sz mod 2 ^ 21) < 2 ^ 21"
    using pos_mod_bound [of "2 ^ 21" sz] pos_mod_sign [of "2 ^ 21" sz] by (simp add: nat_less_iff)
  have "h div 2 ^ 21 = c mod 2 ^ 11" using lt unfolding h
    by (metis add.commute div_less div_mult_self1 plus_nat.add_0 power_not_zero zero_neq_numeral)
  then show ?thesis by (simp add: header_command_def)
qed

section \<open>The common commands\<close>

datatype CommandId = kNoop | kSetToken | kJump | kJumpRelative | kCall | kCallRelative | kReturn
  | kSetBucketSize | kSetBucketData | kSetBucketDataImmediate | kGetBucketSize | kGetBucketData
  | kYieldScheduler

definition CommandIds :: "CommandId list" where
  "CommandIds = [kNoop, kSetToken, kJump, kJumpRelative, kCall, kCallRelative, kReturn,
     kSetBucketSize, kSetBucketData, kSetBucketDataImmediate, kGetBucketSize, kGetBucketData,
     kYieldScheduler]"

definition kNumCommands :: uint32 where
  "kNumCommands = 13"

definition kLastCommonId :: uint32 where
  "kLastCommonId = 255"

fun id_of :: "CommandId \<Rightarrow> uint32" where
  "id_of kNoop = 0"
| "id_of kSetToken = 1"
| "id_of kJump = 2"
| "id_of kJumpRelative = 3"
| "id_of kCall = 4"
| "id_of kCallRelative = 5"
| "id_of kReturn = 6"
| "id_of kSetBucketSize = 7"
| "id_of kSetBucketData = 8"
| "id_of kSetBucketDataImmediate = 9"
| "id_of kGetBucketSize = 10"
| "id_of kGetBucketData = 11"
| "id_of kYieldScheduler = 12"

definition GetCommandName :: "int32 \<Rightarrow> string" where
  "GetCommandName command_id =
     (if 0 \<le> command_id \<and> command_id < int kNumCommands
      then [''Noop'', ''SetToken'', ''Jump'', ''JumpRelative'', ''Call'', ''CallRelative'',
            ''Return'', ''SetBucketSize'', ''SetBucketData'', ''SetBucketDataImmediate'',
            ''GetBucketSize'', ''GetBucketData'', ''YieldScheduler''] ! nat command_id
      else ''*unknown-command*'')"

definition Noop_Init :: "uint32 \<Rightarrow> uint32 list option" where
  "Noop_Init skip_count = do {
     guard (0 < skip_count);
     h \<leftarrow> CommandHeader_Init (id_of kNoop) (to_int32 skip_count);
     Some [h]
   }"

definition SetToken_Init :: "uint32 \<Rightarrow> uint32 list option" where
  "SetToken_Init token = do { h \<leftarrow> SetCmd (id_of kSetToken) 8; Some [h, token] }"

definition Jump_Init :: "uint32 \<Rightarrow> uint32 list option" where
  "Jump_Init offset = do { h \<leftarrow> SetCmd (id_of kJump) 8; Some [h, offset] }"

definition JumpRelative_Init :: "int32 \<Rightarrow> uint32 list option" where
  "JumpRelative_Init offset =
     do { h \<leftarrow> SetCmd (id_of kJumpRelative) 8; Some [h, to_uint32 offset] }"

definition Call_Init :: "uint32 \<Rightarrow> uint32 list option" where
  "Call_Init offset = do { h \<leftarrow> SetCmd (id_of kCall) 8; Some [h, offset] }"

definition CallRelative_Init :: "int32 \<Rightarrow> uint32 list option" where
  "CallRelative_Init offset =
     do { h \<leftarrow> SetCmd (id_of kCallRelative) 8; Some [h, to_uint32 offset] }"

definition Return_Init :: "uint32 list option" where
  "Return_Init = do { h \<leftarrow> SetCmd (id_of kReturn) 4; Some [h] }"

definition SetBucketSize_Init :: "uint32 \<Rightarrow> uint32 \<Rightarrow> uint32 list option" where
  "SetBucketSize_Init bucket_id sz =
     do { h \<leftarrow> SetCmd (id_of kSetBucketSize) 12; Some [h, bucket_id, sz] }"

definition SetBucketData_Init ::
  "uint32 \<Rightarrow> uint32 \<Rightarrow> uint32 \<Rightarrow> uint32 \<Rightarrow> uint32 \<Rightarrow> uint32 list option" where
  "SetBucketData_Init bucket_id offset sz shared_memory_id shared_memory_offset = do {
     h \<leftarrow> SetCmd (id_of kSetBucketData) 24;
     Some [h, bucket_id, offset, sz, shared_memory_id, shared_memory_offset]
   }"

definition SetBucketDataImmediate_Init :: "uint32 \<Rightarrow> uint32 \<Rightarrow> uint32 \<Rightarrow> uint32 list option" where
  "SetBucketDataImmediate_Init bucket_id offset sz = do {
     h \<leftarrow> SetCmdBySize (id_of kSetBucketDataImmediate) 16 sz;
     Some [h, bucket_id, offset, sz]
   }"

definition GetBucketSize_Init :: "uint32 \<Rightarrow> uint32 \<Rightarrow> uint32 \<Rightarrow> uint32 list option" where
  "GetBucketSize_Init bucket_id shared_memory_id shared_memory_offset = do {
     h \<leftarrow> SetCmd (id_of kGetBucketSize) 16;
     Some [h, bucket_id, shared_memory_id, shared_memory_offset]
   }"

definition GetBucketData_Init ::
  "uint32 \<Rightarrow> uint32 \<Rightarrow> uint32 \<Rightarrow> uint32 \<Rightarrow> uint32 \<Rightarrow> uint32 list option" where
  "GetBucketData_Init bucket_id offset sz shared_memory_id shared_memory_offset = do {
     h \<leftarrow> SetCmd (id_of kGetBucketData) 24;
     Some [h, bucket_id, offset, sz, shared_memory_id, shared_memory_offset]
   }"

definition YieldScheduler_Init :: "uint32 list option" where
  "YieldScheduler_Init = do { h \<leftarrow> SetCmd (id_of kYieldScheduler) 4; Some [h] }"

lemmas Init_defs = Noop_Init_def SetToken_Init_def Jump_Init_def JumpRelative_Init_def
  Call_Init_def CallRelative_Init_def Return_Init_def SetBucketSize_Init_def SetBucketData_Init_def
  SetBucketDataImmediate_Init_def GetBucketSize_Init_def GetBucketData_Init_def
  YieldScheduler_Init_def

lemma SetCmd_Some:
  "SetCmd c n = Some h \<Longrightarrow> n \<le> 2 ^ 20 \<Longrightarrow>
     header_command h = c mod 2 ^ 11 \<and> header_size h = (n + 3) div 4"
proof -
  assume h: "SetCmd c n = Some h" and n: "n \<le> 2 ^ 20"
  have "(n + 3) div 4 \<le> 2 ^ 20" using n by simp
  then have "int ((n + 3) div 4) mod 2 ^ 21 = int ((n + 3) div 4)"
    by (intro mod_pos_pos_trivial) auto
  moreover have "to_int32 ((n + 3) div 4) = int ((n + 3) div 4)"
    using \<open>(n + 3) div 4 \<le> 2 ^ 20\<close> by (simp add: to_int32_def Let_def)
  ultimately show ?thesis using h n
    by (auto simp: SetCmd_def ComputeNumEntries_small)
qed


text \<open>The entries \<open>es\<close> stand in the buffer from entry \<open>k\<close> on.\<close>

definition stands_at :: "nat \<Rightarrow> uint32 list \<Rightarrow> uint32 list \<Rightarrow> bool" where
  "stands_at k es buf \<longleftrightarrow> k + length es \<le> length buf \<and> take (length es) (drop k buf) = es"

lemma stands_at_nth: "stands_at k es buf \<Longrightarrow> i < length es \<Longrightarrow> k + i < length buf \<and> buf ! (k + i) = es ! i"
proof -
  assume s: "stands_at k es buf" and i: "i < length es"
  have "es ! i = take (length es) (drop k buf) ! i" using s by (simp add: stands_at_def)
  then show ?thesis using s i by (simp add: stands_at_def)
qed

lemma Call_Init_Some: "Call_Init off = Some es \<Longrightarrow>
    \<exists>h. es = [h, off] \<and> header_command h = 4 \<and> header_size h = 2"
  using SetCmd_Some [of "id_of kCall" 8] by (auto simp: Call_Init_def bind_eq_Some_conv)

lemma Return_Init_Some: "Return_Init = Some es \<Longrightarrow>
    \<exists>h. es = [h] \<and> header_command h = 6 \<and> header_size h = 1"
  using SetCmd_Some [of "id_of kReturn" 4] by (auto simp: Return_Init_def bind_eq_Some_conv)

lemma JumpRelative_Init_Some: "JumpRelative_Init off = Some es \<Longrightarrow>
    \<exists>h. es = [h, to_uint32 off] \<and> header_command h = 3 \<and> header_size h = 2"
  using SetCmd_Some [of "id_of kJumpRelative" 8]
  by (auto simp: JumpRelative_Init_def bind_eq_Some_conv)

lemma Jump_Init_Some: "Jump_Init off = Some es \<Longrightarrow>
    \<exists>h. es = [h, off] \<and> header_command h = 2 \<and> header_size h = 2"
  using SetCmd_Some [of "id_of kJump" 8] by (auto simp: Jump_Init_def bind_eq_Some_conv)

lemma SetToken_Init_Some: "SetToken_Init t = Some es \<Longrightarrow>
    \<exists>h. es = [h, t] \<and> header_command h = 1 \<and> header_size h = 2"
  using SetCmd_Some [of "id_of kSetToken" 8] by (auto simp: SetToken_Init_def bind_eq_Some_conv)

lemma to_int32_add:
  assumes "- (2 ^ 31) \<le> i + j" "i + j < 2 ^ 31"
  shows "to_int32 (add32 (to_uint32 i) (to_uint32 j)) = i + j"
proof -
  have "int (add32 (to_uint32 i) (to_uint32 j)) = (i mod 2 ^ 32 + j mod 2 ^ 32) mod 2 ^ 32"
    by (simp add: add32_def to_uint32_def zmod_int)
  also have "\<dots> = (i + j) mod 2 ^ 32" by (simp only: mod_add_eq)
  finally have "nat (int (add32 (to_uint32 i) (to_uint32 j))) = to_uint32 (i + j)"
    unfolding to_uint32_def by (rule arg_cong)
  then have "add32 (to_uint32 i) (to_uint32 j) = to_uint32 (i + j)" by (simp only: nat_int)
  then show ?thesis using to_int32_to_uint32 [OF assms] by simp
qed

text \<open>
  Every command structure of fixed size, and the immediate command for every size of
  its data, initializes its header so that the header's command is the command's id and its size is
  the number of entries that the structure and its data take.
\<close>

theorem common_commands_headers:
  assumes "sz \<le> 2 ^ 20"
  shows "(\<exists>h. SetToken_Init t = Some [h, t] \<and> header_command h = id_of kSetToken \<and> header_size h = 2) \<and>
    (\<exists>h. Jump_Init o1 = Some [h, o1] \<and> header_command h = id_of kJump \<and> header_size h = 2) \<and>
    (\<exists>h. JumpRelative_Init i = Some [h, to_uint32 i] \<and> header_command h = id_of kJumpRelative \<and>
       header_size h = 2) \<and>
    (\<exists>h. Call_Init o1 = Some [h, o1] \<and> header_command h = id_of kCall \<and> header_size h = 2) \<and>
    (\<exists>h. CallRelative_Init i = Some [h, to_uint32 i] \<and> header_command h = id_of kCallRelative \<and>
       header_size h = 2) \<and>
    (\<exists>h. Return_Init = Some [h] \<and> header_command h = id_of kReturn \<and> header_size h = 1) \<and>
    (\<exists>h. SetBucketSize_Init b sz = Some [h, b, sz] \<and> header_command h = id_of kSetBucketSize \<and>
       header_size h = 3) \<and>
    (\<exists>h. SetBucketData_Init b o1 sz m o2 = Some [h, b, o1, sz, m, o2] \<and>
       header_command h = id_of kSetBucketData \<and> header_size h = 6) \<and>
    (\<exists>h. SetBucketDataImmediate_Init b o1 sz = Some [h, b, o1, sz] \<and>
       header_command h = id_of kSetBucketDataImmediate \<and> header_size h = 4 + (sz + 3) div 4) \<and>
    (\<exists>h. GetBucketSize_Init b m o2 = Some [h, b, m, o2] \<and> header_command h = id_of kGetBucketSize \<and>
       header_size h = 4) \<and>
    (\<exists>h. GetBucketData_Init b o1 sz m o2 = Some [h, b, o1, sz, m, o2] \<and>
       header_command h = id_of kGetBucketData \<and> header_size h = 6) \<and>
    (\<exists>h. YieldScheduler_Init = Some [h] \<and> header_command h = id_of kYieldScheduler \<and> header_size h = 1)"
proof -
  have fixed: "\<exists>h. SetCmd c n = Some h \<and> header_command h = c \<and> header_size h = (n + 3) div 4"
    if "c < 2 ^ 11" "n \<le> 2 ^ 10" for c n
  proof -
    have "to_int32 (ComputeNumEntries n) \<le> kMaxSize"
    proof -
      have "(n + 3) div 4 \<le> 2 ^ 20" using that(2) by simp
      then show ?thesis using that(2)
        by (simp add: ComputeNumEntries_small to_int32_def Let_def kMaxSize_def)
    qed
    then obtain h where "SetCmd c n = Some h" by (auto simp: SetCmd_def CommandHeader_Init_def)
    then show ?thesis using SetCmd_Some [of c n h] that by simp
  qed
  have imm: "\<exists>h. SetCmdBySize c 16 sz = Some h \<and> header_command h = c \<and> header_size h = 4 + (sz + 3) div 4"
    if "c < 2 ^ 11" for c
  proof -
    have n: "to_int32 (ComputeNumEntries (add32 16 sz)) = int (4 + (sz + 3) div 4)"
    proof -
      have d: "(16 + sz + 3) div 4 = 4 + (sz + 3) div 4" by presburger
      have c: "ComputeNumEntries (add32 16 sz) = 4 + (sz + 3) div 4"
        using assms ComputeNumEntries_small [of "16 + sz"] by (simp add: d [simplified])
      have "4 + (sz + 3) div 4 < 2 ^ 31" using assms by simp
      then show ?thesis unfolding c by (simp add: to_int32_def Let_def)
    qed
    have "int (4 + (sz + 3) div 4) \<le> kMaxSize" using assms by (simp add: kMaxSize_def)
    then obtain h where h: "SetCmdBySize c 16 sz = Some h"
      by (auto simp: SetCmdBySize_def CommandHeader_Init_def n)
    have "int (4 + (sz + 3) div 4) mod 2 ^ 21 = int (4 + (sz + 3) div 4)"
      using assms by (intro mod_pos_pos_trivial) auto
    then show ?thesis using h header_size_Init [of c "int (4 + (sz + 3) div 4)" h]
        header_command_Init [of c "int (4 + (sz + 3) div 4)" h] that
      unfolding SetCmdBySize_def n by simp
  qed
  show ?thesis
    using fixed [of 1 8] fixed [of 2 8] fixed [of 3 8] fixed [of 4 8] fixed [of 5 8] fixed [of 6 4]
      fixed [of 7 12] fixed [of 8 24] imm [of 9] fixed [of 10 16] fixed [of 11 24] fixed [of 12 4]
    by (intro conjI) (auto simp: Init_defs)
qed

theorem common_commands_headers_witness:
  "\<exists>h. SetBucketDataImmediate_Init 1 0 10 = Some [h, 1, 0, 10] \<and>
     header_command h = id_of kSetBucketDataImmediate \<and> header_size h = 7"
  using common_commands_headers [of 10 0 0 0 1 0 0] by simp

end
