(* ===== verification/CommandBufferService.thy ===== *)
theory CommandBufferService
  imports CmdBufferCommon
begin

text \<open>
  The service side of a command buffer (\<open>src/gpu/command_buffer/service/command_buffer_service.cc\<close>):
  the put and get offsets, the token, the error, and the table of transfer buffers.

  The objects of the service side share one state, a record that the parser, the decoder and the
  scheduler extend with their own fields. Its first fields are the memory: \<open>ring\<close> holds the entries
  of the ring buffer, \<open>view\<close> sends the base address of a mapping to the memory region it shows, and
  \<open>region\<close> gives the bytes of a region. What the operating system answers (\<open>CreateAnonymous\<close>,
  \<open>ShareToProcess\<close>, \<open>Map\<close>) is an argument of the operations that ask. A null pointer is \<open>0\<close>.
\<close>

section \<open>State\<close>

record buffer =
  ptr :: nat
  buffer_size :: uint32
  shared_memory :: nat

definition null_buffer :: buffer where
  "null_buffer = \<lparr>ptr = 0, buffer_size = 0, shared_memory = 0\<rparr>"

text \<open>\<open>CommandBuffer::State\<close>, what a client is told.\<close>

record State =
  st_num_entries :: int32
  st_get_offset :: int32
  st_put_offset :: int32
  st_token :: int32
  st_error :: error
  st_generation :: uint32

record command_buffer_service =
  view :: "nat \<rightharpoonup> nat"
  region :: "nat \<Rightarrow> byte list"
  ring :: "uint32 list"
  ring_buffer :: buffer
  num_entries :: int32
  get_offset :: int32
  put_offset :: int32
  put_offset_change_callback :: bool
  registered_objects :: "buffer list"
  unused_registered_object_elements :: "nat set"
  token :: int32
  generation :: uint32
  svc_error :: error

definition kMaxCommandBufferSize :: int32 where
  "kMaxCommandBufferSize = 4 * 1024 * 1024"

definition CommandBufferService_init :: command_buffer_service where
  "CommandBufferService_init =
     \<lparr>view = (\<lambda>_. None), region = (\<lambda>_. []), ring = [], ring_buffer = null_buffer, num_entries = 0,
      get_offset = 0, put_offset = 0, put_offset_change_callback = False,
      registered_objects = [null_buffer], unused_registered_object_elements = {},
      token = 0, generation = 0, svc_error = kNoError\<rparr>"

text \<open>
  What mapping a shared memory object of a given size answers: nothing, or the address of the
  mapping, the new \<open>SharedMemory\<close> object and the region it shows.
\<close>

type_synonym mapping = "(nat \<times> nat \<times> nat) option"

section \<open>The ring buffer\<close>

text \<open>\<open>Initialize(SharedMemory*, int32)\<close>; \<open>answer\<close> is the mapping of the ring buffer with its entries.\<close>

definition Initialize_with ::
  "(nat \<times> nat \<times> uint32 list) option \<Rightarrow> int32 \<Rightarrow> 'a command_buffer_service_scheme \<Rightarrow>
     bool \<times> 'a command_buffer_service_scheme" where
  "Initialize_with answer sz w =
     (if shared_memory (ring_buffer w) \<noteq> 0 then (False, w)
      else case answer of
        None \<Rightarrow> (False, w)
      | Some (p, shm, entries) \<Rightarrow>
          (True, w\<lparr>ring_buffer := \<lparr>ptr = p, buffer_size = to_uint32 sz, shared_memory = shm\<rparr>,
                   ring := entries, num_entries := to_int32 (to_uint32 sz div 4)\<rparr>))"

text \<open>\<open>Initialize(int32)\<close>; \<open>create\<close> is the outcome of \<open>CreateAnonymous\<close>.\<close>

definition Initialize ::
  "bool \<Rightarrow> (nat \<times> nat \<times> uint32 list) option \<Rightarrow> int32 \<Rightarrow> 'a command_buffer_service_scheme \<Rightarrow>
     bool \<times> 'a command_buffer_service_scheme" where
  "Initialize create answer sz w =
     (if shared_memory (ring_buffer w) \<noteq> 0 then (False, w)
      else if sz \<le> 0 \<or> sz > kMaxCommandBufferSize then (False, w)
      else let w = w\<lparr>num_entries := to_int32 (to_uint32 sz div 4)\<rparr> in
        if \<not> create then (True, w) else Initialize_with answer sz w)"

definition GetRingBuffer :: "'a command_buffer_service_scheme \<Rightarrow> buffer" where
  "GetRingBuffer w = ring_buffer w"

section \<open>Offsets, token and error\<close>

definition GetState ::
  "'a command_buffer_service_scheme \<Rightarrow> State \<times> 'a command_buffer_service_scheme" where
  "GetState w =
     (let g = add32 (generation w) 1 in
      (\<lparr>st_num_entries = num_entries w, st_get_offset = get_offset w,
        st_put_offset = put_offset w, st_token = token w, st_error = svc_error w,
        st_generation = g\<rparr>, w\<lparr>generation := g\<rparr>))"

text \<open>The callback run when the put offset changes gets the flag \<open>sync\<close>.\<close>

type_synonym 'w put_callback = "bool \<Rightarrow> 'w \<Rightarrow> 'w option"

definition FlushSync ::
  "'a command_buffer_service_scheme put_callback \<Rightarrow> int32 \<Rightarrow> int32 \<Rightarrow>
     'a command_buffer_service_scheme \<Rightarrow> (State \<times> 'a command_buffer_service_scheme) option" where
  "FlushSync callback put last_known_get w =
     (if put < 0 \<or> put > num_entries w then Some (GetState (w\<lparr>svc_error := kOutOfBounds\<rparr>))
      else do {
        let w = w\<lparr>put_offset := put\<rparr>;
        w \<leftarrow> (if put_offset_change_callback w then callback (last_known_get = get_offset w) w
              else Some w);
        Some (GetState w)
      })"

definition Flush ::
  "'a command_buffer_service_scheme put_callback \<Rightarrow> int32 \<Rightarrow>
     'a command_buffer_service_scheme \<Rightarrow> 'a command_buffer_service_scheme option" where
  "Flush callback put w =
     (if put < 0 \<or> put > num_entries w then Some (w\<lparr>svc_error := kOutOfBounds\<rparr>)
      else
        let w = w\<lparr>put_offset := put\<rparr> in
        if put_offset_change_callback w then callback False w else Some w)"

definition SetGetOffset ::
  "int32 \<Rightarrow> 'a command_buffer_service_scheme \<Rightarrow> 'a command_buffer_service_scheme option" where
  "SetGetOffset get w = do {
     guard (0 \<le> get \<and> get < num_entries w);
     Some (w\<lparr>get_offset := get\<rparr>)
   }"

definition SetToken ::
  "int32 \<Rightarrow> 'a command_buffer_service_scheme \<Rightarrow> 'a command_buffer_service_scheme" where
  "SetToken t w = w\<lparr>token := t\<rparr>"

definition SetParseError ::
  "error \<Rightarrow> 'a command_buffer_service_scheme \<Rightarrow> 'a command_buffer_service_scheme" where
  "SetParseError e w = (if svc_error w = kNoError then w\<lparr>svc_error := e\<rparr> else w)"

definition SetPutOffsetChangeCallback ::
  "'a command_buffer_service_scheme \<Rightarrow> 'a command_buffer_service_scheme" where
  "SetPutOffsetChangeCallback w = w\<lparr>put_offset_change_callback := True\<rparr>"

section \<open>Transfer buffers\<close>

text \<open>\<open>RegisterTransferBuffer\<close>, from the point where the buffer is mapped (lines 174 to 210).\<close>

definition place_buffer ::
  "buffer \<Rightarrow> int32 \<Rightarrow> 'a command_buffer_service_scheme \<Rightarrow>
     (int32 \<times> 'a command_buffer_service_scheme) option" where
  "place_buffer b id_request w =
     (let regs = registered_objects w;
          unused = unused_registered_object_elements w;
          cur_size = to_int32 (length regs) in
      if id_request \<noteq> -1 \<and> cur_size \<le> id_request then
        Some (id_request,
          w\<lparr>registered_objects := (regs @ replicate (nat (id_request + 1) - length regs) null_buffer)
              [nat id_request := b],
            unused_registered_object_elements := unused \<union> {length regs ..< nat id_request}\<rparr>)
      else if id_request \<noteq> -1 \<and> shared_memory (regs ! nat id_request) = 0 then
        Some (id_request,
          w\<lparr>registered_objects := regs[nat id_request := b],
            unused_registered_object_elements := unused - {nat id_request}\<rparr>)
      else if unused = {} then
        Some (to_int32 (length regs), w\<lparr>registered_objects := regs @ [b]\<rparr>)
      else do {
        let handle = Min unused;
        guard (handle < length regs \<and> shared_memory (regs ! handle) = 0);
        Some (int handle,
          w\<lparr>registered_objects := regs[handle := b],
            unused_registered_object_elements := unused - {handle}\<rparr>)
      })"

definition RegisterTransferBuffer ::
  "mapping \<Rightarrow> uint32 \<Rightarrow> int32 \<Rightarrow> 'a command_buffer_service_scheme \<Rightarrow>
     (int32 \<times> 'a command_buffer_service_scheme) option" where
  "RegisterTransferBuffer answer sz id_request w =
     (if unused_registered_object_elements w = {} \<and> length (registered_objects w) > 2 ^ 32 - 1
      then Some (-1, w)
      else if id_request \<noteq> -1 \<and> (id_request > 100 \<or> id_request < -1) then Some (-1, w)
      else case answer of
        None \<Rightarrow> Some (-1, w)
      | Some (p, shm, r) \<Rightarrow>
          place_buffer \<lparr>ptr = p, buffer_size = sz, shared_memory = shm\<rparr> id_request
            (w\<lparr>view := (view w)(p \<mapsto> r)\<rparr>))"

definition CreateTransferBuffer ::
  "bool \<Rightarrow> mapping \<Rightarrow> uint32 \<Rightarrow> int32 \<Rightarrow> 'a command_buffer_service_scheme \<Rightarrow>
     (int32 \<times> 'a command_buffer_service_scheme) option" where
  "CreateTransferBuffer create answer sz id_request w =
     (if \<not> create then Some (-1, w) else RegisterTransferBuffer answer sz id_request w)"

text \<open>The loop that drops the null objects at the end of the vector.\<close>

function shrink :: "buffer list \<Rightarrow> nat set \<Rightarrow> buffer list \<times> nat set" where
  "shrink regs unused =
     (if 1 < length regs \<and> shared_memory (last regs) = 0
      then shrink (butlast regs) (unused - {length regs - 1})
      else (regs, unused))"
  by pat_completeness auto
termination by (relation "measure (\<lambda>(regs, _). length regs)") auto

declare shrink.simps [simp del]

definition DestroyTransferBuffer ::
  "int32 \<Rightarrow> 'a command_buffer_service_scheme \<Rightarrow> 'a command_buffer_service_scheme" where
  "DestroyTransferBuffer handle w =
     (if handle \<le> 0 then w
      else if nat handle \<ge> length (registered_objects w) then w
      else
        let b = registered_objects w ! nat handle;
            v = (if shared_memory b \<noteq> 0 then (view w)(ptr b := None) else view w);
            (regs, unused) =
              shrink ((registered_objects w)[nat handle := null_buffer])
                (insert (nat handle) (unused_registered_object_elements w)) in
        w\<lparr>view := v, registered_objects := regs, unused_registered_object_elements := unused\<rparr>)"

definition GetTransferBuffer :: "int32 \<Rightarrow> 'a command_buffer_service_scheme \<Rightarrow> buffer" where
  "GetTransferBuffer handle w =
     (if handle < 0 then null_buffer
      else if nat handle \<ge> length (registered_objects w) then null_buffer
      else registered_objects w ! nat handle)"

section \<open>The table of transfer buffers as a map\<close>

text \<open>
  What the table promises: a partial map from handles to buffers. \<open>table_inv\<close> is its representation
  invariant: the unused set is exactly the set of the null elements after element zero, and the
  last element is in use.
\<close>

definition null_elements :: "buffer list \<Rightarrow> nat set" where
  "null_elements regs = {i. 0 < i \<and> i < length regs \<and> shared_memory (regs ! i) = 0}"

definition regs_ok :: "buffer list \<Rightarrow> bool" where
  "regs_ok regs \<longleftrightarrow> regs \<noteq> [] \<and> (\<forall>b \<in> set regs. shared_memory b = 0 \<longrightarrow> b = null_buffer)"

definition table_inv :: "'a command_buffer_service_scheme \<Rightarrow> bool" where
  "table_inv w \<longleftrightarrow>
     regs_ok (registered_objects w) \<and>
     unused_registered_object_elements w = null_elements (registered_objects w) \<and>
     (1 < length (registered_objects w) \<longrightarrow> shared_memory (last (registered_objects w)) \<noteq> 0)"

definition regs_map :: "buffer list \<Rightarrow> int32 \<rightharpoonup> buffer" where
  "regs_map regs h =
     (if 0 \<le> h \<and> nat h < length regs \<and> shared_memory (regs ! nat h) \<noteq> 0
      then Some (regs ! nat h) else None)"

definition transfer_buffers :: "'a command_buffer_service_scheme \<Rightarrow> int32 \<rightharpoonup> buffer" where
  "transfer_buffers w = regs_map (registered_objects w)"

lemma table_inv_init: "table_inv CommandBufferService_init"
  by (auto simp: table_inv_def CommandBufferService_init_def regs_ok_def null_elements_def)

lemma null_elements_bound: "i \<in> null_elements regs \<Longrightarrow> 0 < i \<and> i < length regs"
  by (simp add: null_elements_def)

lemma finite_null_elements [simp]: "finite (null_elements regs)"
  by (rule finite_subset [of _ "{..< length regs}"]) (auto simp: null_elements_def)

lemma regs_map_update:
  "i < length regs \<Longrightarrow> shared_memory b \<noteq> 0 \<Longrightarrow> regs_map (regs[i := b]) = (regs_map regs)(int i \<mapsto> b)"
  by (rule ext) (auto simp: regs_map_def nth_list_update)

lemma regs_map_delete:
  "i < length regs \<Longrightarrow> regs_map (regs[i := null_buffer]) = (regs_map regs)(int i := None)"
  by (rule ext) (auto simp: regs_map_def nth_list_update null_buffer_def)

lemma shared_memory_null [simp]: "shared_memory null_buffer = 0"
  by (simp add: null_buffer_def)

lemma regs_map_pad [simp]: "regs_map (regs @ replicate k null_buffer) = regs_map regs"
  by (rule ext) (auto simp: regs_map_def nth_append)

lemma regs_ok_pad [simp]: "regs \<noteq> [] \<Longrightarrow> regs_ok (regs @ replicate k null_buffer) = regs_ok regs"
  by (auto simp: regs_ok_def)

lemma regs_ok_update: "regs_ok regs \<Longrightarrow> shared_memory b \<noteq> 0 \<or> b = null_buffer \<Longrightarrow> regs_ok (regs[i := b])"
  by (auto simp: regs_ok_def dest!: set_update_subset_insert [THEN subsetD])

lemma null_elements_update:
  "i < length regs \<Longrightarrow> shared_memory b \<noteq> 0 \<Longrightarrow>
     null_elements (regs[i := b]) = null_elements regs - {i}"
  by (auto simp: null_elements_def nth_list_update split: if_splits)

lemma null_elements_delete:
  "0 < i \<Longrightarrow> i < length regs \<Longrightarrow>
     null_elements (regs[i := null_buffer]) = insert i (null_elements regs)"
  by (auto simp: null_elements_def nth_list_update split: if_splits)

lemma null_elements_pad:
  "regs \<noteq> [] \<Longrightarrow> null_elements (regs @ replicate k null_buffer)
     = null_elements regs \<union> {length regs ..< length regs + k}"
  by (cases regs) (auto simp: null_elements_def nth_append nth_Cons')

lemma last_update:
  "regs \<noteq> [] \<Longrightarrow> i < length regs \<Longrightarrow>
     last (regs[i := b]) = (if Suc i = length regs then b else last regs)"
  by (auto simp: last_conv_nth nth_list_update)

lemma shrink_spec:
  "shrink regs unused = (regs', unused') \<Longrightarrow> regs_ok regs \<Longrightarrow> unused = null_elements regs \<Longrightarrow>
     regs_ok regs' \<and> unused' = null_elements regs' \<and> regs_map regs' = regs_map regs \<and>
     (\<exists>k. regs = regs' @ replicate k null_buffer) \<and>
     (1 < length regs' \<longrightarrow> shared_memory (last regs') \<noteq> 0)"
proof (induction regs unused rule: shrink.induct)
  case (1 regs unused)
  show ?case
  proof (cases "1 < length regs \<and> shared_memory (last regs) = 0")
    case True
    obtain xs x where r: "regs = xs @ [x]" "xs \<noteq> []" using True by (cases regs rule: rev_cases) auto
    have x: "x = null_buffer" using "1.prems"(2) True r by (auto simp: regs_ok_def)
    have ok: "regs_ok xs" using "1.prems"(2) r by (auto simp: regs_ok_def)
    have pad: "regs = xs @ replicate 1 null_buffer" using r x by simp
    have un: "unused - {length regs - 1} = null_elements xs"
      using null_elements_pad [OF r(2), of 1] "1.prems"(3) pad
      by (auto simp: null_elements_def)
    have sh: "shrink xs (null_elements xs) = (regs', unused')"
      using "1.prems"(1) True un by (subst (asm) shrink.simps) (simp add: r)
    have "regs_ok regs' \<and> unused' = null_elements regs' \<and> regs_map regs' = regs_map xs \<and>
       (\<exists>k. xs = regs' @ replicate k null_buffer) \<and>
       (1 < length regs' \<longrightarrow> shared_memory (last regs') \<noteq> 0)"
      using "1.IH" [OF True] sh un ok r by simp
    moreover then obtain k where "xs = regs' @ replicate k null_buffer" by blast
    then have "regs = regs' @ replicate (Suc k) null_buffer"
      by (simp add: r x replicate_append_same)
    moreover have "regs_map regs = regs_map xs" by (simp add: pad del: replicate_Suc replicate.simps)
    ultimately show ?thesis by metis
  next
    case False
    then have "regs' = regs \<and> unused' = unused"
      using "1.prems"(1) by (subst (asm) shrink.simps) (auto split: if_splits)
    moreover have "regs = regs @ replicate 0 null_buffer" by simp
    ultimately show ?thesis using "1.prems" False by (metis)
  qed
qed

text \<open>Registering a mapped buffer, on each of the four ways a handle is chosen.\<close>

abbreviation with_table ::
  "buffer list \<Rightarrow> nat set \<Rightarrow> 'a command_buffer_service_scheme \<Rightarrow> 'a command_buffer_service_scheme" where
  "with_table regs unused w \<equiv>
     w\<lparr>registered_objects := regs, unused_registered_object_elements := unused\<rparr>"

lemma with_table_ok:
  assumes "regs_ok regs" "unused = null_elements regs"
    "1 < length regs \<longrightarrow> shared_memory (last regs) \<noteq> 0"
    "regs_map regs = (regs_map (registered_objects w))(h \<mapsto> b)"
  shows "table_inv (with_table regs unused w) \<and>
    transfer_buffers (with_table regs unused w) = (transfer_buffers w)(h \<mapsto> b)"
  using assms by (simp add: table_inv_def transfer_buffers_def)

lemma place_buffer_push:
  assumes "id_request = -1 \<or> id_request < to_int32 (length (registered_objects w)) \<and>
      shared_memory (registered_objects w ! nat id_request) \<noteq> 0"
    and "unused_registered_object_elements w = {}"
  shows "place_buffer b id_request w = Some (to_int32 (length (registered_objects w)),
      with_table (registered_objects w @ [b]) {} w)"
  using assms(1) by (elim disjE conjE) (simp_all add: place_buffer_def Let_def assms(2))

lemma place_buffer_reuse:
  assumes "id_request = -1 \<or> id_request < to_int32 (length (registered_objects w)) \<and>
      shared_memory (registered_objects w ! nat id_request) \<noteq> 0"
    and "unused_registered_object_elements w \<noteq> {}"
    and "h = Min (unused_registered_object_elements w)"
    and "h < length (registered_objects w)" "shared_memory (registered_objects w ! h) = 0"
  shows "place_buffer b id_request w = Some (int h, with_table ((registered_objects w)[h := b])
      (unused_registered_object_elements w - {h}) w)"
  using assms(1)
  by (elim disjE conjE) (simp_all add: place_buffer_def Let_def assms(2,4,5) flip: assms(3))

lemma place_buffer_cases:
  assumes inv: "table_inv w" and len: "length (registered_objects w) < 2 ^ 31"
    and b: "shared_memory b \<noteq> 0" and req: "id_request = -1 \<or> 0 \<le> id_request"
  shows "\<exists>h regs unused. place_buffer b id_request w = Some (h, with_table regs unused w) \<and> 0 \<le> h \<and>
     regs_map (registered_objects w) h = None \<and>
     regs_map regs = (regs_map (registered_objects w))(h \<mapsto> b) \<and>
     regs_ok regs \<and> unused = null_elements regs \<and>
     (1 < length regs \<longrightarrow> shared_memory (last regs) \<noteq> 0) \<and>
     (id_request \<noteq> -1 \<and> regs_map (registered_objects w) id_request = None \<longrightarrow> h = id_request)"
proof -
  let ?regs = "registered_objects w" and ?unused = "unused_registered_object_elements w"
  have ne: "?regs \<noteq> []" and ok: "regs_ok ?regs" and un: "?unused = null_elements ?regs"
    and lst: "1 < length ?regs \<longrightarrow> shared_memory (last ?regs) \<noteq> 0"
    using inv by (auto simp: table_inv_def regs_ok_def)
  have cur: "to_int32 (length ?regs) = int (length ?regs)"
    using len by (simp add: to_int32_def Let_def)
  have upd: "regs_ok (?regs[n := b]) \<and> null_elements (?regs[n := b]) = ?unused - {n} \<and>
      regs_map (?regs[n := b]) = (regs_map ?regs)(int n \<mapsto> b) \<and>
      (1 < length (?regs[n := b]) \<longrightarrow> shared_memory (last (?regs[n := b])) \<noteq> 0)"
    if n: "n < length ?regs" for n
    using null_elements_update [OF n b] un ok b regs_map_update [OF n b] last_update [OF ne n, of b]
      lst by (simp add: regs_ok_update)
  consider (pad) "id_request \<noteq> -1" "int (length ?regs) \<le> id_request"
    | (free) "id_request \<noteq> -1" "id_request < int (length ?regs)"
        "shared_memory (?regs ! nat id_request) = 0"
    | (other) "id_request = -1 \<or> id_request < int (length ?regs) \<and>
        shared_memory (?regs ! nat id_request) \<noteq> 0"
    using req by linarith
  then show ?thesis
  proof cases
    case pad
    obtain n where n: "id_request = int n" using pad req by (metis nonneg_int_cases)
    have n': "length ?regs \<le> n" using pad n by simp
    let ?p = "?regs @ replicate (Suc n - length ?regs) null_buffer"
    let ?r = "?p[n := b]" and ?u = "?unused \<union> {length ?regs ..< n}"
    have lp: "length ?p = Suc n" "n < length ?p" using n' by simp_all
    have eq: "nat (id_request + 1) = Suc n" "nat id_request = n" using n by auto
    have notin: "n \<notin> ?unused" using n' by (simp add: un null_elements_def)
    have "null_elements ?r = null_elements ?p - {n}" using null_elements_update lp(2) b by blast
    also have "null_elements ?p = ?unused \<union> {length ?regs ..< Suc n}"
      using null_elements_pad [OF ne, of "Suc n - length ?regs"] n' by (simp add: un)
    also have "\<dots> - {n} = ?u" using notin by force
    finally have un': "?u = null_elements ?r" by (rule sym)
    have lst': "last ?r = b" using last_update [of ?p n b] lp by simp
    have ok': "regs_ok ?r" using ok ne b by (simp add: regs_ok_update)
    have mp: "regs_map ?r = (regs_map ?regs)(int n \<mapsto> b)"
      using regs_map_update [OF lp(2) b] by simp
    have pl: "place_buffer b id_request w = Some (int n, with_table ?r ?u w)"
      using pad cur unfolding place_buffer_def Let_def eq by (simp add: n)
    have none: "regs_map ?regs (int n) = None" using n' by (simp add: regs_map_def)
    show ?thesis
      by (rule exI [of _ "int n"], rule exI [of _ ?r], rule exI [of _ ?u])
        (use pl mp none un' lst' ok' b n in simp)
  next
    case free
    obtain n where n: "id_request = int n" using free req by (metis nonneg_int_cases)
    have n': "n < length ?regs" using free n by simp
    have pl: "place_buffer b id_request w = Some (int n, with_table (?regs[n := b]) (?unused - {n}) w)"
      using free cur n' unfolding place_buffer_def Let_def by (simp add: n)
    have none: "regs_map ?regs (int n) = None" using free n by (simp add: regs_map_def)
    show ?thesis
      by (rule exI [of _ "int n"], rule exI [of _ "?regs[n := b]"], rule exI [of _ "?unused - {n}"])
        (use pl none upd [OF n'] n in simp)
  next
    case other
    have taken: "id_request = -1 \<or> regs_map ?regs id_request \<noteq> None"
      using other req by (auto simp: regs_map_def)
    show ?thesis
    proof (cases "?unused = {}")
      case True
      let ?r = "?regs @ [b]" and ?n = "length ?regs"
      have r: "?r = (?regs @ replicate 1 null_buffer)[?n := b]" by simp
      have emp: "null_elements ?regs = {}" using True un by simp
      have "null_elements ((?regs @ replicate 1 null_buffer)[?n := b]) =
          null_elements (?regs @ replicate 1 null_buffer) - {?n}"
        by (rule null_elements_update) (simp_all add: b)
      also have "null_elements (?regs @ replicate 1 null_buffer) = {?n ..< Suc ?n}"
        using null_elements_pad [OF ne, of 1] emp by (simp del: replicate.simps)
      also have "\<dots> - {?n} = {}" by simp
      finally have un': "{} = null_elements ?r" by (simp only: arg_cong [OF r, of null_elements])
      have ok': "regs_ok ?r" using ok b by (simp add: regs_ok_def)
      have "regs_map ((?regs @ replicate 1 null_buffer)[?n := b]) =
          (regs_map (?regs @ replicate 1 null_buffer))(int ?n \<mapsto> b)"
        by (rule regs_map_update) (simp_all add: b)
      then have mp: "regs_map ?r = (regs_map ?regs)(int ?n \<mapsto> b)"
        by (simp only: arg_cong [OF r, of regs_map] regs_map_pad)
      have pl: "place_buffer b id_request w = Some (int ?n, with_table ?r {} w)"
        using place_buffer_push [OF _ True, of id_request b] other
        unfolding cur by blast
      have none: "regs_map ?regs (int ?n) = None" by (simp add: regs_map_def)
      show ?thesis
        by (rule exI [of _ "int ?n"], rule exI [of _ ?r], rule exI [of _ "{}"])
          (intro conjI impI pl none mp ok' un', use taken b in simp_all)
    next
      case False
      let ?n = "Min ?unused"
      have "?n \<in> null_elements ?regs" using False un by (metis Min_in finite_null_elements)
      then have h: "0 < ?n" "?n < length ?regs" "shared_memory (?regs ! ?n) = 0"
        by (auto simp: null_elements_def)
      have pl: "place_buffer b id_request w =
          Some (int ?n, with_table (?regs[?n := b]) (?unused - {?n}) w)"
        using place_buffer_reuse [OF _ False refl h(2) h(3), of id_request b] other
        unfolding cur by blast
      have none: "regs_map ?regs (int ?n) = None" using h by (simp add: regs_map_def)
      show ?thesis
        by (rule exI [of _ "int ?n"], rule exI [of _ "?regs[?n := b]"],
            rule exI [of _ "?unused - {?n}"])
          (intro conjI impI pl none, use upd [OF h(2)] taken in simp_all)
    qed
  qed
qed

lemma place_buffer_spec:
  assumes "table_inv w" "length (registered_objects w) < 2 ^ 31" "shared_memory b \<noteq> 0"
    "id_request = -1 \<or> 0 \<le> id_request"
  shows "\<exists>h regs unused. place_buffer b id_request w = Some (h, with_table regs unused w) \<and> 0 \<le> h \<and>
     transfer_buffers w h = None \<and> table_inv (with_table regs unused w) \<and>
     transfer_buffers (with_table regs unused w) = (transfer_buffers w)(h \<mapsto> b) \<and>
     (id_request \<noteq> -1 \<and> transfer_buffers w id_request = None \<longrightarrow> h = id_request)"
  using place_buffer_cases [OF assms] with_table_ok [of _ _ w] by (fastforce simp: transfer_buffers_def)

lemma GetTransferBuffer_map:
  "table_inv w \<Longrightarrow> GetTransferBuffer h w =
     (case transfer_buffers w h of None \<Rightarrow> null_buffer | Some b \<Rightarrow> b)"
  by (auto simp: GetTransferBuffer_def transfer_buffers_def regs_map_def table_inv_def regs_ok_def)

lemma DestroyTransferBuffer_map:
  assumes "table_inv w"
  shows "table_inv (DestroyTransferBuffer h w)"
    and "transfer_buffers (DestroyTransferBuffer h w) =
      (if h = 0 then transfer_buffers w else (transfer_buffers w)(h := None))"
proof -
  let ?regs = "registered_objects w"
  obtain ok: "regs_ok ?regs" and un: "unused_registered_object_elements w = null_elements ?regs"
    using assms by (auto simp: table_inv_def)
  have "table_inv (DestroyTransferBuffer h w) \<and> transfer_buffers (DestroyTransferBuffer h w) =
      (if h = 0 then transfer_buffers w else (transfer_buffers w)(h := None))"
  proof (cases "0 < h \<and> nat h < length ?regs")
    case True
    obtain regs' unused' where s:
      "shrink (?regs[nat h := null_buffer]) (insert (nat h) (null_elements ?regs)) = (regs', unused')"
      by fastforce
    have "insert (nat h) (null_elements ?regs) = null_elements (?regs[nat h := null_buffer])"
      using True by (simp add: null_elements_delete)
    moreover have "regs_ok (?regs[nat h := null_buffer])" using ok by (simp add: regs_ok_update)
    ultimately have "regs_ok regs' \<and> unused' = null_elements regs' \<and>
      regs_map regs' = regs_map (?regs[nat h := null_buffer]) \<and>
      (1 < length regs' \<longrightarrow> shared_memory (last regs') \<noteq> 0)"
      using shrink_spec [OF s] by blast
    then show ?thesis using True s un
      by (auto simp: DestroyTransferBuffer_def Let_def table_inv_def transfer_buffers_def
          regs_map_delete)
  next
    case False
    then have "DestroyTransferBuffer h w = w" by (auto simp: DestroyTransferBuffer_def)
    moreover have "h \<noteq> 0 \<longrightarrow> transfer_buffers w h = None"
      using False by (auto simp: transfer_buffers_def regs_map_def)
    ultimately show ?thesis using assms by auto
  qed
  then show "table_inv (DestroyTransferBuffer h w)"
    "transfer_buffers (DestroyTransferBuffer h w) =
      (if h = 0 then transfer_buffers w else (transfer_buffers w)(h := None))" by auto
qed

section \<open>Transfer buffers stay mapped\<close>

text \<open>
  \<open>mem_ok\<close>: every registered buffer lies in a live mapping that is at least as long as the buffer
  says, and no two registered buffers share a mapping. \<open>mapping_ok\<close> is what the platform documents
  for a successful \<open>Map(size)\<close>: a fresh non-null address that shows at least \<open>size\<close> bytes.
\<close>

definition mem_ok :: "'a command_buffer_service_scheme \<Rightarrow> bool" where
  "mem_ok w \<longleftrightarrow>
     (\<forall>h b. transfer_buffers w h = Some b \<longrightarrow>
        ptr b \<noteq> 0 \<and> (\<exists>r. view w (ptr b) = Some r \<and> buffer_size b \<le> length (region w r))) \<and>
     (\<forall>h h' b b'. transfer_buffers w h = Some b \<longrightarrow> transfer_buffers w h' = Some b' \<longrightarrow>
        ptr b = ptr b' \<longrightarrow> h = h')"

definition mapping_ok ::
  "uint32 \<Rightarrow> nat \<Rightarrow> nat \<Rightarrow> nat \<Rightarrow> 'a command_buffer_service_scheme \<Rightarrow> bool" where
  "mapping_ok sz p shm r w \<longleftrightarrow>
     p \<noteq> 0 \<and> shm \<noteq> 0 \<and> view w p = None \<and> sz \<le> length (region w r)"

lemma mem_ok_mapped:
  "mem_ok w \<Longrightarrow> transfer_buffers w h = Some b \<Longrightarrow>
     ptr b \<noteq> 0 \<and> (\<exists>r. view w (ptr b) = Some r \<and> buffer_size b \<le> length (region w r))"
  unfolding mem_ok_def by blast

lemma mem_ok_inj:
  "mem_ok w \<Longrightarrow> transfer_buffers w h = Some b \<Longrightarrow> transfer_buffers w h' = Some b' \<Longrightarrow>
     ptr b = ptr b' \<Longrightarrow> h = h'"
  unfolding mem_ok_def by blast

lemma mem_okI:
  assumes "\<And>h b. transfer_buffers w h = Some b \<Longrightarrow>
      ptr b \<noteq> 0 \<and> (\<exists>r. view w (ptr b) = Some r \<and> buffer_size b \<le> length (region w r))"
    and "\<And>h h' b b'. transfer_buffers w h = Some b \<Longrightarrow> transfer_buffers w h' = Some b' \<Longrightarrow>
      ptr b = ptr b' \<Longrightarrow> h = h'"
  shows "mem_ok w"
  unfolding mem_ok_def using assms by blast

lemma mem_ok_insert:
  assumes mem: "mem_ok w" and m: "mapping_ok sz p shm r w"
    and tb: "transfer_buffers w' = (transfer_buffers w)(h \<mapsto> b)" "ptr b = p" "buffer_size b = sz"
    and v: "view w' = (view w)(p \<mapsto> r)" "region w' = region w"
  shows "mem_ok w'"
proof (rule mem_okI)
  have old: "ptr c \<noteq> p" if "transfer_buffers w k = Some c" for k c
    using mem_ok_mapped [OF mem that] m by (auto simp: mapping_ok_def)
  show "ptr c \<noteq> 0 \<and> (\<exists>r. view w' (ptr c) = Some r \<and> buffer_size c \<le> length (region w' r))"
    if c: "transfer_buffers w' k = Some c" for k c
  proof (cases "k = h")
    case True
    with c tb v m show ?thesis by (auto simp: mapping_ok_def)
  next
    case False
    with c tb have k: "transfer_buffers w k = Some c" by simp
    show ?thesis using mem_ok_mapped [OF mem k] old [OF k] v by auto
  qed
  show "k = k'" if c: "transfer_buffers w' k = Some c" "transfer_buffers w' k' = Some c'"
    "ptr c = ptr c'" for k k' c c'
  proof (cases "k = h"; cases "k' = h")
    assume "k \<noteq> h" "k' \<noteq> h"
    then show ?thesis using c tb mem_ok_inj [OF mem] by simp
  qed (use c tb old in \<open>auto dest: old\<close>)
qed

lemma mem_ok_delete:
  assumes mem: "mem_ok w" and tb: "transfer_buffers w' = (transfer_buffers w)(h := None)"
    and v: "view w' = view w \<or>
      (\<exists>b. transfer_buffers w h = Some b \<and> view w' = (view w)(ptr b := None))"
    and rg: "region w' = region w"
  shows "mem_ok w'"
proof (rule mem_okI)
  show "ptr c \<noteq> 0 \<and> (\<exists>r. view w' (ptr c) = Some r \<and> buffer_size c \<le> length (region w' r))"
    if c: "transfer_buffers w' k = Some c" for k c
  proof -
    have k: "k \<noteq> h" "transfer_buffers w k = Some c" using c tb by (auto split: if_splits)
    have other: "ptr c \<noteq> ptr b" if "transfer_buffers w h = Some b" for b
      using mem_ok_inj [OF mem k(2) that] k(1) by blast
    have "view w' (ptr c) = view w (ptr c)"
      using v
    proof
      assume "\<exists>b. transfer_buffers w h = Some b \<and> view w' = (view w)(ptr b := None)"
      then obtain b where "transfer_buffers w h = Some b" "view w' = (view w)(ptr b := None)" by blast
      with other show ?thesis by simp
    qed simp
    then show ?thesis using mem_ok_mapped [OF mem k(2)] rg by simp
  qed
  show "k = k'" if "transfer_buffers w' k = Some c" "transfer_buffers w' k' = Some c'"
    "ptr c = ptr c'" for k k' c c'
  proof -
    have "transfer_buffers w k = Some c" "transfer_buffers w k' = Some c'"
      using that(1,2) tb by (auto split: if_splits)
    then show ?thesis using mem_ok_inj [OF mem] that(3) by blast
  qed
qed

text \<open>
  C40 (refinement): the table of transfer buffers implements a partial map from handles to mapped
  buffers. Registering a buffer that could be mapped gives a handle that was not in use, adds exactly
  that entry and keeps every other, and honours the requested id whenever it is free, whether the
  table has to be padded, a null element is reused or the vector grows.
\<close>

theorem register_adds_buffer:
  assumes "table_inv w" "mem_ok w" "length (registered_objects w) < 2 ^ 31"
    and "id_request = -1 \<or> 0 \<le> id_request \<and> id_request \<le> 100"
    and "mapping_ok sz p shm r w"
  shows "\<exists>h w'. RegisterTransferBuffer (Some (p, shm, r)) sz id_request w = Some (h, w') \<and> 0 \<le> h \<and>
     transfer_buffers w h = None \<and>
     transfer_buffers w' = (transfer_buffers w)
       (h \<mapsto> \<lparr>ptr = p, buffer_size = sz, shared_memory = shm\<rparr>) \<and>
     (id_request \<noteq> -1 \<and> transfer_buffers w id_request = None \<longrightarrow> h = id_request) \<and>
     table_inv w' \<and> mem_ok w'"
proof -
  let ?b = "\<lparr>ptr = p, buffer_size = sz, shared_memory = shm\<rparr>" and ?v = "w\<lparr>view := (view w)(p \<mapsto> r)\<rparr>"
  have tv: "table_inv ?v" "length (registered_objects ?v) < 2 ^ 31" "transfer_buffers ?v = transfer_buffers w"
    using assms by (simp_all add: table_inv_def transfer_buffers_def)
  have b: "shared_memory ?b \<noteq> 0" using assms(5) by (simp add: mapping_ok_def)
  have idr: "id_request = -1 \<or> 0 \<le> id_request" using assms(4) by linarith
  obtain h regs unused where pb: "place_buffer ?b id_request ?v = Some (h, with_table regs unused ?v)"
      "0 \<le> h" "transfer_buffers w h = None" "table_inv (with_table regs unused ?v)"
      "transfer_buffers (with_table regs unused ?v) = (transfer_buffers w)(h \<mapsto> ?b)"
      "id_request \<noteq> -1 \<and> transfer_buffers w id_request = None \<longrightarrow> h = id_request"
    using place_buffer_spec [OF tv(1,2) b idr] unfolding tv(3) by (elim exE conjE) (rule that)
  have "mem_ok (with_table regs unused ?v)"
    by (rule mem_ok_insert [OF assms(2,5) pb(5)]) simp_all
  moreover have "RegisterTransferBuffer (Some (p, shm, r)) sz id_request w =
      Some (h, with_table regs unused ?v)"
    using assms(3,4) pb(1) by (auto simp: RegisterTransferBuffer_def)
  ultimately show ?thesis using pb by blast
qed

definition sample_service :: command_buffer_service where
  "sample_service = CommandBufferService_init\<lparr>region := (\<lambda>_. replicate 64 0)\<rparr>"

lemma sample_service_ok:
  "table_inv sample_service" "transfer_buffers sample_service = (\<lambda>_. None)" "mem_ok sample_service"
  "view sample_service = (\<lambda>_. None)" "length (registered_objects sample_service) = 1"
  "region sample_service r = replicate 64 0"
proof -
  show t: "transfer_buffers sample_service = (\<lambda>_. None)"
    by (rule ext) (simp add: sample_service_def CommandBufferService_init_def transfer_buffers_def
      regs_map_def nth_Cons')
  show "mem_ok sample_service" by (simp add: mem_ok_def t)
  show "table_inv sample_service"
    by (auto simp: sample_service_def table_inv_def CommandBufferService_init_def regs_ok_def
        null_elements_def)
qed (simp_all add: sample_service_def CommandBufferService_init_def)

theorem register_adds_buffer_witness:
  "\<exists>w'. RegisterTransferBuffer (Some (8, 9, 0)) 64 3 sample_service = Some (3, w') \<and>
     transfer_buffers w' = [3 \<mapsto> \<lparr>ptr = 8, buffer_size = 64, shared_memory = 9\<rparr>] \<and>
     table_inv w' \<and> mem_ok w'"
  using register_adds_buffer [of sample_service 3 64 8 9 0]
  by (auto simp: sample_service_ok mapping_ok_def)

text \<open>
  Destroying a transfer buffer removes exactly its entry from the map of handles,
  unmaps no buffer that is still registered, and leaves the vector of the table as short as its
  entries allow; handles that are not in use, out of range or negative change nothing.
\<close>

theorem destroy_removes_buffer:
  assumes "table_inv w" "mem_ok w" "h \<noteq> 0"
  shows "transfer_buffers (DestroyTransferBuffer h w) = (transfer_buffers w)(h := None) \<and>
    GetTransferBuffer h (DestroyTransferBuffer h w) = null_buffer \<and>
    table_inv (DestroyTransferBuffer h w) \<and> mem_ok (DestroyTransferBuffer h w)"
proof -
  let ?w' = "DestroyTransferBuffer h w"
  have tb: "transfer_buffers ?w' = (transfer_buffers w)(h := None)" and ti: "table_inv ?w'"
    using DestroyTransferBuffer_map [OF assms(1), of h] assms(3) by auto
  have rg: "region ?w' = region w"
    by (auto simp: DestroyTransferBuffer_def Let_def split: prod.split)
  have "view ?w' = view w \<or>
      (\<exists>b. transfer_buffers w h = Some b \<and> view ?w' = (view w)(ptr b := None))"
    by (auto simp: DestroyTransferBuffer_def Let_def transfer_buffers_def regs_map_def
        split: prod.split)
  then have "mem_ok ?w'" by (rule mem_ok_delete [OF assms(2) tb _ rg])
  moreover have "GetTransferBuffer h ?w' = null_buffer"
    by (simp add: GetTransferBuffer_map [OF ti] tb)
  ultimately show ?thesis using tb ti by (simp add: fun_upd_idem)
qed

theorem destroy_removes_buffer_witness:
  "transfer_buffers (DestroyTransferBuffer 1 sample_service) = (transfer_buffers sample_service)(1 := None) \<and>
    GetTransferBuffer 1 (DestroyTransferBuffer 1 sample_service) = null_buffer \<and>
    table_inv (DestroyTransferBuffer 1 sample_service) \<and> mem_ok (DestroyTransferBuffer 1 sample_service)"
  by (rule destroy_removes_buffer) (simp_all add: sample_service_ok)

end
