(* ===== verification/CmdParser.thy ===== *)
theory CmdParser
  imports CommandBufferService
begin

text \<open>
  The command parser (\<open>src/gpu/command_buffer/service/cmd_parser.cc\<close>), which reads one command at a
  time from the ring buffer and hands it to an \<open>AsyncAPIInterface\<close>. The parser's fields extend the
  state of the service side; \<open>buffer_\<close> is the \<open>ring\<close> of that state, and a pointer into it is the
  index of the entry.
\<close>

section \<open>State and operations\<close>

record command_parser = command_buffer_service +
  parser_get :: int32
  parser_put :: int32
  entry_count :: int32

text \<open>
  \<open>AsyncAPIInterface::DoCommand\<close>: the command, the number of its argument entries and the index of
  its first entry.
\<close>

type_synonym 'w handler = "uint32 \<Rightarrow> uint32 \<Rightarrow> int32 \<Rightarrow> 'w \<Rightarrow> (error \<times> 'w) option"

definition CommandParser_init ::
  "nat \<Rightarrow> uint32 \<Rightarrow> int32 \<Rightarrow> uint32 \<Rightarrow> int32 \<Rightarrow> 'a command_parser_scheme \<Rightarrow>
     'a command_parser_scheme option" where
  "CommandParser_init shm_address shm_size offset sz start_get w = do {
     guard (shm_address mod 4 = 0 \<and> offset mod 4 = 0 \<and> sz mod 4 = 0);
     guard (add32 (to_uint32 offset) sz \<le> shm_size);
     Some (w\<lparr>parser_get := start_get, parser_put := start_get, entry_count := int (sz div 4)\<rparr>)
   }"

definition set_get :: "int32 \<Rightarrow> 'a command_parser_scheme \<Rightarrow> bool \<times> 'a command_parser_scheme" where
  "set_get get w =
     (if 0 \<le> get \<and> get < entry_count w then (True, w\<lparr>parser_get := get\<rparr>) else (False, w))"

definition set_put :: "int32 \<Rightarrow> 'a command_parser_scheme \<Rightarrow> 'a command_parser_scheme" where
  "set_put put w = w\<lparr>parser_put := put\<rparr>"

definition IsEmpty :: "'a command_parser_scheme \<Rightarrow> bool" where
  "IsEmpty w \<longleftrightarrow> parser_put w = parser_get w"

text \<open>Reading one entry of the ring buffer; outside of it there is no result.\<close>

definition entry :: "int32 \<Rightarrow> 'a command_buffer_service_scheme \<Rightarrow> uint32 option" where
  "entry i w = (if 0 \<le> i \<and> nat i < length (ring w) then Some (ring w ! nat i) else None)"

definition ProcessCommand ::
  "'a command_parser_scheme handler \<Rightarrow> 'a command_parser_scheme \<Rightarrow>
     (error \<times> 'a command_parser_scheme) option" where
  "ProcessCommand DoCommand w =
     (let get = parser_get w in
      if get = parser_put w then Some (kNoError, w)
      else do {
        header \<leftarrow> entry get w;
        if header_size header = 0 then Some (kInvalidSize, w)
        else if int (header_size header) + get > entry_count w then Some (kOutOfBounds, w)
        else do {
          (result, w) \<leftarrow> DoCommand (header_command header) (header_size header - 1) get w;
          Some (result,
            if result \<noteq> kWaiting \<and> get = parser_get w
            then w\<lparr>parser_get := (get + int (header_size header)) mod entry_count w\<rparr> else w)
        }
      })"

partial_function (option) ProcessAllCommands ::
  "'a command_parser_scheme handler \<Rightarrow> 'a command_parser_scheme \<Rightarrow>
     (error \<times> 'a command_parser_scheme) option" where
  "ProcessAllCommands DoCommand w =
     (if IsEmpty w then Some (kNoError, w)
      else Option.bind (ProcessCommand DoCommand w)
        (\<lambda>(error, w). if error \<noteq> kNoError then Some (error, w) else ProcessAllCommands DoCommand w))"

section \<open>The interface of a handler\<close>

text \<open>
  \<open>parser_ok\<close>: the get offset is inside the buffer and the buffer inside the ring. An
  \<open>AsyncAPIInterface\<close> keeps its invariant, leaves the ring and the parser's bounds alone, moves the
  get offset only inside the buffer, and answers every command it is given with all its arguments
  inside the buffer, provided it knows the command.
\<close>

definition parser_ok :: "'a command_parser_scheme \<Rightarrow> bool" where
  "parser_ok w \<longleftrightarrow> 0 \<le> parser_get w \<and> parser_get w < entry_count w \<and>
     entry_count w \<le> int (length (ring w))"

definition advance :: "error \<Rightarrow> int32 \<Rightarrow> uint32 \<Rightarrow> 'a command_parser_scheme \<Rightarrow> 'a command_parser_scheme"
  where
  "advance e get n v =
     (if e \<noteq> kWaiting \<and> get = parser_get v
      then v\<lparr>parser_get := (get + int n) mod entry_count v\<rparr> else v)"

lemma entry_parser_ok: "parser_ok w \<Longrightarrow> entry (parser_get w) w = Some (ring w ! nat (parser_get w))"
  by (auto simp: entry_def parser_ok_def)

text \<open>The ways a call of \<open>ProcessCommand\<close> can end.\<close>

lemma ProcessCommand_elim:
  assumes r: "ProcessCommand DoCommand w = Some (e, w')" and ok: "parser_ok w"
  obtains (Empty) "parser_get w = parser_put w" "e = kNoError" "w' = w"
  | (Zero) "parser_get w \<noteq> parser_put w" "header_size (ring w ! nat (parser_get w)) = 0"
      "e = kInvalidSize" "w' = w"
  | (Long) "parser_get w \<noteq> parser_put w"
      "int (header_size (ring w ! nat (parser_get w))) + parser_get w > entry_count w"
      "e = kOutOfBounds" "w' = w"
  | (Run) n v where "parser_get w \<noteq> parser_put w" "header_size (ring w ! nat (parser_get w)) = Suc n"
      "parser_get w + int n + 1 \<le> entry_count w"
      "DoCommand (header_command (ring w ! nat (parser_get w))) n (parser_get w) w = Some (e, v)"
      "w' = advance e (parser_get w) (Suc n) v"
proof -
  note en = entry_parser_ok [OF ok]
  let ?h = "ring w ! nat (parser_get w)"
  show thesis
  proof (cases "parser_get w = parser_put w")
    case True
    with r have "e = kNoError" "w' = w" by (auto simp: ProcessCommand_def Let_def)
    with True show ?thesis by (rule Empty)
  next
    case ne: False
    show ?thesis
    proof (cases "header_size ?h")
      case 0
      with r ne have "e = kInvalidSize" "w' = w" by (auto simp: ProcessCommand_def Let_def en)
      with ne 0 show ?thesis by (rule Zero)
    next
      case (Suc n)
      show ?thesis
      proof (cases "int (header_size ?h) + parser_get w > entry_count w")
        case True
        with r ne Suc have "e = kOutOfBounds" "w' = w"
          by (auto simp: ProcessCommand_def Let_def en)
        with ne True show ?thesis by (rule Long)
      next
        case False
        have "header_size ?h \<noteq> 0" using Suc by simp
        with False have "Option.bind (DoCommand (header_command ?h) (header_size ?h - 1) (parser_get w) w)
            (\<lambda>(result, v). Some (result, advance result (parser_get w) (header_size ?h) v)) = Some (e, w')"
          using r ne unfolding ProcessCommand_def Let_def en advance_def by simp
        then obtain v where "DoCommand (header_command ?h) (header_size ?h - 1) (parser_get w) w = Some (e, v)"
          "w' = advance e (parser_get w) (header_size ?h) v" by (auto simp: bind_eq_Some_conv)
        then have v: "DoCommand (header_command ?h) n (parser_get w) w = Some (e, v)"
          "w' = advance e (parser_get w) (Suc n) v" unfolding Suc by simp_all
        have "parser_get w + int n + 1 \<le> entry_count w" using False Suc by simp
        then show ?thesis using Run [OF ne Suc _ v] by blast
      qed
    qed
  qed
qed

locale async_api =
  fixes DoCommand :: "'a command_parser_scheme handler"
    and I :: "'a command_parser_scheme \<Rightarrow> bool"
    and known :: "uint32 \<Rightarrow> bool"
  assumes handles: "I w \<Longrightarrow> parser_ok w \<Longrightarrow> known c \<Longrightarrow> 0 \<le> cmd \<Longrightarrow>
      cmd + int n + 1 \<le> entry_count w \<Longrightarrow>
      \<exists>e w'. DoCommand c n cmd w = Some (e, w') \<and> I w' \<and> parser_ok w' \<and> ring w' = ring w \<and>
        entry_count w' = entry_count w \<and> parser_put w' = parser_put w"
    and get_free: "I w \<Longrightarrow> I (w\<lparr>parser_get := g\<rparr>)"
begin

text \<open>Every header between the offsets names a command the handler knows.\<close>

definition readable :: "'a command_parser_scheme \<Rightarrow> bool" where
  "readable w \<longleftrightarrow> (\<forall>h \<in> set (ring w). known (header_command h))"

lemma ProcessCommand_keeps:
  assumes "I w" "parser_ok w" "readable w" "ProcessCommand DoCommand w = Some (e, w')"
  shows "I w' \<and> parser_ok w' \<and> ring w' = ring w \<and> entry_count w' = entry_count w \<and>
    parser_put w' = parser_put w"
  using assms(4,2)
proof (cases rule: ProcessCommand_elim)
  case (Run n v)
  have c: "0 \<le> parser_get w" "known (header_command (ring w ! nat (parser_get w)))"
    using assms(2,3) by (auto simp: parser_ok_def readable_def nat_less_iff)
  have k: "I v \<and> parser_ok v \<and> ring v = ring w \<and> entry_count v = entry_count w \<and>
      parser_put v = parser_put w" 
    using handles [OF assms(1,2) c(2) c(1) Run(3)] Run(4) by auto
  moreover have "0 < entry_count v" using k by (auto simp: parser_ok_def)
  moreover have "entry_count w \<le> int (length (ring w))" using assms(2) by (simp add: parser_ok_def)
  ultimately show ?thesis using get_free by (simp add: Run(5) advance_def parser_ok_def)
qed (use assms in simp_all)

lemma ProcessCommand_total:
  assumes "I w" "parser_ok w" "readable w"
  shows "\<exists>e w'. ProcessCommand DoCommand w = Some (e, w')"
proof -
  let ?h = "ring w ! nat (parser_get w)"
  have "nat (parser_get w) < length (ring w)" "0 \<le> parser_get w"
    using assms(2) by (auto simp: parser_ok_def)
  then have kn: "known (header_command ?h)" using assms(3) by (auto simp: readable_def)
  have "\<exists>e w'. DoCommand (header_command ?h) (header_size ?h - 1) (parser_get w) w = Some (e, w')"
    if "header_size ?h \<noteq> 0" "\<not> int (header_size ?h) + parser_get w > entry_count w"
    using handles [OF assms(1,2) kn \<open>0 \<le> parser_get w\<close>, of "header_size ?h - 1"] that
    by (force simp: of_nat_diff)
  then show ?thesis
    by (auto simp: ProcessCommand_def Let_def entry_parser_ok [OF assms(2)])
qed

end

lemma ProcessCommand_advances:
  assumes "parser_ok w" "ProcessCommand DoCommand w = Some (kNoError, w')" "\<not> IsEmpty w"
    "\<And>c n v. DoCommand c n (parser_get w) w = Some (kNoError, v) \<Longrightarrow>
       parser_get v = parser_get w \<and> entry_count v = entry_count w"
  shows "parser_get w' =
    (parser_get w + int (header_size (ring w ! nat (parser_get w)))) mod entry_count w"
  using assms(2,1)
proof (cases rule: ProcessCommand_elim)
  case Empty
  then show ?thesis using assms(3) by (simp add: IsEmpty_def)
next
  case (Run n v)
  then show ?thesis using assms(4) [OF Run(4)] by (simp add: advance_def)
qed simp_all

end
