(* ===== verification/CommonDecoder.thy ===== *)
theory CommonDecoder
  imports CmdParser
begin

text \<open>
  The decoder of the common commands (\<open>src/gpu/command_buffer/service/common_decoder.cc\<close>): buckets,
  the call stack, the checked access to shared memory and one handler per command. The decoder talks
  to its engine (\<open>cmd_buffer_engine.h\<close>) through a record of the engine's operations. A pointer into
  shared memory is the base address of the mapping with an offset; \<open>None\<close> is \<open>NULL\<close> where an
  operation answers a pointer. \<open>size_t\<close> is 32 bits wide.
\<close>

section \<open>Buckets\<close>

record bucket =
  size_of :: uint32
  bucket_data :: "byte list"

definition Bucket_init :: bucket where
  "Bucket_init = \<lparr>size_of = 0, bucket_data = []\<rparr>"

definition OffsetSizeValid :: "uint32 \<Rightarrow> uint32 \<Rightarrow> bucket \<Rightarrow> bool" where
  "OffsetSizeValid offset sz b =
     (let temp = add32 offset sz in temp \<le> size_of b \<and> temp \<ge> offset)"

text \<open>The offset into the data that the answered pointer has. The data pointer of an empty bucket
  is \<open>NULL\<close>.\<close>

definition Bucket_GetData :: "uint32 \<Rightarrow> uint32 \<Rightarrow> bucket \<Rightarrow> nat option" where
  "Bucket_GetData offset sz b =
     (if OffsetSizeValid offset sz b then (if size_of b = 0 then None else Some offset) else None)"

definition Bucket_SetSize :: "uint32 \<Rightarrow> bucket \<Rightarrow> bucket" where
  "Bucket_SetSize sz b =
     (if sz \<noteq> size_of b then \<lparr>size_of = sz, bucket_data = replicate sz 0\<rparr> else b)"

definition Bucket_SetData :: "byte list \<Rightarrow> uint32 \<Rightarrow> uint32 \<Rightarrow> bucket \<Rightarrow> (bool \<times> bucket) option" where
  "Bucket_SetData src offset sz b =
     (if OffsetSizeValid offset sz b then do {
        guard (sz \<le> length src \<and> offset + sz \<le> length (bucket_data b));
        Some (True, b\<lparr>bucket_data := take offset (bucket_data b) @ take sz src @
                        drop (offset + sz) (bucket_data b)\<rparr>)
      }
      else Some (False, b))"

text \<open>A C string is the bytes before its terminator; \<open>None\<close> is the null pointer.\<close>

definition Bucket_SetFromString :: "byte list option \<Rightarrow> bucket \<Rightarrow> bucket option" where
  "Bucket_SetFromString str b =
     (case str of
        None \<Rightarrow> Some (Bucket_SetSize 0 b)
      | Some s \<Rightarrow> do {
          let sz = length s + 1;
          (_, b) \<leftarrow> Bucket_SetData (s @ [0]) 0 sz (Bucket_SetSize sz b);
          Some b
        })"

definition Bucket_GetAsString :: "bucket \<Rightarrow> byte list option" where
  "Bucket_GetAsString b =
     (if size_of b = 0 then None
      else case Bucket_GetData 0 (size_of b - 1) b of
        None \<Rightarrow> None
      | Some off \<Rightarrow> Some (take (size_of b - 1) (drop off (bucket_data b))))"

section \<open>State and the engine\<close>

record common_decoder = command_parser +
  buckets :: "uint32 \<rightharpoonup> bucket"
  call_stack :: "uint32 list"

record 'w engine =
  engine_GetSharedMemoryBuffer :: "int32 \<Rightarrow> 'w \<Rightarrow> buffer"
  engine_set_token :: "int32 \<Rightarrow> 'w \<Rightarrow> 'w"
  engine_SetGetOffset :: "int32 \<Rightarrow> 'w \<Rightarrow> (bool \<times> 'w) option"
  engine_GetGetOffset :: "'w \<Rightarrow> int32"

definition kMaxStackDepth :: nat where
  "kMaxStackDepth = 32"

text \<open>Access to mapped memory; outside of a mapping there is no result.\<close>

definition read_bytes ::
  "nat \<times> nat \<Rightarrow> nat \<Rightarrow> 'a command_buffer_service_scheme \<Rightarrow> byte list option" where
  "read_bytes p n w = do {
     r \<leftarrow> view w (fst p);
     guard (snd p + n \<le> length (region w r));
     Some (take n (drop (snd p) (region w r)))
   }"

definition write_bytes ::
  "nat \<times> nat \<Rightarrow> byte list \<Rightarrow> 'a command_buffer_service_scheme \<Rightarrow>
     'a command_buffer_service_scheme option" where
  "write_bytes p bs w = do {
     r \<leftarrow> view w (fst p);
     guard (snd p + length bs \<le> length (region w r));
     Some (w\<lparr>region := (region w)(r := take (snd p) (region w r) @ bs @
              drop (snd p + length bs) (region w r))\<rparr>)
   }"

definition entry_bytes :: "uint32 \<Rightarrow> byte list" where
  "entry_bytes e = map (\<lambda>i. word_of_nat (e div 2 ^ (8 * i))) [0, 1, 2, 3]"

definition bytes_entry :: "byte list \<Rightarrow> uint32" where
  "bytes_entry bs = (\<Sum>i \<leftarrow> [0, 1, 2, 3]. unat (bs ! i) * 2 ^ (8 * i))"

definition GetAddressAndCheckSize ::
  "'w engine \<Rightarrow> uint32 \<Rightarrow> uint32 \<Rightarrow> uint32 \<Rightarrow> 'w \<Rightarrow> (nat \<times> nat) option" where
  "GetAddressAndCheckSize engine shm_id offset sz w =
     (let buffer = engine_GetSharedMemoryBuffer engine (to_int32 shm_id) w in
      if ptr buffer = 0 then None
      else let end' = add32 offset sz in
        if end' > buffer_size buffer \<or> end' < offset then None
        else Some (ptr buffer, offset))"

definition PushAddress ::
  "'a common_decoder_scheme engine \<Rightarrow> uint32 \<Rightarrow> 'a common_decoder_scheme \<Rightarrow>
     (bool \<times> 'a common_decoder_scheme) option" where
  "PushAddress engine offset w =
     (if length (call_stack w) < kMaxStackDepth then do {
        let return_address = to_uint32 (engine_GetGetOffset engine w);
        (ok, w) \<leftarrow> engine_SetGetOffset engine (to_int32 offset) w;
        Some (if ok then (True, w\<lparr>call_stack := return_address # call_stack w\<rparr>) else (False, w))
      }
      else Some (False, w))"

definition GetBucket :: "uint32 \<Rightarrow> 'a common_decoder_scheme \<Rightarrow> bucket option" where
  "GetBucket bucket_id w = buckets w bucket_id"

definition CreateBucket ::
  "uint32 \<Rightarrow> 'a common_decoder_scheme \<Rightarrow> bucket \<times> 'a common_decoder_scheme" where
  "CreateBucket bucket_id w =
     (case GetBucket bucket_id w of
        Some b \<Rightarrow> (b, w)
      | None \<Rightarrow> (Bucket_init, w\<lparr>buckets := (buckets w)(bucket_id \<mapsto> Bucket_init)\<rparr>))"

definition set_bucket ::
  "uint32 \<Rightarrow> bucket \<Rightarrow> 'a common_decoder_scheme \<Rightarrow> 'a common_decoder_scheme" where
  "set_bucket bucket_id b w = w\<lparr>buckets := (buckets w)(bucket_id \<mapsto> b)\<rparr>"

section \<open>Handlers\<close>

text \<open>
  A handler gets the size of the immediate data and the command, which is its place in the ring;
  \<open>arg i\<close> is its \<open>i\<close>th entry, counting the header as the zeroth.
\<close>

type_synonym 'w command_handler = "uint32 \<Rightarrow> int32 \<Rightarrow> 'w \<Rightarrow> (error \<times> 'w) option"

definition arg :: "nat \<Rightarrow> int32 \<Rightarrow> 'a command_buffer_service_scheme \<Rightarrow> uint32 option" where
  "arg i cmd w = entry (cmd + int i) w"

text \<open>The bytes from entry \<open>i\<close> of the command to the end of the ring (\<open>GetImmediateDataAs\<close>).\<close>

definition immediate_data :: "nat \<Rightarrow> int32 \<Rightarrow> 'a command_buffer_service_scheme \<Rightarrow> byte list" where
  "immediate_data i cmd w = concat (map entry_bytes (drop (nat cmd + i) (ring w)))"

definition HandleNoop :: "'a common_decoder_scheme command_handler" where
  "HandleNoop immediate_data_size cmd w = Some (kNoError, w)"

definition HandleSetToken ::
  "'a common_decoder_scheme engine \<Rightarrow> 'a common_decoder_scheme command_handler" where
  "HandleSetToken engine immediate_data_size cmd w = do {
     t \<leftarrow> arg 1 cmd w;
     Some (kNoError, engine_set_token engine (to_int32 t) w)
   }"

definition HandleJump ::
  "'a common_decoder_scheme engine \<Rightarrow> 'a common_decoder_scheme command_handler" where
  "HandleJump engine immediate_data_size cmd w = do {
     offset \<leftarrow> arg 1 cmd w;
     (ok, w) \<leftarrow> engine_SetGetOffset engine (to_int32 offset) w;
     Some (if ok then kNoError else kInvalidArguments, w)
   }"

definition HandleJumpRelative ::
  "'a common_decoder_scheme engine \<Rightarrow> 'a common_decoder_scheme command_handler" where
  "HandleJumpRelative engine immediate_data_size cmd w = do {
     offset \<leftarrow> arg 1 cmd w;
     (ok, w) \<leftarrow> engine_SetGetOffset engine
       (to_int32 (add32 (to_uint32 (engine_GetGetOffset engine w)) offset)) w;
     Some (if ok then kNoError else kInvalidArguments, w)
   }"

definition HandleCall ::
  "'a common_decoder_scheme engine \<Rightarrow> 'a common_decoder_scheme command_handler" where
  "HandleCall engine immediate_data_size cmd w = do {
     offset \<leftarrow> arg 1 cmd w;
     (ok, w) \<leftarrow> PushAddress engine offset w;
     Some (if ok then kNoError else kInvalidArguments, w)
   }"

definition HandleCallRelative ::
  "'a common_decoder_scheme engine \<Rightarrow> 'a common_decoder_scheme command_handler" where
  "HandleCallRelative engine immediate_data_size cmd w = do {
     offset \<leftarrow> arg 1 cmd w;
     (ok, w) \<leftarrow> PushAddress engine
       (add32 (to_uint32 (engine_GetGetOffset engine w)) offset) w;
     Some (if ok then kNoError else kInvalidArguments, w)
   }"

definition HandleReturn ::
  "'a common_decoder_scheme engine \<Rightarrow> 'a common_decoder_scheme command_handler" where
  "HandleReturn engine immediate_data_size cmd w =
     (case call_stack w of
        [] \<Rightarrow> Some (kInvalidArguments, w)
      | return_address # rest \<Rightarrow> do {
          (ok, w) \<leftarrow> engine_SetGetOffset engine (to_int32 return_address) (w\<lparr>call_stack := rest\<rparr>);
          Some (if ok then kNoError else kInvalidArguments, w)
        })"

definition HandleSetBucketSize :: "'a common_decoder_scheme command_handler" where
  "HandleSetBucketSize immediate_data_size cmd w = do {
     bucket_id \<leftarrow> arg 1 cmd w;
     sz \<leftarrow> arg 2 cmd w;
     let (b, w) = CreateBucket bucket_id w;
     Some (kNoError, set_bucket bucket_id (Bucket_SetSize sz b) w)
   }"

definition HandleSetBucketData ::
  "'a common_decoder_scheme engine \<Rightarrow> 'a common_decoder_scheme command_handler" where
  "HandleSetBucketData engine immediate_data_size cmd w = do {
     bucket_id \<leftarrow> arg 1 cmd w;
     offset \<leftarrow> arg 2 cmd w;
     sz \<leftarrow> arg 3 cmd w;
     shm_id \<leftarrow> arg 4 cmd w;
     shm_offset \<leftarrow> arg 5 cmd w;
     case GetAddressAndCheckSize engine shm_id shm_offset sz w of
       None \<Rightarrow> Some (kInvalidArguments, w)
     | Some data \<Rightarrow> (case GetBucket bucket_id w of
         None \<Rightarrow> Some (kInvalidArguments, w)
       | Some b \<Rightarrow> do {
           let src = (case read_bytes data sz w of Some s \<Rightarrow> s | None \<Rightarrow> []);
           (ok, b) \<leftarrow> Bucket_SetData src offset sz b;
           Some (if ok then (kNoError, set_bucket bucket_id b w) else (kInvalidArguments, w))
         })
   }"

definition HandleSetBucketDataImmediate :: "'a common_decoder_scheme command_handler" where
  "HandleSetBucketDataImmediate immediate_data_size cmd w = do {
     bucket_id \<leftarrow> arg 1 cmd w;
     offset \<leftarrow> arg 2 cmd w;
     sz \<leftarrow> arg 3 cmd w;
     if sz > immediate_data_size then Some (kInvalidArguments, w)
     else case GetBucket bucket_id w of
       None \<Rightarrow> Some (kInvalidArguments, w)
     | Some b \<Rightarrow> do {
         (ok, b) \<leftarrow> Bucket_SetData (immediate_data 4 cmd w) offset sz b;
         Some (if ok then (kNoError, set_bucket bucket_id b w) else (kInvalidArguments, w))
       }
   }"

definition HandleGetBucketSize ::
  "'a common_decoder_scheme engine \<Rightarrow> 'a common_decoder_scheme command_handler" where
  "HandleGetBucketSize engine immediate_data_size cmd w = do {
     bucket_id \<leftarrow> arg 1 cmd w;
     shm_id \<leftarrow> arg 2 cmd w;
     shm_offset \<leftarrow> arg 3 cmd w;
     case GetAddressAndCheckSize engine shm_id shm_offset 4 w of
       None \<Rightarrow> Some (kInvalidArguments, w)
     | Some data \<Rightarrow> do {
         old \<leftarrow> read_bytes data 4 w;
         if bytes_entry old \<noteq> 0 then Some (kInvalidArguments, w)
         else case GetBucket bucket_id w of
           None \<Rightarrow> Some (kInvalidArguments, w)
         | Some b \<Rightarrow> do {
             w \<leftarrow> write_bytes data (entry_bytes (size_of b)) w;
             Some (kNoError, w)
           }
       }
   }"

definition HandleGetBucketData ::
  "'a common_decoder_scheme engine \<Rightarrow> 'a common_decoder_scheme command_handler" where
  "HandleGetBucketData engine immediate_data_size cmd w = do {
     bucket_id \<leftarrow> arg 1 cmd w;
     offset \<leftarrow> arg 2 cmd w;
     sz \<leftarrow> arg 3 cmd w;
     shm_id \<leftarrow> arg 4 cmd w;
     shm_offset \<leftarrow> arg 5 cmd w;
     case GetAddressAndCheckSize engine shm_id shm_offset sz w of
       None \<Rightarrow> Some (kInvalidArguments, w)
     | Some data \<Rightarrow> (case GetBucket bucket_id w of
         None \<Rightarrow> Some (kInvalidArguments, w)
       | Some b \<Rightarrow> (case Bucket_GetData offset sz b of
           None \<Rightarrow> Some (kInvalidArguments, w)
         | Some src \<Rightarrow> do {
             guard (src + sz \<le> length (bucket_data b));
             w \<leftarrow> write_bytes data (take sz (drop src (bucket_data b))) w;
             Some (kNoError, w)
           }))
   }"

definition HandleYieldScheduler :: "'a common_decoder_scheme command_handler" where
  "HandleYieldScheduler immediate_data_size cmd w = Some (kYield, w)"

section \<open>Dispatch\<close>

datatype ArgFlags = kFixed | kAtLeastN

text \<open>\<open>g_command_info\<close>: how the arguments of each command are counted, and how many it expects.\<close>

definition g_command_info :: "(ArgFlags \<times> nat) list" where
  "g_command_info =
     [(kAtLeastN, 4 div 4 - 1), (kFixed, 8 div 4 - 1), (kFixed, 8 div 4 - 1), (kFixed, 8 div 4 - 1),
      (kFixed, 8 div 4 - 1), (kFixed, 8 div 4 - 1), (kFixed, 4 div 4 - 1), (kFixed, 12 div 4 - 1),
      (kFixed, 24 div 4 - 1), (kAtLeastN, 16 div 4 - 1), (kFixed, 16 div 4 - 1),
      (kFixed, 24 div 4 - 1), (kFixed, 4 div 4 - 1)]"

text \<open>The cases of the \<open>switch\<close>.\<close>

definition common_handler ::
  "'a common_decoder_scheme engine \<Rightarrow> uint32 \<Rightarrow> 'a common_decoder_scheme command_handler option" where
  "common_handler engine command =
     (if command = id_of kNoop then Some HandleNoop
      else if command = id_of kSetToken then Some (HandleSetToken engine)
      else if command = id_of kJump then Some (HandleJump engine)
      else if command = id_of kJumpRelative then Some (HandleJumpRelative engine)
      else if command = id_of kCall then Some (HandleCall engine)
      else if command = id_of kCallRelative then Some (HandleCallRelative engine)
      else if command = id_of kReturn then Some (HandleReturn engine)
      else if command = id_of kSetBucketSize then Some HandleSetBucketSize
      else if command = id_of kSetBucketData then Some (HandleSetBucketData engine)
      else if command = id_of kSetBucketDataImmediate then Some HandleSetBucketDataImmediate
      else if command = id_of kGetBucketSize then Some (HandleGetBucketSize engine)
      else if command = id_of kGetBucketData then Some (HandleGetBucketData engine)
      else if command = id_of kYieldScheduler then Some HandleYieldScheduler
      else None)"

definition args_match :: "ArgFlags \<times> nat \<Rightarrow> uint32 \<Rightarrow> bool" where
  "args_match info arg_count =
     (fst info = kFixed \<and> arg_count = snd info \<or> fst info = kAtLeastN \<and> arg_count \<ge> snd info)"

text \<open>An unknown command, like a command that leaves the \<open>switch\<close>, calls the function itself again.\<close>

partial_function (option) DoCommonCommand ::
  "'a common_decoder_scheme engine \<Rightarrow> uint32 \<Rightarrow> uint32 \<Rightarrow> int32 \<Rightarrow> 'a common_decoder_scheme \<Rightarrow>
     (error \<times> 'a common_decoder_scheme) option" where
  "DoCommonCommand engine command arg_count cmd w =
     (if command < length g_command_info then
        (if args_match (g_command_info ! command) arg_count then
           (case common_handler engine command of
              Some h \<Rightarrow> h (sub32 arg_count (snd (g_command_info ! command)) * 4 mod 2 ^ 32) cmd w
            | None \<Rightarrow> DoCommonCommand engine command arg_count cmd w)
         else Some (kInvalidArguments, w))
      else DoCommonCommand engine command arg_count cmd w)"

section \<open>Checked access\<close>

lemma add32_no_wrap:
  assumes "a < 2 ^ 32" "b < 2 ^ 32" "a \<le> add32 a b"
  shows "add32 a b = a + b"
proof (cases "a + b < 2 ^ 32")
  case False
  then have "add32 a b = a + b - 2 ^ 32" using assms by (simp add: add32_def le_mod_geq)
  then show ?thesis using assms False by linarith
qed simp

definition bucket_ok :: "bucket \<Rightarrow> bool" where
  "bucket_ok b \<longleftrightarrow> length (bucket_data b) = size_of b"

lemma Bucket_init_ok: "bucket_ok Bucket_init"
  by (simp add: bucket_ok_def Bucket_init_def)

lemma Bucket_SetSize_ok: "bucket_ok b \<Longrightarrow> bucket_ok (Bucket_SetSize sz b)"
  by (simp add: bucket_ok_def Bucket_SetSize_def)

lemma OffsetSizeValid_range:
  "OffsetSizeValid offset sz b \<Longrightarrow> offset < 2 ^ 32 \<Longrightarrow> sz < 2 ^ 32 \<Longrightarrow> offset + sz \<le> size_of b"
  using add32_no_wrap [of offset sz] by (simp add: OffsetSizeValid_def Let_def)

lemma Bucket_SetData_total:
  assumes "bucket_ok b" "offset < 2 ^ 32" "sz < 2 ^ 32"
    "OffsetSizeValid offset sz b \<Longrightarrow> sz \<le> length src"
  obtains ok b' where "Bucket_SetData src offset sz b = Some (ok, b')" "bucket_ok b'"
    "ok = OffsetSizeValid offset sz b"
proof (cases "OffsetSizeValid offset sz b")
  case True
  then show ?thesis
    using that [of True] OffsetSizeValid_range [OF True assms(2,3)] assms(1,4)
    by (auto simp: Bucket_SetData_def bucket_ok_def)
next
  case False
  then show ?thesis using that [of False b] assms(1) by (simp add: Bucket_SetData_def)
qed

text \<open>
  A string put into a bucket is read back, whatever the bucket held before, the empty
  string included; the null pointer is read back as no string.
\<close>

theorem bucket_string_roundtrip:
  assumes "bucket_ok b" "length s + 1 < 2 ^ 32"
  shows "(\<exists>b'. Bucket_SetFromString (Some s) b = Some b' \<and> bucket_ok b' \<and> size_of b' = length s + 1 \<and>
      Bucket_GetAsString b' = Some s) \<and>
    (\<exists>b'. Bucket_SetFromString None b = Some b' \<and> bucket_ok b' \<and> Bucket_GetAsString b' = None)"
proof
  let ?n = "length s + 1"
  let ?b = "Bucket_SetSize ?n b"
  have ok: "bucket_ok ?b" "size_of ?b = ?n"
    using Bucket_SetSize_ok [OF assms(1)] by (simp_all add: Bucket_SetSize_def)
  have v: "OffsetSizeValid 0 ?n ?b" using ok(2) assms(2) by (simp add: OffsetSizeValid_def)
  have l: "length (bucket_data ?b) = ?n" using ok by (simp add: bucket_ok_def)
  have t: "take ?n (s @ [0]) = s @ [0]" by simp
  have "Bucket_SetData (s @ [0]) 0 ?n ?b = Some (True, ?b\<lparr>bucket_data := s @ [0]\<rparr>)"
    unfolding Bucket_SetData_def if_P [OF v] using l t by simp
  then have "Bucket_SetFromString (Some s) b = Some (?b\<lparr>bucket_data := s @ [0]\<rparr>)"
    by (simp add: Bucket_SetFromString_def Let_def)
  moreover have "bucket_ok (?b\<lparr>bucket_data := s @ [0]\<rparr>)" using ok(2) by (simp add: bucket_ok_def)
  moreover have "Bucket_GetAsString (?b\<lparr>bucket_data := s @ [0]\<rparr>) = Some s"
    using ok(2) assms(2) by (simp add: Bucket_GetAsString_def Bucket_GetData_def OffsetSizeValid_def)
  ultimately show "\<exists>b'. Bucket_SetFromString (Some s) b = Some b' \<and> bucket_ok b' \<and> size_of b' = length s + 1 \<and>
      Bucket_GetAsString b' = Some s"
    using ok(2) by (intro exI [of _ "?b\<lparr>bucket_data := s @ [0]\<rparr>"]) simp
next
  have "size_of (Bucket_SetSize 0 b) = 0" by (simp add: Bucket_SetSize_def)
  then show "\<exists>b'. Bucket_SetFromString None b = Some b' \<and> bucket_ok b' \<and> Bucket_GetAsString b' = None"
    using Bucket_SetSize_ok [OF assms(1)] by (simp add: Bucket_SetFromString_def Bucket_GetAsString_def)
qed

theorem bucket_string_roundtrip_witness:
  "\<exists>b'. Bucket_SetFromString (Some [104, 105]) Bucket_init = Some b' \<and> Bucket_GetAsString b' = Some [104, 105]"
proof -
  have "length [104, 105 :: byte] + 1 < 2 ^ 32" by simp
  from bucket_string_roundtrip [OF Bucket_init_ok this] show ?thesis by blast
qed

text \<open>The memory an engine answers for a shared memory id is mapped.\<close>

definition buffer_mapped :: "buffer \<Rightarrow> 'a command_buffer_service_scheme \<Rightarrow> bool" where
  "buffer_mapped b w \<longleftrightarrow>
     (ptr b \<noteq> 0 \<longrightarrow> (\<exists>r. view w (ptr b) = Some r \<and> buffer_size b \<le> length (region w r)))"

lemma GetAddressAndCheckSize_mapped:
  assumes "GetAddressAndCheckSize engine shm_id offset sz w = Some p"
    "buffer_mapped (engine_GetSharedMemoryBuffer engine (to_int32 shm_id) w) w"
    "offset < 2 ^ 32" "sz < 2 ^ 32"
  obtains r where "view w (fst p) = Some r" "snd p + sz \<le> length (region w r)"
proof -
  let ?b = "engine_GetSharedMemoryBuffer engine (to_int32 shm_id) w"
  have p: "ptr ?b \<noteq> 0" "p = (ptr ?b, offset)" "add32 offset sz \<le> buffer_size ?b"
    "offset \<le> add32 offset sz"
    using assms(1) by (auto simp: GetAddressAndCheckSize_def Let_def split: if_splits)
  then show thesis
    using assms(2) add32_no_wrap [OF assms(3,4) p(4)] that by (auto simp: buffer_mapped_def)
qed

lemma length_entry_bytes [simp]: "length (entry_bytes e) = 4"
  by (simp add: entry_bytes_def)

lemma length_concat_entry_bytes [simp]: "length (concat (map entry_bytes es)) = 4 * length es"
  by (induction es) simp_all

lemma length_immediate_data [simp]:
  "length (immediate_data i cmd w) = 4 * (length (ring w) - (nat cmd + i))"
  by (simp add: immediate_data_def)

section \<open>The interface of an engine\<close>

declare One_nat_def [simp del]

definition decoder_ok :: "'a common_decoder_scheme \<Rightarrow> bool" where
  "decoder_ok w \<longleftrightarrow> (\<forall>i b. buckets w i = Some b \<longrightarrow> bucket_ok b) \<and>
     length (call_stack w) \<le> kMaxStackDepth \<and> (\<forall>e \<in> set (ring w). e < 2 ^ 32)"

text \<open>
  \<open>command_buffer_engine\<close>: the memory an engine answers is mapped; it takes exactly the get offsets
  inside the buffer and answers the one in force; it leaves the ring, the parser's bounds, the
  buckets and the call stack alone; and its invariant does not depend on what the decoder writes.
\<close>

locale command_buffer_engine =
  fixes engine :: "'a common_decoder_scheme engine"
    and I :: "'a common_decoder_scheme \<Rightarrow> bool"
  assumes mapped: "I w \<Longrightarrow> buffer_mapped (engine_GetSharedMemoryBuffer engine i w) w"
    and set_token: "I w \<Longrightarrow> \<exists>v. engine_set_token engine t w = v \<and> I v \<and> ring v = ring w \<and>
      entry_count v = entry_count w \<and> parser_put v = parser_put w \<and> parser_get v = parser_get w \<and>
      buckets v = buckets w \<and> call_stack v = call_stack w"
    and set_get: "I w \<Longrightarrow> \<exists>v. engine_SetGetOffset engine g w =
        Some (0 \<le> g \<and> g < entry_count w, v) \<and> I v \<and> ring v = ring w \<and>
      entry_count v = entry_count w \<and> parser_put v = parser_put w \<and>
      parser_get v = (if 0 \<le> g \<and> g < entry_count w then g else parser_get w) \<and>
      buckets v = buckets w \<and> call_stack v = call_stack w"
    and get_get: "engine_GetGetOffset engine w = parser_get w"
    and I_buckets: "I w \<Longrightarrow> I (w\<lparr>buckets := bs\<rparr>)"
    and I_stack: "I w \<Longrightarrow> I (w\<lparr>call_stack := st\<rparr>)"
    and I_get: "I w \<Longrightarrow> I (w\<lparr>parser_get := g\<rparr>)"
    and I_region: "I w \<Longrightarrow> length bytes = length (region w r) \<Longrightarrow>
      I (w\<lparr>region := (region w)(r := bytes)\<rparr>)"
begin

definition J :: "'a common_decoder_scheme \<Rightarrow> bool" where
  "J w \<longleftrightarrow> I w \<and> decoder_ok w"

definition kept :: "'a common_decoder_scheme \<Rightarrow> 'a common_decoder_scheme \<Rightarrow> bool" where
  "kept w w' \<longleftrightarrow> J w' \<and> parser_ok w' \<and> ring w' = ring w \<and> entry_count w' = entry_count w \<and>
     parser_put w' = parser_put w"

text \<open>A handler that takes \<open>k\<close> argument entries is safe: it answers, and keeps the invariants.\<close>

definition safe :: "nat \<Rightarrow> 'a common_decoder_scheme command_handler \<Rightarrow> bool" where
  "safe k h \<longleftrightarrow> (\<forall>n cmd w. J w \<longrightarrow> parser_ok w \<longrightarrow> 0 \<le> cmd \<longrightarrow> k \<le> n \<longrightarrow>
     cmd + int n + 1 \<le> entry_count w \<longrightarrow>
     (\<exists>e w'. h (sub32 n k * 4 mod 2 ^ 32) cmd w = Some (e, w') \<and> kept w w'))"

lemma safeI:
  assumes "\<And>n cmd w a. J w \<Longrightarrow> parser_ok w \<Longrightarrow> 0 \<le> cmd \<Longrightarrow> k \<le> n \<Longrightarrow> cmd + int n + 1 \<le> entry_count w \<Longrightarrow>
    (\<And>i. i \<le> k \<Longrightarrow> arg i cmd w = Some (a i) \<and> a i < 2 ^ 32) \<Longrightarrow>
    \<exists>e w'. h (sub32 n k * 4 mod 2 ^ 32) cmd w = Some (e, w') \<and> kept w w'"
  shows "safe k h"
  unfolding safe_def
proof (intro allI impI)
  fix n cmd w
  assume a: "J w" "parser_ok w" "0 \<le> cmd" "k \<le> n" "cmd + int n + 1 \<le> entry_count w"
  have "arg i cmd w = Some (ring w ! nat (cmd + int i)) \<and> ring w ! nat (cmd + int i) < 2 ^ 32"
    if "i \<le> k" for i
  proof -
    have "cmd + int i < entry_count w" using a(4,5) that by linarith
    then have "nat (cmd + int i) < length (ring w)" using a(2,3) by (simp add: parser_ok_def nat_less_iff)
    then show ?thesis using a that by (auto simp: arg_def entry_def J_def decoder_ok_def)
  qed
  then show "\<exists>e w'. h (sub32 n k * 4 mod 2 ^ 32) cmd w = Some (e, w') \<and> kept w w'"
    by (rule assms [OF a])
qed

lemma kept_refl: "J w \<Longrightarrow> parser_ok w \<Longrightarrow> kept w w"
  by (simp add: kept_def)

lemma safe_Noop: "safe 0 HandleNoop"
  by (rule safeI) (simp add: HandleNoop_def kept_refl)

lemma safe_YieldScheduler: "safe 0 HandleYieldScheduler"
  by (rule safeI) (simp add: HandleYieldScheduler_def kept_refl)

lemma safe_SetToken: "safe 1 (HandleSetToken engine)"
proof (rule safeI)
  fix n cmd w a
  assume w: "J w" "parser_ok w" and a: "\<And>i. i \<le> 1 \<Longrightarrow> arg i cmd w = Some (a i) \<and> a i < 2 ^ 32"
  obtain v where "engine_set_token engine (to_int32 (a 1)) w = v" "I v" "ring v = ring w"
    "entry_count v = entry_count w" "parser_put v = parser_put w" "parser_get v = parser_get w"
    "buckets v = buckets w" "call_stack v = call_stack w"
    using set_token [of w] w unfolding J_def by blast
  then show "\<exists>e w'. HandleSetToken engine (sub32 n 1 * 4 mod 2 ^ 32) cmd w = Some (e, w') \<and> kept w w'"
    using w a [of 1] by (simp add: HandleSetToken_def kept_def J_def decoder_ok_def parser_ok_def)
qed

lemma SetGetOffset_kept:
  assumes "J w" "parser_ok w"
  obtains v where "engine_SetGetOffset engine g w = Some (0 \<le> g \<and> g < entry_count w, v)" "kept w v"
    "buckets v = buckets w" "call_stack v = call_stack w"
proof -
  obtain v where "engine_SetGetOffset engine g w = Some (0 \<le> g \<and> g < entry_count w, v)"
    "I v" "ring v = ring w" "entry_count v = entry_count w" "parser_put v = parser_put w"
    "parser_get v = (if 0 \<le> g \<and> g < entry_count w then g else parser_get w)"
    "buckets v = buckets w" "call_stack v = call_stack w"
    using set_get [of w g] assms unfolding J_def by blast
  then show thesis using that [of v] assms
    by (auto simp: kept_def J_def decoder_ok_def parser_ok_def)
qed

lemma kept_stack:
  "kept w v \<Longrightarrow> length st \<le> kMaxStackDepth \<Longrightarrow> kept w (v\<lparr>call_stack := st\<rparr>)"
  by (auto simp: kept_def J_def decoder_ok_def parser_ok_def I_stack)

lemma kept_bucket: "kept w v \<Longrightarrow> bucket_ok b \<Longrightarrow> kept w (set_bucket i b v)"
  by (auto simp: kept_def J_def decoder_ok_def parser_ok_def I_buckets set_bucket_def)

lemma PushAddress_kept:
  assumes "J w" "parser_ok w"
  obtains ok v where "PushAddress engine offset w = Some (ok, v)" "kept w v"
proof (cases "length (call_stack w) < kMaxStackDepth")
  case True
  obtain v where v: "engine_SetGetOffset engine (to_int32 offset) w =
      Some (0 \<le> to_int32 offset \<and> to_int32 offset < entry_count w, v)" "kept w v"
    using SetGetOffset_kept [OF assms] by metis
  have "kept w (v\<lparr>call_stack := to_uint32 (engine_GetGetOffset engine w) # call_stack w\<rparr>)" if True
    using kept_stack [OF v(2)] True by simp
  moreover have "call_stack v = call_stack w"
    using SetGetOffset_kept [OF assms, of "to_int32 offset"] v(1) by auto
  ultimately show thesis using True v that
    by (cases "0 \<le> to_int32 offset \<and> to_int32 offset < entry_count w")
      (auto simp: PushAddress_def)
next
  case False
  then show thesis using that kept_refl [OF assms] by (auto simp: PushAddress_def)
qed

lemma SetGetOffset_ex:
  "J w \<Longrightarrow> parser_ok w \<Longrightarrow> \<exists>ok v. engine_SetGetOffset engine g w = Some (ok, v) \<and> kept w v"
  by (metis SetGetOffset_kept)

lemma PushAddress_ex:
  "J w \<Longrightarrow> parser_ok w \<Longrightarrow> \<exists>ok v. PushAddress engine offset w = Some (ok, v) \<and> kept w v"
  by (metis PushAddress_kept)

lemma answer_ex:
  "\<exists>ok v. m = Some (ok, v) \<and> kept w v \<Longrightarrow>
    \<exists>e w'. Option.bind m (\<lambda>(ok, v). Some (if ok then kNoError else kInvalidArguments, v)) = Some (e, w') \<and>
      kept w w'"
  by auto

lemma safe_Jump: "safe 1 (HandleJump engine)"
proof (rule safeI)
  fix n cmd w a
  assume w: "J w" "parser_ok w" and a: "\<And>i. i \<le> 1 \<Longrightarrow> arg i cmd w = Some (a i) \<and> a i < 2 ^ 32"
  show "\<exists>e w'. HandleJump engine (sub32 n 1 * 4 mod 2 ^ 32) cmd w = Some (e, w') \<and> kept w w'"
    using a [of 1] answer_ex [OF SetGetOffset_ex [OF w]] by (simp add: HandleJump_def)
qed

lemma safe_JumpRelative: "safe 1 (HandleJumpRelative engine)"
proof (rule safeI)
  fix n cmd w a
  assume w: "J w" "parser_ok w" and a: "\<And>i. i \<le> 1 \<Longrightarrow> arg i cmd w = Some (a i) \<and> a i < 2 ^ 32"
  show "\<exists>e w'. HandleJumpRelative engine (sub32 n 1 * 4 mod 2 ^ 32) cmd w = Some (e, w') \<and> kept w w'"
    using a [of 1] answer_ex [OF SetGetOffset_ex [OF w]] by (simp add: HandleJumpRelative_def)
qed

lemma safe_Call: "safe 1 (HandleCall engine)"
proof (rule safeI)
  fix n cmd w a
  assume w: "J w" "parser_ok w" and a: "\<And>i. i \<le> 1 \<Longrightarrow> arg i cmd w = Some (a i) \<and> a i < 2 ^ 32"
  show "\<exists>e w'. HandleCall engine (sub32 n 1 * 4 mod 2 ^ 32) cmd w = Some (e, w') \<and> kept w w'"
    using a [of 1] answer_ex [OF PushAddress_ex [OF w]] by (simp add: HandleCall_def)
qed

lemma safe_CallRelative: "safe 1 (HandleCallRelative engine)"
proof (rule safeI)
  fix n cmd w a
  assume w: "J w" "parser_ok w" and a: "\<And>i. i \<le> 1 \<Longrightarrow> arg i cmd w = Some (a i) \<and> a i < 2 ^ 32"
  show "\<exists>e w'. HandleCallRelative engine (sub32 n 1 * 4 mod 2 ^ 32) cmd w = Some (e, w') \<and> kept w w'"
    using a [of 1] answer_ex [OF PushAddress_ex [OF w]] by (simp add: HandleCallRelative_def)
qed

lemma safe_Return: "safe 0 (HandleReturn engine)"
proof (rule safeI)
  fix n cmd w
  assume w: "J w" "parser_ok w"
  show "\<exists>e w'. HandleReturn engine (sub32 n 0 * 4 mod 2 ^ 32) cmd w = Some (e, w') \<and> kept w w'"
  proof (cases "call_stack w")
    case Nil
    then show ?thesis using kept_refl [OF w] by (simp add: HandleReturn_def)
  next
    case (Cons r st)
    let ?v = "w\<lparr>call_stack := st\<rparr>"
    have "kept w ?v" using kept_stack [OF kept_refl [OF w], of st] w Cons
      by (simp add: J_def decoder_ok_def)
    then have v: "J ?v" "parser_ok ?v" by (auto simp: kept_def)
    obtain u where "engine_SetGetOffset engine (to_int32 r) ?v =
        Some (0 \<le> to_int32 r \<and> to_int32 r < entry_count ?v, u)" "kept ?v u"
      using SetGetOffset_kept [OF v] by metis
    then show ?thesis using Cons by (auto simp: HandleReturn_def kept_def)
  qed
qed

lemma CreateBucket_kept:
  assumes "J w" "parser_ok w" "CreateBucket i w = (b, v)"
  shows "bucket_ok b \<and> kept w v"
  using assms kept_bucket [OF kept_refl [OF assms(1,2)] Bucket_init_ok, of i] kept_refl [OF assms(1,2)]
  by (auto simp: CreateBucket_def GetBucket_def Bucket_init_ok J_def decoder_ok_def set_bucket_def
      split: option.splits)

lemma safe_SetBucketSize: "safe 2 HandleSetBucketSize"
proof (rule safeI)
  fix n cmd w a
  assume w: "J w" "parser_ok w" and a: "\<And>i. i \<le> 2 \<Longrightarrow> arg i cmd w = Some (a i) \<and> a i < 2 ^ 32"
  obtain b v where c: "CreateBucket (a 1) w = (b, v)" by fastforce
  have "kept w (set_bucket (a 1) (Bucket_SetSize (a 2) b) v)"
    using CreateBucket_kept [OF w c] kept_bucket Bucket_SetSize_ok by blast
  then show "\<exists>e w'. HandleSetBucketSize (sub32 n 2 * 4 mod 2 ^ 32) cmd w = Some (e, w') \<and> kept w w'"
    using a [of 1] a [of 2] c by (simp add: HandleSetBucketSize_def)
qed

lemma GetBucket_ok: "J w \<Longrightarrow> GetBucket i w = Some b \<Longrightarrow> bucket_ok b"
  by (auto simp: J_def decoder_ok_def GetBucket_def)

lemma SetData_ex:
  assumes "J w" "parser_ok w" "GetBucket i w = Some b" "offset < 2 ^ 32" "sz < 2 ^ 32"
    "OffsetSizeValid offset sz b \<Longrightarrow> sz \<le> length src"
  shows "\<exists>e w'. Option.bind (Bucket_SetData src offset sz b) (\<lambda>(ok, b). Some
      (if ok then (kNoError, set_bucket i b w) else (kInvalidArguments, w))) = Some (e, w') \<and> kept w w'"
proof -
  obtain ok b' where "Bucket_SetData src offset sz b = Some (ok, b')" "bucket_ok b'"
    using Bucket_SetData_total [OF GetBucket_ok [OF assms(1,3)] assms(4-6)] by metis
  then show ?thesis using kept_bucket [OF kept_refl [OF assms(1,2)], of b' i] kept_refl [OF assms(1,2)]
    by (cases ok) auto
qed

lemma address_mapped:
  assumes "J w" "GetAddressAndCheckSize engine shm_id offset sz w = Some p" "offset < 2 ^ 32" "sz < 2 ^ 32"
  obtains r where "view w (fst p) = Some r" "snd p + sz \<le> length (region w r)"
proof -
  have "I w" using assms(1) by (simp add: J_def)
  from GetAddressAndCheckSize_mapped [OF assms(2) mapped [OF this] assms(3,4)] show thesis
    using that by blast
qed

lemma read_bytes_mapped:
  assumes "J w" "GetAddressAndCheckSize engine shm_id offset sz w = Some p" "offset < 2 ^ 32" "sz < 2 ^ 32"
  obtains bs where "read_bytes p sz w = Some bs" "length bs = sz"
proof -
  obtain r where "view w (fst p) = Some r" "snd p + sz \<le> length (region w r)"
    using address_mapped [OF assms] by blast
  then have "read_bytes p sz w = Some (take sz (drop (snd p) (region w r)))"
    "length (take sz (drop (snd p) (region w r))) = sz" by (simp_all add: read_bytes_def)
  then show thesis by (rule that)
qed

lemma write_bytes_kept:
  assumes "J w" "parser_ok w" "GetAddressAndCheckSize engine shm_id offset sz w = Some p"
    "offset < 2 ^ 32" "sz < 2 ^ 32" "length bs = sz"
  obtains v where "write_bytes p bs w = Some v" "kept w v"
proof -
  obtain r where r: "view w (fst p) = Some r" "snd p + sz \<le> length (region w r)"
    using address_mapped [OF assms(1,3-5)] by blast
  let ?bytes = "take (snd p) (region w r) @ bs @ drop (snd p + length bs) (region w r)"
  let ?v = "w\<lparr>region := (region w)(r := ?bytes)\<rparr>"
  have "length ?bytes = length (region w r)" using r assms(6) by simp
  then have "kept w ?v"
    using assms(1,2) I_region by (auto simp: kept_def J_def decoder_ok_def parser_ok_def)
  moreover have "write_bytes p bs w = Some ?v" using r assms(6) by (simp add: write_bytes_def)
  ultimately show thesis using that by blast
qed

lemma safe_SetBucketData: "safe 5 (HandleSetBucketData engine)"
proof (rule safeI)
  fix n cmd w a
  assume w: "J w" "parser_ok w" and a: "\<And>i. i \<le> 5 \<Longrightarrow> arg i cmd w = Some (a i) \<and> a i < 2 ^ 32"
  have args: "arg 1 cmd w = Some (a 1)" "arg 2 cmd w = Some (a 2)" "arg 3 cmd w = Some (a 3)"
    "arg 4 cmd w = Some (a 4)" "arg 5 cmd w = Some (a 5)" using a by simp_all
  have lt: "a 2 < 2 ^ 32" "a 3 < 2 ^ 32" "a 5 < 2 ^ 32" using a by simp_all
  show "\<exists>e w'. HandleSetBucketData engine (sub32 n 5 * 4 mod 2 ^ 32) cmd w = Some (e, w') \<and> kept w w'"
  proof (cases "GetAddressAndCheckSize engine (a 4) (a 5) (a 3) w")
    case None
    then show ?thesis using kept_refl [OF w] by (simp add: HandleSetBucketData_def args)
  next
    case (Some p)
    obtain bs where bs: "read_bytes p (a 3) w = Some bs" "length bs = a 3"
      using read_bytes_mapped [OF w(1) Some lt(3,2)] by blast
    show ?thesis
    proof (cases "GetBucket (a 1) w")
      case None
      then show ?thesis using kept_refl [OF w] Some by (simp add: HandleSetBucketData_def args)
    next
      case (Some b)
      have "\<exists>e w'. Option.bind (Bucket_SetData bs (a 2) (a 3) b) (\<lambda>(ok, b). Some
        (if ok then (kNoError, set_bucket (a 1) b w) else (kInvalidArguments, w))) = Some (e, w') \<and> kept w w'"
        by (rule SetData_ex [OF w Some lt(1,2)]) (simp add: bs)
      then show ?thesis
        using Some \<open>GetAddressAndCheckSize engine (a 4) (a 5) (a 3) w = Some p\<close> bs
        by (simp add: HandleSetBucketData_def args)
    qed
  qed
qed

lemma safe_SetBucketDataImmediate: "safe 3 HandleSetBucketDataImmediate"
proof (rule safeI)
  fix n cmd w a
  assume w: "J w" "parser_ok w" and c: "0 \<le> cmd" and n: "3 \<le> n" "cmd + int n + 1 \<le> entry_count w"
    and a: "\<And>i. i \<le> 3 \<Longrightarrow> arg i cmd w = Some (a i) \<and> a i < 2 ^ 32"
  have args: "arg 1 cmd w = Some (a 1)" "arg 2 cmd w = Some (a 2)" "arg 3 cmd w = Some (a 3)"
    using a by simp_all
  have lt: "a 2 < 2 ^ 32" "a 3 < 2 ^ 32" using a by simp_all
  let ?imm = "sub32 n 3 * 4 mod 2 ^ 32"
  have "n + 2 ^ 32 - 3 = n - 3 + 2 ^ 32" using n by simp
  then have "sub32 n 3 = (n - 3) mod 2 ^ 32" unfolding sub32_def by (simp only: mod_add_self2)
  then have "sub32 n 3 \<le> n - 3" by simp
  then have imm: "?imm \<le> 4 * (n - 3)" by (metis mod_less_eq_dividend le_trans mult.commute mult_le_mono2)
  have "int (nat cmd) = cmd" using c by simp
  then have "nat cmd + n + 1 \<le> length (ring w)" using w(2) n unfolding parser_ok_def by linarith
  then have len: "sz \<le> length (immediate_data 4 cmd w)" if "sz \<le> ?imm" for sz
    using that imm n(1) by simp
  show "\<exists>e w'. HandleSetBucketDataImmediate ?imm cmd w = Some (e, w') \<and> kept w w'"
  proof (cases "a 3 > ?imm")
    case True
    then show ?thesis using kept_refl [OF w] by (simp add: HandleSetBucketDataImmediate_def args)
  next
    case False
    show ?thesis
    proof (cases "GetBucket (a 1) w")
      case None
      then show ?thesis using kept_refl [OF w] False
        by (simp add: HandleSetBucketDataImmediate_def args)
    next
      case (Some b)
      have "\<exists>e w'. Option.bind (Bucket_SetData (immediate_data 4 cmd w) (a 2) (a 3) b) (\<lambda>(ok, b). Some
        (if ok then (kNoError, set_bucket (a 1) b w) else (kInvalidArguments, w))) = Some (e, w') \<and> kept w w'"
        by (rule SetData_ex [OF w Some lt]) (use False len in auto)
      then show ?thesis using Some False by (simp add: HandleSetBucketDataImmediate_def args)
    qed
  qed
qed

lemma safe_GetBucketSize: "safe 3 (HandleGetBucketSize engine)"
proof (rule safeI)
  fix n cmd w a
  assume w: "J w" "parser_ok w" and a: "\<And>i. i \<le> 3 \<Longrightarrow> arg i cmd w = Some (a i) \<and> a i < 2 ^ 32"
  have args: "arg 1 cmd w = Some (a 1)" "arg 2 cmd w = Some (a 2)" "arg 3 cmd w = Some (a 3)"
    and lt: "a 3 < 2 ^ 32" "(4 :: nat) < 2 ^ 32" using a by simp_all
  note eqs = HandleGetBucketSize_def args
  show "\<exists>e w'. HandleGetBucketSize engine (sub32 n 3 * 4 mod 2 ^ 32) cmd w = Some (e, w') \<and> kept w w'"
  proof (cases "GetAddressAndCheckSize engine (a 2) (a 3) 4 w")
    case None
    then show ?thesis using kept_refl [OF w] by (simp add: eqs)
  next
    case p: (Some p)
    obtain bs where bs: "read_bytes p 4 w = Some bs" using read_bytes_mapped [OF w(1) p lt] by blast
    show ?thesis
    proof (cases "bytes_entry bs \<noteq> 0 \<or> GetBucket (a 1) w = None")
      case True
      then show ?thesis using kept_refl [OF w] p bs by (auto simp: eqs)
    next
      case False
      then obtain b where b: "bytes_entry bs = 0" "GetBucket (a 1) w = Some b" by blast
      obtain v where "write_bytes p (entry_bytes (size_of b)) w = Some v" "kept w v"
        using write_bytes_kept [OF w p lt, of "entry_bytes (size_of b)"] by auto
      then show ?thesis using p bs b by (simp add: eqs)
    qed
  qed
qed

lemma safe_GetBucketData: "safe 5 (HandleGetBucketData engine)"
proof (rule safeI)
  fix n cmd w a
  assume w: "J w" "parser_ok w" and a: "\<And>i. i \<le> 5 \<Longrightarrow> arg i cmd w = Some (a i) \<and> a i < 2 ^ 32"
  have args: "arg 1 cmd w = Some (a 1)" "arg 2 cmd w = Some (a 2)" "arg 3 cmd w = Some (a 3)"
    "arg 4 cmd w = Some (a 4)" "arg 5 cmd w = Some (a 5)"
    and lt: "a 2 < 2 ^ 32" "a 3 < 2 ^ 32" "a 5 < 2 ^ 32" using a by simp_all
  note eqs = HandleGetBucketData_def args
  show "\<exists>e w'. HandleGetBucketData engine (sub32 n 5 * 4 mod 2 ^ 32) cmd w = Some (e, w') \<and> kept w w'"
  proof (cases "GetAddressAndCheckSize engine (a 4) (a 5) (a 3) w")
    case None
    then show ?thesis using kept_refl [OF w] by (simp add: eqs)
  next
    case p: (Some p)
    show ?thesis
    proof (cases "GetBucket (a 1) w")
      case None
      then show ?thesis using kept_refl [OF w] p by (simp add: eqs)
    next
      case b: (Some b)
      show ?thesis
      proof (cases "Bucket_GetData (a 2) (a 3) b")
        case None
        then show ?thesis using kept_refl [OF w] p b by (simp add: eqs)
      next
        case src: (Some src)
        then have v: "OffsetSizeValid (a 2) (a 3) b" and s: "src = a 2"
          by (auto simp: Bucket_GetData_def split: if_splits)
        have len: "src + a 3 \<le> length (bucket_data b)"
          using OffsetSizeValid_range [OF v lt(1,2)] GetBucket_ok [OF w(1) b] s
          by (simp add: bucket_ok_def)
        then have "length (take (a 3) (drop src (bucket_data b))) = a 3" by simp
        then obtain u where "write_bytes p (take (a 3) (drop src (bucket_data b))) w = Some u" "kept w u"
          using write_bytes_kept [OF w p lt(3,2)] by blast
        then show ?thesis using p b src len by (simp add: eqs)
      qed
    qed
  qed
qed

end

lemma less_numeral_nat_cases:
  "(c :: nat) < 13 \<Longrightarrow> c = 0 \<or> c = 1 \<or> c = 2 \<or> c = 3 \<or> c = 4 \<or> c = 5 \<or> c = 6 \<or> c = 7 \<or> c = 8 \<or>
     c = 9 \<or> c = 10 \<or> c = 11 \<or> c = 12"
  by presburger

lemma length_g_command_info [simp]: "length g_command_info = 13"
  by (simp add: g_command_info_def)

context command_buffer_engine
begin

lemma common_handler_safe:
  assumes "c < 13"
  obtains h where "common_handler engine c = Some h" "safe (snd (g_command_info ! c)) h"
proof -
  have "\<exists>h. common_handler engine c = Some h \<and> safe (snd (g_command_info ! c)) h"
    using less_numeral_nat_cases [OF assms]
    by (elim disjE)
      (simp_all add: common_handler_def g_command_info_def safe_Noop safe_SetToken safe_Jump
        safe_JumpRelative safe_Call safe_CallRelative safe_Return safe_SetBucketSize
        safe_SetBucketData safe_SetBucketDataImmediate safe_GetBucketSize safe_GetBucketData
        safe_YieldScheduler One_nat_def [symmetric])
  then show thesis using that by blast
qed

lemma DoCommonCommand_total:
  assumes w: "J w" "parser_ok w" and c: "c < 13" and cmd: "0 \<le> cmd" "cmd + int n + 1 \<le> entry_count w"
  shows "\<exists>e w'. DoCommonCommand engine c n cmd w = Some (e, w') \<and> kept w w'"
proof (cases "args_match (g_command_info ! c) n")
  case True
  then have k: "snd (g_command_info ! c) \<le> n" by (auto simp: args_match_def)
  obtain h where h: "common_handler engine c = Some h" "safe (snd (g_command_info ! c)) h"
    using common_handler_safe [OF c] by blast
  have "\<exists>e w'. h (sub32 n (snd (g_command_info ! c)) * 4 mod 2 ^ 32) cmd w = Some (e, w') \<and> kept w w'"
    using h(2) w cmd k unfolding safe_def by blast
  then show ?thesis using True c h(1) by (subst DoCommonCommand.simps) simp
next
  case False
  then show ?thesis using c kept_refl [OF w] by (subst DoCommonCommand.simps) simp
qed

end

text \<open>A command number past the last common command has no answer.\<close>

lemma DoCommonCommand_known:
  "DoCommonCommand engine c n cmd w = Some y \<Longrightarrow> c < 13"
  by (induction rule: DoCommonCommand.raw_induct [rotated, consumes 1]) (auto split: if_splits)

lemma DoCommonCommand_unknown: "13 \<le> c \<Longrightarrow> DoCommonCommand engine c n cmd w = None"
  using DoCommonCommand_known [of engine c n cmd w] by (cases "DoCommonCommand engine c n cmd w") auto

text \<open>What the handlers of the common commands answer.\<close>

lemma common_handler_answers:
  assumes "common_handler engine c = Some h" "h imm cmd w = Some (e, w')"
  shows "e \<in> {kNoError, kInvalidArguments, kYield}"
proof -
  have conv: "Option.bind m f = Some y \<Longrightarrow> (\<And>x. f x = Some y \<Longrightarrow> P) \<Longrightarrow> P" for m f y P
    by (cases m) auto
  have "h \<in> {HandleNoop, HandleSetToken engine, HandleJump engine, HandleJumpRelative engine,
      HandleCall engine, HandleCallRelative engine, HandleReturn engine, HandleSetBucketSize,
      HandleSetBucketData engine, HandleSetBucketDataImmediate, HandleGetBucketSize engine,
      HandleGetBucketData engine, HandleYieldScheduler}"
    using assms(1) by (auto simp: common_handler_def split: if_splits)
  then show ?thesis using assms(2)
    by (elim insertE emptyE)
      (auto simp: HandleNoop_def HandleSetToken_def HandleJump_def HandleJumpRelative_def
        HandleCall_def HandleCallRelative_def HandleReturn_def HandleSetBucketSize_def
        HandleSetBucketData_def HandleSetBucketDataImmediate_def HandleGetBucketSize_def
        HandleGetBucketData_def HandleYieldScheduler_def Let_def
        elim!: conv split: if_splits option.splits list.splits prod.splits)
qed

lemma DoCommonCommand_answers:
  "DoCommonCommand engine c n cmd w = Some y \<Longrightarrow> fst y \<in> {kNoError, kInvalidArguments, kYield}"
proof (induction rule: DoCommonCommand.raw_induct [rotated, consumes 1])
  case (1 f engine c n cmd w y)
  show ?case
  proof (cases "common_handler engine c")
    case None
    then show ?thesis using 1 by (auto split: if_splits)
  next
    case (Some h)
    then show ?thesis using 1 common_handler_answers [OF Some, of _ cmd w "fst y" "snd y"]
      by (auto split: if_splits)
  qed
qed

text \<open>
  The commands that only compute: they leave the offsets, the bounds, the ring and the call stack
  alone. \<open>with_data w v\<close>: \<open>v\<close> is \<open>w\<close> up to the contents of memory and buckets.
\<close>

definition with_data :: "'a common_decoder_scheme \<Rightarrow> 'a common_decoder_scheme \<Rightarrow> bool" where
  "with_data w v \<longleftrightarrow> v = w\<lparr>region := region v, buckets := buckets v\<rparr>"

lemma with_data_refl [simp]: "with_data w w"
  by (simp add: with_data_def)

lemma with_data_bucket [simp]: "with_data w (set_bucket i b w)"
  by (simp add: with_data_def set_bucket_def)

lemma with_data_write: "write_bytes p bs w = Some v \<Longrightarrow> with_data w v"
  by (auto simp: with_data_def write_bytes_def bind_eq_Some_conv split: if_splits)

lemma with_data_create:
  "CreateBucket i w = (b, v) \<Longrightarrow> with_data w (set_bucket j b' v)"
  by (auto simp: with_data_def CreateBucket_def set_bucket_def split: option.splits)

lemma bind_SomeE: "Option.bind m f = Some y \<Longrightarrow> (\<And>x. m = Some x \<Longrightarrow> f x = Some y \<Longrightarrow> P) \<Longrightarrow> P"
  by (cases m) auto

lemma HandleSetBucketSize_data: "HandleSetBucketSize imm cmd w = Some (e, v) \<Longrightarrow> with_data w v"
  by (auto simp: HandleSetBucketSize_def with_data_create elim!: bind_SomeE split: prod.splits)

lemma HandleSetBucketData_data: "HandleSetBucketData engine imm cmd w = Some (e, v) \<Longrightarrow> with_data w v"
  by (auto simp: HandleSetBucketData_def Let_def elim!: bind_SomeE split: option.splits if_splits)

lemma HandleSetBucketDataImmediate_data:
  "HandleSetBucketDataImmediate imm cmd w = Some (e, v) \<Longrightarrow> with_data w v"
  by (auto simp: HandleSetBucketDataImmediate_def elim!: bind_SomeE split: option.splits if_splits)

lemma HandleGetBucketSize_data: "HandleGetBucketSize engine imm cmd w = Some (e, v) \<Longrightarrow> with_data w v"
  by (auto simp: HandleGetBucketSize_def elim!: bind_SomeE split: option.splits if_splits)
    (erule with_data_write)

lemma HandleGetBucketData_data: "HandleGetBucketData engine imm cmd w = Some (e, v) \<Longrightarrow> with_data w v"
  by (auto simp: HandleGetBucketData_def elim!: bind_SomeE intro: with_data_write
      split: option.splits if_splits)

lemmas handler_data = HandleSetBucketSize_data HandleSetBucketData_data
  HandleSetBucketDataImmediate_data HandleGetBucketSize_data HandleGetBucketData_data

lemma data_command:
  assumes "DoCommonCommand engine c n cmd w = Some (e, v)" "c \<in> {0, 7, 8, 9, 10, 11, 12}"
  shows "with_data w v"
proof -
  obtain h where h: "common_handler engine c = Some h"
    "h \<in> {HandleNoop, HandleSetBucketSize, HandleSetBucketData engine, HandleSetBucketDataImmediate,
      HandleGetBucketSize engine, HandleGetBucketData engine, HandleYieldScheduler}"
    using assms(2) by (auto simp: common_handler_def)
  have "with_data w v" if "h imm cmd w = Some (e, v)" for imm
    using h(2) that
    by (elim insertE emptyE) (auto simp: HandleNoop_def HandleYieldScheduler_def dest: handler_data)
  then show ?thesis using assms h(1) by (subst (asm) DoCommonCommand.simps) (auto split: if_splits)
qed

lemma token_command:
  assumes "entry (cmd + 1) w = Some t"
  shows "DoCommonCommand engine 1 1 cmd w = Some (kNoError, engine_set_token engine (to_int32 t) w)"
  using assms by (subst DoCommonCommand.simps)
    (simp add: g_command_info_def args_match_def common_handler_def HandleSetToken_def arg_def)

end
