(* ===== verification/GpuScheduler.thy ===== *)
theory GpuScheduler
  imports CommonDecoder
begin

text \<open>
  The scheduler of a command buffer (\<open>src/gpu/command_buffer/service/gpu_scheduler.cc\<close>), the engine
  it is for its decoder, and the dispatch of the decoder it owns
  (\<open>GLES2DecoderImpl::DoCommand\<close>, \<open>gles2_cmd_decoder.cc\<close>). The GL context and the handlers of the
  GL commands are arguments; the build is one that is not for Mac OS X.
\<close>

section \<open>State\<close>

record gpu_scheduler = common_decoder +
  has_parser :: bool
  has_decoder :: bool
  decoder_error :: error
  commands_per_update :: int32
  unscheduled_count :: int32
  posted_tasks :: nat
  command_processed_callback :: bool
  callback_runs :: nat

text \<open>The engine that a scheduler is.\<close>

definition scheduler_SetGetOffset ::
  "int32 \<Rightarrow> 'a command_parser_scheme \<Rightarrow> (bool \<times> 'a command_parser_scheme) option" where
  "scheduler_SetGetOffset offset w =
     (let (ok, v) = set_get offset w in
      if ok then do { u \<leftarrow> SetGetOffset (parser_get v) v; Some (True, u) } else Some (False, v))"

definition scheduler_engine :: "'a common_decoder_scheme engine" where
  "scheduler_engine =
     \<lparr>engine_GetSharedMemoryBuffer = GetTransferBuffer, engine_set_token = SetToken,
      engine_SetGetOffset = scheduler_SetGetOffset, engine_GetGetOffset = parser_get\<rparr>"

section \<open>Dispatch of the decoder\<close>

text \<open>
  \<open>info\<close> is \<open>g_command_info\<close> of the GL commands, whose numbers start after \<open>kLastCommonId\<close>, and
  \<open>handle\<close> their handlers.
\<close>

definition GLES2_DoCommand ::
  "(ArgFlags \<times> nat) list \<Rightarrow> (uint32 \<Rightarrow> 'a gpu_scheduler_scheme command_handler) \<Rightarrow>
     'a gpu_scheduler_scheme handler" where
  "GLES2_DoCommand info handle command arg_count cmd w = do {
     let command_index = sub32 (sub32 command kLastCommonId) 1;
     (result, w) \<leftarrow>
       (if command_index < length info then
          (if args_match (info ! command_index) arg_count
           then handle command (sub32 arg_count (snd (info ! command_index)) * 4 mod 2 ^ 32) cmd w
           else Some (kInvalidArguments, w))
        else DoCommonCommand scheduler_engine command arg_count cmd w);
     Some (if result = kNoError \<and> decoder_error w \<noteq> kNoError
           then (decoder_error w, w\<lparr>decoder_error := kNoError\<rparr>) else (result, w))
   }"

section \<open>The scheduler\<close>

definition INT_MAX :: int32 where
  "INT_MAX = 2 ^ 31 - 1"

definition ScheduleProcessCommands :: "'a gpu_scheduler_scheme \<Rightarrow> 'a gpu_scheduler_scheme" where
  "ScheduleProcessCommands w = w\<lparr>posted_tasks := posted_tasks w + 1\<rparr>"

definition DestroyCommon :: "'a gpu_scheduler_scheme \<Rightarrow> 'a gpu_scheduler_scheme" where
  "DestroyCommon w = w\<lparr>has_decoder := False, has_parser := False\<rparr>"

text \<open>The outcomes of \<open>MakeCurrent\<close>, \<open>IsOffscreen\<close> and the decoder's \<open>Initialize\<close> are arguments.\<close>

definition InitializeCommon ::
  "bool \<Rightarrow> bool \<Rightarrow> bool \<Rightarrow> 'a gpu_scheduler_scheme \<Rightarrow> (bool \<times> 'a gpu_scheduler_scheme) option" where
  "InitializeCommon make_current offscreen decoder_init w =
     (if \<not> make_current then Some (False, w)
      else do {
        let w = (if \<not> offscreen then w\<lparr>commands_per_update := INT_MAX\<rparr> else w);
        let rb = GetRingBuffer w;
        w \<leftarrow> (if ptr rb \<noteq> 0
             then CommandParser_init (ptr rb) (buffer_size rb) 0 (buffer_size rb) 0 w
             else CommandParser_init 0 0 0 0 0 w);
        let w = w\<lparr>has_parser := True\<rparr>;
        Some (if \<not> decoder_init then (False, DestroyCommon w) else (True, w))
      })"

definition command_processed :: "'a gpu_scheduler_scheme \<Rightarrow> 'a gpu_scheduler_scheme" where
  "command_processed w =
     (if command_processed_callback w then w\<lparr>callback_runs := callback_runs w + 1\<rparr> else w)"

text \<open>
  The loop of \<open>ProcessCommands\<close>. The first argument counts the commands that may still be processed,
  \<open>commands_per_update - commands_processed\<close>; the first component of the result tells whether the
  loop returned from \<open>ProcessCommands\<close>.
\<close>

fun process_loop ::
  "nat \<Rightarrow> 'a gpu_scheduler_scheme handler \<Rightarrow> error \<Rightarrow> 'a gpu_scheduler_scheme \<Rightarrow>
     (bool \<times> error \<times> 'a gpu_scheduler_scheme) option" where
  "process_loop 0 D e w = Some (False, e, w)"
| "process_loop (Suc n) D e w =
     (if IsEmpty w then Some (False, e, w)
      else do {
        (e, w) \<leftarrow> ProcessCommand D w;
        w \<leftarrow> SetGetOffset (parser_get w) w;
        if e = kWaiting \<or> e = kYield then Some (False, e, w)
        else if IsError e then Some (True, e, SetParseError e w)
        else if unscheduled_count w > 0 then Some (False, e, w)
        else process_loop n D e (command_processed w)
      })"

definition ProcessCommands ::
  "('a gpu_scheduler_scheme \<Rightarrow> bool) \<Rightarrow> 'a gpu_scheduler_scheme handler \<Rightarrow>
     'a gpu_scheduler_scheme \<Rightarrow> 'a gpu_scheduler_scheme option" where
  "ProcessCommands MakeCurrent D w =
     (let (state, w) = GetState w in
      if st_error state \<noteq> kNoError then Some w
      else if unscheduled_count w > 0 then Some w
      else if has_decoder w \<and> \<not> MakeCurrent w then Some (SetParseError kLostContext w)
      else do {
        guard (has_parser w);
        (returned, e, w) \<leftarrow> process_loop (nat (commands_per_update w)) D kNoError w;
        Some (if \<not> returned \<and> unscheduled_count w = 0 \<and> e \<noteq> kWaiting \<and> \<not> IsEmpty w
              then ScheduleProcessCommands w else w)
      })"

definition PutChanged ::
  "('a gpu_scheduler_scheme \<Rightarrow> bool) \<Rightarrow> 'a gpu_scheduler_scheme handler \<Rightarrow> bool \<Rightarrow>
     'a gpu_scheduler_scheme \<Rightarrow> 'a gpu_scheduler_scheme option" where
  "PutChanged MakeCurrent D sync w = do {
     let (state, w) = GetState w;
     guard (has_parser w);
     let w = set_put (st_put_offset state) w;
     if sync then ProcessCommands MakeCurrent D w else Some (ScheduleProcessCommands w)
   }"

definition SetScheduled :: "bool \<Rightarrow> 'a gpu_scheduler_scheme \<Rightarrow> 'a gpu_scheduler_scheme option" where
  "SetScheduled scheduled w =
     (if scheduled then do {
        let w = w\<lparr>unscheduled_count := unscheduled_count w - 1\<rparr>;
        guard (0 \<le> unscheduled_count w);
        Some (if unscheduled_count w = 0 then ScheduleProcessCommands w else w)
      }
      else Some (w\<lparr>unscheduled_count := unscheduled_count w + 1\<rparr>))"

definition SetCommandProcessedCallback :: "bool \<Rightarrow> 'a gpu_scheduler_scheme \<Rightarrow> 'a gpu_scheduler_scheme" where
  "SetCommandProcessedCallback on w = w\<lparr>command_processed_callback := on\<rparr>"

text \<open>The message loop runs one of the posted tasks.\<close>

definition run_task ::
  "('a gpu_scheduler_scheme \<Rightarrow> bool) \<Rightarrow> 'a gpu_scheduler_scheme handler \<Rightarrow>
     'a gpu_scheduler_scheme \<Rightarrow> 'a gpu_scheduler_scheme option" where
  "run_task MakeCurrent D w =
     (if posted_tasks w = 0 then Some w
      else ProcessCommands MakeCurrent D (w\<lparr>posted_tasks := posted_tasks w - 1\<rparr>))"

section \<open>The scheduler is an engine\<close>

definition gpu_inv :: "'a gpu_scheduler_scheme \<Rightarrow> bool" where
  "gpu_inv w \<longleftrightarrow> table_inv w \<and> mem_ok w \<and> entry_count w \<le> num_entries w \<and>
     0 \<le> unscheduled_count w"

lemma table_inv_cong:
  "registered_objects v = registered_objects w \<Longrightarrow>
     unused_registered_object_elements v = unused_registered_object_elements w \<Longrightarrow>
     table_inv v = table_inv w"
  by (simp add: table_inv_def)

lemma mem_ok_cong:
  "registered_objects v = registered_objects w \<Longrightarrow> view v = view w \<Longrightarrow>
     (\<And>r. length (region v r) = length (region w r)) \<Longrightarrow> mem_ok v = mem_ok w"
  by (simp add: mem_ok_def transfer_buffers_def)

lemma gpu_inv_cong:
  assumes "registered_objects v = registered_objects w"
    "unused_registered_object_elements v = unused_registered_object_elements w"
    "view v = view w" "\<And>r. length (region v r) = length (region w r)"
    "entry_count v = entry_count w" "num_entries v = num_entries w"
    "unscheduled_count v = unscheduled_count w"
  shows "gpu_inv v = gpu_inv w"
  unfolding gpu_inv_def table_inv_cong [OF assms(1,2)] mem_ok_cong [OF assms(1,3,4)] assms(5,6,7) ..

lemma GetTransferBuffer_mapped:
  assumes "gpu_inv w"
  shows "buffer_mapped (GetTransferBuffer i w) w"
  using assms mem_ok_mapped [of w i]
  by (auto simp: gpu_inv_def GetTransferBuffer_map buffer_mapped_def null_buffer_def split: option.splits)

lemma scheduler_SetGetOffset_spec:
  assumes "gpu_inv w"
  shows "scheduler_SetGetOffset g w = Some (0 \<le> g \<and> g < entry_count w,
    if 0 \<le> g \<and> g < entry_count w then w\<lparr>parser_get := g, get_offset := g\<rparr> else w)"
  using assms by (simp add: scheduler_SetGetOffset_def set_get_def SetGetOffset_def gpu_inv_def)

interpretation gpu_engine: command_buffer_engine
  "scheduler_engine :: 'a gpu_scheduler_scheme engine" gpu_inv
proof
  fix w :: "'a gpu_scheduler_scheme" and i t g :: int and bs :: "uint32 \<Rightarrow> bucket option"
    and st :: "uint32 list" and bytes :: "byte list" and r :: nat
  show "gpu_inv w \<Longrightarrow> buffer_mapped (engine_GetSharedMemoryBuffer scheduler_engine i w) w"
    by (simp add: scheduler_engine_def GetTransferBuffer_mapped)
  show "gpu_inv w \<Longrightarrow> \<exists>v. engine_set_token scheduler_engine t w = v \<and> gpu_inv v \<and> ring v = ring w \<and>
      entry_count v = entry_count w \<and> parser_put v = parser_put w \<and> parser_get v = parser_get w \<and>
      buckets v = buckets w \<and> call_stack v = call_stack w"
    using gpu_inv_cong [of "w\<lparr>token := t\<rparr>" w] by (simp add: scheduler_engine_def SetToken_def)
  show "gpu_inv w \<Longrightarrow> \<exists>v. engine_SetGetOffset scheduler_engine g w =
        Some (0 \<le> g \<and> g < entry_count w, v) \<and> gpu_inv v \<and> ring v = ring w \<and>
      entry_count v = entry_count w \<and> parser_put v = parser_put w \<and>
      parser_get v = (if 0 \<le> g \<and> g < entry_count w then g else parser_get w) \<and>
      buckets v = buckets w \<and> call_stack v = call_stack w"
    using gpu_inv_cong [of "w\<lparr>parser_get := g, get_offset := g\<rparr>" w]
    by (simp add: scheduler_engine_def scheduler_SetGetOffset_spec)
  show "engine_GetGetOffset scheduler_engine w = parser_get w"
    by (simp add: scheduler_engine_def)
  show "gpu_inv w \<Longrightarrow> gpu_inv (w\<lparr>buckets := bs\<rparr>)"
    using gpu_inv_cong [of "w\<lparr>buckets := bs\<rparr>" w] by simp
  show "gpu_inv w \<Longrightarrow> gpu_inv (w\<lparr>call_stack := st\<rparr>)"
    using gpu_inv_cong [of "w\<lparr>call_stack := st\<rparr>" w] by simp
  show "gpu_inv w \<Longrightarrow> gpu_inv (w\<lparr>parser_get := g\<rparr>)"
    using gpu_inv_cong [of "w\<lparr>parser_get := g\<rparr>" w] by simp
  show "gpu_inv w \<Longrightarrow> length bytes = length (region w r) \<Longrightarrow>
      gpu_inv (w\<lparr>region := (region w)(r := bytes)\<rparr>)"
    using gpu_inv_cong [of "w\<lparr>region := (region w)(r := bytes)\<rparr>" w] by simp
qed


section \<open>Handlers a scheduler can run\<close>

text \<open>
  What the scheduler relies on: its handler is an \<open>AsyncAPIInterface\<close> whose invariant implies that
  every get offset of the parser is one of the service, and does not depend on what the scheduler
  itself writes.
\<close>

locale scheduled_api = async_api DoCommand I known
  for DoCommand :: "'a gpu_scheduler_scheme handler"
    and I :: "'a gpu_scheduler_scheme \<Rightarrow> bool" and known :: "uint32 \<Rightarrow> bool" +
  assumes room: "I w \<Longrightarrow> entry_count w \<le> num_entries w \<and> 0 \<le> unscheduled_count w"
    and I_get_offset: "I w \<Longrightarrow> I (w\<lparr>get_offset := g\<rparr>)"
    and I_error: "I w \<Longrightarrow> I (w\<lparr>svc_error := e\<rparr>)"
    and I_generation: "I w \<Longrightarrow> I (w\<lparr>generation := n\<rparr>)"
    and I_posted: "I w \<Longrightarrow> I (w\<lparr>posted_tasks := k\<rparr>)"
    and I_runs: "I w \<Longrightarrow> I (w\<lparr>callback_runs := k\<rparr>)"
begin

definition ready :: "'a gpu_scheduler_scheme \<Rightarrow> bool" where
  "ready w \<longleftrightarrow> I w \<and> parser_ok w \<and> readable w"

definition same_buffer :: "'a gpu_scheduler_scheme \<Rightarrow> 'a gpu_scheduler_scheme \<Rightarrow> bool" where
  "same_buffer w v \<longleftrightarrow> ring v = ring w \<and> entry_count v = entry_count w \<and> parser_put v = parser_put w"

lemma step_total:
  assumes "ready w"
  obtains e v where "ProcessCommand DoCommand w = Some (e, v)"
    "SetGetOffset (parser_get v) v = Some (v\<lparr>get_offset := parser_get v\<rparr>)"
    "ready (v\<lparr>get_offset := parser_get v\<rparr>)" "same_buffer w v"
proof -
  obtain e v where s: "ProcessCommand DoCommand w = Some (e, v)"
    using ProcessCommand_total assms unfolding ready_def by blast
  have k: "I v" "parser_ok v" "ring v = ring w" "entry_count v = entry_count w"
    "parser_put v = parser_put w"
    using ProcessCommand_keeps [OF _ _ _ s] assms unfolding ready_def by blast+
  have "SetGetOffset (parser_get v) v = Some (v\<lparr>get_offset := parser_get v\<rparr>)"
    using k(2) room [OF k(1)] by (simp add: SetGetOffset_def parser_ok_def)
  moreover have "ready (v\<lparr>get_offset := parser_get v\<rparr>)"
    using assms k I_get_offset by (simp add: ready_def parser_ok_def readable_def)
  ultimately show thesis using that [OF s] k by (simp add: same_buffer_def)
qed

lemma ready_error: "ready w \<Longrightarrow> ready (SetParseError e w)"
  by (simp add: ready_def SetParseError_def parser_ok_def readable_def I_error)

lemma ready_processed: "ready w \<Longrightarrow> ready (command_processed w)"
  by (simp add: ready_def command_processed_def parser_ok_def readable_def I_runs)

lemma ready_schedule: "ready w \<Longrightarrow> ready (ScheduleProcessCommands w)"
  by (simp add: ready_def ScheduleProcessCommands_def parser_ok_def readable_def I_posted)

lemma ready_GetState: "ready w \<Longrightarrow> ready (snd (GetState w))"
  by (simp add: ready_def GetState_def Let_def parser_ok_def readable_def I_generation)

lemma process_loop_total:
  "ready w \<Longrightarrow> get_offset w = parser_get w \<Longrightarrow>
     \<exists>r e' w'. process_loop n DoCommand e w = Some (r, e', w') \<and> ready w' \<and> same_buffer w w' \<and>
       get_offset w' = parser_get w' \<and> (r \<longrightarrow> svc_error w' \<noteq> kNoError)"
proof (induction n arbitrary: e w)
  case 0
  then show ?case by (auto simp: same_buffer_def)
next
  case (Suc n)
  show ?case
  proof (cases "IsEmpty w")
    case True
    then show ?thesis using Suc.prems by (auto simp: same_buffer_def)
  next
    case False
    obtain e1 v where s: "ProcessCommand DoCommand w = Some (e1, v)"
      "SetGetOffset (parser_get v) v = Some (v\<lparr>get_offset := parser_get v\<rparr>)"
      "ready (v\<lparr>get_offset := parser_get v\<rparr>)" "same_buffer w v"
      using step_total [OF Suc.prems(1)] by blast
    let ?v = "v\<lparr>get_offset := parser_get v\<rparr>"
    have more: "\<exists>r e' w'. process_loop n DoCommand e1 (command_processed ?v) = Some (r, e', w') \<and>
        ready w' \<and> same_buffer (command_processed ?v) w' \<and> get_offset w' = parser_get w' \<and>
        (r \<longrightarrow> svc_error w' \<noteq> kNoError)"
      by (rule Suc.IH) (simp_all add: ready_processed [OF s(3)], simp add: command_processed_def)
    consider "e1 = kWaiting \<or> e1 = kYield" | "IsError e1" "e1 \<noteq> kWaiting" "e1 \<noteq> kYield"
      | "\<not> IsError e1" "e1 \<noteq> kWaiting" "e1 \<noteq> kYield" "unscheduled_count v > 0"
      | "\<not> IsError e1" "e1 \<noteq> kWaiting" "e1 \<noteq> kYield" "\<not> unscheduled_count v > 0" by blast
    then show ?thesis
    proof cases
      case 1
      then show ?thesis using False s by (auto simp: same_buffer_def)
    next
      case 2
      then have "svc_error (SetParseError e1 ?v) \<noteq> kNoError" by (auto simp: SetParseError_def)
      moreover have "same_buffer w (SetParseError e1 ?v)" "get_offset (SetParseError e1 ?v) =
          parser_get (SetParseError e1 ?v)" using s(4) by (auto simp: same_buffer_def SetParseError_def)
      ultimately show ?thesis using False s(1,2) 2 ready_error [OF s(3), of e1] by auto
    next
      case 3
      then show ?thesis using False s by (auto simp: same_buffer_def)
    next
      case 4
      have "same_buffer w u" if "same_buffer (command_processed ?v) u" for u
        using that s(4) by (auto simp: same_buffer_def command_processed_def)
      then show ?thesis using False s(1,2) 4 more by auto
    qed
  qed
qed

text \<open>A handler that never answers \<open>kWaiting\<close>.\<close>

definition never_waits :: bool where
  "never_waits \<longleftrightarrow> (\<forall>c n cmd w e w'. DoCommand c n cmd w = Some (e, w') \<longrightarrow> e \<noteq> kWaiting)"

lemma never_waitsD: "never_waits \<Longrightarrow> DoCommand c n cmd w = Some (e, w') \<Longrightarrow> e \<noteq> kWaiting"
  unfolding never_waits_def by blast

lemma process_loop_not_waiting:
  "never_waits \<Longrightarrow> ready w \<Longrightarrow> e \<noteq> kWaiting \<Longrightarrow> process_loop n DoCommand e w = Some (r, e', w') \<Longrightarrow>
     e' \<noteq> kWaiting"
proof (induction n arbitrary: e w)
  case (Suc n)
  show ?case
  proof (cases "IsEmpty w")
    case False
    obtain e1 v where s: "ProcessCommand DoCommand w = Some (e1, v)"
      "SetGetOffset (parser_get v) v = Some (v\<lparr>get_offset := parser_get v\<rparr>)"
      "ready (v\<lparr>get_offset := parser_get v\<rparr>)"
      using step_total [OF Suc.prems(2)] by blast
    have ok: "parser_ok w" using Suc.prems(2) by (simp add: ready_def)
    have e1: "e1 \<noteq> kWaiting"
      using s(1) ok
    proof (cases rule: ProcessCommand_elim)
      case (Run k u)
      show ?thesis by (rule never_waitsD [OF Suc.prems(1) Run(4)])
    qed simp_all
    show ?thesis
      using Suc.prems(4) False s(1,2) e1 Suc.IH [OF Suc.prems(1) ready_processed [OF s(3)] e1]
      by (auto split: if_splits)
  qed (use Suc in simp)
qed simp

lemma ProcessCommands_total:
  assumes "ready w" "get_offset w = parser_get w" "has_parser w"
  shows "\<exists>w'. ProcessCommands MakeCurrent DoCommand w = Some w' \<and> ready w' \<and> same_buffer w w' \<and>
    get_offset w' = parser_get w' \<and>
    (never_waits \<longrightarrow> svc_error w' \<noteq> kNoError \<or> 0 < unscheduled_count w' \<or> IsEmpty w' \<or> 0 < posted_tasks w')"
proof -
  define v where "v = snd (GetState w)"
  have gs: "GetState w = (fst (GetState w), v)" "st_error (fst (GetState w)) = svc_error v"
    by (simp_all add: v_def GetState_def Let_def)
  have v: "ready v" "get_offset v = parser_get v" "has_parser v" "same_buffer w v"
    using assms ready_GetState by (simp_all add: v_def GetState_def Let_def same_buffer_def)
  note eqs = ProcessCommands_def gs
  consider (idle) "svc_error v \<noteq> kNoError \<or> unscheduled_count v > 0"
    | (lost) "svc_error v = kNoError" "\<not> unscheduled_count v > 0" "has_decoder v \<and> \<not> MakeCurrent v"
    | (run) "svc_error v = kNoError" "\<not> unscheduled_count v > 0" "\<not> (has_decoder v \<and> \<not> MakeCurrent v)"
    by blast
  then show ?thesis
  proof cases
    case idle
    then show ?thesis using v by (subst ProcessCommands_def, subst gs) (auto simp: gs(2))
  next
    case lost
    have "svc_error (SetParseError kLostContext v) \<noteq> kNoError" by (auto simp: SetParseError_def)
    moreover have "same_buffer w (SetParseError kLostContext v)"
      "get_offset (SetParseError kLostContext v) = parser_get (SetParseError kLostContext v)"
      using v by (auto simp: SetParseError_def same_buffer_def)
    ultimately show ?thesis using v(1) lost ready_error [OF v(1), of kLostContext]
      by (subst ProcessCommands_def, subst gs) (simp add: gs(2))
  next
    case run
    obtain r e u where l: "process_loop (nat (commands_per_update v)) DoCommand kNoError v = Some (r, e, u)"
      "ready u" "same_buffer v u" "get_offset u = parser_get u" "r \<longrightarrow> svc_error u \<noteq> kNoError"
      using process_loop_total [OF v(1,2), of _ kNoError] by metis
    have nw: "never_waits \<longrightarrow> e \<noteq> kWaiting"
      using process_loop_not_waiting [OF _ v(1) _ l(1)] by blast
    let ?w' = "if \<not> r \<and> unscheduled_count u = 0 \<and> e \<noteq> kWaiting \<and> \<not> IsEmpty u
        then ScheduleProcessCommands u else u"
    have pc: "ProcessCommands MakeCurrent DoCommand w = Some ?w'"
      using run v(3) by (subst ProcessCommands_def, subst gs) (auto simp: gs(2) l(1))
    have un: "0 \<le> unscheduled_count u" using l(2) room by (simp add: ready_def)
    have "ready ?w'" "same_buffer w ?w'" "get_offset ?w' = parser_get ?w'"
      using l v(4) ready_schedule by (auto simp: ScheduleProcessCommands_def same_buffer_def)
    moreover have "never_waits \<longrightarrow>
        svc_error ?w' \<noteq> kNoError \<or> 0 < unscheduled_count ?w' \<or> IsEmpty ?w' \<or> 0 < posted_tasks ?w'"
      using l(5) nw un by (auto simp: ScheduleProcessCommands_def)
    ultimately show ?thesis using pc by blast
  qed
qed

end

section \<open>The decoder of the common commands\<close>

lemma gpu_J_cong:
  assumes "gpu_engine.J w" "registered_objects v = registered_objects w"
    "unused_registered_object_elements v = unused_registered_object_elements w"
    "view v = view w" "region v = region w" "entry_count v = entry_count w"
    "num_entries v = num_entries w" "unscheduled_count v = unscheduled_count w"
    "ring v = ring w" "buckets v = buckets w" "call_stack v = call_stack w"
  shows "gpu_engine.J v"
  using assms gpu_inv_cong [of v w] by (simp add: gpu_engine.J_def decoder_ok_def)

lemma gpu_J_room: "gpu_engine.J w \<Longrightarrow> entry_count w \<le> num_entries w \<and> 0 \<le> unscheduled_count w"
  by (simp add: gpu_engine.J_def gpu_inv_def)

interpretation common_scheduler: scheduled_api
  "DoCommonCommand (scheduler_engine :: 'a gpu_scheduler_scheme engine)" gpu_engine.J "\<lambda>c. c < 13"
proof
  fix w :: "'a gpu_scheduler_scheme" and c n :: nat and cmd :: int
  show "gpu_engine.J w \<Longrightarrow> parser_ok w \<Longrightarrow> c < 13 \<Longrightarrow> 0 \<le> cmd \<Longrightarrow>
      cmd + int n + 1 \<le> entry_count w \<Longrightarrow>
      \<exists>e w'. DoCommonCommand scheduler_engine c n cmd w = Some (e, w') \<and> gpu_engine.J w' \<and>
        parser_ok w' \<and> ring w' = ring w \<and> entry_count w' = entry_count w \<and>
        parser_put w' = parser_put w"
    using gpu_engine.DoCommonCommand_total [of w c cmd n] unfolding gpu_engine.kept_def by blast
  show "gpu_engine.J w \<Longrightarrow> entry_count w \<le> num_entries w \<and> 0 \<le> unscheduled_count w"
    by (rule gpu_J_room)
qed (simp_all add: gpu_J_cong)

section \<open>The decoder of the GL commands\<close>

text \<open>The index of a command in the table of the GL commands.\<close>

lemma command_index_known:
  assumes "length info < 2 ^ 31" "c < 2 ^ 11"
  shows "sub32 (sub32 c kLastCommonId) 1 < length info \<longleftrightarrow> 256 \<le> c \<and> c < 256 + length info"
    and "256 \<le> c \<Longrightarrow> sub32 (sub32 c kLastCommonId) 1 = c - 256"
proof -
  show eq: "sub32 (sub32 c kLastCommonId) 1 = c - 256" if "256 \<le> c"
    using that assms(2) by (simp add: kLastCommonId_def)
  show "sub32 (sub32 c kLastCommonId) 1 < length info \<longleftrightarrow> 256 \<le> c \<and> c < 256 + length info"
  proof (cases "256 \<le> c")
    case True
    then show ?thesis by (simp add: eq less_diff_conv2 add.commute)
  next
    case False
    have "sub32 (sub32 c kLastCommonId) 1 = c + 2 ^ 32 - 256"
    proof (cases "c = 255")
      case False
      with \<open>\<not> 256 \<le> c\<close> have "sub32 c kLastCommonId = c + 2 ^ 32 - 255"
        by (simp add: sub32_def kLastCommonId_def)
      then show ?thesis using False \<open>\<not> 256 \<le> c\<close> by simp
    qed (simp add: sub32_def kLastCommonId_def)
    then show ?thesis using False assms(1) by simp
  qed
qed

section \<open>Properties\<close>

text \<open>A service that is set up, and a scheduler of it with \<open>n\<close> entries, used by the witnesses.\<close>

definition sample_gpu :: "uint32 list \<Rightarrow> gpu_scheduler" where
  "sample_gpu entries =
     \<lparr>view = (\<lambda>_. None), region = (\<lambda>_. []), ring = entries,
      ring_buffer = \<lparr>ptr = 4, buffer_size = 4 * length entries, shared_memory = 1\<rparr>,
      num_entries = int (length entries), get_offset = 0, put_offset = 0,
      put_offset_change_callback = True, registered_objects = [null_buffer],
      unused_registered_object_elements = {}, token = 0, generation = 0, svc_error = kNoError,
      parser_get = 0, parser_put = int (length entries) - 1, entry_count = int (length entries),
      buckets = (\<lambda>_. None), call_stack = [], has_parser = True, has_decoder = True,
      decoder_error = kNoError, commands_per_update = 100, unscheduled_count = 0, posted_tasks = 0,
      command_processed_callback = False, callback_runs = 0\<rparr>"

definition gpu_ok :: "'a gpu_scheduler_scheme \<Rightarrow> bool" where
  "gpu_ok w \<longleftrightarrow> gpu_inv w \<and> decoder_ok w \<and> parser_ok w"

lemma gpu_ok_J: "gpu_ok w \<longleftrightarrow> gpu_engine.J w \<and> parser_ok w"
  by (auto simp: gpu_ok_def gpu_engine.J_def)

lemma sample_gpu_ok:
  "entries \<noteq> [] \<Longrightarrow> \<forall>e \<in> set entries. e < 2 ^ 32 \<Longrightarrow> gpu_ok (sample_gpu entries)"
  by (auto simp: gpu_ok_def gpu_inv_def decoder_ok_def parser_ok_def sample_gpu_def table_inv_def
      regs_ok_def null_elements_def mem_ok_def transfer_buffers_def regs_map_def nth_Cons'
      null_buffer_def kMaxStackDepth_def)

text \<open>
  C4 (safety): whatever bytes a client puts into its arguments, a common command whose entries lie in
  the buffer is answered without reading or writing outside the ring, a bucket or a mapped transfer
  buffer, and keeps every invariant of the service: the table of buffers, the mappings, the buckets,
  the depth of the call stack and the bounds of the parser.
\<close>

theorem common_command_safe:
  assumes "gpu_ok w" "c < kNumCommands" "0 \<le> cmd" "cmd + int n + 1 \<le> entry_count w"
  shows "\<exists>e w'. DoCommonCommand scheduler_engine c n cmd w = Some (e, w') \<and> gpu_ok w' \<and>
    ring w' = ring w \<and> entry_count w' = entry_count w"
  using gpu_engine.DoCommonCommand_total [of w c cmd n] assms
  unfolding gpu_ok_J gpu_engine.kept_def kNumCommands_def by blast

theorem common_command_safe_witness:
  "\<exists>e w'. DoCommonCommand scheduler_engine 5 0 0 (sample_gpu [0, 0]) = Some (e, w') \<and> gpu_ok w' \<and>
    ring w' = ring (sample_gpu [0, 0]) \<and> entry_count w' = entry_count (sample_gpu [0, 0])"
  by (rule common_command_safe) (simp_all add: sample_gpu_ok kNumCommands_def, simp add: sample_gpu_def)

text \<open>
  A command number between the last common command and the first GL command is
  never answered: \<open>DoCommonCommand\<close> calls itself with the same arguments, and the \<open>kUnknownCommand\<close>
  after the call is not reached.
\<close>

theorem unknown_common_command_hangs:
  assumes "kNumCommands \<le> c" "c \<le> kLastCommonId" "length info < 2 ^ 31"
  shows "GLES2_DoCommand info handle c n cmd w = None"
proof -
  have "c < 2 ^ 11" using assms(2) by (simp add: kLastCommonId_def)
  then have "\<not> sub32 (sub32 c kLastCommonId) 1 < length info"
    using command_index_known(1) [OF assms(3), of c] assms(2) by (simp add: kLastCommonId_def)
  then show ?thesis using DoCommonCommand_unknown [of c scheduler_engine n cmd w] assms(1)
    by (simp add: GLES2_DoCommand_def Let_def kNumCommands_def)
qed

theorem unknown_common_command_hangs_witness:
  "GLES2_DoCommand [] (\<lambda>_. HandleNoop) 13 0 0 (sample_gpu [0]) = None"
  by (rule unknown_common_command_hangs) (simp_all add: kNumCommands_def kLastCommonId_def)

lemma common_never_waits: "common_scheduler.never_waits TYPE('a)"
  unfolding common_scheduler.never_waits_def
proof (intro allI impI)
  fix c n cmd and w w' :: "'a gpu_scheduler_scheme" and e
  assume "DoCommonCommand scheduler_engine c n cmd w = Some (e, w')"
  then show "e \<noteq> kWaiting" using DoCommonCommand_answers by fastforce
qed

text \<open>
  C2 (liveness): when every command in the buffer is a common one, \<open>ProcessCommands\<close> returns, keeps
  the invariants, leaves the get offset the client sees equal to the parser's, and loses no work:
  afterwards the buffer is empty, or the service is in error or unscheduled, or another run is posted.
\<close>

theorem process_commands_progress:
  assumes "gpu_ok w" "get_offset w = parser_get w" "has_parser w"
    and "\<forall>h \<in> set (ring w). header_command h < kNumCommands"
  shows "\<exists>w'. ProcessCommands MakeCurrent (DoCommonCommand scheduler_engine) w = Some w' \<and> gpu_ok w' \<and>
    ring w' = ring w \<and> get_offset w' = parser_get w' \<and>
    (svc_error w' \<noteq> kNoError \<or> 0 < unscheduled_count w' \<or> IsEmpty w' \<or> 0 < posted_tasks w')"
proof -
  have "common_scheduler.ready w"
    using assms(1,4) unfolding common_scheduler.ready_def common_scheduler.readable_def gpu_ok_J
      kNumCommands_def by blast
  from common_scheduler.ProcessCommands_total [OF this assms(2,3), of MakeCurrent]
  show ?thesis using common_never_waits
    unfolding common_scheduler.ready_def common_scheduler.same_buffer_def gpu_ok_J by blast
qed

theorem process_commands_progress_witness:
  "\<exists>w'. ProcessCommands (\<lambda>_. True) (DoCommonCommand scheduler_engine)
      (sample_gpu [1, 25165825, 0]) = Some w' \<and> gpu_ok w' \<and>
    ring w' = [1, 25165825, 0] \<and> get_offset w' = parser_get w'"
proof -
  have "gpu_ok (sample_gpu [1, 25165825, 0])" by (rule sample_gpu_ok) simp_all
  moreover have "ring (sample_gpu [1, 25165825, 0]) = [1, 25165825, 0]" by (simp add: sample_gpu_def)
  ultimately show ?thesis
    using process_commands_progress [of "sample_gpu [1, 25165825, 0]" "\<lambda>_. True"]
    by (auto simp: header_command_def kNumCommands_def) (auto simp: sample_gpu_def)
qed

section \<open>Jumps and subroutines\<close>

lemma common_step:
  assumes "parser_ok w" "parser_get w \<noteq> parser_put w"
    and es: "stands_at (nat (parser_get w)) es (ring w)" "es = h # args"
    and h: "header_size h = Suc k" "parser_get w + int k + 1 \<le> entry_count w"
    and c: "header_command h < 13" "args_match (g_command_info ! header_command h) k"
      "common_handler scheduler_engine (header_command h) = Some H"
    and H: "H (sub32 k (snd (g_command_info ! header_command h)) * 4 mod 2 ^ 32) (parser_get w) w = Some (e, v)"
  shows "ProcessCommand (DoCommonCommand scheduler_engine) w = Some (e, advance e (parser_get w) (Suc k) v)"
proof -
  have "ring w ! nat (parser_get w) = h" using stands_at_nth [OF es(1), of 0] es(2) by simp
  then have "entry (parser_get w) w = Some h" using entry_parser_ok [OF assms(1)] by simp
  moreover have "DoCommonCommand scheduler_engine (header_command h) k (parser_get w) w = Some (e, v)"
    using c H by (subst DoCommonCommand.simps) simp
  ultimately show ?thesis using assms(2) h by (simp add: ProcessCommand_def Let_def advance_def)
qed

lemma arg_stands_at:
  assumes "stands_at (nat cmd) es (ring w)" "i < length es" "0 \<le> cmd"
  shows "arg i cmd w = Some (es ! i)"
  using stands_at_nth [OF assms(1,2)] assms(3) by (simp add: arg_def entry_def nat_add_distrib)

lemma to_int32_nat: "0 \<le> i \<Longrightarrow> i < 2 ^ 31 \<Longrightarrow> to_int32 (nat i) = i"
  by (simp add: to_int32_def Let_def)

lemma to_uint32_nat: "0 \<le> i \<Longrightarrow> i < 2 ^ 31 \<Longrightarrow> to_uint32 i = nat i"
  by (simp add: to_uint32_def)

text \<open>
  A relative jump is relative to its own first entry, not to its end: it moves the
  get offset to \<open>get + offset\<close>, except that the offset \<open>0\<close> leaves the offset where it was, so that the
  parser advances past the command.
\<close>

theorem jump_relative_from_start:
  assumes "gpu_ok w" "parser_get w \<noteq> parser_put w" "entry_count w < 2 ^ 30"
    and "JumpRelative_Init d = Some es" "stands_at (nat (parser_get w)) es (ring w)"
    and "parser_get w + 2 \<le> entry_count w" "0 \<le> parser_get w + d" "parser_get w + d < entry_count w"
  shows "\<exists>w'. ProcessCommand (DoCommonCommand scheduler_engine) w = Some (kNoError, w') \<and>
    parser_get w' = (if d = 0 then (parser_get w + 2) mod entry_count w else parser_get w + d)"
proof -
  let ?g = "parser_get w" and ?v = "w\<lparr>parser_get := parser_get w + d, get_offset := parser_get w + d\<rparr>"
  obtain h where es: "es = [h, to_uint32 d]" "header_command h = 3" "header_size h = Suc 1"
    using JumpRelative_Init_Some [OF assms(4)] by (auto simp: One_nat_def)
  have ok: "parser_ok w" "gpu_inv w" "0 \<le> ?g" "?g < entry_count w"
    using assms(1) by (auto simp: gpu_ok_def parser_ok_def)
  have a: "arg 1 ?g w = Some (to_uint32 d)"
    using arg_stands_at [OF assms(5), of 1] es(1) ok(3) by simp
  have t: "to_int32 (add32 (to_uint32 ?g) (to_uint32 d)) = ?g + d"
    using assms(3,7,8) by (intro to_int32_add) simp_all
  have "HandleJumpRelative scheduler_engine imm ?g w = Some (kNoError, ?v)" for imm
    using a t assms(7,8) scheduler_SetGetOffset_spec [OF ok(2), of "?g + d"]
    by (simp add: HandleJumpRelative_def scheduler_engine_def)
  then have "ProcessCommand (DoCommonCommand scheduler_engine) w = Some (kNoError, advance kNoError ?g (Suc 1) ?v)"
    using assms(6) by (intro common_step [OF ok(1) assms(2,5) es(1,3), where H = "HandleJumpRelative scheduler_engine"])
      (simp_all add: es(2) g_command_info_def args_match_def common_handler_def)
  then show ?thesis by (simp add: advance_def)
qed

theorem jump_relative_from_start_witness:
  "\<exists>w'. ProcessCommand (DoCommonCommand scheduler_engine) (sample_gpu [6291458, 3, 0, 0, 0])
      = Some (kNoError, w') \<and>
    parser_get w' = (if (3 :: int) = 0
      then (parser_get (sample_gpu [6291458, 3, 0, 0, 0]) + 2) mod entry_count (sample_gpu [6291458, 3, 0, 0, 0])
      else parser_get (sample_gpu [6291458, 3, 0, 0, 0]) + 3)"
proof (rule jump_relative_from_start)
  show "gpu_ok (sample_gpu [6291458, 3, 0, 0, 0])" by (rule sample_gpu_ok) simp_all
  show "JumpRelative_Init 3 = Some [6291458, 3]"
    by (simp add: JumpRelative_Init_def SetCmd_def CommandHeader_Init_def ComputeNumEntries_def
        kMaxSize_def to_int32_def to_uint32_def Let_def sub32_def)
qed (simp_all add: sample_gpu_def stands_at_def)

text \<open>
  \<open>Call\<close> moves the get offset to the subroutine and pushes its own offset, so the
  \<open>Return\<close> of the subroutine goes back to the \<open>Call\<close> itself, which is then executed again; the call
  stack is as before.
\<close>

theorem call_return_repeats:
  assumes "gpu_ok w" "entry_count w < 2 ^ 30" "length (call_stack w) < kMaxStackDepth"
    and "parser_get w \<noteq> parser_put w" "sub \<noteq> parser_put w" "sub \<noteq> parser_get w"
    and "0 \<le> sub" "sub < entry_count w" "parser_get w + 2 \<le> entry_count w"
    and "Call_Init (nat sub) = Some es" "stands_at (nat (parser_get w)) es (ring w)"
    and "Return_Init = Some rs" "stands_at (nat sub) rs (ring w)"
  shows "\<exists>w1 w2. ProcessCommand (DoCommonCommand scheduler_engine) w = Some (kNoError, w1) \<and>
    parser_get w1 = sub \<and> call_stack w1 = nat (parser_get w) # call_stack w \<and>
    ProcessCommand (DoCommonCommand scheduler_engine) w1 = Some (kNoError, w2) \<and>
    parser_get w2 = parser_get w \<and> call_stack w2 = call_stack w"
proof -
  let ?g = "parser_get w"
  let ?w1 = "w\<lparr>parser_get := sub, get_offset := sub, call_stack := nat ?g # call_stack w\<rparr>"
  let ?w2 = "w\<lparr>parser_get := ?g, get_offset := ?g, call_stack := call_stack w\<rparr>"
  obtain h where es: "es = [h, nat sub]" "header_command h = 4" "header_size h = Suc 1"
    using Call_Init_Some [OF assms(10)] by (auto simp: One_nat_def)
  obtain r where rs: "rs = [r]" "header_command r = 6" "header_size r = Suc 0"
    using Return_Init_Some [OF assms(12)] by (auto simp: One_nat_def)
  have ok: "parser_ok w" "gpu_inv w" "0 \<le> ?g" "?g < entry_count w"
    using assms(1) by (auto simp: gpu_ok_def parser_ok_def)
  have ok1: "parser_ok ?w1" using ok(1) assms(7,8) by (simp add: parser_ok_def)
  have inv1: "gpu_inv (?w1\<lparr>call_stack := call_stack w\<rparr>)"
    using ok(2) gpu_inv_cong [of "?w1\<lparr>call_stack := call_stack w\<rparr>" w] by simp
  have a: "arg 1 ?g w = Some (nat sub)"
    using arg_stands_at [OF assms(11), of 1] es(1) ok(3) by simp
  have t: "to_int32 (nat sub) = sub" "to_uint32 ?g = nat ?g" "to_int32 (nat ?g) = ?g"
    using to_int32_nat [of sub] to_int32_nat [of ?g] to_uint32_nat [of ?g] assms(2,7,8) ok(3,4) by simp_all
  have "HandleCall scheduler_engine imm ?g w = Some (kNoError, ?w1)" for imm
    using a t assms(3,7,8) scheduler_SetGetOffset_spec [OF ok(2), of sub]
    by (simp add: HandleCall_def PushAddress_def scheduler_engine_def)
  then have p1: "ProcessCommand (DoCommonCommand scheduler_engine) w =
      Some (kNoError, advance kNoError ?g (Suc 1) ?w1)"
    using assms(9) by (intro common_step [OF ok(1) assms(4,11) es(1,3), where H = "HandleCall scheduler_engine"])
      (simp_all add: es(2) g_command_info_def args_match_def common_handler_def)
  have "HandleReturn scheduler_engine imm sub ?w1 = Some (kNoError, ?w2)" for imm
    using t ok(3,4) scheduler_SetGetOffset_spec [OF inv1, of ?g]
    by (simp add: HandleReturn_def scheduler_engine_def)
  then have p2: "ProcessCommand (DoCommonCommand scheduler_engine) ?w1 =
      Some (kNoError, advance kNoError (parser_get ?w1) (Suc 0) ?w2)"
    using assms(8) by (intro common_step [OF ok1 _ _ rs(1,3), where H = "HandleReturn scheduler_engine"])
      (simp_all add: rs(2) g_command_info_def args_match_def common_handler_def assms(5,13))
  have "advance kNoError ?g (Suc 1) ?w1 = ?w1" "advance kNoError (parser_get ?w1) (Suc 0) ?w2 = ?w2"
    using assms(6) by (simp_all add: advance_def)
  then show ?thesis using p1 p2 by (intro exI [of _ ?w1] exI [of _ ?w2]) simp
qed

theorem call_return_repeats_witness:
  "\<exists>w1 w2. ProcessCommand (DoCommonCommand scheduler_engine) (sample_gpu [8388610, 3, 0, 12582913, 0])
      = Some (kNoError, w1) \<and>
    parser_get w1 = 3 \<and> call_stack w1 =
      nat (parser_get (sample_gpu [8388610, 3, 0, 12582913, 0])) #
        call_stack (sample_gpu [8388610, 3, 0, 12582913, 0]) \<and>
    ProcessCommand (DoCommonCommand scheduler_engine) w1 = Some (kNoError, w2) \<and>
    parser_get w2 = parser_get (sample_gpu [8388610, 3, 0, 12582913, 0]) \<and>
    call_stack w2 = call_stack (sample_gpu [8388610, 3, 0, 12582913, 0])"
proof (rule call_return_repeats)
  show "gpu_ok (sample_gpu [8388610, 3, 0, 12582913, 0])" by (rule sample_gpu_ok) simp_all
  show "Call_Init (nat 3) = Some [8388610, 3]" "Return_Init = Some [12582913]"
    by (simp_all add: Call_Init_def Return_Init_def SetCmd_def CommandHeader_Init_def
        ComputeNumEntries_def kMaxSize_def to_int32_def Let_def sub32_def)
qed (simp_all add: sample_gpu_def stands_at_def kMaxStackDepth_def)

end
