(* ===== verification/CmdBufferHelper.thy ===== *)
theory CmdBufferHelper
  imports CommandBufferService
begin

text \<open>
  The client side of a command buffer (\<open>src/gpu/command_buffer/client/cmd_buffer_helper.cc\<close>,
  \<open>cmd_buffer_helper.h\<close>): it writes commands into the ring, tells the service how far it has
  written, waits for space and for tokens, and wraps around with a \<open>Jump\<close>. It talks to the service
  through a record of the operations of \<open>CommandBuffer\<close> (\<open>command_buffer.h\<close>) and writes the entries
  of the ring, which both sides map.
\<close>

section \<open>State\<close>

record 'w command_buffer =
  cb_GetRingBuffer :: "'w \<Rightarrow> buffer"
  cb_GetState :: "'w \<Rightarrow> State \<times> 'w"
  cb_Flush :: "int32 \<Rightarrow> 'w \<Rightarrow> 'w option"
  cb_FlushSync :: "int32 \<Rightarrow> int32 \<Rightarrow> 'w \<Rightarrow> (State \<times> 'w) option"
  cb_ring :: "'w \<Rightarrow> uint32 list"
  cb_set_ring :: "uint32 list \<Rightarrow> 'w \<Rightarrow> 'w"

record helper =
  total_entry_count :: int32
  usable_entry_count :: int32
  h_token :: int32
  last_token_read :: int32
  h_get :: int32
  h_put :: int32
  last_put_sent :: int32

definition CommandBufferHelper_init :: helper where
  "CommandBufferHelper_init =
     \<lparr>total_entry_count = 0, usable_entry_count = 0, h_token = 0, last_token_read = -1,
      h_get = 0, h_put = 0, last_put_sent = 0\<rparr>"

definition SynchronizeState :: "State \<Rightarrow> helper \<Rightarrow> helper" where
  "SynchronizeState state hl =
     hl\<lparr>h_get := st_get_offset state, last_token_read := st_token state\<rparr>"

definition Helper_Initialize ::
  "'w command_buffer \<Rightarrow> int32 \<Rightarrow> helper \<Rightarrow> 'w \<Rightarrow> bool \<times> helper \<times> 'w" where
  "Helper_Initialize cb ring_buffer_size hl w =
     (if ptr (cb_GetRingBuffer cb w) = 0 then (False, hl, w)
      else
        let (state, w) = cb_GetState cb w;
            num_ring_buffer_entries = to_int32 (to_uint32 ring_buffer_size div 4);
            kJumpEntries = 2 in
        if num_ring_buffer_entries > st_num_entries state then (False, hl, w)
        else (True,
          SynchronizeState state
            (hl\<lparr>total_entry_count := num_ring_buffer_entries,
                usable_entry_count := num_ring_buffer_entries - kJumpEntries,
                h_put := st_put_offset state\<rparr>), w))"

section \<open>Flushing and waiting\<close>

definition Helper_FlushSync ::
  "'w command_buffer \<Rightarrow> helper \<Rightarrow> 'w \<Rightarrow> (bool \<times> helper \<times> 'w) option" where
  "Helper_FlushSync cb hl w = do {
     let hl = hl\<lparr>last_put_sent := h_put hl\<rparr>;
     (state, w) \<leftarrow> cb_FlushSync cb (h_put hl) (h_get hl) w;
     Some (st_error state = kNoError, SynchronizeState state hl, w)
   }"

definition Helper_Flush :: "'w command_buffer \<Rightarrow> helper \<Rightarrow> 'w \<Rightarrow> (helper \<times> 'w) option" where
  "Helper_Flush cb hl w = do {
     let hl = hl\<lparr>last_put_sent := h_put hl\<rparr>;
     w \<leftarrow> cb_Flush cb (h_put hl) w;
     Some (hl, w)
   }"

text \<open>
  The loops that flush until a condition holds or a flush fails: the first component tells whether
  the condition holds.
\<close>

partial_function (option) flush_until ::
  "(helper \<Rightarrow> bool) \<Rightarrow> 'w command_buffer \<Rightarrow> helper \<Rightarrow> 'w \<Rightarrow> (bool \<times> helper \<times> 'w) option" where
  "flush_until stop cb hl w =
     (if stop hl then Some (True, hl, w)
      else Option.bind (Helper_FlushSync cb hl w)
        (\<lambda>(ok, hl, w). if \<not> ok then Some (False, hl, w) else flush_until stop cb hl w))"

text \<open>\<open>Finish\<close>: flushes at least once.\<close>

definition Finish :: "'w command_buffer \<Rightarrow> helper \<Rightarrow> 'w \<Rightarrow> (bool \<times> helper \<times> 'w) option" where
  "Finish cb hl w = do {
     (ok, hl, w) \<leftarrow> Helper_FlushSync cb hl w;
     if \<not> ok then Some (False, hl, w) else flush_until (\<lambda>hl. h_put hl = h_get hl) cb hl w
   }"

text \<open>The loop of \<open>WaitForToken\<close>, which fails when the buffer is empty.\<close>

partial_function (option) wait_token ::
  "'w command_buffer \<Rightarrow> int32 \<Rightarrow> helper \<Rightarrow> 'w \<Rightarrow> (helper \<times> 'w) option" where
  "wait_token cb t hl w =
     (if \<not> last_token_read hl < t then Some (hl, w)
      else if h_get hl = h_put hl then None
      else Option.bind (Helper_FlushSync cb hl w)
        (\<lambda>(ok, hl, w). if \<not> ok then Some (hl, w) else wait_token cb t hl w))"

definition WaitForToken :: "'w command_buffer \<Rightarrow> int32 \<Rightarrow> helper \<Rightarrow> 'w \<Rightarrow> (helper \<times> 'w) option" where
  "WaitForToken cb t hl w =
     (if t < 0 then Some (hl, w)
      else if t > h_token hl then Some (hl, w)
      else wait_token cb t hl w)"

section \<open>Space\<close>

text \<open>The remainder of the language, with the sign of the dividend, for a positive divisor.\<close>

definition crem :: "int \<Rightarrow> int \<Rightarrow> int" where
  "crem a b = (if a < 0 then - ((- a) mod b) else a mod b)"

definition AvailableEntries :: "helper \<Rightarrow> int32" where
  "AvailableEntries hl = crem (h_get hl - h_put hl - 1 + usable_entry_count hl) (usable_entry_count hl)"

text \<open>Writing entries; outside of the ring there is no result.\<close>

definition write_entries :: "'w command_buffer \<Rightarrow> int32 \<Rightarrow> uint32 list \<Rightarrow> 'w \<Rightarrow> 'w option" where
  "write_entries cb i es w = do {
     let buf = cb_ring cb w;
     guard (0 \<le> i \<and> nat i + length es \<le> length buf);
     Some (cb_set_ring cb (take (nat i) buf @ es @ drop (nat i + length es) buf) w)
   }"

definition write_jump :: "'w command_buffer \<Rightarrow> helper \<Rightarrow> 'w \<Rightarrow> 'w option" where
  "write_jump cb hl w = do {
     jump \<leftarrow> Jump_Init 0;
     write_entries cb (h_put hl) jump w
   }"

definition WaitForAvailableEntries ::
  "'w command_buffer \<Rightarrow> int32 \<Rightarrow> helper \<Rightarrow> 'w \<Rightarrow> (helper \<times> 'w) option" where
  "WaitForAvailableEntries cb count hl w = do {
     guard (count < usable_entry_count hl);
     (ok, hl, w) \<leftarrow>
       (if h_put hl + count > usable_entry_count hl then do {
          guard (1 \<le> h_put hl);
          (ok, hl, w) \<leftarrow> flush_until (\<lambda>hl. \<not> (h_get hl > h_put hl \<or> h_get hl = 0)) cb hl w;
          if \<not> ok then Some (False, hl, w)
          else do {
            w \<leftarrow> write_jump cb hl w;
            Some (True, hl\<lparr>h_put := 0\<rparr>, w)
          }
        }
        else Some (True, hl, w));
     if \<not> ok then Some (hl, w)
     else do {
       (ok, hl, w) \<leftarrow> flush_until (\<lambda>hl. \<not> AvailableEntries hl < count) cb hl w;
       if \<not> ok then Some (hl, w)
       else do {
         let pending = crem (h_put hl + usable_entry_count hl - last_put_sent hl) (usable_entry_count hl);
         let limit = usable_entry_count hl div (if h_get hl = last_put_sent hl then 16 else 2);
         if pending > limit then Helper_Flush cb hl w else Some (hl, w)
       }
     }
   }"

definition GetSpace ::
  "'w command_buffer \<Rightarrow> uint32 \<Rightarrow> helper \<Rightarrow> 'w \<Rightarrow> (int32 \<times> helper \<times> 'w) option" where
  "GetSpace cb entries hl w = do {
     (hl, w) \<leftarrow> WaitForAvailableEntries cb (to_int32 entries) hl w;
     let space = h_put hl;
     let hl = hl\<lparr>h_put := to_int32 (add32 (to_uint32 (h_put hl)) entries)\<rparr>;
     guard (h_put hl \<le> usable_entry_count hl);
     if h_put hl = usable_entry_count hl then do {
       w \<leftarrow> write_jump cb hl w;
       Some (space, hl\<lparr>h_put := 0\<rparr>, w)
     }
     else Some (space, hl, w)
   }"

section \<open>Commands\<close>

text \<open>
  Every command gets its space, whose size is that of its structure and data, and then initializes
  it: \<open>GetCmdSpace\<close>, \<open>GetImmediateCmdSpace\<close> and \<open>GetImmediateCmdSpaceTotalSize\<close>.
\<close>

definition GetCmdSpace ::
  "'w command_buffer \<Rightarrow> uint32 \<Rightarrow> uint32 list option \<Rightarrow> helper \<Rightarrow> 'w \<Rightarrow> (helper \<times> 'w) option" where
  "GetCmdSpace cb sizeof_T cmd hl w = do {
     (space, hl, w) \<leftarrow> GetSpace cb (ComputeNumEntries sizeof_T) hl w;
     es \<leftarrow> cmd;
     w \<leftarrow> write_entries cb space es w;
     Some (hl, w)
   }"

definition GetImmediateCmdSpace ::
  "'w command_buffer \<Rightarrow> uint32 \<Rightarrow> uint32 \<Rightarrow> uint32 list option \<Rightarrow> helper \<Rightarrow> 'w \<Rightarrow>
     (int32 \<times> helper \<times> 'w) option" where
  "GetImmediateCmdSpace cb sizeof_T data_space cmd hl w = do {
     (space, hl, w) \<leftarrow> GetSpace cb (ComputeNumEntries (add32 sizeof_T data_space)) hl w;
     es \<leftarrow> cmd;
     w \<leftarrow> write_entries cb space es w;
     Some (space, hl, w)
   }"

definition Helper_Noop :: "'w command_buffer \<Rightarrow> uint32 \<Rightarrow> helper \<Rightarrow> 'w \<Rightarrow> (helper \<times> 'w) option" where
  "Helper_Noop cb skip_count hl w = do {
     (_, hl, w) \<leftarrow> GetImmediateCmdSpace cb 4 (skip_count * 4 mod 2 ^ 32) (Noop_Init skip_count) hl w;
     Some (hl, w)
   }"

definition Helper_SetToken :: "'w command_buffer \<Rightarrow> uint32 \<Rightarrow> helper \<Rightarrow> 'w \<Rightarrow> (helper \<times> 'w) option" where
  "Helper_SetToken cb t = GetCmdSpace cb 8 (SetToken_Init t)"

definition Helper_Jump :: "'w command_buffer \<Rightarrow> uint32 \<Rightarrow> helper \<Rightarrow> 'w \<Rightarrow> (helper \<times> 'w) option" where
  "Helper_Jump cb offset = GetCmdSpace cb 8 (Jump_Init offset)"

definition Helper_JumpRelative ::
  "'w command_buffer \<Rightarrow> int32 \<Rightarrow> helper \<Rightarrow> 'w \<Rightarrow> (helper \<times> 'w) option" where
  "Helper_JumpRelative cb offset = GetCmdSpace cb 8 (JumpRelative_Init offset)"

definition Helper_Call :: "'w command_buffer \<Rightarrow> uint32 \<Rightarrow> helper \<Rightarrow> 'w \<Rightarrow> (helper \<times> 'w) option" where
  "Helper_Call cb offset = GetCmdSpace cb 8 (Call_Init offset)"

definition Helper_CallRelative ::
  "'w command_buffer \<Rightarrow> int32 \<Rightarrow> helper \<Rightarrow> 'w \<Rightarrow> (helper \<times> 'w) option" where
  "Helper_CallRelative cb offset = GetCmdSpace cb 8 (CallRelative_Init offset)"

definition Helper_Return :: "'w command_buffer \<Rightarrow> helper \<Rightarrow> 'w \<Rightarrow> (helper \<times> 'w) option" where
  "Helper_Return cb = GetCmdSpace cb 4 Return_Init"

definition Helper_SetBucketSize ::
  "'w command_buffer \<Rightarrow> uint32 \<Rightarrow> uint32 \<Rightarrow> helper \<Rightarrow> 'w \<Rightarrow> (helper \<times> 'w) option" where
  "Helper_SetBucketSize cb bucket_id sz = GetCmdSpace cb 12 (SetBucketSize_Init bucket_id sz)"

definition Helper_SetBucketData ::
  "'w command_buffer \<Rightarrow> uint32 \<Rightarrow> uint32 \<Rightarrow> uint32 \<Rightarrow> uint32 \<Rightarrow> uint32 \<Rightarrow> helper \<Rightarrow> 'w \<Rightarrow>
     (helper \<times> 'w) option" where
  "Helper_SetBucketData cb bucket_id offset sz shm_id shm_offset =
     GetCmdSpace cb 24 (SetBucketData_Init bucket_id offset sz shm_id shm_offset)"

text \<open>
  \<open>SetBucketDataImmediate\<close> copies the data behind the structure; the bytes that fill up its last
  entry stay as they were.
\<close>

fun bytes_entries :: "8 word list \<Rightarrow> uint32 list" where
  "bytes_entries (a # b # c # d # bs) =
     (unat a + unat b * 2 ^ 8 + unat c * 2 ^ 16 + unat d * 2 ^ 24) # bytes_entries bs"
| "bytes_entries _ = []"

definition write_data :: "'w command_buffer \<Rightarrow> int32 \<Rightarrow> byte list \<Rightarrow> 'w \<Rightarrow> 'w option" where
  "write_data cb i data w = do {
     let n = (length data + 3) div 4;
     let old = take n (drop (nat i) (cb_ring cb w));
     let bytes = concat (map (\<lambda>e. map (\<lambda>k. word_of_nat (e div 2 ^ (8 * k))) [0, 1, 2, 3]) old);
     write_entries cb i (bytes_entries (data @ drop (length data) bytes)) w
   }"

definition Helper_SetBucketDataImmediate ::
  "'w command_buffer \<Rightarrow> uint32 \<Rightarrow> uint32 \<Rightarrow> byte list \<Rightarrow> uint32 \<Rightarrow> helper \<Rightarrow> 'w \<Rightarrow>
     (helper \<times> 'w) option" where
  "Helper_SetBucketDataImmediate cb bucket_id offset data sz hl w = do {
     (space, hl, w) \<leftarrow> GetImmediateCmdSpace cb 16 sz (SetBucketDataImmediate_Init bucket_id offset sz) hl w;
     guard (sz \<le> length data);
     w \<leftarrow> write_data cb (space + 4) (take sz data) w;
     Some (hl, w)
   }"

definition Helper_GetBucketSize ::
  "'w command_buffer \<Rightarrow> uint32 \<Rightarrow> uint32 \<Rightarrow> uint32 \<Rightarrow> helper \<Rightarrow> 'w \<Rightarrow> (helper \<times> 'w) option" where
  "Helper_GetBucketSize cb bucket_id shm_id shm_offset =
     GetCmdSpace cb 16 (GetBucketSize_Init bucket_id shm_id shm_offset)"

definition Helper_GetBucketData ::
  "'w command_buffer \<Rightarrow> uint32 \<Rightarrow> uint32 \<Rightarrow> uint32 \<Rightarrow> uint32 \<Rightarrow> uint32 \<Rightarrow> helper \<Rightarrow> 'w \<Rightarrow>
     (helper \<times> 'w) option" where
  "Helper_GetBucketData cb bucket_id offset sz shm_id shm_offset =
     GetCmdSpace cb 24 (GetBucketData_Init bucket_id offset sz shm_id shm_offset)"

definition Helper_YieldScheduler :: "'w command_buffer \<Rightarrow> helper \<Rightarrow> 'w \<Rightarrow> (helper \<times> 'w) option" where
  "Helper_YieldScheduler cb = GetCmdSpace cb 4 YieldScheduler_Init"

text \<open>A new token; when the counter wraps to zero every command before it is awaited.\<close>

definition InsertToken :: "'w command_buffer \<Rightarrow> helper \<Rightarrow> 'w \<Rightarrow> (int32 \<times> helper \<times> 'w) option" where
  "InsertToken cb hl w = do {
     let hl = hl\<lparr>h_token := (h_token hl + 1) mod 2 ^ 31\<rparr>;
     (hl, w) \<leftarrow> GetCmdSpace cb 8 (SetToken_Init (to_uint32 (h_token hl))) hl w;
     if h_token hl = 0 then do {
       (_, hl, w) \<leftarrow> Finish cb hl w;
       guard (h_token hl = last_token_read hl);
       Some (h_token hl, hl, w)
     }
     else Some (h_token hl, hl, w)
   }"

definition Helper_GetError :: "'w command_buffer \<Rightarrow> helper \<Rightarrow> 'w \<Rightarrow> error \<times> helper \<times> 'w" where
  "Helper_GetError cb hl w =
     (let (state, w) = cb_GetState cb w in (st_error state, SynchronizeState state hl, w))"

end
