(* ===== verification/CommandFifo.thy ===== *)
theory CommandFifo
  imports CmdBufferHelper
begin

text \<open>
  What the ring of a command buffer promises: it is a queue of commands. \<open>fifo\<close> says which commands
  stand in the ring between the reader's and the writer's offset, also when the writer has wrapped
  around with a \<open>Jump\<close>. The locale \<open>command_channel\<close> states what a client relies on when it flushes,
  and in it the operations of \<open>CommandBufferHelper\<close> are shown to return, to lose no command, to keep
  their order and never to overwrite a command that was not read.
\<close>

section \<open>Commands in the ring\<close>

definition jump0 :: "uint32 list" where
  "jump0 = [4194306, 0]"

lemma Jump_Init_0: "Jump_Init 0 = Some jump0"
  by (simp add: Jump_Init_def SetCmd_def CommandHeader_Init_def ComputeNumEntries_def kMaxSize_def
      to_int32_def Let_def sub32_def jump0_def)

lemma SetToken_Init_eq: "SetToken_Init t = Some [2097154, t]"
  by (simp add: SetToken_Init_def SetCmd_def CommandHeader_Init_def ComputeNumEntries_def kMaxSize_def
      to_int32_def Let_def sub32_def)

lemma to_int32_of_nat: "n < 2 ^ 31 \<Longrightarrow> to_int32 n = int n"
  by (simp add: to_int32_def Let_def)

lemma jump0_simps [simp]: "length jump0 = 2" "jump0 \<noteq> []" "header_command (hd jump0) = 2"
  by (simp_all add: jump0_def header_command_def)

text \<open>\<open>seg\<close>: the commands \<open>cs\<close>, all of a plain kind, stand one after the other from \<open>a\<close> to \<open>b\<close>.\<close>

fun seg :: "(uint32 list \<Rightarrow> bool) \<Rightarrow> uint32 list \<Rightarrow> nat \<Rightarrow> nat \<Rightarrow> uint32 list list \<Rightarrow> bool" where
  "seg pl buf a b [] \<longleftrightarrow> a = b"
| "seg pl buf a b (c # cs) \<longleftrightarrow>
     c \<noteq> [] \<and> pl c \<and> header_size (hd c) = length c \<and> stands_at a c buf \<and>
     seg pl buf (a + length c) b cs"

definition no_jumps :: "(uint32 list \<Rightarrow> bool) \<Rightarrow> bool" where
  "no_jumps pl \<longleftrightarrow> (\<forall>c. pl c \<longrightarrow> header_command (hd c) \<noteq> 2)"

definition fifo :: "(uint32 list \<Rightarrow> bool) \<Rightarrow> uint32 list \<Rightarrow> nat \<Rightarrow> nat \<Rightarrow> nat \<Rightarrow> uint32 list list \<Rightarrow> bool" where
  "fifo pl buf u g p cs \<longleftrightarrow> p < u \<and> u + 2 = length buf \<and>
     (g \<le> p \<and> seg pl buf g p cs \<or>
      (\<exists>w xs ys. p < g \<and> g \<le> w \<and> w \<le> u \<and> seg pl buf g w xs \<and> stands_at w jump0 buf \<and>
         seg pl buf 0 p ys \<and> cs = xs @ jump0 # ys))"

text \<open>Where the reader is after it has executed \<open>cs\<close> from offset \<open>g\<close>, and the token it then has.\<close>

definition step :: "nat \<Rightarrow> uint32 list \<Rightarrow> nat" where
  "step g c = (if header_command (hd c) = 2 then 0 else g + length c)"

definition after :: "nat \<Rightarrow> uint32 list list \<Rightarrow> nat" where
  "after g cs = foldl step g cs"

definition toks :: "uint32 list list \<Rightarrow> int32 list" where
  "toks cs = map (\<lambda>c. to_int32 (c ! 1)) (filter (\<lambda>c. header_command (hd c) = 1) cs)"

definition token_after :: "uint32 list list \<Rightarrow> int32 \<Rightarrow> int32" where
  "token_after cs t = last (t # toks cs)"

text \<open>The commands without the wrapping jumps.\<close>

definition commands :: "uint32 list list \<Rightarrow> uint32 list list" where
  "commands cs = filter (\<lambda>c. header_command (hd c) \<noteq> 2) cs"

lemma commands_append [simp]: "commands (xs @ ys) = commands xs @ commands ys"
  by (simp add: commands_def)

lemma toks_append [simp]: "toks (xs @ ys) = toks xs @ toks ys"
  by (simp add: toks_def)

lemma toks_jump [simp]: "toks [jump0] = []"
  by (simp add: toks_def)

lemma toks_Nil [simp]: "toks [] = []"
  by (simp add: toks_def)

lemma after_append [simp]: "after g (xs @ ys) = after (after g xs) ys"
  by (simp add: after_def)

lemma after_Nil [simp]: "after g [] = g"
  by (simp add: after_def)

lemma token_after_append: "token_after (xs @ ys) t = token_after ys (token_after xs t)"
  by (simp add: token_after_def)

lemma seg_le: "seg pl buf a b cs \<Longrightarrow> a \<le> b"
  by (induction cs arbitrary: a) force+

lemma seg_append: "seg pl buf a b (xs @ ys) \<longleftrightarrow> (\<exists>m. seg pl buf a m xs \<and> seg pl buf m b ys)"
  by (induction xs arbitrary: a) auto

lemma seg_bound: "seg pl buf a b cs \<Longrightarrow> a \<le> length buf \<Longrightarrow> b \<le> length buf"
  by (induction cs arbitrary: a) (auto simp: stands_at_def)

lemma stands_at_cong:
  assumes "length buf' = length buf" "\<And>i. a \<le> i \<Longrightarrow> i < a + length c \<Longrightarrow> buf' ! i = buf ! i"
    "stands_at a c buf"
  shows "stands_at a c buf'"
proof -
  have le: "a + length c \<le> length buf" and c: "take (length c) (drop a buf) = c"
    using assms(3) by (simp_all add: stands_at_def)
  have "take (length c) (drop a buf') = take (length c) (drop a buf)"
  proof (rule nth_equalityI)
    show "length (take (length c) (drop a buf')) = length (take (length c) (drop a buf))"
      using assms(1) by simp
    fix i assume "i < length (take (length c) (drop a buf'))"
    then have i: "i < length c" "a + i < length buf" using assms(1) le by auto
    then have "buf' ! (a + i) = buf ! (a + i)" by (intro assms(2)) auto
    then show "take (length c) (drop a buf') ! i = take (length c) (drop a buf) ! i"
      using i assms(1) by simp
  qed
  then show ?thesis using c le assms(1) by (simp add: stands_at_def)
qed

lemma seg_cong:
  "seg pl buf a b cs \<Longrightarrow> length buf' = length buf \<Longrightarrow> (\<And>i. a \<le> i \<Longrightarrow> i < b \<Longrightarrow> buf' ! i = buf ! i) \<Longrightarrow>
     seg pl buf' a b cs"
proof (induction cs arbitrary: a)
  case (Cons c cs)
  have le: "a + length c \<le> b" using seg_le Cons.prems(1) by fastforce
  have "stands_at a c buf'"
    using Cons.prems le by (intro stands_at_cong [of buf' buf]) auto
  moreover have "seg pl buf' (a + length c) b cs"
    using Cons.prems by (intro Cons.IH) auto
  ultimately show ?case using Cons.prems(1) by simp
qed simp

lemma seg_plain: "seg pl buf a b cs \<Longrightarrow> c \<in> set cs \<Longrightarrow> pl c"
  by (induction cs arbitrary: a) auto

text \<open>Reading the first command.\<close>

lemma fifo_Nil: "fifo pl buf u g p [] \<Longrightarrow> g = p"
  by (auto simp: fifo_def)

lemma fifo_step:
  assumes "fifo pl buf u g p (c # cs)" "no_jumps pl"
  shows "fifo pl buf u (step g c) p cs \<and> stands_at g c buf \<and> g \<noteq> p \<and> header_size (hd c) = length c \<and>
    c \<noteq> [] \<and> g + length c \<le> u + 2 \<and> (c = jump0 \<and> p < g \<or> pl c \<and> g + length c \<le> u)"
proof -
  have pu: "p < u" "u + 2 = length buf" using assms(1) by (auto simp: fifo_def)
  have js: "header_size (hd jump0) = length jump0" by (simp add: jump0_def header_size_def)
  consider (lin) "g \<le> p" "seg pl buf g p (c # cs)"
    | (jump) ys where "p < g" "g \<le> u" "stands_at g jump0 buf" "seg pl buf 0 p ys" "c = jump0" "cs = ys"
    | (wrap) w xs ys where "p < g" "g \<le> w" "w \<le> u" "seg pl buf g w (c # xs)" "stands_at w jump0 buf"
        "seg pl buf 0 p ys" "cs = xs @ jump0 # ys"
  proof -
    show thesis if a: "\<And>ys. p < g \<Longrightarrow> g \<le> u \<Longrightarrow> stands_at g jump0 buf \<Longrightarrow> seg pl buf 0 p ys \<Longrightarrow> c = jump0 \<Longrightarrow>
          cs = ys \<Longrightarrow> thesis" "g \<le> p \<Longrightarrow> seg pl buf g p (c # cs) \<Longrightarrow> thesis"
      "\<And>w xs ys. p < g \<Longrightarrow> g \<le> w \<Longrightarrow> w \<le> u \<Longrightarrow> seg pl buf g w (c # xs) \<Longrightarrow> stands_at w jump0 buf \<Longrightarrow>
          seg pl buf 0 p ys \<Longrightarrow> cs = xs @ jump0 # ys \<Longrightarrow> thesis"
    proof (cases "g \<le> p \<and> seg pl buf g p (c # cs)")
      case False
      then obtain w xs ys where w: "p < g" "g \<le> w" "w \<le> u" "seg pl buf g w xs" "stands_at w jump0 buf"
        "seg pl buf 0 p ys" "c # cs = xs @ jump0 # ys" using assms(1) unfolding fifo_def by blast
      show thesis
      proof (cases xs)
        case Nil
        then show thesis using a(1) [of ys] w by simp
      next
        case (Cons x xs')
        then show thesis using a(3) [of w xs' ys] w by simp
      qed
    qed (use a(2) in blast)
  qed
  then show ?thesis
  proof cases
    case lin
    then have "g + length c \<le> p" using seg_le by fastforce
    moreover have "step g c = g + length c" using lin(2) assms(2) by (auto simp: step_def no_jumps_def)
    ultimately show ?thesis using lin pu by (auto simp: fifo_def)
  next
    case jump
    then show ?thesis using pu js by (auto simp: fifo_def step_def)
  next
    case wrap
    then have "g + length c \<le> w" using seg_le by fastforce
    moreover have "step g c = g + length c" using wrap(4) assms(2) by (auto simp: step_def no_jumps_def)
    ultimately show ?thesis using wrap pu by (auto simp: fifo_def)
  qed
qed

lemma fifo_drop:
  "fifo pl buf u g p cs \<Longrightarrow> no_jumps pl \<Longrightarrow> k \<le> length cs \<Longrightarrow>
     fifo pl buf u (after g (take k cs)) p (drop k cs)"
proof (induction k arbitrary: g cs)
  case (Suc k)
  then obtain c ds where "cs = c # ds" by (cases cs) auto
  then show ?case using Suc.IH [of "step g c" ds] Suc.prems fifo_step [of pl buf u g p c ds]
    by (simp add: after_def)
qed simp

section \<open>Writing into the ring\<close>

definition put_entries :: "nat \<Rightarrow> uint32 list \<Rightarrow> uint32 list \<Rightarrow> uint32 list" where
  "put_entries i es buf = take i buf @ es @ drop (i + length es) buf"

lemma length_put_entries [simp]: "i + length es \<le> length buf \<Longrightarrow> length (put_entries i es buf) = length buf"
  by (simp add: put_entries_def)

lemma nth_put_entries:
  "i + length es \<le> length buf \<Longrightarrow> j < i \<or> i + length es \<le> j \<Longrightarrow> j < length buf \<Longrightarrow>
     put_entries i es buf ! j = buf ! j"
  by (auto simp: put_entries_def nth_append)

lemma stands_at_put: "i + length es \<le> length buf \<Longrightarrow> stands_at i es (put_entries i es buf)"
  by (simp add: put_entries_def stands_at_def)

lemma seg_put:
  assumes "seg pl buf a b cs" "b \<le> length buf" "i + length es \<le> length buf" "b \<le> i \<or> i + length es \<le> a"
  shows "seg pl (put_entries i es buf) a b cs"
  using assms by (intro seg_cong [OF assms(1)]) (auto intro!: nth_put_entries)

text \<open>Wrapping: the reader is past the start and not past the writer.\<close>

lemma fifo_wrap:
  assumes "fifo pl buf u g p cs" "0 < g" "g \<le> p"
  shows "fifo pl (put_entries p jump0 buf) u g 0 (cs @ [jump0])"
proof -
  have f: "p < u" "u + 2 = length buf" "seg pl buf g p cs" using assms by (auto simp: fifo_def)
  have "seg pl (put_entries p jump0 buf) g p cs" using f by (intro seg_put) auto
  moreover have "stands_at p jump0 (put_entries p jump0 buf)" using f by (intro stands_at_put) auto
  ultimately show ?thesis using f assms(2,3) unfolding fifo_def
    by (intro conjI disjI2 exI [of _ p] exI [of _ cs] exI [of _ "[]"]) auto
qed

definition room :: "nat \<Rightarrow> nat \<Rightarrow> nat \<Rightarrow> nat" where
  "room u g p = (if g \<le> p then u - 1 - (p - g) else g - p - 1)"

definition is_command :: "(uint32 list \<Rightarrow> bool) \<Rightarrow> uint32 list \<Rightarrow> bool" where
  "is_command pl es \<longleftrightarrow> es \<noteq> [] \<and> pl es \<and> header_size (hd es) = length es \<and>
     (\<forall>e \<in> set es. e < 2 ^ 32)"

text \<open>Adding a command where there is room; at the end of the usable part a jump follows it.\<close>

lemma fifo_add:
  assumes f: "fifo pl buf u g p cs" and c: "is_command pl es" and r: "length es \<le> room u g p"
    and e: "p + length es < u"
  shows "fifo pl (put_entries p es buf) u g (p + length es) (cs @ [es])"
proof -
  let ?buf = "put_entries p es buf"
  have pu: "p < u" "u + 2 = length buf" using f by (auto simp: fifo_def)
  have l: "length ?buf = length buf" "stands_at p es ?buf"
    using pu e by (simp_all add: stands_at_put)
  have s: "seg pl ?buf p (p + length es) [es]" using l c by (simp add: is_command_def)
  show ?thesis
  proof (cases "g \<le> p \<and> seg pl buf g p cs")
    case True
    then have "seg pl ?buf g p cs" using pu e by (intro seg_put) auto
    then show ?thesis using True pu e s l by (auto simp: fifo_def seg_append)
  next
    case False
    then obtain w xs ys where w: "p < g" "g \<le> w" "w \<le> u" "seg pl buf g w xs" "stands_at w jump0 buf"
        "seg pl buf 0 p ys" "cs = xs @ jump0 # ys" using f unfolding fifo_def by blast
    have q: "p + length es < g" using r w(1) by (simp add: room_def)
    have "seg pl ?buf g w xs" using w pu e q by (intro seg_put) auto
    moreover have "stands_at w jump0 ?buf"
      using w pu e q l by (intro stands_at_cong [OF _ _ w(5)]) (auto intro!: nth_put_entries)
    moreover have "seg pl ?buf 0 p ys" using w pu e by (intro seg_put) auto
    then have "seg pl ?buf 0 (p + length es) (ys @ [es])" using s by (auto simp: seg_append)
    ultimately show ?thesis using w q pu e l unfolding fifo_def
      by (intro conjI disjI2 exI [of _ w] exI [of _ xs] exI [of _ "ys @ [es]"]) auto
  qed
qed

lemma fifo_add_end:
  assumes f: "fifo pl buf u g p cs" and c: "is_command pl es" and r: "length es \<le> room u g p"
    and e: "p + length es = u"
  shows "fifo pl (put_entries p es (put_entries u jump0 buf)) u g 0 (cs @ [es, jump0])"
proof -
  let ?b1 = "put_entries u jump0 buf" and ?buf = "put_entries p es (put_entries u jump0 buf)"
  have pu: "p < u" "u + 2 = length buf" using f by (auto simp: fifo_def)
  have g: "0 < g" "g \<le> p" using r e pu c f
    by (auto simp: room_def is_command_def fifo_def split: if_splits)
  then have s: "seg pl buf g p cs" using f by (auto simp: fifo_def)
  have l: "length ?b1 = length buf" "length ?buf = length buf" using pu e by simp_all
  have "seg pl ?b1 g p cs" using s pu by (intro seg_put) auto
  then have s1: "seg pl ?buf g p cs" by (rule seg_put) (use pu e l in auto)
  have "stands_at p es ?buf" using pu e l by (intro stands_at_put) simp
  then have s2: "seg pl ?buf p u [es]" using c e by (simp add: is_command_def)
  have "stands_at u jump0 ?b1" using pu by (intro stands_at_put) simp
  then have "stands_at u jump0 ?buf"
    using pu e l by (intro stands_at_cong [of ?buf ?b1]) (auto intro!: nth_put_entries)
  moreover have "seg pl ?buf g u (cs @ [es])" using s1 s2 by (auto simp: seg_append)
  ultimately show ?thesis using g pu l unfolding fifo_def
    by (intro conjI disjI2 exI [of _ u] exI [of _ "cs @ [es]"] exI [of _ "[]"]) auto
qed

section \<open>The channel a client relies on\<close>

text \<open>
  \<open>command_channel\<close>: flushing lets the reader execute some of the commands in the ring, in order and
  without changing them, and answers where it is, which token it has seen and whether there is an
  error; a synchronous flush by a client that knows where the reader is makes the reader execute at
  least one command when there is one and no error (\<open>FlushSync\<close> in \<open>command_buffer.h\<close>). Writing
  entries changes nothing but the ring.
\<close>

locale command_channel =
  fixes cb :: "'w command_buffer" and I :: "'w \<Rightarrow> bool" and rget :: "'w \<Rightarrow> nat" and tok :: "'w \<Rightarrow> int32"
    and err :: "'w \<Rightarrow> error" and pl :: "uint32 list \<Rightarrow> bool" and u :: nat
  assumes no_jump: "no_jumps pl"
    and set_token_plain: "header_command (hd es) = 1 \<Longrightarrow> length es = 2 \<Longrightarrow> pl es"
    and u_bound: "I w \<Longrightarrow> u < 2 ^ 30"
    and flush_sync: "I w \<Longrightarrow> fifo pl (cb_ring cb w) u (rget w) p cs \<Longrightarrow>
      \<exists>st w' k. cb_FlushSync cb (int p) g w = Some (st, w') \<and> I w' \<and> cb_ring cb w' = cb_ring cb w \<and>
        st_get_offset st = int (rget w') \<and> st_token st = tok w' \<and> st_error st = err w' \<and>
        k \<le> length cs \<and> rget w' = after (rget w) (take k cs) \<and>
        tok w' = token_after (take k cs) (tok w) \<and>
        (err w' = kNoError \<and> g = int (rget w) \<and> cs \<noteq> [] \<longrightarrow> 0 < k)"
    and flush: "I w \<Longrightarrow> fifo pl (cb_ring cb w) u (rget w) p cs \<Longrightarrow>
      \<exists>w' k. cb_Flush cb (int p) w = Some w' \<and> I w' \<and> cb_ring cb w' = cb_ring cb w \<and>
        k \<le> length cs \<and> rget w' = after (rget w) (take k cs) \<and>
        tok w' = token_after (take k cs) (tok w)"
    and set_ring: "I w \<Longrightarrow> length buf = length (cb_ring cb w) \<Longrightarrow> (\<forall>e \<in> set buf. e < 2 ^ 32) \<Longrightarrow>
      I (cb_set_ring cb buf w) \<and> cb_ring cb (cb_set_ring cb buf w) = buf \<and>
      rget (cb_set_ring cb buf w) = rget w \<and> tok (cb_set_ring cb buf w) = tok w \<and>
      err (cb_set_ring cb buf w) = err w"
    and ring_words: "I w \<Longrightarrow> \<forall>e \<in> set (cb_ring cb w). e < 2 ^ 32"
begin

text \<open>
  \<open>linked\<close>: the client and the service agree. \<open>cs\<close> stands in the ring between the offsets the client
  knows, and the reader has executed a part of it that the client has not heard of yet.
\<close>

definition linked :: "helper \<Rightarrow> 'w \<Rightarrow> uint32 list list \<Rightarrow> bool" where
  "linked hl w cs \<longleftrightarrow> I w \<and> usable_entry_count hl = int u \<and> 0 \<le> h_get hl \<and> 0 \<le> h_put hl \<and>
     fifo pl (cb_ring cb w) u (nat (h_get hl)) (nat (h_put hl)) cs \<and>
     (\<exists>k \<le> length cs. rget w = after (nat (h_get hl)) (take k cs) \<and>
        tok w = token_after (take k cs) (last_token_read hl))"

text \<open>The tokens in the ring increase, and \<open>t\<close> is the newest.\<close>

definition tokens :: "int32 \<Rightarrow> helper \<Rightarrow> uint32 list list \<Rightarrow> bool" where
  "tokens t hl cs \<longleftrightarrow> sorted_wrt (<) (last_token_read hl # toks cs) \<and>
     token_after cs (last_token_read hl) = t"

text \<open>What one side may do between: execute commands from the front.\<close>

definition advanced :: "helper \<Rightarrow> uint32 list list \<Rightarrow> helper \<Rightarrow> uint32 list list \<Rightarrow> bool" where
  "advanced hl cs hl' cs' \<longleftrightarrow> suffix (commands cs') (commands cs) \<and> h_token hl' = h_token hl \<and>
     (\<forall>t. tokens t hl cs \<longrightarrow> tokens t hl' cs')"

lemma advanced_refl [simp]: "advanced hl cs hl cs"
  by (simp add: advanced_def)

lemma advanced_trans: "advanced hl cs hl' cs' \<Longrightarrow> advanced hl' cs' hl'' cs'' \<Longrightarrow> advanced hl cs hl'' cs''"
  unfolding advanced_def by (metis suffix_order.order_trans)

lemma advanced_drop:
  assumes "last_token_read hl' = token_after (take j cs) (last_token_read hl)" "h_token hl' = h_token hl"
  shows "advanced hl cs hl' (drop j cs)"
proof -
  have c: "commands cs = commands (take j cs) @ commands (drop j cs)"
    by (metis append_take_drop_id commands_append)
  have t: "toks cs = toks (take j cs) @ toks (drop j cs)"
    by (metis append_take_drop_id toks_append)
  have "tokens t hl' (drop j cs)" if "tokens t hl cs" for t
  proof -
    have s: "sorted_wrt (<) ((last_token_read hl # toks (take j cs)) @ toks (drop j cs))"
      using that t by (simp add: tokens_def)
    have "last_token_read hl' \<in> set (last_token_read hl # toks (take j cs))"
      unfolding assms(1) token_after_def by (rule last_in_set) simp
    then have "sorted_wrt (<) (last_token_read hl' # toks (drop j cs))"
      using s unfolding sorted_wrt_append by auto
    moreover have "token_after (drop j cs) (last_token_read hl') = token_after cs (last_token_read hl)"
      unfolding assms(1) by (metis append_take_drop_id token_after_append)
    ultimately show ?thesis using that by (simp add: tokens_def)
  qed
  then show ?thesis using assms(2) by (simp add: advanced_def suffix_def c)
qed

lemma linked_service:
  assumes "linked hl w cs"
  obtains k where "I w" "k \<le> length cs" "rget w = after (nat (h_get hl)) (take k cs)"
    "tok w = token_after (take k cs) (last_token_read hl)"
    "fifo pl (cb_ring cb w) u (rget w) (nat (h_put hl)) (drop k cs)"
proof -
  obtain k where k: "I w" "k \<le> length cs" "rget w = after (nat (h_get hl)) (take k cs)"
    "tok w = token_after (take k cs) (last_token_read hl)"
    "fifo pl (cb_ring cb w) u (nat (h_get hl)) (nat (h_put hl)) cs"
    using assms unfolding linked_def by blast
  show thesis by (rule that [OF k(1-4)]) (use fifo_drop [OF k(5) no_jump k(2)] k(3) in simp)
qed

lemma take_add_drop: "take k cs @ take j (drop k cs) = take (k + j) cs"
  by (simp add: take_add)

lemma Helper_FlushSync_linked:
  assumes l: "linked hl w cs"
  obtains ok hl' w' j where "Helper_FlushSync cb hl w = Some (ok, hl', w')" "j \<le> length cs"
    "linked hl' w' (drop j cs)" "advanced hl cs hl' (drop j cs)" "h_put hl' = h_put hl"
    "ok \<longleftrightarrow> err w' = kNoError" "ok \<Longrightarrow> cs \<noteq> [] \<Longrightarrow> 0 < j"
proof -
  let ?g = "nat (h_get hl)"
  obtain k where k: "I w" "k \<le> length cs" "rget w = after ?g (take k cs)"
    "tok w = token_after (take k cs) (last_token_read hl)"
    "fifo pl (cb_ring cb w) u (rget w) (nat (h_put hl)) (drop k cs)"
    using linked_service [OF l] by blast
  have hl: "0 \<le> h_get hl" "0 \<le> h_put hl" "usable_entry_count hl = int u"
    "fifo pl (cb_ring cb w) u ?g (nat (h_put hl)) cs" using l by (auto simp: linked_def)
  obtain st w' i where f: "cb_FlushSync cb (h_put hl) (h_get hl) w = Some (st, w')" "I w'"
    "cb_ring cb w' = cb_ring cb w" "st_get_offset st = int (rget w')" "st_token st = tok w'"
    "st_error st = err w'" "i \<le> length (drop k cs)" "rget w' = after (rget w) (take i (drop k cs))"
    "tok w' = token_after (take i (drop k cs)) (tok w)"
    "err w' = kNoError \<and> h_get hl = int (rget w) \<and> drop k cs \<noteq> [] \<longrightarrow> 0 < i"
    using flush_sync [OF k(1,5), of "h_get hl"] unfolding int_nat_eq if_P [OF hl(2)] by blast
  let ?hl = "SynchronizeState st (hl\<lparr>last_put_sent := h_put hl\<rparr>)" and ?j = "k + i"
  have j: "?j \<le> length cs" using k(2) f(7) by simp
  have pos: "rget w' = after ?g (take ?j cs)" "tok w' = token_after (take ?j cs) (last_token_read hl)"
    using f(8,9) k(3,4) by (simp_all flip: take_add_drop add: token_after_append)
  have "fifo pl (cb_ring cb w') u (rget w') (nat (h_put hl)) (drop ?j cs)"
    using fifo_drop [OF hl(4) no_jump j] pos f(3) by simp
  then have lk: "linked ?hl w' (drop ?j cs)"
    using f hl unfolding linked_def SynchronizeState_def
    by (auto intro!: exI [of _ 0] simp: token_after_def)
  have adv: "advanced hl cs ?hl (drop ?j cs)"
    by (rule advanced_drop) (simp_all add: SynchronizeState_def f(5) pos(2))
  have prog: "0 < ?j" if "st_error st = kNoError" "cs \<noteq> []"
  proof (cases "k = 0")
    case True
    then have "h_get hl = int (rget w)" using k(3) hl(1) by simp
    then show ?thesis using f(6,10) True that by simp
  qed simp
  have ret: "Helper_FlushSync cb hl w = Some (st_error st = kNoError, ?hl, w')"
    using f(1) by (simp add: Helper_FlushSync_def)
  have pt: "h_put ?hl = h_put hl" by (simp add: SynchronizeState_def)
  show thesis by (rule that [OF ret j lk adv pt _ prog]) (simp_all add: f(6))
qed

lemma flush_until_linked:
  assumes "linked hl w cs"
    "\<And>h. h_get h = h_put hl \<Longrightarrow> h_put h = h_put hl \<Longrightarrow> usable_entry_count h = int u \<Longrightarrow> stop h"
  shows "\<exists>ok hl' w' cs'. flush_until stop cb hl w = Some (ok, hl', w') \<and> linked hl' w' cs' \<and>
    advanced hl cs hl' cs' \<and> h_put hl' = h_put hl \<and> (if ok then stop hl' else err w' \<noteq> kNoError)"
  using assms
proof (induction "length cs" arbitrary: hl w cs rule: less_induct)
  case less
  show ?case
  proof (cases "stop hl")
    case True
    then have "flush_until stop cb hl w = Some (True, hl, w)" by (subst flush_until.simps) simp
    then show ?thesis using less.prems(1) True advanced_refl by fastforce
  next
    case False
    have "cs \<noteq> []"
    proof
      assume "cs = []"
      then have l: "fifo pl (cb_ring cb w) u (nat (h_get hl)) (nat (h_put hl)) []" "0 \<le> h_get hl"
        "0 \<le> h_put hl" "usable_entry_count hl = int u"
        using less.prems(1) unfolding linked_def by blast+
      have "h_get hl = h_put hl" using fifo_Nil [OF l(1)] l(2,3) by linarith
      then show False using False less.prems(2) l(4) by blast
    qed
    obtain ok hl' w' j where f: "Helper_FlushSync cb hl w = Some (ok, hl', w')" "j \<le> length cs"
      "linked hl' w' (drop j cs)" "advanced hl cs hl' (drop j cs)" "h_put hl' = h_put hl"
      "ok \<longleftrightarrow> err w' = kNoError" "ok \<Longrightarrow> cs \<noteq> [] \<Longrightarrow> 0 < j"
      using Helper_FlushSync_linked [OF less.prems(1)] by metis
    show ?thesis
    proof (cases ok)
      case False
      then have "flush_until stop cb hl w = Some (False, hl', w')"
        using f(1) \<open>\<not> stop hl\<close> by (subst flush_until.simps) simp
      moreover have "err w' \<noteq> kNoError" using False f(6) by simp
      ultimately show ?thesis using f(3-5) by fastforce
    next
      case True
      then have "length (drop j cs) < length cs" using f(7) \<open>cs \<noteq> []\<close> by (cases cs) auto
      then obtain ok2 h2 w2 c2 where r: "flush_until stop cb hl' w' = Some (ok2, h2, w2)" "linked h2 w2 c2"
        "advanced hl' (drop j cs) h2 c2" "h_put h2 = h_put hl'"
        "if ok2 then stop h2 else err w2 \<noteq> kNoError"
        using less.hyps [of "drop j cs" hl' w'] f(3,5) less.prems(2) by auto
      have "flush_until stop cb hl w = Some (ok2, h2, w2)"
        using \<open>\<not> stop hl\<close> f(1) True r(1) by (subst flush_until.simps) simp
      moreover have "h_put h2 = h_put hl" using r(4) f(5) by simp
      ultimately show ?thesis using r(2,5) advanced_trans [OF f(4) r(3)] by blast
    qed
  qed
qed

lemma Helper_Flush_linked:
  assumes "linked hl w cs"
  shows "\<exists>w'. Helper_Flush cb hl w = Some (hl\<lparr>last_put_sent := h_put hl\<rparr>, w') \<and>
    linked (hl\<lparr>last_put_sent := h_put hl\<rparr>) w' cs"
proof -
  obtain k where k: "I w" "k \<le> length cs" "rget w = after (nat (h_get hl)) (take k cs)"
    "tok w = token_after (take k cs) (last_token_read hl)"
    "fifo pl (cb_ring cb w) u (rget w) (nat (h_put hl)) (drop k cs)"
    using linked_service [OF assms] by blast
  have hp: "0 \<le> h_put hl" using assms by (simp add: linked_def)
  obtain w' i where f: "cb_Flush cb (h_put hl) w = Some w'" "I w'" "cb_ring cb w' = cb_ring cb w"
    "i \<le> length (drop k cs)" "rget w' = after (rget w) (take i (drop k cs))"
    "tok w' = token_after (take i (drop k cs)) (tok w)"
    using flush [OF k(1,5)] unfolding int_nat_eq if_P [OF hp] by blast
  have "k + i \<le> length cs" "rget w' = after (nat (h_get hl)) (take (k + i) cs)"
    "tok w' = token_after (take (k + i) cs) (last_token_read hl)"
    using k(2-4) f(4-6) by (simp_all flip: take_add_drop add: token_after_append)
  then have "linked (hl\<lparr>last_put_sent := h_put hl\<rparr>) w' cs"
    using assms f(2,3) unfolding linked_def by auto
  then show ?thesis using f(1) by (simp add: Helper_Flush_def)
qed

lemma advanced_flush: "advanced hl cs (hl\<lparr>last_put_sent := h_put hl\<rparr>) cs"
  by (simp add: advanced_def tokens_def)

text \<open>Writing entries at a position of the ring.\<close>

lemma write_entries_ring:
  assumes "I w" "0 \<le> i" "nat i + length es \<le> length (cb_ring cb w)" "\<forall>e \<in> set es. e < 2 ^ 32"
  shows "\<exists>w'. write_entries cb i es w = Some w' \<and> I w' \<and> cb_ring cb w' = put_entries (nat i) es (cb_ring cb w) \<and>
    rget w' = rget w \<and> tok w' = tok w \<and> err w' = err w"
proof -
  let ?buf = "put_entries (nat i) es (cb_ring cb w)"
  have "\<forall>e \<in> set ?buf. e < 2 ^ 32"
    using ring_words [OF assms(1)] assms(4)
    by (auto simp: put_entries_def dest: in_set_takeD in_set_dropD)
  from set_ring [OF assms(1) _ this]
  show ?thesis using assms(2,3) by (simp add: write_entries_def put_entries_def Let_def)
qed

lemma linked_extend:
  assumes "linked hl w cs" "I w'" "rget w' = rget w" "tok w' = tok w" "0 \<le> q"
    "fifo pl (cb_ring cb w') u (nat (h_get hl)) (nat q) (cs @ ds)"
  shows "linked (hl\<lparr>h_put := q\<rparr>) w' (cs @ ds)"
proof -
  obtain k where "k \<le> length cs" "rget w = after (nat (h_get hl)) (take k cs)"
    "tok w = token_after (take k cs) (last_token_read hl)"
    using assms(1) unfolding linked_def by blast
  then have "k \<le> length (cs @ ds) \<and> rget w' = after (nat (h_get hl)) (take k (cs @ ds)) \<and>
      tok w' = token_after (take k (cs @ ds)) (last_token_read hl)"
    using assms(3,4) by simp
  then show ?thesis using assms(1,2,5,6) unfolding linked_def by auto
qed

lemma jump0_words: "\<forall>e \<in> set jump0. e < 2 ^ 32"
  by (simp add: jump0_def)

lemma write_jump_linked:
  assumes l: "linked hl w cs" and g: "0 < h_get hl" "h_get hl \<le> h_put hl"
  shows "\<exists>w'. write_jump cb hl w = Some w' \<and> linked (hl\<lparr>h_put := 0\<rparr>) w' (cs @ [jump0]) \<and> err w' = err w"
proof -
  have f: "fifo pl (cb_ring cb w) u (nat (h_get hl)) (nat (h_put hl)) cs" "I w" "0 \<le> h_put hl"
    using l by (auto simp: linked_def)
  then have "nat (h_put hl) + length jump0 \<le> length (cb_ring cb w)" by (simp add: fifo_def)
  then obtain w' where w': "write_entries cb (h_put hl) jump0 w = Some w'" "I w'"
    "cb_ring cb w' = put_entries (nat (h_put hl)) jump0 (cb_ring cb w)" "rget w' = rget w"
    "tok w' = tok w" "err w' = err w"
    using write_entries_ring [OF f(2,3) _ jump0_words] by blast
  have "fifo pl (cb_ring cb w') u (nat (h_get hl)) (nat 0) (cs @ [jump0])"
    using fifo_wrap [OF f(1)] g w'(3) by simp
  then show ?thesis using linked_extend [OF l w'(2,4,5), of 0] w'(1,6) by (simp add: write_jump_def Jump_Init_0)
qed

lemma advanced_jump: "advanced hl cs (hl\<lparr>h_put := q\<rparr>) (cs @ [jump0])"
  by (simp add: advanced_def tokens_def commands_def token_after_def)

lemma AvailableEntries_room:
  assumes "linked hl w cs"
  shows "AvailableEntries hl = int (room u (nat (h_get hl)) (nat (h_put hl)))"
proof -
  have l: "usable_entry_count hl = int u" "0 \<le> h_get hl" "0 \<le> h_put hl"
    and f: "fifo pl (cb_ring cb w) u (nat (h_get hl)) (nat (h_put hl)) cs"
    using assms by (auto simp: linked_def)
  have b: "h_put hl < int u" "h_get hl \<le> int u" using f l by (auto simp: fifo_def)
  show ?thesis
  proof (cases "h_get hl \<le> h_put hl")
    case True
    have "(h_get hl - h_put hl - 1 + int u) mod int u = h_get hl - h_put hl - 1 + int u"
      using True b l by (intro mod_pos_pos_trivial) auto
    then show ?thesis using True b l by (simp add: AvailableEntries_def crem_def room_def nat_le_eq_zle)
  next
    case False
    have "(h_get hl - h_put hl - 1 + int u) mod int u = (h_get hl - h_put hl - 1) mod int u" by simp
    also have "\<dots> = h_get hl - h_put hl - 1"
      using False b l by (intro mod_pos_pos_trivial) auto
    finally show ?thesis using False b l
      by (simp add: AvailableEntries_def crem_def room_def nat_le_eq_zle nat_diff_distrib)
  qed
qed

text \<open>
  \<open>WaitForAvailableEntries\<close> returns; unless the service is in error there then is room for the
  entries, contiguous from the put offset.
\<close>

definition has_room :: "nat \<Rightarrow> helper \<Rightarrow> bool" where
  "has_room n hl \<longleftrightarrow> nat (h_put hl) + n \<le> u \<and> n \<le> room u (nat (h_get hl)) (nat (h_put hl))"

lemma wait_space_linked:
  assumes l: "linked hl w cs" and n: "nat (h_put hl) + n \<le> u" "n < u"
  shows "\<exists>ok hl' w' cs'. flush_until (\<lambda>hl. \<not> AvailableEntries hl < int n) cb hl w = Some (ok, hl', w') \<and>
    linked hl' w' cs' \<and> advanced hl cs hl' cs' \<and> (if ok then has_room n hl' else err w' \<noteq> kNoError)"
proof -
  have stop: "\<not> AvailableEntries h < int n"
    if "h_get h = h_put hl" "h_put h = h_put hl" "usable_entry_count h = int u" for h
  proof -
    have "(int u - 1) mod int u = int u - 1" using n(2) by (intro mod_pos_pos_trivial) auto
    then have "AvailableEntries h = int u - 1"
      using that n(2) by (simp add: AvailableEntries_def crem_def)
    then show ?thesis using n(2) by simp
  qed
  obtain ok hl' w' cs' where r: "flush_until (\<lambda>hl. \<not> AvailableEntries hl < int n) cb hl w = Some (ok, hl', w')"
    "linked hl' w' cs'" "advanced hl cs hl' cs'" "h_put hl' = h_put hl"
    "if ok then \<not> AvailableEntries hl' < int n else err w' \<noteq> kNoError"
    using flush_until_linked [of hl w cs "\<lambda>hl. \<not> AvailableEntries hl < int n", OF l stop] by blast
  have "if ok then has_room n hl' else err w' \<noteq> kNoError"
    using r(5) n(1) AvailableEntries_room [OF r(2)] r(4) by (auto simp: has_room_def)
  then show ?thesis using r by blast
qed

lemma wait_flush_linked:
  assumes l: "linked hl w cs" and n: "nat (h_put hl) + n \<le> u" "n < u"
  shows "\<exists>hl' w' cs'. (do {
       (ok, hl, w) \<leftarrow> flush_until (\<lambda>hl. \<not> AvailableEntries hl < int n) cb hl w;
       if \<not> ok then Some (hl, w)
       else do {
         let pending = crem (h_put hl + usable_entry_count hl - last_put_sent hl) (usable_entry_count hl);
         let limit = usable_entry_count hl div (if h_get hl = last_put_sent hl then 16 else 2);
         if pending > limit then Helper_Flush cb hl w else Some (hl, w)
       }
     }) = Some (hl', w') \<and> linked hl' w' cs' \<and> advanced hl cs hl' cs' \<and>
     (err w' \<noteq> kNoError \<or> has_room n hl')"
proof -
  obtain ok h1 w1 c1 where r: "flush_until (\<lambda>hl. \<not> AvailableEntries hl < int n) cb hl w = Some (ok, h1, w1)"
    "linked h1 w1 c1" "advanced hl cs h1 c1" "if ok then has_room n h1 else err w1 \<noteq> kNoError"
    using wait_space_linked [OF assms] by blast
  obtain w2 where f: "Helper_Flush cb h1 w1 = Some (h1\<lparr>last_put_sent := h_put h1\<rparr>, w2)"
    "linked (h1\<lparr>last_put_sent := h_put h1\<rparr>) w2 c1" using Helper_Flush_linked [OF r(2)] by blast
  have a: "advanced hl cs (h1\<lparr>last_put_sent := h_put h1\<rparr>) c1"
    using advanced_trans [OF r(3) advanced_flush] .
  show ?thesis
  proof (cases ok)
    case False
    then show ?thesis using r by auto
  next
    case ok: True
    have hr: "has_room n h1" "has_room n (h1\<lparr>last_put_sent := h_put h1\<rparr>)"
      using r(4) ok by (simp_all add: has_room_def)
    show ?thesis
    proof (cases "crem (h_put h1 + usable_entry_count h1 - last_put_sent h1) (usable_entry_count h1) >
        usable_entry_count h1 div (if h_get h1 = last_put_sent h1 then 16 else 2)")
      case True
      then show ?thesis using r(1) ok f hr(2) a
        by (intro exI [of _ "h1\<lparr>last_put_sent := h_put h1\<rparr>"] exI [of _ w2] exI [of _ c1])
          (simp add: Let_def)
    next
      case False
      then show ?thesis using r(1-3) ok hr(1)
        by (intro exI [of _ h1] exI [of _ w1] exI [of _ c1]) (simp add: Let_def)
    qed
  qed
qed

lemma WaitForAvailableEntries_linked:
  assumes l: "linked hl w cs" and n: "0 < n" "n < u"
  shows "\<exists>hl' w' cs'. WaitForAvailableEntries cb (int n) hl w = Some (hl', w') \<and> linked hl' w' cs' \<and>
    advanced hl cs hl' cs' \<and> (err w' \<noteq> kNoError \<or> has_room n hl')"
proof -
  have u: "usable_entry_count hl = int u" "0 \<le> h_put hl" using l by (auto simp: linked_def)
  show ?thesis
  proof (cases "h_put hl + int n > usable_entry_count hl")
    case False
    then have "nat (h_put hl) + n \<le> u" using u by linarith
    from wait_flush_linked [OF l this n(2)] show ?thesis
      using False u n(2) by (simp add: WaitForAvailableEntries_def)
  next
    case True
    then have p1: "1 \<le> h_put hl" using u n(2) by linarith
    let ?stop = "\<lambda>hl. \<not> (h_get hl > h_put hl \<or> h_get hl = 0)"
    have "?stop h" if "h_get h = h_put hl" "h_put h = h_put hl" "usable_entry_count h = int u" for h
      using that p1 by auto
    from flush_until_linked [of hl w cs ?stop, OF l this]
    obtain ok h1 w1 c1 where r: "flush_until ?stop cb hl w = Some (ok, h1, w1)" "linked h1 w1 c1"
      "advanced hl cs h1 c1" "h_put h1 = h_put hl" "if ok then ?stop h1 else err w1 \<noteq> kNoError" by blast
    show ?thesis
    proof (cases ok)
      case False
      then have "WaitForAvailableEntries cb (int n) hl w = Some (h1, w1)"
        using True p1 u n(2) r(1) by (simp add: WaitForAvailableEntries_def)
      then show ?thesis using r False by auto
    next
      case ok: True
      have "0 \<le> h_get h1" using r(2) by (simp add: linked_def)
      then have g: "0 < h_get h1" "h_get h1 \<le> h_put h1" using r(5) ok by auto
      obtain w2 where w2: "write_jump cb h1 w1 = Some w2" "linked (h1\<lparr>h_put := 0\<rparr>) w2 (c1 @ [jump0])"
        using write_jump_linked [OF r(2) g] by blast
      have "nat (h_put (h1\<lparr>h_put := 0\<rparr>)) + n \<le> u" using n by simp
      from wait_flush_linked [OF w2(2) this n(2)]
      obtain h3 w3 c3 where x: "(do {
          (ok, hl, w) \<leftarrow> flush_until (\<lambda>hl. \<not> AvailableEntries hl < int n) cb (h1\<lparr>h_put := 0\<rparr>) w2;
          if \<not> ok then Some (hl, w)
          else do {
            let pending = crem (h_put hl + usable_entry_count hl - last_put_sent hl) (usable_entry_count hl);
            let limit = usable_entry_count hl div (if h_get hl = last_put_sent hl then 16 else 2);
            if pending > limit then Helper_Flush cb hl w else Some (hl, w)
          }
        }) = Some (h3, w3)" "linked h3 w3 c3" "advanced (h1\<lparr>h_put := 0\<rparr>) (c1 @ [jump0]) h3 c3"
        "err w3 \<noteq> kNoError \<or> has_room n h3" by blast
      have "WaitForAvailableEntries cb (int n) hl w = Some (h3, w3)"
        using True p1 u n(2) r(1) ok w2(1) x(1) by (simp add: WaitForAvailableEntries_def)
      moreover have "advanced hl cs h3 c3"
        using advanced_trans [OF r(3) advanced_trans [OF advanced_jump x(3)]] .
      ultimately show ?thesis using x by blast
    qed
  qed
qed

text \<open>
  A command is written: either the service is in error after the wait, or the command stands at the
  end of the queue.
\<close>

definition appended :: "helper \<Rightarrow> uint32 list list \<Rightarrow> uint32 list \<Rightarrow> helper \<Rightarrow> uint32 list list \<Rightarrow> bool" where
  "appended hl cs es hl' cs' \<longleftrightarrow>
     (\<exists>cs1. suffix cs1 (commands cs) \<and> commands cs' = cs1 @ [es]) \<and> h_token hl' = h_token hl \<and>
     (\<forall>t t'. tokens t hl cs \<longrightarrow>
        (if header_command (hd es) = 1 then t < to_int32 (es ! 1) \<and> t' = to_int32 (es ! 1) else t' = t) \<longrightarrow>
        tokens t' hl' cs')"

lemma tokens_snoc:
  assumes "tokens t hl cs" "h_get hl' = h_get hl" "last_token_read hl' = last_token_read hl"
    "if header_command (hd es) = 1 then t < to_int32 (es ! 1) \<and> t' = to_int32 (es ! 1) else t' = t"
    "toks ds = []"
  shows "tokens t' hl' (cs @ es # ds)"
proof -
  have tk: "toks (cs @ es # ds) = toks cs @ (if header_command (hd es) = 1 then [to_int32 (es ! 1)] else [])"
    using assms(5) by (simp add: toks_def)
  have s: "sorted_wrt (<) (last_token_read hl # toks cs)" "last (last_token_read hl # toks cs) = t"
    using assms(1) by (auto simp: tokens_def token_after_def)
  have "x \<le> t" if "x \<in> set (last_token_read hl # toks cs)" for x
  proof -
    have ne: "last_token_read hl # toks cs \<noteq> []" by simp
    have "sorted_wrt (<) (butlast (last_token_read hl # toks cs) @ [t])"
      using s append_butlast_last_id [OF ne] by metis
    moreover have "set (last_token_read hl # toks cs) = set (butlast (last_token_read hl # toks cs) @ [t])"
      using s append_butlast_last_id [OF ne] by metis
    ultimately show ?thesis using that unfolding sorted_wrt_append by force
  qed
  then show ?thesis using assms(3,4) s unfolding tokens_def token_after_def tk
    by (cases "header_command (hd es) = 1") (fastforce simp: sorted_wrt_append)+
qed

lemma GetSpace_put:
  assumes "linked hl w cs" "nat (h_put hl) + n \<le> u"
  shows "to_int32 (add32 (to_uint32 (h_put hl)) n) = h_put hl + int n"
proof -
  have p: "0 \<le> h_put hl" using assms(1) by (simp add: linked_def)
  have ub: "u < 2 ^ 30" using assms(1) u_bound by (auto simp: linked_def)
  have "n < 2 ^ 32" using assms(2) ub by simp
  then have "to_uint32 (int n) = n" by (simp add: to_uint32_def)
  then show ?thesis using to_int32_add [of "h_put hl" "int n"] p assms(2) ub by simp
qed

lemma emit_linked:
  assumes l: "linked hl w cs" and c: "is_command pl es" and n: "n = length es" "n < u"
  shows "(\<exists>hl' w' cs'. (do { (space, hl, w) \<leftarrow> GetSpace cb n hl w; w \<leftarrow> write_entries cb space es w;
        Some (hl, w) }) = Some (hl', w') \<and> linked hl' w' cs' \<and> appended hl cs es hl' cs') \<or>
    (\<exists>hl' w'. WaitForAvailableEntries cb (int n) hl w = Some (hl', w') \<and> err w' \<noteq> kNoError)"
proof -
  have n0: "0 < n" using c n(1) by (simp add: is_command_def)
  obtain h1 w1 c1 where r: "WaitForAvailableEntries cb (int n) hl w = Some (h1, w1)" "linked h1 w1 c1"
    "advanced hl cs h1 c1" "err w1 \<noteq> kNoError \<or> has_room n h1"
    using WaitForAvailableEntries_linked [OF l n0 n(2)] by blast
  show ?thesis
  proof (cases "has_room n h1")
    case False
    then show ?thesis using r by blast
  next
    case room: True
    have u1: "usable_entry_count h1 = int u" "0 \<le> h_put h1" "0 \<le> h_get h1" "I w1"
      and f: "fifo pl (cb_ring cb w1) u (nat (h_get h1)) (nat (h_put h1)) c1"
      using r(2) by (auto simp: linked_def)
    have rm: "nat (h_put h1) + n \<le> u" "length es \<le> room u (nat (h_get h1)) (nat (h_put h1))"
      using room n(1) by (auto simp: has_room_def)
    have len: "length (cb_ring cb w1) = u + 2" using f by (simp add: fifo_def)
    have words: "\<forall>e \<in> set es. e < 2 ^ 32" using c by (simp add: is_command_def)
    note put = GetSpace_put [OF r(2) rm(1)]
    have ti: "to_int32 n = int n" using to_int32_of_nat n(2) u_bound [OF u1(4)] by simp
    obtain s where s: "suffix (commands c1) (commands cs)" "h_token h1 = h_token hl"
      "\<forall>t. tokens t hl cs \<longrightarrow> tokens t h1 c1" using r(3) by (auto simp: advanced_def)
    have es2: "commands [es] = [es]" "commands [es, jump0] = [es]"
      using c no_jump by (auto simp: commands_def is_command_def no_jumps_def)
    have app: "appended hl cs es (h1\<lparr>h_put := q\<rparr>) (c1 @ es # ds)" if "ds = [] \<or> ds = [jump0]" for q ds
    proof -
      have "commands (es # ds) = [es]" "toks ds = []" using that es2 by (auto simp: toks_def)
      then have "commands (c1 @ es # ds) = commands c1 @ [es]" by simp
      then show ?thesis unfolding appended_def using s tokens_snoc [of _ h1 c1 "h1\<lparr>h_put := q\<rparr>" es _ ds]
        \<open>toks ds = []\<close> by auto
    qed
    show ?thesis
    proof (cases "nat (h_put h1) + n = u")
      case False
      then have q: "nat (h_put h1) + length es < u" using rm(1) n(1) by simp
      obtain w2 where w2: "write_entries cb (h_put h1) es w1 = Some w2" "I w2"
        "cb_ring cb w2 = put_entries (nat (h_put h1)) es (cb_ring cb w1)" "rget w2 = rget w1" "tok w2 = tok w1"
        using write_entries_ring [OF u1(4,2) _ words] q len by auto
      have e: "nat (h_put h1 + int n) = nat (h_put h1) + length es" using u1(2) n(1) by linarith
      have "fifo pl (cb_ring cb w2) u (nat (h_get h1)) (nat (h_put h1 + int n)) (c1 @ [es])"
        using fifo_add [OF f c rm(2) q] w2(3) e by simp
      then have lk: "linked (h1\<lparr>h_put := h_put h1 + int n\<rparr>) w2 (c1 @ [es])"
        by (rule linked_extend [OF r(2) w2(2,4,5), rotated]) (use u1(2) in simp)
      have "h_put h1 + int n < int u" using q n(1) u1(2) by linarith
      then have "(do { (space, hl, w) \<leftarrow> GetSpace cb n hl w; w \<leftarrow> write_entries cb space es w; Some (hl, w) }) =
          Some (h1\<lparr>h_put := h_put h1 + int n\<rparr>, w2)"
        using r(1) put u1(1) w2(1) by (simp add: GetSpace_def ti Let_def)
      then show ?thesis using lk app [of "[]" "h_put h1 + int n"] by blast
    next
      case True
      then have q: "nat (h_put h1) + length es = u" using n(1) by simp
      have pu: "h_put h1 + int n = int u" using True u1(2) by linarith
      obtain w2 where w2: "write_entries cb (int u) jump0 w1 = Some w2" "I w2"
        "cb_ring cb w2 = put_entries u jump0 (cb_ring cb w1)" "rget w2 = rget w1" "tok w2 = tok w1"
        using write_entries_ring [OF u1(4), of "int u" jump0] jump0_words len by auto
      have len2: "length (cb_ring cb w2) = u + 2" using w2(3) len by simp
      obtain w3 where w3: "write_entries cb (h_put h1) es w2 = Some w3" "I w3"
        "cb_ring cb w3 = put_entries (nat (h_put h1)) es (cb_ring cb w2)" "rget w3 = rget w2" "tok w3 = tok w2"
        using write_entries_ring [OF w2(2) u1(2) _ words] q len2 by auto
      have "fifo pl (cb_ring cb w3) u (nat (h_get h1)) (nat 0) (c1 @ [es, jump0])"
        using fifo_add_end [OF f c rm(2) q] w2(3) w3(3) by simp
      then have lk: "linked (h1\<lparr>h_put := 0\<rparr>) w3 (c1 @ [es, jump0])"
        by (rule linked_extend [OF r(2) w3(2), rotated 3]) (use w2 w3 in simp_all)
      have "(do { (space, hl, w) \<leftarrow> GetSpace cb n hl w; w \<leftarrow> write_entries cb space es w; Some (hl, w) }) =
          Some (h1\<lparr>h_put := 0\<rparr>, w3)"
        using r(1) put u1(1) pu w2(1) w3(1) by (simp add: GetSpace_def ti Let_def write_jump_def Jump_Init_0)
      then show ?thesis using lk app [of "[jump0]" 0] by blast
    qed
  qed
qed

section \<open>Commands, tokens and finishing\<close>

lemma GetCmdSpace_linked:
  assumes "linked hl w cs" "is_command pl es" "ComputeNumEntries sizeof_T = length es" "length es < u"
  shows "(\<exists>hl' w' cs'. GetCmdSpace cb sizeof_T (Some es) hl w = Some (hl', w') \<and> linked hl' w' cs' \<and>
      appended hl cs es hl' cs') \<or>
    (\<exists>hl' w'. WaitForAvailableEntries cb (int (length es)) hl w = Some (hl', w') \<and> err w' \<noteq> kNoError)"
  using emit_linked [OF assms(1,2) refl assms(4)] by (simp add: GetCmdSpace_def assms(3))

lemma is_command_SetToken:
  "SetToken_Init t = Some es \<Longrightarrow> t < 2 ^ 32 \<Longrightarrow>
     is_command pl es \<and> length es = 2 \<and> es ! 1 = t \<and> header_command (hd es) = 1"
  using set_token_plain
  by (auto simp: SetToken_Init_eq is_command_def header_command_def header_size_def)

text \<open>Inserting the next token, as long as the counter does not wrap.\<close>

lemma InsertToken_linked:
  assumes l: "linked hl w cs" and t: "tokens (h_token hl) hl cs" "0 \<le> h_token hl" "h_token hl + 1 < 2 ^ 31"
    and u: "2 < u"
  shows "(\<exists>hl' w' cs' es. InsertToken cb hl w = Some (h_token hl + 1, hl', w') \<and> linked hl' w' cs' \<and>
      h_token hl' = h_token hl + 1 \<and> tokens (h_token hl') hl' cs' \<and>
      SetToken_Init (to_uint32 (h_token hl + 1)) = Some es \<and>
      (\<exists>cs1. suffix cs1 (commands cs) \<and> commands cs' = cs1 @ [es])) \<or>
    (\<exists>hl' w'. WaitForAvailableEntries cb 2 (hl\<lparr>h_token := h_token hl + 1\<rparr>) w = Some (hl', w') \<and> err w' \<noteq> kNoError)"
proof -
  let ?t = "h_token hl + 1" and ?hl = "hl\<lparr>h_token := h_token hl + 1\<rparr>"
  have m: "?t mod 2 ^ 31 = ?t" using t by (intro mod_pos_pos_trivial) auto
  have tu: "to_int32 (to_uint32 ?t) = ?t" using t by (intro to_int32_to_uint32) auto
  obtain es where es: "SetToken_Init (to_uint32 ?t) = Some es" by (simp add: SetToken_Init_eq)
  note c = is_command_SetToken [OF es to_uint32_bound]
  have l': "linked ?hl w cs" "tokens (h_token hl) ?hl cs" using l t by (simp_all add: linked_def tokens_def)
  have n: "ComputeNumEntries 8 = length es" using c by (simp add: ComputeNumEntries_def sub32_def)
  show ?thesis
  proof (cases "\<exists>hl' w'. WaitForAvailableEntries cb (int (length es)) ?hl w = Some (hl', w') \<and> err w' \<noteq> kNoError")
    case True
    then show ?thesis using c by auto
  next
    case False
    then obtain hl' w' cs' where g: "GetCmdSpace cb 8 (Some es) ?hl w = Some (hl', w')" "linked hl' w' cs'"
      "appended ?hl cs es hl' cs'"
      using GetCmdSpace_linked [OF l'(1) _ n] c u by auto
    have "h_token hl' = ?t" using g(3) by (simp add: appended_def)
    moreover have "tokens ?t hl' cs'"
      using g(3) l'(2) c tu unfolding appended_def by auto
    moreover have "InsertToken cb hl w = Some (?t, hl', w')"
      using g(1) m es \<open>h_token hl' = ?t\<close> t(2) by (simp add: InsertToken_def Let_def)
    ultimately show ?thesis using g(2,3) es unfolding appended_def by auto
  qed
qed

lemma fifo_same: "fifo pl buf u g g cs \<Longrightarrow> cs = []"
  using seg_le by (cases cs) (fastforce simp: fifo_def)+

lemma wait_token_linked:
  assumes "linked hl w cs" "tokens newest hl cs" "t \<le> newest"
  shows "\<exists>hl' w' cs'. wait_token cb t hl w = Some (hl', w') \<and> linked hl' w' cs' \<and> advanced hl cs hl' cs' \<and>
    (t \<le> last_token_read hl' \<or> err w' \<noteq> kNoError)"
  using assms
proof (induction "length cs" arbitrary: hl w cs rule: less_induct)
  case less
  show ?case
  proof (cases "last_token_read hl < t")
    case False
    then have "wait_token cb t hl w = Some (hl, w)" by (subst wait_token.simps) simp
    then show ?thesis using less.prems(1) False advanced_refl by fastforce
  next
    case True
    have ne: "cs \<noteq> []" using True less.prems(2,3) by (auto simp: tokens_def token_after_def)
    have gp: "h_get hl \<noteq> h_put hl"
    proof
      assume "h_get hl = h_put hl"
      then have "fifo pl (cb_ring cb w) u (nat (h_put hl)) (nat (h_put hl)) cs"
        using less.prems(1) by (simp add: linked_def)
      then show False using fifo_same ne by blast
    qed
    obtain ok hl' w' j where f: "Helper_FlushSync cb hl w = Some (ok, hl', w')" "j \<le> length cs"
      "linked hl' w' (drop j cs)" "advanced hl cs hl' (drop j cs)"
      "ok \<longleftrightarrow> err w' = kNoError" "ok \<Longrightarrow> cs \<noteq> [] \<Longrightarrow> 0 < j"
      using Helper_FlushSync_linked [OF less.prems(1)] by metis
    show ?thesis
    proof (cases ok)
      case False
      then have "wait_token cb t hl w = Some (hl', w')"
        using f(1) True gp by (subst wait_token.simps) simp
      moreover have "err w' \<noteq> kNoError" using False f(5) by simp
      ultimately show ?thesis using f(3,4) by blast
    next
      case ok: True
      then have "length (drop j cs) < length cs" using f(6) ne by (cases cs) auto
      moreover have "tokens newest hl' (drop j cs)" using f(4) less.prems(2) by (simp add: advanced_def)
      ultimately obtain h2 w2 c2 where r: "wait_token cb t hl' w' = Some (h2, w2)" "linked h2 w2 c2"
        "advanced hl' (drop j cs) h2 c2" "t \<le> last_token_read h2 \<or> err w2 \<noteq> kNoError"
        using less.hyps [OF _ f(3) _ less.prems(3)] by blast
      have "wait_token cb t hl w = Some (h2, w2)"
        using True gp f(1) ok r(1) by (subst wait_token.simps) simp
      then show ?thesis using r(2,4) advanced_trans [OF f(4) r(3)] by blast
    qed
  qed
qed

lemma Finish_linked:
  assumes "linked hl w cs"
  shows "\<exists>ok hl' w' cs'. Finish cb hl w = Some (ok, hl', w') \<and> linked hl' w' cs' \<and> advanced hl cs hl' cs' \<and>
    (if ok then cs' = [] \<and> h_get hl' = h_put hl' else err w' \<noteq> kNoError)"
proof -
  obtain ok h1 w1 j where f: "Helper_FlushSync cb hl w = Some (ok, h1, w1)" "linked h1 w1 (drop j cs)"
    "advanced hl cs h1 (drop j cs)" "ok \<longleftrightarrow> err w1 = kNoError"
    using Helper_FlushSync_linked [OF assms] by metis
  show ?thesis
  proof (cases ok)
    case False
    then have "Finish cb hl w = Some (False, h1, w1)" using f(1) by (simp add: Finish_def)
    then show ?thesis using f False by auto
  next
    case True
    obtain ok2 h2 w2 c2 where r: "flush_until (\<lambda>hl. h_put hl = h_get hl) cb h1 w1 = Some (ok2, h2, w2)"
      "linked h2 w2 c2" "advanced h1 (drop j cs) h2 c2"
      "if ok2 then h_put h2 = h_get h2 else err w2 \<noteq> kNoError"
      using flush_until_linked [OF f(2), of "\<lambda>hl. h_put hl = h_get hl"] by auto
    have "c2 = []" if "h_put h2 = h_get h2"
      using r(2) that fifo_same by (auto simp: linked_def)
    moreover have "Finish cb hl w = Some (ok2, h2, w2)" using f(1) True r(1) by (simp add: Finish_def)
    ultimately show ?thesis using r advanced_trans [OF f(3) r(3)]
      by (intro exI [of _ ok2] exI [of _ h2] exI [of _ w2] exI [of _ c2]) auto
  qed
qed

end

end
