(* ===== verification/GpuChannel.thy ===== *)
theory GpuChannel
  imports GpuScheduler CommandFifo
begin

text \<open>
  The two sides together: the client of \<open>CmdBufferHelper\<close> flushes into a \<open>CommandBufferService\<close> whose
  callback is \<open>GpuScheduler::PutChanged\<close>. The service is shown to be the \<open>command_channel\<close> the client
  relies on, for the commands that do not move the get offset themselves, and with that the
  properties of the whole channel follow.
\<close>

section \<open>The service as a client sees it\<close>

definition gpu_command_buffer ::
  "('a gpu_scheduler_scheme \<Rightarrow> bool) \<Rightarrow> 'a gpu_scheduler_scheme command_buffer" where
  "gpu_command_buffer MakeCurrent =
     \<lparr>cb_GetRingBuffer = GetRingBuffer, cb_GetState = GetState,
      cb_Flush = Flush (PutChanged MakeCurrent (DoCommonCommand scheduler_engine)),
      cb_FlushSync = FlushSync (PutChanged MakeCurrent (DoCommonCommand scheduler_engine)),
      cb_ring = ring, cb_set_ring = (\<lambda>buf w. w\<lparr>ring := buf\<rparr>)\<rparr>"

text \<open>The commands that leave the get offset to the parser.\<close>

definition plain :: "uint32 list \<Rightarrow> bool" where
  "plain c \<longleftrightarrow> header_command (hd c) \<in> {0, 1, 7, 8, 9, 10, 11, 12} \<and>
     (header_command (hd c) = 1 \<longrightarrow> length c = 2)"

text \<open>A service that is initialized for a ring of \<open>u\<close> entries and a jump, and is scheduled.\<close>

definition served :: "nat \<Rightarrow> 'a gpu_scheduler_scheme \<Rightarrow> bool" where
  "served u w \<longleftrightarrow> gpu_ok w \<and> get_offset w = parser_get w \<and> has_parser w \<and>
     put_offset_change_callback w \<and> entry_count w = int u + 2 \<and> num_entries w = int u + 2 \<and>
     length (ring w) = u + 2 \<and> unscheduled_count w = 0 \<and> 0 < commands_per_update w \<and> u < 2 ^ 30"

lemma no_jumps_plain: "no_jumps plain"
  by (auto simp: no_jumps_def plain_def)

lemma gpu_ok_cong:
  assumes "gpu_ok w" "registered_objects v = registered_objects w"
    "unused_registered_object_elements v = unused_registered_object_elements w"
    "view v = view w" "region v = region w" "entry_count v = entry_count w"
    "num_entries v = num_entries w" "unscheduled_count v = unscheduled_count w"
    "ring v = ring w" "buckets v = buckets w" "call_stack v = call_stack w"
    "0 \<le> parser_get v" "parser_get v < entry_count v"
  shows "gpu_ok v"
  using assms gpu_J_cong [of w v] by (simp add: gpu_ok_J parser_ok_def)

lemma served_cong:
  assumes "served u w" "registered_objects v = registered_objects w"
    "unused_registered_object_elements v = unused_registered_object_elements w"
    "view v = view w" "region v = region w" "entry_count v = entry_count w"
    "num_entries v = num_entries w" "unscheduled_count v = unscheduled_count w"
    "ring v = ring w" "buckets v = buckets w" "call_stack v = call_stack w"
    "0 \<le> parser_get v" "parser_get v < entry_count v" "get_offset v = parser_get v"
    "has_parser v = has_parser w" "put_offset_change_callback v = put_offset_change_callback w"
    "commands_per_update v = commands_per_update w"
  shows "served u v"
  using assms gpu_ok_cong [of w v] by (simp add: served_def)

lemma served_get: "served u w \<Longrightarrow> 0 \<le> parser_get w \<and> parser_get w < entry_count w"
  by (simp add: served_def gpu_ok_def parser_ok_def)

section \<open>The service executes commands in order\<close>

definition ran :: "'a gpu_scheduler_scheme \<Rightarrow> uint32 list list \<Rightarrow> 'a gpu_scheduler_scheme \<Rightarrow> bool" where
  "ran w cs v \<longleftrightarrow> nat (parser_get v) = after (nat (parser_get w)) cs \<and>
     token v = token_after cs (token w) \<and> ring v = ring w \<and> parser_put v = parser_put w"

lemma ran_Nil: "ran w [] w"
  by (simp add: ran_def token_after_def)

lemma ran_append: "ran w xs v \<Longrightarrow> ran v ys x \<Longrightarrow> ran w (xs @ ys) x"
  by (simp add: ran_def token_after_append)

lemma run_command:
  assumes s: "served u w" and st: "stands_at (nat (parser_get w)) c (ring w)" "c \<noteq> []"
      "header_size (hd c) = length c" "nat (parser_get w) + length c \<le> u + 2"
    and ne: "parser_get w \<noteq> parser_put w"
    and D: "DoCommonCommand scheduler_engine (header_command (hd c)) (length c - 1) (parser_get w) w = Some (e, v)"
  shows "ProcessCommand (DoCommonCommand scheduler_engine) w = Some (e, advance e (parser_get w) (length c) v)"
proof -
  obtain h args where c: "c = h # args" using st(2) by (cases c) auto
  have ok: "parser_ok w" using s by (simp add: served_def gpu_ok_def)
  have "ring w ! nat (parser_get w) = h" using stands_at_nth [OF st(1), of 0] c by simp
  then have en: "entry (parser_get w) w = Some h" using entry_parser_ok [OF ok] by simp
  have "parser_get w + int (length c) \<le> entry_count w"
    using st(4) s served_get [OF s] by (simp add: served_def)
  then show ?thesis using ne D en st(3) c by (simp add: ProcessCommand_def Let_def advance_def)
qed

lemma run_plain:
  assumes s: "served u w" and st: "stands_at (nat (parser_get w)) c (ring w)" "c \<noteq> []"
      "header_size (hd c) = length c" "nat (parser_get w) + length c \<le> u" and pl: "plain c"
  shows "\<exists>e v. DoCommonCommand scheduler_engine (header_command (hd c)) (length c - 1) (parser_get w) w
      = Some (e, v) \<and> e \<noteq> kWaiting \<and> gpu_ok v \<and> (\<exists>r b t. v = w\<lparr>region := r, token := t, buckets := b\<rparr> \<and>
      t = token_after [c] (token w))"
proof -
  let ?g = "parser_get w"
  have g: "0 \<le> ?g" "gpu_ok w" "parser_ok w" "entry_count w = int u + 2"
    using s served_get [OF s] by (auto simp: served_def gpu_ok_def)
  have len: "?g + int (length c - 1) + 1 \<le> entry_count w" using st(2,4) g(1,4) by (cases c) auto
  have c13: "header_command (hd c) < 13" using pl by (auto simp: plain_def)
  obtain e v where D: "DoCommonCommand scheduler_engine (header_command (hd c)) (length c - 1) ?g w = Some (e, v)"
    "gpu_engine.kept w v"
    using gpu_engine.DoCommonCommand_total [OF _ g(3) c13 g(1) len] g(2) unfolding gpu_ok_J by blast
  have e: "e \<noteq> kWaiting" using DoCommonCommand_answers [OF D(1)] by auto
  have ok: "gpu_ok v" using D(2) by (simp add: gpu_ok_J gpu_engine.kept_def)
  have "\<exists>r b t. v = w\<lparr>region := r, token := t, buckets := b\<rparr> \<and> t = token_after [c] (token w)"
  proof (cases "header_command (hd c) = 1")
    case True
    then have l: "length c = 2" using pl by (simp add: plain_def)
    have "entry (?g + 1) w = Some (c ! 1)"
      using arg_stands_at [OF st(1), of 1] l g(1) by (simp add: arg_def)
    then have "v = SetToken (to_int32 (c ! 1)) w"
      using token_command [of ?g w "c ! 1" scheduler_engine] D(1) True l
      by (simp add: scheduler_engine_def)
    then have "v = w\<lparr>region := region w, token := to_int32 (c ! 1), buckets := buckets w\<rparr>"
      by (simp add: SetToken_def)
    moreover have "token_after [c] (token w) = to_int32 (c ! 1)"
      using True by (simp add: token_after_def toks_def)
    ultimately show ?thesis by metis
  next
    case False
    then have "with_data w v" using data_command [OF D(1)] pl by (auto simp: plain_def)
    then have "v = w\<lparr>region := region v, token := token w, buckets := buckets v\<rparr>"
      by (simp add: with_data_def)
    moreover have "token_after [c] (token w) = token w"
      using False by (simp add: token_after_def toks_def)
    ultimately show ?thesis by metis
  qed
  then show ?thesis using D(1) e ok by blast
qed

lemma served_command:
  assumes s: "served u w" and p: "0 \<le> parser_put w"
    and f: "fifo plain (ring w) u (nat (parser_get w)) (nat (parser_put w)) (c # cs)"
  shows "\<exists>e v. ProcessCommand (DoCommonCommand scheduler_engine) w = Some (e, v) \<and> e \<noteq> kWaiting \<and>
    served u (v\<lparr>get_offset := parser_get v\<rparr>) \<and> ran w [c] v"
proof -
  let ?g = "parser_get w"
  note fs = fifo_step [OF f no_jumps_plain]
  have g: "0 \<le> ?g" "entry_count w = int u + 2" using served_get [OF s] s by (auto simp: served_def)
  have ne: "?g \<noteq> parser_put w" using fs by auto
  have st: "stands_at (nat ?g) c (ring w)" "c \<noteq> []" "header_size (hd c) = length c"
    "nat ?g + length c \<le> u + 2" using fs by auto
  show ?thesis
  proof (cases "c = jump0")
    case True
    have gpos: "0 < ?g" using fs True by (auto simp: plain_def)
    have inv: "gpu_inv w" using s by (simp add: served_def gpu_ok_def)
    have "arg 1 ?g w = Some 0" using arg_stands_at [OF st(1), of 1] g(1) True by (simp add: jump0_def)
    then have "HandleJump scheduler_engine imm ?g w = Some (kNoError, w\<lparr>parser_get := 0, get_offset := 0\<rparr>)" for imm
      using scheduler_SetGetOffset_spec [OF inv, of 0] g(2)
      by (simp add: HandleJump_def scheduler_engine_def to_int32_def Let_def)
    then have "DoCommonCommand scheduler_engine (header_command (hd c)) (length c - 1) ?g w =
        Some (kNoError, w\<lparr>parser_get := 0, get_offset := 0\<rparr>)"
      using True by (subst DoCommonCommand.simps)
        (simp add: g_command_info_def args_match_def common_handler_def)
    from run_command [OF s st ne this]
    have "ProcessCommand (DoCommonCommand scheduler_engine) w =
        Some (kNoError, w\<lparr>parser_get := 0, get_offset := 0\<rparr>)" using gpos by (simp add: advance_def)
    moreover have "served u (w\<lparr>parser_get := 0, get_offset := 0\<rparr>)"
      by (rule served_cong [OF s]) (simp_all add: g(2))
    moreover have "ran w [c] (w\<lparr>parser_get := 0, get_offset := 0\<rparr>)"
      using True by (simp add: ran_def after_def step_def token_after_def)
    ultimately show ?thesis by (intro exI conjI) (auto simp only: simp_thms, simp_all)
  next
    case False
    then have pl: "plain c" "nat ?g + length c \<le> u" using fs by auto
    obtain e v r b t where D: "DoCommonCommand scheduler_engine (header_command (hd c)) (length c - 1) ?g w = Some (e, v)"
      "e \<noteq> kWaiting" "gpu_ok v" "v = w\<lparr>region := r, token := t, buckets := b\<rparr>" "t = token_after [c] (token w)"
      using run_plain [OF s st(1-3) pl(2,1)] by blast
    let ?q = "?g + int (length c)"
    have q: "?q mod entry_count w = ?q" using pl(2) g by (intro mod_pos_pos_trivial) auto
    have adv: "advance e ?g (length c) v = v\<lparr>parser_get := ?q\<rparr>"
      using D(2,4) q by (simp add: advance_def)
    have P: "ProcessCommand (DoCommonCommand scheduler_engine) w = Some (e, v\<lparr>parser_get := ?q\<rparr>)"
      using run_command [OF s st ne D(1)] adv by simp
    have "served u v" using s D(3,4) by (simp add: served_def)
    then have "served u (v\<lparr>parser_get := ?q, get_offset := ?q\<rparr>)"
      by (rule served_cong) (use pl(2) g D(4) in simp_all)
    moreover have "header_command (hd c) \<noteq> 2" using pl(1) no_jumps_plain by (simp add: no_jumps_def)
    then have "ran w [c] (v\<lparr>parser_get := ?q\<rparr>)"
      using D(4,5) g(1) by (simp add: ran_def after_def step_def nat_add_distrib)
    ultimately show ?thesis using P D(2) by (intro exI [of _ e] exI [of _ "v\<lparr>parser_get := ?q\<rparr>"]) simp
  qed
qed

lemma served_error: "served u w \<Longrightarrow> served u (SetParseError e w)"
  using served_get [of u w]
  by (auto simp: SetParseError_def served_def intro!: gpu_ok_cong [of w])

lemma served_other:
  "served u w \<Longrightarrow> served u (command_processed w)"
  "served u w \<Longrightarrow> served u (ScheduleProcessCommands w)"
  "served u w \<Longrightarrow> served u (w\<lparr>generation := n\<rparr>)"
  "served u w \<Longrightarrow> served u (w\<lparr>put_offset := p\<rparr>)"
  "served u w \<Longrightarrow> served u (w\<lparr>parser_put := p\<rparr>)"
  using served_get [of u w]
  by (auto simp: command_processed_def ScheduleProcessCommands_def served_def
      intro!: gpu_ok_cong [of w])

lemma ran_other:
  "ran w cs v \<Longrightarrow> ran w cs (v\<lparr>get_offset := g\<rparr>)"
  "ran w cs v \<Longrightarrow> ran w cs (SetParseError e v)"
  "ran w cs v \<Longrightarrow> ran w cs (command_processed v)"
  "ran w cs v \<Longrightarrow> ran w cs (ScheduleProcessCommands v)"
  by (simp_all add: ran_def SetParseError_def command_processed_def ScheduleProcessCommands_def)

lemma process_loop_fifo:
  assumes "served u w" "0 \<le> parser_put w"
    "fifo plain (ring w) u (nat (parser_get w)) (nat (parser_put w)) cs"
  shows "\<exists>r e' w' k. process_loop n (DoCommonCommand scheduler_engine) e w = Some (r, e', w') \<and>
    served u w' \<and> k \<le> length cs \<and> ran w (take k cs) w' \<and> (0 < n \<and> cs \<noteq> [] \<longrightarrow> 0 < k)"
  using assms
proof (induction n arbitrary: e w cs)
  case 0
  then show ?case using ran_Nil by (intro exI [of _ False] exI [of _ e] exI [of _ w] exI [of _ 0]) simp
next
  case (Suc n)
  let ?D = "DoCommonCommand scheduler_engine"
  show ?case
  proof (cases cs)
    case Nil
    then have "nat (parser_get w) = nat (parser_put w)" using fifo_Nil Suc.prems(3) by blast
    then have "parser_put w = parser_get w" using Suc.prems(2) served_get [OF Suc.prems(1)] by linarith
    then have "IsEmpty w" by (simp add: IsEmpty_def)
    then show ?thesis using Suc.prems(1) Nil ran_Nil
      by (intro exI [of _ False] exI [of _ e] exI [of _ w] exI [of _ 0]) simp
  next
    case (Cons c ds)
    note fs = fifo_step [OF Suc.prems(3) [unfolded Cons] no_jumps_plain]
    have ne: "\<not> IsEmpty w" using fs by (auto simp: IsEmpty_def)
    obtain e1 v where P: "ProcessCommand ?D w = Some (e1, v)" "e1 \<noteq> kWaiting"
      "served u (v\<lparr>get_offset := parser_get v\<rparr>)" "ran w [c] v"
      using served_command [OF Suc.prems(1,2), of c ds] Suc.prems(3) Cons by blast
    let ?v = "v\<lparr>get_offset := parser_get v\<rparr>"
    have sg: "SetGetOffset (parser_get v) v = Some ?v"
      using served_get [OF P(3)] P(3) by (simp add: SetGetOffset_def served_def)
    have un: "unscheduled_count v = 0" using P(3) by (simp add: served_def)
    note tk = take_Suc_Cons [of 0 c ds]
    consider "e1 = kYield" | "e1 \<noteq> kYield" "IsError e1" | "e1 \<noteq> kYield" "\<not> IsError e1" by blast
    then show ?thesis
    proof cases
      case 1
      then show ?thesis using ne P sg Cons ran_other(1) [OF P(4)]
        by (intro exI [of _ False] exI [of _ e1] exI [of _ ?v] exI [of _ 1]) simp
    next
      case 2
      then show ?thesis using ne P(1,2) sg Cons ran_other(2) [OF ran_other(1) [OF P(4)]] served_error [OF P(3)]
        by (intro exI [of _ True] exI [of _ e1] exI [of _ "SetParseError e1 ?v"] exI [of _ 1]) simp
    next
      case 3
      let ?x = "command_processed ?v"
      have rx: "ran w [c] ?x" using ran_other(1,3) P(4) by blast
      have x: "served u ?x" "0 \<le> parser_put ?x" using served_other(1) [OF P(3)] rx Suc.prems(2)
        by (simp_all add: ran_def)
      have "fifo plain (ring ?x) u (nat (parser_get ?x)) (nat (parser_put ?x)) ds"
        using fs rx by (simp add: ran_def after_def)
      from Suc.IH [OF x this, of e1] obtain r e' w' k where q:
        "process_loop n ?D e1 ?x = Some (r, e', w')" "served u w'" "k \<le> length ds" "ran ?x (take k ds) w'"
        by blast
      have "process_loop (Suc n) ?D e w = Some (r, e', w')"
        using ne P(1,2) sg un 3 q(1) by simp
      moreover have "ran w (take (Suc k) cs) w'" using ran_append [OF rx q(4)] Cons by simp
      ultimately show ?thesis using q(2,3) Cons
        by (intro exI [of _ r] exI [of _ e'] exI [of _ w'] exI [of _ "Suc k"]) simp
    qed
  qed
qed

lemma ProcessCommands_fifo:
  assumes s: "served u w" and p: "0 \<le> parser_put w"
    and f: "fifo plain (ring w) u (nat (parser_get w)) (nat (parser_put w)) cs"
  shows "\<exists>w' k. ProcessCommands MakeCurrent (DoCommonCommand scheduler_engine) w = Some w' \<and>
    served u w' \<and> k \<le> length cs \<and> ran w (take k cs) w' \<and>
    (svc_error w' = kNoError \<and> cs \<noteq> [] \<longrightarrow> 0 < k)"
proof -
  let ?D = "DoCommonCommand scheduler_engine"
  define v where "v = snd (GetState w)"
  have gs: "GetState w = (fst (GetState w), v)" "st_error (fst (GetState w)) = svc_error v"
    by (simp_all add: v_def GetState_def Let_def)
  have v: "served u v" "ran w [] v" using served_other(3) [OF s]
    by (simp_all add: v_def GetState_def Let_def ran_def token_after_def)
  have un: "unscheduled_count v = 0" "has_parser v" "0 < commands_per_update v" using v by (simp_all add: served_def)
  note eqs = ProcessCommands_def [of MakeCurrent ?D w] gs
  consider (err) "svc_error v \<noteq> kNoError"
    | (lost) "svc_error v = kNoError" "has_decoder v \<and> \<not> MakeCurrent v"
    | (run) "svc_error v = kNoError" "\<not> (has_decoder v \<and> \<not> MakeCurrent v)" by blast
  then show ?thesis
  proof cases
    case err
    have "ProcessCommands MakeCurrent ?D w = Some v"
      unfolding eqs(1) by (subst gs(1)) (use err gs(2) in simp)
    then show ?thesis using v err by (intro exI [of _ v] exI [of _ 0]) simp
  next
    case lost
    have "ProcessCommands MakeCurrent ?D w = Some (SetParseError kLostContext v)"
      unfolding eqs(1) by (subst gs(1)) (use lost un gs(2) in simp)
    moreover have "svc_error (SetParseError kLostContext v) \<noteq> kNoError" by (auto simp: SetParseError_def)
    ultimately show ?thesis using served_error [OF v(1)] ran_other(2) [OF v(2)]
      by (intro exI [of _ "SetParseError kLostContext v"] exI [of _ 0]) simp
  next
    case run
    have fv: "fifo plain (ring v) u (nat (parser_get v)) (nat (parser_put v)) cs" "0 \<le> parser_put v"
      using f p by (simp_all add: v_def GetState_def Let_def)
    obtain r e x k where l: "process_loop (nat (commands_per_update v)) ?D kNoError v = Some (r, e, x)"
      "served u x" "k \<le> length cs" "ran v (take k cs) x" "0 < nat (commands_per_update v) \<and> cs \<noteq> [] \<longrightarrow> 0 < k"
      using process_loop_fifo [OF v(1) fv(2,1)] by blast
    let ?w' = "if \<not> r \<and> unscheduled_count x = 0 \<and> e \<noteq> kWaiting \<and> \<not> IsEmpty x
        then ScheduleProcessCommands x else x"
    have "ProcessCommands MakeCurrent ?D w = Some ?w'"
      unfolding eqs(1) by (subst gs(1)) (use run un gs(2) l(1) in auto)
    moreover have "served u ?w'" using served_other(2) [OF l(2)] l(2) by simp
    moreover have "ran w (take k cs) ?w'"
      using ran_append [OF v(2) l(4)] ran_other(4) [OF ran_append [OF v(2) l(4)]] by simp
    ultimately show ?thesis using l(3,5) un(3) by (intro exI [of _ ?w'] exI [of _ k]) simp
  qed
qed

lemma PutChanged_fifo:
  assumes s: "served u w" and p: "put_offset w = int p"
    and f: "fifo plain (ring w) u (nat (parser_get w)) p cs"
  shows "\<exists>w' k. PutChanged MakeCurrent (DoCommonCommand scheduler_engine) sync w = Some w' \<and>
    served u w' \<and> k \<le> length cs \<and> nat (parser_get w') = after (nat (parser_get w)) (take k cs) \<and>
    token w' = token_after (take k cs) (token w) \<and> ring w' = ring w \<and>
    (svc_error w' = kNoError \<and> sync \<and> cs \<noteq> [] \<longrightarrow> 0 < k)"
proof -
  let ?D = "DoCommonCommand scheduler_engine" and ?v = "set_put (int p) (snd (GetState w))"
  have v: "served u ?v" using served_other(5) [OF served_other(3) [OF s]]
    by (simp add: set_put_def GetState_def Let_def)
  have sv: "ring ?v = ring w" "parser_get ?v = parser_get w" "parser_put ?v = int p" "token ?v = token w"
    by (simp_all add: set_put_def GetState_def Let_def)
  have hp: "has_parser w" using s by (simp add: served_def)
  have eq: "PutChanged MakeCurrent ?D sync w =
      (if sync then ProcessCommands MakeCurrent ?D ?v else Some (ScheduleProcessCommands ?v))"
    using hp p by (simp add: PutChanged_def GetState_def Let_def)
  show ?thesis
  proof (cases sync)
    case True
    have fv: "fifo plain (ring ?v) u (nat (parser_get ?v)) (nat (parser_put ?v)) cs" using f sv by simp
    have "0 \<le> parser_put ?v" using sv(3) by simp
    from ProcessCommands_fifo [OF v this fv, of MakeCurrent] obtain w' k where "ProcessCommands MakeCurrent ?D ?v = Some w'" "served u w'" "k \<le> length cs"
      "ran ?v (take k cs) w'" "svc_error w' = kNoError \<and> cs \<noteq> [] \<longrightarrow> 0 < k"
      by blast
    then show ?thesis using sv unfolding eq if_P [OF True]
      by (intro exI [of _ w'] exI [of _ k]) (simp add: ran_def)
  next
    case False
    then show ?thesis using served_other(2) [OF v] sv unfolding eq if_not_P [OF False]
      by (intro exI [of _ "ScheduleProcessCommands ?v"] exI [of _ 0])
        (simp add: ScheduleProcessCommands_def token_after_def)
  qed
qed

section \<open>The service is a command channel\<close>

lemma served_put_in_range:
  "served u w \<Longrightarrow> fifo pl (ring w) u g p cs \<Longrightarrow> 0 \<le> int p \<and> int p \<le> num_entries w"
  by (simp add: served_def fifo_def)

lemma FlushSync_fifo:
  assumes s: "served u w" and f: "fifo plain (ring w) u (nat (parser_get w)) p cs"
  shows "\<exists>st w' k. FlushSync (PutChanged MakeCurrent (DoCommonCommand scheduler_engine)) (int p) g w = Some (st, w') \<and>
    served u w' \<and> ring w' = ring w \<and> st_get_offset st = int (nat (parser_get w')) \<and> st_token st = token w' \<and>
    st_error st = svc_error w' \<and> k \<le> length cs \<and> nat (parser_get w') = after (nat (parser_get w)) (take k cs) \<and>
    token w' = token_after (take k cs) (token w) \<and>
    (svc_error w' = kNoError \<and> g = int (nat (parser_get w)) \<and> cs \<noteq> [] \<longrightarrow> 0 < k)"
proof -
  let ?w = "w\<lparr>put_offset := int p\<rparr>"
  have w: "served u ?w" using served_other(4) [OF s] by simp
  obtain v k where v: "PutChanged MakeCurrent (DoCommonCommand scheduler_engine) (g = get_offset ?w) ?w = Some v"
    "served u v" "k \<le> length cs" "nat (parser_get v) = after (nat (parser_get w)) (take k cs)"
    "token v = token_after (take k cs) (token w)" "ring v = ring w"
    "svc_error v = kNoError \<and> g = get_offset ?w \<and> cs \<noteq> [] \<longrightarrow> 0 < k"
    using PutChanged_fifo [OF w, of p cs MakeCurrent "g = get_offset ?w"] f by auto
  have g: "get_offset w = int (nat (parser_get w))" "get_offset v = int (nat (parser_get v))"
    using s v(2) served_get [OF s] served_get [OF v(2)] by (simp_all add: served_def)
  have "put_offset_change_callback w" using s by (simp add: served_def)
  then have "FlushSync (PutChanged MakeCurrent (DoCommonCommand scheduler_engine)) (int p) g w = Some (GetState v)"
    using served_put_in_range [OF s f] v(1) by (simp add: FlushSync_def Let_def)
  moreover have "served u (snd (GetState v))" using served_other(3) [OF v(2)] by (simp add: GetState_def Let_def)
  ultimately show ?thesis using v(3-7) g
    by (intro exI [of _ "fst (GetState v)"] exI [of _ "snd (GetState v)"] exI [of _ k])
      (simp add: GetState_def Let_def)
qed

lemma Flush_fifo:
  assumes s: "served u w" and f: "fifo plain (ring w) u (nat (parser_get w)) p cs"
  shows "\<exists>w' k. Flush (PutChanged MakeCurrent (DoCommonCommand scheduler_engine)) (int p) w = Some w' \<and>
    served u w' \<and> ring w' = ring w \<and> k \<le> length cs \<and>
    nat (parser_get w') = after (nat (parser_get w)) (take k cs) \<and> token w' = token_after (take k cs) (token w)"
proof -
  let ?w = "w\<lparr>put_offset := int p\<rparr>"
  have w: "served u ?w" using served_other(4) [OF s] by simp
  have "put_offset_change_callback w" using s by (simp add: served_def)
  then have eq: "Flush (PutChanged MakeCurrent (DoCommonCommand scheduler_engine)) (int p) w =
      PutChanged MakeCurrent (DoCommonCommand scheduler_engine) False ?w"
    using served_put_in_range [OF s f] by (simp add: Flush_def Let_def)
  show ?thesis using PutChanged_fifo [OF w, of p cs MakeCurrent False] f unfolding eq by auto
qed

interpretation gpu_channel: command_channel
  "gpu_command_buffer MakeCurrent" "served u" "\<lambda>w. nat (parser_get w)" token svc_error plain u
  for MakeCurrent :: "'a gpu_scheduler_scheme \<Rightarrow> bool" and u
proof
  fix w :: "'a gpu_scheduler_scheme" and p cs g and es buf :: "uint32 list"
  show "no_jumps plain" by (rule no_jumps_plain)
  show "header_command (hd es) = 1 \<Longrightarrow> length es = 2 \<Longrightarrow> plain es" by (simp add: plain_def)
  show "served u w \<Longrightarrow> u < 2 ^ 30" by (simp add: served_def)
  show "served u w \<Longrightarrow> \<forall>e \<in> set (cb_ring (gpu_command_buffer MakeCurrent) w). e < 2 ^ 32"
    by (simp add: served_def gpu_ok_def decoder_ok_def gpu_command_buffer_def)
  show "served u w \<Longrightarrow> fifo plain (cb_ring (gpu_command_buffer MakeCurrent) w) u (nat (parser_get w)) p cs \<Longrightarrow>
      \<exists>st w' k. cb_FlushSync (gpu_command_buffer MakeCurrent) (int p) g w = Some (st, w') \<and> served u w' \<and>
        cb_ring (gpu_command_buffer MakeCurrent) w' = cb_ring (gpu_command_buffer MakeCurrent) w \<and>
        st_get_offset st = int (nat (parser_get w')) \<and> st_token st = token w' \<and> st_error st = svc_error w' \<and>
        k \<le> length cs \<and> nat (parser_get w') = after (nat (parser_get w)) (take k cs) \<and>
        token w' = token_after (take k cs) (token w) \<and>
        (svc_error w' = kNoError \<and> g = int (nat (parser_get w)) \<and> cs \<noteq> [] \<longrightarrow> 0 < k)"
    unfolding gpu_command_buffer_def command_buffer.simps by (rule FlushSync_fifo)
  show "served u w \<Longrightarrow> fifo plain (cb_ring (gpu_command_buffer MakeCurrent) w) u (nat (parser_get w)) p cs \<Longrightarrow>
      \<exists>w' k. cb_Flush (gpu_command_buffer MakeCurrent) (int p) w = Some w' \<and> served u w' \<and>
        cb_ring (gpu_command_buffer MakeCurrent) w' = cb_ring (gpu_command_buffer MakeCurrent) w \<and>
        k \<le> length cs \<and> nat (parser_get w') = after (nat (parser_get w)) (take k cs) \<and>
        token w' = token_after (take k cs) (token w)"
    unfolding gpu_command_buffer_def command_buffer.simps by (rule Flush_fifo)
  show "served u w \<Longrightarrow> length buf = length (cb_ring (gpu_command_buffer MakeCurrent) w) \<Longrightarrow>
      \<forall>e \<in> set buf. e < 2 ^ 32 \<Longrightarrow>
      served u (cb_set_ring (gpu_command_buffer MakeCurrent) buf w) \<and>
      cb_ring (gpu_command_buffer MakeCurrent) (cb_set_ring (gpu_command_buffer MakeCurrent) buf w) = buf \<and>
      nat (parser_get (cb_set_ring (gpu_command_buffer MakeCurrent) buf w)) = nat (parser_get w) \<and>
      token (cb_set_ring (gpu_command_buffer MakeCurrent) buf w) = token w \<and>
      svc_error (cb_set_ring (gpu_command_buffer MakeCurrent) buf w) = svc_error w"
    using gpu_inv_cong [of "w\<lparr>ring := buf\<rparr>" w]
    by (simp add: gpu_command_buffer_def served_def gpu_ok_def parser_ok_def decoder_ok_def)
qed

section \<open>Properties of the channel\<close>

text \<open>
  \<open>connected u hl w cs\<close>: the helper \<open>hl\<close> and the service \<open>w\<close> share a ring with \<open>u\<close> usable entries in
  which the commands \<open>cs\<close> stand from the get offset the client knows to its put offset; the service
  has executed some of them that the client has not heard of. \<open>failed\<close>: the service is in error.
\<close>

definition connected :: "nat \<Rightarrow> helper \<Rightarrow> 'a gpu_scheduler_scheme \<Rightarrow> uint32 list list \<Rightarrow> bool" where
  "connected u hl w cs \<longleftrightarrow> served u w \<and> usable_entry_count hl = int u \<and> 0 \<le> h_get hl \<and> 0 \<le> h_put hl \<and>
     fifo plain (ring w) u (nat (h_get hl)) (nat (h_put hl)) cs \<and>
     (\<exists>k \<le> length cs. nat (parser_get w) = after (nat (h_get hl)) (take k cs) \<and>
        token w = token_after (take k cs) (last_token_read hl))"

definition increasing_tokens :: "helper \<Rightarrow> uint32 list list \<Rightarrow> bool" where
  "increasing_tokens hl cs \<longleftrightarrow> sorted_wrt (<) (last_token_read hl # toks cs) \<and>
     token_after cs (last_token_read hl) = h_token hl"

definition failed :: "'a gpu_scheduler_scheme \<Rightarrow> bool" where
  "failed w \<longleftrightarrow> svc_error w \<noteq> kNoError"

lemma connected_linked: "connected u hl w cs \<longleftrightarrow> gpu_channel.linked MakeCurrent u hl w cs"
  unfolding connected_def gpu_channel.linked_def by (simp add: gpu_command_buffer_def)

lemma increasing_tokens_tokens: "increasing_tokens hl cs \<longleftrightarrow> gpu_channel.tokens (h_token hl) hl cs"
  unfolding increasing_tokens_def gpu_channel.tokens_def ..

text \<open>
  C1 (refinement): the ring with its offsets is a queue. Writing a command with \<open>GetCmdSpace\<close> returns,
  whatever it has to wait for and whether it has to wrap around; it never overwrites a command that
  was not executed, and afterwards the pending commands are those that were pending, less some that
  the service has executed from the front, and the new one behind them. The only other outcome is
  that the wait for space ended because the service is in error.
\<close>

theorem channel_command_appended:
  assumes "connected u hl w cs" "plain es" "es \<noteq> []" "header_size (hd es) = length es"
    and "\<forall>e \<in> set es. e < 2 ^ 32" "ComputeNumEntries sizeof_T = length es" "length es < u"
  shows "(\<exists>hl' w' cs'. GetCmdSpace (gpu_command_buffer MakeCurrent) sizeof_T (Some es) hl w = Some (hl', w') \<and>
      connected u hl' w' cs' \<and> (\<exists>rest. suffix rest (commands cs) \<and> commands cs' = rest @ [es])) \<or>
    (\<exists>hl' w'. WaitForAvailableEntries (gpu_command_buffer MakeCurrent) (int (length es)) hl w = Some (hl', w') \<and>
      failed w')"
proof -
  have "is_command plain es" using assms(2-5) by (simp add: is_command_def)
  from gpu_channel.GetCmdSpace_linked [of MakeCurrent u hl w cs, OF _ this assms(6,7)] assms(1)
  show ?thesis unfolding connected_linked [of _ _ _ _ MakeCurrent] failed_def gpu_channel.appended_def
    by blast
qed

definition sample_helper :: helper where
  "sample_helper = CommandBufferHelper_init\<lparr>usable_entry_count := 3, last_token_read := 0\<rparr>"

lemma sample_connected: "connected 3 sample_helper (sample_gpu [0, 0, 0, 0, 0]) []"
proof -
  have "gpu_ok (sample_gpu [0, 0, 0, 0, 0])" by (rule sample_gpu_ok) simp_all
  then have "served 3 (sample_gpu [0, 0, 0, 0, 0])" by (simp add: served_def) (simp add: sample_gpu_def)
  then show ?thesis
    by (simp add: connected_def sample_helper_def CommandBufferHelper_init_def)
      (simp add: sample_gpu_def fifo_def token_after_def)
qed

lemma sample_wait:
  "WaitForAvailableEntries (gpu_command_buffer (\<lambda>_. True)) 2 sample_helper w = Some (sample_helper, w)"
  by (simp add: WaitForAvailableEntries_def sample_helper_def CommandBufferHelper_init_def
      flush_until.simps AvailableEntries_def crem_def)

theorem channel_command_appended_witness:
  "\<exists>hl' w' cs'. GetCmdSpace (gpu_command_buffer (\<lambda>_. True)) 8 (SetToken_Init 1) sample_helper
      (sample_gpu [0, 0, 0, 0, 0]) = Some (hl', w') \<and> connected 3 hl' w' cs' \<and> commands cs' = [[2097154, 1]]"
proof -
  have "plain [2097154, 1]" "header_size (hd [2097154, 1]) = length [2097154, 1]"
    by (simp_all add: plain_def header_command_def header_size_def)
  moreover have "svc_error (sample_gpu [0, 0, 0, 0, 0]) = kNoError" by (simp add: sample_gpu_def)
  ultimately show ?thesis
    using channel_command_appended [OF sample_connected, of "[2097154, 1]" 8 "\<lambda>_. True"]
    by (auto simp: sample_wait failed_def SetToken_Init_eq commands_def ComputeNumEntries_def sub32_def)
qed

lemma set_token_entries:
  assumes "SetToken_Init (to_uint32 t) = Some es" "0 \<le> t" "t < 2 ^ 31"
  shows "header_command (es ! 0) = id_of kSetToken" "to_int32 (es ! 1) = t"
proof -
  have "to_int32 (to_uint32 t) = t" using assms(2,3) by (intro to_int32_to_uint32) auto
  then show "header_command (es ! 0) = id_of kSetToken" "to_int32 (es ! 1) = t"
    using assms(1) by (auto simp: SetToken_Init_eq header_command_def)
qed

text \<open>
  C26 (functional): \<open>InsertToken\<close>, as long as the counter does not wrap, returns the next number and appends one command
  behind what the service has not yet executed: the \<open>SetToken\<close> with that number; the tokens in the ring keep increasing
  up to the newest. The other case is that the service reports an error while the helper waits for
  two free entries; then nothing is said about the result and the ring (the helper goes on as if there were room).
\<close>

theorem channel_insert_token:
  assumes "connected u hl w cs" "increasing_tokens hl cs" "0 \<le> h_token hl" "h_token hl + 1 < 2 ^ 31" "2 < u"
  shows "(\<exists>hl' w' cs' rest es. InsertToken (gpu_command_buffer MakeCurrent) hl w = Some (h_token hl + 1, hl', w') \<and>
      connected u hl' w' cs' \<and> h_token hl' = h_token hl + 1 \<and> increasing_tokens hl' cs' \<and>
      suffix rest (commands cs) \<and> commands cs' = rest @ [es] \<and>
      SetToken_Init (to_uint32 (h_token hl + 1)) = Some es \<and> header_command (es ! 0) = id_of kSetToken \<and>
      to_int32 (es ! 1) = h_token hl + 1) \<or>
    (\<exists>hl' w'. WaitForAvailableEntries (gpu_command_buffer MakeCurrent) 2 (hl\<lparr>h_token := h_token hl + 1\<rparr>) w =
      Some (hl', w') \<and> failed w')"
  using gpu_channel.InsertToken_linked [of MakeCurrent u hl w cs] assms set_token_entries [OF _ _ assms(4)]
  unfolding connected_linked [of _ _ _ _ MakeCurrent] increasing_tokens_tokens failed_def by fastforce

theorem channel_insert_token_witness:
  "\<exists>hl' w' cs'. InsertToken (gpu_command_buffer (\<lambda>_. True)) sample_helper (sample_gpu [0, 0, 0, 0, 0]) =
      Some (1, hl', w') \<and> connected 3 hl' w' cs' \<and> h_token hl' = 1 \<and> increasing_tokens hl' cs' \<and>
    (\<exists>header. commands cs' = [[header, 1]] \<and> header_command header = id_of kSetToken)"
proof -
  have h: "h_token sample_helper = 0" "increasing_tokens sample_helper []"
    by (simp_all add: sample_helper_def CommandBufferHelper_init_def increasing_tokens_def token_after_def)
  have "WaitForAvailableEntries (gpu_command_buffer (\<lambda>_. True)) 2 (sample_helper\<lparr>h_token := 1\<rparr>) w =
      Some (sample_helper\<lparr>h_token := 1\<rparr>, w)" for w :: gpu_scheduler
    by (simp add: WaitForAvailableEntries_def sample_helper_def CommandBufferHelper_init_def
      flush_until.simps AvailableEntries_def crem_def)
  moreover have "svc_error (sample_gpu [0, 0, 0, 0, 0]) = kNoError" by (simp add: sample_gpu_def)
  ultimately obtain hl' w' cs' rest es where
    r: "InsertToken (gpu_command_buffer (\<lambda>_. True)) sample_helper (sample_gpu [0, 0, 0, 0, 0]) = Some (1, hl', w')"
      "connected 3 hl' w' cs'" "h_token hl' = 1" "increasing_tokens hl' cs'"
    and e: "suffix rest (commands [])" "commands cs' = rest @ [es]" "SetToken_Init (to_uint32 1) = Some es"
      "header_command (es ! 0) = id_of kSetToken"
    using channel_insert_token [OF sample_connected h(2), of "\<lambda>_. True"]
    by (auto simp: h(1) failed_def)
  have "rest = []" using e(1) by (simp add: commands_def)
  moreover have "es = [2097154, 1]" using e(3) by (simp add: SetToken_Init_eq to_uint32_def)
  ultimately have "commands cs' = [[2097154, 1]]" "header_command 2097154 = id_of kSetToken" using e(2,4) by simp_all
  then show ?thesis using r by blast
qed

text \<open>
  C24 (liveness): waiting for a token that was inserted returns, after the service has passed it: the
  token the client then knows is at least the awaited one, unless the service is in error. The wait
  never meets an empty buffer, which would abort the client.
\<close>

theorem channel_wait_for_token:
  assumes "connected u hl w cs" "increasing_tokens hl cs" "t \<le> h_token hl"
  shows "\<exists>hl' w' cs'. WaitForToken (gpu_command_buffer MakeCurrent) t hl w = Some (hl', w') \<and>
    connected u hl' w' cs' \<and> suffix (commands cs') (commands cs) \<and> increasing_tokens hl' cs' \<and>
    (t < 0 \<or> t \<le> last_token_read hl' \<or> failed w')"
proof (cases "t < 0")
  case True
  then have "WaitForToken (gpu_command_buffer MakeCurrent) t hl w = Some (hl, w)" by (simp add: WaitForToken_def)
  then show ?thesis using assms True by blast
next
  case False
  obtain hl' w' cs' where r: "wait_token (gpu_command_buffer MakeCurrent) t hl w = Some (hl', w')"
    "gpu_channel.linked MakeCurrent u hl' w' cs'" "gpu_channel.advanced hl cs hl' cs'"
    "t \<le> last_token_read hl' \<or> svc_error w' \<noteq> kNoError"
    using gpu_channel.wait_token_linked [of MakeCurrent u hl w cs "h_token hl" t] assms
    unfolding connected_linked [of _ _ _ _ MakeCurrent] increasing_tokens_tokens by blast
  have "WaitForToken (gpu_command_buffer MakeCurrent) t hl w = Some (hl', w')"
    using r(1) False assms(3) by (simp add: WaitForToken_def)
  moreover have "increasing_tokens hl' cs'"
    using r(3) assms(2) unfolding increasing_tokens_tokens gpu_channel.advanced_def by simp
  ultimately show ?thesis using r unfolding connected_linked [of _ _ _ _ MakeCurrent] failed_def
    gpu_channel.advanced_def by blast
qed

theorem channel_wait_for_token_witness:
  "\<exists>hl' w' cs'. WaitForToken (gpu_command_buffer (\<lambda>_. True)) 0 sample_helper (sample_gpu [0, 0, 0, 0, 0]) =
      Some (hl', w') \<and> connected 3 hl' w' cs'"
proof -
  have h: "h_token sample_helper = 0" "increasing_tokens sample_helper []"
    by (simp_all add: sample_helper_def CommandBufferHelper_init_def increasing_tokens_def token_after_def)
  show ?thesis using channel_wait_for_token [OF sample_connected h(2), of 0 "\<lambda>_. True"] h(1) by auto
qed

text \<open>
  C25 (termination): \<open>Finish\<close> returns; when it succeeds the service has executed every command and its
  get offset is the client's put offset, and when it fails the service is in error.
\<close>

theorem channel_finish:
  assumes "connected u hl w cs"
  shows "\<exists>ok hl' w' cs'. Finish (gpu_command_buffer MakeCurrent) hl w = Some (ok, hl', w') \<and>
    connected u hl' w' cs' \<and>
    (if ok then cs' = [] \<and> parser_get w' = h_put hl' \<and> h_get hl' = h_put hl' else failed w')"
proof -
  obtain ok hl' w' cs' where r: "Finish (gpu_command_buffer MakeCurrent) hl w = Some (ok, hl', w')"
    "gpu_channel.linked MakeCurrent u hl' w' cs'"
    "if ok then cs' = [] \<and> h_get hl' = h_put hl' else svc_error w' \<noteq> kNoError"
    using gpu_channel.Finish_linked [of MakeCurrent u hl w cs] assms
    unfolding connected_linked [of _ _ _ _ MakeCurrent] by blast
  have c: "connected u hl' w' cs'" using r(2) connected_linked by blast
  have "parser_get w' = h_put hl'" if "cs' = []" "h_get hl' = h_put hl'"
  proof -
    have "nat (parser_get w') = nat (h_put hl')" "0 \<le> h_put hl'" "served u w'"
      using c that by (auto simp: connected_def)
    then show ?thesis using served_get [of u w'] by linarith
  qed
  then show ?thesis using r(1,3) c by (intro exI [of _ ok] exI [of _ hl'] exI [of _ w'] exI [of _ cs'])
      (auto simp: failed_def)
qed

theorem channel_finish_witness:
  "\<exists>ok hl' w' cs'. Finish (gpu_command_buffer (\<lambda>_. True)) sample_helper (sample_gpu [0, 0, 0, 0, 0]) =
      Some (ok, hl', w') \<and> connected 3 hl' w' cs'"
  using channel_finish [OF sample_connected, of "\<lambda>_. True"] by blast

text \<open>
  Initializing a helper on a service with nothing pending connects them, with an
  empty queue and two entries kept back for the jump.
\<close>

theorem channel_initialize:
  assumes "served u w" "ptr (ring_buffer w) \<noteq> 0" "put_offset w = parser_get w" "parser_get w < int u"
    and "4 * (int u + 2) < 2 ^ 31"
  shows "\<exists>hl' w'. Helper_Initialize (gpu_command_buffer MakeCurrent) (4 * (int u + 2))
      CommandBufferHelper_init w = (True, hl', w') \<and> connected u hl' w' [] \<and>
    total_entry_count hl' = int u + 2 \<and> h_put hl' = parser_get w"
proof -
  have u: "num_entries w = int u + 2" "get_offset w = parser_get w" "0 \<le> parser_get w" "length (ring w) = u + 2"
    using assms(1) served_get [OF assms(1)] by (simp_all add: served_def)
  have "to_uint32 (4 * (int u + 2)) = 4 * (u + 2)"
    using assms(5) by (simp add: to_uint32_def nat_mult_distrib nat_add_distrib)
  then have n: "to_int32 (to_uint32 (4 * (int u + 2)) div 4) = int u + 2"
    using assms(5) to_int32_of_nat [of "u + 2"] by simp
  let ?hl = "SynchronizeState (fst (GetState w)) (CommandBufferHelper_init\<lparr>total_entry_count := int u + 2,
      usable_entry_count := int u, h_put := parser_get w\<rparr>)"
  have "Helper_Initialize (gpu_command_buffer MakeCurrent) (4 * (int u + 2)) CommandBufferHelper_init w =
      (True, ?hl, snd (GetState w))"
    using n u(1) assms(2,3)
    by (simp add: Helper_Initialize_def gpu_command_buffer_def GetRingBuffer_def GetState_def Let_def)
  moreover have "served u (snd (GetState w))" using served_other(3) [OF assms(1)] by (simp add: GetState_def Let_def)
  then have "connected u ?hl (snd (GetState w)) []"
    using u assms(4)
    by (simp add: connected_def SynchronizeState_def GetState_def Let_def fifo_def token_after_def)
  moreover have "total_entry_count ?hl = int u + 2" "h_put ?hl = parser_get w"
    by (simp_all add: SynchronizeState_def)
  ultimately show ?thesis by blast
qed

theorem channel_initialize_witness:
  "\<exists>hl' w'. Helper_Initialize (gpu_command_buffer (\<lambda>_. True)) (4 * (int 3 + 2)) CommandBufferHelper_init
      ((sample_gpu [0, 0, 0, 0, 0])\<lparr>parser_put := 0\<rparr>) = (True, hl', w') \<and> connected 3 hl' w' [] \<and>
    total_entry_count hl' = int 3 + 2 \<and> h_put hl' = parser_get ((sample_gpu [0, 0, 0, 0, 0])\<lparr>parser_put := 0\<rparr>)"
proof (rule channel_initialize)
  show "served 3 ((sample_gpu [0, 0, 0, 0, 0])\<lparr>parser_put := 0\<rparr>)"
    using sample_connected served_other(5) by (auto simp: connected_def)
qed (simp_all add: sample_gpu_def)

text \<open>
  \<open>Noop(skip_count)\<close> reserves one entry more than the command it writes covers, so the
  parser takes whatever stands in the last reserved entry for the header of a command.
\<close>

theorem noop_leaves_gap:
  assumes "0 < skip_count" "skip_count \<le> 2 ^ 20"
  shows "\<exists>h. Noop_Init skip_count = Some [h] \<and> header_command h = id_of kNoop \<and>
    ComputeNumEntries (add32 4 (skip_count * 4 mod 2 ^ 32)) = header_size h + 1"
proof -
  have t: "to_int32 skip_count = int skip_count" using assms(2) by (intro to_int32_of_nat) simp
  have m: "int skip_count mod 2 ^ 21 = int skip_count" using assms(2) by (intro mod_pos_pos_trivial) auto
  have "int skip_count \<le> kMaxSize" using assms(2) by (simp add: kMaxSize_def)
  then obtain h where h: "CommandHeader_Init (id_of kNoop) (int skip_count) = Some h"
    by (simp add: CommandHeader_Init_def)
  have "header_size h = skip_count" "header_command h = 0"
    using header_size_Init [OF h] header_command_Init [OF h] m by simp_all
  moreover have "ComputeNumEntries (4 + skip_count * 4) = skip_count + 1"
    using assms(2) by (subst ComputeNumEntries_small) simp_all
  ultimately show ?thesis using h t assms by (simp add: Noop_Init_def)
qed

theorem noop_leaves_gap_witness:
  "\<exists>h. Noop_Init 5 = Some [h] \<and> header_command h = id_of kNoop \<and>
    ComputeNumEntries (add32 4 (5 * 4 mod 2 ^ 32)) = header_size h + 1"
  by (rule noop_leaves_gap) simp_all

end
