(* ===== verification/PolicyOpcodes.thy ===== *)
theory PolicyOpcodes
  imports Prelude
begin

text \<open>
  The opcodes of the sandbox policy engine (\<open>src/sandbox/src/policy_engine_opcodes.cc\<close>,
  \<open>policy_engine_opcodes.h\<close>, \<open>policy_engine_params.h\<close>): the parameters of an intercepted call, the
  opcodes as they lie in memory, the factory that writes them and their evaluation. Memory is a list of units of
  two bytes, since everything the engine stores is aligned to two bytes; addresses count bytes. The
  comparison \<open>RtlCompareUnicodeString\<close> of the operating system is an argument.
\<close>

section \<open>Memory\<close>

type_synonym wchar = "16 word"
type_synonym wstring = "wchar list"
type_synonym int16 = "16 word"
type_synonym memory = "16 word list"

definition rd_units :: "memory \<Rightarrow> nat \<Rightarrow> nat \<Rightarrow> 16 word list option" where
  "rd_units m a n =
     (if even a \<and> a div 2 + n \<le> length m then Some (take n (drop (a div 2) m)) else None)"

definition wr_units :: "memory \<Rightarrow> nat \<Rightarrow> 16 word list \<Rightarrow> memory option" where
  "wr_units m a us =
     (if even a \<and> a div 2 + length us \<le> length m
      then Some (take (a div 2) m @ us @ drop (a div 2 + length us) m) else None)"

text \<open>A 32-bit value, the low half first.\<close>

definition words32 :: "uint32 \<Rightarrow> 16 word list" where
  "words32 n = [word_of_nat n, word_of_nat (n div 2 ^ 16)]"

fun value32 :: "16 word list \<Rightarrow> uint32" where
  "value32 [l, h] = unat l + unat h * 2 ^ 16"
| "value32 _ = 0"

definition rd32 :: "memory \<Rightarrow> nat \<Rightarrow> uint32 option" where
  "rd32 m a = map_option value32 (rd_units m a 2)"

definition wr32 :: "memory \<Rightarrow> nat \<Rightarrow> uint32 \<Rightarrow> memory option" where
  "wr32 m a n = wr_units m a (words32 n)"

section \<open>Parameters\<close>

datatype ArgType =
  INVALID_TYPE | WCHAR_TYPE | ULONG_TYPE | UNISTR_TYPE | VOIDPTR_TYPE | INPTR_TYPE | INOUTPTR_TYPE

definition ArgType_code :: "ArgType \<Rightarrow> uint32" where
  "ArgType_code t =
     (case t of INVALID_TYPE \<Rightarrow> 0 | WCHAR_TYPE \<Rightarrow> 1 | ULONG_TYPE \<Rightarrow> 2 | UNISTR_TYPE \<Rightarrow> 3
      | VOIDPTR_TYPE \<Rightarrow> 4 | INPTR_TYPE \<Rightarrow> 5 | INOUTPTR_TYPE \<Rightarrow> 6)"

text \<open>
  A parameter is the address of a variable and its type. The model keeps what the variable holds when
  the policy is evaluated: a number or pointer, and for a pointer to wide characters the characters
  before the terminator (\<open>None\<close> for the null pointer).
\<close>

record ParameterSet =
  real_type :: ArgType
  var_number :: uint32
  var_chars :: "wstring option"

definition ParameterSet_init :: ParameterSet where
  "ParameterSet_init = \<lparr>real_type = INVALID_TYPE, var_number = 0, var_chars = None\<rparr>"

definition Get_ulong :: "ParameterSet \<Rightarrow> uint32 option" where
  "Get_ulong p = (if ULONG_TYPE \<noteq> real_type p then None else Some (var_number p))"

definition Get_voidptr :: "ParameterSet \<Rightarrow> uint32 option" where
  "Get_voidptr p = (if VOIDPTR_TYPE \<noteq> real_type p then None else Some (var_number p))"

definition Get_wchar :: "ParameterSet \<Rightarrow> wstring option option" where
  "Get_wchar p = (if WCHAR_TYPE \<noteq> real_type p then None else Some (var_chars p))"

definition IsValid :: "ParameterSet \<Rightarrow> bool" where
  "IsValid p \<longleftrightarrow> INVALID_TYPE \<noteq> real_type p"

text \<open>\<open>ParamPickerMake\<close> for the types of variables it accepts.\<close>

definition param_ulong :: "uint32 \<Rightarrow> ParameterSet" where
  "param_ulong n = \<lparr>real_type = ULONG_TYPE, var_number = n, var_chars = None\<rparr>"

definition param_voidptr :: "uint32 \<Rightarrow> ParameterSet" where
  "param_voidptr n = \<lparr>real_type = VOIDPTR_TYPE, var_number = n, var_chars = None\<rparr>"

definition param_wchar :: "wstring option \<Rightarrow> ParameterSet" where
  "param_wchar s = \<lparr>real_type = WCHAR_TYPE, var_number = 0, var_chars = s\<rparr>"

section \<open>Opcodes\<close>

datatype EvalResult =
  EVAL_TRUE | EVAL_FALSE | EVAL_ERROR | ASK_BROKER | DENY_ACCESS | GIVE_READONLY | GIVE_ALLACCESS
| GIVE_CACHED | GIVE_FIRST | SIGNAL_ALARM | FAKE_SUCCESS | FAKE_ACCESS_DENIED | TERMINATE_PROCESS

definition EvalResults :: "EvalResult list" where
  "EvalResults = [EVAL_TRUE, EVAL_FALSE, EVAL_ERROR, ASK_BROKER, DENY_ACCESS, GIVE_READONLY,
     GIVE_ALLACCESS, GIVE_CACHED, GIVE_FIRST, SIGNAL_ALARM, FAKE_SUCCESS, FAKE_ACCESS_DENIED,
     TERMINATE_PROCESS]"

definition EvalResult_code :: "EvalResult \<Rightarrow> uint32" where
  "EvalResult_code r = length (takeWhile (\<lambda>x. x \<noteq> r) EvalResults)"

definition EvalResult_of :: "uint32 \<Rightarrow> EvalResult option" where
  "EvalResult_of n = (if n < length EvalResults then Some (EvalResults ! n) else None)"

datatype OpcodeID =
  OP_ALWAYS_FALSE | OP_ALWAYS_TRUE | OP_NUMBER_MATCH | OP_ULONG_MATCH_RANGE | OP_ULONG_AND_MATCH
| OP_WSTRING_MATCH | OP_ACTION

definition OpcodeID_code :: "OpcodeID \<Rightarrow> uint32" where
  "OpcodeID_code i =
     (case i of OP_ALWAYS_FALSE \<Rightarrow> 0 | OP_ALWAYS_TRUE \<Rightarrow> 1 | OP_NUMBER_MATCH \<Rightarrow> 2
      | OP_ULONG_MATCH_RANGE \<Rightarrow> 3 | OP_ULONG_AND_MATCH \<Rightarrow> 4 | OP_WSTRING_MATCH \<Rightarrow> 5 | OP_ACTION \<Rightarrow> 6)"

abbreviation (input) kPolNone :: uint32 where "kPolNone \<equiv> 0"
abbreviation (input) kPolNegateEval :: uint32 where "kPolNegateEval \<equiv> 1"
abbreviation (input) kPolClearContext :: uint32 where "kPolClearContext \<equiv> 2"
abbreviation (input) kPolUseOREval :: uint32 where "kPolUseOREval \<equiv> 4"

abbreviation (input) CASE_SENSITIVE :: uint32 where "CASE_SENSITIVE \<equiv> 0"
abbreviation (input) CASE_INSENSITIVE :: uint32 where "CASE_INSENSITIVE \<equiv> 1"
abbreviation (input) EXACT_LENGHT :: uint32 where "EXACT_LENGHT \<equiv> 2"

abbreviation (input) kSeekForward :: int32 where "kSeekForward \<equiv> -1"
abbreviation (input) kSeekToEnd :: int32 where "kSeekToEnd \<equiv> 1048575"

record match_context =
  position :: nat
  ctx_options :: uint32

definition MatchContext_Clear :: match_context where
  "MatchContext_Clear = \<lparr>position = 0, ctx_options = 0\<rparr>"

text \<open>An opcode is 24 bytes: its id, the index of its parameter, its options and four arguments.\<close>

record policy_opcode =
  opcode_id :: uint32
  op_parameter :: int16
  op_options :: "16 word"
  arguments :: "uint32 list"

abbreviation (input) kArgumentCount :: nat where "kArgumentCount \<equiv> 4"
abbreviation (input) sizeof_PolicyOpcode :: nat where "sizeof_PolicyOpcode \<equiv> 24"

definition opcode_units :: "policy_opcode \<Rightarrow> 16 word list" where
  "opcode_units op =
     words32 (opcode_id op) @ [op_parameter op, op_options op] @ concat (map words32 (arguments op))"

definition units_opcode :: "16 word list \<Rightarrow> policy_opcode" where
  "units_opcode us =
     \<lparr>opcode_id = value32 (take 2 us), op_parameter = us ! 2, op_options = us ! 3,
      arguments = map (\<lambda>i. value32 (take 2 (drop (4 + 2 * i) us))) [0 ..< kArgumentCount]\<rparr>"

definition read_opcode :: "memory \<Rightarrow> nat \<Rightarrow> policy_opcode option" where
  "read_opcode m a = map_option units_opcode (rd_units m a 12)"

definition SetArgument :: "memory \<Rightarrow> nat \<Rightarrow> nat \<Rightarrow> uint32 \<Rightarrow> memory option" where
  "SetArgument m a index v = do {
     guard (index < kArgumentCount);
     wr32 m (a + 8 + 4 * index) v
   }"

definition SetOptions :: "memory \<Rightarrow> nat \<Rightarrow> uint32 \<Rightarrow> memory option" where
  "SetOptions m a opts = wr_units m (a + 6) [word_of_nat opts]"

text \<open>The characters behind the pointer that \<open>GetRelativeString\<close> computes.\<close>

definition GetRelativeString :: "memory \<Rightarrow> nat \<Rightarrow> policy_opcode \<Rightarrow> nat \<Rightarrow> nat \<Rightarrow> wstring option" where
  "GetRelativeString m a op index n = rd_units m (add32 a (arguments op ! index)) n"

definition IsAction :: "policy_opcode \<Rightarrow> bool" where
  "IsAction op \<longleftrightarrow> OpcodeID_code OP_ACTION = opcode_id op"

section \<open>Evaluation\<close>

type_synonym rtl_compare = "wstring \<Rightarrow> wstring \<Rightarrow> bool \<Rightarrow> int32"
type_synonym outcome = "(EvalResult \<times> match_context option) option"

definition bool_result :: "bool \<Rightarrow> EvalResult" where
  "bool_result b = (if b then EVAL_TRUE else EVAL_FALSE)"

text \<open>The number of characters that a \<open>UNICODE_STRING\<close> made by \<open>InitStringUnicode\<close> spans: its
  length in bytes is an unsigned 16-bit value.\<close>

definition InitStringUnicode_chars :: "nat \<Rightarrow> nat" where
  "InitStringUnicode_chars len = (len mod 2 ^ 16) * 2 mod 2 ^ 16 div 2"

definition OpcodeEval_ACTION :: "policy_opcode \<Rightarrow> match_context option \<Rightarrow> outcome" where
  "OpcodeEval_ACTION op context = do {
     action \<leftarrow> EvalResult_of (arguments op ! 0);
     Some (action, context)
   }"

definition OpcodeEval_NUMBER_MATCH ::
  "policy_opcode \<Rightarrow> ParameterSet option \<Rightarrow> match_context option \<Rightarrow> outcome" where
  "OpcodeEval_NUMBER_MATCH op param context = do {
     p \<leftarrow> param;
     case Get_ulong p of
       Some value_ulong \<Rightarrow> Some (bool_result (arguments op ! 0 = value_ulong), context)
     | None \<Rightarrow>
         (case Get_voidptr p of
            Some value_ptr \<Rightarrow> Some (bool_result (arguments op ! 0 = value_ptr), context)
          | None \<Rightarrow> Some (EVAL_ERROR, context))
   }"

definition OpcodeEval_ULONG_MATCH_RANGE ::
  "policy_opcode \<Rightarrow> ParameterSet option \<Rightarrow> match_context option \<Rightarrow> outcome" where
  "OpcodeEval_ULONG_MATCH_RANGE op param context = do {
     p \<leftarrow> param;
     case Get_ulong p of
       None \<Rightarrow> Some (EVAL_ERROR, context)
     | Some v \<Rightarrow> Some (bool_result (arguments op ! 0 \<le> v \<and> arguments op ! 1 \<ge> v), context)
   }"

definition OpcodeEval_ULONG_AND_MATCH ::
  "policy_opcode \<Rightarrow> ParameterSet option \<Rightarrow> match_context option \<Rightarrow> outcome" where
  "OpcodeEval_ULONG_AND_MATCH op param context = do {
     p \<leftarrow> param;
     case Get_ulong p of
       None \<Rightarrow> Some (EVAL_ERROR, context)
     | Some v \<Rightarrow> Some (bool_result ((arguments op ! 0) AND v \<noteq> 0), context)
   }"

text \<open>
  The string match. \<open>str n\<close> reads \<open>n\<close> characters of the stored string; \<open>rtl_equal\<close> compares them
  with the characters of the source from an offset on. \<open>seek_forward\<close> is the loop that tries one
  offset after the other.
\<close>

definition rtl_equal ::
  "rtl_compare \<Rightarrow> (nat \<Rightarrow> wstring option) \<Rightarrow> bool \<Rightarrow> int32 \<Rightarrow> wstring \<Rightarrow> nat \<Rightarrow> bool option" where
  "rtl_equal rtl str insensitive match_len source_str k = do {
     let n = InitStringUnicode_chars (to_uint32 match_len);
     match_ustr \<leftarrow> str n;
     guard (k + n \<le> length source_str);
     Some (rtl match_ustr (take n (drop k source_str)) insensitive = 0)
   }"

fun seek_forward :: "(nat \<Rightarrow> bool option) \<Rightarrow> nat \<Rightarrow> nat \<Rightarrow> nat option option" where
  "seek_forward eq k 0 = Some None"
| "seek_forward eq k (Suc n) =
     Option.bind (eq k) (\<lambda>r. if r then Some (Some k) else seek_forward eq (Suc k) n)"

definition OpcodeEval_WSTRING_MATCH ::
  "rtl_compare \<Rightarrow> (nat \<Rightarrow> wstring option) \<Rightarrow> policy_opcode \<Rightarrow> ParameterSet option \<Rightarrow>
     match_context option \<Rightarrow> outcome" where
  "OpcodeEval_WSTRING_MATCH rtl str op param context =
     (case context of None \<Rightarrow> Some (EVAL_ERROR, None)
      | Some c \<Rightarrow> do {
          p \<leftarrow> param;
          case Get_wchar p of None \<Rightarrow> Some (EVAL_ERROR, context)
          | Some pointer \<Rightarrow> do {
              source \<leftarrow> pointer;
              let match_len = to_int32 (arguments op ! 1);
              let start_position = to_int32 (arguments op ! 2);
              let match_opts = arguments op ! 3;
              guard (position c \<le> length source);
              let source_str = drop (position c) source;
              let source_len = int (length source_str);
              let equal_at = rtl_equal rtl str (odd match_opts) match_len source_str;
              if source_len = 0 then Some (EVAL_FALSE, context)
              else if match_len > source_len then Some (EVAL_FALSE, context)
              else if start_position \<ge> 0 then
                (if start_position \<noteq> kSeekToEnd \<and> match_opts AND EXACT_LENGHT \<noteq> 0 \<and>
                    match_len + start_position \<noteq> source_len
                 then Some (EVAL_FALSE, context)
                 else do {
                   let start = (if start_position = kSeekToEnd then source_len - match_len else start_position);
                   if match_len + start > source_len then Some (EVAL_FALSE, context)
                   else do {
                     r \<leftarrow> equal_at (nat start);
                     if r then Some (EVAL_TRUE, Some (c\<lparr>position := position c + nat (start + match_len)\<rparr>))
                     else Some (EVAL_FALSE, context)
                   }
                 })
              else do {
                found \<leftarrow> seek_forward equal_at 0 (nat (source_len - match_len) + 1);
                case found of
                  Some k \<Rightarrow> Some (EVAL_TRUE, Some (c\<lparr>position := position c + nat (int k + match_len)\<rparr>))
                | None \<Rightarrow> Some (EVAL_FALSE, context)
              }
            }
        })"

text \<open>The dispatch; an unknown opcode is an error.\<close>

definition EvaluateHelper ::
  "rtl_compare \<Rightarrow> (nat \<Rightarrow> wstring option) \<Rightarrow> policy_opcode \<Rightarrow> ParameterSet option \<Rightarrow>
     match_context option \<Rightarrow> outcome" where
  "EvaluateHelper rtl str op param context =
     (if opcode_id op = 0 then Some (EVAL_FALSE, context)
      else if opcode_id op = 1 then Some (EVAL_TRUE, context)
      else if opcode_id op = 2 then OpcodeEval_NUMBER_MATCH op param context
      else if opcode_id op = 3 then OpcodeEval_ULONG_MATCH_RANGE op param context
      else if opcode_id op = 4 then OpcodeEval_ULONG_AND_MATCH op param context
      else if opcode_id op = 5 then OpcodeEval_WSTRING_MATCH rtl str op param context
      else if opcode_id op = 6 then OpcodeEval_ACTION op context
      else Some (EVAL_ERROR, context))"

definition negate_result :: "EvalResult \<Rightarrow> EvalResult" where
  "negate_result r =
     (case r of EVAL_TRUE \<Rightarrow> EVAL_FALSE | EVAL_FALSE \<Rightarrow> EVAL_TRUE | _ \<Rightarrow> EVAL_ERROR)"

definition apply_options :: "16 word \<Rightarrow> EvalResult \<times> match_context option \<Rightarrow> EvalResult \<times> match_context option" where
  "apply_options opts res = (case res of (r, context) \<Rightarrow>
     (if opts = 0 then (r, context)
      else (if bit opts 0 then negate_result r else r,
            map_option (\<lambda>c.
              let c = (if bit opts 1 then MatchContext_Clear else c)
              in if bit opts 2 then c\<lparr>ctx_options := kPolUseOREval\<rparr> else c) context)))"

text \<open>\<open>Evaluate\<close>, with the opcode and a reader of its string.\<close>

definition evaluate_opcode ::
  "rtl_compare \<Rightarrow> (nat \<Rightarrow> wstring option) \<Rightarrow> policy_opcode \<Rightarrow> ParameterSet list option \<Rightarrow>
     match_context option \<Rightarrow> outcome" where
  "evaluate_opcode rtl str op call_params context =
     (case call_params of None \<Rightarrow> Some (EVAL_ERROR, context)
      | Some ps \<Rightarrow>
          (if sint (op_parameter op) \<ge> 0 \<and> unat (op_parameter op) \<ge> length ps then Some (EVAL_ERROR, context)
           else map_option (apply_options (op_options op))
             (EvaluateHelper rtl str op
               (if sint (op_parameter op) \<ge> 0 then Some (ps ! unat (op_parameter op)) else None) context)))"

definition PolicyOpcode_Evaluate ::
  "rtl_compare \<Rightarrow> memory \<Rightarrow> nat \<Rightarrow> ParameterSet list option \<Rightarrow> match_context option \<Rightarrow> outcome" where
  "PolicyOpcode_Evaluate rtl m a call_params context = do {
     op \<leftarrow> read_opcode m a;
     evaluate_opcode rtl (GetRelativeString m a op 0) op call_params context
   }"

section \<open>The factory\<close>

text \<open>
  The factory fills a piece of memory with opcodes from its lower end and with their strings from its
  upper end. An operation returns the address of the new opcode (\<open>None\<close> for the null pointer, when
  there is no room), the memory and the factory. It has no result when it writes outside of the memory.
\<close>

record opcode_factory =
  memory_top :: nat
  memory_bottom :: nat

type_synonym made = "(nat option \<times> memory \<times> opcode_factory) option"

definition OpcodeFactory_init :: "nat \<Rightarrow> nat \<Rightarrow> opcode_factory" where
  "OpcodeFactory_init base bytes = \<lparr>memory_top = base, memory_bottom = base + bytes\<rparr>"

definition memory_size :: "opcode_factory \<Rightarrow> uint32" where
  "memory_size f = sub32 (memory_bottom f) (memory_top f)"

definition MakeBase :: "OpcodeID \<Rightarrow> uint32 \<Rightarrow> int16 \<Rightarrow> memory \<Rightarrow> opcode_factory \<Rightarrow> made" where
  "MakeBase oid opts selected_param m f =
     (if memory_size f < sizeof_PolicyOpcode then Some (None, m, f)
      else do {
        let a = memory_top f;
        m \<leftarrow> wr_units m a (opcode_units
          \<lparr>opcode_id = OpcodeID_code oid, op_parameter = selected_param,
           op_options = word_of_nat opts, arguments = [0, 0, 0, 0]\<rparr>);
        Some (Some a, m, f\<lparr>memory_top := a + sizeof_PolicyOpcode\<rparr>)
      })"

text \<open>\<open>AllocRelative\<close> answers the displacement of the string, zero when there is no room; a string at
  an odd address breaks into the debugger.\<close>

definition AllocRelative :: "nat \<Rightarrow> wstring \<Rightarrow> memory \<Rightarrow> opcode_factory \<Rightarrow>
    (nat \<times> memory \<times> opcode_factory) option" where
  "AllocRelative start str m f =
     (if memory_size f < length str * 2 then Some (0, m, f)
      else do {
        let bottom = memory_bottom f - length str * 2;
        guard (even bottom);
        m \<leftarrow> wr_units m bottom str;
        Some (sub32 bottom start, m, f\<lparr>memory_bottom := bottom\<rparr>)
      })"

definition MakeOpAlwaysFalse :: "uint32 \<Rightarrow> memory \<Rightarrow> opcode_factory \<Rightarrow> made" where
  "MakeOpAlwaysFalse opts = MakeBase OP_ALWAYS_FALSE opts (-1)"

definition MakeOpAlwaysTrue :: "uint32 \<Rightarrow> memory \<Rightarrow> opcode_factory \<Rightarrow> made" where
  "MakeOpAlwaysTrue opts = MakeBase OP_ALWAYS_TRUE opts (-1)"

text \<open>Storing the arguments of the opcode that \<open>MakeBase\<close> made.\<close>

fun set_arguments :: "nat \<Rightarrow> nat \<Rightarrow> uint32 list \<Rightarrow> memory \<Rightarrow> memory option" where
  "set_arguments a index [] m = Some m"
| "set_arguments a index (v # vs) m =
     Option.bind (SetArgument m a index v) (set_arguments a (Suc index) vs)"

definition make_with :: "OpcodeID \<Rightarrow> uint32 \<Rightarrow> int16 \<Rightarrow> uint32 list \<Rightarrow> memory \<Rightarrow> opcode_factory \<Rightarrow> made" where
  "make_with oid opts selected_param args m f = do {
     (opcode, m, f) \<leftarrow> MakeBase oid opts selected_param m f;
     case opcode of None \<Rightarrow> Some (None, m, f)
     | Some a \<Rightarrow> do {
         m \<leftarrow> set_arguments a 0 args m;
         Some (Some a, m, f)
       }
   }"

definition MakeOpAction :: "EvalResult \<Rightarrow> uint32 \<Rightarrow> memory \<Rightarrow> opcode_factory \<Rightarrow> made" where
  "MakeOpAction action opts = make_with OP_ACTION opts 0 [EvalResult_code action]"

definition MakeOpNumberMatch :: "int16 \<Rightarrow> uint32 \<Rightarrow> uint32 \<Rightarrow> memory \<Rightarrow> opcode_factory \<Rightarrow> made" where
  "MakeOpNumberMatch selected_param match opts =
     make_with OP_NUMBER_MATCH opts selected_param [match, ArgType_code ULONG_TYPE]"

definition MakeOpVoidPtrMatch :: "int16 \<Rightarrow> uint32 \<Rightarrow> uint32 \<Rightarrow> memory \<Rightarrow> opcode_factory \<Rightarrow> made" where
  "MakeOpVoidPtrMatch selected_param match opts =
     make_with OP_NUMBER_MATCH opts selected_param [match, ArgType_code VOIDPTR_TYPE]"

definition MakeOpUlongMatchRange ::
  "int16 \<Rightarrow> uint32 \<Rightarrow> uint32 \<Rightarrow> uint32 \<Rightarrow> memory \<Rightarrow> opcode_factory \<Rightarrow> made" where
  "MakeOpUlongMatchRange selected_param lower_bound upper_bound opts m f =
     (if lower_bound > upper_bound then Some (None, m, f)
      else make_with OP_ULONG_MATCH_RANGE opts selected_param [lower_bound, upper_bound] m f)"

definition MakeOpUlongAndMatch :: "int16 \<Rightarrow> uint32 \<Rightarrow> uint32 \<Rightarrow> memory \<Rightarrow> opcode_factory \<Rightarrow> made" where
  "MakeOpUlongAndMatch selected_param match opts =
     make_with OP_ULONG_AND_MATCH opts selected_param [match]"

definition MakeOpWStringMatch ::
  "int16 \<Rightarrow> wstring option \<Rightarrow> int32 \<Rightarrow> uint32 \<Rightarrow> uint32 \<Rightarrow> memory \<Rightarrow> opcode_factory \<Rightarrow> made" where
  "MakeOpWStringMatch selected_param match_str start_position match_opts opts m f =
     (case match_str of None \<Rightarrow> Some (None, m, f)
      | Some s \<Rightarrow>
          (if s = [] then Some (None, m, f)
           else do {
             (opcode, m, f) \<leftarrow> MakeBase OP_WSTRING_MATCH opts selected_param m f;
             case opcode of None \<Rightarrow> Some (None, m, f)
             | Some a \<Rightarrow> do {
                 (delta_str, m, f) \<leftarrow> AllocRelative a (s @ [0]) m f;
                 if delta_str = 0 then Some (None, m, f)
                 else do {
                   m \<leftarrow> set_arguments a 0 [delta_str, length s, to_uint32 start_position, match_opts] m;
                   Some (Some a, m, f)
                 }
               }
           }))"

end
