(* ===== verification/PolicyProcessor.thy ===== *)
theory PolicyProcessor
  imports PolicyOpcodes
begin

text \<open>
  The evaluator of a policy (\<open>src/sandbox/src/policy_engine_processor.cc\<close>): it runs over the opcodes
  of a \<open>PolicyBuffer\<close>, skips the rest of a group of opcodes whose outcome is known and stops at the
  first action it reaches. The reference semantics is a list of rules of which the first one whose
  conditions hold decides; the theorems show that the evaluator computes it.
\<close>

section \<open>The evaluator\<close>

datatype PolicyResult = NO_POLICY_MATCH | POLICY_MATCH | POLICY_ERROR

abbreviation (input) kStopOnErrors :: uint32 where "kStopOnErrors \<equiv> 0"
abbreviation (input) kIgnoreErrors :: uint32 where "kIgnoreErrors \<equiv> 1"
abbreviation (input) kShortEval :: uint32 where "kShortEval \<equiv> 2"
abbreviation (input) kRankedEval :: uint32 where "kRankedEval \<equiv> 4"

record processor =
  current_index :: nat
  current_result :: EvalResult

definition PolicyProcessor_init :: processor where
  "PolicyProcessor_init = \<lparr>current_index = 0, current_result = EVAL_FALSE\<rparr>"

definition SetInternalState :: "nat \<Rightarrow> EvalResult \<Rightarrow> processor" where
  "SetInternalState index result = \<lparr>current_index = index, current_result = result\<rparr>"

definition GetAction :: "processor \<Rightarrow> EvalResult" where
  "GetAction st = current_result st"

text \<open>Whether the opcode is skipped, the context, and whether to go on skipping.\<close>

definition SkipOpcode :: "policy_opcode \<Rightarrow> match_context \<Rightarrow> bool \<times> match_context \<times> bool" where
  "SkipOpcode opcode context =
     (if IsAction opcode then (ctx_options context \<noteq> kPolUseOREval, MatchContext_Clear, False)
      else (True, context, True))"

text \<open>A \<open>PolicyBuffer\<close> is the number of its opcodes, four bytes, and then the opcodes.\<close>

definition opcode_address :: "nat \<Rightarrow> nat \<Rightarrow> nat" where
  "opcode_address base ix = base + 4 + sizeof_PolicyOpcode * ix"

fun evaluate_loop ::
  "rtl_compare \<Rightarrow> memory \<Rightarrow> nat \<Rightarrow> uint32 \<Rightarrow> ParameterSet list option \<Rightarrow> nat \<Rightarrow> nat \<Rightarrow>
     match_context \<Rightarrow> bool \<Rightarrow> bool \<Rightarrow> processor \<Rightarrow> (PolicyResult \<times> processor) option" where
  "evaluate_loop rtl m base options params 0 ix context evaluation skip_group st =
     Some (if evaluation then POLICY_ERROR else NO_POLICY_MATCH, st)"
| "evaluate_loop rtl m base options params (Suc n) ix context evaluation skip_group st =
     Option.bind (read_opcode m (opcode_address base ix)) (\<lambda>opcode.
       let (skip, context, skip_group) =
         (if skip_group then SkipOpcode opcode context else (False, context, False))
       in if skip then evaluate_loop rtl m base options params n (Suc ix) context evaluation skip_group st
       else Option.bind (PolicyOpcode_Evaluate rtl m (opcode_address base ix) params (Some context))
         (\<lambda>(result, ctx). Option.bind ctx (\<lambda>context.
           case result of
             EVAL_FALSE \<Rightarrow> evaluate_loop rtl m base options params n (Suc ix) context False
               (skip_group \<or> kPolUseOREval \<noteq> ctx_options context) st
           | EVAL_ERROR \<Rightarrow>
               if kStopOnErrors AND options \<noteq> 0 then Some (POLICY_ERROR, st)
               else evaluate_loop rtl m base options params n (Suc ix) context evaluation skip_group st
           | EVAL_TRUE \<Rightarrow> evaluate_loop rtl m base options params n (Suc ix) context True
               (skip_group \<or> kPolUseOREval = ctx_options context) st
           | action \<Rightarrow> Some (POLICY_MATCH, SetInternalState ix action))))"

definition PolicyProcessor_Evaluate ::
  "rtl_compare \<Rightarrow> memory \<Rightarrow> nat option \<Rightarrow> uint32 \<Rightarrow> ParameterSet list option \<Rightarrow> processor \<Rightarrow>
     (PolicyResult \<times> processor) option" where
  "PolicyProcessor_Evaluate rtl m policy options params st =
     (case policy of None \<Rightarrow> Some (NO_POLICY_MATCH, st)
      | Some base \<Rightarrow> do {
          count \<leftarrow> rd32 m base;
          if count = 0 then Some (NO_POLICY_MATCH, st)
          else if kShortEval AND options = 0 then Some (POLICY_ERROR, st)
          else evaluate_loop rtl m base options params count 0 MatchContext_Clear False False
            (SetInternalState 0 EVAL_FALSE)
        })"

section \<open>Opcodes independent of their place\<close>

text \<open>
  What an opcode does depends on its fields and its string, not on where it lies: a view is the opcode
  with zero for the displacement of its string, and the string.
\<close>

type_synonym view = "policy_opcode \<times> wstring"

definition reader :: "wstring \<Rightarrow> nat \<Rightarrow> wstring option" where
  "reader s n = (if n = length s then Some s else None)"

definition view_eval :: "rtl_compare \<Rightarrow> view \<Rightarrow> ParameterSet list option \<Rightarrow> match_context option \<Rightarrow> outcome" where
  "view_eval rtl v = evaluate_opcode rtl (reader (snd v)) (fst v)"

definition string_op :: "policy_opcode \<Rightarrow> bool" where
  "string_op op \<longleftrightarrow> opcode_id op = 5"

definition view_ok :: "view \<Rightarrow> bool" where
  "view_ok v \<longleftrightarrow> length (arguments (fst v)) = 4 \<and>
     (if string_op (fst v) then arguments (fst v) ! 0 = 0 \<and> arguments (fst v) ! 1 = length (snd v) \<and>
        length (snd v) < 2 ^ 15 else snd v = [])"

text \<open>The opcode at an address does what the view does.\<close>

definition stored_at :: "memory \<Rightarrow> nat \<Rightarrow> view \<Rightarrow> bool" where
  "stored_at m a v \<longleftrightarrow> view_ok v \<and>
     (\<exists>d. read_opcode m a = Some ((fst v)\<lparr>arguments := (arguments (fst v))[0 := d]\<rparr>) \<and>
       (if string_op (fst v) then rd_units m (add32 a d) (length (snd v)) = Some (snd v)
        else d = arguments (fst v) ! 0))"

definition stored_from :: "memory \<Rightarrow> nat \<Rightarrow> view list \<Rightarrow> bool" where
  "stored_from m a vs \<longleftrightarrow> (\<forall>i < length vs. stored_at m (a + sizeof_PolicyOpcode * i) (vs ! i))"

lemma InitStringUnicode_chars_small [simp]: "n < 2 ^ 15 \<Longrightarrow> InitStringUnicode_chars n = n"
  by (simp add: InitStringUnicode_chars_def)

lemma int_length_arg: "n < 2 ^ 15 \<Longrightarrow> to_int32 n = int n"
  by (simp add: to_int32_def zmod_int [symmetric])

lemma to_uint32_int: "n < 2 ^ 15 \<Longrightarrow> to_uint32 (int n) = n"
  by (simp add: to_uint32_def zmod_int [symmetric])

lemma OpcodeEval_WSTRING_MATCH_cong:
  assumes "arguments op' ! 1 = arguments op ! 1" "arguments op' ! 2 = arguments op ! 2"
    "arguments op' ! 3 = arguments op ! 3"
    and "str (InitStringUnicode_chars (to_uint32 (to_int32 (arguments op ! 1)))) =
      str' (InitStringUnicode_chars (to_uint32 (to_int32 (arguments op ! 1))))"
  shows "OpcodeEval_WSTRING_MATCH rtl str op param context = OpcodeEval_WSTRING_MATCH rtl str' op' param context"
proof -
  have "rtl_equal rtl str i (to_int32 (arguments op ! 1)) = rtl_equal rtl str' i (to_int32 (arguments op ! 1))" for i
    unfolding rtl_equal_def Let_def assms(4) ..
  then show ?thesis unfolding OpcodeEval_WSTRING_MATCH_def assms(1-3) Let_def by presburger
qed

lemma PolicyOpcode_Evaluate_view:
  assumes "stored_at m a v"
  shows "PolicyOpcode_Evaluate rtl m a params context = view_eval rtl v params context"
proof -
  obtain op s where v: "v = (op, s)" by (cases v)
  from assms obtain d where r: "read_opcode m a = Some (op\<lparr>arguments := (arguments op)[0 := d]\<rparr>)"
    and d: "if string_op op then rd_units m (add32 a d) (length s) = Some s else d = arguments op ! 0"
    and ok: "view_ok (op, s)"
    unfolding stored_at_def v fst_conv snd_conv by blast
  let ?op = "op\<lparr>arguments := (arguments op)[0 := d]\<rparr>"
  show ?thesis
  proof (cases "string_op op")
    case True
    then have l: "length (arguments op) = 4" "arguments op ! 1 = length s" "length s < 2 ^ 15"
      using ok by (simp_all add: view_ok_def)
    have "arguments op \<noteq> []" using l(1) by auto
    then have g: "GetRelativeString m a ?op 0 (length s) = Some s"
      using d True by (simp add: GetRelativeString_def)
    have n: "InitStringUnicode_chars (to_uint32 (to_int32 (arguments op ! 1))) = length s"
      using l by (simp add: int_length_arg to_uint32_int)
    have "EvaluateHelper rtl (GetRelativeString m a ?op 0) ?op p c = EvaluateHelper rtl (reader s) op p c" for p c
    proof -
      have "OpcodeEval_WSTRING_MATCH rtl (GetRelativeString m a ?op 0) ?op p c =
        OpcodeEval_WSTRING_MATCH rtl (reader s) op p c"
        by (rule OpcodeEval_WSTRING_MATCH_cong) (use g n in \<open>simp_all add: reader_def\<close>)
      then show ?thesis using True by (simp add: EvaluateHelper_def string_op_def)
    qed
    then show ?thesis using r v
      by (simp add: PolicyOpcode_Evaluate_def view_eval_def evaluate_opcode_def split: option.split)
  next
    case False
    then have e: "?op = op" using d by simp
    have "EvaluateHelper rtl (GetRelativeString m a op 0) op p c = EvaluateHelper rtl (reader s) op p c" for p c
      using False by (simp add: EvaluateHelper_def string_op_def)
    then show ?thesis using r v unfolding e
      by (simp add: PolicyOpcode_Evaluate_def view_eval_def evaluate_opcode_def split: option.split)
  qed
qed

section \<open>The loop over views\<close>

fun views_loop ::
  "rtl_compare \<Rightarrow> uint32 \<Rightarrow> ParameterSet list option \<Rightarrow> view list \<Rightarrow> nat \<Rightarrow>
     match_context \<Rightarrow> bool \<Rightarrow> bool \<Rightarrow> processor \<Rightarrow> (PolicyResult \<times> processor) option" where
  "views_loop rtl options params [] ix context evaluation skip_group st =
     Some (if evaluation then POLICY_ERROR else NO_POLICY_MATCH, st)"
| "views_loop rtl options params (v # vs) ix context evaluation skip_group st =
     (let (skip, context, skip_group) =
        (if skip_group then SkipOpcode (fst v) context else (False, context, False))
      in if skip then views_loop rtl options params vs (Suc ix) context evaluation skip_group st
      else Option.bind (view_eval rtl v params (Some context))
        (\<lambda>(result, ctx). Option.bind ctx (\<lambda>context.
          case result of
            EVAL_FALSE \<Rightarrow> views_loop rtl options params vs (Suc ix) context False
              (skip_group \<or> kPolUseOREval \<noteq> ctx_options context) st
          | EVAL_ERROR \<Rightarrow>
              if kStopOnErrors AND options \<noteq> 0 then Some (POLICY_ERROR, st)
              else views_loop rtl options params vs (Suc ix) context evaluation skip_group st
          | EVAL_TRUE \<Rightarrow> views_loop rtl options params vs (Suc ix) context True
              (skip_group \<or> kPolUseOREval = ctx_options context) st
          | action \<Rightarrow> Some (POLICY_MATCH, SetInternalState ix action))))"

lemma stored_at_read:
  "stored_at m a v \<Longrightarrow> \<exists>op. read_opcode m a = Some op \<and> opcode_id op = opcode_id (fst v)"
  by (auto simp: stored_at_def)

lemma evaluate_loop_views:
  assumes "\<forall>i < length vs. stored_at m (opcode_address base (ix + i)) (vs ! i)"
  shows "evaluate_loop rtl m base options params (length vs) ix context evaluation skip_group st =
    views_loop rtl options params vs ix context evaluation skip_group st"
  using assms
proof (induction vs arbitrary: ix "context" evaluation skip_group st)
  case (Cons v vs)
  have s: "stored_at m (opcode_address base ix) v" using Cons.prems by fastforce
  obtain op where op: "read_opcode m (opcode_address base ix) = Some op" "opcode_id op = opcode_id (fst v)"
    using stored_at_read [OF s] by blast
  have skip: "SkipOpcode op context = SkipOpcode (fst v) context"
    using op(2) by (simp add: SkipOpcode_def IsAction_def)
  have IH: "evaluate_loop rtl m base options params (length vs) (Suc ix) c e k st' =
      views_loop rtl options params vs (Suc ix) c e k st'" for c e k st'
    using Cons.prems by (intro Cons.IH) (metis add_Suc_shift length_Cons not_less_eq nth_Cons_Suc)
  show ?case
    unfolding length_Cons evaluate_loop.simps views_loop.simps op(1) skip IH
      PolicyOpcode_Evaluate_view [OF s] Option.bind.simps ..
qed simp

section \<open>First match\<close>

text \<open>
  The reference semantics. A rule is its conditions and its action; the conditions are evaluated from
  a clear context until one fails. A condition that evaluates to an error is passed over, and a
  condition that asks for the OR mode decides the rule when it is true.
\<close>

type_synonym rule = "view list \<times> EvalResult"

fun conditions_hold ::
  "rtl_compare \<Rightarrow> ParameterSet list option \<Rightarrow> view list \<Rightarrow> match_context \<Rightarrow> bool option" where
  "conditions_hold rtl params [] context = Some True"
| "conditions_hold rtl params (v # vs) context =
     Option.bind (view_eval rtl v params (Some context)) (\<lambda>(result, ctx). Option.bind ctx (\<lambda>context.
       if result = EVAL_TRUE \<and> kPolUseOREval = ctx_options context then Some True
       else if result = EVAL_FALSE \<and> kPolUseOREval \<noteq> ctx_options context then Some False
       else conditions_hold rtl params vs context))"

fun first_match ::
  "rtl_compare \<Rightarrow> ParameterSet list option \<Rightarrow> rule list \<Rightarrow> (nat \<times> EvalResult) option option" where
  "first_match rtl params [] = Some None"
| "first_match rtl params ((conds, act) # rs) =
     Option.bind (conditions_hold rtl params conds MatchContext_Clear) (\<lambda>r.
       if r then Some (Some (length conds, act))
       else map_option (map_option (\<lambda>(i, a). (length conds + 1 + i, a))) (first_match rtl params rs))"

definition action_view :: "EvalResult \<Rightarrow> view" where
  "action_view act =
     (\<lparr>opcode_id = OpcodeID_code OP_ACTION, op_parameter = 0, op_options = 0,
       arguments = [EvalResult_code act, 0, 0, 0]\<rparr>, [])"

definition rule_views :: "rule \<Rightarrow> view list" where
  "rule_views r = fst r @ [action_view (snd r)]"

definition is_action :: "EvalResult \<Rightarrow> bool" where
  "is_action r \<longleftrightarrow> r \<notin> {EVAL_TRUE, EVAL_FALSE, EVAL_ERROR}"

definition conditions_only :: "rule \<Rightarrow> bool" where
  "conditions_only r \<longleftrightarrow> (\<forall>v \<in> set (fst r). \<not> IsAction (fst v)) \<and> is_action (snd r)"

lemma EvalResult_of_code [simp]: "EvalResult_of (EvalResult_code r) = Some r"
  by (cases r) (simp_all add: EvalResult_of_def EvalResult_code_def EvalResults_def)

lemma action_view_eval:
  "ps \<noteq> [] \<Longrightarrow> view_eval rtl (action_view act) (Some ps) context = Some (act, context)"
  by (simp add: view_eval_def action_view_def evaluate_opcode_def EvaluateHelper_def OpcodeID_code_def
      OpcodeEval_ACTION_def apply_options_def)

lemma bind_SomeD: "Option.bind x f = Some y \<Longrightarrow> \<exists>z. x = Some z \<and> f z = Some y"
  by (cases x) auto

lemma OpcodeEval_WSTRING_result:
  "OpcodeEval_WSTRING_MATCH rtl str op p context = Some (r, c) \<Longrightarrow> \<not> is_action r"
  unfolding OpcodeEval_WSTRING_MATCH_def Let_def
  by (auto simp: is_action_def dest!: bind_SomeD split: option.splits if_splits)

lemma evaluate_opcode_SomeD:
  assumes "evaluate_opcode rtl str op params c = Some (r, c')"
  shows "r = EVAL_ERROR \<or>
    (\<exists>p z. EvaluateHelper rtl str op p c = Some z \<and> apply_options (op_options op) z = (r, c'))"
proof (cases params)
  case (Some ps)
  let ?p = "if sint (op_parameter op) \<ge> 0 then Some (ps ! unat (op_parameter op)) else None"
  show ?thesis
  proof (cases "sint (op_parameter op) \<ge> 0 \<and> unat (op_parameter op) \<ge> length ps")
    case False
    then have "map_option (apply_options (op_options op)) (EvaluateHelper rtl str op ?p c) = Some (r, c')"
      using assms Some unfolding evaluate_opcode_def by (simp only: option.case if_False)
    then show ?thesis unfolding map_option_eq_Some by blast
  qed (use assms Some in \<open>simp add: evaluate_opcode_def\<close>)
qed (use assms in \<open>simp add: evaluate_opcode_def\<close>)

lemma condition_result:
  assumes "\<not> IsAction (fst v)" "view_eval rtl v params context = Some (r, c)"
  shows "\<not> is_action r"
proof -
  have h: "\<not> is_action x" if "EvaluateHelper rtl str (fst v) p ctx = Some (x, c')" for str p ctx x c'
    using that assms(1) unfolding EvaluateHelper_def IsAction_def
    by (auto simp: OpcodeID_code_def OpcodeEval_NUMBER_MATCH_def OpcodeEval_ULONG_MATCH_RANGE_def
        OpcodeEval_ULONG_AND_MATCH_def bool_result_def is_action_def dest!: bind_SomeD
        dest: OpcodeEval_WSTRING_result [unfolded is_action_def] split: option.splits if_splits)
  have o: "\<not> is_action (fst (apply_options opts (x, c')))" if "\<not> is_action x" for opts x c'
    using that by (cases x) (simp_all add: apply_options_def negate_result_def is_action_def)
  have "r = EVAL_ERROR \<or> (\<exists>p z. EvaluateHelper rtl (reader (snd v)) (fst v) p context = Some z \<and>
      apply_options (op_options (fst v)) z = (r, c))"
    using assms(2) unfolding view_eval_def by (rule evaluate_opcode_SomeD)
  then show ?thesis
  proof
    assume "\<exists>p z. EvaluateHelper rtl (reader (snd v)) (fst v) p context = Some z \<and>
      apply_options (op_options (fst v)) z = (r, c)"
    then obtain p x c' where z: "EvaluateHelper rtl (reader (snd v)) (fst v) p context = Some (x, c')"
      "apply_options (op_options (fst v)) (x, c') = (r, c)" by (metis surj_pair)
    from o [OF h [OF z(1)], of "op_options (fst v)" c'] show ?thesis unfolding z(2) by simp
  qed (simp add: is_action_def)
qed

text \<open>Skipping runs to the action of the rule, clears the context and goes on behind it.\<close>

lemma views_loop_skip:
  assumes "\<forall>v \<in> set conds. \<not> IsAction (fst v)" "ctx_options context \<noteq> kPolUseOREval"
  shows "views_loop rtl options params (conds @ action_view act # vs) ix context evaluation True st =
    views_loop rtl options params vs (ix + length conds + 1) MatchContext_Clear evaluation False st"
  using assms(1)
proof (induction conds arbitrary: ix)
  case Nil
  show ?case using assms(2) by (simp add: SkipOpcode_def action_view_def IsAction_def)
next
  case (Cons v conds)
  then show ?case by (simp add: SkipOpcode_def)
qed

text \<open>In the OR mode it stops at the action and takes it.\<close>

lemma views_loop_take:
  assumes "\<forall>v \<in> set conds. \<not> IsAction (fst v)" "ctx_options context = kPolUseOREval" "ps \<noteq> []" "is_action act"
  shows "views_loop rtl options (Some ps) (conds @ action_view act # vs) ix context evaluation True st =
    Some (POLICY_MATCH, SetInternalState (ix + length conds) act)"
  using assms(1)
proof (induction conds arbitrary: ix)
  case Nil
  show ?case using assms(2-4)
    by (simp add: SkipOpcode_def action_view_eval) (simp add: action_view_def IsAction_def is_action_def split: EvalResult.splits)
next
  case (Cons v conds)
  then show ?case by (simp add: SkipOpcode_def)
qed

lemma views_loop_rule:
  assumes "\<forall>v \<in> set conds. \<not> IsAction (fst v)" "ps \<noteq> []" "is_action act"
  shows "views_loop rtl options (Some ps) (conds @ action_view act # vs) ix context evaluation False st =
    Option.bind (conditions_hold rtl (Some ps) conds context) (\<lambda>r.
      if r then Some (POLICY_MATCH, SetInternalState (ix + length conds) act)
      else views_loop rtl options (Some ps) vs (ix + length conds + 1) MatchContext_Clear False False st)"
  using assms(1)
proof (induction conds arbitrary: ix "context" evaluation)
  case Nil
  show ?case using assms(2,3)
    by (cases act) (simp_all add: action_view_eval is_action_def)
next
  case (Cons v conds)
  have c: "\<forall>v \<in> set conds. \<not> IsAction (fst v)" using Cons.prems by simp
  note IH = Cons.IH [OF c]
  show ?case
  proof (cases "view_eval rtl v (Some ps) (Some context)")
    case (Some res)
    then obtain r ctx where r: "view_eval rtl v (Some ps) (Some context) = Some (r, ctx)" by (cases res) auto
    have "\<not> is_action r" using condition_result [OF _ r] Cons.prems by simp
    then have three: "r = EVAL_TRUE \<or> r = EVAL_FALSE \<or> r = EVAL_ERROR" by (simp add: is_action_def)
    show ?thesis
    proof (cases ctx)
      case (Some k)
      have take: "views_loop rtl options (Some ps) (conds @ action_view act # vs) ix' k e True st =
        Some (POLICY_MATCH, SetInternalState (ix' + length conds) act)" if "ctx_options k = kPolUseOREval" for ix' e
        by (rule views_loop_take [OF c that assms(2,3)])
      have skip: "views_loop rtl options (Some ps) (conds @ action_view act # vs) ix' k e True st =
        views_loop rtl options (Some ps) vs (ix' + length conds + 1) MatchContext_Clear e False st"
        if "ctx_options k \<noteq> kPolUseOREval" for ix' e
        by (rule views_loop_skip [OF c that])
      define L where "L = (\<lambda>e sk. views_loop rtl options (Some ps) (conds @ action_view act # vs) (Suc ix) k e sk st)"
      have step: "views_loop rtl options (Some ps) ((v # conds) @ action_view act # vs) ix context evaluation False st =
        (if r = EVAL_FALSE then L False (kPolUseOREval \<noteq> ctx_options k)
         else if r = EVAL_ERROR then L evaluation False
         else L True (kPolUseOREval = ctx_options k))"
        using three by (elim disjE) (simp_all add: r Some L_def)
      have hold: "conditions_hold rtl (Some ps) (v # conds) context =
        (if r = EVAL_TRUE \<and> kPolUseOREval = ctx_options k then Some True
         else if r = EVAL_FALSE \<and> kPolUseOREval \<noteq> ctx_options k then Some False
         else conditions_hold rtl (Some ps) conds k)"
        by (simp add: r Some)
      have len: "Suc ix + length conds = ix + length (v # conds)" by simp
      have L: "L e sk = (if sk then if ctx_options k = kPolUseOREval
          then Some (POLICY_MATCH, SetInternalState (ix + length (v # conds)) act)
          else views_loop rtl options (Some ps) vs (ix + length (v # conds) + 1) MatchContext_Clear e False st
        else Option.bind (conditions_hold rtl (Some ps) conds k) (\<lambda>r.
          if r then Some (POLICY_MATCH, SetInternalState (ix + length (v # conds)) act)
          else views_loop rtl options (Some ps) vs (ix + length (v # conds) + 1) MatchContext_Clear False False st))"
        for e sk
        unfolding L_def using take [of "Suc ix" e, unfolded len] skip [of "Suc ix" e, unfolded len]
          IH [of "Suc ix" k e, unfolded len]
        by (cases sk; cases "ctx_options k = kPolUseOREval") (simp_all only: if_True if_False simp_thms)
      show ?thesis unfolding step hold L using three by auto
    qed (use r in simp)
  qed simp
qed

lemma views_loop_first_match:
  assumes "\<forall>r \<in> set rules. conditions_only r" "ps \<noteq> []"
  shows "views_loop rtl options (Some ps) (concat (map rule_views rules)) ix MatchContext_Clear False False st =
    map_option (\<lambda>x. case x of None \<Rightarrow> (NO_POLICY_MATCH, st)
      | Some (i, a) \<Rightarrow> (POLICY_MATCH, SetInternalState (ix + i) a)) (first_match rtl (Some ps) rules)"
  using assms(1)
proof (induction rules arbitrary: ix)
  case (Cons r rules)
  obtain conds act where r: "r = (conds, act)" by (cases r)
  have c: "\<forall>v \<in> set conds. \<not> IsAction (fst v)" "is_action act"
    using Cons.prems by (simp_all add: r conditions_only_def)
  have IH: "views_loop rtl options (Some ps) (concat (map rule_views rules)) (ix + length conds + 1)
      MatchContext_Clear False False st =
    map_option (\<lambda>x. case x of None \<Rightarrow> (NO_POLICY_MATCH, st)
      | Some (i, a) \<Rightarrow> (POLICY_MATCH, SetInternalState (ix + length conds + 1 + i) a)) (first_match rtl (Some ps) rules)"
    using Cons.prems by (intro Cons.IH) simp
  have "views_loop rtl options (Some ps) (concat (map rule_views (r # rules))) ix MatchContext_Clear False False st =
    views_loop rtl options (Some ps) (conds @ action_view act # concat (map rule_views rules)) ix
      MatchContext_Clear False False st"
    by (simp add: r rule_views_def)
  then show ?case unfolding views_loop_rule [OF c(1) assms(2) c(2)] IH r first_match.simps
    by (cases "conditions_hold rtl (Some ps) conds MatchContext_Clear";
        cases "first_match rtl (Some ps) rules") (auto simp: add.assoc split: option.splits)
qed simp

definition policy_at :: "memory \<Rightarrow> nat \<Rightarrow> rule list \<Rightarrow> bool" where
  "policy_at m base rules \<longleftrightarrow> rd32 m base = Some (length (concat (map rule_views rules))) \<and>
     stored_from m (base + 4) (concat (map rule_views rules))"

lemma evaluate_first_match_list:
  assumes "policy_at m base rules" "\<forall>r \<in> set rules. conditions_only r" "ps \<noteq> []" "kShortEval AND options \<noteq> 0"
  shows "map_option (\<lambda>(r, st). (r, GetAction st)) (PolicyProcessor_Evaluate rtl m (Some base) options (Some ps) PolicyProcessor_init) =
    map_option (\<lambda>x. case x of None \<Rightarrow> (NO_POLICY_MATCH, EVAL_FALSE) | Some (i, a) \<Rightarrow> (POLICY_MATCH, a))
      (first_match rtl (Some ps) rules)"
proof -
  define vs where "vs = concat (map rule_views rules)"
  have n: "rd32 m base = Some (length vs)" and s: "stored_from m (base + 4) vs"
    using assms(1) by (simp_all add: policy_at_def vs_def)
  have "\<forall>i < length vs. stored_at m (opcode_address base (0 + i)) (vs ! i)"
    using s by (simp add: stored_from_def opcode_address_def add.assoc)
  note l = evaluate_loop_views [OF this]
  show ?thesis
  proof (cases "rules = []")
    case True
    then show ?thesis using n by (simp add: PolicyProcessor_Evaluate_def PolicyProcessor_init_def GetAction_def vs_def)
  next
    case False
    then have "length vs \<noteq> 0" by (cases rules) (simp_all add: rule_views_def vs_def)
    then have "PolicyProcessor_Evaluate rtl m (Some base) options (Some ps) PolicyProcessor_init =
      views_loop rtl options (Some ps) vs 0 MatchContext_Clear False False (SetInternalState 0 EVAL_FALSE)"
      unfolding PolicyProcessor_Evaluate_def option.case n Option.bind.simps l using assms(4) by (simp only: if_False)
    then have "PolicyProcessor_Evaluate rtl m (Some base) options (Some ps) PolicyProcessor_init =
      map_option (\<lambda>x. case x of None \<Rightarrow> (NO_POLICY_MATCH, SetInternalState 0 EVAL_FALSE)
        | Some (i, a) \<Rightarrow> (POLICY_MATCH, SetInternalState (0 + i) a)) (first_match rtl (Some ps) rules)"
      unfolding vs_def views_loop_first_match [OF assms(2,3)] .
    then show ?thesis
      by (cases "first_match rtl (Some ps) rules")
        (simp_all add: GetAction_def SetInternalState_def split: option.split prod.split)
  qed
qed

text \<open>
  C5 (equivalence): the evaluator decides as the first rule whose conditions hold, for every policy of
  rules in memory, every set of parameters and every comparison of strings: the policy matches with the
  action of that rule, or there is no match. It has no result exactly when a condition has none.
\<close>

theorem evaluate_first_match:
  assumes "policy_at m base rules" "\<forall>r \<in> set rules. conditions_only r" "ps \<noteq> []" "kShortEval AND options \<noteq> 0"
  shows "map_option (\<lambda>(r, st). (r, GetAction st)) (PolicyProcessor_Evaluate rtl m (Some base) options (Some ps) PolicyProcessor_init) =
    map_option (\<lambda>x. case x of None \<Rightarrow> (NO_POLICY_MATCH, EVAL_FALSE) | Some (i, a) \<Rightarrow> (POLICY_MATCH, a))
      (first_match rtl (Some ps) rules)"
  using assms by (rule evaluate_first_match_list)

end
