(* ===== verification/LowLevelPolicy.thy ===== *)
theory LowLevelPolicy
  imports PolicyProcessor
begin

text \<open>
  The rules of the sandbox policy and their packing into one piece of memory
  (\<open>src/sandbox/src/policy_low_level.cc\<close>): \<open>PolicyRule\<close> translates string patterns and number
  comparisons into opcodes in a buffer of its own, \<open>LowLevelPolicy\<close> copies the opcodes and strings of
  all rules of a service behind each other. The policy of a broker or target is then evaluated by
  \<open>EvalPolicy\<close> (\<open>sandbox_policy_base.cc\<close>) and \<open>QueryBroker\<close> (\<open>policy_target.cc\<close>).
\<close>

section \<open>Rules\<close>

abbreviation (input) kRuleBufferSize :: nat where "kRuleBufferSize \<equiv> 4096"
abbreviation (input) sizeof_PolicyBuffer :: nat where "sizeof_PolicyBuffer \<equiv> 28"

datatype pending = PENDING_NONE | PENDING_ASTERISK | PENDING_QMARK

abbreviation (input) kLastCharIsNone :: uint32 where "kLastCharIsNone \<equiv> 0"
abbreviation (input) kLastCharIsAlpha :: uint32 where "kLastCharIsAlpha \<equiv> 1"
abbreviation (input) kLastCharIsWild :: uint32 where "kLastCharIsWild \<equiv> 2"
abbreviation (input) kLastCharIsAsterisk :: uint32 where "kLastCharIsAsterisk \<equiv> 6"
abbreviation (input) kLastCharIsQuestionM :: uint32 where "kLastCharIsQuestionM \<equiv> 10"

datatype RuleType = IF | IF_NOT

datatype RuleOp = EQUAL | AND_OP | RANGE

text \<open>
  A rule owns a buffer, a \<open>PolicyBuffer\<close> with room for opcodes and strings, at address 0: the number of
  opcodes, then the opcodes from address 4 on.
\<close>

record policy_rule =
  rule_buffer :: memory
  rule_factory :: opcode_factory
  rule_action :: EvalResult
  rule_done :: bool

text \<open>The memory that \<open>new char[]\<close> answers holds anything; it is an argument.\<close>

definition PolicyRule_init :: "EvalResult \<Rightarrow> memory \<Rightarrow> policy_rule option" where
  "PolicyRule_init action garbage = do {
     guard (length garbage * 2 = sizeof_PolicyBuffer + kRuleBufferSize);
     m \<leftarrow> wr32 garbage 0 0;
     Some \<lparr>rule_buffer = m, rule_factory = OpcodeFactory_init 4 (kRuleBufferSize + sizeof_PolicyOpcode),
           rule_action = action, rule_done = False\<rparr>
   }"

definition GetOpcodeCount :: "policy_rule \<Rightarrow> uint32 option" where
  "GetOpcodeCount rule = rd32 (rule_buffer rule) 0"

definition PolicyRule_copy :: "policy_rule \<Rightarrow> policy_rule option" where
  "PolicyRule_copy other = do {
     n \<leftarrow> GetOpcodeCount other;
     let next_opcode = 4 + n * sizeof_PolicyOpcode;
     let buffer_end = 4 + kRuleBufferSize + sizeof_PolicyOpcode;
     Some (other\<lparr>rule_factory := OpcodeFactory_init next_opcode (buffer_end - next_opcode)\<rparr>)
   }"

text \<open>
  The factory's work for a rule: on success one more opcode is counted.
\<close>

definition add_opcode :: "(memory \<Rightarrow> opcode_factory \<Rightarrow> made) \<Rightarrow> policy_rule \<Rightarrow> (bool \<times> policy_rule) option" where
  "add_opcode mk rule = do {
     (opcode, m, f) \<leftarrow> mk (rule_buffer rule) (rule_factory rule);
     let rule = rule\<lparr>rule_buffer := m, rule_factory := f\<rparr>;
     case opcode of None \<Rightarrow> Some (False, rule)
     | Some _ \<Rightarrow> do {
         n \<leftarrow> GetOpcodeCount rule;
         m \<leftarrow> wr32 m 0 (add32 n 1);
         Some (True, rule\<lparr>rule_buffer := m\<rparr>)
       }
   }"

definition string_options :: "RuleType \<Rightarrow> bool \<Rightarrow> uint32" where
  "string_options rule_type last_call =
     (if last_call then (if rule_type = IF_NOT then kPolClearContext OR kPolNegateEval else kPolClearContext)
      else if rule_type = IF_NOT then kPolUseOREval OR kPolNegateEval else kPolNone)"

text \<open>
  \<open>GenStringOpcode\<close> answers whether it succeeded, the skip count, the fragment and the rule.
\<close>

definition GenStringOpcode ::
  "RuleType \<Rightarrow> uint32 \<Rightarrow> int16 \<Rightarrow> pending \<Rightarrow> bool \<Rightarrow> int32 \<Rightarrow> wstring \<Rightarrow> policy_rule \<Rightarrow>
     (bool \<times> int32 \<times> wstring \<times> policy_rule) option" where
  "GenStringOpcode rule_type match_opts parameter state last_call skip_count fragment rule =
     (let options = string_options rule_type last_call in
      if fragment = [] then do {
        n \<leftarrow> GetOpcodeCount rule;
        if last_call \<and> n > 0 then do {
          m \<leftarrow> SetOptions (rule_buffer rule) (opcode_address 0 (n - 1)) options;
          Some (True, skip_count, fragment, rule\<lparr>rule_buffer := m\<rparr>)
        }
        else Some (True, skip_count, fragment, rule)
      }
      else do {
        let (start, opts, skip_count) =
          (case state of
             PENDING_ASTERISK \<Rightarrow> (if last_call then kSeekToEnd else kSeekForward, match_opts, skip_count)
           | PENDING_QMARK \<Rightarrow> (skip_count, match_opts, 0)
           | PENDING_NONE \<Rightarrow> (0, if last_call then EXACT_LENGHT OR match_opts else match_opts, skip_count));
        (ok, rule) \<leftarrow> add_opcode (MakeOpWStringMatch parameter (Some fragment) start opts options) rule;
        Some (ok, skip_count, if ok then [] else fragment, rule)
      })"

abbreviation (input) asterisk :: wchar where "asterisk \<equiv> 42"
abbreviation (input) qmark :: wchar where "qmark \<equiv> 63"
abbreviation (input) slash :: wchar where "slash \<equiv> 47"

text \<open>
  The state machine of \<open>AddStringMatch\<close> over the characters of the pattern: the kind of the last
  character, what is pending, the number of question marks and the fragment. At the end of the pattern
  the pending opcode is made.
\<close>

function string_machine ::
  "RuleType \<Rightarrow> uint32 \<Rightarrow> int16 \<Rightarrow> wstring \<Rightarrow> uint32 \<Rightarrow> pending \<Rightarrow> int32 \<Rightarrow> wstring \<Rightarrow> policy_rule \<Rightarrow>
     (bool \<times> policy_rule) option" where
  "string_machine rule_type opts par [] last_char state skip_count fragment rule = do {
     (ok, _, _, rule) \<leftarrow> GenStringOpcode rule_type opts par state True skip_count fragment rule;
     Some (ok, rule)
   }"
| "string_machine rule_type opts par (c # cs) last_char state skip_count fragment rule =
     (if c = asterisk then
        (if kLastCharIsWild AND last_char \<noteq> 0 then Some (False, rule)
         else Option.bind (GenStringOpcode rule_type opts par state False skip_count fragment rule)
           (\<lambda>(ok, skip_count, fragment, rule).
             if \<not> ok then Some (False, rule)
             else string_machine rule_type opts par cs kLastCharIsAsterisk PENDING_ASTERISK skip_count fragment rule))
      else if c = qmark then
        (if kLastCharIsAsterisk = last_char then Some (False, rule)
         else Option.bind (GenStringOpcode rule_type opts par state False skip_count fragment rule)
           (\<lambda>(ok, skip_count, fragment, rule).
             if \<not> ok then Some (False, rule)
             else string_machine rule_type opts par cs kLastCharIsQuestionM PENDING_QMARK (skip_count + 1) fragment rule))
      else if c = slash \<and> cs \<noteq> [] \<and> hd cs = qmark then
        string_machine rule_type opts par (tl cs) kLastCharIsAlpha state skip_count (fragment @ [hd cs]) rule
      else string_machine rule_type opts par cs kLastCharIsAlpha state skip_count (fragment @ [c]) rule)"
  by pat_completeness auto

termination
  by (relation "measure (\<lambda>(_, _, _, cs, _). length cs)") auto

definition AddStringMatch ::
  "RuleType \<Rightarrow> int16 \<Rightarrow> wstring \<Rightarrow> uint32 \<Rightarrow> policy_rule \<Rightarrow> (bool \<times> policy_rule) option" where
  "AddStringMatch rule_type parameter string match_opts rule =
     (if rule_done rule then Some (False, rule)
      else string_machine rule_type match_opts parameter string kLastCharIsNone PENDING_NONE 0 [] rule)"

text \<open>A comparison that is neither of the two only counts an opcode.\<close>

definition AddNumberMatch ::
  "RuleType \<Rightarrow> int16 \<Rightarrow> uint32 \<Rightarrow> RuleOp \<Rightarrow> policy_rule \<Rightarrow> (bool \<times> policy_rule) option" where
  "AddNumberMatch rule_type parameter number comparison_op rule =
     (if rule_done rule then Some (False, rule)
      else let opts = (if rule_type = IF_NOT then kPolNegateEval else kPolNone) in
        add_opcode
          (case comparison_op of
             EQUAL \<Rightarrow> MakeOpNumberMatch parameter number opts
           | AND_OP \<Rightarrow> MakeOpUlongAndMatch parameter number opts
           | RANGE \<Rightarrow> (\<lambda>m f. Some (Some 0, m, f))) rule)"

definition PolicyRule_Done :: "policy_rule \<Rightarrow> (bool \<times> policy_rule) option" where
  "PolicyRule_Done rule =
     (if rule_done rule then Some (True, rule)
      else do {
        (ok, rule) \<leftarrow> add_opcode (MakeOpAction (rule_action rule) kPolNone) rule;
        Some (ok, if ok then rule\<lparr>rule_done := True\<rparr> else rule)
      })"

text \<open>
  \<open>RebindCopy\<close>: the opcodes go upwards from an address of the target memory, their strings
  downwards from another. It answers the target memory and the size that is left.
\<close>

primrec rebind_loop ::
  "memory \<Rightarrow> nat \<Rightarrow> nat \<Rightarrow> nat \<Rightarrow> uint32 \<Rightarrow> nat \<Rightarrow> uint32 \<Rightarrow> memory \<Rightarrow> (bool \<times> memory \<times> uint32) option" where
  "rebind_loop buffer 0 ix opcode_start opcode_size data_start data_size m = Some (True, m, data_size)"
| "rebind_loop buffer (Suc n) ix opcode_start opcode_size data_start data_size m =
     (if opcode_size < sizeof_PolicyOpcode then Some (False, m, data_size)
      else do {
        opcode \<leftarrow> read_opcode buffer (opcode_address 0 ix);
        m \<leftarrow> wr_units m opcode_start (opcode_units opcode);
        if opcode_id opcode = OpcodeID_code OP_WSTRING_MATCH then do {
          let str_len = arguments opcode ! 1 * 2 mod 2 ^ 32;
          if data_size < str_len then Some (False, m, data_size)
          else do {
            str \<leftarrow> GetRelativeString buffer (opcode_address 0 ix) opcode 0 (str_len div 2);
            guard (str_len \<le> data_start);
            let data_start = data_start - str_len;
            m \<leftarrow> wr_units m data_start str;
            m \<leftarrow> SetArgument m opcode_start 0 (sub32 data_start opcode_start);
            rebind_loop buffer n (Suc ix) (opcode_start + sizeof_PolicyOpcode)
              (opcode_size - sizeof_PolicyOpcode) data_start (data_size - str_len) m
          }
        }
        else rebind_loop buffer n (Suc ix) (opcode_start + sizeof_PolicyOpcode)
               (opcode_size - sizeof_PolicyOpcode) data_start data_size m
      })"

definition RebindCopy ::
  "policy_rule \<Rightarrow> nat \<Rightarrow> uint32 \<Rightarrow> nat \<Rightarrow> uint32 \<Rightarrow> memory \<Rightarrow> (bool \<times> memory \<times> uint32) option" where
  "RebindCopy rule opcode_start opcode_size data_start data_size m = do {
     count \<leftarrow> GetOpcodeCount rule;
     rebind_loop (rule_buffer rule) count 0 opcode_start opcode_size data_start data_size m
   }"

section \<open>The policy\<close>

text \<open>
  The policy store: the table of the services, with the address of the \<open>PolicyBuffer\<close> of each (\<open>None\<close>
  is null), and the data area, whose addresses start at 0.
\<close>

abbreviation (input) kMaxServiceCount :: nat where "kMaxServiceCount \<equiv> 32"

record policy_global =
  pg_entry :: "nat \<rightharpoonup> nat"
  pg_data_size :: uint32
  pg_data :: memory

record low_level_policy =
  llp_rules :: "(policy_rule \<times> int32) list"
  llp_store :: policy_global

definition LowLevelPolicy_init :: "policy_global \<Rightarrow> low_level_policy" where
  "LowLevelPolicy_init policy_store = \<lparr>llp_rules = [], llp_store = policy_store\<rparr>"

text \<open>\<open>AddRule\<close> finishes the rule of the caller and keeps a copy of it.\<close>

definition AddRule ::
  "int32 \<Rightarrow> policy_rule \<Rightarrow> low_level_policy \<Rightarrow> (bool \<times> policy_rule \<times> low_level_policy) option" where
  "AddRule service rule p = do {
     (ok, rule) \<leftarrow> PolicyRule_Done rule;
     if \<not> ok then Some (False, rule, p)
     else do {
       local_rule \<leftarrow> PolicyRule_copy rule;
       Some (True, rule, p\<lparr>llp_rules := llp_rules p @ [(local_rule, service)]\<rparr>)
     }
   }"

text \<open>The rules of one service, each copied behind the others: the memory, the available size (which
  is also the end of the free space) and the number of opcodes.\<close>

primrec place_rules ::
  "policy_rule list \<Rightarrow> nat \<Rightarrow> nat \<Rightarrow> uint32 \<Rightarrow> uint32 \<Rightarrow> memory \<Rightarrow>
     (bool \<times> memory \<times> nat \<times> uint32 \<times> uint32) option" where
  "place_rules [] current_buffer buffer_end avail_size svc_opcode_count m =
     Some (True, m, buffer_end, avail_size, svc_opcode_count)"
| "place_rules (rule # rules) current_buffer buffer_end avail_size svc_opcode_count m = do {
     op_count \<leftarrow> GetOpcodeCount rule;
     let opcodes_size = op_count * sizeof_PolicyOpcode mod 2 ^ 32;
     if avail_size < opcodes_size then Some (False, m, buffer_end, avail_size, svc_opcode_count)
     else do {
       (ok, m, data_size) \<leftarrow> RebindCopy rule (opcode_address current_buffer svc_opcode_count) opcodes_size
         buffer_end (avail_size - opcodes_size) m;
       if \<not> ok then Some (False, m, buffer_end, avail_size, svc_opcode_count)
       else do {
         let used = avail_size - data_size;
         guard (used \<le> buffer_end);
         place_rules rules current_buffer (buffer_end - used) (avail_size - used)
           (add32 svc_opcode_count op_count) m
       }
     }
   }"

primrec place_services ::
  "(uint32 \<times> policy_rule list) list \<Rightarrow> nat \<Rightarrow> nat \<Rightarrow> uint32 \<Rightarrow> policy_global \<Rightarrow> (bool \<times> policy_global) option" where
  "place_services [] current_buffer buffer_end avail_size p = Some (True, p)"
| "place_services (entry # rest) current_buffer buffer_end avail_size p = (case entry of (service, rules) \<Rightarrow>
     (if service \<ge> kMaxServiceCount then Some (False, p)
      else do {
        let p = p\<lparr>pg_entry := (pg_entry p)(service \<mapsto> current_buffer)\<rparr>;
        (ok, m, buffer_end, avail_size, svc_opcode_count) \<leftarrow>
          place_rules rules current_buffer buffer_end avail_size 0 (pg_data p);
        if \<not> ok then Some (False, p\<lparr>pg_data := m\<rparr>)
        else do {
          old \<leftarrow> rd32 m current_buffer;
          m \<leftarrow> wr32 m current_buffer (add32 old svc_opcode_count);
          let policy_byte_count = svc_opcode_count * sizeof_PolicyOpcode mod 2 ^ 32 div sizeof_PolicyBuffer;
          place_services rest (current_buffer + sizeof_PolicyBuffer * (policy_byte_count + 1))
            buffer_end avail_size (p\<lparr>pg_data := m\<rparr>)
        }
      }))"

text \<open>The map from services to their rules, in the order of the services.\<close>

definition rules_by_service :: "(policy_rule \<times> int32) list \<Rightarrow> (uint32 \<times> policy_rule list) list" where
  "rules_by_service nodes =
     map (\<lambda>s. (s, map fst (filter (\<lambda>(_, service). to_uint32 service = s) nodes)))
       (sort (remdups (map (\<lambda>(_, service). to_uint32 service) nodes)))"

definition LowLevelPolicy_Done :: "low_level_policy \<Rightarrow> (bool \<times> low_level_policy) option" where
  "LowLevelPolicy_Done p = do {
     let size = pg_data_size (llp_store p);
     (ok, store) \<leftarrow> place_services (rules_by_service (llp_rules p)) 0 size size (llp_store p);
     Some (ok, p\<lparr>llp_store := store\<rparr>)
   }"

section \<open>Using a policy\<close>

text \<open>\<open>None\<close> for the policy is the null pointer. An invalid parameter and an outcome in error stop a
  debug build.\<close>

definition EvalPolicy ::
  "rtl_compare \<Rightarrow> policy_global option \<Rightarrow> nat \<Rightarrow> ParameterSet list \<Rightarrow> EvalResult option" where
  "EvalPolicy rtl policy service params =
     (case policy of None \<Rightarrow> Some DENY_ACCESS
      | Some p \<Rightarrow> do {
          guard (service < kMaxServiceCount);
          if pg_entry p service = None then Some DENY_ACCESS
          else do {
            guard (\<forall>q \<in> set params. IsValid q);
            (result, st) \<leftarrow> PolicyProcessor_Evaluate rtl (pg_data p) (pg_entry p service) kShortEval
              (Some params) PolicyProcessor_init;
            if result = POLICY_MATCH then Some (GetAction st)
            else do {
              guard (result \<noteq> POLICY_ERROR);
              Some DENY_ACCESS
            }
          }
        })"

end
