(* ===== verification/PolicyMemory.thy ===== *)
theory PolicyMemory
  imports PolicyProcessor
begin

text \<open>
  Reading and writing the memory of the sandbox policy: what a write changes and what it keeps, and
  what the opcodes that the factory of \<open>policy_engine_opcodes.cc\<close> makes read back as.
\<close>

section \<open>Reads and writes\<close>

lemma wr_units_SomeD:
  "wr_units m a us = Some m' \<Longrightarrow> even a \<and> a div 2 + length us \<le> length m \<and> length m' = length m"
  by (auto simp: wr_units_def split: if_splits)

lemma wr_units_Some: "even a \<Longrightarrow> a div 2 + length us \<le> length m \<Longrightarrow> \<exists>m'. wr_units m a us = Some m'"
  by (simp add: wr_units_def)

lemma rd_units_length: "rd_units m a n = Some us \<Longrightarrow> length us = n"
  by (auto simp: rd_units_def split: if_splits)

lemma half_add: "even (a :: nat) \<Longrightarrow> (a + 2 * k) div 2 = a div 2 + k"
  by (simp add: div_plus_div_distrib_dvd_left)

lemma take_drop_write:
  assumes "i + length us \<le> length m" "j + n \<le> i \<or> i + length us \<le> j"
  shows "take n (drop j (take i m @ us @ drop (i + length us) m)) = take n (drop j m)"
  using assms by (intro nth_equalityI) (auto simp: nth_append)

lemma rd_wr_other:
  assumes "wr_units m a us = Some m'" "b + 2 * n \<le> a \<or> a + 2 * length us \<le> b"
  shows "rd_units m' b n = rd_units m b n"
proof (cases "even b")
  case True
  have w: "even a" "a div 2 + length us \<le> length m" "m' = take (a div 2) m @ us @ drop (a div 2 + length us) m"
    using assms(1) by (auto simp: wr_units_def split: if_splits)
  obtain i where i: "a = 2 * i" using w(1) by blast
  obtain j where j: "b = 2 * j" using True by blast
  have d: "j + n \<le> i \<or> i + length us \<le> j" using assms(2) i j by linarith
  have e: "a div 2 = i" using i by simp
  have "take n (drop j m') = take n (drop j m)"
    unfolding w(3) e by (rule take_drop_write) (use w(2) e d in simp_all)
  moreover have "length m' = length m" using w by simp
  ultimately show ?thesis by (simp add: rd_units_def j)
qed (simp add: rd_units_def)

lemma take_drop_inside:
  assumes "i + n \<le> length m" "k + length vs \<le> n"
  shows "take n (drop i (take (i + k) m @ vs @ drop (i + k + length vs) m)) =
    take k (take n (drop i m)) @ vs @ drop (k + length vs) (take n (drop i m))"
  using assms by (intro nth_equalityI) (auto simp: nth_append algebra_simps)

lemma rd_wr_inside:
  assumes "rd_units m a n = Some us" "wr_units m (a + 2 * k) vs = Some m'" "k + length vs \<le> n"
  shows "rd_units m' a n = Some (take k us @ vs @ drop (k + length vs) us)"
proof -
  have r: "even a" "a div 2 + n \<le> length m" "us = take n (drop (a div 2) m)"
    using assms(1) by (auto simp: rd_units_def split: if_splits)
  have h: "(a + 2 * k) div 2 = a div 2 + k" using r(1) by (rule half_add)
  have w: "m' = take (a div 2 + k) m @ vs @ drop (a div 2 + k + length vs) m" "length m' = length m"
    using assms(2) wr_units_SomeD [OF assms(2)] by (auto simp: wr_units_def h split: if_splits)
  show ?thesis using r(1,2) w(2) take_drop_inside [OF r(2) assms(3)]
    by (simp add: rd_units_def r(3) w(1))
qed

lemma rd_wr_same:
  assumes "wr_units m a us = Some m'"
  shows "rd_units m' a (length us) = Some us"
proof -
  have w: "even a" "a div 2 + length us \<le> length m" using wr_units_SomeD [OF assms] by blast+
  then obtain old where old: "rd_units m a (length us) = Some old" by (simp add: rd_units_def)
  have "rd_units m' a (length us) = Some (take 0 old @ us @ drop (0 + length us) old)"
    by (rule rd_wr_inside [OF old]) (use assms in simp_all)
  then show ?thesis using rd_units_length [OF old] by simp
qed

lemma rd_units_prefix:
  "rd_units m a (n + k) = Some us \<Longrightarrow> rd_units m a n = Some (take n us)"
  by (auto simp: rd_units_def split: if_splits)

section \<open>32-bit values\<close>

lemma value32_words32 [simp]: "n < 2 ^ 32 \<Longrightarrow> value32 (words32 n) = n"
proof -
  assume n: "n < 2 ^ 32"
  have "unat (word_of_nat n :: 16 word) = n mod 2 ^ 16" "unat (word_of_nat (n div 2 ^ 16) :: 16 word) = n div 2 ^ 16"
    using n by (simp_all add: unsigned_of_nat take_bit_eq_mod less_mult_imp_div_less)
  then show ?thesis by (simp add: words32_def)
qed

lemma length_words32 [simp]: "length (words32 n) = 2"
  by (simp add: words32_def)

lemma wr32_SomeD: "wr32 m a n = Some m' \<Longrightarrow> even a \<and> a div 2 + 2 \<le> length m \<and> length m' = length m"
  unfolding wr32_def by (drule wr_units_SomeD) simp

lemma rd32_wr32_same: "wr32 m a n = Some m' \<Longrightarrow> n < 2 ^ 32 \<Longrightarrow> rd32 m' a = Some n"
  unfolding wr32_def rd32_def using rd_wr_same [of m a "words32 n" m'] by simp

section \<open>What a step keeps\<close>

text \<open>Everything outside of a range of addresses reads as before.\<close>

definition kept :: "nat \<Rightarrow> nat \<Rightarrow> memory \<Rightarrow> memory \<Rightarrow> bool" where
  "kept lo hi m m' \<longleftrightarrow> length m' = length m \<and>
     (\<forall>b n. b + 2 * n \<le> lo \<or> hi \<le> b \<longrightarrow> rd_units m' b n = rd_units m b n)"

lemma kept_length: "kept lo hi m m' \<Longrightarrow> length m' = length m"
  by (simp add: kept_def)

lemma kept_rd: "kept lo hi m m' \<Longrightarrow> b + 2 * n \<le> lo \<or> hi \<le> b \<Longrightarrow> rd_units m' b n = rd_units m b n"
  unfolding kept_def by blast

lemma kept_rd32: "kept lo hi m m' \<Longrightarrow> b + 4 \<le> lo \<or> hi \<le> b \<Longrightarrow> rd32 m' b = rd32 m b"
  unfolding rd32_def using kept_rd [of lo hi m m' b 2] by simp

lemma kept_opcode: "kept lo hi m m' \<Longrightarrow> b + 24 \<le> lo \<or> hi \<le> b \<Longrightarrow> read_opcode m' b = read_opcode m b"
  unfolding read_opcode_def using kept_rd [of lo hi m m' b 12] by simp

lemma kept_same [simp]: "kept lo hi m m"
  by (simp add: kept_def)

lemma kept_trans: "kept lo hi m m' \<Longrightarrow> kept lo hi m' m'' \<Longrightarrow> kept lo hi m m''"
  by (auto simp: kept_def)

lemma kept_mono: "kept lo hi m m' \<Longrightarrow> lo' \<le> lo \<Longrightarrow> hi \<le> hi' \<Longrightarrow> kept lo' hi' m m'"
  unfolding kept_def by (meson le_trans)

lemma kept_write: "wr_units m a us = Some m' \<Longrightarrow> kept a (a + 2 * length us) m m'"
  using rd_wr_other [of m a us m'] wr_units_SomeD [of m a us m'] by (simp add: kept_def)

section \<open>Opcodes\<close>

definition op_bounded :: "policy_opcode \<Rightarrow> bool" where
  "op_bounded op \<longleftrightarrow> opcode_id op < 2 ^ 32 \<and> length (arguments op) = 4 \<and> (\<forall>v \<in> set (arguments op). v < 2 ^ 32)"

lemma list4_cases: "length xs = 4 \<Longrightarrow> \<exists>a b c d. xs = [a, b, c, d]"
  by (auto simp: numeral_eq_Suc length_Suc_conv)

lemma length_opcode_units [simp]: "length (arguments op) = 4 \<Longrightarrow> length (opcode_units op) = 12"
  by (auto simp: opcode_units_def dest!: list4_cases)

lemma words32_explicit: "words32 n = [word_of_nat n, word_of_nat (n div 65536)]"
  by (simp add: words32_def)

lemma units_opcode_units:
  assumes "op_bounded op"
  shows "units_opcode (opcode_units op) = op"
proof -
  obtain a b c d where args: "arguments op = [a, b, c, d]" using assms list4_cases op_bounded_def by metis
  have v: "value32 [word_of_nat n, word_of_nat (n div 65536)] = n" if "n < 2 ^ 32" for n
    using value32_words32 [OF that] unfolding words32_explicit .
  have "opcode_id op < 2 ^ 32" "a < 2 ^ 32" "b < 2 ^ 32" "c < 2 ^ 32" "d < 2 ^ 32"
    using assms by (simp_all add: op_bounded_def args)
  note v = this [THEN v]
  have u: "[0 ..< 4] = [0, 1, 2, 3 :: nat]" by (simp add: upt_rec)
  show ?thesis unfolding units_opcode_def opcode_units_def args words32_explicit u
    by (cases op) (use args v in \<open>simp del: value32.simps\<close>)
qed

lemma read_written_opcode:
  assumes "wr_units m a (opcode_units op) = Some m'" "op_bounded op"
  shows "read_opcode m' a = Some op"
proof -
  have "length (opcode_units op) = 12" using assms(2) by (simp add: op_bounded_def)
  then show ?thesis using rd_wr_same [OF assms(1)] units_opcode_units [OF assms(2)]
    by (simp add: read_opcode_def)
qed

lemma units12_cases:
  "length us = 12 \<Longrightarrow> \<exists>a b c d e f g h i j k l. us = [a, b, c, d, e, f, g, h, i, j, k, l]"
  by (auto simp: numeral_eq_Suc length_Suc_conv)

lemma read_opcode_length: "read_opcode m a = Some op \<Longrightarrow> length (arguments op) = 4"
  by (auto simp: read_opcode_def units_opcode_def)

lemma units_set_argument:
  assumes "length us = 12" "i < 4" "v < 2 ^ 32"
  shows "units_opcode (take (4 + 2 * i) us @ words32 v @ drop (4 + 2 * i + 2) us) =
    (units_opcode us)\<lparr>arguments := (arguments (units_opcode us))[i := v]\<rparr>"
proof -
  obtain a b c d e f g h x j k l where us: "us = [a, b, c, d, e, f, g, h, x, j, k, l]"
    using units12_cases [OF assms(1)] by blast
  have u: "[0 ..< 4] = [0, 1, 2, 3 :: nat]" by (simp add: upt_rec)
  have w: "value32 [word_of_nat v, word_of_nat (v div 65536)] = v"
    using value32_words32 [OF assms(3)] unfolding words32_explicit .
  have "i = 0 \<or> i = 1 \<or> i = 2 \<or> i = 3" using assms(2) by auto
  then show ?thesis unfolding us units_opcode_def words32_explicit u
    by (elim disjE) (simp_all add: w del: value32.simps)
qed

lemma SetArgument_read:
  assumes "read_opcode m a = Some op" "i < 4" "v < 2 ^ 32"
  shows "\<exists>m'. SetArgument m a i v = Some m' \<and>
    read_opcode m' a = Some (op\<lparr>arguments := (arguments op)[i := v]\<rparr>) \<and> kept (a + 8 + 4 * i) (a + 8 + 4 * i + 4) m m'"
proof -
  obtain us where us: "rd_units m a 12 = Some us" "op = units_opcode us"
    using assms(1) by (auto simp: read_opcode_def)
  have l: "even a" "a div 2 + 12 \<le> length m" using us(1) by (auto simp: rd_units_def split: if_splits)
  have a: "a + 8 + 4 * i = a + 2 * (4 + 2 * i)" by simp
  have "\<exists>m'. wr_units m (a + 2 * (4 + 2 * i)) (words32 v) = Some m'"
    by (rule wr_units_Some) (use l assms(2) half_add [OF l(1), of "4 + 2 * i"] in simp_all)
  then obtain m' where m': "wr_units m (a + 2 * (4 + 2 * i)) (words32 v) = Some m'" ..
  have "rd_units m' a 12 = Some (take (4 + 2 * i) us @ words32 v @ drop (4 + 2 * i + 2) us)"
    using rd_wr_inside [OF us(1) m'] assms(2) by simp
  then have "read_opcode m' a = Some (op\<lparr>arguments := (arguments op)[i := v]\<rparr>)"
    using units_set_argument [OF rd_units_length [OF us(1)] assms(2,3)] us(2) by (simp add: read_opcode_def)
  moreover have "SetArgument m a i v = Some m'"
    using m' assms(2) unfolding SetArgument_def wr32_def a by simp
  moreover have "kept (a + 8 + 4 * i) (a + 8 + 4 * i + 4) m m'"
    using kept_write [OF m'] unfolding a by simp
  ultimately show ?thesis by blast
qed

lemma SetOptions_read:
  assumes "read_opcode m a = Some op"
  shows "\<exists>m'. SetOptions m a v = Some m' \<and>
    read_opcode m' a = Some (op\<lparr>op_options := word_of_nat v\<rparr>) \<and> kept (a + 6) (a + 8) m m'"
proof -
  obtain us where us: "rd_units m a 12 = Some us" "op = units_opcode us"
    using assms(1) by (auto simp: read_opcode_def)
  have l: "even a" "a div 2 + 12 \<le> length m" using us(1) by (auto simp: rd_units_def split: if_splits)
  have "\<exists>m'. wr_units m (a + 2 * 3) [word_of_nat v] = Some m'"
    by (rule wr_units_Some) (use l half_add [OF l(1), of 3] in simp_all)
  then obtain m' where m': "wr_units m (a + 2 * 3) [word_of_nat v] = Some m'" ..
  have r: "rd_units m' a 12 = Some (take 3 us @ [word_of_nat v] @ drop (3 + 1) us)"
    using rd_wr_inside [OF us(1) m'] by simp
  obtain b c d e f g h i j k l n where e: "us = [b, c, d, e, f, g, h, i, j, k, l, n]"
    using units12_cases [OF rd_units_length [OF us(1)]] by blast
  have u: "[0 ..< 4] = [0, 1, 2, 3 :: nat]" by (simp add: upt_rec)
  have "units_opcode (take 3 us @ [word_of_nat v] @ drop (3 + 1) us) = (units_opcode us)\<lparr>op_options := word_of_nat v\<rparr>"
    unfolding e units_opcode_def u by simp
  then have "read_opcode m' a = Some (op\<lparr>op_options := word_of_nat v\<rparr>)"
    using r us(2) by (simp add: read_opcode_def)
  then show ?thesis using m' kept_write [OF m'] by (intro exI [of _ m']) (simp add: SetOptions_def add.commute)
qed

section \<open>What the factory makes\<close>

text \<open>An opcode in its place, with its string within a range of addresses.\<close>

definition placed :: "memory \<Rightarrow> nat \<Rightarrow> nat \<Rightarrow> nat \<Rightarrow> view \<Rightarrow> bool" where
  "placed m a lo hi v \<longleftrightarrow> view_ok v \<and>
     (\<exists>d. read_opcode m a = Some ((fst v)\<lparr>arguments := (arguments (fst v))[0 := d]\<rparr>) \<and>
       (if string_op (fst v)
        then lo \<le> add32 a d \<and> add32 a d + 2 * length (snd v) \<le> hi \<and>
          rd_units m (add32 a d) (length (snd v)) = Some (snd v)
        else d = arguments (fst v) ! 0))"

lemma placed_stored: "placed m a lo hi v \<Longrightarrow> stored_at m a v"
  unfolding placed_def stored_at_def by (auto split: if_splits)

lemma placed_mono: "placed m a lo hi v \<Longrightarrow> lo' \<le> lo \<Longrightarrow> hi \<le> hi' \<Longrightarrow> placed m a lo' hi' v"
  unfolding placed_def by (auto split: if_splits)

lemma placed_kept:
  assumes "placed m a lo hi v" "kept x y m m'" "a + 24 \<le> x \<or> y \<le> a" "hi \<le> x \<or> y \<le> lo"
  shows "placed m' a lo hi v"
proof -
  have "rd_units m' b n = rd_units m b n" if "lo \<le> b" "b + 2 * n \<le> hi" for b n
    using that assms(4) by (intro kept_rd [OF assms(2)]) linarith
  then show ?thesis using assms(1) kept_opcode [OF assms(2,3)] unfolding placed_def by (auto split: if_splits)
qed

definition plain_view :: "OpcodeID \<Rightarrow> uint32 \<Rightarrow> int16 \<Rightarrow> uint32 list \<Rightarrow> view" where
  "plain_view oid opts par args =
     (\<lparr>opcode_id = OpcodeID_code oid, op_parameter = par, op_options = word_of_nat opts,
       arguments = args @ replicate (4 - length args) 0\<rparr>, [])"

definition string_view :: "int16 \<Rightarrow> wstring \<Rightarrow> int32 \<Rightarrow> uint32 \<Rightarrow> uint32 \<Rightarrow> view" where
  "string_view par s start match_opts opts =
     (\<lparr>opcode_id = 5, op_parameter = par, op_options = word_of_nat opts,
       arguments = [0, length s, to_uint32 start, match_opts]\<rparr>, s)"

definition factory_ok :: "memory \<Rightarrow> opcode_factory \<Rightarrow> bool" where
  "factory_ok m f \<longleftrightarrow> even (memory_top f) \<and> even (memory_bottom f) \<and> memory_top f \<le> memory_bottom f \<and>
     memory_bottom f \<le> 2 * length m \<and> length m < 2 ^ 15"

lemma memory_size_eq: "factory_ok m f \<Longrightarrow> memory_size f = memory_bottom f - memory_top f"
  by (simp add: memory_size_def factory_ok_def)

lemma OpcodeID_code_bound: "OpcodeID_code oid < 2 ^ 32"
  by (cases oid) (simp_all add: OpcodeID_code_def)

lemma MakeBase_room:
  assumes "factory_ok m f" "memory_top f + 24 \<le> memory_bottom f"
  shows "\<exists>m'. MakeBase oid opts par m f = Some (Some (memory_top f), m', f\<lparr>memory_top := memory_top f + 24\<rparr>) \<and>
    read_opcode m' (memory_top f) = Some (fst (plain_view oid opts par [])) \<and>
    kept (memory_top f) (memory_top f + 24) m m'"
proof -
  let ?op = "fst (plain_view oid opts par [])"
  have b: "op_bounded ?op" using OpcodeID_code_bound [of oid] by (auto simp: op_bounded_def plain_view_def)
  then have l: "length (opcode_units ?op) = 12" by (simp add: op_bounded_def)
  have "\<exists>m'. wr_units m (memory_top f) (opcode_units ?op) = Some m'"
    by (rule wr_units_Some) (use assms l in \<open>auto simp: factory_ok_def\<close>)
  then obtain m' where m': "wr_units m (memory_top f) (opcode_units ?op) = Some m'" ..
  have r: "?op = \<lparr>opcode_id = OpcodeID_code oid, op_parameter = par, op_options = word_of_nat opts, arguments = [0, 0, 0, 0]\<rparr>"
    by (simp add: plain_view_def numeral_eq_Suc)
  have "\<not> memory_size f < sizeof_PolicyOpcode" using assms by (simp add: memory_size_eq)
  then have "MakeBase oid opts par m f = Some (Some (memory_top f), m', f\<lparr>memory_top := memory_top f + 24\<rparr>)"
    using m' unfolding MakeBase_def r Let_def by simp
  then show ?thesis using read_written_opcode [OF m' b] kept_write [OF m'] l by auto
qed

lemma MakeBase_full:
  "factory_ok m f \<Longrightarrow> memory_bottom f < memory_top f + 24 \<Longrightarrow> MakeBase oid opts par m f = Some (None, m, f)"
  by (auto simp: MakeBase_def memory_size_eq)

lemma set_arguments_read:
  assumes "read_opcode m a = Some op" "i + length vs \<le> 4" "\<forall>v \<in> set vs. v < 2 ^ 32"
  shows "\<exists>m'. set_arguments a i vs m = Some m' \<and>
    read_opcode m' a = Some (op\<lparr>arguments := take i (arguments op) @ vs @ drop (i + length vs) (arguments op)\<rparr>) \<and>
    kept (a + 8) (a + 24) m m'"
  using assms
proof (induction vs arbitrary: i m op)
  case Nil
  then show ?case by (cases op) simp
next
  case (Cons v vs)
  have l: "length (arguments op) = 4" using Cons.prems(1) by (rule read_opcode_length)
  have "i < 4" "v < 2 ^ 32" using Cons.prems by simp_all
  from SetArgument_read [OF Cons.prems(1) this] obtain m1 where m1: "SetArgument m a i v = Some m1"
    "read_opcode m1 a = Some (op\<lparr>arguments := (arguments op)[i := v]\<rparr>)" "kept (a + 8 + 4 * i) (a + 8 + 4 * i + 4) m m1"
    by blast
  have "Suc i + length vs \<le> 4" "\<forall>v \<in> set vs. v < 2 ^ 32" using Cons.prems by simp_all
  from Cons.IH [OF m1(2) this] obtain m2 where m2: "set_arguments a (Suc i) vs m1 = Some m2"
    "read_opcode m2 a = Some (op\<lparr>arguments := take (Suc i) ((arguments op)[i := v]) @ vs @
       drop (Suc i + length vs) ((arguments op)[i := v])\<rparr>)" "kept (a + 8) (a + 24) m1 m2"
    by auto
  have "take (Suc i) ((arguments op)[i := v]) @ vs @ drop (Suc i + length vs) ((arguments op)[i := v]) =
    take i (arguments op) @ (v # vs) @ drop (i + length (v # vs)) (arguments op)"
    using \<open>i < 4\<close> l by (simp add: take_Suc_conv_app_nth)
  note e = this
  have "read_opcode m2 a = Some (op\<lparr>arguments := take i (arguments op) @ (v # vs) @
      drop (i + length (v # vs)) (arguments op)\<rparr>)"
    by (rule m2(2) [unfolded e])
  moreover have "kept (a + 8) (a + 24) m m2"
    by (rule kept_trans [OF kept_mono [OF m1(3)] m2(3)]) (use \<open>i < 4\<close> in simp_all)
  moreover have "set_arguments a i (v # vs) m = Some m2"
    unfolding set_arguments.simps m1(1) Option.bind.simps by (rule m2(1))
  ultimately show ?case by blast
qed

text \<open>
  A way of making opcodes makes a view when, in every memory, it either answers null for want of room or puts the view
  at the top of the free memory, with its string at the bottom of it, and touches nothing else.
\<close>

definition room :: "opcode_factory \<Rightarrow> nat" where
  "room f = memory_bottom f - memory_top f"

definition cost :: "view \<Rightarrow> nat" where
  "cost v = 26 + 2 * length (snd v)"

definition makes :: "(memory \<Rightarrow> opcode_factory \<Rightarrow> made) \<Rightarrow> view \<Rightarrow> bool" where
  "makes mk v \<longleftrightarrow> (\<forall>m f. factory_ok m f \<longrightarrow>
     (\<exists>m' f'. mk m f = Some (None, m', f') \<and> room f < cost v) \<or>
     (\<exists>m' f'. mk m f = Some (Some (memory_top f), m', f') \<and> factory_ok m' f' \<and>
        memory_top f' = memory_top f + 24 \<and> memory_bottom f' \<le> memory_bottom f \<and> room f \<le> room f' + cost v \<and>
        kept (memory_top f) (memory_bottom f) m m' \<and>
        placed m' (memory_top f) (memory_bottom f') (memory_bottom f) v))"

lemma make_with_makes:
  assumes "oid \<noteq> OP_WSTRING_MATCH" "length args \<le> 4" "\<forall>v \<in> set args. v < 2 ^ 32"
  shows "makes (make_with oid opts par args) (plain_view oid opts par args)"
  unfolding makes_def
proof (intro allI impI)
  fix m f assume f: "factory_ok m f"
  show "(\<exists>m' f'. make_with oid opts par args m f = Some (None, m', f') \<and> room f < cost (plain_view oid opts par args)) \<or>
     (\<exists>m' f'. make_with oid opts par args m f = Some (Some (memory_top f), m', f') \<and> factory_ok m' f' \<and>
        memory_top f' = memory_top f + 24 \<and> memory_bottom f' \<le> memory_bottom f \<and>
        room f \<le> room f' + cost (plain_view oid opts par args) \<and>
        kept (memory_top f) (memory_bottom f) m m' \<and>
        placed m' (memory_top f) (memory_bottom f') (memory_bottom f) (plain_view oid opts par args))"
  proof (cases "memory_top f + 24 \<le> memory_bottom f")
    case True
    from MakeBase_room [OF f True] obtain m1 where m1:
      "MakeBase oid opts par m f = Some (Some (memory_top f), m1, f\<lparr>memory_top := memory_top f + 24\<rparr>)"
      "read_opcode m1 (memory_top f) = Some (fst (plain_view oid opts par []))"
      "kept (memory_top f) (memory_top f + 24) m m1" by blast
    have view: "(fst (plain_view oid opts par []))\<lparr>arguments :=
        take 0 (arguments (fst (plain_view oid opts par []))) @ args @
        drop (0 + length args) (arguments (fst (plain_view oid opts par [])))\<rparr> = fst (plain_view oid opts par args)"
      by (simp add: plain_view_def)
    have "0 + length args \<le> 4" using assms(2) by simp
    from set_arguments_read [OF m1(2) this assms(3), unfolded view] obtain m2 where m2:
      "set_arguments (memory_top f) 0 args m1 = Some m2"
      "read_opcode m2 (memory_top f) = Some (fst (plain_view oid opts par args))"
      "kept (memory_top f + 8) (memory_top f + 24) m1 m2"
      by blast
    have k: "kept (memory_top f) (memory_bottom f) m m2"
      by (rule kept_trans [OF kept_mono [OF m1(3)] kept_mono [OF m2(3)]]) (use True in simp_all)
    have "\<not> string_op (fst (plain_view oid opts par args))"
      using assms(1) by (cases oid) (simp_all add: string_op_def plain_view_def OpcodeID_code_def)
    moreover have "length (arguments (fst (plain_view oid opts par args))) = 4"
      using assms(2) by (simp add: plain_view_def)
    ultimately have "placed m2 (memory_top f) (memory_bottom f) (memory_bottom f) (plain_view oid opts par args)"
      unfolding placed_def view_ok_def using m2(2)
      by (intro conjI exI [of _ "arguments (fst (plain_view oid opts par args)) ! 0"])
        (simp_all add: plain_view_def)
    then show ?thesis using k m1(1) m2(1) f True kept_length [OF k]
      by (simp add: make_with_def factory_ok_def room_def cost_def)
  next
    case False
    then show ?thesis using MakeBase_full [OF f] by (simp add: make_with_def room_def cost_def)
  qed
qed

lemma makes_number: "match < 2 ^ 32 \<Longrightarrow> makes (MakeOpNumberMatch par match opts)
    (plain_view OP_NUMBER_MATCH opts par [match, 2])"
  unfolding MakeOpNumberMatch_def using make_with_makes [of OP_NUMBER_MATCH "[match, 2]" opts par]
  by (simp add: ArgType_code_def)

lemma makes_and: "match < 2 ^ 32 \<Longrightarrow> makes (MakeOpUlongAndMatch par match opts)
    (plain_view OP_ULONG_AND_MATCH opts par [match])"
  unfolding MakeOpUlongAndMatch_def using make_with_makes [of OP_ULONG_AND_MATCH "[match]" opts par] by simp

lemma EvalResult_code_bound: "EvalResult_code r < 2 ^ 32"
  by (cases r) (simp_all add: EvalResult_code_def EvalResults_def)

lemma makes_action: "makes (MakeOpAction action 0) (action_view action)"
proof -
  have "action_view action = plain_view OP_ACTION 0 0 [EvalResult_code action]"
    by (simp add: action_view_def plain_view_def numeral_eq_Suc)
  then show ?thesis unfolding MakeOpAction_def
    using make_with_makes [of OP_ACTION "[EvalResult_code action]" 0 0] EvalResult_code_bound by simp
qed

lemma add32_sub32_cancel: "a \<le> b \<Longrightarrow> b < 2 ^ 32 \<Longrightarrow> add32 a (sub32 b a) = b"
  by simp

lemma AllocRelative_room:
  assumes "factory_ok m f" "a < memory_top f" "2 * length us \<le> memory_bottom f - memory_top f"
  shows "\<exists>m'. AllocRelative a us m f =
      Some (memory_bottom f - 2 * length us - a, m', f\<lparr>memory_bottom := memory_bottom f - 2 * length us\<rparr>) \<and>
    rd_units m' (memory_bottom f - 2 * length us) (length us) = Some us \<and>
    kept (memory_bottom f - 2 * length us) (memory_bottom f) m m'"
proof -
  let ?b = "memory_bottom f - 2 * length us"
  have f: "even (memory_bottom f)" "memory_top f \<le> memory_bottom f" "memory_bottom f \<le> 2 * length m" "length m < 2 ^ 15"
    using assms(1) by (simp_all add: factory_ok_def)
  have e: "even ?b" using f(1) by simp
  have l: "?b + 2 * length us = memory_bottom f" using assms(3) f(2) by linarith
  obtain x where x: "?b = 2 * x" using e by blast
  then have "?b div 2 = x" by simp
  then have "?b div 2 + length us \<le> length m" using l f(3) x by linarith
  then obtain m' where m': "wr_units m ?b us = Some m'" using wr_units_Some [OF e] by blast
  have "sub32 ?b a = ?b - a" using assms(2,3) f(2,3,4) by (intro sub32_small) auto
  then have "AllocRelative a us m f = Some (?b - a, m', f\<lparr>memory_bottom := ?b\<rparr>)"
    using assms(3) e m' by (simp add: AllocRelative_def memory_size_eq [OF assms(1)] mult.commute)
  moreover have "kept ?b (memory_bottom f) m m'" using kept_write [OF m'] unfolding l .
  ultimately show ?thesis using rd_wr_same [OF m'] by blast
qed

lemma makes_string:
  assumes "s \<noteq> []" "match_opts < 2 ^ 32"
  shows "makes (MakeOpWStringMatch par (Some s) start match_opts opts) (string_view par s start match_opts opts)"
  unfolding makes_def
proof (intro allI impI)
  let ?mk = "MakeOpWStringMatch par (Some s) start match_opts opts" and ?v = "string_view par s start match_opts opts"
  fix m f assume f: "factory_ok m f"
  have c: "cost ?v = 26 + 2 * length s" by (simp add: cost_def string_view_def)
  show "(\<exists>m' f'. ?mk m f = Some (None, m', f') \<and> room f < cost ?v) \<or>
     (\<exists>m' f'. ?mk m f = Some (Some (memory_top f), m', f') \<and> factory_ok m' f' \<and>
        memory_top f' = memory_top f + 24 \<and> memory_bottom f' \<le> memory_bottom f \<and> room f \<le> room f' + cost ?v \<and>
        kept (memory_top f) (memory_bottom f) m m' \<and> placed m' (memory_top f) (memory_bottom f') (memory_bottom f) ?v)"
  proof (cases "memory_top f + 24 \<le> memory_bottom f")
    case True
    let ?f1 = "f\<lparr>memory_top := memory_top f + 24\<rparr>"
    from MakeBase_room [OF f True] obtain m1 where m1:
      "MakeBase OP_WSTRING_MATCH opts par m f = Some (Some (memory_top f), m1, ?f1)"
      "read_opcode m1 (memory_top f) = Some (fst (plain_view OP_WSTRING_MATCH opts par []))"
      "kept (memory_top f) (memory_top f + 24) m m1" by blast
    have f1: "factory_ok m1 ?f1" using f True kept_length [OF m1(3)] by (simp add: factory_ok_def)
    show ?thesis
    proof (cases "2 * length (s @ [0]) \<le> memory_bottom ?f1 - memory_top ?f1")
      case room: True
      let ?b = "memory_bottom f - 2 * length (s @ [0])"
      have b: "memory_top f + 24 \<le> ?b" "?b + 2 * length (s @ [0]) = memory_bottom f"
        using room True by (simp_all add: le_diff_conv2)
      have big: "memory_bottom f \<le> 2 * length m" "length m < 2 ^ 15" using f by (simp_all add: factory_ok_def)
      have "memory_top f < memory_top ?f1" by simp
      from AllocRelative_room [OF f1 this room] obtain m2 where m2:
        "AllocRelative (memory_top f) (s @ [0]) m1 ?f1 = Some (?b - memory_top f, m2, ?f1\<lparr>memory_bottom := ?b\<rparr>)"
        "rd_units m2 ?b (length (s @ [0])) = Some (s @ [0])" "kept ?b (memory_bottom f) m1 m2"
        by auto
      let ?args = "[?b - memory_top f, length s, to_uint32 start, match_opts]"
      have r2: "read_opcode m2 (memory_top f) = Some (fst (plain_view OP_WSTRING_MATCH opts par []))"
        using kept_opcode [OF m2(3), of "memory_top f"] b m1(2) by simp
      have "to_uint32 start < 2 ^ 32" by (simp add: to_uint32_def nat_less_iff)
      then have w: "\<forall>v \<in> set ?args. v < 2 ^ 32" using b big assms(2) by auto
      from set_arguments_read [OF r2 _ w, of 0] obtain m3 where m3:
        "set_arguments (memory_top f) 0 ?args m2 = Some m3"
        "read_opcode m3 (memory_top f) = Some ((fst ?v)\<lparr>arguments := (arguments (fst ?v))[0 := ?b - memory_top f]\<rparr>)"
        "kept (memory_top f + 8) (memory_top f + 24) m2 m3"
        by (auto simp: plain_view_def string_view_def OpcodeID_code_def)
      have "?mk m f = Some (Some (memory_top f), m3, ?f1\<lparr>memory_bottom := ?b\<rparr>)"
        using assms(1) b unfolding MakeOpWStringMatch_def option.case m1(1) Option.bind.simps prod.case m2(1)
        by (simp only: if_False if_P m3(1)) simp
      moreover have k: "kept (memory_top f) (memory_bottom f) m m3"
        by (rule kept_trans [OF kept_mono [OF m1(3)] kept_trans [OF kept_mono [OF m2(3)] kept_mono [OF m3(3)]]])
          (use b True in simp_all)
      moreover have "factory_ok m3 (?f1\<lparr>memory_bottom := ?b\<rparr>)"
      proof -
        have "even ?b" "?b \<le> 2 * length m" using f big(1) by (simp_all add: factory_ok_def le_diff_conv)
        then show ?thesis using f b(1) kept_length [OF k] unfolding factory_ok_def by simp
      qed
      moreover have "placed m3 (memory_top f) ?b (memory_bottom f) ?v"
      proof -
        have "rd_units m3 ?b (length (s @ [0])) = Some (s @ [0])"
          using kept_rd [OF m3(3), of ?b "length (s @ [0])"] b m2(2) by simp
        then have s: "rd_units m3 ?b (length s) = Some s"
          using rd_units_prefix [of m3 ?b "length s" 1 "s @ [0]"] by simp
        have d: "add32 (memory_top f) (?b - memory_top f) = ?b" using b big by (subst add32_small) auto
        have "length s < 2 ^ 15" using b(2) big by auto
        then have "view_ok ?v" by (simp add: view_ok_def string_view_def string_op_def)
        moreover have "string_op (fst ?v)" "snd ?v = s" by (simp_all add: string_view_def string_op_def)
        ultimately show ?thesis unfolding placed_def using m3(2) s d b(2)
          by (intro conjI exI [of _ "?b - memory_top f"]) auto
      qed
      moreover have "room f \<le> room (?f1\<lparr>memory_bottom := ?b\<rparr>) + cost ?v"
        using b unfolding c room_def by simp
      ultimately show ?thesis using b(2) by (intro disjI2 exI [of _ m3] exI [of _ "?f1\<lparr>memory_bottom := ?b\<rparr>"]) simp
    next
      case False
      then have "memory_size ?f1 < length (s @ [0]) * 2" using memory_size_eq [OF f1] by (simp add: mult.commute)
      then have "AllocRelative (memory_top f) (s @ [0]) m1 ?f1 = Some (0, m1, ?f1)"
        by (simp add: AllocRelative_def)
      then have "?mk m f = Some (None, m1, ?f1)" using assms(1) m1(1) by (simp add: MakeOpWStringMatch_def)
      moreover have "room f < cost ?v" using False True unfolding c room_def by simp
      ultimately show ?thesis by blast
    qed
  next
    case False
    then show ?thesis using MakeBase_full [OF f] assms(1) by (simp add: MakeOpWStringMatch_def room_def c)
  qed
qed

end
