(* ===== verification/PolicyRules.thy ===== *)
theory PolicyRules
  imports LowLevelPolicy PolicyMemory
begin

text \<open>
  What the rules of \<open>policy_low_level.cc\<close> mean. The buffer of a rule is a list of views; every
  operation on the rule appends to that list. A string pattern whose wildcards are asterisks becomes
  a list of views that holds for a string exactly when the pattern matches it.
\<close>

section \<open>The buffer of a rule as a list of views\<close>

abbreviation (input) rule_end :: nat where "rule_end \<equiv> 4124"

definition rule_rep :: "policy_rule \<Rightarrow> view list \<Rightarrow> bool" where
  "rule_rep rule vs \<longleftrightarrow> (let m = rule_buffer rule; f = rule_factory rule in
     length m = 2062 \<and> factory_ok m f \<and> memory_top f = opcode_address 0 (length vs) \<and>
     rd32 m 0 = Some (length vs) \<and>
     (\<forall>i < length vs. placed m (opcode_address 0 i) (memory_bottom f) rule_end (vs ! i)))"

text \<open>What a copy of the rule keeps, and what packing it needs.\<close>

definition rule_has :: "policy_rule \<Rightarrow> view list \<Rightarrow> bool" where
  "rule_has rule vs \<longleftrightarrow> rd32 (rule_buffer rule) 0 = Some (length vs) \<and>
     (\<forall>i < length vs. stored_at (rule_buffer rule) (opcode_address 0 i) (vs ! i))"

lemma rule_rep_has: "rule_rep rule vs \<Longrightarrow> rule_has rule vs"
  unfolding rule_rep_def rule_has_def Let_def using placed_stored by blast

lemma rule_has_copy: "rule_has rule vs \<Longrightarrow> \<exists>rule'. PolicyRule_copy rule = Some rule' \<and> rule_has rule' vs"
  by (simp add: PolicyRule_copy_def rule_has_def GetOpcodeCount_def Let_def)

lemma rule_rep_init:
  assumes "length garbage = 2062"
  shows "\<exists>rule. PolicyRule_init act garbage = Some rule \<and> rule_rep rule [] \<and> rule_action rule = act \<and> \<not> rule_done rule"
proof -
  obtain m where m: "wr32 garbage 0 0 = Some m"
    using wr_units_Some [of 0 "words32 0" garbage] assms by (auto simp: wr32_def)
  have "length m = 2062" "rd32 m 0 = Some 0" using wr32_SomeD [OF m] rd32_wr32_same [OF m] assms by simp_all
  then show ?thesis using assms m
    by (simp add: PolicyRule_init_def rule_rep_def OpcodeFactory_init_def factory_ok_def opcode_address_def)
qed

lemma rule_rep_bound: "rule_rep rule vs \<Longrightarrow> length vs < 200"
  unfolding rule_rep_def Let_def factory_ok_def opcode_address_def by linarith

lemma all_snoc:
  "(\<And>i. i < length vs \<Longrightarrow> P i (vs ! i)) \<Longrightarrow> P (length vs) v \<Longrightarrow>
     \<forall>i < length (vs @ [v]). P i ((vs @ [v]) ! i)"
  by (auto simp: nth_append less_Suc_eq)

lemma add_opcode_rep:
  assumes "rule_rep rule vs" "makes mk v"
  shows "(\<exists>rule'. add_opcode mk rule = Some (False, rule') \<and> room (rule_factory rule) < cost v) \<or>
    (\<exists>rule'. add_opcode mk rule = Some (True, rule') \<and> rule_rep rule' (vs @ [v]) \<and>
      room (rule_factory rule) \<le> room (rule_factory rule') + cost v \<and>
      rule_action rule' = rule_action rule \<and> rule_done rule' = rule_done rule)"
proof -
  let ?m = "rule_buffer rule" and ?f = "rule_factory rule"
  have f: "factory_ok ?m ?f" "length ?m = 2062" "memory_top ?f = opcode_address 0 (length vs)"
    "rd32 ?m 0 = Some (length vs)"
    and p: "\<forall>i < length vs. placed ?m (opcode_address 0 i) (memory_bottom ?f) rule_end (vs ! i)"
    using assms(1) by (simp_all add: rule_rep_def Let_def)
  have top: "4 \<le> memory_top ?f" "\<And>i. i < length vs \<Longrightarrow> opcode_address 0 i + 24 \<le> memory_top ?f"
    using f(3) by (simp_all add: opcode_address_def)
  from assms(2) f(1) consider m' f' where "mk ?m ?f = Some (None, m', f')" "room ?f < cost v"
    | m' f' where "mk ?m ?f = Some (Some (memory_top ?f), m', f')" "factory_ok m' f'"
      "memory_top f' = memory_top ?f + 24" "memory_bottom f' \<le> memory_bottom ?f"
      "kept (memory_top ?f) (memory_bottom ?f) ?m m'"
      "placed m' (memory_top ?f) (memory_bottom f') (memory_bottom ?f) v" "room ?f \<le> room f' + cost v"
    unfolding makes_def by blast
  then show ?thesis
  proof cases
    case 1
    then show ?thesis by (simp add: add_opcode_def Let_def)
  next
    case 2
    have l: "length m' = 2062" using kept_length [OF 2(5)] f(2) by simp
    have n: "rd32 m' 0 = Some (length vs)" using kept_rd32 [OF 2(5), of 0] top(1) f(4) by simp
    have "length vs < 200" using assms(1) by (rule rule_rep_bound)
    then have a: "add32 (length vs) 1 = length (vs @ [v])" by simp
    obtain m'' where m'': "wr32 m' 0 (length (vs @ [v])) = Some m''"
      using wr_units_Some [of 0 "words32 (length (vs @ [v]))" m'] l by (auto simp: wr32_def)
    have k: "kept 0 4 m' m''" using kept_write [of m' 0 "words32 (length (vs @ [v]))" m''] m'' by (simp add: wr32_def)
    have bottom: "memory_bottom ?f \<le> rule_end" "memory_top f' \<le> memory_bottom f'"
      using f(1,2) 2(2) by (simp_all add: factory_ok_def)
    have old: "placed m'' (opcode_address 0 i) (memory_bottom f') rule_end (vs ! i)" if i: "i < length vs" for i
    proof -
      have "placed m' (opcode_address 0 i) (memory_bottom ?f) rule_end (vs ! i)"
        using p i top(2) [OF i] by (intro placed_kept [OF _ 2(5)]) auto
      then have "placed m'' (opcode_address 0 i) (memory_bottom ?f) rule_end (vs ! i)"
        using 2(2-4) top(1) bottom by (intro placed_kept [OF _ k]) (auto simp: opcode_address_def factory_ok_def)
      then show ?thesis using 2(4) by (rule placed_mono) simp
    qed
    have new: "placed m'' (memory_top ?f) (memory_bottom f') rule_end v"
    proof -
      have "placed m'' (memory_top ?f) (memory_bottom f') (memory_bottom ?f) v"
        using 2(3) top(1) bottom by (intro placed_kept [OF 2(6) k]) auto
      then show ?thesis by (rule placed_mono) (use bottom(1) in simp_all)
    qed
    have "\<forall>i < length (vs @ [v]). placed m'' (opcode_address 0 i) (memory_bottom f') rule_end ((vs @ [v]) ! i)"
      using all_snoc [of vs "\<lambda>i w. placed m'' (opcode_address 0 i) (memory_bottom f') rule_end w", OF old]
        new unfolding f(3) by blast
    moreover have "rd32 m'' 0 = Some (length (vs @ [v]))"
      using rd32_wr32_same [OF m''] \<open>length vs < 200\<close> by simp
    moreover have "length m'' = length m'" using kept_length [OF k] .
    ultimately have "rule_rep (rule\<lparr>rule_buffer := m'', rule_factory := f'\<rparr>) (vs @ [v])"
      using 2(2,3) f(3) l by (simp add: rule_rep_def Let_def factory_ok_def opcode_address_def)
    moreover have "add_opcode mk rule = Some (True, rule\<lparr>rule_buffer := m'', rule_factory := f'\<rparr>)"
      using 2(1) n m'' a by (simp add: add_opcode_def GetOpcodeCount_def Let_def)
    ultimately show ?thesis using 2(7) by auto
  qed
qed

text \<open>Changing the options of the last opcode.\<close>

definition with_options :: "uint32 \<Rightarrow> view \<Rightarrow> view" where
  "with_options opts v = ((fst v)\<lparr>op_options := word_of_nat opts\<rparr>, snd v)"

lemma SetOptions_rep:
  assumes "rule_rep rule (vs @ [v])"
  shows "\<exists>m'. SetOptions (rule_buffer rule) (opcode_address 0 (length vs)) opts = Some m' \<and>
    rule_rep (rule\<lparr>rule_buffer := m'\<rparr>) (vs @ [with_options opts v])"
proof -
  let ?m = "rule_buffer rule" and ?f = "rule_factory rule" and ?a = "opcode_address 0 (length vs)"
  have r: "factory_ok ?m ?f" "length ?m = 2062" "memory_top ?f = opcode_address 0 (Suc (length vs))"
    "rd32 ?m 0 = Some (Suc (length vs))"
    "\<forall>i < Suc (length vs). placed ?m (opcode_address 0 i) (memory_bottom ?f) rule_end ((vs @ [v]) ! i)"
    using assms by (simp_all add: rule_rep_def Let_def)
  have v: "placed ?m ?a (memory_bottom ?f) rule_end v"
  proof -
    have "length vs < Suc (length vs)" "(vs @ [v]) ! length vs = v" by simp_all
    with r(5) show ?thesis by metis
  qed
  then obtain d where d: "read_opcode ?m ?a = Some ((fst v)\<lparr>arguments := (arguments (fst v))[0 := d]\<rparr>)" "view_ok v"
    "if string_op (fst v) then memory_bottom ?f \<le> add32 ?a d \<and> add32 ?a d + 2 * length (snd v) \<le> rule_end \<and>
       rd_units ?m (add32 ?a d) (length (snd v)) = Some (snd v) else d = arguments (fst v) ! 0"
    unfolding placed_def by blast
  from SetOptions_read [OF d(1)] obtain m' where m': "SetOptions ?m ?a opts = Some m'"
    "read_opcode m' ?a = Some ((fst v)\<lparr>arguments := (arguments (fst v))[0 := d], op_options := word_of_nat opts\<rparr>)"
    "kept (?a + 6) (?a + 8) ?m m'" by auto
  have b: "?a + 24 \<le> memory_bottom ?f" using r(1,3) by (simp add: factory_ok_def opcode_address_def)
  have rd: "rd_units m' x n = rd_units ?m x n" if "memory_bottom ?f \<le> x" for x n
    using that b by (intro kept_rd [OF m'(3)]) simp
  have new: "placed m' ?a (memory_bottom ?f) rule_end (with_options opts v)"
    using d m'(2) rd unfolding placed_def view_ok_def with_options_def string_op_def
    by (intro conjI exI [of _ d]) (auto split: if_splits)
  have old: "placed m' (opcode_address 0 i) (memory_bottom ?f) rule_end (vs ! i)" if i: "i < length vs" for i
  proof -
    have "placed ?m (opcode_address 0 i) (memory_bottom ?f) rule_end (vs ! i)"
      using r(5) i by (metis less_Suc_eq nth_append)
    then show ?thesis using i b by (intro placed_kept [OF _ m'(3)]) (auto simp: opcode_address_def)
  qed
  have "\<forall>i < length (vs @ [with_options opts v]).
      placed m' (opcode_address 0 i) (memory_bottom ?f) rule_end ((vs @ [with_options opts v]) ! i)"
    by (rule all_snoc [of vs "\<lambda>i w. placed m' (opcode_address 0 i) (memory_bottom ?f) rule_end w", OF old new])
  moreover have "rd32 m' 0 = rd32 ?m 0" by (rule kept_rd32 [OF m'(3)]) (simp add: opcode_address_def)
  moreover have "length m' = length ?m" using kept_length [OF m'(3)] .
  ultimately have "rule_rep (rule\<lparr>rule_buffer := m'\<rparr>) (vs @ [with_options opts v])"
    using r(1-4) by (simp add: rule_rep_def Let_def factory_ok_def)
  then show ?thesis using m'(1) by blast
qed

end
