(* ===== verification/PolicyPatterns.thy ===== *)
theory PolicyPatterns
  imports PolicyRules
begin

text \<open>
  String patterns of the sandbox policy. A pattern of literal characters and asterisks (a question
  mark is escaped by a slash) has the usual meaning \<open>glob\<close>; the opcodes that \<open>AddStringMatch\<close> makes
  for it hold for a string exactly when it matches.
\<close>

section \<open>Patterns and their meaning\<close>

datatype tok = Star | Lit wchar

text \<open>The tokens of a pattern without unescaped question marks.\<close>

function tokens :: "wstring \<Rightarrow> tok list option" where
  "tokens [] = Some []"
| "tokens (c # cs) =
     (if c = asterisk then map_option ((#) Star) (tokens cs)
      else if c = qmark then None
      else if c = slash \<and> cs \<noteq> [] \<and> hd cs = qmark then map_option ((#) (Lit (hd cs))) (tokens (tl cs))
      else map_option ((#) (Lit c)) (tokens cs))"
  by pat_completeness auto

termination
  by (relation "measure length") auto

fun glob :: "(wchar \<Rightarrow> wchar \<Rightarrow> bool) \<Rightarrow> tok list \<Rightarrow> wstring \<Rightarrow> bool" where
  "glob eq [] s \<longleftrightarrow> s = []"
| "glob eq (Star # ts) s \<longleftrightarrow> (\<exists>k \<in> {0 .. length s}. glob eq ts (drop k s))"
| "glob eq (Lit c # ts) s \<longleftrightarrow> (case s of [] \<Rightarrow> False | x # xs \<Rightarrow> eq c x \<and> glob eq ts xs)"

definition has_literal :: "tok list \<Rightarrow> bool" where
  "has_literal ts \<longleftrightarrow> (\<exists>c. Lit c \<in> set ts)"

text \<open>A fragment stands at an offset of a string.\<close>

definition frag_at :: "(wchar \<Rightarrow> wchar \<Rightarrow> bool) \<Rightarrow> wstring \<Rightarrow> wstring \<Rightarrow> nat \<Rightarrow> bool" where
  "frag_at eq f s k \<longleftrightarrow> k + length f \<le> length s \<and> list_all2 eq f (take (length f) (drop k s))"

lemma glob_literals:
  "glob eq (map Lit f @ ts) s \<longleftrightarrow> frag_at eq f s 0 \<and> glob eq ts (drop (length f) s)"
proof (induction f arbitrary: s)
  case (Cons c f)
  then show ?case by (cases s) (auto simp: frag_at_def)
qed (simp add: frag_at_def)

lemma frag_at_drop: "k \<le> length s \<Longrightarrow> frag_at eq f (drop k s) j \<longleftrightarrow> frag_at eq f s (k + j)"
  by (auto simp: frag_at_def add.commute)

lemma glob_star: "glob eq (Star # ts) s \<longleftrightarrow> (\<exists>k \<le> length s. glob eq ts (drop k s))"
  by auto

lemma glob_star_drop: "glob eq (Star # ts) (drop j s) \<Longrightarrow> i \<le> j \<Longrightarrow> j \<le> length s \<Longrightarrow> glob eq (Star # ts) (drop i s)"
  unfolding glob_star
proof -
  assume a: "\<exists>k \<le> length (drop j s). glob eq ts (drop k (drop j s))" "i \<le> j" "j \<le> length s"
  then obtain k where k: "k \<le> length s - j" "glob eq ts (drop (k + j) s)" by auto
  have "drop (k + j) s = drop (k + j - i) (drop i s)" using a(2) by simp
  then show "\<exists>k \<le> length (drop i s). glob eq ts (drop k (drop i s))"
    using k a(2,3) by (intro exI [of _ "k + j - i"]) simp
qed

lemma glob_end: "glob eq (Star # map Lit f) s \<longleftrightarrow> length f \<le> length s \<and> frag_at eq f s (length s - length f)"
proof -
  have l: "glob eq (map Lit f) t \<longleftrightarrow> frag_at eq f t 0 \<and> length t = length f" for t
    using glob_literals [of eq f "[]" t] by (auto simp: frag_at_def)
  show ?thesis unfolding glob_star l
  proof
    assume "\<exists>k \<le> length s. frag_at eq f (drop k s) 0 \<and> length (drop k s) = length f"
    then obtain k where k: "k \<le> length s" "frag_at eq f (drop k s) 0" "length s - k = length f" by auto
    moreover from k have "k = length s - length f" by simp
    ultimately show "length f \<le> length s \<and> frag_at eq f s (length s - length f)"
      using frag_at_drop [of k s eq f 0] by simp
  next
    assume a: "length f \<le> length s \<and> frag_at eq f s (length s - length f)"
    then show "\<exists>k \<le> length s. frag_at eq f (drop k s) 0 \<and> length (drop k s) = length f"
      using frag_at_drop [of "length s - length f" s eq f 0] by (intro exI [of _ "length s - length f"]) simp
  qed
qed

lemma glob_only_star: "glob eq [Star] s"
  unfolding glob_star by (intro exI [of _ "length s"]) simp

text \<open>Taking the first place where a fragment stands loses no match, since an asterisk follows.\<close>

lemma glob_first:
  "glob eq (Star # map Lit f @ Star # ts) s \<longleftrightarrow>
     (\<exists>k. frag_at eq f s k \<and> (\<forall>j < k. \<not> frag_at eq f s j) \<and> glob eq (Star # ts) (drop (k + length f) s))"
    (is "?l \<longleftrightarrow> ?r")
proof
  assume ?l
  then obtain k where k: "k \<le> length s" "frag_at eq f (drop k s) 0" "glob eq (Star # ts) (drop (length f) (drop k s))"
    unfolding glob_star [of eq "map Lit f @ _"] glob_literals by blast
  have f: "frag_at eq f s k" using k(1,2) frag_at_drop [of k s eq f 0] by simp
  define i where "i = (LEAST k. frag_at eq f s k)"
  have i1: "frag_at eq f s i" unfolding i_def using f by (rule LeastI)
  have i2: "i \<le> k" unfolding i_def using f by (rule Least_le)
  have i3: "\<not> frag_at eq f s j" if "j < i" for j
    using that unfolding i_def by (rule not_less_Least)
  note i = i1 i2 i3
  have "drop (length f) (drop k s) = drop (k + length f) s" by (simp add: add.commute)
  then have "glob eq (Star # ts) (drop (k + length f) s)" using k(3) by (simp only:)
  then have "glob eq (Star # ts) (drop (i + length f) s)"
    by (rule glob_star_drop) (use i(2) f in \<open>simp_all add: frag_at_def\<close>)
  with i show ?r by blast
next
  assume ?r
  then obtain k where k: "frag_at eq f s k" "glob eq (Star # ts) (drop (k + length f) s)" by blast
  have l: "k \<le> length s" using k(1) by (simp add: frag_at_def)
  then have "frag_at eq f (drop k s) 0" using k(1) frag_at_drop [of k s eq f 0] by simp
  moreover have "drop (length f) (drop k s) = drop (k + length f) s" by (simp add: add.commute)
  ultimately show ?l unfolding glob_star [of eq "map Lit f @ _"] glob_literals using k(2) l by metis
qed

section \<open>The opcodes of a pattern\<close>

text \<open>
  The views that the machine appends for the rest of a pattern. The opcode of a fragment before the
  last asterisk is made as one of the middle and then gets the options of the last one.
\<close>

definition gen_view :: "RuleType \<Rightarrow> uint32 \<Rightarrow> int16 \<Rightarrow> pending \<Rightarrow> bool \<Rightarrow> bool \<Rightarrow> wstring \<Rightarrow> view" where
  "gen_view rt mo par st last_call last_options fragment =
     string_view par fragment
       (if st = PENDING_ASTERISK then if last_call then kSeekToEnd else kSeekForward else 0)
       (if st = PENDING_NONE \<and> last_call then EXACT_LENGHT OR mo else mo) (string_options rt last_options)"

fun segs :: "RuleType \<Rightarrow> uint32 \<Rightarrow> int16 \<Rightarrow> tok list \<Rightarrow> bool \<Rightarrow> pending \<Rightarrow> wstring \<Rightarrow> view list option" where
  "segs rt mo par [] wild st f = Some (if f = [] then [] else [gen_view rt mo par st True True f])"
| "segs rt mo par (Star # ts) wild st f =
     (if wild then None
      else if f = [] then segs rt mo par ts True PENDING_ASTERISK []
      else map_option ((#) (gen_view rt mo par st False (ts = []) f)) (segs rt mo par ts True PENDING_ASTERISK []))"
| "segs rt mo par (Lit c # ts) wild st f = segs rt mo par ts False st (f @ [c])"

definition rule_room :: "policy_rule \<Rightarrow> nat" where
  "rule_room rule = room (rule_factory rule)"

lemma cost_gen_view: "cost (gen_view rt mo par st lst opts f) = 26 + 2 * length f"
  by (simp add: cost_def gen_view_def string_view_def)

lemma GenStringOpcode_fragment:
  assumes "rule_rep rule vs" "f \<noteq> []" "st \<noteq> PENDING_QMARK" "mo < 4"
  shows "(\<exists>a b rule'. GenStringOpcode rt mo par st lst skip f rule = Some (False, a, b, rule') \<and>
      rule_room rule < 26 + 2 * length f) \<or>
    (\<exists>rule'. GenStringOpcode rt mo par st lst skip f rule = Some (True, skip, [], rule') \<and>
      rule_rep rule' (vs @ [gen_view rt mo par st lst lst f]) \<and>
      rule_room rule \<le> rule_room rule' + 26 + 2 * length f \<and>
      rule_action rule' = rule_action rule \<and> rule_done rule' = rule_done rule)"
proof -
  let ?start = "if st = PENDING_ASTERISK then if lst then kSeekToEnd else kSeekForward else 0"
  let ?mo = "if st = PENDING_NONE \<and> lst then EXACT_LENGHT OR mo else mo"
  let ?mk = "MakeOpWStringMatch par (Some f) ?start ?mo (string_options rt lst)"
  have "mo = 0 \<or> mo = 1 \<or> mo = 2 \<or> mo = 3" using assms(4) by auto
  then have "?mo < 2 ^ 32" by auto
  then have m: "makes ?mk (gen_view rt mo par st lst lst f)"
    unfolding gen_view_def by (rule makes_string [OF assms(2)])
  have g: "GenStringOpcode rt mo par st lst skip f rule =
      Option.bind (add_opcode ?mk rule) (\<lambda>(ok, rule). Some (ok, skip, if ok then [] else f, rule))"
    using assms(2,3) by (cases st) (simp_all add: GenStringOpcode_def Let_def)
  show ?thesis unfolding g using add_opcode_rep [OF assms(1) m] by (auto simp: rule_room_def cost_gen_view)
qed

lemma GenStringOpcode_nothing:
  "rule_rep rule vs \<Longrightarrow> GenStringOpcode rt mo par st False skip [] rule = Some (True, skip, [], rule)"
  by (simp add: GenStringOpcode_def rule_rep_def Let_def GetOpcodeCount_def)

lemma GenStringOpcode_fix:
  assumes "rule_rep rule (vs @ [v])"
  shows "\<exists>rule'. GenStringOpcode rt mo par st True skip [] rule = Some (True, skip, [], rule') \<and>
    rule_rep rule' (vs @ [with_options (string_options rt True) v]) \<and> rule_room rule' = rule_room rule \<and>
    rule_action rule' = rule_action rule \<and> rule_done rule' = rule_done rule"
proof -
  have n: "GetOpcodeCount rule = Some (Suc (length vs))"
    using assms by (simp add: rule_rep_def Let_def GetOpcodeCount_def)
  from SetOptions_rep [OF assms, of "string_options rt True"] n show ?thesis
    by (auto simp: GenStringOpcode_def Let_def rule_room_def)
qed

lemma gen_view_fix: "with_options (string_options rt True) (gen_view rt mo par st lst opts f) = gen_view rt mo par st lst True f"
  by (simp add: with_options_def gen_view_def string_view_def)

definition wild_char :: "uint32 \<Rightarrow> bool" where
  "wild_char last_char \<longleftrightarrow> kLastCharIsWild AND last_char \<noteq> 0"

lemma wild_char_simps [simp]: "\<not> wild_char 0" "\<not> wild_char (Suc 0)" "\<not> wild_char 1" "wild_char 6"
  by (simp_all add: wild_char_def)

text \<open>The result of adding to a rule: when it succeeds, the views are appended and the rest of the
  rule is as before; it fails only for want of room or when there are no views to add.\<close>

abbreviation costs :: "view list \<Rightarrow> nat" where
  "costs vs \<equiv> sum_list (map cost vs)"

definition appends :: "policy_rule \<Rightarrow> view list \<Rightarrow> (bool \<times> policy_rule) option \<Rightarrow> view list option \<Rightarrow> bool" where
  "appends rule vs res new \<longleftrightarrow> (\<exists>ok rule'. res = Some (ok, rule') \<and>
     (if ok then (\<exists>ws. new = Some ws \<and> rule_rep rule' (vs @ ws) \<and> rule_room rule \<le> rule_room rule' + costs ws) \<and>
       rule_action rule' = rule_action rule \<and> rule_done rule' = rule_done rule
      else \<forall>ws. new = Some ws \<longrightarrow> rule_room rule < costs ws))"

lemma appends_fail: "\<forall>ws. new = Some ws \<longrightarrow> rule_room rule < costs ws \<Longrightarrow> appends rule vs (Some (False, rule')) new"
  unfolding appends_def by auto

lemma appends_one:
  "rule_rep rule' (vs @ ws) \<Longrightarrow> rule_room rule \<le> rule_room rule' + costs ws \<Longrightarrow> rule_action rule' = rule_action rule \<Longrightarrow>
     rule_done rule' = rule_done rule \<Longrightarrow> appends rule vs (Some (True, rule')) (Some ws)"
  unfolding appends_def by auto

lemma appends_more:
  assumes "appends rule' (vs @ [v]) res new" "rule_action rule' = rule_action rule" "rule_done rule' = rule_done rule"
    and "rule_room rule \<le> rule_room rule' + cost v"
  shows "appends rule vs res (map_option ((#) v) new)"
proof -
  from assms(1) obtain ok rule'' where r: "res = Some (ok, rule'')"
    "if ok then (\<exists>ws. new = Some ws \<and> rule_rep rule'' ((vs @ [v]) @ ws) \<and> rule_room rule' \<le> rule_room rule'' + costs ws) \<and>
       rule_action rule'' = rule_action rule' \<and> rule_done rule'' = rule_done rule'
     else \<forall>ws. new = Some ws \<longrightarrow> rule_room rule' < costs ws"
    unfolding appends_def by blast
  show ?thesis
  proof (cases ok)
    case True
    then obtain ws where ws: "new = Some ws" "rule_rep rule'' (vs @ (v # ws))"
      "rule_room rule' \<le> rule_room rule'' + costs ws" "rule_action rule'' = rule_action rule'" "rule_done rule'' = rule_done rule'"
      using r(2) by auto
    have "appends rule vs (Some (True, rule'')) (Some (v # ws))"
      by (rule appends_one) (use ws assms(2-4) in simp_all)
    then show ?thesis using r(1) ws(1) True by simp
  next
    case False
    have "rule_room rule < costs xs" if xs: "map_option ((#) v) new = Some xs" for xs
    proof -
      obtain ws where ws: "new = Some ws" "xs = v # ws" using xs by (cases new) auto
      then have "rule_room rule' < costs ws" using r(2) False by simp
      then show ?thesis using assms(4) ws(2) by simp
    qed
    then show ?thesis using r(1) False appends_fail by auto
  qed
qed

text \<open>An asterisk behind a fragment.\<close>

lemma star_step:
  assumes "rule_rep rule vs" "tokens rest = Some ts" "f \<noteq> []" "st \<noteq> PENDING_QMARK" "mo < 4"
    and IH: "\<And>rule' vs'. rule_rep rule' vs' \<Longrightarrow> has_literal ts \<Longrightarrow>
      appends rule' vs' (string_machine rt mo par rest 6 PENDING_ASTERISK 0 [] rule')
        (segs rt mo par ts True PENDING_ASTERISK [])"
  shows "appends rule vs
    (Option.bind (GenStringOpcode rt mo par st False 0 f rule) (\<lambda>(ok, skip, f, rule).
       if \<not> ok then Some (False, rule) else string_machine rt mo par rest 6 PENDING_ASTERISK skip f rule))
    (segs rt mo par (Star # ts) False st f)"
proof -
  from GenStringOpcode_fragment [OF assms(1,3,4,5), of rt par False 0]
  consider a b rule' where "GenStringOpcode rt mo par st False 0 f rule = Some (False, a, b, rule')"
      "rule_room rule < 26 + 2 * length f"
    | rule' where "GenStringOpcode rt mo par st False 0 f rule = Some (True, 0, [], rule')"
      "rule_rep rule' (vs @ [gen_view rt mo par st False False f])"
      "rule_action rule' = rule_action rule" "rule_done rule' = rule_done rule"
      "rule_room rule \<le> rule_room rule' + 26 + 2 * length f"
    by blast
  then show ?thesis
  proof cases
    case 1
    have "rule_room rule < costs ws" if "segs rt mo par (Star # ts) False st f = Some ws" for ws
      using that assms(3) 1(2) by (auto simp: cost_gen_view)
    then have "appends rule vs (Some (False, rule')) (segs rt mo par (Star # ts) False st f)"
      by (intro appends_fail) blast
    then show ?thesis unfolding 1(1) by simp
  next
    case g: 2
    consider "rest = []" | "has_literal ts" | d ds where "rest = d # ds" "\<not> has_literal ts" by (cases rest) auto
    then show ?thesis
    proof cases
      case 1
      then have t: "ts = []" using assms(2) by simp
      from GenStringOpcode_fix [OF g(2), of rt mo par PENDING_ASTERISK 0] obtain rule'' where
        r: "GenStringOpcode rt mo par PENDING_ASTERISK True 0 [] rule' = Some (True, 0, [], rule'')"
        "rule_rep rule'' (vs @ [gen_view rt mo par st False True f])"
        "rule_action rule'' = rule_action rule'" "rule_done rule'' = rule_done rule'" "rule_room rule'' = rule_room rule'"
        unfolding gen_view_fix by blast
      then have "appends rule vs (Some (True, rule'')) (Some [gen_view rt mo par st False True f])"
        using g(3,4,5) by (intro appends_one) (simp_all add: cost_gen_view)
      then show ?thesis using g(1) r(1) assms(3) by (simp add: 1 t)
    next
      case 2
      then have "ts \<noteq> []" by (auto simp: has_literal_def)
      moreover have "rule_room rule \<le> rule_room rule' + cost (gen_view rt mo par st False False f)"
        using g(5) by (simp add: cost_gen_view)
      ultimately show ?thesis using appends_more [OF IH [OF g(2) 2] g(3,4)] g(1) assms(3) by simp
    next
      case 3
      then have "d = asterisk" using assms(2) by (auto simp: has_literal_def split: if_splits)
      moreover from this obtain ts' where "ts = Star # ts'" using assms(2) 3(1) by auto
      ultimately show ?thesis using g(1) assms(3) by (simp add: 3(1) appends_fail)
    qed
  qed
qed

text \<open>
  The machine on a pattern without question marks: when it succeeds it has appended the views.
\<close>

lemma string_machine_segs:
  assumes "rule_rep rule vs" "tokens cs = Some ts" "mo < 4" "st \<noteq> PENDING_QMARK" "f \<noteq> [] \<or> has_literal ts"
  shows "appends rule vs (string_machine rt mo par cs lastc st 0 f rule) (segs rt mo par ts (wild_char lastc) st f)"
  using assms
proof (induction "length cs" arbitrary: cs ts lastc st f vs rule rule: less_induct)
  case less
  note rep = less.prems(1) and mo = less.prems(3) and st = less.prems(4)
  show ?case
  proof (cases cs)
    case Nil
    then have ts: "ts = []" using less.prems(2) by simp
    then have f: "f \<noteq> []" using less.prems(5) by (simp add: has_literal_def)
    have new: "segs rt mo par ts (wild_char lastc) st f = Some [gen_view rt mo par st True True f]"
      using f by (simp add: ts)
    have c: "costs [gen_view rt mo par st True True f] = 26 + 2 * length f" by (simp add: cost_gen_view)
    from GenStringOpcode_fragment [OF rep f st mo, of rt par True 0] show ?thesis
    proof
      assume "\<exists>a b rule'. GenStringOpcode rt mo par st True 0 f rule = Some (False, a, b, rule') \<and>
        rule_room rule < 26 + 2 * length f"
      then show ?thesis unfolding new Nil string_machine.simps using c by (auto intro!: appends_fail)
    next
      assume "\<exists>rule'. GenStringOpcode rt mo par st True 0 f rule = Some (True, 0, [], rule') \<and>
        rule_rep rule' (vs @ [gen_view rt mo par st True True f]) \<and> rule_room rule \<le> rule_room rule' + 26 + 2 * length f \<and>
        rule_action rule' = rule_action rule \<and> rule_done rule' = rule_done rule"
      then obtain rule' where r: "GenStringOpcode rt mo par st True 0 f rule = Some (True, 0, [], rule')"
        "rule_rep rule' (vs @ [gen_view rt mo par st True True f])" "rule_room rule \<le> rule_room rule' + 26 + 2 * length f"
        "rule_action rule' = rule_action rule" "rule_done rule' = rule_done rule" by blast
      show ?thesis unfolding new Nil string_machine.simps r(1)
        using appends_one [OF r(2) _ r(4,5)] r(3) c by simp
    qed
  next
    case (Cons c rest)
    consider "c = asterisk" | "c \<noteq> asterisk" "c \<noteq> qmark" "c = slash \<and> rest \<noteq> [] \<and> hd rest = qmark"
      | "c \<noteq> asterisk" "c \<noteq> qmark" "\<not> (c = slash \<and> rest \<noteq> [] \<and> hd rest = qmark)"
      using less.prems(2) Cons by (auto split: if_splits)
    then show ?thesis
    proof cases
      case 2
      then obtain ts' where ts: "tokens (tl rest) = Some ts'" "ts = Lit (hd rest) # ts'"
        using less.prems(2) Cons by auto
      have "appends rule vs (string_machine rt mo par (tl rest) 1 st 0 (f @ [hd rest]) rule)
          (segs rt mo par ts' (wild_char 1) st (f @ [hd rest]))"
        by (rule less.hyps [OF _ rep ts(1) mo st]) (simp_all add: Cons)
      then show ?thesis using 2 by (simp add: Cons ts(2))
    next
      case 3
      then obtain ts' where ts: "tokens rest = Some ts'" "ts = Lit c # ts'"
        using less.prems(2) Cons by (auto split: if_splits)
      have "appends rule vs (string_machine rt mo par rest 1 st 0 (f @ [c]) rule)
          (segs rt mo par ts' (wild_char 1) st (f @ [c]))"
        by (rule less.hyps [OF _ rep ts(1) mo st]) (simp_all add: Cons)
      moreover have "string_machine rt mo par cs lastc st 0 f rule = string_machine rt mo par rest 1 st 0 (f @ [c]) rule"
        using 3 by (auto simp: Cons)
      ultimately show ?thesis by (simp add: ts(2))
    next
      case 1
      then obtain ts' where ts: "tokens rest = Some ts'" "ts = Star # ts'"
        using less.prems(2) Cons by auto
      have IH: "appends rule' vs' (string_machine rt mo par rest 6 PENDING_ASTERISK 0 [] rule')
          (segs rt mo par ts' True PENDING_ASTERISK [])" if "rule_rep rule' vs'" "has_literal ts'" for rule' vs'
        using less.hyps [OF _ that(1) ts(1) mo, of PENDING_ASTERISK "[]" 6] that(2) by (simp add: Cons)
      show ?thesis
      proof (cases "wild_char lastc")
        case False
        have step: "string_machine rt mo par cs lastc st 0 f rule =
          Option.bind (GenStringOpcode rt mo par st False 0 f rule) (\<lambda>(ok, skip, f, rule).
            if \<not> ok then Some (False, rule) else string_machine rt mo par rest 6 PENDING_ASTERISK skip f rule)"
          using False by (simp add: Cons 1 wild_char_def)
        show ?thesis
        proof (cases "f = []")
          case True
          then have "has_literal ts'" using less.prems(5) by (simp add: has_literal_def ts(2))
          from IH [OF rep this] show ?thesis
            unfolding True step [unfolded True] GenStringOpcode_nothing [OF rep] using False by (simp add: ts(2))
        next
          case f: False
          from star_step [OF rep ts(1) f st mo IH] False show ?thesis unfolding step ts(2) by simp
        qed
      qed (simp add: Cons 1 ts(2) wild_char_def appends_fail)
    qed
  qed
qed

end
