(* ===== verification/PolicyMeaning.thy ===== *)
theory PolicyMeaning
  imports PolicyPatterns
begin

text \<open>
  The evaluation of the opcodes of string patterns and number comparisons, and the rules built from
  them: a rule decides as the conjunction of its comparisons. The comparison of the operating system
  is assumed to compare strings of equal length character by character.
\<close>

section \<open>One string opcode\<close>

definition compares :: "rtl_compare \<Rightarrow> (bool \<Rightarrow> wchar \<Rightarrow> wchar \<Rightarrow> bool) \<Rightarrow> bool" where
  "compares rtl eqc \<longleftrightarrow> (\<forall>a b ci. length a = length b \<longrightarrow> (rtl a b ci = 0 \<longleftrightarrow> list_all2 (eqc ci) a b))"

lemma rtl_equal_frag:
  assumes "compares rtl eqc" "length f < 2 ^ 15" "k + length f \<le> length t"
  shows "rtl_equal rtl (reader f) ci (int (length f)) t k = Some (frag_at (eqc ci) f t k)"
proof -
  have n: "InitStringUnicode_chars (to_uint32 (int (length f))) = length f"
    using assms(2) by (simp add: to_uint32_int)
  have "length f = length (take (length f) (drop k t))" using assms(3) by simp
  then have "rtl f (take (length f) (drop k t)) ci = 0 \<longleftrightarrow> frag_at (eqc ci) f t k"
    using assms(1,3) unfolding compares_def frag_at_def by blast
  then show ?thesis unfolding rtl_equal_def n Let_def using assms(3) by (simp add: reader_def)
qed

lemma seek_forward_none:
  "\<forall>j. k \<le> j \<and> j < k + n \<longrightarrow> eq j = Some False \<Longrightarrow> seek_forward eq k n = Some None"
  by (induction eq k n rule: seek_forward.induct) auto

lemma seek_forward_first:
  assumes "\<forall>j. k \<le> j \<and> j < i \<longrightarrow> eq j = Some False" "eq i = Some True" "k \<le> i" "i < k + n"
  shows "seek_forward eq k n = Some (Some i)"
  using assms
proof (induction eq k n rule: seek_forward.induct)
  case (2 eq k n)
  show ?case
  proof (cases "k = i")
    case False
    have "eq k = Some False" using "2.prems" False by simp
    moreover have "seek_forward eq (Suc k) n = Some (Some i)"
      by (rule "2.IH") (use "2.prems" False \<open>eq k = Some False\<close> in auto)
    ultimately show ?thesis by simp
  qed (use "2.prems" in simp)
qed simp

text \<open>Where the match of a fragment ends, from what is pending and whether it is the last one.\<close>

definition seg_end :: "(wchar \<Rightarrow> wchar \<Rightarrow> bool) \<Rightarrow> pending \<Rightarrow> bool \<Rightarrow> wstring \<Rightarrow> wstring \<Rightarrow> nat option" where
  "seg_end eq st lst f t =
     (if st = PENDING_ASTERISK
      then if lst then (if length f \<le> length t \<and> frag_at eq f t (length t - length f) then Some (length t) else None)
        else (if \<exists>k. frag_at eq f t k then Some ((LEAST k. frag_at eq f t k) + length f) else None)
      else if frag_at eq f t 0 \<and> (lst \<longrightarrow> length t = length f) then Some (length f) else None)"

lemma seg_end_bound: "seg_end eq st lst f t = Some e \<Longrightarrow> e \<le> length t"
proof -
  assume a: "seg_end eq st lst f t = Some e"
  have b: "k + length f \<le> length t" if "frag_at eq f t k" for k using that by (simp add: frag_at_def)
  have "(LEAST k. frag_at eq f t k) + length f \<le> length t" if "\<exists>k. frag_at eq f t k"
    by (rule b) (rule LeastI_ex [OF that])
  then show ?thesis using a b [of 0] unfolding seg_end_def by (auto split: if_splits)
qed

definition pend :: "pending \<Rightarrow> wstring \<Rightarrow> tok list \<Rightarrow> tok list" where
  "pend st f ts = (if st = PENDING_ASTERISK then [Star] else []) @ map Lit f @ ts"

lemma glob_pend_end:
  "st \<noteq> PENDING_QMARK \<Longrightarrow> glob eq (pend st f []) t \<longleftrightarrow> seg_end eq st True f t \<noteq> None"
  using glob_literals [of eq f "[]" t] glob_end [of eq f t]
  by (cases st) (auto simp: pend_def seg_end_def frag_at_def)

lemma glob_pend_star:
  assumes "st \<noteq> PENDING_QMARK"
  shows "glob eq (pend st f (Star # ts)) t \<longleftrightarrow>
    (case seg_end eq st False f t of None \<Rightarrow> False | Some e \<Rightarrow> glob eq (Star # ts) (drop e t))"
proof (cases "st = PENDING_ASTERISK")
  case True
  then have p: "pend st f (Star # ts) = Star # map Lit f @ Star # ts" by (simp add: pend_def)
  show ?thesis
  proof (cases "\<exists>k. frag_at eq f t k")
    case ex: True
    define i where "i = (LEAST k. frag_at eq f t k)"
    have i1: "frag_at eq f t i" unfolding i_def by (rule LeastI_ex [OF ex])
    have i2: "\<not> frag_at eq f t j" if "j < i" for j using that unfolding i_def by (rule not_less_Least)
    have u: "k = i" if "frag_at eq f t k" "\<forall>j < k. \<not> frag_at eq f t j" for k
      using that i1 i2 by (meson linorder_neqE_nat)
    have s: "seg_end eq st False f t = Some (i + length f)" using True ex by (simp add: seg_end_def i_def)
    show ?thesis unfolding p glob_first s option.case using i1 i2 u by blast
  next
    case False
    then have s: "seg_end eq st False f t = None" using True by (simp add: seg_end_def)
    show ?thesis unfolding p glob_first s option.case using False by blast
  qed
next
  case False
  then have "pend st f (Star # ts) = map Lit f @ Star # ts" by (simp add: pend_def)
  moreover have "seg_end eq st False f t = (if frag_at eq f t 0 then Some (length f) else None)"
    using False by (simp add: seg_end_def)
  ultimately show ?thesis by (simp only: glob_literals) simp
qed

text \<open>A parameter that is a string.\<close>

definition string_param :: "ParameterSet list \<Rightarrow> int16 \<Rightarrow> wstring \<Rightarrow> bool" where
  "string_param ps par s \<longleftrightarrow> 0 \<le> sint par \<and> unat par < length ps \<and> Get_wchar (ps ! unat par) = Some (Some s)"

lemma to_int32_starts [simp]:
  "to_int32 (to_uint32 0) = 0" "to_int32 (to_uint32 (-1)) = -1" "to_int32 (to_uint32 1048575) = 1048575"
  by (simp_all add: to_int32_def to_uint32_def)

lemma match_opts_bits:
  "mo < 2 \<Longrightarrow> (mo AND 2) = (0::nat)" "mo < 2 \<Longrightarrow> ((2 OR mo) AND 2) \<noteq> (0::nat)"
  "mo < 2 \<Longrightarrow> odd (2 OR mo) = odd (mo :: nat)"
proof -
  have "mo = 0 \<or> mo = 1" if "mo < 2" using that by auto
  then show "mo < 2 \<Longrightarrow> (mo AND 2) = (0::nat)" "mo < 2 \<Longrightarrow> ((2 OR mo) AND 2) \<noteq> (0::nat)"
    "mo < 2 \<Longrightarrow> odd (2 OR mo) = odd (mo :: nat)" by auto
qed

definition seg_outcome :: "nat option \<Rightarrow> match_context \<Rightarrow> EvalResult \<times> match_context option" where
  "seg_outcome e c = (case e of None \<Rightarrow> (EVAL_FALSE, Some c)
     | Some e \<Rightarrow> (EVAL_TRUE, Some (c\<lparr>position := position c + e\<rparr>)))"

lemma eval_gen_view:
  assumes "compares rtl eqc" "Get_wchar p = Some (Some s)" "position c \<le> length s"
    and "f \<noteq> []" "length f < 2 ^ 15" "mo < 2" "st \<noteq> PENDING_QMARK"
  shows "OpcodeEval_WSTRING_MATCH rtl (reader f) (fst (gen_view rt mo par st lst opts f)) (Some p) (Some c) =
    Some (seg_outcome (seg_end (eqc (odd mo)) st lst f (drop (position c) s)) c)"
proof -
  let ?op = "fst (gen_view rt mo par st lst opts f)" and ?t = "drop (position c) s" and ?eq = "eqc (odd mo)"
  let ?start = "if st = PENDING_ASTERISK then if lst then 1048575 else -1 else 0 :: int"
  let ?mo = "if st = PENDING_NONE \<and> lst then 2 OR mo else mo"
  have a: "arguments ?op ! 1 = length f" "arguments ?op ! 2 = to_uint32 ?start" "arguments ?op ! 3 = ?mo"
    by (simp_all add: gen_view_def string_view_def)
  have i: "to_int32 (length f) = int (length f)" using assms(5) by (rule int_length_arg)
  have st: "to_int32 (to_uint32 ?start) = ?start" by simp
  have ci: "odd ?mo = odd mo" and ex: "(?mo AND 2 \<noteq> 0) \<longleftrightarrow> st = PENDING_NONE \<and> lst"
    using match_opts_bits [OF assms(6)] by simp_all
  define E where "E = rtl_equal rtl (reader f) (odd mo) (int (length f)) ?t"
  have E: "E k = Some (frag_at ?eq f ?t k)" if "k + length f \<le> length ?t" for k
    unfolding E_def using that by (rule rtl_equal_frag [OF assms(1,5)])
  have out: "OpcodeEval_WSTRING_MATCH rtl (reader f) ?op (Some p) (Some c) =
    (if length ?t < length f then Some (EVAL_FALSE, Some c)
     else if 0 \<le> ?start then
       (if ?start \<noteq> 1048575 \<and> (st = PENDING_NONE \<and> lst) \<and> int (length f) + ?start \<noteq> int (length ?t)
        then Some (EVAL_FALSE, Some c)
        else let start = (if ?start = 1048575 then int (length ?t) - int (length f) else ?start) in
          if int (length f) + start > int (length ?t) then Some (EVAL_FALSE, Some c)
          else Option.bind (E (nat start)) (\<lambda>r.
            if r then Some (EVAL_TRUE, Some (c\<lparr>position := position c + nat (start + int (length f))\<rparr>))
            else Some (EVAL_FALSE, Some c)))
     else Option.bind (seek_forward E 0 (nat (int (length ?t) - int (length f)) + 1)) (\<lambda>found.
       case found of Some k \<Rightarrow> Some (EVAL_TRUE, Some (c\<lparr>position := position c + nat (int k + int (length f))\<rparr>))
       | None \<Rightarrow> Some (EVAL_FALSE, Some c)))"
    unfolding OpcodeEval_WSTRING_MATCH_def option.case Option.bind.simps assms(2) a i st ci Let_def ex E_def
    using assms(3,4) by auto
  show ?thesis
  proof (cases "length ?t < length f")
    case True
    then have "\<not> frag_at ?eq f ?t k" for k by (simp add: frag_at_def)
    then show ?thesis unfolding out using True by (auto simp: seg_outcome_def seg_end_def)
  next
    case False
    then have l: "length f \<le> length ?t" by simp
    show ?thesis
    proof (cases "st = PENDING_ASTERISK")
      case False
      then have n: "st = PENDING_NONE" using assms(7) by (cases st) simp_all
      show ?thesis unfolding out using n l E [of 0] by (auto simp: seg_outcome_def seg_end_def frag_at_def)
    next
      case ast: True
      show ?thesis
      proof (cases lst)
        case True
        have "E (length ?t - length f) = Some (frag_at ?eq f ?t (length ?t - length f))" using l by (intro E) simp
        then show ?thesis unfolding out using ast True l
          by (auto simp: seg_outcome_def seg_end_def Let_def nat_diff_distrib')
      next
        case False
        have out': "OpcodeEval_WSTRING_MATCH rtl (reader f) ?op (Some p) (Some c) =
          Option.bind (seek_forward E 0 (length ?t - length f + 1)) (\<lambda>found.
            case found of Some k \<Rightarrow> Some (EVAL_TRUE, Some (c\<lparr>position := position c + (k + length f)\<rparr>))
            | None \<Rightarrow> Some (EVAL_FALSE, Some c))"
          unfolding out using ast False l by (simp add: nat_int_add nat_diff_distrib' split: option.split)
        show ?thesis
        proof (cases "\<exists>k. frag_at ?eq f ?t k")
          case True
          define k where "k = (LEAST k. frag_at ?eq f ?t k)"
          have k1: "frag_at ?eq f ?t k" unfolding k_def by (rule LeastI_ex [OF True])
          have k2: "\<not> frag_at ?eq f ?t j" if "j < k" for j using that unfolding k_def by (rule not_less_Least)
          have kb: "k + length f \<le> length ?t" using k1 by (simp add: frag_at_def)
          have "seek_forward E 0 (length ?t - length f + 1) = Some (Some k)"
            by (rule seek_forward_first) (use k1 k2 kb E in auto)
          moreover have "seg_end ?eq st lst f ?t = Some (k + length f)"
            using ast False True by (simp add: seg_end_def k_def)
          ultimately show ?thesis unfolding out' by (simp add: seg_outcome_def)
        next
          case none: False
          have "seek_forward E 0 (length ?t - length f + 1) = Some None"
            by (rule seek_forward_none) (use none l E in auto)
          moreover have "seg_end ?eq st lst f ?t = None" using ast False none by (simp add: seg_end_def)
          ultimately show ?thesis unfolding out' by (simp add: seg_outcome_def)
        qed
      qed
    qed
  qed
qed

lemma apply_string_options:
  "apply_options (word_of_nat (string_options IF False)) (r, c) = (r, c)"
  "apply_options (word_of_nat (string_options IF True)) (r, c) = (r, map_option (\<lambda>_. MatchContext_Clear) c)"
  "apply_options (word_of_nat (string_options IF_NOT False)) (r, c) =
     (negate_result r, map_option (\<lambda>c. c\<lparr>ctx_options := kPolUseOREval\<rparr>) c)"
  "apply_options (word_of_nat (string_options IF_NOT True)) (r, c) =
     (negate_result r, map_option (\<lambda>_. MatchContext_Clear) c)"
proof -
  have "4 OR 1 = (5 :: nat)" "2 OR 1 = (3 :: nat)" by simp_all
  then have o: "string_options IF_NOT False = 5" "string_options IF_NOT True = 3"
    "string_options IF False = 0" "string_options IF True = 2"
    by (simp_all add: string_options_def)
  have b: "bit (5 :: 16 word) 0" "\<not> bit (5 :: 16 word) 1" "bit (5 :: 16 word) 2"
    "bit (3 :: 16 word) 0" "bit (3 :: 16 word) 1" "\<not> bit (3 :: 16 word) 2"
    "\<not> bit (2 :: 16 word) 0" "bit (2 :: 16 word) 1" "\<not> bit (2 :: 16 word) 2"
    by (simp_all add: bit_numeral_rec)
  show "apply_options (word_of_nat (string_options IF False)) (r, c) = (r, c)"
    "apply_options (word_of_nat (string_options IF True)) (r, c) = (r, map_option (\<lambda>_. MatchContext_Clear) c)"
    "apply_options (word_of_nat (string_options IF_NOT False)) (r, c) =
       (negate_result r, map_option (\<lambda>c. c\<lparr>ctx_options := kPolUseOREval\<rparr>) c)"
    "apply_options (word_of_nat (string_options IF_NOT True)) (r, c) =
       (negate_result r, map_option (\<lambda>_. MatchContext_Clear) c)"
    unfolding o apply_options_def using b by (simp_all add: Let_def del: One_nat_def)
qed

lemma view_eval_gen:
  assumes "compares rtl eqc" "string_param ps par s" "position c \<le> length s"
    and "view_ok (gen_view rt mo par st lst opts f)" "f \<noteq> []" "mo < 2" "st \<noteq> PENDING_QMARK"
  shows "view_eval rtl (gen_view rt mo par st lst opts f) (Some ps) (Some c) =
    Some (apply_options (word_of_nat (string_options rt opts))
      (seg_outcome (seg_end (eqc (odd mo)) st lst f (drop (position c) s)) c))"
proof -
  let ?v = "gen_view rt mo par st lst opts f"
  have fields: "opcode_id (fst ?v) = 5" "op_parameter (fst ?v) = par"
    "op_options (fst ?v) = word_of_nat (string_options rt opts)" "snd ?v = f"
    by (simp_all add: gen_view_def string_view_def)
  have l: "length f < 2 ^ 15" using assms(4) by (simp add: view_ok_def string_op_def fields)
  have p: "0 \<le> sint par" "unat par < length ps" "Get_wchar (ps ! unat par) = Some (Some s)"
    using assms(2) by (simp_all add: string_param_def)
  have "EvaluateHelper rtl (reader f) (fst ?v) (Some (ps ! unat par)) (Some c) =
    OpcodeEval_WSTRING_MATCH rtl (reader f) (fst ?v) (Some (ps ! unat par)) (Some c)"
    unfolding EvaluateHelper_def fields by simp
  then show ?thesis
    unfolding view_eval_def evaluate_opcode_def fields option.case
      eval_gen_view [OF assms(1) p(3) assms(3,5) l assms(6,7)] using p(1,2) by simp
qed

text \<open>Evaluating one view of a string comparison, as a condition.\<close>

lemma condition_gen:
  assumes "compares rtl eqc" "string_param ps par s" "position c \<le> length s"
    and "view_ok (gen_view rt mo par st lst opts f)" "f \<noteq> []" "mo < 2" "st \<noteq> PENDING_QMARK"
    and "ctx_options c = (if rt = IF then 0 else ctx_options c)"
  defines "e \<equiv> seg_end (eqc (odd mo)) st lst f (drop (position c) s)"
  shows "conditions_hold rtl (Some ps) (gen_view rt mo par st lst opts f # vs) c =
    (if rt = IF then
       (case e of None \<Rightarrow> Some False
        | Some n \<Rightarrow> conditions_hold rtl (Some ps) vs
            (if opts then MatchContext_Clear else c\<lparr>position := position c + n\<rparr>))
     else if opts then (if e = None then conditions_hold rtl (Some ps) vs MatchContext_Clear else Some False)
     else (case e of None \<Rightarrow> Some True
       | Some n \<Rightarrow> conditions_hold rtl (Some ps) vs (c\<lparr>position := position c + n, ctx_options := kPolUseOREval\<rparr>)))"
  unfolding conditions_hold.simps view_eval_gen [OF assms(1-7)] e_def [symmetric]
  using assms(8)
  by (cases rt; cases opts; cases e)
    (simp_all add: seg_outcome_def apply_string_options negate_result_def MatchContext_Clear_def)

lemma pend_lit: "pend st f (Lit c # ts) = pend st (f @ [c]) ts"
  by (simp add: pend_def)

section \<open>All opcodes of a pattern\<close>

lemma segs_nonempty: "segs rt mo par ts wild st f = Some new \<Longrightarrow> f \<noteq> [] \<or> has_literal ts \<Longrightarrow> new \<noteq> []"
proof (induction ts arbitrary: wild st f new)
  case (Cons a ts)
  then show ?case by (cases a) (fastforce simp: has_literal_def split: if_splits)+
qed (simp add: has_literal_def)

lemma segs_literal:
  assumes "segs rt mo par ts True st f = Some new" "ts \<noteq> []"
  shows "has_literal ts"
proof (rule ccontr)
  assume "\<not> has_literal ts"
  then obtain ts' where "ts = Star # ts'" using assms(2)
    by (metis has_literal_def list.exhaust list.set_intros(1) tok.exhaust)
  then show False using assms(1) by simp
qed

lemma if_segs:
  assumes "compares rtl eqc" "string_param ps par s" "mo < 2"
  shows "segs IF mo par ts wild st f = Some new \<Longrightarrow> \<forall>v \<in> set new. view_ok v \<Longrightarrow> st \<noteq> PENDING_QMARK \<Longrightarrow>
    f \<noteq> [] \<or> has_literal ts \<Longrightarrow> (st = PENDING_ASTERISK \<and> f = [] \<longrightarrow> wild) \<Longrightarrow>
    position c \<le> length s \<Longrightarrow> ctx_options c = 0 \<Longrightarrow>
    conditions_hold rtl (Some ps) (new @ rest) c =
      (if glob (eqc (odd mo)) (pend st f ts) (drop (position c) s)
       then conditions_hold rtl (Some ps) rest MatchContext_Clear else Some False)"
proof (induction ts arbitrary: wild st f new c)
  case Nil
  then have f: "f \<noteq> []" by (simp add: has_literal_def)
  then have new: "new = [gen_view IF mo par st True True f]" using Nil.prems(1) by simp
  have ok: "view_ok (gen_view IF mo par st True True f)" using Nil.prems(2) new by simp
  have c: "ctx_options c = (if IF = IF then 0 else ctx_options c)" using Nil.prems(7) by simp
  show ?case
    unfolding new append.simps condition_gen [OF assms(1,2) Nil.prems(6) ok f assms(3) Nil.prems(3) c]
      glob_pend_end [OF Nil.prems(3)] by (simp split: option.split)
next
  case (Cons a ts)
  show ?case
  proof (cases a)
    case (Lit ch)
    show ?thesis unfolding Lit pend_lit
      by (rule Cons.IH [of False]) (use Cons.prems Lit in auto)
  next
    case Star
    have w: "\<not> wild" using Cons.prems(1) Star by auto
    show ?thesis
    proof (cases "f = []")
      case True
      then have "st \<noteq> PENDING_ASTERISK" using Cons.prems(5) w by simp
      then have p: "pend st f (a # ts) = pend PENDING_ASTERISK [] ts" by (simp add: pend_def True Star)
      show ?thesis unfolding p
        by (rule Cons.IH [of True]) (use Cons.prems Star True w in \<open>auto simp: has_literal_def\<close>)
    next
      case f: False
      let ?g = "gen_view IF mo par st False (ts = []) f"
      let ?e = "seg_end (eqc (odd mo)) st False f (drop (position c) s)"
      obtain more where more: "segs IF mo par ts True PENDING_ASTERISK [] = Some more" "new = ?g # more"
        using Cons.prems(1) f w Star by auto
      have ok: "view_ok ?g" using Cons.prems(2) more(2) by simp
      have c: "ctx_options c = (if IF = IF then 0 else ctx_options c)" using Cons.prems(7) by simp
      have hold: "conditions_hold rtl (Some ps) (new @ rest) c = (case ?e of None \<Rightarrow> Some False
        | Some n \<Rightarrow> conditions_hold rtl (Some ps) (more @ rest)
            (if ts = [] then MatchContext_Clear else c\<lparr>position := position c + n\<rparr>))"
        unfolding more(2) append.simps condition_gen [OF assms(1,2) Cons.prems(6) ok f assms(3) Cons.prems(3) c]
        by simp
      have g: "glob (eqc (odd mo)) (pend st f (a # ts)) (drop (position c) s) =
        (case ?e of None \<Rightarrow> False | Some n \<Rightarrow> glob (eqc (odd mo)) (Star # ts) (drop n (drop (position c) s)))"
        unfolding Star by (rule glob_pend_star [OF Cons.prems(3)])
      show ?thesis
      proof (cases ?e)
        case None
        then show ?thesis unfolding hold g by simp
      next
        case (Some n)
        have n: "position c + n \<le> length s" using seg_end_bound [OF Some] Cons.prems(6) by simp
        show ?thesis
        proof (cases "ts = []")
          case True
          then show ?thesis using more(1) unfolding hold g Some by (simp add: glob_only_star del: glob.simps)
        next
          case False
          have "has_literal ts" using segs_literal [OF more(1) False] .
          have d: "drop n (drop (position c) s) = drop (position c + n) s" by (simp add: add.commute)
          have p: "pend PENDING_ASTERISK [] ts = Star # ts" by (simp add: pend_def)
          have "conditions_hold rtl (Some ps) (more @ rest) (c\<lparr>position := position c + n\<rparr>) =
            (if glob (eqc (odd mo)) (pend PENDING_ASTERISK [] ts) (drop (position (c\<lparr>position := position c + n\<rparr>)) s)
             then conditions_hold rtl (Some ps) rest MatchContext_Clear else Some False)"
            by (rule Cons.IH [OF more(1)]) (use Cons.prems more(2) n \<open>has_literal ts\<close> in auto)
          then show ?thesis unfolding hold g Some d p using False by (simp add: add.commute del: glob.simps)
        qed
      qed
    qed
  qed
qed

text \<open>
  A negated pattern: it fails exactly when the pattern matches. When it holds, the evaluator either goes on with the
  conditions behind it or, when the pattern has several fragments, may take the rule as decided.
\<close>

lemma if_not_segs:
  assumes "compares rtl eqc" "string_param ps par s" "mo < 2"
  shows "segs IF_NOT mo par ts wild st f = Some new \<Longrightarrow> \<forall>v \<in> set new. view_ok v \<Longrightarrow> st \<noteq> PENDING_QMARK \<Longrightarrow>
    f \<noteq> [] \<or> has_literal ts \<Longrightarrow> (st = PENDING_ASTERISK \<and> f = [] \<longrightarrow> wild) \<Longrightarrow>
    position c \<le> length s \<Longrightarrow>
    (if glob (eqc (odd mo)) (pend st f ts) (drop (position c) s)
     then conditions_hold rtl (Some ps) (new @ rest) c = Some False
     else conditions_hold rtl (Some ps) (new @ rest) c = conditions_hold rtl (Some ps) rest MatchContext_Clear \<or>
       length new \<noteq> 1 \<and> conditions_hold rtl (Some ps) (new @ rest) c = Some True)"
proof (induction ts arbitrary: wild st f new c)
  case Nil
  then have f: "f \<noteq> []" by (simp add: has_literal_def)
  then have new: "new = [gen_view IF_NOT mo par st True True f]" using Nil.prems(1) by simp
  have ok: "view_ok (gen_view IF_NOT mo par st True True f)" using Nil.prems(2) new by simp
  have c: "ctx_options c = (if IF_NOT = IF then 0 else ctx_options c)" by simp
  show ?case
    unfolding new append.simps condition_gen [OF assms(1,2) Nil.prems(6) ok f assms(3) Nil.prems(3) c]
      glob_pend_end [OF Nil.prems(3)] by simp
next
  case (Cons a ts)
  show ?case
  proof (cases a)
    case (Lit ch)
    show ?thesis unfolding Lit pend_lit
      by (rule Cons.IH [of False]) (use Cons.prems Lit in auto)
  next
    case Star
    have w: "\<not> wild" using Cons.prems(1) Star by auto
    show ?thesis
    proof (cases "f = []")
      case True
      then have "st \<noteq> PENDING_ASTERISK" using Cons.prems(5) w by simp
      then have p: "pend st f (a # ts) = pend PENDING_ASTERISK [] ts" by (simp add: pend_def True Star)
      show ?thesis unfolding p
        by (rule Cons.IH [of True]) (use Cons.prems Star True w in \<open>auto simp: has_literal_def\<close>)
    next
      case f: False
      let ?g = "gen_view IF_NOT mo par st False (ts = []) f"
      let ?e = "seg_end (eqc (odd mo)) st False f (drop (position c) s)"
      obtain more where more: "segs IF_NOT mo par ts True PENDING_ASTERISK [] = Some more" "new = ?g # more"
        using Cons.prems(1) f w Star by auto
      have ok: "view_ok ?g" using Cons.prems(2) more(2) by simp
      have c: "ctx_options c = (if IF_NOT = IF then 0 else ctx_options c)" by simp
      have hold: "conditions_hold rtl (Some ps) (new @ rest) c =
        (if ts = [] then if ?e = None then conditions_hold rtl (Some ps) (more @ rest) MatchContext_Clear else Some False
         else (case ?e of None \<Rightarrow> Some True
           | Some n \<Rightarrow> conditions_hold rtl (Some ps) (more @ rest)
               (c\<lparr>position := position c + n, ctx_options := kPolUseOREval\<rparr>)))"
        unfolding more(2) append.simps condition_gen [OF assms(1,2) Cons.prems(6) ok f assms(3) Cons.prems(3) c]
        by simp
      have g: "glob (eqc (odd mo)) (pend st f (a # ts)) (drop (position c) s) =
        (case ?e of None \<Rightarrow> False | Some n \<Rightarrow> glob (eqc (odd mo)) (Star # ts) (drop n (drop (position c) s)))"
        unfolding Star by (rule glob_pend_star [OF Cons.prems(3)])
      show ?thesis
      proof (cases "ts = []")
        case True
        then have "more = []" using more(1) by simp
        then show ?thesis unfolding hold g using True by (simp add: glob_only_star del: glob.simps split: option.split)
      next
        case False
        have lit: "has_literal ts" using segs_literal [OF more(1) False] .
        have ne: "length new \<noteq> 1" using segs_nonempty [OF more(1)] lit more(2) by simp
        show ?thesis
        proof (cases ?e)
          case None
          then show ?thesis unfolding hold g using False ne by simp
        next
          case (Some n)
          let ?c = "c\<lparr>position := position c + n, ctx_options := kPolUseOREval\<rparr>"
          have n: "position c + n \<le> length s" using seg_end_bound [OF Some] Cons.prems(6) by simp
          have d: "drop n (drop (position c) s) = drop (position ?c) s" by (simp add: add.commute)
          have p: "pend PENDING_ASTERISK [] ts = Star # ts" by (simp add: pend_def)
          have "if glob (eqc (odd mo)) (pend PENDING_ASTERISK [] ts) (drop (position ?c) s)
            then conditions_hold rtl (Some ps) (more @ rest) ?c = Some False
            else conditions_hold rtl (Some ps) (more @ rest) ?c = conditions_hold rtl (Some ps) rest MatchContext_Clear \<or>
              length more \<noteq> 1 \<and> conditions_hold rtl (Some ps) (more @ rest) ?c = Some True"
            by (rule Cons.IH [OF more(1)]) (use Cons.prems more(2) n lit in auto)
          moreover have "conditions_hold rtl (Some ps) (new @ rest) c = conditions_hold rtl (Some ps) (more @ rest) ?c"
            unfolding hold using False Some by simp
          moreover have "glob (eqc (odd mo)) (pend st f (a # ts)) (drop (position c) s) =
            glob (eqc (odd mo)) (pend PENDING_ASTERISK [] ts) (drop (position ?c) s)"
            unfolding g Some option.case d p ..
          ultimately show ?thesis using ne by auto
        qed
      qed
    qed
  qed
qed

end
