(* ===== verification/PolicyDecision.thy ===== *)
theory PolicyDecision
  imports PolicyMeaning
begin

text \<open>
  Rules as lists of comparisons. The buffer of a rule that was built with \<open>AddStringMatch\<close> and
  \<open>AddNumberMatch\<close> and finished with \<open>Done\<close> (\<open>policy_low_level.cc\<close>) decides as the conjunction of its
  comparisons; the theorems also state where the code departs from that.
\<close>

section \<open>Comparisons\<close>

datatype comparison =
  StringMatch RuleType int16 wstring uint32
| NumberMatch RuleType int16 uint32 RuleOp

definition add_comparison :: "comparison \<Rightarrow> policy_rule \<Rightarrow> (bool \<times> policy_rule) option" where
  "add_comparison c =
     (case c of StringMatch rt par pat mo \<Rightarrow> AddStringMatch rt par pat mo
      | NumberMatch rt par n op \<Rightarrow> AddNumberMatch rt par n op)"

primrec add_comparisons :: "comparison list \<Rightarrow> policy_rule \<Rightarrow> (bool \<times> policy_rule) option" where
  "add_comparisons [] rule = Some (True, rule)"
| "add_comparisons (c # cs) rule =
     Option.bind (add_comparison c rule) (\<lambda>(ok, rule).
       if ok then add_comparisons cs rule else Some (False, rule))"

definition build_rule :: "EvalResult \<Rightarrow> memory \<Rightarrow> comparison list \<Rightarrow> (bool \<times> policy_rule) option" where
  "build_rule act garbage cs = do {
     rule \<leftarrow> PolicyRule_init act garbage;
     (ok, rule) \<leftarrow> add_comparisons cs rule;
     if ok then PolicyRule_Done rule else Some (False, rule)
   }"

text \<open>What a comparison means for the parameters of a call, and the parameters it is made for.\<close>

definition holds :: "(bool \<Rightarrow> wchar \<Rightarrow> wchar \<Rightarrow> bool) \<Rightarrow> ParameterSet list \<Rightarrow> comparison \<Rightarrow> bool" where
  "holds eqc ps c \<longleftrightarrow> (case c of
     StringMatch rt par pat mo \<Rightarrow>
       (rt = IF) = (case (var_chars (ps ! unat par), tokens pat) of
          (Some s, Some ts) \<Rightarrow> glob (eqc (odd mo)) ts s | _ \<Rightarrow> False)
   | NumberMatch rt par n op \<Rightarrow>
       (rt = IF) = (case op of EQUAL \<Rightarrow> n = var_number (ps ! unat par)
          | AND_OP \<Rightarrow> n AND var_number (ps ! unat par) \<noteq> 0 | RANGE \<Rightarrow> False))"

definition usable :: "ParameterSet list \<Rightarrow> comparison \<Rightarrow> bool" where
  "usable ps c \<longleftrightarrow> (case c of
     StringMatch rt par pat mo \<Rightarrow> 0 \<le> sint par \<and> unat par < length ps \<and>
       real_type (ps ! unat par) = WCHAR_TYPE \<and> var_chars (ps ! unat par) \<noteq> None
   | NumberMatch rt par n op \<Rightarrow> 0 \<le> sint par \<and> unat par < length ps \<and>
       (real_type (ps ! unat par) = ULONG_TYPE \<or> op = EQUAL \<and> real_type (ps ! unat par) = VOIDPTR_TYPE))"

text \<open>The comparisons considered: no question marks and some literal in a pattern, and one of the
  implemented number comparisons.\<close>

definition proper :: "comparison \<Rightarrow> bool" where
  "proper c \<longleftrightarrow> (case c of
     StringMatch rt par pat mo \<Rightarrow> mo < 2 \<and> (case tokens pat of None \<Rightarrow> False | Some ts \<Rightarrow> has_literal ts)
   | NumberMatch rt par n op \<Rightarrow> op \<noteq> RANGE \<and> n < 2 ^ 32)"

text \<open>The number of fragments of a pattern. A negated pattern of several fragments must come last.\<close>

fun fragments :: "tok list \<Rightarrow> bool \<Rightarrow> nat" where
  "fragments [] inside = of_bool inside"
| "fragments (Star # ts) inside = of_bool inside + fragments ts False"
| "fragments (Lit c # ts) inside = fragments ts True"

definition conjunct :: "comparison \<Rightarrow> bool" where
  "conjunct c \<longleftrightarrow> (case c of
     StringMatch rt par pat mo \<Rightarrow> rt = IF \<or> (case tokens pat of None \<Rightarrow> False | Some ts \<Rightarrow> fragments ts False = 1)
   | NumberMatch rt par n op \<Rightarrow> True)"

lemma segs_fragments: "segs rt mo par ts wild st f = Some new \<Longrightarrow> length new = fragments ts (f \<noteq> [])"
proof (induction ts arbitrary: wild st f new)
  case (Cons a ts)
  then show ?case by (cases a) (auto split: if_splits)
qed (auto split: if_splits)

section \<open>The views of a comparison\<close>

definition view_means :: "(bool \<Rightarrow> wchar \<Rightarrow> wchar \<Rightarrow> bool) \<Rightarrow> comparison \<Rightarrow> view list \<Rightarrow> bool" where
  "view_means eqc c new \<longleftrightarrow> (\<forall>v \<in> set new. \<not> IsAction (fst v)) \<and>
     (\<forall>rtl ps rest. compares rtl eqc \<longrightarrow> usable ps c \<longrightarrow>
       (if holds eqc ps c
        then conditions_hold rtl (Some ps) (new @ rest) MatchContext_Clear =
            conditions_hold rtl (Some ps) rest MatchContext_Clear \<or>
          \<not> conjunct c \<and> conditions_hold rtl (Some ps) (new @ rest) MatchContext_Clear = Some True
        else conditions_hold rtl (Some ps) (new @ rest) MatchContext_Clear = Some False))"

lemma rule_rep_view_ok: "rule_rep rule vs \<Longrightarrow> v \<in> set vs \<Longrightarrow> view_ok v"
  unfolding rule_rep_def Let_def placed_def by (metis in_set_conv_nth)

lemma segs_not_action:
  "segs rt mo par ts wild st f = Some new \<Longrightarrow> v \<in> set new \<Longrightarrow> \<not> IsAction (fst v)"
proof (induction ts arbitrary: wild st f new)
  case Nil
  then show ?case
    by (auto simp: IsAction_def gen_view_def string_view_def OpcodeID_code_def split: if_splits)
next
  case (Cons a ts)
  then show ?case
    by (cases a) (auto simp: IsAction_def gen_view_def string_view_def OpcodeID_code_def split: if_splits)
qed

lemma segs_means:
  assumes "segs rt mo par ts False PENDING_NONE [] = Some new" "tokens pat = Some ts" "has_literal ts" "mo < 2"
    and "\<forall>v \<in> set new. view_ok v"
  shows "view_means eqc (StringMatch rt par pat mo) new"
  unfolding view_means_def
proof (intro conjI ballI allI impI)
  fix v assume "v \<in> set new"
  then show "\<not> IsAction (fst v)" using segs_not_action [OF assms(1)] by blast
next
  fix rtl ps rest
  let ?c = "StringMatch rt par pat mo"
  assume c: "compares rtl eqc" and u: "usable ps ?c"
  then obtain s where s: "var_chars (ps ! unat par) = Some s" "string_param ps par s"
    by (auto simp: usable_def string_param_def Get_wchar_def)
  have h: "holds eqc ps ?c \<longleftrightarrow> (rt = IF) = glob (eqc (odd mo)) (pend PENDING_NONE [] ts) (drop (position MatchContext_Clear) s)"
    by (simp add: holds_def s(1) assms(2) pend_def MatchContext_Clear_def)
  have n: "length new = fragments ts False" using segs_fragments [OF assms(1)] by simp
  have pos: "position MatchContext_Clear \<le> length s" "ctx_options MatchContext_Clear = 0"
    by (simp_all add: MatchContext_Clear_def)
  show "if holds eqc ps ?c
        then conditions_hold rtl (Some ps) (new @ rest) MatchContext_Clear =
            conditions_hold rtl (Some ps) rest MatchContext_Clear \<or>
          \<not> conjunct ?c \<and> conditions_hold rtl (Some ps) (new @ rest) MatchContext_Clear = Some True
        else conditions_hold rtl (Some ps) (new @ rest) MatchContext_Clear = Some False"
  proof (cases rt)
    case IF
    have "conditions_hold rtl (Some ps) (new @ rest) MatchContext_Clear =
      (if glob (eqc (odd mo)) (pend PENDING_NONE [] ts) (drop (position MatchContext_Clear) s)
       then conditions_hold rtl (Some ps) rest MatchContext_Clear else Some False)"
      by (rule if_segs [OF c s(2) assms(4)]) (use assms IF pos in auto)
    then show ?thesis unfolding h using IF by simp
  next
    case IF_NOT
    have "if glob (eqc (odd mo)) (pend PENDING_NONE [] ts) (drop (position MatchContext_Clear) s)
     then conditions_hold rtl (Some ps) (new @ rest) MatchContext_Clear = Some False
     else conditions_hold rtl (Some ps) (new @ rest) MatchContext_Clear = conditions_hold rtl (Some ps) rest MatchContext_Clear \<or>
       length new \<noteq> 1 \<and> conditions_hold rtl (Some ps) (new @ rest) MatchContext_Clear = Some True"
      by (rule if_not_segs [OF c s(2) assms(4)]) (use assms IF_NOT pos in auto)
    then show ?thesis unfolding h using IF_NOT n by (auto simp: conjunct_def assms(2) split: if_splits)
  qed
qed

lemma number_options:
  "apply_options (word_of_nat (if rt = IF_NOT then kPolNegateEval else kPolNone)) (bool_result b, c) =
     (bool_result (if rt = IF then b else \<not> b), c)"
  by (cases rt; cases c) (simp_all add: apply_options_def negate_result_def bool_result_def Let_def)

lemma condition_bool:
  assumes "view_eval rtl v (Some ps) (Some MatchContext_Clear) = Some (bool_result b, Some MatchContext_Clear)"
  shows "conditions_hold rtl (Some ps) (v # vs) MatchContext_Clear =
    (if b then conditions_hold rtl (Some ps) vs MatchContext_Clear else Some False)"
  using assms by (simp add: bool_result_def MatchContext_Clear_def)

lemma view_eval_number:
  assumes "0 \<le> sint par" "unat par < length ps" "opts = (if rt = IF_NOT then kPolNegateEval else kPolNone)"
    and "EvaluateHelper rtl (reader []) (fst (plain_view oid opts par args)) (Some (ps ! unat par)) c = Some (bool_result b, c)"
  shows "view_eval rtl (plain_view oid opts par args) (Some ps) c = Some (bool_result ((rt = IF) = b), c)"
proof -
  have f: "op_parameter (fst (plain_view oid opts par args)) = par" "snd (plain_view oid opts par args) = []"
    "op_options (fst (plain_view oid opts par args)) = word_of_nat (if rt = IF_NOT then kPolNegateEval else kPolNone)"
    using assms(3) by (simp_all add: plain_view_def)
  have "(if rt = IF then b else \<not> b) = ((rt = IF) = b)" by simp
  then show ?thesis unfolding view_eval_def evaluate_opcode_def f option.case
    using assms(1,2,4) by (simp add: number_options del: map_option_eq_Some)
qed

lemma number_view_eval:
  assumes "usable ps (NumberMatch rt par n op)" "op \<noteq> RANGE"
  shows "view_eval rtl (case op of EQUAL \<Rightarrow> plain_view OP_NUMBER_MATCH (if rt = IF_NOT then kPolNegateEval else kPolNone) par [n, 2]
      | _ \<Rightarrow> plain_view OP_ULONG_AND_MATCH (if rt = IF_NOT then kPolNegateEval else kPolNone) par [n])
      (Some ps) (Some MatchContext_Clear) =
    Some (bool_result (holds eqc ps (NumberMatch rt par n op)), Some MatchContext_Clear)"
proof -
  have p: "0 \<le> sint par" "unat par < length ps" and t: "real_type (ps ! unat par) = ULONG_TYPE \<or>
      op = EQUAL \<and> real_type (ps ! unat par) = VOIDPTR_TYPE"
    using assms(1) by (simp_all add: usable_def)
  show ?thesis
  proof (cases op)
    case EQUAL
    have "EvaluateHelper rtl (reader []) (fst (plain_view OP_NUMBER_MATCH opts par [n, 2])) (Some (ps ! unat par)) c =
      Some (bool_result (n = var_number (ps ! unat par)), c)" for opts c
      using t by (auto simp: EvaluateHelper_def OpcodeEval_NUMBER_MATCH_def plain_view_def OpcodeID_code_def
          Get_ulong_def Get_voidptr_def)
    from view_eval_number [OF p refl this] show ?thesis using EQUAL by (simp add: holds_def)
  next
    case AND_OP
    have "EvaluateHelper rtl (reader []) (fst (plain_view OP_ULONG_AND_MATCH opts par [n])) (Some (ps ! unat par)) c =
      Some (bool_result (n AND var_number (ps ! unat par) \<noteq> 0), c)" for opts c
      using t AND_OP by (auto simp: EvaluateHelper_def OpcodeEval_ULONG_AND_MATCH_def plain_view_def
          OpcodeID_code_def Get_ulong_def)
    from view_eval_number [OF p refl this] show ?thesis using AND_OP by (simp add: holds_def)
  qed (use assms(2) in simp)
qed

lemma number_means:
  assumes "op \<noteq> RANGE"
  shows "view_means eqc (NumberMatch rt par n op)
    [case op of EQUAL \<Rightarrow> plain_view OP_NUMBER_MATCH (if rt = IF_NOT then kPolNegateEval else kPolNone) par [n, 2]
      | _ \<Rightarrow> plain_view OP_ULONG_AND_MATCH (if rt = IF_NOT then kPolNegateEval else kPolNone) par [n]]"
    (is "view_means eqc ?c [?v]")
  unfolding view_means_def
proof (intro conjI ballI allI impI)
  fix v assume "v \<in> set [?v]"
  then show "\<not> IsAction (fst v)"
    by (cases op) (simp_all add: IsAction_def plain_view_def OpcodeID_code_def)
next
  fix rtl ps rest assume "compares rtl eqc" "usable ps ?c"
  from condition_bool [OF number_view_eval [OF this(2) assms]]
  show "if holds eqc ps ?c
        then conditions_hold rtl (Some ps) ([?v] @ rest) MatchContext_Clear = conditions_hold rtl (Some ps) rest MatchContext_Clear \<or>
          \<not> conjunct ?c \<and> conditions_hold rtl (Some ps) ([?v] @ rest) MatchContext_Clear = Some True
        else conditions_hold rtl (Some ps) ([?v] @ rest) MatchContext_Clear = Some False"
    unfolding append.simps by presburger
qed

section \<open>Building a rule\<close>

text \<open>The views that a comparison adds.\<close>

definition number_view :: "RuleType \<Rightarrow> int16 \<Rightarrow> uint32 \<Rightarrow> RuleOp \<Rightarrow> view" where
  "number_view rt par n op =
     (case op of EQUAL \<Rightarrow> plain_view OP_NUMBER_MATCH (if rt = IF_NOT then kPolNegateEval else kPolNone) par [n, 2]
      | _ \<Rightarrow> plain_view OP_ULONG_AND_MATCH (if rt = IF_NOT then kPolNegateEval else kPolNone) par [n])"

definition comparison_views :: "comparison \<Rightarrow> view list option" where
  "comparison_views c = (case c of
     StringMatch rt par pat mo \<Rightarrow>
       (case tokens pat of None \<Rightarrow> None | Some ts \<Rightarrow> segs rt mo par ts False PENDING_NONE [])
   | NumberMatch rt par n op \<Rightarrow> Some [number_view rt par n op])"

primrec all_views :: "comparison list \<Rightarrow> view list option" where
  "all_views [] = Some []"
| "all_views (c # cs) = do { a \<leftarrow> comparison_views c; b \<leftarrow> all_views cs; Some (a @ b) }"

lemma comparison_means:
  assumes "proper c" "comparison_views c = Some new" "\<forall>v \<in> set new. view_ok v"
  shows "view_means eqc c new"
proof (cases c)
  case (StringMatch rt par pat mo)
  obtain ts where ts: "tokens pat = Some ts" "has_literal ts" "mo < 2"
    using assms(1) by (auto simp: proper_def StringMatch split: option.splits)
  then show ?thesis using assms(2,3) segs_means [OF _ ts, of rt par new eqc]
    by (simp add: comparison_views_def StringMatch)
next
  case (NumberMatch rt par n op)
  then show ?thesis using assms(1,2) number_means [of op eqc rt par n]
    by (simp add: proper_def comparison_views_def number_view_def)
qed

lemma add_comparison_appends:
  assumes "rule_rep rule vs" "\<not> rule_done rule" "proper c"
  shows "appends rule vs (add_comparison c rule) (comparison_views c)"
proof (cases c)
  case (StringMatch rt par pat mo)
  obtain ts where ts: "tokens pat = Some ts" "has_literal ts" "mo < 2"
    using assms(3) by (auto simp: proper_def StringMatch split: option.splits)
  have "appends rule vs (string_machine rt mo par pat 0 PENDING_NONE 0 [] rule)
      (segs rt mo par ts (wild_char 0) PENDING_NONE [])"
    by (rule string_machine_segs [OF assms(1) ts(1)]) (use ts in auto)
  then show ?thesis using assms(2) ts(1)
    by (simp add: add_comparison_def comparison_views_def StringMatch AddStringMatch_def)
next
  case (NumberMatch rt par n op)
  have p: "op \<noteq> RANGE" "n < 2 ^ 32" using assms(3) by (simp_all add: proper_def NumberMatch)
  let ?o = "if rt = IF_NOT then kPolNegateEval else kPolNone"
  define mk where "mk = (case op of EQUAL \<Rightarrow> MakeOpNumberMatch par n ?o | AND_OP \<Rightarrow> MakeOpUlongAndMatch par n ?o
     | RANGE \<Rightarrow> (\<lambda>m f. Some (Some 0, m, f)))"
  have m: "makes mk (number_view rt par n op)"
    using makes_number [OF p(2)] makes_and [OF p(2)] p(1) by (cases op) (simp_all add: number_view_def mk_def)
  have a: "add_comparison c rule = add_opcode mk rule"
    using assms(2) by (simp add: add_comparison_def NumberMatch AddNumberMatch_def Let_def mk_def)
  have v: "comparison_views c = Some [number_view rt par n op]" by (simp add: comparison_views_def NumberMatch)
  from add_opcode_rep [OF assms(1) m] show ?thesis unfolding a v
  proof
    assume "\<exists>rule'. add_opcode mk rule = Some (False, rule') \<and> room (rule_factory rule) < cost (number_view rt par n op)"
    then show "appends rule vs (add_opcode mk rule) (Some [number_view rt par n op])"
      by (auto intro!: appends_fail simp: rule_room_def)
  next
    assume "\<exists>rule'. add_opcode mk rule = Some (True, rule') \<and> rule_rep rule' (vs @ [number_view rt par n op]) \<and>
      room (rule_factory rule) \<le> room (rule_factory rule') + cost (number_view rt par n op) \<and>
      rule_action rule' = rule_action rule \<and> rule_done rule' = rule_done rule"
    then obtain rule' where r: "add_opcode mk rule = Some (True, rule')" "rule_rep rule' (vs @ [number_view rt par n op])"
      "rule_room rule \<le> rule_room rule' + cost (number_view rt par n op)"
      "rule_action rule' = rule_action rule" "rule_done rule' = rule_done rule" by (auto simp: rule_room_def)
    show "appends rule vs (add_opcode mk rule) (Some [number_view rt par n op])"
      unfolding r(1) by (rule appends_one) (use r in simp_all)
  qed
qed

lemma add_comparisons_appends:
  assumes "rule_rep rule vs" "\<not> rule_done rule" "\<forall>c \<in> set cs. proper c"
  shows "appends rule vs (add_comparisons cs rule) (all_views cs)"
  using assms
proof (induction cs arbitrary: rule vs)
  case Nil
  then show ?case unfolding add_comparisons.simps all_views.simps by (intro appends_one) simp_all
next
  case (Cons c cs)
  have "proper c" using Cons.prems(3) by simp
  from add_comparison_appends [OF Cons.prems(1,2) this] obtain ok rule1 where r1:
    "add_comparison c rule = Some (ok, rule1)"
    "if ok then (\<exists>ws. comparison_views c = Some ws \<and> rule_rep rule1 (vs @ ws) \<and> rule_room rule \<le> rule_room rule1 + costs ws) \<and>
       rule_action rule1 = rule_action rule \<and> rule_done rule1 = rule_done rule
     else \<forall>ws. comparison_views c = Some ws \<longrightarrow> rule_room rule < costs ws"
    unfolding appends_def by blast
  show ?case
  proof (cases ok)
    case True
    then obtain ws where ws: "comparison_views c = Some ws" "rule_rep rule1 (vs @ ws)"
      "rule_room rule \<le> rule_room rule1 + costs ws" "rule_action rule1 = rule_action rule" "rule_done rule1 = rule_done rule"
      using r1(2) by auto
    have "appends rule1 (vs @ ws) (add_comparisons cs rule1) (all_views cs)"
      by (rule Cons.IH [OF ws(2)]) (use Cons.prems ws(5) in simp_all)
    then obtain ok2 rule2 where r2: "add_comparisons cs rule1 = Some (ok2, rule2)"
      "if ok2 then (\<exists>w2. all_views cs = Some w2 \<and> rule_rep rule2 ((vs @ ws) @ w2) \<and> rule_room rule1 \<le> rule_room rule2 + costs w2) \<and>
         rule_action rule2 = rule_action rule1 \<and> rule_done rule2 = rule_done rule1
       else \<forall>w2. all_views cs = Some w2 \<longrightarrow> rule_room rule1 < costs w2"
      unfolding appends_def by blast
    have e: "add_comparisons (c # cs) rule = Some (ok2, rule2)" using r1(1) r2(1) True by simp
    have v: "all_views (c # cs) = map_option ((@) ws) (all_views cs)" using ws(1) by (cases "all_views cs") simp_all
    show ?thesis
    proof (cases ok2)
      case True
      then obtain w2 where w2: "all_views cs = Some w2" "rule_rep rule2 (vs @ (ws @ w2))"
        "rule_room rule1 \<le> rule_room rule2 + costs w2" "rule_action rule2 = rule_action rule1" "rule_done rule2 = rule_done rule1"
        using r2(2) by auto
      have "appends rule vs (Some (True, rule2)) (Some (ws @ w2))"
        by (rule appends_one) (use w2 ws in simp_all)
      then show ?thesis unfolding e v w2(1) using True by simp
    next
      case False
      have "rule_room rule < costs xs" if xs: "all_views (c # cs) = Some xs" for xs
      proof -
        obtain w2 where w2: "all_views cs = Some w2" "xs = ws @ w2" using xs unfolding v by auto
        then show ?thesis using r2(2) False ws(3) by simp
      qed
      then show ?thesis unfolding e using False by (simp add: appends_fail)
    qed
  next
    case False
    have "rule_room rule < costs xs" if xs: "all_views (c # cs) = Some xs" for xs
    proof -
      obtain ws w2 where w: "comparison_views c = Some ws" "xs = ws @ w2" using xs by (auto dest!: bind_SomeD)
      then show ?thesis using r1(2) False by simp
    qed
    then show ?thesis using r1(1) False by (simp add: appends_fail)
  qed
qed

lemma all_views_means:
  assumes "all_views cs = Some vs" "\<forall>c \<in> set cs. proper c" "\<forall>v \<in> set vs. view_ok v"
  shows "\<exists>news. vs = concat news \<and> list_all2 (view_means eqc) cs news"
  using assms
proof (induction cs arbitrary: vs)
  case Nil
  then show ?case by (auto intro: exI [of _ "[]"])
next
  case (Cons c cs)
  obtain a b where ab: "comparison_views c = Some a" "all_views cs = Some b" "vs = a @ b"
    using Cons.prems(1) by (auto dest!: bind_SomeD)
  from Cons.IH [OF ab(2)] Cons.prems(2,3) ab(3) obtain news where "b = concat news" "list_all2 (view_means eqc) cs news"
    by auto
  moreover have "view_means eqc c a" using comparison_means [OF _ ab(1)] Cons.prems(2,3) ab(3) by simp
  ultimately show ?case using ab(3) by (intro exI [of _ "a # news"]) simp
qed

lemma concat_not_action:
  "list_all2 (view_means eqc) cs news \<Longrightarrow> v \<in> set (concat news) \<Longrightarrow> \<not> IsAction (fst v)"
  by (induction cs news rule: list_all2_induct) (auto simp: view_means_def)

text \<open>The views of a rule decide as the conjunction of its comparisons.\<close>

definition conjunctive :: "comparison list \<Rightarrow> bool" where
  "conjunctive cs \<longleftrightarrow> (\<forall>c \<in> set (butlast cs). conjunct c)"

lemma concat_means:
  assumes "list_all2 (view_means eqc) cs news" "conjunctive cs" "compares rtl eqc" "\<forall>c \<in> set cs. usable ps c"
  shows "conditions_hold rtl (Some ps) (concat news) MatchContext_Clear = Some (\<forall>c \<in> set cs. holds eqc ps c)"
  using assms
proof (induction cs news rule: list_all2_induct)
  case (Cons c cs new news)
  have m: "if holds eqc ps c
        then conditions_hold rtl (Some ps) (new @ concat news) MatchContext_Clear =
            conditions_hold rtl (Some ps) (concat news) MatchContext_Clear \<or>
          \<not> conjunct c \<and> conditions_hold rtl (Some ps) (new @ concat news) MatchContext_Clear = Some True
        else conditions_hold rtl (Some ps) (new @ concat news) MatchContext_Clear = Some False"
    using Cons.hyps(1) Cons.prems(2,3) by (simp add: view_means_def)
  show ?case
  proof (cases "cs = []")
    case True
    then have "news = []" using Cons.hyps(2) by simp
    then show ?thesis using m True by (auto split: if_splits)
  next
    case False
    then have "conjunct c" "conjunctive cs" using Cons.prems(1) by (simp_all add: conjunctive_def)
    moreover from this have "conditions_hold rtl (Some ps) (concat news) MatchContext_Clear = Some (\<forall>c \<in> set cs. holds eqc ps c)"
      using Cons.IH Cons.prems(2,3) by simp
    ultimately show ?thesis using m by (auto split: if_splits)
  qed
qed simp

text \<open>A finished rule for an action and comparisons.\<close>

definition rule_for :: "(bool \<Rightarrow> wchar \<Rightarrow> wchar \<Rightarrow> bool) \<Rightarrow> EvalResult \<Rightarrow> comparison list \<Rightarrow> view list \<Rightarrow> bool" where
  "rule_for eqc act cs conds \<longleftrightarrow> conditions_only (conds, act) \<and>
     (\<forall>rtl ps. compares rtl eqc \<longrightarrow> (\<forall>c \<in> set cs. usable ps c) \<longrightarrow>
        conditions_hold rtl (Some ps) conds MatchContext_Clear = Some (\<forall>c \<in> set cs. holds eqc ps c))"

lemma build_rule_run:
  assumes "length garbage = 2062" "\<forall>c \<in> set cs. proper c"
  shows "\<exists>ok rule. build_rule act garbage cs = Some (ok, rule) \<and>
    (if ok then \<exists>vs. all_views cs = Some vs \<and> rule_has rule (vs @ [action_view act]) \<and> (\<forall>v \<in> set vs. view_ok v) \<and>
       rule_done rule
     else \<forall>vs. all_views cs = Some vs \<longrightarrow> 4120 < costs vs + 26)"
proof -
  from rule_rep_init [OF assms(1)] obtain r0 where r0: "PolicyRule_init act garbage = Some r0" "rule_rep r0 []"
    "rule_action r0 = act" "\<not> rule_done r0" by blast
  have room: "rule_room r0 = 4120"
    using r0(1) by (auto simp: PolicyRule_init_def rule_room_def room_def OpcodeFactory_init_def
        split: if_splits dest!: bind_SomeD)
  from add_comparisons_appends [OF r0(2,4) assms(2)] obtain ok r1 where r1: "add_comparisons cs r0 = Some (ok, r1)"
    "if ok then (\<exists>ws. all_views cs = Some ws \<and> rule_rep r1 ws \<and> rule_room r0 \<le> rule_room r1 + costs ws) \<and>
       rule_action r1 = rule_action r0 \<and> rule_done r1 = rule_done r0
     else \<forall>ws. all_views cs = Some ws \<longrightarrow> rule_room r0 < costs ws"
    unfolding appends_def append.simps by blast
  show ?thesis
  proof (cases ok)
    case False
    have "4120 < costs ws + 26" if "all_views cs = Some ws" for ws using r1(2) False room that by fastforce
    moreover have "build_rule act garbage cs = Some (False, r1)"
      using r0(1) r1(1) False by (simp add: build_rule_def)
    ultimately show ?thesis by (intro exI [of _ False] exI [of _ r1]) simp
  next
    case True
    then obtain ws where ws: "all_views cs = Some ws" "rule_rep r1 ws" "rule_room r0 \<le> rule_room r1 + costs ws"
      "rule_action r1 = act" "\<not> rule_done r1" using r1(2) r0(3,4) by auto
    have b: "build_rule act garbage cs = Option.bind (add_opcode (MakeOpAction act 0) r1)
        (\<lambda>(ok, rule). Some (ok, if ok then rule\<lparr>rule_done := True\<rparr> else rule))"
      using r0(1) r1(1) True ws(4,5) by (simp add: build_rule_def PolicyRule_Done_def)
    have c: "cost (action_view act) = 26" by (simp add: cost_def action_view_def)
    from add_opcode_rep [OF ws(2) makes_action [of act]] show ?thesis
    proof
      assume "\<exists>rule'. add_opcode (MakeOpAction act 0) r1 = Some (False, rule') \<and> room (rule_factory r1) < cost (action_view act)"
      then obtain r2 where "add_opcode (MakeOpAction act 0) r1 = Some (False, r2)" "rule_room r1 < 26"
        by (auto simp: c rule_room_def)
      then show ?thesis unfolding b using ws(1,3) room by (simp add: ex_bool_eq)
    next
      assume "\<exists>rule'. add_opcode (MakeOpAction act 0) r1 = Some (True, rule') \<and> rule_rep rule' (ws @ [action_view act]) \<and>
        room (rule_factory r1) \<le> room (rule_factory rule') + cost (action_view act) \<and>
        rule_action rule' = rule_action r1 \<and> rule_done rule' = rule_done r1"
      then obtain r2 where r2: "add_opcode (MakeOpAction act 0) r1 = Some (True, r2)" "rule_rep r2 (ws @ [action_view act])"
        by blast
      have "rule_has (r2\<lparr>rule_done := True\<rparr>) (ws @ [action_view act])"
        using rule_rep_has [OF r2(2)] by (simp add: rule_has_def)
      moreover have "\<forall>v \<in> set ws. view_ok v" using rule_rep_view_ok [OF r2(2)] by simp
      ultimately show ?thesis unfolding b r2(1) using ws(1) by (simp add: ex_bool_eq)
    qed
  qed
qed

lemma build_rule_length: "build_rule act garbage cs = Some r \<Longrightarrow> length garbage = 2062"
  by (auto simp: build_rule_def PolicyRule_init_def split: if_splits)

lemma build_rule_views:
  assumes "build_rule act garbage cs = Some (True, rule)" "\<forall>c \<in> set cs. proper c" "conjunctive cs" "is_action act"
  shows "rule_done rule \<and> (\<exists>conds. all_views cs = Some conds \<and> rule_has rule (rule_views (conds, act)) \<and>
    rule_for eqc act cs conds)"
proof -
  from build_rule_run [OF build_rule_length [OF assms(1)] assms(2), of act] assms(1) obtain vs where
    vs: "all_views cs = Some vs" "rule_has rule (vs @ [action_view act])" "\<forall>v \<in> set vs. view_ok v" "rule_done rule"
    by auto
  from all_views_means [OF vs(1) assms(2) vs(3), of eqc] obtain news where
    news: "vs = concat news" "list_all2 (view_means eqc) cs news" by blast
  have "conditions_only (vs, act)"
    using concat_not_action [OF news(2)] assms(4) unfolding conditions_only_def fst_conv snd_conv news(1) by blast
  then have "rule_for eqc act cs vs"
    unfolding rule_for_def news(1) using concat_means [OF news(2) assms(3)] by blast
  then show ?thesis using vs(1,2,4) by (auto simp: rule_views_def)
qed

section \<open>Properties of rules\<close>

lemma rule_has_policy:
  assumes "rule_has rule (rule_views r)"
  shows "policy_at (rule_buffer rule) 0 [r]"
  using assms by (simp add: policy_at_def rule_has_def stored_from_def opcode_address_def)

text \<open>
  C6 (functional): a finished rule decides as the conjunction of its comparisons, for the comparisons
  \<open>proper\<close> and \<open>conjunctive\<close>: patterns of literals and asterisks with at least one literal and no
  question mark as a wildcard (an escaped one is a literal), numbers compared by \<open>EQUAL\<close> or \<open>AND\<close>, and a
  negated pattern of several fragments only as the last comparison. For every list of them and all parameters of the
  right types, the opcodes in the buffer evaluate to the action of the rule exactly when every comparison holds, where
  an asterisk stands for any characters. Patterns without literals, with question marks, or negated with several
  fragments and something behind them are excluded because the code does not decide so for them:
  \<open>asterisk_drops_negation\<close> and \<open>negated_pattern_ends_rule\<close> show it for two of the three.
\<close>

theorem rule_decides:
  assumes "build_rule act garbage cs = Some (True, rule)" "\<forall>c \<in> set cs. proper c" "conjunctive cs" "is_action act"
    and "compares rtl eqc" "\<forall>c \<in> set cs. usable ps c" "ps \<noteq> []"
  shows "map_option (\<lambda>(r, st). (r, GetAction st))
      (PolicyProcessor_Evaluate rtl (rule_buffer rule) (Some 0) kShortEval (Some ps) PolicyProcessor_init) =
    Some (if \<forall>c \<in> set cs. holds eqc ps c then (POLICY_MATCH, act) else (NO_POLICY_MATCH, EVAL_FALSE))"
proof -
  from build_rule_views [OF assms(1-4), of eqc] obtain conds where
    c: "rule_has rule (rule_views (conds, act))" "rule_for eqc act cs conds" by blast
  have p: "policy_at (rule_buffer rule) 0 [(conds, act)]" by (rule rule_has_policy [OF c(1)])
  have o: "\<forall>r \<in> set [(conds, act)]. conditions_only r" using c(2) by (simp add: rule_for_def)
  have h: "conditions_hold rtl (Some ps) conds MatchContext_Clear = Some (\<forall>c \<in> set cs. holds eqc ps c)"
    using c(2) assms(5,6) by (simp add: rule_for_def)
  have k: "kShortEval AND kShortEval \<noteq> (0::nat)" by simp
  show ?thesis using evaluate_first_match_list [OF p o assms(7) k, of rtl] h by simp
qed

end
