(* ===== verification/PolicyPacking.thy ===== *)
theory PolicyPacking
  imports PolicyDecision
begin

text \<open>
  Packing rules into the policy store (\<open>LowLevelPolicy\<close> in \<open>policy_low_level.cc\<close>): when the store is
  big enough, \<open>Done\<close> succeeds, and the policy of each service, evaluated by \<open>EvalPolicy\<close>
  (\<open>sandbox_policy_base.cc\<close>), decides as the first of its rules, in the order in which they were
  added, all of whose comparisons hold.
\<close>

section \<open>Copying one rule\<close>

text \<open>Everything outside of two ranges of addresses reads as before.\<close>

definition outside :: "nat \<Rightarrow> nat \<Rightarrow> nat \<Rightarrow> nat \<Rightarrow> memory \<Rightarrow> memory \<Rightarrow> bool" where
  "outside a b c d m m' \<longleftrightarrow> length m' = length m \<and>
     (\<forall>x n. x + 2 * n \<le> a \<or> b \<le> x \<and> x + 2 * n \<le> c \<or> d \<le> x \<longrightarrow> rd_units m' x n = rd_units m x n)"

lemma outside_rd:
  "outside a b c d m m' \<Longrightarrow> x + 2 * n \<le> a \<or> b \<le> x \<and> x + 2 * n \<le> c \<or> d \<le> x \<Longrightarrow> rd_units m' x n = rd_units m x n"
  unfolding outside_def by blast

lemma outside_kept: "outside a b c d m m' \<Longrightarrow> a \<le> b \<Longrightarrow> b \<le> c \<Longrightarrow> c \<le> d \<Longrightarrow> kept a d m m'"
  unfolding kept_def outside_def by simp

lemma outside_refl: "outside a b c d m m"
  by (simp add: outside_def)

lemma outside_trans:
  assumes "outside a b c d m m'" "outside b b' c' c m' m''" "b \<le> b'" "c' \<le> c" "a \<le> b" "c \<le> d"
  shows "outside a b' c' d m m''"
  unfolding outside_def
proof (intro conjI allI impI)
  show "length m'' = length m" using assms(1,2) by (simp add: outside_def)
  fix x n assume x: "x + 2 * n \<le> a \<or> b' \<le> x \<and> x + 2 * n \<le> c' \<or> d \<le> x"
  have "rd_units m'' x n = rd_units m' x n"
    by (rule outside_rd [OF assms(2)]) (use x assms(3-) in linarith)
  also have "\<dots> = rd_units m x n"
    by (rule outside_rd [OF assms(1)]) (use x assms(3-) in linarith)
  finally show "rd_units m'' x n = rd_units m x n" .
qed

lemma placed_outside:
  assumes "placed m x lo hi v" "outside a b c d m m'" "x + 24 \<le> a \<or> b \<le> x \<and> x + 24 \<le> c \<or> d \<le> x"
    and "hi \<le> a \<or> b \<le> lo \<and> hi \<le> c \<or> d \<le> lo"
  shows "placed m' x lo hi v"
proof -
  have "rd_units m' x 12 = rd_units m x 12" by (rule outside_rd [OF assms(2)]) (use assms(3) in simp)
  then have o: "read_opcode m' x = read_opcode m x" by (simp add: read_opcode_def)
  have "rd_units m' y n = rd_units m y n" if "lo \<le> y" "y + 2 * n \<le> hi" for y n
    by (rule outside_rd [OF assms(2)]) (use that assms(4) in linarith)
  then show ?thesis using assms(1) o unfolding placed_def by (auto split: if_splits)
qed

text \<open>The bytes of the strings of views.\<close>

definition string_bytes :: "view list \<Rightarrow> nat" where
  "string_bytes vs = sum_list (map (\<lambda>v. 2 * length (snd v)) vs)"

lemma string_bytes_simps [simp]:
  "string_bytes [] = 0" "string_bytes (v # vs) = 2 * length (snd v) + string_bytes vs"
  "string_bytes (vs @ ws) = string_bytes vs + string_bytes ws"
  by (simp_all add: string_bytes_def)

text \<open>One opcode is copied with its string.\<close>

lemma copy_opcode:
  assumes "read_opcode buffer src = Some op" "op_bounded op" "even x" "x + 24 \<le> 2 * length m"
  shows "\<exists>m'. wr_units m x (opcode_units op) = Some m' \<and> read_opcode m' x = Some op \<and> kept x (x + 24) m m'"
proof -
  have l: "length (opcode_units op) = 12" using assms(2) by (simp add: op_bounded_def)
  have "x div 2 + 12 \<le> length m" using assms(3,4) by auto
  then obtain m' where m': "wr_units m x (opcode_units op) = Some m'"
    using wr_units_Some [OF assms(3), of "opcode_units op" m] l by auto
  then show ?thesis using read_written_opcode [OF m' assms(2)] kept_write [OF m'] l by auto
qed

lemma value32_bound: "value32 us < 2 ^ 32"
proof (cases us rule: value32.cases)
  case (1 l h)
  have "unat l < 2 ^ 16" "unat h < 2 ^ 16" using unsigned_less [of l] unsigned_less [of h] by simp_all
  then show ?thesis using 1 by simp
qed simp_all

lemma read_opcode_bounded: "read_opcode m a = Some op \<Longrightarrow> op_bounded op"
  by (auto simp: read_opcode_def op_bounded_def units_opcode_def value32_bound [simplified])

text \<open>The step of \<open>RebindCopy\<close> for one opcode, with or without a string.\<close>

definition rebind_step :: "memory \<Rightarrow> nat \<Rightarrow> nat \<Rightarrow> nat \<Rightarrow> memory \<Rightarrow> memory option" where
  "rebind_step buffer src x d m = do {
     op \<leftarrow> read_opcode buffer src;
     m \<leftarrow> wr_units m x (opcode_units op);
     if string_op op then do {
       str \<leftarrow> GetRelativeString buffer src op 0 (arguments op ! 1);
       m \<leftarrow> wr_units m (d - 2 * length str) str;
       SetArgument m x 0 (sub32 (d - 2 * length str) x)
     }
     else Some m
   }"

lemma rebind_step_ok:
  assumes "stored_at buffer src v" "even x" "even d" "x + 24 + 2 * length (snd v) \<le> d" "d \<le> 2 * length m" "d < 2 ^ 32"
  shows "\<exists>m'. rebind_step buffer src x d m = Some m' \<and> placed m' x (d - 2 * length (snd v)) d v \<and>
    outside x (x + 24) (d - 2 * length (snd v)) d m m'"
proof -
  obtain op s where v: "v = (op, s)" by (cases v)
  from assms(1) obtain e where r: "read_opcode buffer src = Some (op\<lparr>arguments := (arguments op)[0 := e]\<rparr>)"
    and e: "if string_op op then rd_units buffer (add32 src e) (length s) = Some s else e = arguments op ! 0"
    and ok: "view_ok (op, s)"
    unfolding stored_at_def v fst_conv snd_conv by blast
  let ?op = "op\<lparr>arguments := (arguments op)[0 := e]\<rparr>" and ?b = "d - 2 * length s"
  have l4: "length (arguments op) = 4" using ok by (simp add: view_ok_def)
  have space: "x + 24 \<le> ?b" "x + 24 \<le> 2 * length m" "even ?b" using assms(3,4,5) by (simp_all add: v)
  from copy_opcode [OF r read_opcode_bounded [OF r] assms(2) space(2)] obtain m1 where
    m1: "wr_units m x (opcode_units ?op) = Some m1" "read_opcode m1 x = Some ?op" "kept x (x + 24) m m1" by blast
  show ?thesis
  proof (cases "string_op op")
    case False
    then have "s = []" "?op = op" using ok e by (simp_all add: view_ok_def)
    then have "placed m1 x ?b d (op, s)" using m1(2) ok False unfolding placed_def
      by (intro conjI exI [of _ "arguments op ! 0"]) simp_all
    moreover have "outside x (x + 24) ?b d m m1" unfolding outside_def
    proof (intro conjI allI impI)
      show "length m1 = length m" by (rule kept_length [OF m1(3)])
      fix y n assume "y + 2 * n \<le> x \<or> x + 24 \<le> y \<and> y + 2 * n \<le> ?b \<or> d \<le> y"
      then show "rd_units m1 y n = rd_units m y n" by (intro kept_rd [OF m1(3)]) (use space(1) in linarith)
    qed
    moreover have "rebind_step buffer src x d m = Some m1"
      using r m1(1) False by (simp add: rebind_step_def string_op_def)
    ultimately show ?thesis using v by auto
  next
    case True
    have s: "arguments op ! 1 = length s" using ok True by (simp add: view_ok_def)
    have str: "GetRelativeString buffer src ?op 0 (arguments ?op ! 1) = Some s"
      using e True l4 s by (simp add: GetRelativeString_def) 
    have "?b + 2 * length s = d" using assms(4) by (simp add: v)
    then have "?b div 2 + length s \<le> length m1" using space(3) assms(5) kept_length [OF m1(3)] by auto
    then obtain m2 where m2: "wr_units m1 ?b s = Some m2" using wr_units_Some [OF space(3)] by blast
    have k2: "kept ?b d m1 m2" using kept_write [OF m2] \<open>?b + 2 * length s = d\<close> by simp
    have r2: "read_opcode m2 x = Some ?op" using kept_opcode [OF k2, of x] space(1) m1(2) by simp
    have b32: "sub32 ?b x = ?b - x" "?b - x < 2 ^ 32" using space(1) assms(6) by (auto intro!: sub32_small)
    from SetArgument_read [OF r2 zero_less_numeral b32(2)] obtain m3 where m3: "SetArgument m2 x 0 (?b - x) = Some m3"
      "read_opcode m3 x = Some (?op\<lparr>arguments := (arguments ?op)[0 := ?b - x]\<rparr>)" "kept (x + 8 + 4 * 0) (x + 8 + 4 * 0 + 4) m2 m3"
      by blast
    have "rebind_step buffer src x d m = Some m3"
      using r m1(1) True str m2 m3(1) b32(1) by (simp add: rebind_step_def string_op_def)
    moreover have "placed m3 x ?b d (op, s)"
    proof -
      have "rd_units m3 ?b (length s) = Some s"
        using kept_rd [OF m3(3), of ?b "length s"] space(1) rd_wr_same [OF m2] by simp
      moreover have "add32 x (?b - x) = ?b" using space(1) assms(6) by (subst add32_small) auto
      ultimately show ?thesis using m3(2) True ok \<open>?b + 2 * length s = d\<close> unfolding placed_def
        by (intro conjI exI [of _ "?b - x"]) simp_all
    qed
    moreover have "outside x (x + 24) ?b d m m3"
      unfolding outside_def
    proof (intro conjI allI impI)
      show "length m3 = length m" using kept_length m1(3) k2 m3(3) by metis
      fix y n assume y: "y + 2 * n \<le> x \<or> x + 24 \<le> y \<and> y + 2 * n \<le> ?b \<or> d \<le> y"
      have "rd_units m3 y n = rd_units m2 y n" by (rule kept_rd [OF m3(3)]) (use y space(1) in linarith)
      also have "\<dots> = rd_units m1 y n" by (rule kept_rd [OF k2]) (use y space(1) in linarith)
      also have "\<dots> = rd_units m y n" by (rule kept_rd [OF m1(3)]) (use y space(1) in linarith)
      finally show "rd_units m3 y n = rd_units m y n" .
    qed
    ultimately show ?thesis using v by auto
  qed
qed

lemma rebind_loop_step:
  assumes "stored_at buffer (opcode_address 0 ix) v" "even x" "even d" "x + 24 + 2 * length (snd v) \<le> d"
    "d \<le> 2 * length m" "d < 2 ^ 32" "24 \<le> opcode_size" "2 * length (snd v) \<le> data_size"
    and "rebind_step buffer (opcode_address 0 ix) x d m = Some m'"
  shows "rebind_loop buffer (Suc n) ix x opcode_size d data_size m =
    rebind_loop buffer n (Suc ix) (x + 24) (opcode_size - 24) (d - 2 * length (snd v)) (data_size - 2 * length (snd v)) m'"
proof -
  obtain op s where v: "v = (op, s)" by (cases v)
  from assms(1) obtain e where r: "read_opcode buffer (opcode_address 0 ix) = Some (op\<lparr>arguments := (arguments op)[0 := e]\<rparr>)"
    and ok: "view_ok (op, s)"
    unfolding stored_at_def v fst_conv by blast
  let ?op = "op\<lparr>arguments := (arguments op)[0 := e]\<rparr>"
  show ?thesis
  proof (cases "string_op op")
    case False
    then have "s = []" using ok by (simp add: view_ok_def)
    then show ?thesis using assms(7,9) r False
      by (auto simp: rebind_step_def v string_op_def OpcodeID_code_def dest!: bind_SomeD)
  next
    case True
    then have l: "arguments op ! 1 = length s" "length s < 2 ^ 15" "length (arguments op) = 4" using ok by (simp_all add: view_ok_def)
    from assms(9) r True obtain m1 str m2 where m: "wr_units m x (opcode_units ?op) = Some m1"
      "GetRelativeString buffer (opcode_address 0 ix) ?op 0 (arguments ?op ! 1) = Some str"
      "wr_units m1 (d - 2 * length str) str = Some m2" "SetArgument m2 x 0 (sub32 (d - 2 * length str) x) = Some m'"
      by (auto simp: rebind_step_def string_op_def dest!: bind_SomeD)
    have a: "arguments ?op ! 1 = length s" using l by simp
    have "length str = length s" using m(2) a by (simp add: GetRelativeString_def rd_units_length)
    moreover have "\<not> data_size < length s * 2" "length s * 2 \<le> d" using assms(4,8) v by simp_all
    moreover have "length s * 2 mod 2 ^ 32 = length s * 2" using l(2) by simp
    moreover have "length s * 2 div 2 = length s" by simp
    ultimately show ?thesis using assms(7) r True m a
      by (simp add: v string_op_def OpcodeID_code_def Let_def mult.commute)
  qed
qed

lemma rebind_loop_ok:
  assumes "\<forall>i < length vs. stored_at buffer (opcode_address 0 (ix + i)) (vs ! i)" "even x" "even d"
    "x + 24 * length vs + string_bytes vs \<le> d" "d \<le> 2 * length m" "d < 2 ^ 32" "24 * length vs \<le> opcode_size"
    "string_bytes vs \<le> data_size"
  shows "\<exists>m'. rebind_loop buffer (length vs) ix x opcode_size d data_size m = Some (True, m', data_size - string_bytes vs) \<and>
    (\<forall>i < length vs. placed m' (x + 24 * i) (d - string_bytes vs) d (vs ! i)) \<and>
    outside x (x + 24 * length vs) (d - string_bytes vs) d m m'"
  using assms
proof (induction vs arbitrary: ix x d opcode_size data_size m)
  case Nil
  then show ?case by (simp add: outside_refl)
next
  case (Cons v vs)
  let ?k = "2 * length (snd v)"
  have v: "stored_at buffer (opcode_address 0 ix) v" using Cons.prems(1) by fastforce
  have sp: "x + 24 + ?k \<le> d" using Cons.prems(4) by simp
  from rebind_step_ok [OF v Cons.prems(2,3) sp Cons.prems(5,6)] obtain m1 where m1:
    "rebind_step buffer (opcode_address 0 ix) x d m = Some m1" "placed m1 x (d - ?k) d v"
    "outside x (x + 24) (d - ?k) d m m1" by blast
  have len1: "length m1 = length m" using m1(3) by (simp add: outside_def)
  have step: "rebind_loop buffer (Suc (length vs)) ix x opcode_size d data_size m =
    rebind_loop buffer (length vs) (Suc ix) (x + 24) (opcode_size - 24) (d - ?k) (data_size - ?k) m1"
    by (rule rebind_loop_step [OF v Cons.prems(2,3) sp Cons.prems(5,6) _ _ m1(1)]) (use Cons.prems in simp_all)
  have "\<forall>i < length vs. stored_at buffer (opcode_address 0 (Suc ix + i)) (vs ! i)"
    using Cons.prems(1) by (metis add_Suc_shift length_Cons not_less_eq nth_Cons_Suc)
  moreover have "even (x + 24)" "even (d - ?k)" "x + 24 + 24 * length vs + string_bytes vs \<le> d - ?k"
    "d - ?k \<le> 2 * length m1" "d - ?k < 2 ^ 32" "24 * length vs \<le> opcode_size - 24" "string_bytes vs \<le> data_size - ?k"
    using Cons.prems len1 by simp_all
  ultimately obtain m2 where m2:
    "rebind_loop buffer (length vs) (Suc ix) (x + 24) (opcode_size - 24) (d - ?k) (data_size - ?k) m1 =
       Some (True, m2, data_size - ?k - string_bytes vs)"
    "\<forall>i < length vs. placed m2 (x + 24 + 24 * i) (d - ?k - string_bytes vs) (d - ?k) (vs ! i)"
    "outside (x + 24) (x + 24 + 24 * length vs) (d - ?k - string_bytes vs) (d - ?k) m1 m2"
    using Cons.IH [of "Suc ix" "x + 24" "d - ?k" m1 "opcode_size - 24" "data_size - ?k"] by blast
  let ?lo = "d - string_bytes (v # vs)"
  have lo: "d - ?k - string_bytes vs = ?lo" by simp
  have "placed m2 x (d - ?k) d v"
    by (rule placed_outside [OF m1(2) m2(3)]) (use sp in simp_all)
  then have first: "placed m2 x ?lo d v" by (rule placed_mono) simp_all
  have rest: "placed m2 (x + 24 + 24 * i) ?lo d (vs ! i)" if "i < length vs" for i
    by (rule placed_mono [OF m2(2) [unfolded lo, rule_format, OF that]]) simp_all
  have all: "\<forall>i < length (v # vs). placed m2 (x + 24 * i) ?lo d ((v # vs) ! i)"
  proof (intro allI impI)
    fix i assume i: "i < length (v # vs)"
    show "placed m2 (x + 24 * i) ?lo d ((v # vs) ! i)"
    proof (cases i)
      case (Suc j)
      then have "placed m2 (x + 24 + 24 * j) ?lo d (vs ! j)" using rest i by simp
      then show ?thesis using Suc by (simp add: algebra_simps)
    qed (use first in simp)
  qed
  have out: "outside x (x + 24 * length (v # vs)) ?lo d m m2"
    unfolding outside_def
  proof (intro conjI allI impI)
    show "length m2 = length m" using m2(3) len1 by (simp add: outside_def)
    fix y n assume y: "y + 2 * n \<le> x \<or> x + 24 * length (v # vs) \<le> y \<and> y + 2 * n \<le> ?lo \<or> d \<le> y"
    have "rd_units m2 y n = rd_units m1 y n"
      by (rule outside_rd [OF m2(3)]) (use y Cons.prems(4) in auto)
    also have "\<dots> = rd_units m y n"
      by (rule outside_rd [OF m1(3)]) (use y Cons.prems(4) in auto)
    finally show "rd_units m2 y n = rd_units m y n" .
  qed
  show ?case unfolding length_Cons step using m2(1) all out by auto
qed


lemma outside_mono:
  assumes "outside a b c d m m'" "a' \<le> a" "b \<le> b'" "c' \<le> c" "d \<le> d'"
  shows "outside a' b' c' d' m m'"
  unfolding outside_def
proof (intro conjI allI impI)
  show "length m' = length m" using assms(1) by (simp add: outside_def)
  fix x n assume "x + 2 * n \<le> a' \<or> b' \<le> x \<and> x + 2 * n \<le> c' \<or> d' \<le> x"
  then show "rd_units m' x n = rd_units m x n"
    by (intro outside_rd [OF assms(1)]) (use assms(2-) in linarith)
qed

lemma RebindCopy_ok:
  assumes "rule_has rule vs" "even x" "even d" "x + 24 * length vs + string_bytes vs \<le> d" "d \<le> 2 * length m"
    "d < 2 ^ 32" "24 * length vs \<le> opcode_size" "string_bytes vs \<le> data_size"
  shows "\<exists>m'. RebindCopy rule x opcode_size d data_size m = Some (True, m', data_size - string_bytes vs) \<and>
    (\<forall>i < length vs. placed m' (x + 24 * i) (d - string_bytes vs) d (vs ! i)) \<and>
    outside x (x + 24 * length vs) (d - string_bytes vs) d m m'"
proof -
  have "\<forall>i < length vs. stored_at (rule_buffer rule) (opcode_address 0 (0 + i)) (vs ! i)"
    using assms(1) by (simp add: rule_has_def)
  from rebind_loop_ok [OF this assms(2-8)] show ?thesis
    using assms(1) by (simp add: RebindCopy_def GetOpcodeCount_def rule_has_def)
qed

section \<open>Copying the rules of a service\<close>

text \<open>The bytes that the opcodes and strings take off the end of the store: the opcodes are counted
  there as well, although they are written at its beginning.\<close>

definition taken :: "view list \<Rightarrow> nat" where
  "taken vs = 24 * length vs + string_bytes vs"

lemma taken_simps [simp]:
  "taken [] = 0" "taken (v # vs) = 24 + 2 * length (snd v) + taken vs" "taken (vs @ ws) = taken vs + taken ws"
  by (simp_all add: taken_def)

lemma opcode_address_add: "opcode_address base (i + j) = opcode_address base i + 24 * j"
  by (simp add: opcode_address_def)

lemma even_string_bytes: "even (string_bytes vs)"
  by (induction vs) simp_all

lemma even_taken: "even (taken vs)"
  by (simp add: taken_def even_string_bytes)

definition views_at :: "memory \<Rightarrow> nat \<Rightarrow> nat \<Rightarrow> nat \<Rightarrow> nat \<Rightarrow> view list \<Rightarrow> bool" where
  "views_at m base ix lo hi vs \<longleftrightarrow> (\<forall>i < length vs. placed m (opcode_address base (ix + i)) lo hi (vs ! i))"

lemma views_at_append:
  assumes "views_at m base ix lo hi vs" "views_at m base (ix + length vs) lo hi ws"
  shows "views_at m base ix lo hi (vs @ ws)"
  unfolding views_at_def
proof (intro allI impI)
  fix i assume i: "i < length (vs @ ws)"
  show "placed m (opcode_address base (ix + i)) lo hi ((vs @ ws) ! i)"
  proof (cases "i < length vs")
    case True
    then show ?thesis using assms(1) by (simp add: views_at_def nth_append)
  next
    case False
    then obtain j where j: "i = length vs + j" by (metis le_iff_add not_less)
    then have "placed m (opcode_address base (ix + length vs + j)) lo hi (ws ! j)"
      using assms(2) i by (simp add: views_at_def)
    then show ?thesis using j by (simp add: add.assoc)
  qed
qed

lemma views_at_mono: "views_at m base ix lo hi vs \<Longrightarrow> lo' \<le> lo \<Longrightarrow> hi \<le> hi' \<Longrightarrow> views_at m base ix lo' hi' vs"
  unfolding views_at_def by (blast intro: placed_mono)

lemma place_rules_ok:
  assumes "list_all2 rule_has rules vss" "even base" "even A"
    "opcode_address base cnt + 24 * length (concat vss) + taken (concat vss) \<le> A" "A \<le> 2 * length m" "A < 2 ^ 32"
  shows "\<exists>m'. let vs = concat vss; A' = A - taken vs in
    place_rules rules base A A cnt m = Some (True, m', A', A', cnt + length vs) \<and>
    views_at m' base cnt A' A vs \<and> outside (opcode_address base cnt) (opcode_address base (cnt + length vs)) A' A m m'"
  using assms
proof (induction rules vss arbitrary: A cnt m rule: list_all2_induct)
  case Nil
  then show ?case by (simp add: views_at_def outside_refl Let_def)
next
  case (Cons rule rules vs vss)
  let ?n = "length vs" and ?x = "opcode_address base cnt" and ?ws = "concat vss"
  have ev: "even ?x" using Cons.prems(1) by (simp add: opcode_address_def)
  have room: "?x + 48 * ?n + string_bytes vs + 24 * length ?ws + taken ?ws \<le> A"
    using Cons.prems(3) by (simp add: taken_def algebra_simps)
  have x4: "4 \<le> ?x" "24 * cnt \<le> ?x" by (simp_all add: opcode_address_def)
  have small: "24 * ?n mod 2 ^ 32 = 24 * ?n" "cnt + ?n < 2 ^ 32" using room Cons.prems(5) x4 by simp_all
  have sb: "string_bytes vs \<le> A - 24 * ?n" using room by simp
  from RebindCopy_ok [OF Cons.hyps(1) ev Cons.prems(2) _ Cons.prems(4,5) order_refl sb] room obtain m1 where
    m1: "RebindCopy rule ?x (24 * ?n) A (A - 24 * ?n) m = Some (True, m1, A - 24 * ?n - string_bytes vs)"
    "\<forall>i < ?n. placed m1 (?x + 24 * i) (A - string_bytes vs) A (vs ! i)"
    "outside ?x (?x + 24 * ?n) (A - string_bytes vs) A m m1" by auto
  let ?A = "A - taken vs"
  have len1: "length m1 = length m" using m1(3) by (simp add: outside_def)
  have used: "A - (A - 24 * ?n - string_bytes vs) = taken vs" "taken vs \<le> A"
    using room by (simp_all add: taken_def)
  have step: "place_rules (rule # rules) base A A cnt m = place_rules rules base ?A ?A (cnt + ?n) m1"
    using Cons.hyps(1) m1(1) small used room Cons.prems(5)
    by (simp add: rule_has_def GetOpcodeCount_def Let_def mult.commute)
  have p: "even ?A" "opcode_address base (cnt + ?n) + 24 * length ?ws + taken ?ws \<le> ?A" "?A \<le> 2 * length m1" "?A < 2 ^ 32"
    using Cons.prems(2,4,5) room len1 used(2) even_taken by (simp_all add: opcode_address_add taken_def)
  from Cons.IH [OF Cons.prems(1) p] obtain m2 where m2:
    "place_rules rules base ?A ?A (cnt + ?n) m1 = Some (True, m2, ?A - taken ?ws, ?A - taken ?ws, cnt + ?n + length ?ws)"
    "views_at m2 base (cnt + ?n) (?A - taken ?ws) ?A ?ws"
    "outside (opcode_address base (cnt + ?n)) (opcode_address base (cnt + ?n + length ?ws)) (?A - taken ?ws) ?A m1 m2"
    unfolding Let_def by blast
  let ?B = "?A - taken ?ws"
  have B: "?B = A - taken (concat (vs # vss))" by simp
  have le: "?A \<le> A - string_bytes vs" "?B \<le> A - string_bytes vs" by (simp_all add: taken_def)
  have first: "views_at m2 base cnt ?B A vs"
    unfolding views_at_def
  proof (intro allI impI)
    fix i assume i: "i < ?n"
    have "placed m2 (?x + 24 * i) (A - string_bytes vs) A (vs ! i)"
      by (rule placed_outside [OF m1(2) [rule_format, OF i] m2(3)]) (use i le in \<open>auto simp: opcode_address_add\<close>)
    then show "placed m2 (opcode_address base (cnt + i)) ?B A (vs ! i)"
      unfolding opcode_address_add by (rule placed_mono) (use le in simp_all)
  qed
  have rest: "views_at m2 base (cnt + ?n) ?B A ?ws" by (rule views_at_mono [OF m2(2)]) simp_all
  have o2: "outside (?x + 24 * ?n) (opcode_address base (cnt + ?n + length ?ws)) ?B (A - string_bytes vs) m1 m2"
    by (rule outside_mono [OF m2(3)]) (use le in \<open>simp_all add: opcode_address_add\<close>)
  have "outside ?x (opcode_address base (cnt + ?n + length ?ws)) ?B A m m2"
    by (rule outside_trans [OF m1(3) o2]) (use le in \<open>simp_all add: opcode_address_add\<close>)
  then show ?case using step m2(1) views_at_append [OF first rest] by (simp add: Let_def B add.assoc)
qed


section \<open>Copying the rules of all services\<close>

text \<open>A buffer of opcodes with its header, its strings within a range of addresses.\<close>

definition buffer_at :: "memory \<Rightarrow> nat \<Rightarrow> nat \<Rightarrow> nat \<Rightarrow> view list \<Rightarrow> bool" where
  "buffer_at m base lo hi vs \<longleftrightarrow> rd32 m base = Some (length vs) \<and> views_at m base 0 lo hi vs"

lemma buffer_at_kept:
  assumes "buffer_at m base lo hi vs" "kept x y m m'" "base + 4 + 24 * length vs \<le> x" "y \<le> lo"
  shows "buffer_at m' base lo hi vs"
proof -
  have "placed m' (opcode_address base (0 + i)) lo hi (vs ! i)" if i: "i < length vs" for i
    by (rule placed_kept [OF _ assms(2)])
      (use assms(1,3,4) i in \<open>auto simp: buffer_at_def views_at_def opcode_address_def\<close>)
  moreover have "rd32 m' base = rd32 m base" by (rule kept_rd32 [OF assms(2)]) (use assms(3) in simp)
  ultimately show ?thesis using assms(1) by (simp add: buffer_at_def views_at_def)
qed

text \<open>The free part of the store still holds zeros.\<close>

definition blank :: "nat \<Rightarrow> nat \<Rightarrow> memory \<Rightarrow> bool" where
  "blank lo hi m \<longleftrightarrow> (\<forall>a. even a \<longrightarrow> lo \<le> a \<longrightarrow> a + 4 \<le> hi \<longrightarrow> rd32 m a = Some 0)"

text \<open>What the buffer of one service needs.\<close>

definition service_need :: "view list \<Rightarrow> nat" where
  "service_need vs = 28 + 24 * length vs + taken vs"

lemma next_buffer:
  fixes n :: nat
  assumes "n * 24 < 2 ^ 32"
  shows "base + 4 + 24 * n \<le> base + 28 * (n * 24 mod 2 ^ 32 div 28 + 1) \<and>
     base + 28 * (n * 24 mod 2 ^ 32 div 28 + 1) \<le> base + 28 + 24 * n"
proof -
  have e: "n * 24 mod 2 ^ 32 = 24 * n" using assms by simp
  have "24 * n mod 28 = 4 * (6 * n mod 7)" using mult_mod_right [of 4 "6 * n" 7] by simp
  moreover have "6 * n mod 7 < 7" by simp
  ultimately have r: "24 * n mod 28 \<le> 24" by linarith
  define q r where "q = 24 * n div 28" and "r = 24 * n mod 28"
  have "24 * n = 28 * q + r" unfolding q_def r_def by (rule mult_div_mod_eq [symmetric])
  then show ?thesis using r unfolding e q_def [symmetric] r_def [symmetric] by simp
qed

lemma place_service_ok:
  assumes "list_all2 rule_has rules vss" "even base" "even A" "base + service_need (concat vss) \<le> A"
    "A \<le> 2 * length m" "A < 2 ^ 32" "blank base A m" "service < 32" "m = pg_data p"
  shows "\<exists>m'. let vs = concat vss; A' = A - taken vs; base' = base + 28 * (length vs * 24 mod 2 ^ 32 div 28 + 1) in
    place_services ((service, rules) # rest) base A A p =
      place_services rest base' A' A' (p\<lparr>pg_entry := (pg_entry p)(service \<mapsto> base), pg_data := m'\<rparr>) \<and>
    buffer_at m' base A' A vs \<and> kept base A m m' \<and> blank base' A' m'"
proof -
  let ?vs = "concat vss" and ?A = "A - taken (concat vss)"
  let ?n = "length ?vs" and ?base = "base + 28 * (length (concat vss) * 24 mod 2 ^ 32 div 28 + 1)"
  have need: "base + 28 + 48 * ?n + string_bytes ?vs \<le> A" using assms(4) by (simp add: service_need_def taken_def)
  have p: "opcode_address base 0 + 24 * ?n + taken ?vs \<le> A" using need by (simp add: opcode_address_def taken_def)
  from place_rules_ok [OF assms(1-3) p assms(5,6)] obtain m1 where m1:
    "place_rules rules base A A 0 m = Some (True, m1, ?A, ?A, ?n)"
    "views_at m1 base 0 ?A A ?vs" "outside (opcode_address base 0) (opcode_address base ?n) ?A A m m1"
    unfolding Let_def add_0 by blast
  have nb: "base + 4 + 24 * ?n \<le> ?base" "?base \<le> base + 28 + 24 * ?n"
    using next_buffer [of ?n base] need assms(6) by simp_all
  have A: "?base \<le> ?A" "?A \<le> A" "opcode_address base ?n \<le> ?base"
    using need nb by (simp_all add: taken_def opcode_address_def)
  have "rd32 m1 base = rd32 m base"
    unfolding rd32_def using outside_rd [OF m1(3), of base 2] by (simp add: opcode_address_def)
  also have "\<dots> = Some 0" using assms(2,7) need by (simp add: blank_def)
  finally have old: "rd32 m1 base = Some 0" .
  have n: "?n < 2 ^ 32" "add32 0 ?n = ?n" using need assms(6) by simp_all
  have "base div 2 + 2 \<le> length m1" using need assms(2,5) m1(3) by (auto simp: outside_def)
  then obtain m2 where m2: "wr32 m1 base ?n = Some m2"
    using wr_units_Some [OF assms(2), of "words32 ?n" m1] by (auto simp: wr32_def)
  have k2: "kept base (base + 4) m1 m2" using m2 kept_write [of m1 base "words32 ?n" m2] by (simp add: wr32_def)
  have "buffer_at m2 base ?A A ?vs"
    unfolding buffer_at_def views_at_def
  proof (intro conjI allI impI)
    show "rd32 m2 base = Some ?n" by (rule rd32_wr32_same [OF m2 n(1)])
    fix i assume "i < ?n"
    then show "placed m2 (opcode_address base (0 + i)) ?A A (?vs ! i)"
      by (intro placed_kept [OF m1(2) [unfolded views_at_def, rule_format] k2])
        (use A(1) nb(1) in \<open>simp_all add: opcode_address_def\<close>)
  qed
  moreover have "kept base A m m2"
  proof -
    have "kept base A m m1"
      by (rule kept_mono [OF outside_kept [OF m1(3)]]) (use A in \<open>simp_all add: opcode_address_def\<close>)
    then show ?thesis by (rule kept_trans) (rule kept_mono [OF k2], use need in simp_all)
  qed
  moreover have "blank ?base ?A m2"
    unfolding blank_def
  proof (intro allI impI)
    fix a assume a: "even a" "?base \<le> a" "a + 4 \<le> ?A"
    have "rd32 m2 a = rd32 m1 a" by (rule kept_rd32 [OF k2]) (use a(2) nb(1) in simp)
    also have "\<dots> = rd32 m a"
      unfolding rd32_def using outside_rd [OF m1(3), of a 2] a A(3) by simp
    also have "\<dots> = Some 0" using assms(7) a A nb(1) by (simp add: blank_def)
    finally show "rd32 m2 a = Some 0" .
  qed
  moreover have "place_services ((service, rules) # rest) base A A p =
      place_services rest ?base ?A ?A (p\<lparr>pg_entry := (pg_entry p)(service \<mapsto> base), pg_data := m2\<rparr>)"
    using assms(8,9) m1(1) old m2 n(2) by (simp add: Let_def)
  ultimately show ?thesis unfolding Let_def by blast
qed

lemma place_services_ok:
  assumes "list_all2 (\<lambda>(s, rules) (s', vss). s = s' \<and> list_all2 rule_has rules vss) entries svcs"
    "distinct (map fst entries)" "\<forall>s \<in> set (map fst entries). s < 32"
    "even base" "even A" "base + sum_list (map (\<lambda>(s, vss). service_need (concat vss)) svcs) \<le> A"
    "A \<le> 2 * length (pg_data p)" "A < 2 ^ 32" "blank base A (pg_data p)"
  shows "\<exists>p'. place_services entries base A A p = Some (True, p') \<and> kept base A (pg_data p) (pg_data p') \<and>
    (\<forall>s. s \<notin> set (map fst entries) \<longrightarrow> pg_entry p' s = pg_entry p s) \<and>
    (\<forall>(s, vss) \<in> set svcs. \<exists>b lo hi. pg_entry p' s = Some b \<and> buffer_at (pg_data p') b lo hi (concat vss))"
  using assms
proof (induction entries svcs arbitrary: base A p rule: list_all2_induct)
  case Nil
  then show ?case by simp
next
  case (Cons entry entries svc svcs)
  obtain s rules vss where e: "entry = (s, rules)" "svc = (s, vss)" and r: "list_all2 rule_has rules vss"
    using Cons.hyps(1) by (cases entry; cases svc) auto
  let ?vs = "concat vss" and ?A = "A - taken (concat vss)"
  let ?base = "base + 28 * (length (concat vss) * 24 mod 2 ^ 32 div 28 + 1)"
  have sum: "base + service_need ?vs + sum_list (map (\<lambda>(s, vss). service_need (concat vss)) svcs) \<le> A"
    using Cons.prems(5) by (simp add: e)
  then have need: "base + service_need ?vs \<le> A" by simp
  have "s < 32" using Cons.prems(2) by (simp add: e)
  from place_service_ok [OF r Cons.prems(3,4) need Cons.prems(6-8) this refl, of entries] obtain m1 where m1:
    "place_services ((s, rules) # entries) base A A p =
      place_services entries ?base ?A ?A (p\<lparr>pg_entry := (pg_entry p)(s \<mapsto> base), pg_data := m1\<rparr>)"
    "buffer_at m1 base ?A A ?vs" "kept base A (pg_data p) m1" "blank ?base ?A m1"
    unfolding Let_def by blast
  let ?p = "p\<lparr>pg_entry := (pg_entry p)(s \<mapsto> base), pg_data := m1\<rparr>"
  have small: "length ?vs * 24 < 2 ^ 32" using need Cons.prems(7) by (simp add: service_need_def)
  note nb = next_buffer [OF small, of base]
  have pr: "distinct (map fst entries)" "\<forall>s \<in> set (map fst entries). s < 32" "even ?base" "even ?A"
    "?base + sum_list (map (\<lambda>(s, vss). service_need (concat vss)) svcs) \<le> ?A"
    "?A \<le> 2 * length (pg_data ?p)" "?A < 2 ^ 32" "blank ?base ?A (pg_data ?p)"
    using Cons.prems(1-4,6,7) m1(4) kept_length [OF m1(3)] even_taken sum nb need
    by (simp_all add: service_need_def)
  from Cons.IH [OF pr] obtain p' where p':
    "place_services entries ?base ?A ?A ?p = Some (True, p')" "kept ?base ?A m1 (pg_data p')"
    "\<forall>x. x \<notin> set (map fst entries) \<longrightarrow> pg_entry p' x = pg_entry ?p x"
    "\<forall>(s, vss) \<in> set svcs. \<exists>b lo hi. pg_entry p' s = Some b \<and> buffer_at (pg_data p') b lo hi (concat vss)"
    by auto
  have own: "pg_entry p' s = Some base" using p'(3) Cons.prems(1) by (simp add: e)
  have buf: "buffer_at (pg_data p') base ?A A ?vs"
    by (rule buffer_at_kept [OF m1(2) p'(2)]) (use nb in simp_all)
  have all: "\<forall>(s, vss) \<in> set (svc # svcs). \<exists>b lo hi. pg_entry p' s = Some b \<and> buffer_at (pg_data p') b lo hi (concat vss)"
    using own buf p'(4) by (auto simp: e)
  have "kept base A (pg_data p) (pg_data p')"
    by (rule kept_trans [OF m1(3)]) (rule kept_mono [OF p'(2)], use nb in simp_all)
  then show ?case using m1(1) p'(1,3) all by (intro exI [of _ p']) (simp add: e)
qed

end
