(* ===== verification/PolicyStore.thy ===== *)
theory PolicyStore
  imports PolicyPacking
begin

text \<open>
  The policy as its users see it: rules for services are added to a \<open>LowLevelPolicy\<close>
  (\<open>policy_low_level.cc\<close>) one after the other, \<open>Done\<close> packs them into an empty store, and
  \<open>EvalPolicy\<close> (\<open>sandbox_policy_base.cc\<close>) decides about the calls of a service. The abstract policy is
  the list of the rules as they were added.
\<close>

section \<open>The abstract policy\<close>

text \<open>A rule as it is added: its service, its action, the memory its buffer starts with and its
  comparisons.\<close>

type_synonym rule_spec = "int32 \<times> EvalResult \<times> memory \<times> comparison list"

definition spec_service :: "rule_spec \<Rightarrow> uint32" where
  "spec_service r = (case r of (s, act, garbage, cs) \<Rightarrow> to_uint32 s)"

definition spec_action :: "rule_spec \<Rightarrow> EvalResult" where
  "spec_action r = (case r of (s, act, garbage, cs) \<Rightarrow> act)"

definition spec_comparisons :: "rule_spec \<Rightarrow> comparison list" where
  "spec_comparisons r = (case r of (s, act, garbage, cs) \<Rightarrow> cs)"

primrec add_rules :: "rule_spec list \<Rightarrow> low_level_policy \<Rightarrow> (bool \<times> low_level_policy) option" where
  "add_rules [] p = Some (True, p)"
| "add_rules (r # rs) p = (case r of (s, act, garbage, cs) \<Rightarrow> do {
     rule \<leftarrow> PolicyRule_init act garbage;
     (ok, rule) \<leftarrow> add_comparisons cs rule;
     if \<not> ok then Some (False, p)
     else do {
       (ok, rule, p) \<leftarrow> AddRule s rule p;
       if ok then add_rules rs p else Some (False, p)
     }
   })"

text \<open>The decision of the abstract policy: the action of the first rule of the service all of whose
  comparisons hold.\<close>

definition decision ::
  "(bool \<Rightarrow> wchar \<Rightarrow> wchar \<Rightarrow> bool) \<Rightarrow> uint32 \<Rightarrow> ParameterSet list \<Rightarrow> rule_spec list \<Rightarrow> EvalResult" where
  "decision eqc service ps rs =
     (case find (\<lambda>r. spec_service r = service \<and> (\<forall>c \<in> set (spec_comparisons r). holds eqc ps c)) rs of
        None \<Rightarrow> DENY_ACCESS | Some r \<Rightarrow> spec_action r)"

definition spec_ok :: "rule_spec \<Rightarrow> bool" where
  "spec_ok r \<longleftrightarrow> is_action (spec_action r) \<and> (\<forall>c \<in> set (spec_comparisons r). proper c) \<and>
     conjunctive (spec_comparisons r) \<and> spec_service r < kMaxServiceCount"

text \<open>The parameters of a call fit the rules of its service.\<close>

definition callable :: "uint32 \<Rightarrow> ParameterSet list \<Rightarrow> rule_spec list \<Rightarrow> bool" where
  "callable service ps rs \<longleftrightarrow> ps \<noteq> [] \<and> (\<forall>q \<in> set ps. IsValid q) \<and>
     (\<forall>r \<in> set rs. spec_service r = service \<longrightarrow> (\<forall>c \<in> set (spec_comparisons r). usable ps c))"

definition empty_store :: "nat \<Rightarrow> policy_global" where
  "empty_store units = \<lparr>pg_entry = Map.empty, pg_data_size = 2 * units, pg_data = replicate units 0\<rparr>"

text \<open>The bytes that a list of rules needs in the store: a header for each service, and for each rule
  twice its opcodes and the characters of its strings.\<close>

definition services :: "rule_spec list \<Rightarrow> uint32 list" where
  "services rs = sort (remdups (map spec_service rs))"

definition rule_need :: "rule_spec \<Rightarrow> nat" where
  "rule_need r = (case all_views (spec_comparisons r) of None \<Rightarrow> 0
     | Some vs \<Rightarrow> 48 * (length vs + 1) + string_bytes vs)"

definition store_need :: "rule_spec list \<Rightarrow> nat" where
  "store_need rs = 28 * length (services rs) + sum_list (map rule_need rs)"

section \<open>Adding rules\<close>

text \<open>A rule in the policy stands for a rule as it was added.\<close>

definition stands_for :: "policy_rule \<times> int32 \<Rightarrow> rule_spec \<Rightarrow> bool" where
  "stands_for node r \<longleftrightarrow> to_uint32 (snd node) = spec_service r \<and>
     (\<exists>conds. all_views (spec_comparisons r) = Some conds \<and>
       rule_has (fst node) (rule_views (conds, spec_action r)) \<and>
       (\<forall>eqc. rule_for eqc (spec_action r) (spec_comparisons r) conds))"

lemma AddRule_build:
  assumes "PolicyRule_init act garbage = Some r0" "add_comparisons cs r0 = Some (True, r1)"
  shows "AddRule s r1 p = Option.bind (build_rule act garbage cs) (\<lambda>(ok, rule).
    if \<not> ok then Some (False, rule, p)
    else map_option (\<lambda>local_rule. (True, rule, p\<lparr>llp_rules := llp_rules p @ [(local_rule, s)]\<rparr>)) (PolicyRule_copy rule))"
proof -
  have b: "build_rule act garbage cs = PolicyRule_Done r1" using assms by (simp add: build_rule_def)
  show ?thesis unfolding AddRule_def b
    by (cases "PolicyRule_Done r1") (auto simp: map_conv_bind_option comp_def split: option.split)
qed

lemma add_rules_Cons:
  assumes "add_rules ((s, act, garbage, cs) # rs) p = Some (True, p')"
  shows "\<exists>rule copy. build_rule act garbage cs = Some (True, rule) \<and> PolicyRule_copy rule = Some copy \<and>
    add_rules rs (p\<lparr>llp_rules := llp_rules p @ [(copy, s)]\<rparr>) = Some (True, p')"
proof -
  from assms obtain r0 r1 where r: "PolicyRule_init act garbage = Some r0" "add_comparisons cs r0 = Some (True, r1)"
    and a: "Option.bind (AddRule s r1 p) (\<lambda>(ok, rule, p). if ok then add_rules rs p else Some (False, p)) = Some (True, p')"
    by (auto dest!: bind_SomeD split: if_splits)
  from a show ?thesis unfolding AddRule_build [OF r] by (auto dest!: bind_SomeD split: if_splits)
qed

lemma add_rules_stands_for:
  assumes "add_rules rs p = Some (True, p')" "\<forall>r \<in> set rs. spec_ok r"
  shows "\<exists>nodes. llp_rules p' = llp_rules p @ nodes \<and> list_all2 stands_for nodes rs \<and> llp_store p' = llp_store p"
  using assms
proof (induction rs arbitrary: p)
  case (Cons r rs)
  obtain s act garbage cs where r: "r = (s, act, garbage, cs)" by (cases r)
  from add_rules_Cons [OF Cons.prems(1) [unfolded r]] obtain rule copy where
    b: "build_rule act garbage cs = Some (True, rule)" "PolicyRule_copy rule = Some copy"
      "add_rules rs (p\<lparr>llp_rules := llp_rules p @ [(copy, s)]\<rparr>) = Some (True, p')" by blast
  have "spec_ok r" "\<forall>r \<in> set rs. spec_ok r" using Cons.prems(2) by simp_all
  then have ok: "\<forall>c \<in> set cs. proper c" "conjunctive cs" "is_action act"
    by (simp_all add: spec_ok_def r spec_comparisons_def spec_action_def)
  from build_rule_views [OF b(1) ok] obtain conds where
    c: "all_views cs = Some conds" "rule_has rule (rule_views (conds, act))" by blast
  have f: "rule_for eqc act cs conds" for eqc using build_rule_views [OF b(1) ok, of eqc] c(1) by auto
  have "rule_has copy (rule_views (conds, act))" using rule_has_copy [OF c(2)] b(2) by auto
  then have "stands_for (copy, s) r" using c(1) f
    by (simp add: stands_for_def r spec_service_def spec_action_def spec_comparisons_def)
  moreover from Cons.IH [OF b(3) \<open>\<forall>r \<in> set rs. spec_ok r\<close>] obtain nodes where
    "llp_rules p' = llp_rules p @ (copy, s) # nodes" "list_all2 stands_for nodes rs" "llp_store p' = llp_store p"
    by auto
  ultimately show ?case by (intro exI [of _ "(copy, s) # nodes"]) simp
qed simp

lemma list_all2_stands:
  "list_all2 stands_for nodes rs \<Longrightarrow> r \<in> set rs \<Longrightarrow>
     \<exists>conds. all_views (spec_comparisons r) = Some conds \<and>
       (\<forall>eqc. rule_for eqc (spec_action r) (spec_comparisons r) conds)"
  by (induction nodes rs rule: list_all2_induct) (auto simp: stands_for_def)

section \<open>The rules of each service\<close>

definition service_rules :: "uint32 \<Rightarrow> rule_spec list \<Rightarrow> rule list" where
  "service_rules s rs =
     map (\<lambda>r. (the (all_views (spec_comparisons r)), spec_action r)) (filter (\<lambda>r. spec_service r = s) rs)"

lemma stands_for_services:
  assumes "list_all2 stands_for nodes rs"
  shows "map (\<lambda>(_, service). to_uint32 service) nodes = map spec_service rs"
  using assms by (induction nodes rs rule: list_all2_induct) (auto simp: stands_for_def)

lemma stands_for_filter:
  assumes "list_all2 stands_for nodes rs"
  shows "list_all2 rule_has (map fst (filter (\<lambda>(_, service). to_uint32 service = s) nodes))
    (map rule_views (service_rules s rs))"
  using assms
  by (induction nodes rs rule: list_all2_induct) (auto simp: service_rules_def stands_for_def)

lemma rules_by_service_ok:
  assumes "list_all2 stands_for nodes rs"
  shows "list_all2 (\<lambda>(s, rules) (s', vss). s = s' \<and> list_all2 rule_has rules vss) (rules_by_service nodes)
      (map (\<lambda>s. (s, map rule_views (service_rules s rs))) (services rs)) \<and>
    map fst (rules_by_service nodes) = services rs"
proof -
  have s: "rules_by_service nodes =
      map (\<lambda>s. (s, map fst (filter (\<lambda>(_, service). to_uint32 service = s) nodes))) (services rs)"
    unfolding rules_by_service_def services_def stands_for_services [OF assms] ..
  show ?thesis unfolding s
    using stands_for_filter [OF assms] by (simp add: list_all2_map1 list_all2_map2 list.rel_refl comp_def)
qed

lemma sum_over_classes:
  fixes f :: "'a \<Rightarrow> nat"
  assumes "distinct ss" "set (map g xs) \<subseteq> set ss"
  shows "sum_list (map (\<lambda>s. sum_list (map f (filter (\<lambda>x. g x = s) xs))) ss) = sum_list (map f xs)"
  using assms(2)
proof (induction xs)
  case (Cons x xs)
  have "(\<lambda>s. sum_list (map f (filter (\<lambda>y. g y = s) (x # xs)))) =
      (\<lambda>s. (if s = g x then f x else 0) + sum_list (map f (filter (\<lambda>y. g y = s) xs)))" by auto
  moreover have "sum_list (map (\<lambda>s. if s = g x then f x else 0) ss) = f x"
    using Cons.prems assms(1) by (simp add: sum_list_distinct_conv_sum_set)
  ultimately show ?case using Cons by (simp add: sum_list_addf)
qed simp

lemma taken_concat: "taken (concat vss) = sum_list (map taken vss)"
  by (induction vss) simp_all

lemma length_concat_sum: "length (concat vss) = sum_list (map length vss)"
  by (induction vss) simp_all

lemma service_need_rules:
  assumes "\<forall>r \<in> set rs. all_views (spec_comparisons r) \<noteq> None"
  shows "service_need (concat (map rule_views (service_rules s rs))) =
    28 + sum_list (map rule_need (filter (\<lambda>r. spec_service r = s) rs))"
  using assms
proof (induction rs)
  case Nil
  then show ?case by (simp add: service_need_def service_rules_def)
next
  case (Cons r rs)
  obtain vs where v: "all_views (spec_comparisons r) = Some vs" using Cons.prems by auto
  have "24 * length (rule_views (vs, act)) + taken (rule_views (vs, act)) = 48 * (length vs + 1) + string_bytes vs" for act
    by (simp add: rule_views_def taken_def action_view_def)
  from this [of "spec_action r"] show ?case
    using Cons v by (auto simp: service_need_def service_rules_def rule_need_def split: option.splits)
qed

lemma store_need_services:
  assumes "\<forall>r \<in> set rs. all_views (spec_comparisons r) \<noteq> None"
  shows "sum_list (map (\<lambda>(s, vss). service_need (concat vss))
      (map (\<lambda>s. (s, map rule_views (service_rules s rs))) (services rs))) = store_need rs"
proof -
  have d: "distinct (services rs)" "set (map spec_service rs) \<subseteq> set (services rs)" by (simp_all add: services_def)
  have "sum_list (map (\<lambda>s. 28 + sum_list (map rule_need (filter (\<lambda>r. spec_service r = s) rs))) (services rs)) =
      28 * length (services rs) + sum_list (map rule_need rs)"
    unfolding sum_over_classes [OF d, of rule_need, symmetric] by (simp only: sum_list_addf sum_list_triv) simp
  then show ?thesis unfolding map_map comp_def prod.case service_need_rules [OF assms] store_need_def .
qed

lemma blank_empty: "blank 0 (2 * n) (replicate n 0)"
  unfolding blank_def
proof (intro allI impI)
  fix a :: nat assume a: "even a" "a + 4 \<le> 2 * n"
  then have "a div 2 + 2 \<le> n" by auto
  then have "take 2 (drop (a div 2) (replicate n (0::16 word))) = [0, 0]"
    by (simp add: min_absorb1 min_absorb2) (simp add: numeral_2_eq_2)
  then show "rd32 (replicate n 0) a = Some 0" using a(1) \<open>a div 2 + 2 \<le> n\<close> by (simp add: rd32_def rd_units_def)
qed

lemma Done_store:
  assumes "add_rules rs (LowLevelPolicy_init (empty_store units)) = Some (True, p)" "\<forall>r \<in> set rs. spec_ok r"
    and "store_need rs \<le> 2 * units" "2 * units < 2 ^ 32"
  shows "\<exists>p'. LowLevelPolicy_Done p = Some (True, p') \<and>
    (\<forall>s. s \<notin> set (services rs) \<longrightarrow> pg_entry (llp_store p') s = None) \<and>
    (\<forall>s \<in> set (services rs). \<exists>b. pg_entry (llp_store p') s = Some b \<and>
       policy_at (pg_data (llp_store p')) b (service_rules s rs))"
proof -
  let ?e = "empty_store units"
  from add_rules_stands_for [OF assms(1,2)] obtain nodes where
    n: "llp_rules p = nodes" "list_all2 stands_for nodes rs" "llp_store p = ?e"
    by (auto simp: LowLevelPolicy_init_def)
  have v: "\<forall>r \<in> set rs. all_views (spec_comparisons r) \<noteq> None"
    using list_all2_stands [OF n(2)] by fastforce
  note e = rules_by_service_ok [OF n(2)]
  have p: "distinct (map fst (rules_by_service nodes))" "\<forall>s \<in> set (map fst (rules_by_service nodes)). s < 32"
    using assms(2) unfolding conjunct2 [OF e] by (auto simp: services_def spec_ok_def)
  have need: "0 + sum_list (map (\<lambda>(s, vss). service_need (concat vss))
      (map (\<lambda>s. (s, map rule_views (service_rules s rs))) (services rs))) \<le> 2 * units"
    unfolding store_need_services [OF v] using assms(3) by simp
  have b: "even (0::nat)" "even (2 * units)" "2 * units \<le> 2 * length (pg_data ?e)" "blank 0 (2 * units) (pg_data ?e)"
    by (simp_all add: empty_store_def blank_empty)
  from place_services_ok [OF conjunct1 [OF e] p b(1,2) need b(3) assms(4) b(4)] obtain p' where
    p': "place_services (rules_by_service nodes) 0 (2 * units) (2 * units) ?e = Some (True, p')"
    "\<forall>s. s \<notin> set (services rs) \<longrightarrow> pg_entry p' s = pg_entry ?e s"
    "\<forall>s \<in> set (services rs). \<exists>b lo hi. pg_entry p' s = Some b \<and>
       buffer_at (pg_data p') b lo hi (concat (map rule_views (service_rules s rs)))"
    unfolding conjunct2 [OF e] by auto
  have "policy_at m b (service_rules s rs)" if "buffer_at m b lo hi (concat (map rule_views (service_rules s rs)))" for m b lo hi s
    using that placed_stored
    by (simp add: buffer_at_def policy_at_def stored_from_def views_at_def opcode_address_def) blast
  then have "\<forall>s \<in> set (services rs). \<exists>b. pg_entry p' s = Some b \<and> policy_at (pg_data p') b (service_rules s rs)"
    using p'(3) by blast
  moreover have "LowLevelPolicy_Done p = Some (True, p\<lparr>llp_store := p'\<rparr>)"
    using p'(1) n(1,3) by (simp add: LowLevelPolicy_Done_def empty_store_def Let_def)
  ultimately show ?thesis using p'(2) by (auto simp: empty_store_def)
qed

section \<open>Deciding\<close>

lemma first_match_find:
  assumes "\<forall>r \<in> set rs. \<exists>conds. all_views (spec_comparisons r) = Some conds \<and>
      conditions_hold rtl (Some ps) conds MatchContext_Clear = Some (\<forall>c \<in> set (spec_comparisons r). holds eqc ps c)"
  shows "map_option (map_option snd) (first_match rtl (Some ps)
      (map (\<lambda>r. (the (all_views (spec_comparisons r)), spec_action r)) rs)) =
    Some (map_option spec_action (find (\<lambda>r. \<forall>c \<in> set (spec_comparisons r). holds eqc ps c) rs))"
  using assms
proof (induction rs)
  case (Cons r rs)
  obtain conds where "all_views (spec_comparisons r) = Some conds"
    "conditions_hold rtl (Some ps) conds MatchContext_Clear = Some (\<forall>c \<in> set (spec_comparisons r). holds eqc ps c)"
    using Cons.prems by auto
  moreover have "map_option (\<lambda>x. snd (case x of (i, a) \<Rightarrow> (f i, a))) =
      (map_option snd :: (nat \<times> EvalResult) option \<Rightarrow> EvalResult option)" for f :: "nat \<Rightarrow> nat"
  proof
    fix x :: "(nat \<times> EvalResult) option"
    show "map_option (\<lambda>x. snd (case x of (i, a) \<Rightarrow> (f i, a))) x = map_option snd x" by (cases x) auto
  qed
  moreover have "map_option (map_option snd) (first_match rtl (Some ps)
      (map (\<lambda>r. (the (all_views (spec_comparisons r)), spec_action r)) rs)) =
    Some (map_option spec_action (find (\<lambda>r. \<forall>c \<in> set (spec_comparisons r). holds eqc ps c) rs))"
    using Cons.prems by (intro Cons.IH) simp
  ultimately show ?case by (simp add: option.map_comp comp_def del: map_option_eq_Some)
qed simp

lemma find_filter: "find P (filter Q xs) = find (\<lambda>x. Q x \<and> P x) xs"
  by (induction xs) simp_all

lemma EvalPolicy_service:
  assumes n: "list_all2 stands_for nodes rs"
    and b: "pg_entry g service = Some b" "policy_at (pg_data g) b (service_rules service rs)"
    and "compares rtl eqc" "callable service ps rs" "service < 32"
  shows "EvalPolicy rtl (Some g) service ps = Some (decision eqc service ps rs)"
proof -
  let ?own = "filter (\<lambda>r. spec_service r = service) rs"
  have valid: "ps \<noteq> []" "\<forall>q \<in> set ps. IsValid q" using assms(5) by (simp_all add: callable_def)
  have c: "\<exists>conds. all_views (spec_comparisons r) = Some conds \<and> rule_for eqc (spec_action r) (spec_comparisons r) conds"
    if "r \<in> set ?own" for r
    using list_all2_stands [OF n] that by fastforce
  have only: "\<forall>r \<in> set (service_rules service rs). conditions_only r"
    using c by (fastforce simp: service_rules_def rule_for_def)
  have hold: "\<forall>r \<in> set ?own. \<exists>conds. all_views (spec_comparisons r) = Some conds \<and>
      conditions_hold rtl (Some ps) conds MatchContext_Clear = Some (\<forall>c \<in> set (spec_comparisons r). holds eqc ps c)"
  proof
    fix r assume r: "r \<in> set ?own"
    obtain conds where "all_views (spec_comparisons r) = Some conds"
      "rule_for eqc (spec_action r) (spec_comparisons r) conds" using c [OF r] by blast
    then show "\<exists>conds. all_views (spec_comparisons r) = Some conds \<and>
        conditions_hold rtl (Some ps) conds MatchContext_Clear = Some (\<forall>c \<in> set (spec_comparisons r). holds eqc ps c)"
      using r assms(4,5) by (auto simp: rule_for_def callable_def)
  qed
  have k: "kShortEval AND kShortEval \<noteq> (0::nat)" by simp
  note eval = evaluate_first_match_list [OF b(2) only valid(1) k, of rtl]
  note found = first_match_find [OF hold, folded service_rules_def]
  let ?f = "find (\<lambda>r. \<forall>c \<in> set (spec_comparisons r). holds eqc ps c) ?own"
  have d: "decision eqc service ps rs = (case map_option spec_action ?f of None \<Rightarrow> DENY_ACCESS | Some a \<Rightarrow> a)"
    unfolding find_filter by (simp add: decision_def split: option.split)
  from found obtain x where x: "first_match rtl (Some ps) (service_rules service rs) = Some x"
    "map_option snd x = map_option spec_action ?f" by auto
  from eval x(1) obtain r st where r: "PolicyProcessor_Evaluate rtl (pg_data g) (Some b) kShortEval (Some ps)
      PolicyProcessor_init = Some (r, st)"
    "(r, GetAction st) = (case x of None \<Rightarrow> (NO_POLICY_MATCH, EVAL_FALSE) | Some (i, a) \<Rightarrow> (POLICY_MATCH, a))"
    by auto
  show ?thesis unfolding EvalPolicy_def d x(2) [symmetric]
    using r b(1) valid(2) assms(6) by (auto split: option.splits)
qed

text \<open>
  C3 (refinement): the packed policy implements the list of rules, for the rules (\<open>spec_ok\<close>) whose patterns
  are made of literals and asterisks with at least one literal and no question mark as a wildcard, whose numbers are
  compared by \<open>EQUAL\<close> or \<open>AND\<close>, and in which a negated pattern of several fragments is the last
  comparison. After such rules for any services were
  added and a store that is large enough was filled by \<open>Done\<close>, which succeeds, \<open>EvalPolicy\<close> decides for
  every service and all parameters of the right types with the action of the first rule that was added
  for the service and whose comparisons all hold; without one it denies access.
  Other rules do not decide so: a pattern of an asterisk alone takes the negation from the comparison before it
  (\<open>asterisk_drops_negation\<close>), a negated pattern of several fragments ends the rule
  (\<open>negated_pattern_ends_rule\<close>), and what follows a question mark is compared at a fixed offset, without
  regard to the end of the string.
\<close>

theorem policy_decides:
  assumes "add_rules rs (LowLevelPolicy_init (empty_store units)) = Some (True, p)" "\<forall>r \<in> set rs. spec_ok r"
    and "store_need rs \<le> 2 * units" "2 * units < 2 ^ 32"
    and "compares rtl eqc" "callable service ps rs" "service < 32"
  shows "\<exists>p'. LowLevelPolicy_Done p = Some (True, p') \<and>
    EvalPolicy rtl (Some (llp_store p')) service ps = Some (decision eqc service ps rs)"
proof -
  from Done_store [OF assms(1-4)] obtain p' where p': "LowLevelPolicy_Done p = Some (True, p')"
    "\<forall>s. s \<notin> set (services rs) \<longrightarrow> pg_entry (llp_store p') s = None"
    "\<forall>s \<in> set (services rs). \<exists>b. pg_entry (llp_store p') s = Some b \<and>
       policy_at (pg_data (llp_store p')) b (service_rules s rs)" by blast
  have "EvalPolicy rtl (Some (llp_store p')) service ps = Some (decision eqc service ps rs)"
  proof (cases "service \<in> set (services rs)")
    case False
    then have "find (\<lambda>r. spec_service r = service \<and> (\<forall>c \<in> set (spec_comparisons r). holds eqc ps c)) rs = None"
      by (auto simp: find_None_iff services_def)
    then show ?thesis using False p'(2) assms(7) by (simp add: EvalPolicy_def decision_def)
  next
    case True
    then obtain b where b: "pg_entry (llp_store p') service = Some b"
      "policy_at (pg_data (llp_store p')) b (service_rules service rs)" using p'(3) by blast
    from add_rules_stands_for [OF assms(1,2)] obtain nodes where "list_all2 stands_for nodes rs" by blast
    from EvalPolicy_service [OF this b assms(5-7)] show ?thesis .
  qed
  then show ?thesis using p'(1) by blast
qed

lemma rule_fits:
  assumes "length garbage = 2062" "\<forall>c \<in> set cs. proper c" "all_views cs = Some vs" "costs vs + 26 \<le> 4120"
  shows "\<exists>rule. build_rule act garbage cs = Some (True, rule) \<and> rule_has rule (vs @ [action_view act])"
  using build_rule_run [OF assms(1,2), of act] assms(3,4) by (fastforce split: if_splits)

lemma add_rules_fit:
  assumes "length garbage = 2062" "\<forall>c \<in> set cs. proper c" "all_views cs = Some vs" "costs vs + 26 \<le> 4120"
  shows "\<exists>copy. add_rules ((s, act, garbage, cs) # rs) p = add_rules rs (p\<lparr>llp_rules := llp_rules p @ [(copy, s)]\<rparr>)"
proof -
  from rule_fits [OF assms, of act] obtain rule where
    b: "build_rule act garbage cs = Some (True, rule)" "rule_has rule (vs @ [action_view act])" by blast
  from b(1) obtain r0 r1 where r: "PolicyRule_init act garbage = Some r0" "add_comparisons cs r0 = Some (True, r1)"
    by (auto simp: build_rule_def dest!: bind_SomeD split: if_splits)
  from rule_has_copy [OF b(2)] obtain copy where "PolicyRule_copy rule = Some copy" by blast
  then show ?thesis using r b(1) AddRule_build [OF r, of s p] by (auto simp: split: if_splits)
qed

text \<open>
  What building a rule reports. It always returns; it succeeds only when no pattern has two
  asterisks in a row, and for such patterns it fails only when the opcodes and strings do not fit
  into the buffer.
\<close>

theorem rule_building:
  assumes "length garbage = 2062" "\<forall>c \<in> set cs. proper c"
  shows "\<exists>ok rule. build_rule act garbage cs = Some (ok, rule) \<and>
    (case all_views cs of None \<Rightarrow> \<not> ok | Some vs \<Rightarrow> ok \<or> 4120 < costs vs + 26)"
proof -
  from build_rule_run [OF assms, of act] obtain ok rule where
    "build_rule act garbage cs = Some (ok, rule)"
    "if ok then \<exists>vs. all_views cs = Some vs \<and> rule_has rule (vs @ [action_view act]) \<and> (\<forall>v \<in> set vs. view_ok v) \<and>
       rule_done rule
     else \<forall>vs. all_views cs = Some vs \<longrightarrow> 4120 < costs vs + 26" by blast
  then show ?thesis by (cases ok) (auto split: option.split)
qed

end
