(* ===== verification/PolicyErrors.thy ===== *)
theory PolicyErrors
  imports PolicyStore
begin

text \<open>
  Where rules of the sandbox policy do not decide as the conjunction of their comparisons
  (\<open>policy_low_level.cc\<close>, \<open>policy_engine_processor.cc\<close>): comparisons that cannot be evaluated are
  passed over, a negated pattern of several fragments ends the rule, and a pattern without literals
  changes the comparison before it. The section at the end evaluates the properties of rules and
  policies on examples.
\<close>

section \<open>Comparisons in error\<close>

text \<open>The parameter is missing or has a type that the comparison does not read.\<close>

definition mistyped :: "ParameterSet list \<Rightarrow> comparison \<Rightarrow> bool" where
  "mistyped ps c \<longleftrightarrow> (case c of
     StringMatch rt par pat mo \<Rightarrow> 0 \<le> sint par \<and>
       (unat par < length ps \<longrightarrow> real_type (ps ! unat par) \<noteq> WCHAR_TYPE)
   | NumberMatch rt par n op \<Rightarrow> 0 \<le> sint par \<and>
       (unat par < length ps \<longrightarrow> real_type (ps ! unat par) \<noteq> ULONG_TYPE \<and>
         (op = EQUAL \<longrightarrow> real_type (ps ! unat par) \<noteq> VOIDPTR_TYPE)))"

lemma apply_options_error: "\<exists>c'. apply_options opts (EVAL_ERROR, Some c) = (EVAL_ERROR, Some c')"
  by (simp add: apply_options_def negate_result_def)

lemma view_eval_error:
  assumes "0 \<le> sint (op_parameter (fst v))"
    and "unat (op_parameter (fst v)) < length ps \<Longrightarrow>
      EvaluateHelper rtl (reader (snd v)) (fst v) (Some (ps ! unat (op_parameter (fst v)))) (Some c) = Some (EVAL_ERROR, Some c)"
  shows "\<exists>c'. view_eval rtl v (Some ps) (Some c) = Some (EVAL_ERROR, Some c')"
proof (cases "unat (op_parameter (fst v)) < length ps")
  case True
  then show ?thesis using assms apply_options_error [of "op_options (fst v)" c]
    by (simp add: view_eval_def evaluate_opcode_def)
qed (use assms(1) in \<open>simp add: view_eval_def evaluate_opcode_def\<close>)

lemma conditions_in_error:
  assumes "\<forall>v \<in> set vs. \<forall>c. \<exists>c'. view_eval rtl v params (Some c) = Some (EVAL_ERROR, Some c')"
  shows "conditions_hold rtl params vs c = Some True"
  using assms
proof (induction vs arbitrary: c)
  case (Cons v vs)
  have "\<exists>c'. view_eval rtl v params (Some c) = Some (EVAL_ERROR, Some c')" using Cons.prems by simp
  then obtain c' where "view_eval rtl v params (Some c) = Some (EVAL_ERROR, Some c')" ..
  then show ?case using Cons by simp
qed simp

lemma segs_parameter:
  "segs rt mo par ts wild st f = Some new \<Longrightarrow> v \<in> set new \<Longrightarrow>
     op_parameter (fst v) = par \<and> opcode_id (fst v) = 5"
proof (induction ts arbitrary: wild st f new)
  case (Cons a ts)
  then show ?case by (cases a) (auto simp: gen_view_def string_view_def split: if_splits)
qed (auto simp: gen_view_def string_view_def split: if_splits)

lemma comparison_in_error:
  assumes "mistyped ps c" "proper c" "comparison_views c = Some new" "v \<in> set new"
  shows "\<exists>ctx'. view_eval rtl v (Some ps) (Some ctx) = Some (EVAL_ERROR, Some ctx')"
proof (cases c)
  case (StringMatch rt par pat mo)
  then obtain ts where "segs rt mo par ts False PENDING_NONE [] = Some new"
    using assms(3) by (auto simp: comparison_views_def split: option.splits)
  then have v: "op_parameter (fst v) = par" "opcode_id (fst v) = 5" using segs_parameter [OF _ assms(4)] by auto
  show ?thesis
    by (rule view_eval_error)
      (use assms(1) v StringMatch in \<open>auto simp: mistyped_def EvaluateHelper_def OpcodeEval_WSTRING_MATCH_def Get_wchar_def\<close>)
next
  case (NumberMatch rt par n op)
  then have "v = number_view rt par n op" using assms(3,4) by (auto simp: comparison_views_def)
  then show ?thesis using assms(1,2) NumberMatch
    by (cases op) (auto simp: mistyped_def proper_def number_view_def plain_view_def EvaluateHelper_def OpcodeID_code_def
      OpcodeEval_NUMBER_MATCH_def OpcodeEval_ULONG_AND_MATCH_def Get_ulong_def Get_voidptr_def intro!: view_eval_error)
qed

lemma all_views_in_error:
  assumes "\<forall>c \<in> set cs. mistyped ps c \<and> proper c" "all_views cs = Some conds" "v \<in> set conds"
  shows "\<exists>ctx'. view_eval rtl v (Some ps) (Some ctx) = Some (EVAL_ERROR, Some ctx')"
  using assms
proof (induction cs arbitrary: conds)
  case (Cons c cs)
  obtain a b where "comparison_views c = Some a" "all_views cs = Some b" "conds = a @ b"
    using Cons.prems(2) by (auto dest!: bind_SomeD)
  then show ?case using Cons comparison_in_error [of ps c a v rtl ctx] by auto
qed simp

text \<open>A finished rule evaluates as its conditions, whatever they mean.\<close>

lemma rule_evaluates:
  assumes "rule_has rule (rule_views (conds, act))" "conditions_only (conds, act)" "ps \<noteq> []"
    and "conditions_hold rtl (Some ps) conds MatchContext_Clear = Some b"
  shows "map_option (\<lambda>(r, st). (r, GetAction st))
      (PolicyProcessor_Evaluate rtl (rule_buffer rule) (Some 0) kShortEval (Some ps) PolicyProcessor_init) =
    Some (if b then (POLICY_MATCH, act) else (NO_POLICY_MATCH, EVAL_FALSE))"
proof -
  have o: "\<forall>r \<in> set [(conds, act)]. conditions_only r" using assms(2) by simp
  have k: "kShortEval AND kShortEval \<noteq> (0::nat)" by simp
  show ?thesis using evaluate_first_match_list [OF rule_has_policy [OF assms(1)] o assms(3) k, of rtl] assms(4) by simp
qed

lemma built_rule:
  assumes "build_rule act garbage cs = Some (True, rule)" "\<forall>c \<in> set cs. proper c" "is_action act"
  shows "\<exists>conds. all_views cs = Some conds \<and> rule_has rule (rule_views (conds, act)) \<and> conditions_only (conds, act)"
proof -
  from build_rule_run [OF build_rule_length [OF assms(1)] assms(2), of act] assms(1) obtain vs where
    vs: "all_views cs = Some vs" "rule_has rule (vs @ [action_view act])" "\<forall>v \<in> set vs. view_ok v"
    by auto
  from all_views_means [OF vs(1) assms(2) vs(3)] obtain news where
    news: "vs = concat news" "list_all2 (view_means (\<lambda>_ _ _. True)) cs news" by blast
  have "conditions_only (vs, act)"
    using concat_not_action [OF news(2)] assms(3) unfolding conditions_only_def fst_conv snd_conv news(1) by blast
  then show ?thesis using vs(1,2) by (auto simp: rule_views_def)
qed

text \<open>
  Comparisons that cannot be evaluated do not stop a rule. A rule all of whose comparisons
  read a parameter that is missing or of another type matches, and the policy takes its action:
  the option to stop at errors is zero, so the test for it never succeeds.
\<close>

theorem mistyped_rule_matches:
  assumes "build_rule act garbage cs = Some (True, rule)" "is_action act" "ps \<noteq> []"
    and "\<forall>c \<in> set cs. mistyped ps c \<and> proper c"
  shows "map_option (\<lambda>(r, st). (r, GetAction st))
      (PolicyProcessor_Evaluate rtl (rule_buffer rule) (Some 0) kShortEval (Some ps) PolicyProcessor_init) =
    Some (POLICY_MATCH, act)"
proof -
  have "\<forall>c \<in> set cs. proper c" using assms(4) by blast
  from built_rule [OF assms(1) this assms(2)] obtain conds where
    c: "all_views cs = Some conds" "rule_has rule (rule_views (conds, act))" "conditions_only (conds, act)" by blast
  have "conditions_hold rtl (Some ps) conds MatchContext_Clear = Some True"
    using all_views_in_error [OF assms(4) c(1)] by (intro conditions_in_error) blast
  from rule_evaluates [OF c(2,3) assms(3) this] show ?thesis by simp
qed

section \<open>Negated patterns\<close>

text \<open>
  A negated pattern of several fragments ends its rule. When the string does not start
  with the first fragment of the pattern \<open>a*b\<close>, the rule matches, whatever its other comparisons are.
\<close>

theorem negated_pattern_ends_rule:
  assumes "build_rule act garbage (StringMatch IF_NOT par [97, 42, 98] 0 # cs) = Some (True, rule)"
    and "\<forall>c \<in> set cs. proper c" "is_action act" "compares rtl eqc"
    and "usable ps (StringMatch IF_NOT par [97, 42, 98] 0)" "var_chars (ps ! unat par) = Some (x # xs)" "\<not> eqc False 97 x"
  shows "map_option (\<lambda>(r, st). (r, GetAction st))
      (PolicyProcessor_Evaluate rtl (rule_buffer rule) (Some 0) kShortEval (Some ps) PolicyProcessor_init) =
    Some (POLICY_MATCH, act)"
proof -
  have "proper (StringMatch IF_NOT par [97, 42, 98] 0)" by (auto simp: proper_def has_literal_def)
  then have "\<forall>c \<in> set (StringMatch IF_NOT par [97, 42, 98] 0 # cs). proper c" using assms(2) by simp
  from built_rule [OF assms(1) this assms(3)] obtain conds where
    c: "all_views (StringMatch IF_NOT par [97, 42, 98] 0 # cs) = Some conds"
    "rule_has rule (rule_views (conds, act))" "conditions_only (conds, act)" by blast
  let ?v = "gen_view IF_NOT 0 par PENDING_NONE False False [97]"
  obtain rest where conds: "conds = ?v # rest"
    using c(1) by (auto simp: comparison_views_def dest!: bind_SomeD)
  have p: "0 \<le> sint par" "unat par < length ps" "real_type (ps ! unat par) = WCHAR_TYPE"
    using assms(5) by (simp_all add: usable_def)
  have rtl: "rtl [97] [x] False \<noteq> 0" using assms(4,7) by (simp add: compares_def)
  have "view_eval rtl ?v (Some ps) (Some MatchContext_Clear) =
      Some (EVAL_TRUE, Some (MatchContext_Clear\<lparr>ctx_options := kPolUseOREval\<rparr>))"
    using p assms(6) rtl
    by (simp add: view_eval_def evaluate_opcode_def gen_view_def string_view_def EvaluateHelper_def
        OpcodeEval_WSTRING_MATCH_def Get_wchar_def MatchContext_Clear_def rtl_equal_def reader_def string_options_def
        apply_options_def negate_result_def to_int32_def to_uint32_def InitStringUnicode_chars_def Let_def)
  then have "conditions_hold rtl (Some ps) conds MatchContext_Clear = Some True" by (simp add: conds)
  moreover have "ps \<noteq> []" using p(2) by auto
  ultimately show ?thesis using rule_evaluates [OF c(2,3), of ps rtl True] by simp
qed

section \<open>Patterns without literals\<close>

lemma add_asterisk:
  assumes "rule_rep rule (vs @ [v])" "\<not> rule_done rule"
  shows "\<exists>rule'. AddStringMatch rt par [42] mo rule = Some (True, rule') \<and>
    rule_rep rule' (vs @ [with_options (string_options rt True) v]) \<and> rule_room rule' = rule_room rule \<and>
    rule_action rule' = rule_action rule \<and> rule_done rule' = rule_done rule"
proof -
  from GenStringOpcode_fix [OF assms(1), of rt mo par PENDING_ASTERISK 0] obtain rule' where
    r: "GenStringOpcode rt mo par PENDING_ASTERISK True 0 [] rule = Some (True, 0, [], rule')"
    "rule_rep rule' (vs @ [with_options (string_options rt True) v])"
    "rule_room rule' = rule_room rule" "rule_action rule' = rule_action rule" "rule_done rule' = rule_done rule" by blast
  have "AddStringMatch rt par [42] mo rule = Some (True, rule')"
    using assms(2) r(1) GenStringOpcode_nothing [OF assms(1), of rt mo par PENDING_NONE 0] by (simp add: AddStringMatch_def)
  then show ?thesis using r(2-5) by blast
qed

lemma finish_rule:
  assumes "rule_rep rule vs" "\<not> rule_done rule" "26 \<le> rule_room rule"
  shows "\<exists>rule'. PolicyRule_Done rule = Some (True, rule') \<and> rule_has rule' (vs @ [action_view (rule_action rule)])"
proof -
  have c: "cost (action_view a) = 26" for a by (simp add: cost_def action_view_def)
  from add_opcode_rep [OF assms(1) makes_action [of "rule_action rule"]] assms(3) obtain rule' where
    "add_opcode (MakeOpAction (rule_action rule) 0) rule = Some (True, rule')"
    "rule_rep rule' (vs @ [action_view (rule_action rule)])" by (auto simp: c rule_room_def)
  then show ?thesis using assms(2) by (auto simp: PolicyRule_Done_def rule_has_def dest!: rule_rep_has)
qed

lemma asterisk_run:
  assumes "length garbage = 2062" "n < 2 ^ 32"
  shows "\<exists>rule. build_rule act garbage [NumberMatch IF_NOT par n EQUAL, StringMatch IF q [42] mo] = Some (True, rule) \<and>
    rule_has rule (rule_views ([with_options kPolClearContext (number_view IF_NOT par n EQUAL)], act))"
proof -
  from rule_rep_init [OF assms(1)] obtain r0 where
    r0: "PolicyRule_init act garbage = Some r0" "rule_rep r0 []" "rule_action r0 = act" "\<not> rule_done r0" by blast
  have room: "rule_room r0 = 4120"
    using r0(1) by (auto simp: PolicyRule_init_def rule_room_def room_def OpcodeFactory_init_def
        split: if_splits dest!: bind_SomeD)
  let ?v = "number_view IF_NOT par n EQUAL" and ?c = "NumberMatch IF_NOT par n EQUAL"
  have "proper ?c" using assms(2) by (simp add: proper_def)
  from add_comparison_appends [OF r0(2,4) this] obtain ok r1 where
    a: "add_comparison ?c r0 = Some (ok, r1)"
      "if ok then (\<exists>ws. comparison_views ?c = Some ws \<and> rule_rep r1 ([] @ ws) \<and> rule_room r0 \<le> rule_room r1 + costs ws) \<and>
         rule_action r1 = rule_action r0 \<and> rule_done r1 = rule_done r0
       else \<forall>ws. comparison_views ?c = Some ws \<longrightarrow> rule_room r0 < costs ws"
    unfolding appends_def by blast
  have v: "comparison_views ?c = Some [?v]" "costs [?v] = 26"
    by (simp_all add: comparison_views_def cost_def number_view_def plain_view_def)
  have ok: "ok" using a(2) v room by (simp split: if_splits)
  then have r1: "rule_rep r1 ([] @ [?v])" "rule_action r1 = act" "\<not> rule_done r1" "26 \<le> rule_room r1"
    using a(2) v r0(3,4) room by simp_all
  from add_asterisk [OF r1(1,3), of IF q mo] obtain r2 where
    r2: "AddStringMatch IF q [42] mo r1 = Some (True, r2)" "rule_rep r2 ([] @ [with_options (string_options IF True) ?v])"
      "rule_room r2 = rule_room r1" "rule_action r2 = rule_action r1" "rule_done r2 = rule_done r1" by blast
  from finish_rule [OF r2(2)] r2(3-5) r1(2-4) obtain r3 where
    r3: "PolicyRule_Done r2 = Some (True, r3)" "rule_has r3 ([] @ [with_options (string_options IF True) ?v] @ [action_view act])"
    by auto
  have "build_rule act garbage [?c, StringMatch IF q [42] mo] = Some (True, r3)"
    using r0(1) a(1) ok r2(1) r3(1) by (simp add: build_rule_def add_comparison_def [of "StringMatch IF q [42] mo"])
  then show ?thesis using r3(2) by (simp add: rule_views_def string_options_def)
qed

text \<open>
  A pattern that consists of an asterisk changes the comparison before it. A rule with
  a negated number comparison, followed by the pattern \<open>*\<close> for any parameter, takes its action
  exactly when the numbers are equal: the negation is lost.
\<close>

theorem asterisk_drops_negation:
  assumes "build_rule act garbage [NumberMatch IF_NOT par n EQUAL, StringMatch IF q [42] mo] = Some (True, rule)"
    and "n < 2 ^ 32" "is_action act" "0 \<le> sint par" "unat par < length ps" "real_type (ps ! unat par) = ULONG_TYPE"
  shows "map_option (\<lambda>(r, st). (r, GetAction st))
      (PolicyProcessor_Evaluate rtl (rule_buffer rule) (Some 0) kShortEval (Some ps) PolicyProcessor_init) =
    Some (if n = var_number (ps ! unat par) then (POLICY_MATCH, act) else (NO_POLICY_MATCH, EVAL_FALSE))"
proof -
  let ?v = "number_view IF_NOT par n EQUAL"
  from asterisk_run [OF build_rule_length [OF assms(1)] assms(2), of act par q mo] assms(1)
  have has: "rule_has rule (rule_views ([with_options kPolClearContext ?v], act))" by auto
  have only: "conditions_only ([with_options kPolClearContext ?v], act)"
    using assms(3) by (simp add: conditions_only_def with_options_def number_view_def plain_view_def IsAction_def OpcodeID_code_def)
  have "view_eval rtl (with_options kPolClearContext ?v) (Some ps) (Some MatchContext_Clear) =
      Some (bool_result (n = var_number (ps ! unat par)), Some MatchContext_Clear)"
    using assms(4-6)
    by (simp add: view_eval_def evaluate_opcode_def with_options_def number_view_def plain_view_def EvaluateHelper_def
        OpcodeID_code_def OpcodeEval_NUMBER_MATCH_def Get_ulong_def apply_options_def)
  then have c: "conditions_hold rtl (Some ps) [with_options kPolClearContext ?v] MatchContext_Clear =
      Some (n = var_number (ps ! unat par))"
    by (simp add: bool_result_def MatchContext_Clear_def)
  have "ps \<noteq> []" using assms(5) by auto
  from rule_evaluates [OF has only this c] show ?thesis by simp
qed

section \<open>Examples\<close>

text \<open>Strings compared character by character, two comparisons and the parameters of a call.\<close>

definition plain_rtl :: rtl_compare where
  "plain_rtl a b ci = (if a = b then 0 else 1)"

definition sample_comparisons :: "comparison list" where
  "sample_comparisons = [StringMatch IF 0 [97, 42, 98] 0, NumberMatch IF_NOT 1 5 EQUAL]"

definition sample_parameters :: "ParameterSet list" where
  "sample_parameters = [param_wchar (Some [97, 120, 98]), param_ulong 7]"

lemma plain_compares: "compares plain_rtl (\<lambda>_ a b. a = b)"
  by (simp add: compares_def plain_rtl_def list.rel_eq)

lemma sample_proper: "\<forall>c \<in> set sample_comparisons. proper c" "conjunctive sample_comparisons"
  by (auto simp: sample_comparisons_def proper_def conjunctive_def conjunct_def has_literal_def)

lemma sample_usable: "\<forall>c \<in> set sample_comparisons. usable sample_parameters c" "sample_parameters \<noteq> []"
  by (auto simp: sample_comparisons_def sample_parameters_def usable_def param_wchar_def param_ulong_def)

lemma sample_holds: "\<forall>c \<in> set sample_comparisons. holds (\<lambda>_ a b. a = b) sample_parameters c"
proof -
  have "glob (=) [Lit 97, Star, Lit 98] [97, 120, 98 :: wchar]"
    by simp (rule bexI [of _ 1], simp_all)
  then show ?thesis
    by (simp add: sample_comparisons_def sample_parameters_def holds_def param_wchar_def param_ulong_def)
qed

lemma sample_views: "\<exists>vs. all_views sample_comparisons = Some vs \<and> costs vs + 26 \<le> 4120"
  by (simp add: sample_comparisons_def comparison_views_def number_view_def plain_view_def cost_def gen_view_def string_view_def)

lemma sample_rule: "\<exists>rule. build_rule ASK_BROKER (replicate 2062 0) sample_comparisons = Some (True, rule)"
  using sample_views rule_fits [of "replicate 2062 0" sample_comparisons _ ASK_BROKER] sample_proper(1) by auto

theorem rule_building_witness:
  "\<exists>rule. build_rule ASK_BROKER (replicate 2062 0) sample_comparisons = Some (True, rule)"
  using rule_building [of "replicate 2062 0" sample_comparisons ASK_BROKER] sample_proper(1) sample_views by auto

theorem rule_decides_witness:
  "\<exists>rule. build_rule ASK_BROKER (replicate 2062 0) sample_comparisons = Some (True, rule) \<and>
    map_option (\<lambda>(r, st). (r, GetAction st))
      (PolicyProcessor_Evaluate plain_rtl (rule_buffer rule) (Some 0) kShortEval (Some sample_parameters) PolicyProcessor_init) =
    Some (POLICY_MATCH, ASK_BROKER)"
proof -
  from sample_rule obtain rule where r: "build_rule ASK_BROKER (replicate 2062 0) sample_comparisons = Some (True, rule)" ..
  have "is_action ASK_BROKER" by (simp add: is_action_def)
  from rule_decides [OF r sample_proper this plain_compares sample_usable] sample_holds r show ?thesis by auto
qed

theorem evaluate_first_match_witness:
  "\<exists>m conds. policy_at m 0 [(conds, ASK_BROKER)] \<and>
    map_option (\<lambda>(r, st). (r, GetAction st))
      (PolicyProcessor_Evaluate plain_rtl m (Some 0) kShortEval (Some sample_parameters) PolicyProcessor_init) =
    Some (POLICY_MATCH, ASK_BROKER)"
proof -
  from sample_rule obtain rule where r: "build_rule ASK_BROKER (replicate 2062 0) sample_comparisons = Some (True, rule)" ..
  have a: "is_action ASK_BROKER" by (simp add: is_action_def)
  from build_rule_views [OF r sample_proper a, of "\<lambda>_ a b. a = b"] obtain conds where
    c: "rule_has rule (rule_views (conds, ASK_BROKER))" "rule_for (\<lambda>_ a b. a = b) ASK_BROKER sample_comparisons conds" by blast
  have p: "policy_at (rule_buffer rule) 0 [(conds, ASK_BROKER)]" by (rule rule_has_policy [OF c(1)])
  have o: "\<forall>r \<in> set [(conds, ASK_BROKER)]. conditions_only r" using c(2) by (simp add: rule_for_def)
  have h: "conditions_hold plain_rtl (Some sample_parameters) conds MatchContext_Clear = Some True"
    using c(2) plain_compares sample_usable(1) sample_holds by (simp add: rule_for_def)
  have k: "kShortEval AND kShortEval \<noteq> (0::nat)" by simp
  show ?thesis using evaluate_first_match [OF p o sample_usable(2) k, of plain_rtl] h p by auto
qed

definition sample_rules :: "rule_spec list" where
  "sample_rules =
     [(3, GIVE_READONLY, replicate 2062 0, [NumberMatch IF 1 9 EQUAL]),
      (3, ASK_BROKER, replicate 2062 0, sample_comparisons)]"

lemma sample_rules_added: "\<exists>p. add_rules sample_rules (LowLevelPolicy_init (empty_store 300)) = Some (True, p)"
proof -
  have n: "\<forall>c \<in> set [NumberMatch IF 1 9 EQUAL]. proper c" by (simp add: proper_def)
  have v: "all_views [NumberMatch IF 1 9 EQUAL] = Some [number_view IF 1 9 EQUAL]" by (simp add: comparison_views_def)
  have c: "costs [number_view IF 1 9 EQUAL] + 26 \<le> 4120" by (simp add: cost_def number_view_def plain_view_def)
  obtain vs where vs: "all_views sample_comparisons = Some vs" "costs vs + 26 \<le> 4120" using sample_views by blast
  have l: "length (replicate 2062 (0 :: 16 word)) = 2062" by simp
  from add_rules_fit [OF l n v c] obtain copy where first: "add_rules sample_rules (LowLevelPolicy_init (empty_store 300)) =
      add_rules [(3, ASK_BROKER, replicate 2062 0, sample_comparisons)]
        ((LowLevelPolicy_init (empty_store 300))\<lparr>llp_rules := llp_rules (LowLevelPolicy_init (empty_store 300)) @ [(copy, 3)]\<rparr>)"
    unfolding sample_rules_def by blast
  show ?thesis unfolding first
    using add_rules_fit [OF l sample_proper(1) vs] by (metis add_rules.simps(1))
qed

lemma sample_rules_ok: "\<forall>r \<in> set sample_rules. spec_ok r" "store_need sample_rules \<le> 2 * 300" "callable 3 sample_parameters sample_rules"
  "decision (\<lambda>_ a b. a = b) 3 sample_parameters sample_rules = ASK_BROKER"
proof -
  show "\<forall>r \<in> set sample_rules. spec_ok r"
    using sample_proper by (auto simp: sample_rules_def spec_ok_def spec_action_def spec_comparisons_def spec_service_def
        is_action_def proper_def conjunctive_def to_uint32_def)
  show "store_need sample_rules \<le> 2 * 300"
    by (simp add: sample_rules_def store_need_def services_def spec_service_def rule_need_def spec_comparisons_def to_uint32_def
        sample_comparisons_def comparison_views_def number_view_def plain_view_def gen_view_def string_view_def string_bytes_def)
  show "callable 3 sample_parameters sample_rules"
    using sample_usable by (auto simp: callable_def sample_rules_def spec_comparisons_def IsValid_def usable_def
        sample_parameters_def param_wchar_def param_ulong_def)
  show "decision (\<lambda>_ a b. a = b) 3 sample_parameters sample_rules = ASK_BROKER"
    using sample_holds by (auto simp: decision_def sample_rules_def spec_service_def spec_comparisons_def spec_action_def to_uint32_def
        holds_def [of _ _ "NumberMatch IF 1 9 EQUAL"] sample_parameters_def param_wchar_def param_ulong_def)
qed

theorem policy_decides_witness:
  "\<exists>p p'. add_rules sample_rules (LowLevelPolicy_init (empty_store 300)) = Some (True, p) \<and>
    LowLevelPolicy_Done p = Some (True, p') \<and>
    EvalPolicy plain_rtl (Some (llp_store p')) 3 sample_parameters = Some ASK_BROKER"
proof -
  from sample_rules_added obtain p where p: "add_rules sample_rules (LowLevelPolicy_init (empty_store 300)) = Some (True, p)" ..
  have "2 * 300 < (2 ^ 32 :: nat)" "3 < (32 :: nat)" by simp_all
  from policy_decides [OF p sample_rules_ok(1,2) this(1) plain_compares sample_rules_ok(3) this(2)] p show ?thesis
    unfolding sample_rules_ok(4) by blast
qed

text \<open>A call with a string where the rule compares a number.\<close>

theorem mistyped_rule_matches_witness:
  "\<exists>rule. build_rule ASK_BROKER (replicate 2062 0) [NumberMatch IF 0 5 EQUAL] = Some (True, rule) \<and>
    map_option (\<lambda>(r, st). (r, GetAction st))
      (PolicyProcessor_Evaluate plain_rtl (rule_buffer rule) (Some 0) kShortEval (Some sample_parameters) PolicyProcessor_init) =
    Some (POLICY_MATCH, ASK_BROKER)"
proof -
  have n: "\<forall>c \<in> set [NumberMatch IF 0 5 EQUAL]. proper c" by (simp add: proper_def)
  have v: "all_views [NumberMatch IF 0 5 EQUAL] = Some [number_view IF 0 5 EQUAL]" by (simp add: comparison_views_def)
  have c: "costs [number_view IF 0 5 EQUAL] + 26 \<le> 4120" by (simp add: cost_def number_view_def plain_view_def)
  have l: "length (replicate 2062 (0 :: 16 word)) = 2062" by simp
  from rule_fits [OF l n v c, of ASK_BROKER] obtain rule where
    r: "build_rule ASK_BROKER (replicate 2062 0) [NumberMatch IF 0 5 EQUAL] = Some (True, rule)" by blast
  have m: "\<forall>c \<in> set [NumberMatch IF 0 5 EQUAL]. mistyped sample_parameters c \<and> proper c"
    by (simp add: mistyped_def proper_def sample_parameters_def param_wchar_def)
  have a: "is_action ASK_BROKER" by (simp add: is_action_def)
  show ?thesis using mistyped_rule_matches [OF r a sample_usable(2) m, of plain_rtl] r by blast
qed

text \<open>A negated pattern with a number comparison that does not hold.\<close>

theorem negated_pattern_ends_rule_witness:
  "\<exists>rule. build_rule ASK_BROKER (replicate 2062 0)
      [StringMatch IF_NOT 0 [97, 42, 98] 0, NumberMatch IF 1 5 EQUAL] = Some (True, rule) \<and>
    map_option (\<lambda>(r, st). (r, GetAction st)) (PolicyProcessor_Evaluate plain_rtl (rule_buffer rule) (Some 0) kShortEval
      (Some [param_wchar (Some [99]), param_ulong 7]) PolicyProcessor_init) = Some (POLICY_MATCH, ASK_BROKER)"
proof -
  let ?cs = "[NumberMatch IF 1 5 EQUAL]" and ?c = "StringMatch IF_NOT 0 [97, 42, 98] 0"
  let ?ps = "[param_wchar (Some [99]), param_ulong 7]"
  have n: "\<forall>c \<in> set ?cs. proper c" "\<forall>c \<in> set (?c # ?cs). proper c" by (auto simp: proper_def has_literal_def)
  have v: "\<exists>vs. all_views (?c # ?cs) = Some vs \<and> costs vs + 26 \<le> 4120"
    by (simp add: comparison_views_def number_view_def plain_view_def cost_def gen_view_def string_view_def)
  have l: "length (replicate 2062 (0 :: 16 word)) = 2062" by simp
  from v rule_fits [OF l n(2), of _ ASK_BROKER] obtain rule where
    r: "build_rule ASK_BROKER (replicate 2062 0) (?c # ?cs) = Some (True, rule)" by blast
  have a: "is_action ASK_BROKER" by (simp add: is_action_def)
  have u: "usable ?ps ?c" "var_chars (?ps ! unat 0) = Some (99 # [])" "\<not> (97 :: wchar) = 99"
    by (simp_all add: usable_def param_wchar_def)
  from negated_pattern_ends_rule [OF r n(1) a plain_compares u] r show ?thesis by blast
qed

theorem asterisk_drops_negation_witness:
  "\<exists>rule. build_rule DENY_ACCESS (replicate 2062 0) [NumberMatch IF_NOT 1 7 EQUAL, StringMatch IF 0 [42] 0] = Some (True, rule) \<and>
    map_option (\<lambda>(r, st). (r, GetAction st))
      (PolicyProcessor_Evaluate plain_rtl (rule_buffer rule) (Some 0) kShortEval (Some sample_parameters) PolicyProcessor_init) =
    Some (POLICY_MATCH, DENY_ACCESS)"
proof -
  from asterisk_run [of "replicate 2062 0" 7 DENY_ACCESS 1 0 0] obtain rule where
    r: "build_rule DENY_ACCESS (replicate 2062 0) [NumberMatch IF_NOT 1 7 EQUAL, StringMatch IF 0 [42] 0] = Some (True, rule)"
    by auto
  have a: "(7 :: nat) < 2 ^ 32" "is_action DENY_ACCESS" "0 \<le> sint (1 :: int16)" "unat (1 :: int16) < length sample_parameters"
    "real_type (sample_parameters ! unat (1 :: int16)) = ULONG_TYPE" "7 = var_number (sample_parameters ! unat (1 :: int16))"
    by (simp_all add: is_action_def sample_parameters_def param_ulong_def)
  from asterisk_drops_negation [OF r a(1-5), of plain_rtl] r a(6) show ?thesis by auto
qed

end
