(* ===== verification/Bytes.thy ===== *)
theory Bytes
  imports Prelude
begin

text \<open>
  Numbers as the bytes that a little-endian machine stores, the lowest first, and arrays of items of a
  fixed size, as files and messages hold them.
\<close>

primrec nat_bytes :: "nat \<Rightarrow> nat \<Rightarrow> byte list" where
  "nat_bytes 0 n = []"
| "nat_bytes (Suc k) n = word_of_nat n # nat_bytes k (n div 256)"

primrec bytes_nat :: "byte list \<Rightarrow> nat" where
  "bytes_nat [] = 0"
| "bytes_nat (b # bs) = unat b + 256 * bytes_nat bs"

lemma length_nat_bytes [simp]: "length (nat_bytes k n) = k"
  by (induction k arbitrary: n) simp_all

lemma bytes_nat_mod: "bytes_nat (nat_bytes k n) = n mod 256 ^ k"
proof (induction k arbitrary: n)
  case (Suc k)
  have "unat (word_of_nat n :: byte) = n mod 256" by (simp add: unsigned_of_nat take_bit_eq_mod)
  then show ?case using Suc [of "n div 256"] by (simp add: mod_mult2_eq [of n 256 "256 ^ k"])
qed simp

lemma bytes_nat_bytes [simp]: "n < 256 ^ k \<Longrightarrow> bytes_nat (nat_bytes k n) = n"
  by (simp add: bytes_nat_mod)

lemma bytes_nat_bound: "bytes_nat bs < 256 ^ length bs"
proof (induction bs)
  case (Cons b bs)
  have "unat b < 256" using unsigned_less [of b] by simp
  then show ?case using Cons by simp
qed simp

text \<open>Splitting bytes into items of one size.\<close>

primrec items :: "nat \<Rightarrow> nat \<Rightarrow> byte list \<Rightarrow> byte list list" where
  "items w 0 bs = []"
| "items w (Suc n) bs = take w bs # items w n (drop w bs)"

lemma length_concat_items: "\<forall>x \<in> set xs. length x = w \<Longrightarrow> length (concat xs) = w * length xs"
  by (induction xs) simp_all

lemma items_concat: "\<forall>x \<in> set xs. length x = w \<Longrightarrow> items w (length xs) (concat xs @ rest) = xs"
  by (induction xs) simp_all

lemma items_concat_exact: "\<forall>x \<in> set xs. length x = w \<Longrightarrow> items w (length xs) (concat xs) = xs"
  using items_concat [of xs w "[]"] by simp

end
