(* ===== verification/PrefixSet.thy ===== *)
theory PrefixSet
  imports Bytes
begin

text \<open>
  The set of prefixes of unsafe URLs (\<open>src/chrome/browser/safe_browsing/prefix_set.cc\<close>): sorted 32-bit
  prefixes are kept as 16-bit differences, with an index of the places where a run of differences
  starts. The theorems show that the structure represents exactly the prefixes it was built from,
  and that a set written to a file is read back.
\<close>

section \<open>The structure\<close>

abbreviation (input) kMaxRun :: nat where "kMaxRun \<equiv> 100"

type_synonym uint16 = "16 word"
type_synonym index = "(int32 \<times> nat) list"

text \<open>The checksum is not initialized for a set that is empty or comes from a file; its value is then
  an argument.\<close>

record prefix_set =
  ps_index :: index
  ps_deltas :: "uint16 list"
  ps_checksum :: uint32

definition index_checksum :: "uint32 \<Rightarrow> index \<Rightarrow> uint32" where
  "index_checksum c index = foldl (\<lambda>c (p, n). c XOR to_uint32 p XOR n) c index"

definition deltas_checksum :: "uint32 \<Rightarrow> uint16 list \<Rightarrow> uint32" where
  "deltas_checksum c deltas = foldl (\<lambda>c d. c XOR unat d) c deltas"

definition CheckChecksum :: "prefix_set \<Rightarrow> bool" where
  "CheckChecksum s \<longleftrightarrow> deltas_checksum (index_checksum 0 (ps_index s)) (ps_deltas s) = ps_checksum s"

text \<open>The loop of the constructor: the prefix before, the length of the run and the checksum.\<close>

fun build_loop ::
  "int32 list \<Rightarrow> int32 \<Rightarrow> nat \<Rightarrow> index \<Rightarrow> uint16 list \<Rightarrow> uint32 \<Rightarrow> (index \<times> uint16 list \<times> uint32) option" where
  "build_loop [] prev_prefix run_length index deltas checksum = Some (index, deltas, checksum)"
| "build_loop (p # ps) prev_prefix run_length index deltas checksum =
     (if p = prev_prefix then build_loop ps prev_prefix run_length index deltas checksum
      else if \<not> p > prev_prefix then None
      else let delta = to_uint32 (p - prev_prefix); delta16 = (word_of_nat delta :: uint16) in
        if delta \<noteq> unat delta16 \<or> run_length \<ge> kMaxRun
        then build_loop ps p 0 (index @ [(p, length deltas)]) deltas (checksum XOR to_uint32 p XOR length deltas)
        else build_loop ps p (run_length + 1) index (deltas @ [delta16]) (checksum XOR unat delta16))"

definition PrefixSet_init :: "int32 list \<Rightarrow> uint32 \<Rightarrow> prefix_set option" where
  "PrefixSet_init sorted_prefixes garbage =
     (case sorted_prefixes of [] \<Rightarrow> Some \<lparr>ps_index = [], ps_deltas = [], ps_checksum = garbage\<rparr>
      | p # ps \<Rightarrow> do {
          (index, deltas, checksum) \<leftarrow> build_loop ps p 0 [(p, 0)] [] (to_uint32 p XOR 0);
          let s = \<lparr>ps_index = index, ps_deltas = deltas, ps_checksum = checksum\<rparr>;
          guard (CheckChecksum s);
          Some s
        })"

text \<open>\<open>std::upper_bound\<close>: the number of entries of the index before the first that is greater.\<close>

definition upper_bound :: "index \<Rightarrow> int32 \<Rightarrow> nat" where
  "upper_bound index pfx = length (takeWhile (\<lambda>e. \<not> pfx < fst e) index)"

function exists_scan :: "uint16 list \<Rightarrow> int32 \<Rightarrow> nat \<Rightarrow> nat \<Rightarrow> int32 \<Rightarrow> int32 option" where
  "exists_scan deltas pfx bound di current =
     (if di < bound \<and> current < pfx
      then if di < length deltas
        then exists_scan deltas pfx bound (di + 1) (to_int32 (to_uint32 (current + int (unat (deltas ! di)))))
        else None
      else Some current)"
  by pat_completeness auto

termination
  by (relation "measure (\<lambda>(_, _, bound, di, _). bound - di)") auto

declare exists_scan.simps [simp del]

definition Exists :: "prefix_set \<Rightarrow> int32 \<Rightarrow> bool option" where
  "Exists s pfx =
     (if ps_index s = [] then Some False
      else let k = upper_bound (ps_index s) pfx in
        if k = 0 then Some False
        else do {
          let bound = (if k = length (ps_index s) then length (ps_deltas s) else snd (ps_index s ! k));
          let (current, di) = ps_index s ! (k - 1);
          if current = pfx then Some True
          else do {
            current \<leftarrow> exists_scan (ps_deltas s) pfx bound di current;
            Some (current = pfx)
          }
        })"

primrec run_prefixes :: "int32 \<Rightarrow> uint16 list \<Rightarrow> int32 list" where
  "run_prefixes current [] = []"
| "run_prefixes current (d # ds) =
     (let current = to_int32 (to_uint32 (current + int (unat d))) in current # run_prefixes current ds)"

fun get_prefixes :: "uint16 list \<Rightarrow> index \<Rightarrow> int32 list option" where
  "get_prefixes deltas [] = Some []"
| "get_prefixes deltas ((p, start) # rest) = do {
     let deltas_end = (case rest of [] \<Rightarrow> length deltas | e # _ \<Rightarrow> snd e);
     guard (start < deltas_end \<longrightarrow> deltas_end \<le> length deltas);
     ps \<leftarrow> get_prefixes deltas rest;
     Some (p # run_prefixes p (take (deltas_end - start) (drop start deltas)) @ ps)
   }"

definition GetPrefixes :: "prefix_set \<Rightarrow> int32 list option" where
  "GetPrefixes s = get_prefixes (ps_deltas s) (ps_index s)"

section \<open>Access by position\<close>

function index_bin :: "index \<Rightarrow> nat \<Rightarrow> nat \<Rightarrow> nat \<Rightarrow> nat option" where
  "index_bin index target lo hi =
     (if hi - lo > 1 then
        let i = (lo + hi) div 2 in
        if \<not> i < length index then None
        else if target < i + snd (index ! i) then index_bin index target lo i
        else index_bin index target i hi
      else Some lo)"
  by pat_completeness auto

termination
  by (relation "measure (\<lambda>(_, _, lo, hi). hi - lo)") auto

declare index_bin.simps [simp del]

definition IndexBinFor :: "prefix_set \<Rightarrow> nat \<Rightarrow> nat option" where
  "IndexBinFor s target_index = index_bin (ps_index s) target_index 0 (length (ps_index s))"

definition GetSize :: "prefix_set \<Rightarrow> nat" where
  "GetSize s = length (ps_index s) + length (ps_deltas s)"

definition IsDeltaAt :: "prefix_set \<Rightarrow> nat \<Rightarrow> bool option" where
  "IsDeltaAt s target_index = do {
     guard (target_index < GetSize s);
     i \<leftarrow> IndexBinFor s target_index;
     guard (i < length (ps_index s));
     Some (target_index > i + snd (ps_index s ! i))
   }"

definition DeltaAt :: "prefix_set \<Rightarrow> nat \<Rightarrow> uint16 option" where
  "DeltaAt s target_index = do {
     guard (target_index < GetSize s);
     i \<leftarrow> IndexBinFor s target_index;
     guard (i < length (ps_index s));
     guard (target_index > i + snd (ps_index s ! i));
     guard (target_index - i - 1 < length (ps_deltas s));
     Some (ps_deltas s ! (target_index - i - 1))
   }"

section \<open>Files\<close>

text \<open>
  The contents of a file: the header of four numbers, the index, the differences and the digest. The
  digest \<open>md5\<close> of 16 bytes is an argument. The file system is not modelled; files are read and written whole.
\<close>

abbreviation (input) kMagic :: uint32 where "kMagic \<equiv> 0x864088dd"
abbreviation (input) kVersion :: uint32 where "kVersion \<equiv> 1"

definition header_bytes :: "uint32 \<Rightarrow> uint32 \<Rightarrow> byte list" where
  "header_bytes index_size deltas_size =
     nat_bytes 4 kMagic @ nat_bytes 4 kVersion @ nat_bytes 4 index_size @ nat_bytes 4 deltas_size"

definition index_entry_bytes :: "int32 \<times> nat \<Rightarrow> byte list" where
  "index_entry_bytes e = nat_bytes 4 (to_uint32 (fst e)) @ nat_bytes 4 (snd e)"

definition bytes_index_entry :: "byte list \<Rightarrow> int32 \<times> nat" where
  "bytes_index_entry bs = (to_int32 (bytes_nat (take 4 bs)), bytes_nat (drop 4 bs))"

definition delta_bytes :: "uint16 \<Rightarrow> byte list" where
  "delta_bytes d = nat_bytes 2 (unat d)"

definition bytes_delta :: "byte list \<Rightarrow> uint16" where
  "bytes_delta bs = word_of_nat (bytes_nat bs)"

definition WriteFile :: "(byte list \<Rightarrow> byte list) \<Rightarrow> prefix_set \<Rightarrow> byte list option" where
  "WriteFile md5 s = do {
     guard (length (ps_index s) < 2 ^ 32 \<and> length (ps_deltas s) < 2 ^ 32);
     let bytes = header_bytes (length (ps_index s)) (length (ps_deltas s)) @
       concat (map index_entry_bytes (ps_index s)) @ concat (map delta_bytes (ps_deltas s));
     Some (bytes @ md5 bytes)
   }"

text \<open>The sizes are computed as \<open>size_t\<close>; reading past the end of the file answers the null pointer.\<close>

definition LoadFile :: "(byte list \<Rightarrow> byte list) \<Rightarrow> byte list \<Rightarrow> uint32 \<Rightarrow> prefix_set option" where
  "LoadFile md5 file garbage =
     (if length file < 16 + 16 then None
      else let magic = bytes_nat (take 4 file); version = bytes_nat (take 4 (drop 4 file));
          index_size = bytes_nat (take 4 (drop 8 file)); deltas_size = bytes_nat (take 4 (drop 12 file))
        in if magic \<noteq> kMagic \<or> version \<noteq> kVersion then None
        else let index_bytes = 8 * index_size mod 2 ^ 32; deltas_bytes = 2 * deltas_size mod 2 ^ 32;
            expected_bytes = (16 + index_bytes + deltas_bytes + 16) mod 2 ^ 32
          in if expected_bytes \<noteq> length file then None
          else if 16 + 8 * index_size > length file then None
          else if 16 + 8 * index_size + 2 * deltas_size > length file then None
          else let body = 16 + 8 * index_size + 2 * deltas_size in
            if body + 16 > length file then None
            else if md5 (take body file) \<noteq> take 16 (drop body file) then None
            else Some
              \<lparr>ps_index = map bytes_index_entry (items 8 index_size (drop 16 file)),
               ps_deltas = map bytes_delta (items 2 deltas_size (drop (16 + 8 * index_size) file)),
               ps_checksum = garbage\<rparr>)"

section \<open>Runs\<close>

text \<open>
  The abstract structure: a list of runs, each a prefix and the differences that follow it. \<open>flat\<close> is
  the list of prefixes, \<open>index_of\<close> the index.
\<close>

type_synonym run = "int32 \<times> uint16 list"

definition run_all :: "run \<Rightarrow> int32 list" where
  "run_all r = fst r # run_prefixes (fst r) (snd r)"

definition flat :: "run list \<Rightarrow> int32 list" where
  "flat rs = concat (map run_all rs)"

fun index_of :: "nat \<Rightarrow> run list \<Rightarrow> index" where
  "index_of k [] = []"
| "index_of k (r # rs) = (fst r, k) # index_of (k + length (snd r)) rs"

definition deltas_of :: "run list \<Rightarrow> uint16 list" where
  "deltas_of rs = concat (map snd rs)"

lemma flat_simps [simp]: "flat [] = []" "flat (r # rs) = run_all r @ flat rs" "flat (rs @ ss) = flat rs @ flat ss"
  by (simp_all add: flat_def)

lemma deltas_of_simps [simp]:
  "deltas_of [] = []" "deltas_of (r # rs) = snd r @ deltas_of rs" "deltas_of (rs @ ss) = deltas_of rs @ deltas_of ss"
  by (simp_all add: deltas_of_def)

lemma index_of_append: "index_of k (rs @ ss) = index_of k rs @ index_of (k + length (deltas_of rs)) ss"
  by (induction rs arbitrary: k) (simp_all add: add.assoc)

lemma length_index_of [simp]: "length (index_of k rs) = length rs"
  by (induction rs arbitrary: k) simp_all

lemma map_fst_index_of: "map fst (index_of k rs) = map fst rs"
  by (induction rs arbitrary: k) simp_all

definition int32_range :: "int32 \<Rightarrow> bool" where
  "int32_range i \<longleftrightarrow> - (2 ^ 31) \<le> i \<and> i < 2 ^ 31"

lemma to_int32_range [simp]: "int32_range i \<Longrightarrow> to_int32 (to_uint32 i) = i"
  by (simp add: int32_range_def to_int32_to_uint32)

lemma run_prefixes_snoc:
  "run_prefixes p (ds @ [d]) = run_prefixes p ds @ [to_int32 (to_uint32 (last (p # run_prefixes p ds) + int (unat d)))]"
  by (induction ds arbitrary: p) (simp_all add: Let_def)

lemma last_run_all_snoc:
  "last (run_all (p, ds @ [d])) = to_int32 (to_uint32 (last (run_all (p, ds)) + int (unat d)))"
  by (simp add: run_all_def run_prefixes_snoc)

section \<open>Building\<close>

lemma difference_fits:
  assumes "int32_range p" "int32_range q" "p < q" "to_uint32 (q - p) = unat (word_of_nat (to_uint32 (q - p)) :: uint16)"
  shows "to_int32 (to_uint32 (p + int (unat (word_of_nat (to_uint32 (q - p)) :: uint16)))) = q"
proof -
  have "int (to_uint32 (q - p)) = q - p"
    using assms(1-3) by (simp add: to_uint32_def int32_range_def)
  then have "p + int (unat (word_of_nat (to_uint32 (q - p)) :: uint16)) = q" using assms(4) by simp
  then show ?thesis using assms(2) by simp
qed

lemma foldl_xor_shift:
  fixes f :: "'a \<Rightarrow> nat"
  shows "foldl (\<lambda>c x. c XOR f x) (c XOR k) xs = foldl (\<lambda>c x. c XOR f x) c xs XOR k"
proof (induction xs arbitrary: c)
  case (Cons x xs)
  have "(c XOR k) XOR f x = (c XOR f x) XOR k" by (simp only: xor.assoc xor.commute [of k])
  then show ?case using Cons [of "c XOR f x"] by simp
qed simp

lemma index_checksum_snoc: "index_checksum c (index @ [(p, n)]) = index_checksum c index XOR to_uint32 p XOR n"
  by (simp add: index_checksum_def)

lemma deltas_checksum_snoc: "deltas_checksum c (deltas @ [d]) = deltas_checksum c deltas XOR unat d"
  by (simp add: deltas_checksum_def)

lemma deltas_checksum_shift: "deltas_checksum (c XOR k) deltas = deltas_checksum c deltas XOR k"
  unfolding deltas_checksum_def by (rule foldl_xor_shift)

definition total_checksum :: "index \<Rightarrow> uint16 list \<Rightarrow> uint32" where
  "total_checksum index deltas = deltas_checksum (index_checksum 0 index) deltas"

lemma total_checksum_index:
  "total_checksum (index @ [(p, n)]) deltas = total_checksum index deltas XOR to_uint32 p XOR n"
  by (simp add: total_checksum_def index_checksum_snoc deltas_checksum_shift)

lemma total_checksum_deltas: "total_checksum index (deltas @ [d]) = total_checksum index deltas XOR unat d"
  by (simp add: total_checksum_def deltas_checksum_snoc)

lemma build_loop_runs:
  assumes "sorted (prev # ps)" "\<forall>p \<in> set (prev # ps). int32_range p" "last (run_all r) = prev"
  shows "\<exists>rs' index deltas. build_loop ps prev n (index_of 0 (rs @ [r])) (deltas_of (rs @ [r]))
      (total_checksum (index_of 0 (rs @ [r])) (deltas_of (rs @ [r]))) =
      Some (index, deltas, total_checksum index deltas) \<and>
    rs' \<noteq> [] \<and> index = index_of 0 rs' \<and> deltas = deltas_of rs' \<and>
    flat rs' = flat (rs @ [r]) @ tl (remdups_adj (prev # ps))"
  using assms
proof (induction ps arbitrary: prev n rs r)
  case Nil
  then show ?case by auto
next
  case (Cons p ps)
  show ?case
  proof (cases "p = prev")
    case True
    then show ?thesis using Cons.IH [of prev r n rs] Cons.prems by simp
  next
    case False
    then have less: "prev < p" using Cons.prems(1) by simp
    have sorted: "sorted (p # ps)" "\<forall>q \<in> set (p # ps). int32_range q" using Cons.prems(1,2) by simp_all
    have dups: "tl (remdups_adj (prev # p # ps)) = p # tl (remdups_adj (p # ps))"
      using False by (cases "remdups_adj (p # ps)") (auto simp: remdups_adj_Cons' split: list.splits)
    let ?d = "to_uint32 (p - prev)" and ?w = "word_of_nat (to_uint32 (p - prev)) :: uint16"
    let ?index = "index_of 0 (rs @ [r])" and ?deltas = "deltas_of (rs @ [r])"
    show ?thesis
    proof (cases "?d \<noteq> unat ?w \<or> n \<ge> kMaxRun")
      case True
      have i: "?index @ [(p, length ?deltas)] = index_of 0 ((rs @ [r]) @ [(p, [])])"
        "?deltas = deltas_of ((rs @ [r]) @ [(p, [])])" by (simp_all only: index_of_append) simp_all
      have l: "last (run_all (p, [])) = p" by (simp add: run_all_def)
      have c: "total_checksum ?index ?deltas XOR to_uint32 p XOR length ?deltas =
          total_checksum (?index @ [(p, length ?deltas)]) ?deltas" by (simp add: total_checksum_index)
      have "build_loop (p # ps) prev n ?index ?deltas (total_checksum ?index ?deltas) =
          build_loop ps p 0 (?index @ [(p, length ?deltas)]) ?deltas
            (total_checksum (?index @ [(p, length ?deltas)]) ?deltas)"
        using True less c by (simp add: Let_def)
      also have "\<dots> = build_loop ps p 0 (index_of 0 ((rs @ [r]) @ [(p, [])])) (deltas_of ((rs @ [r]) @ [(p, [])]))
          (total_checksum (index_of 0 ((rs @ [r]) @ [(p, [])])) (deltas_of ((rs @ [r]) @ [(p, [])])))"
        by (simp only: i(1)) (simp only: i(2) [symmetric])
      finally show ?thesis
        using Cons.IH [OF sorted l, of 0 "rs @ [r]"] dups by (simp add: run_all_def)
    next
      case False
      obtain q ds where r: "r = (q, ds)" by (cases r)
      let ?r = "(q, ds @ [?w])"
      have i: "?index = index_of 0 (rs @ [?r])" "?deltas @ [?w] = deltas_of (rs @ [?r])"
        by (simp_all add: r index_of_append)
      have fits: "to_int32 (to_uint32 (prev + int (unat ?w))) = p"
        using False less sorted(2) Cons.prems(2) by (intro difference_fits) auto
      then have l: "last (run_all ?r) = p" using Cons.prems(3) by (simp add: r last_run_all_snoc)
      have f: "flat (rs @ [?r]) = flat (rs @ [r]) @ [p]"
        using fits Cons.prems(3) by (simp add: r run_all_def run_prefixes_snoc)
      have "build_loop (p # ps) prev n ?index ?deltas (total_checksum ?index ?deltas) =
          build_loop ps p (n + 1) ?index (?deltas @ [?w]) (total_checksum ?index (?deltas @ [?w]))"
        unfolding total_checksum_deltas using False less by (simp add: Let_def)
      then show ?thesis using Cons.IH [OF sorted l, of "n + 1" rs] dups f unfolding i by simp
    qed
  qed
qed

section \<open>Membership\<close>

lemma build_represents:
  assumes "sorted ps" "\<forall>p \<in> set ps. int32_range p"
  shows "\<exists>s rs. PrefixSet_init ps garbage = Some s \<and> ps_index s = index_of 0 rs \<and> ps_deltas s = deltas_of rs \<and>
    flat rs = remdups_adj ps"
proof (cases ps)
  case Nil
  then show ?thesis by (auto simp: PrefixSet_init_def intro: exI [of _ "[]"])
next
  case (Cons p qs)
  have l: "last (run_all (p, [])) = p" by (simp add: run_all_def)
  have c: "to_uint32 p XOR 0 = total_checksum (index_of 0 ([] @ [(p, [])])) (deltas_of ([] @ [(p, [])]))"
    by (simp add: total_checksum_def index_checksum_def deltas_checksum_def)
  have tl: "p # tl (remdups_adj (p # qs)) = remdups_adj (p # qs)"
    by (metis hd_remdups_adj list.collapse list.distinct(1) list.sel(1) remdups_adj_Nil_iff)
  from build_loop_runs [of p qs "(p, [])" 0 "[]", OF _ _ l] assms obtain rs where
    "build_loop qs p 0 (index_of 0 ([] @ [(p, [])])) (deltas_of ([] @ [(p, [])])) (to_uint32 p XOR 0) =
      Some (index_of 0 rs, deltas_of rs, total_checksum (index_of 0 rs) (deltas_of rs))"
    "flat rs = flat ([] @ [(p, [])]) @ tl (remdups_adj (p # qs))"
    unfolding c Cons by blast
  moreover have "flat ([] @ [(p, [])]) = [p]" by (simp add: run_all_def)
  ultimately show ?thesis using tl
    by (intro exI conjI) (auto simp: PrefixSet_init_def Cons CheckChecksum_def total_checksum_def Let_def)
qed

text \<open>Scanning a run whose prefixes increase.\<close>

lemma exists_scan_run:
  assumes "sorted_wrt (<) (run_all (p, ds))" "\<forall>q \<in> set (run_all (p, ds)). int32_range q"
    "drop di deltas = ds @ rest" "bound = di + length ds" "di \<le> length deltas"
  shows "\<exists>current. exists_scan deltas target bound di p = Some current \<and>
    (current = target \<longleftrightarrow> target \<in> set (run_all (p, ds)))"
  using assms
proof (induction ds arbitrary: p di)
  case Nil
  then show ?case by (auto simp: exists_scan.simps [of _ _ _ di] run_all_def)
next
  case (Cons d ds)
  let ?q = "to_int32 (to_uint32 (p + int (unat d)))"
  have run: "run_all (p, d # ds) = p # run_all (?q, ds)" by (simp add: run_all_def Let_def)
  have less: "\<forall>q \<in> set (run_all (?q, ds)). p < q" using Cons.prems(1) unfolding run by simp
  have nth: "di < length deltas" "deltas ! di = d" "drop (Suc di) deltas = ds @ rest"
  proof -
    show "di < length deltas" using Cons.prems(3,5) by (cases "di = length deltas") auto
    then have "drop di deltas = deltas ! di # drop (Suc di) deltas" by (rule Cons_nth_drop_Suc [symmetric])
    then show "deltas ! di = d" "drop (Suc di) deltas = ds @ rest" using Cons.prems(3) by simp_all
  qed
  have IH: "\<exists>current. exists_scan deltas target bound (Suc di) ?q = Some current \<and>
      (current = target \<longleftrightarrow> target \<in> set (run_all (?q, ds)))"
    by (rule Cons.IH) (use Cons.prems nth in \<open>simp_all add: run del: run_prefixes.simps\<close>)
  show ?case
  proof (cases "p < target")
    case True
    then have "exists_scan deltas target bound di p = exists_scan deltas target bound (Suc di) ?q"
      using Cons.prems(4) nth by (subst exists_scan.simps) simp
    then show ?thesis using IH True unfolding run by auto
  next
    case False
    then have "exists_scan deltas target bound di p = Some p" by (subst exists_scan.simps) simp
    then show ?thesis using less False unfolding run by fastforce
  qed
qed

lemma upper_bound_index_of: "upper_bound (index_of k rs) target = length (takeWhile (\<lambda>r. fst r \<le> target) rs)"
proof -
  have "length (takeWhile (\<lambda>e. \<not> target < fst e) (index_of k rs)) = length (takeWhile (\<lambda>r. fst r \<le> target) rs)"
    by (induction rs arbitrary: k) auto
  then show ?thesis by (simp add: upper_bound_def)
qed

lemma Exists_flat:
  assumes "ps_index s = index_of 0 rs" "ps_deltas s = deltas_of rs" "sorted_wrt (<) (flat rs)"
    "\<forall>p \<in> set (flat rs). int32_range p"
  shows "Exists s target = Some (target \<in> set (flat rs))"
proof -
  define before after where "before = takeWhile (\<lambda>r. fst r \<le> target) rs" and "after = dropWhile (\<lambda>r. fst r \<le> target) rs"
  have rs: "rs = before @ after" by (simp add: before_def after_def)
  have later: "target \<notin> set (flat after)"
  proof (cases after)
    case (Cons r rest)
    then have "target < fst r" using hd_dropWhile [of "\<lambda>r. fst r \<le> target" rs] unfolding after_def by fastforce
    moreover have "\<forall>p \<in> set (flat after). fst r \<le> p"
      using assms(3) unfolding rs Cons by (auto simp: sorted_wrt_append run_all_def less_imp_le)
    ultimately show ?thesis by fastforce
  qed simp
  have k: "upper_bound (index_of 0 rs) target = length before" by (simp add: upper_bound_index_of before_def)
  show ?thesis
  proof (cases before rule: rev_cases)
    case Nil
    have "upper_bound (ps_index s) target = 0" unfolding assms(1) k Nil by simp
    moreover have "target \<notin> set (flat rs)" using later unfolding rs Nil by simp
    ultimately show ?thesis by (simp add: Exists_def)
  next
    case (snoc front r)
    obtain p ds where r: "r = (p, ds)" by (cases r)
    have le: "p \<le> target"
    proof -
      have "r \<in> set before" by (simp add: snoc)
      then show ?thesis unfolding before_def by (auto simp: r dest: set_takeWhileD)
    qed
    have earlier: "target \<notin> set (flat front)"
      using assms(3) le unfolding rs snoc by (auto simp: sorted_wrt_append run_all_def r)
    have run: "sorted_wrt (<) (run_all (p, ds))" "\<forall>q \<in> set (run_all (p, ds)). int32_range q"
      using assms(3,4) unfolding rs snoc r by (simp_all add: sorted_wrt_append)
    let ?di = "length (deltas_of front)"
    have entry: "index_of 0 rs ! (length before - 1) = (p, ?di)"
      unfolding rs snoc r index_of_append by (simp add: nth_append)
    have bound: "(if length before = length rs then length (deltas_of rs) else snd (index_of 0 rs ! length before)) =
        ?di + length ds"
      unfolding rs snoc r index_of_append by (cases after) (simp_all add: nth_append)
    have "drop ?di (deltas_of rs) = ds @ deltas_of after" unfolding rs snoc r by simp
    from exists_scan_run [OF run this refl, of target] obtain current where
      c: "exists_scan (deltas_of rs) target (?di + length ds) ?di p = Some current"
      "current = target \<longleftrightarrow> target \<in> set (run_all (p, ds))" unfolding rs snoc r by auto
    have mem: "target \<in> set (flat rs) \<longleftrightarrow> target \<in> set (run_all (p, ds))"
      using earlier later unfolding rs snoc r by simp
    have ne: "index_of 0 rs \<noteq> []" "length before \<noteq> 0" unfolding rs snoc by (cases front; simp)+
    show ?thesis unfolding Exists_def assms(1,2) k length_index_of Let_def bound entry prod.case mem
      using ne c by (simp add: run_all_def)
  qed
qed

section \<open>Listing\<close>

lemma get_prefixes_flat:
  assumes "drop k deltas = deltas_of rs" "k \<le> length deltas"
  shows "get_prefixes deltas (index_of k rs) = Some (flat rs)"
  using assms
proof (induction rs arbitrary: k)
  case (Cons r rs)
  have d: "drop k deltas = snd r @ deltas_of rs" using Cons.prems(1) by simp
  have len: "length deltas = k + length (snd r) + length (deltas_of rs)"
    using arg_cong [OF d, of length] Cons.prems(2) by simp
  have dr: "drop (k + length (snd r)) deltas = deltas_of rs"
    using arg_cong [OF d, of "drop (length (snd r))"] by (simp add: add.commute)
  have IH: "get_prefixes deltas (index_of (k + length (snd r)) rs) = Some (flat rs)"
    by (rule Cons.IH [OF dr]) (simp add: len)
  have e: "(case index_of (k + length (snd r)) rs of [] \<Rightarrow> length deltas | e # _ \<Rightarrow> snd e) = k + length (snd r)"
    using len by (cases rs) simp_all
  show ?case using IH d len unfolding index_of.simps get_prefixes.simps e Let_def
    by (simp add: run_all_def)
qed simp

section \<open>Positions\<close>

text \<open>The position of the first prefix of a run among all prefixes.\<close>

definition run_position :: "run list \<Rightarrow> nat \<Rightarrow> nat" where
  "run_position rs i = i + length (deltas_of (take i rs))"

lemma nth_index_of: "i < length rs \<Longrightarrow> index_of 0 rs ! i = (fst (rs ! i), length (deltas_of (take i rs)))"
proof -
  assume "i < length rs"
  then have "rs = take i rs @ rs ! i # drop (Suc i) rs" by (rule id_take_nth_drop)
  then have "index_of 0 rs = index_of 0 (take i rs) @ index_of (length (deltas_of (take i rs))) (rs ! i # drop (Suc i) rs)"
    by (metis add_0 index_of_append)
  moreover have "length (index_of 0 (take i rs)) = i" using \<open>i < length rs\<close> by simp
  ultimately show ?thesis by (simp add: nth_append)
qed

lemma run_position_mono:
  assumes "i < j" "j \<le> length rs"
  shows "run_position rs i + length (snd (rs ! i)) < run_position rs j"
proof -
  have "take j rs = take i rs @ rs ! i # drop (Suc i) (take j rs)"
    using id_take_nth_drop [of i "take j rs"] assms by (simp add: min_def)
  from arg_cong [OF this, of "\<lambda>x. length (deltas_of x)"]
  have "length (deltas_of (take j rs)) \<ge> length (deltas_of (take i rs)) + length (snd (rs ! i))"
    by (simp del: take_drop drop_take)
  then show ?thesis using assms(1) by (simp add: run_position_def)
qed

lemma index_bin_run:
  assumes "lo < hi" "hi \<le> length rs" "run_position rs lo \<le> target" "hi = length rs \<or> target < run_position rs hi"
  shows "\<exists>i. index_bin (index_of 0 rs) target lo hi = Some i \<and> i < length rs \<and> run_position rs i \<le> target \<and>
    (i + 1 = length rs \<or> target < run_position rs (i + 1))"
  using assms
proof (induction "index_of 0 rs" target lo hi rule: index_bin.induct)
  case (1 target lo hi)
  let ?i = "(lo + hi) div 2"
  show ?case
  proof (cases "hi - lo > 1")
    case True
    have i: "?i < length rs" "lo < ?i" "?i < hi" using True 1(4) by auto
    have p: "?i + snd (index_of 0 rs ! ?i) = run_position rs ?i" using i(1) by (simp add: nth_index_of run_position_def)
    have step: "index_bin (index_of 0 rs) target lo hi =
      (if target < run_position rs ?i then index_bin (index_of 0 rs) target lo ?i else index_bin (index_of 0 rs) target ?i hi)"
      using True i p by (subst index_bin.simps) (simp add: Let_def)
    have c: "\<not> \<not> ?i < length (index_of 0 rs)" using i(1) by simp
    show ?thesis
    proof (cases "target < run_position rs ?i")
      case less: True
      then have "target < ?i + snd (index_of 0 rs ! ?i)" using p by simp
      from 1(1) [OF True refl c this i(2) _ 1(5) disjI2 [OF less]] i(1) show ?thesis
        unfolding step using less by simp
    next
      case False
      then have n: "\<not> target < ?i + snd (index_of 0 rs ! ?i)" using p by simp
      from 1(2) [OF True refl c n i(3) 1(4) _ 1(6)] False show ?thesis unfolding step by simp
    qed
  next
    case False
    then have "hi = lo + 1" using 1(3) by simp
    then show ?thesis using 1(3-6) by (subst index_bin.simps) auto
  qed
qed

lemma split_at: "i < length xs \<Longrightarrow> \<exists>pre x post. xs = pre @ x # post \<and> length pre = i \<and> take i xs = pre \<and> x = xs ! i"
  by (metis id_take_nth_drop length_take min.absorb4)

lemma length_flat: "length (flat rs) = length rs + length (deltas_of rs)"
proof -
  have "length (run_prefixes p ds) = length ds" for p ds by (induction ds arbitrary: p) (simp_all add: Let_def)
  then show ?thesis by (induction rs) (simp_all add: run_all_def)
qed

lemma run_all_step:
  "j < length ds \<Longrightarrow> run_all (p, ds) ! Suc j = to_int32 (to_uint32 (run_all (p, ds) ! j + int (unat (ds ! j))))"
proof (induction ds arbitrary: p j)
  case (Cons d ds)
  have "run_all (p, d # ds) = p # run_all (to_int32 (to_uint32 (p + int (unat d))), ds)"
    by (simp add: run_all_def Let_def)
  then show ?case using Cons by (cases j) (simp_all add: run_all_def)
qed simp

lemma length_run_all [simp]: "length (run_all (p, ds)) = Suc (length ds)"
  using length_flat [of "[(p, ds)]"] by simp

lemma flat_nth:
  assumes "rs = pre @ (p, ds) # post" "j \<le> length ds"
  shows "flat rs ! (length pre + length (deltas_of pre) + j) = run_all (p, ds) ! j"
  unfolding assms(1) using assms(2) length_flat [of pre] by (simp add: nth_append)

lemma positions_spec:
  assumes "ps_index s = index_of 0 rs" "ps_deltas s = deltas_of rs" "target < length (flat rs)"
  shows "\<exists>b. IsDeltaAt s target = Some b \<and> (b \<longrightarrow> (\<exists>d. DeltaAt s target = Some d \<and> 0 < target \<and>
    flat rs ! target = to_int32 (to_uint32 (flat rs ! (target - 1) + int (unat d)))))"
proof -
  have sz: "target < GetSize s" using assms(3) by (simp add: GetSize_def assms(1,2) length_flat)
  have ne: "0 < length rs" using assms(3) by (cases rs) simp_all
  have z: "run_position rs 0 \<le> target" by (simp add: run_position_def)
  from index_bin_run [OF ne order_refl z] obtain i where
    i: "IndexBinFor s target = Some i" "i < length rs" "run_position rs i \<le> target"
      "i + 1 = length rs \<or> target < run_position rs (i + 1)"
    by (auto simp: IndexBinFor_def assms(1))
  obtain pre p ds post where rs: "rs = pre @ (p, ds) # post" "length pre = i" "take i rs = pre" "(p, ds) = rs ! i"
    using split_at [OF i(2)] by (metis surj_pair)
  have entry: "ps_index s ! i = (p, length (deltas_of pre))"
    unfolding assms(1) nth_index_of [OF i(2)] rs(3) using rs(4) by (metis fst_conv)
  define j where "j = target - run_position rs i"
  have target: "target = length pre + length (deltas_of pre) + j"
    using i(3) rs(2,3) by (simp add: j_def run_position_def)
  have nxt: "run_position rs (i + 1) = length pre + length (deltas_of pre) + 1 + length ds"
    using rs(2) by (simp add: run_position_def rs(1))
  have "post = [] \<Longrightarrow> length (flat rs) = length pre + length (deltas_of pre) + 1 + length ds"
    by (simp add: length_flat rs(1))
  moreover have "i + 1 = length rs \<Longrightarrow> post = []" using rs(1,2) by simp
  ultimately have j: "j \<le> length ds" using i(4) assms(3) nxt target by auto
  have b: "IsDeltaAt s target = Some (0 < j)"
    using sz i(1,2) entry target rs(2) by (simp add: IsDeltaAt_def assms(1))
  show ?thesis
  proof (cases j)
    case 0
    then show ?thesis using b by (intro exI [of _ False]) simp
  next
    case (Suc l)
    have d: "target - i - 1 = length (deltas_of pre) + l" using target rs(2) Suc by simp
    have "DeltaAt s target = Some (deltas_of rs ! (target - i - 1))"
      using sz i(1,2) entry target rs(1,2) Suc j by (simp add: DeltaAt_def assms(1,2))
    also have "deltas_of rs ! (target - i - 1) = ds ! l"
      unfolding d rs(1) using Suc j by (simp add: nth_append)
    finally have "DeltaAt s target = Some (ds ! l)" .
    moreover have "flat rs ! target = run_all (p, ds) ! Suc l"
      unfolding target Suc using flat_nth [OF rs(1), of "Suc l"] j Suc by simp
    moreover have "flat rs ! (target - 1) = run_all (p, ds) ! l"
      using flat_nth [OF rs(1), of l] j Suc target by simp
    ultimately show ?thesis using b run_all_step [of l ds p] j Suc target by auto
  qed
qed

section \<open>Properties\<close>

lemma strict_remdups_adj: "sorted xs \<Longrightarrow> sorted_wrt (<) (remdups_adj (xs :: int list))"
proof (induction xs rule: remdups_adj.induct)
  case (3 x y xs)
  then show ?case by (cases "x = y") (auto simp: dest: order.strict_trans2 le_neq_trans)
qed simp_all

lemma exact_step:
  assumes "int32_range a" "a < to_int32 (to_uint32 (a + int (unat (d :: uint16))))"
  shows "to_int32 (to_uint32 (a + int (unat d))) = a + int (unat d)"
proof -
  obtain n where n: "unat d = n" "n < 2 ^ 16" using unsigned_less [of d] by simp
  show ?thesis
  proof (cases "a + int n < 2 ^ 31")
    case True
    then have "int32_range (a + int n)" using assms(1) by (simp add: int32_range_def)
    then show ?thesis unfolding n(1) by (rule to_int32_range)
  next
    case False
    then have "(a + int n) mod 2 ^ 32 = a + int n"
      using n(2) assms(1) by (intro mod_pos_pos_trivial) (simp_all add: int32_range_def)
    then have "to_int32 (to_uint32 (a + int n)) = a + int n - 2 ^ 32"
      using False assms(1) by (simp add: to_int32_def to_uint32_def int32_range_def Let_def)
    then show ?thesis using assms(2) n by simp
  qed
qed

text \<open>
  C7 (functional): the set represents exactly the prefixes it was built from. For every sorted list of
  prefixes, with or without duplicates, the constructor succeeds, \<open>Exists\<close> answers whether a
  prefix is among them, and \<open>GetPrefixes\<close> lists them without duplicates.
\<close>

theorem prefix_set_represents:
  assumes "sorted ps" "\<forall>p \<in> set ps. int32_range p"
  shows "\<exists>s. PrefixSet_init ps garbage = Some s \<and> (\<forall>p. Exists s p = Some (p \<in> set ps)) \<and>
    GetPrefixes s = Some (remdups_adj ps) \<and> GetSize s = card (set ps)"
proof -
  from build_represents [OF assms] obtain s rs where s: "PrefixSet_init ps garbage = Some s"
    "ps_index s = index_of 0 rs" "ps_deltas s = deltas_of rs" "flat rs = remdups_adj ps" by blast
  have "sorted_wrt (<) (flat rs)" unfolding s(4) by (rule strict_remdups_adj [OF assms(1)])
  moreover have "\<forall>p \<in> set (flat rs). int32_range p" unfolding s(4) using assms(2) by simp
  ultimately have "Exists s p = Some (p \<in> set ps)" for p using Exists_flat [OF s(2,3)] s(4) by simp
  moreover have "GetPrefixes s = Some (remdups_adj ps)"
    using get_prefixes_flat [of 0 "deltas_of rs" rs] s(2-4) by (simp add: GetPrefixes_def)
  moreover have "GetSize s = card (set ps)"
    using length_flat [of rs] s(4) strict_remdups_adj [OF assms(1)] distinct_card [of "remdups_adj ps"]
    by (simp add: GetSize_def s(2,3) strict_sorted_iff)
  ultimately show ?thesis using s(1) by blast
qed

theorem prefix_set_represents_witness:
  "\<exists>s. PrefixSet_init [20, 25, 25, 41, 65432, 150000] 0 = Some s \<and> Exists s 41 = Some True \<and> Exists s 42 = Some False \<and>
    GetPrefixes s = Some [20, 25, 41, 65432, 150000]"
proof -
  have "sorted [20, 25, 25, 41, 65432, 150000 :: int32]" "\<forall>p \<in> set [20, 25, 25, 41, 65432, 150000]. int32_range p"
    by (simp_all add: int32_range_def)
  from prefix_set_represents [OF this, of 0] show ?thesis by auto
qed

text \<open>
  The access by position. At every position of the listed prefixes that \<open>IsDeltaAt\<close>
  calls a difference, \<open>DeltaAt\<close> answers the difference between the prefix and the one before it.
\<close>

theorem prefix_set_positions:
  assumes "sorted ps" "\<forall>p \<in> set ps. int32_range p" "PrefixSet_init ps garbage = Some s" "target < GetSize s"
  shows "\<exists>b. IsDeltaAt s target = Some b \<and> (b \<longrightarrow> (\<exists>d. DeltaAt s target = Some d \<and> 0 < target \<and>
    remdups_adj ps ! target = remdups_adj ps ! (target - 1) + int (unat d)))"
proof -
  from build_represents [OF assms(1,2), of garbage] assms(3) obtain rs where
    s: "ps_index s = index_of 0 rs" "ps_deltas s = deltas_of rs" "flat rs = remdups_adj ps" by auto
  have t: "target < length (flat rs)" using assms(4) by (simp add: GetSize_def s(1,2) length_flat)
  from positions_spec [OF s(1,2) t] obtain b where b: "IsDeltaAt s target = Some b"
    "b \<longrightarrow> (\<exists>d. DeltaAt s target = Some d \<and> 0 < target \<and>
      flat rs ! target = to_int32 (to_uint32 (flat rs ! (target - 1) + int (unat d))))" by blast
  have "remdups_adj ps ! target = remdups_adj ps ! (target - 1) + int (unat d)"
    if d: "0 < target" "remdups_adj ps ! target = to_int32 (to_uint32 (remdups_adj ps ! (target - 1) + int (unat d)))" for d :: uint16
  proof -
    have n: "target - 1 < target" "target < length (remdups_adj ps)" using d(1) t s(3) by simp_all
    then have "remdups_adj ps ! (target - 1) \<in> set ps" by (metis less_imp_diff_less nth_mem remdups_adj_set)
    then have "int32_range (remdups_adj ps ! (target - 1))" using assms(2) by blast
    moreover have "remdups_adj ps ! (target - 1) < remdups_adj ps ! target"
      using sorted_wrt_nth_less [OF strict_remdups_adj [OF assms(1)] n] .
    ultimately show ?thesis using exact_step d(2) by metis
  qed
  then show ?thesis using b unfolding s(3) by blast
qed

theorem prefix_set_positions_witness:
  "\<exists>s. PrefixSet_init [20, 25, 150000] 0 = Some s \<and> GetSize s = 3 \<and> IsDeltaAt s 1 = Some True \<and> DeltaAt s 1 = Some 5"
proof -
  let ?s = "\<lparr>ps_index = [(20, 0), (150000, 1)], ps_deltas = [5], ps_checksum = 150001 XOR (20 XOR 5)\<rparr>"
  have p: "sorted [20, 25, 150000 :: int32]" "\<forall>p \<in> set [20, 25, 150000]. int32_range p"
    by (simp_all add: int32_range_def)
  have s: "PrefixSet_init [20, 25, 150000] 0 = Some ?s"
    by (simp add: PrefixSet_init_def Let_def to_uint32_def CheckChecksum_def index_checksum_def deltas_checksum_def)
  have d: "IsDeltaAt ?s 1 = Some True"
  proof -
    have "index_bin [(20, 0), (150000, 1)] 1 0 2 = Some 0"
      by (subst index_bin.simps, simp, subst index_bin.simps, simp)
    then show ?thesis by (simp add: IsDeltaAt_def GetSize_def IndexBinFor_def numeral_2_eq_2)
  qed
  have five: "x = 5" if "uint x = 5" for x :: uint16 using that by (simp add: word_uint_eq_iff)
  from prefix_set_positions [OF p s, of 1] d s show ?thesis by (auto simp: GetSize_def dest: five)
qed

text \<open>The file.\<close>

lemma bytes_index_entry_bytes:
  "int32_range (fst e) \<Longrightarrow> snd e < 2 ^ 32 \<Longrightarrow> bytes_index_entry (index_entry_bytes e) = e"
  using to_uint32_bound [of "fst e"] by (cases e) (simp add: bytes_index_entry_def index_entry_bytes_def)

lemma bytes_delta_bytes: "bytes_delta (delta_bytes d) = d"
proof -
  have "unat d < 2 ^ 16" using unsigned_less [of d] by simp
  then have "unat d < 256 ^ 2" by simp
  then show ?thesis by (simp add: bytes_delta_def delta_bytes_def)
qed

text \<open>
  C8 (roundtrip): a set that is written to a file is read back, for every digest of 16 bytes, as
  long as the file is smaller than four gigabytes. Only the checksum, which is for debugging, is lost.
\<close>

theorem prefix_set_file:
  assumes "\<forall>e \<in> set (ps_index s). int32_range (fst e) \<and> snd e < 2 ^ 32" "\<forall>bs. length (md5 bs) = 16"
    "32 + 8 * length (ps_index s) + 2 * length (ps_deltas s) < 2 ^ 32"
  shows "\<exists>file. WriteFile md5 s = Some file \<and> LoadFile md5 file garbage = Some (s\<lparr>ps_checksum := garbage\<rparr>)"
proof -
  let ?n = "length (ps_index s)" and ?m = "length (ps_deltas s)"
  let ?i = "concat (map index_entry_bytes (ps_index s))" and ?d = "concat (map delta_bytes (ps_deltas s))"
  let ?h = "header_bytes ?n ?m" and ?md = "md5 (header_bytes ?n ?m @ ?i @ ?d)"
  have w: "WriteFile md5 s = Some ((?h @ ?i @ ?d) @ ?md)" using assms(3) by (simp add: WriteFile_def Let_def)
  have li: "\<forall>x \<in> set (map index_entry_bytes (ps_index s)). length x = 8" by (auto simp: index_entry_bytes_def)
  have ld: "\<forall>x \<in> set (map delta_bytes (ps_deltas s)). length x = 2" by (auto simp: delta_bytes_def)
  have len: "length ?i = 8 * ?n" "length ?d = 2 * ?m" "length ?h = 16" "length ?md = 16"
    using length_concat_items [OF li] length_concat_items [OF ld] assms(2) by (simp_all add: header_bytes_def)
  let ?f = "(?h @ ?i @ ?d) @ ?md"
  have head: "bytes_nat (take 4 ?f) = kMagic" "bytes_nat (take 4 (drop 4 ?f)) = kVersion"
    "bytes_nat (take 4 (drop 8 ?f)) = ?n" "bytes_nat (take 4 (drop 12 ?f)) = ?m"
    using assms(3) by (simp_all add: header_bytes_def)
  have total: "length ?f = 32 + 8 * ?n + 2 * ?m" unfolding length_append len by simp
  have body: "take (16 + 8 * ?n + 2 * ?m) ?f = ?h @ ?i @ ?d" "take 16 (drop (16 + 8 * ?n + 2 * ?m) ?f) = ?md"
    using len by simp_all
  have i: "map bytes_index_entry (items 8 ?n (drop 16 ?f)) = ps_index s"
  proof -
    have "drop 16 ?f = ?i @ (?d @ ?md)" using len(3) by simp
    then have "items 8 ?n (drop 16 ?f) = map index_entry_bytes (ps_index s)"
      using items_concat [OF li, of "?d @ ?md"] by simp
    then show ?thesis using assms(1) bytes_index_entry_bytes by (simp add: map_idI)
  qed
  have d: "map bytes_delta (items 2 ?m (drop (16 + 8 * ?n) ?f)) = ps_deltas s"
  proof -
    have "drop (16 + 8 * ?n) ?f = ?d @ ?md" using len by simp
    then have "items 2 ?m (drop (16 + 8 * ?n) ?f) = map delta_bytes (ps_deltas s)"
      using items_concat [OF ld, of ?md] by simp
    then show ?thesis by (simp add: map_idI bytes_delta_bytes)
  qed
  have "LoadFile md5 ?f garbage = Some (s\<lparr>ps_checksum := garbage\<rparr>)"
    unfolding LoadFile_def head Let_def i d body total using assms(3) by simp
  then show ?thesis using w by blast
qed

theorem prefix_set_file_witness:
  "\<exists>file. WriteFile (\<lambda>_. replicate 16 7) \<lparr>ps_index = [(20, 0), (-5, 1)], ps_deltas = [5], ps_checksum = 1\<rparr> = Some file \<and>
    LoadFile (\<lambda>_. replicate 16 7) file 1 = Some \<lparr>ps_index = [(20, 0), (-5, 1)], ps_deltas = [5], ps_checksum = 1\<rparr>"
  using prefix_set_file [of "\<lparr>ps_index = [(20, 0), (-5, 1)], ps_deltas = [5], ps_checksum = 1\<rparr>" "\<lambda>_. replicate 16 7" 1]
  by (auto simp: int32_range_def)

end
