(* ===== verification/PickleProofs.thy ===== *)
theory PickleProofs
  imports Pickle
begin

text \<open>
  What pickles (\<open>src/base/pickle.cc\<close>) promise: the payload of a pickle is the sequence of the blocks that
  were written, each but the last padded to a multiple of four bytes; reading runs through the same
  blocks. Reading arbitrary bytes never leaves them.
\<close>

section \<open>Reading arbitrary bytes\<close>

definition data_ok :: "uint32 \<Rightarrow> byte list \<Rightarrow> bool" where
  "data_ok address data \<longleftrightarrow> 0 < address \<and> address + length data < 2 ^ 32 \<and> length data < 2 ^ 31"

lemma Pickle_from_data_cases:
  assumes "data_ok a data" "p = Pickle_from_data a data"
  shows "pk_memory p = None \<and> pk_address p = 0 \<and> pk_header_size p = 0 \<or>
    pk_memory p = Some data \<and> pk_address p = a \<and> 4 \<le> length data \<and>
    pk_header_size p + bytes_nat (take 4 data) = length data"
proof (cases "pk_header_size p = 0")
  case True
  then show ?thesis using assms(2) by (simp add: Pickle_from_data_def Let_def split: if_splits)
next
  case False
  let ?n = "bytes_nat (take 4 data)"
  have h: "pk_header_size p = sub32 (length data) ?n" "sub32 (length data) ?n \<le> length data" "4 \<le> length data"
    "pk_memory p = Some data" "pk_address p = a"
    using False assms(2) by (auto simp: Pickle_from_data_def Let_def split: if_splits)
  have n: "?n < 2 ^ 32" using bytes_nat_bound [of "take 4 data"] h(3) by simp
  have len: "length data < 2 ^ 31" using assms(1) by (simp add: data_ok_def)
  have "?n \<le> length data"
  proof (rule ccontr)
    assume "\<not> ?n \<le> length data"
    then have "sub32 (length data) ?n = length data + 2 ^ 32 - ?n" using n by (simp add: sub32_def)
    then show False using h(2) n by simp
  qed
  then have "sub32 (length data) ?n = length data - ?n" using len by simp
  then show ?thesis using h \<open>?n \<le> length data\<close> by simp
qed

lemma read_here_total:
  assumes "data_ok a data" "p = Pickle_from_data a data" "len < 2 ^ 31"
  shows "\<exists>v iter'. read_here p iter len = Some (v, iter')"
proof (cases "len < 0 \<or> iter < pk_address p")
  case True
  then show ?thesis by (simp add: read_here_def IteratorHasRoomFor_def)
next
  case False
  define n where "n = nat len"
  have n: "n < 2 ^ 31" "to_uint32 len = n" using False assms(3) by (simp_all add: n_def to_uint32_def)
  from Pickle_from_data_cases [OF assms(1,2)] show ?thesis
  proof
    assume p: "pk_memory p = None \<and> pk_address p = 0 \<and> pk_header_size p = 0"
    show ?thesis
    proof (cases "iter = 0 \<and> n = 0")
      case True
      then show ?thesis using False p n by (simp add: read_here_def IteratorHasRoomFor_def end_of_payload_def bytes_at_def n_def)
    next
      case off: False
      have "\<not> (iter \<le> add32 iter n \<and> add32 iter n \<le> 0)" if "iter = 0"
        using off that n(1) by simp
      then have "IteratorHasRoomFor p iter len = Some False"
        using False p n by (auto simp: IteratorHasRoomFor_def end_of_payload_def Let_def)
      then show ?thesis by (simp add: read_here_def)
    qed
  next
    assume p: "pk_memory p = Some data \<and> pk_address p = a \<and> 4 \<le> length data \<and>
      pk_header_size p + bytes_nat (take 4 data) = length data"
    have lim: "a + length data < 2 ^ 32" using assms(1) by (simp add: data_ok_def)
    have e: "end_of_payload p = Some (a + length data)"
      using p lim by (simp add: end_of_payload_def payload_address_def payload_size_def add.assoc)
    show ?thesis
    proof (cases "iter \<le> a + length data \<and> iter \<le> add32 iter n \<and> add32 iter n \<le> a + length data")
      case False
      then have "IteratorHasRoomFor p iter len = Some False"
        using \<open>\<not> (len < 0 \<or> iter < pk_address p)\<close> e n(2) by (auto simp: IteratorHasRoomFor_def Let_def)
      then show ?thesis by (simp add: read_here_def)
    next
      case True
      have "iter + n < 2 ^ 32"
      proof (rule ccontr)
        assume w: "\<not> iter + n < 2 ^ 32"
        have "iter < 2 ^ 32" using True lim by simp
        then have "add32 iter n = iter + n - 2 ^ 32" using w n(1) unfolding add32_def by (subst le_mod_geq) auto
        moreover have "iter + n - 2 ^ 32 < iter" using n(1) w by (simp add: less_diff_conv2)
        ultimately show False using True by simp
      qed
      then have r: "iter + n \<le> a + length data" using True by simp
      have "IteratorHasRoomFor p iter len = Some True"
        using \<open>\<not> (len < 0 \<or> iter < pk_address p)\<close> e n(2) True by (simp add: IteratorHasRoomFor_def Let_def)
      moreover have "\<exists>bs. bytes_at p iter n = Some bs"
        using p r \<open>\<not> (len < 0 \<or> iter < pk_address p)\<close> by (simp add: bytes_at_def le_diff_conv add.commute)
      ultimately show ?thesis by (auto simp: read_here_def n_def)
    qed
  qed
qed

lemma read_as_total: "\<exists>v i. r = Some (v, i) \<Longrightarrow> \<exists>v i. read_as f r = Some (v, i)"
  by (auto simp: read_as_def)

lemma to_int32_bound: "to_int32 n < 2 ^ 31"
proof -
  have "n mod 4294967296 < 4294967296" by simp
  then have "n mod 4294967296 < 6442450944" by (rule order.strict_trans) simp
  then show ?thesis by (simp add: to_int32_def Let_def)
qed

lemma ReadInt_total:
  assumes "data_ok a data" "p = Pickle_from_data a data"
  shows "\<exists>v iter'. ReadInt p iter = Some (v, iter') \<and> (\<forall>n. v = Some n \<longrightarrow> n < 2 ^ 31)"
proof -
  obtain v iter' where "read_here p (start_iter p iter) 4 = Some (v, iter')"
    using read_here_total [OF assms, of 4 "start_iter p iter"] by auto
  then show ?thesis by (cases v) (simp_all add: ReadInt_def read_as_def to_int32_bound [simplified])
qed

lemma after_length_total:
  assumes "data_ok a data" "p = Pickle_from_data a data"
    and "\<And>len iter. 0 \<le> len \<Longrightarrow> len < 2 ^ 31 \<Longrightarrow> \<exists>v iter'. f len iter = Some (v, iter')"
  shows "\<exists>v iter'. after_length p iter f = Some (v, iter')"
proof -
  obtain v iter' where "ReadInt p iter = Some (v, iter')" "\<forall>n. v = Some n \<longrightarrow> n < 2 ^ 31"
    using ReadInt_total [OF assms(1,2)] by blast
  then show ?thesis using assms(3) by (cases v) (auto simp: after_length_def ReadLength_def)
qed

text \<open>All the reads but \<open>ReadBool\<close>, which stops at a value that is neither zero nor one.\<close>

datatype read_op = RInt | RLong | RSize | RUInt16 | RUInt32 | RInt64 | RUInt64 | RLength
| RString | RWString | RString16 | RData | RBytes int32

definition read_outcome :: "'a reading \<Rightarrow> (bool \<times> uint32) option" where
  "read_outcome r = map_option (\<lambda>(v, iter). (v \<noteq> None, iter)) r"

definition perform :: "read_op \<Rightarrow> pickle \<Rightarrow> uint32 \<Rightarrow> (bool \<times> uint32) option" where
  "perform op p iter = (case op of
     RInt \<Rightarrow> read_outcome (ReadInt p iter) | RLong \<Rightarrow> read_outcome (ReadLong p iter) | RSize \<Rightarrow> read_outcome (ReadSize p iter)
   | RUInt16 \<Rightarrow> read_outcome (ReadUInt16 p iter) | RUInt32 \<Rightarrow> read_outcome (ReadUInt32 p iter)
   | RInt64 \<Rightarrow> read_outcome (ReadInt64 p iter) | RUInt64 \<Rightarrow> read_outcome (ReadUInt64 p iter)
   | RLength \<Rightarrow> read_outcome (ReadLength p iter) | RString \<Rightarrow> read_outcome (ReadString p iter)
   | RWString \<Rightarrow> read_outcome (ReadWString p iter) | RString16 \<Rightarrow> read_outcome (ReadString16 p iter)
   | RData \<Rightarrow> read_outcome (ReadData p iter) | RBytes len \<Rightarrow> read_outcome (ReadBytes p iter len))"

lemma read_outcome_total: "\<exists>v i. r = Some (v, i) \<Longrightarrow> \<exists>b i. read_outcome r = Some (b, i)"
  by (auto simp: read_outcome_def)

definition op_ok :: "read_op \<Rightarrow> bool" where
  "op_ok op = (case op of RBytes len \<Rightarrow> len < 2 ^ 31 | _ \<Rightarrow> True)"

text \<open>
  C12 (safety): reading arbitrary bytes stays within them. For a pickle over any data at any address, every
  read except \<open>ReadBool\<close> answers, from every value of the iterator, with or without success;
  it never reads outside of the data.
\<close>

theorem pickle_reads_safe:
  assumes "0 < address" "address + length data < 2 ^ 32" "length data < 2 ^ 31" "op_ok op"
  shows "\<exists>success iter'. perform op (Pickle_from_data address data) iter = Some (success, iter')"
proof -
  have ok: "data_ok address data" using assms(1-3) by (simp add: data_ok_def)
  note here = read_here_total [OF ok refl]
  note len = after_length_total [OF ok refl]
  have int: "\<exists>v i. ReadInt (Pickle_from_data address data) iter = Some (v, i)" using ReadInt_total [OF ok refl] by blast
  have conv: "to_int32 (to_uint32 (n * 2)) < 2 ^ 31" for n by (rule to_int32_bound)
  show ?thesis
  proof (cases op)
    case RLength
    then show ?thesis using int by (auto simp: perform_def ReadLength_def intro!: read_outcome_total)
  next
    case RString
    then show ?thesis by (auto simp: perform_def ReadString_def intro!: read_outcome_total len here)
  next
    case RWString
    then show ?thesis using here [OF conv] by (auto simp: perform_def ReadWString_def intro!: read_outcome_total len read_as_total)
  next
    case RString16
    then show ?thesis using here [OF conv] by (auto simp: perform_def ReadString16_def intro!: read_outcome_total len read_as_total)
  next
    case RData
    then show ?thesis by (auto simp: perform_def ReadData_def ReadBytes_def intro!: read_outcome_total len here)
  next
    case (RBytes n)
    then show ?thesis using assms(4) by (auto simp: perform_def op_ok_def ReadBytes_def intro!: read_outcome_total here)
  qed (use here int in \<open>auto simp: perform_def ReadLong_def ReadSize_def ReadUInt16_def ReadUInt32_def ReadInt64_def
      ReadUInt64_def intro!: read_outcome_total read_as_total\<close>)
qed

theorem pickle_reads_safe_witness:
  "\<exists>success iter'. perform (RBytes 2147483647) (Pickle_from_data 4294960000 (nat_bytes 4 4 @ nat_bytes 4 7)) 4294960006 =
    Some (success, iter')"
  by (rule pickle_reads_safe) (simp_all add: op_ok_def)

section \<open>Blocks\<close>

definition pad4 :: "byte list \<Rightarrow> byte list" where
  "pad4 bs = bs @ (if length bs mod 4 \<noteq> 0 then replicate (4 - length bs mod 4) 0 else [])"

definition padded :: "byte list list \<Rightarrow> byte list" where
  "padded bl = concat (map pad4 bl)"

text \<open>The size of the payload does not count the padding of the last block.\<close>

definition payload_length :: "byte list list \<Rightarrow> nat" where
  "payload_length bl = (if bl = [] then 0 else length (padded (butlast bl)) + length (last bl))"

lemma padded_simps [simp]: "padded [] = []" "padded (b # bl) = pad4 b @ padded bl" "padded (bl @ cl) = padded bl @ padded cl"
  by (simp_all add: padded_def)

lemma length_pad4: "length (pad4 bs) = length bs + (4 - length bs mod 4) mod 4"
  by (cases "length bs mod 4 = 0") (simp_all add: pad4_def)

lemma round_up_mod:
  fixes n k :: nat
  assumes "0 < k"
  shows "(n + (k - n mod k) mod k) mod k = 0"
proof -
  have "(n + (k - n mod k) mod k) mod k = (n mod k + (k - n mod k)) mod k" by (simp add: mod_simps)
  then show ?thesis using assms by simp
qed

lemma round_up_le:
  fixes n k q :: nat
  assumes "n \<le> k * q"
  shows "n + (k - n mod k) mod k \<le> k * q"
proof (cases "n mod k = 0")
  case False
  have k: "0 < k" using False assms by (cases k) auto
  have n: "n = k * (n div k) + n mod k" by simp
  have "k * (n div k) < k * q" using assms n False by linarith
  then have "Suc (n div k) \<le> q" by simp
  then have "k * (n div k) + k \<le> k * q" by (metis mult_Suc_right mult_le_mono2 add.commute)
  moreover have "n + (k - n mod k) = k * (n div k) + k" using n k by (metis add.assoc le_add_diff_inverse mod_le_divisor)
  moreover have "(k - n mod k) mod k = k - n mod k" using False k by simp
  ultimately show ?thesis by simp
qed (use assms in simp)

lemma length_pad4_mod [simp]: "length (pad4 bs) mod 4 = 0"
  unfolding length_pad4 by (rule round_up_mod) simp

lemma length_padded_mod [simp]: "length (padded bl) mod 4 = 0"
proof (induction bl)
  case (Cons b bl)
  then show ?case using length_pad4_mod [of b] by (simp add: mod_add_eq [symmetric])
qed simp

lemma AlignInt_small: "n + 4 < 2 ^ 32 \<Longrightarrow> AlignInt n 4 = n + (4 - n mod 4) mod 4"
proof -
  assume "n + 4 < 2 ^ 32"
  moreover have "(4 - n mod 4) mod 4 < 4" by simp
  ultimately show ?thesis unfolding AlignInt_def by (intro add32_small) linarith
qed

lemma AlignInt_multiple: "n mod k = 0 \<Longrightarrow> n < 2 ^ 32 \<Longrightarrow> AlignInt n k = n"
  by (simp add: AlignInt_def)

lemma AlignInt_payload:
  assumes "length (padded bl) < 2 ^ 31"
  shows "AlignInt (payload_length bl) 4 = length (padded bl)"
proof (cases bl rule: rev_cases)
  case Nil
  then show ?thesis by (simp add: payload_length_def AlignInt_def)
next
  case (snoc front b)
  have m: "length (padded front) mod 4 = 0" by simp
  have n: "payload_length bl = length (padded front) + length b" by (simp add: snoc payload_length_def)
  have "length b \<le> length (pad4 b)" by (simp add: length_pad4)
  then have "payload_length bl + 4 < 2 ^ 32" using assms unfolding n by (simp add: snoc)
  then have "AlignInt (payload_length bl) 4 = payload_length bl + (4 - payload_length bl mod 4) mod 4" by (rule AlignInt_small)
  also have "payload_length bl mod 4 = length b mod 4" unfolding n using m by (simp add: mod_add_eq [symmetric])
  finally have a: "AlignInt (payload_length bl) 4 = payload_length bl + (4 - length b mod 4) mod 4" .
  have "length (padded bl) = length (padded front) + length (pad4 b)" by (simp add: snoc)
  then show ?thesis unfolding a unfolding n length_pad4 by simp
qed

text \<open>A pickle that holds blocks.\<close>

definition holds_blocks :: "pickle \<Rightarrow> byte list list \<Rightarrow> bool" where
  "holds_blocks p bl \<longleftrightarrow> (\<exists>m. pk_memory p = Some m \<and> length m = pk_capacity p \<and> pk_capacity p mod 64 = 0 \<and>
     pk_capacity p < 2 ^ 32 \<and> pk_header_size p mod 4 = 0 \<and> 4 \<le> pk_header_size p \<and> pk_header_size p \<le> 64 \<and>
     pk_header_size p + length (padded bl) \<le> length m \<and>
     bytes_nat (take 4 m) = payload_length bl \<and> take (length (padded bl)) (drop (pk_header_size p) m) = padded bl)"

definition realloc_ok :: "allocator \<Rightarrow> bool" where
  "realloc_ok realloc \<longleftrightarrow> (\<forall>n < 2 ^ 32. \<exists>a bs. realloc n = Some (a, bs) \<and> length bs = n)"

lemma Resize_grow:
  assumes "realloc_ok realloc" "pk_memory p = Some m" "length m = pk_capacity p" "pk_capacity p < n" "n < 2 ^ 32"
    "n mod 64 = 0"
  shows "\<exists>a m'. Resize realloc n p = Some (True, p\<lparr>pk_memory := Some m', pk_address := a, pk_capacity := n\<rparr>) \<and>
    length m' = n \<and> take (length m) m' = m"
proof -
  obtain a bs where r: "realloc n = Some (a, bs)" "length bs = n" using assms(1,5) unfolding realloc_ok_def by blast
  have "AlignInt n 64 = n" by (rule AlignInt_multiple [OF assms(6,5)])
  then show ?thesis using r assms(2-5)
    by (intro exI [of _ a] exI [of _ "m @ drop (length m) bs"]) (simp add: Resize_def Let_def)
qed

lemma capacity_round:
  assumes "c mod 64 = 0" "c < 2 ^ 32" "needed > c" "needed < 2 ^ 30"
  shows "\<exists>n. AlignInt (max (c * 2 mod 2 ^ 32) needed) 64 = n \<and> n mod 64 = 0 \<and> needed \<le> n \<and> c < n \<and> n < 2 ^ 32"
proof -
  define x where "x = max (c * 2 mod 2 ^ 32) needed"
  have "c < 2 ^ 30" using assms(3,4) by linarith
  then have x: "x < 2 ^ 31" "needed \<le> x" using assms(4) by (simp_all add: x_def)
  define r where "r = (64 - x mod 64) mod 64"
  have "r < 64" by (simp add: r_def)
  then have a: "AlignInt x 64 = x + r" using x unfolding AlignInt_def r_def [symmetric] by (intro add32_small) simp
  have "(x + r) mod 64 = 0" unfolding r_def by (rule round_up_mod) simp
  then show ?thesis using x a assms(3) \<open>r < 64\<close> unfolding x_def [symmetric] by (intro exI [of _ "x + r"]) simp
qed

lemma Resize_round:
  assumes "AlignInt x 64 = n" "n mod 64 = 0" "n < 2 ^ 32"
  shows "Resize realloc x p = Resize realloc n p"
proof -
  have "AlignInt n 64 = n" by (rule AlignInt_multiple [OF assms(2,3)])
  then show ?thesis using assms(1) by (simp add: Resize_def)
qed

lemma room_made:
  assumes "realloc_ok realloc" "pk_memory p = Some m" "length m = pk_capacity p" "pk_capacity p mod 64 = 0"
    "pk_capacity p < 2 ^ 32" "needed < 2 ^ 30"
  obtains a m' c where "(if needed > pk_capacity p
      then Resize realloc (max (pk_capacity p * 2 mod 2 ^ 32) needed) p else Some (True, p)) =
      Some (True, p\<lparr>pk_memory := Some m', pk_address := a, pk_capacity := c\<rparr>)"
    "length m' = c" "c mod 64 = 0" "c < 2 ^ 32" "needed \<le> c" "take (length m) m' = m"
proof (cases "needed > pk_capacity p")
  case True
  obtain n where n: "AlignInt (max (pk_capacity p * 2 mod 2 ^ 32) needed) 64 = n" "n mod 64 = 0" "needed \<le> n"
    "pk_capacity p < n" "n < 2 ^ 32"
    using capacity_round [OF assms(4,5) True assms(6)] by auto
  from Resize_grow [OF assms(1-3) n(4,5,2)] obtain a m' where
    "Resize realloc n p = Some (True, p\<lparr>pk_memory := Some m', pk_address := a, pk_capacity := n\<rparr>)"
    "length m' = n" "take (length m) m' = m" by blast
  moreover from this(1) have "(if needed > pk_capacity p
      then Resize realloc (max (pk_capacity p * 2 mod 2 ^ 32) needed) p else Some (True, p)) =
      Some (True, p\<lparr>pk_memory := Some m', pk_address := a, pk_capacity := n\<rparr>)"
    using True Resize_round [OF n(1,2,5)] by simp
  then show ?thesis by (rule that) (use n calculation in simp_all)
next
  case False
  have "(if needed > pk_capacity p
      then Resize realloc (max (pk_capacity p * 2 mod 2 ^ 32) needed) p else Some (True, p)) =
      Some (True, p\<lparr>pk_memory := Some m, pk_address := pk_address p, pk_capacity := pk_capacity p\<rparr>)"
    using False assms(2) by simp
  then show ?thesis by (rule that) (use False assms(3-5) in simp_all)
qed

text \<open>Room for a block is made, with the old contents in their place.\<close>

lemma BeginWrite_holds:
  assumes "realloc_ok realloc" "holds_blocks p bl" "pk_header_size p + length (padded bl) + length b < 2 ^ 30"
  obtains a m' c where "BeginWrite realloc (length b) p =
      Some (Some (pk_header_size p + length (padded bl)),
        p\<lparr>pk_memory := Some m', pk_address := a, pk_capacity := c\<rparr>)"
    "length m' = c" "c mod 64 = 0" "c < 2 ^ 32" "pk_header_size p + length (padded bl) + length b \<le> c"
    "bytes_nat (take 4 m') = length (padded bl) + length b"
    "take (length (padded bl)) (drop (pk_header_size p) m') = padded bl"
proof -
  let ?h = "pk_header_size p" and ?l = "length (padded bl)"
  let ?new = "?l + length b" and ?needed = "pk_header_size p + (length (padded bl) + length b)"
  obtain m where m: "pk_memory p = Some m" "length m = pk_capacity p" "pk_capacity p mod 64 = 0" "pk_capacity p < 2 ^ 32"
    "4 \<le> ?h" "?h \<le> 64" "?h + ?l \<le> length m" "bytes_nat (take 4 m) = payload_length bl" "take ?l (drop ?h m) = padded bl"
    using assms(2) by (auto simp: holds_blocks_def)
  have size: "payload_size p = Some (payload_length bl)" using m by (simp add: payload_size_def)
  have offset: "AlignInt (payload_length bl) 4 = ?l" using assms(3) by (intro AlignInt_payload) simp
  have add: "add32 ?l (length b) = ?new" "add32 ?h ?new = ?needed" "add32 ?h ?l = ?h + ?l" using assms(3) by simp_all
  have needed: "?needed < 2 ^ 30" using assms(3) by simp
  obtain a m1 c where r: "(if ?needed > pk_capacity p
      then Resize realloc (max (pk_capacity p * 2 mod 2 ^ 32) ?needed) p else Some (True, p)) =
      Some (True, p\<lparr>pk_memory := Some m1, pk_address := a, pk_capacity := c\<rparr>)"
    "length m1 = c" "c mod 64 = 0" "c < 2 ^ 32" "?needed \<le> c" "take (length m) m1 = m"
    by (rule room_made [OF assms(1) m(1-4) needed])
  let ?m' = "nat_bytes 4 ?new @ drop 4 m1"
  have len: "4 \<le> length m" "length m \<le> length m1" using m(5,7) r(6) by (auto dest: arg_cong [of _ _ length])
  have "take ?l (drop ?h ?m') = take ?l (drop ?h m1)" using m(5) by simp
  also have "\<dots> = take ?l (drop ?h (take (length m) m1))"
    using m(7) by (simp add: drop_take min_def)
  finally have keep: "take ?l (drop ?h ?m') = padded bl" unfolding r(6) m(9) .
  have nat: "bytes_nat (take 4 ?m') = ?new" using assms(3) by simp
  have "BeginWrite realloc (length b) p =
      Some (Some (?h + ?l), p\<lparr>pk_memory := Some ?m', pk_address := a, pk_capacity := c\<rparr>)"
    unfolding BeginWrite_def size Option.bind.simps offset Let_def add r(1)
    using len r(2) add(3) by (simp add: set_payload_size_def)
  then show ?thesis by (rule that) (use r(2-5) keep nat len in simp_all)
qed

lemma room_for_padding:
  fixes h l c :: nat
  assumes "c mod 64 = 0" "h mod 4 = 0" "l mod 4 = 0" "h + l + length b \<le> c"
  shows "h + l + length (pad4 b) \<le> c"
proof -
  obtain k' where "c = 64 * k'" using assms(1) by auto
  then obtain k where k: "c = 4 * k" by (intro that [of "16 * k'"]) simp
  obtain i where i: "h = 4 * i" using assms(2) by auto
  obtain j where j: "l = 4 * j" using assms(3) by auto
  define q where "q = k - (i + j)"
  have q: "length b \<le> 4 * q" "i + j \<le> k" using assms(4) unfolding q_def k i j by linarith+
  then have "length (pad4 b) \<le> 4 * q" unfolding length_pad4 by (intro round_up_le)
  then show ?thesis using q(2) unfolding q_def k i j by linarith
qed

lemma put_bytes_at:
  assumes "pk_memory p = Some m" "i + length bs \<le> length m"
  shows "\<exists>m'. put_bytes i bs p = Some (p\<lparr>pk_memory := Some m'\<rparr>) \<and> length m' = length m \<and>
    take i m' = take i m \<and> take (length bs) (drop i m') = bs"
  using assms by (intro exI [of _ "take i m @ bs @ drop (i + length bs) m"]) (simp add: put_bytes_def)

lemma put_padded:
  assumes "pk_memory p = Some m" "i + length (pad4 b) \<le> length m"
  shows "\<exists>m'. Option.bind (put_bytes i b p) (EndWrite i (length b)) = Some (p\<lparr>pk_memory := Some m'\<rparr>) \<and>
    length m' = length m \<and> take i m' = take i m \<and> take (length (pad4 b)) (drop i m') = pad4 b"
proof -
  have l: "i + length b \<le> length m" using assms(2) by (simp add: length_pad4)
  from put_bytes_at [OF assms(1) l] obtain m1 where m1: "put_bytes i b p = Some (p\<lparr>pk_memory := Some m1\<rparr>)"
    "length m1 = length m" "take i m1 = take i m" "take (length b) (drop i m1) = b" by blast
  show ?thesis
  proof (cases "length b mod 4 = 0")
    case True
    then show ?thesis using m1 by (intro exI [of _ m1]) (simp add: EndWrite_def pad4_def)
  next
    case False
    let ?z = "replicate (4 - length b mod 4) (0 :: byte)"
    have p: "pad4 b = b @ ?z" using False by (simp add: pad4_def)
    have "pk_memory (p\<lparr>pk_memory := Some m1\<rparr>) = Some m1" "i + length b + length ?z \<le> length m1"
      using assms(2) m1(2) by (simp_all add: p)
    from put_bytes_at [OF this] obtain m2 where m2: "put_bytes (i + length b) ?z (p\<lparr>pk_memory := Some m1\<rparr>) =
        Some (p\<lparr>pk_memory := Some m2\<rparr>)" "length m2 = length m1" "take (i + length b) m2 = take (i + length b) m1"
      "take (length ?z) (drop (i + length b) m2) = ?z" by auto
    have "take (length b) (drop i (take (i + length b) m2)) = take (length b) (drop i (take (i + length b) m1))"
      by (simp only: m2(3))
    then have front: "take (length b) (drop i m2) = b" using m1(4) by (simp add: drop_take)
    have "take (length (pad4 b)) (drop i m2) = take (length b) (drop i m2) @ take (length ?z) (drop (length b) (drop i m2))"
      unfolding p length_append by (rule take_add)
    then have "take (length (pad4 b)) (drop i m2) = pad4 b"
      using front m2(4) p by (simp add: add.commute)
    moreover have "take i m2 = take i m1" using m2(3) by (metis le_add1 min.absorb1 take_take)
    ultimately show ?thesis using m1 m2(1,2) False by (intro exI [of _ m2]) (simp add: EndWrite_def)
  qed
qed

lemma WriteBytes_holds:
  assumes "realloc_ok realloc" "holds_blocks p bl" "pk_header_size p + length (padded bl) + length b < 2 ^ 30"
  shows "\<exists>p'. WriteBytes realloc b p = Some (True, p') \<and> holds_blocks p' (bl @ [b]) \<and>
    pk_header_size p' = pk_header_size p \<and> pk_variable_buffer_offset p' = pk_variable_buffer_offset p"
proof -
  let ?h = "pk_header_size p" and ?l = "length (padded bl)"
  obtain a m1 c where b: "BeginWrite realloc (length b) p =
      Some (Some (?h + ?l), p\<lparr>pk_memory := Some m1, pk_address := a, pk_capacity := c\<rparr>)"
    "length m1 = c" "c mod 64 = 0" "c < 2 ^ 32" "?h + ?l + length b \<le> c" "bytes_nat (take 4 m1) = ?l + length b"
    "take ?l (drop ?h m1) = padded bl" by (rule BeginWrite_holds [OF assms])
  have h: "?h mod 4 = 0" "4 \<le> ?h" "?h \<le> 64" "pk_capacity p mod 64 = 0" using assms(2) by (auto simp: holds_blocks_def)
  have room: "?h + ?l + length (pad4 b) \<le> c" by (rule room_for_padding [OF b(3) h(1) _ b(5)]) simp
  let ?p = "p\<lparr>pk_memory := Some m1, pk_address := a, pk_capacity := c\<rparr>"
  have "pk_memory ?p = Some m1" "?h + ?l + length (pad4 b) \<le> length m1" using room b(2) by simp_all
  from put_padded [OF this] obtain m2 where m2:
    "Option.bind (put_bytes (?h + ?l) b ?p) (EndWrite (?h + ?l) (length b)) = Some (?p\<lparr>pk_memory := Some m2\<rparr>)"
    "length m2 = length m1" "take (?h + ?l) m2 = take (?h + ?l) m1"
    "take (length (pad4 b)) (drop (?h + ?l) m2) = pad4 b" by blast
  have "pk_capacity p \<noteq> kCapacityReadOnly" using h(4) by auto
  then have "WriteBytes realloc b p = Some (True, ?p\<lparr>pk_memory := Some m2\<rparr>)"
    using b(1) m2(1) by (simp add: WriteBytes_def bind_eq_Some_conv)
  moreover have "holds_blocks (?p\<lparr>pk_memory := Some m2\<rparr>) (bl @ [b])"
  proof -
    have "take 4 (take (?h + ?l) m2) = take 4 (take (?h + ?l) m1)" by (simp only: m2(3))
    then have "take 4 m2 = take 4 m1" using h(2) by (simp add: min_def)
    moreover have "take ?l (drop ?h (take (?h + ?l) m2)) = take ?l (drop ?h (take (?h + ?l) m1))" by (simp only: m2(3))
    then have "take ?l (drop ?h m2) = padded bl" using b(7) by (simp add: drop_take)
    moreover have "take (?l + length (pad4 b)) (drop ?h m2) = take ?l (drop ?h m2) @ take (length (pad4 b)) (drop ?l (drop ?h m2))"
      by (rule take_add)
    ultimately show ?thesis using b h m2 room
      by (simp add: holds_blocks_def payload_length_def add.commute)
  qed
  ultimately show ?thesis by auto
qed

section \<open>Values\<close>

text \<open>A value with its type, the blocks that are written for it, and the function that writes it.\<close>

datatype pickle_value = PBool bool | PInt int32 | PLong int32 | PSize uint32 | PUInt16 nat | PUInt32 uint32
| PInt64 int | PUInt64 nat | PString "byte list" | PWString "16 word list" | PString16 "16 word list" | PData "byte list"

definition int_block :: "int32 \<Rightarrow> byte list" where
  "int_block n = nat_bytes 4 (to_uint32 n)"

fun blocks :: "pickle_value \<Rightarrow> byte list list" where
  "blocks (PBool b) = [int_block (if b then 1 else 0)]"
| "blocks (PInt n) = [int_block n]"
| "blocks (PLong n) = [int_block n]"
| "blocks (PSize n) = [nat_bytes 4 n]"
| "blocks (PUInt16 n) = [nat_bytes 2 n]"
| "blocks (PUInt32 n) = [nat_bytes 4 n]"
| "blocks (PInt64 n) = [nat_bytes 8 (to_uint64 n)]"
| "blocks (PUInt64 n) = [nat_bytes 8 n]"
| "blocks (PString s) = [int_block (to_int32 (length s)), s]"
| "blocks (PWString s) = [int_block (to_int32 (length s)), bytes16 s]"
| "blocks (PString16 s) = [int_block (to_int32 (length s)), bytes16 s]"
| "blocks (PData s) = [int_block (to_int32 (length s)), s]"

fun write_value :: "allocator \<Rightarrow> pickle_value \<Rightarrow> pickle \<Rightarrow> (bool \<times> pickle) option" where
  "write_value realloc (PBool b) = WriteBool realloc b"
| "write_value realloc (PInt n) = WriteInt realloc n"
| "write_value realloc (PLong n) = WriteLong realloc n"
| "write_value realloc (PSize n) = WriteSize realloc n"
| "write_value realloc (PUInt16 n) = WriteUInt16 realloc n"
| "write_value realloc (PUInt32 n) = WriteUInt32 realloc n"
| "write_value realloc (PInt64 n) = WriteInt64 realloc n"
| "write_value realloc (PUInt64 n) = WriteUInt64 realloc n"
| "write_value realloc (PString s) = WriteString realloc s"
| "write_value realloc (PWString s) = WriteWString realloc s"
| "write_value realloc (PString16 s) = WriteString16 realloc s"
| "write_value realloc (PData s) = WriteData realloc s"

primrec write_values :: "allocator \<Rightarrow> pickle_value list \<Rightarrow> pickle \<Rightarrow> (bool \<times> pickle) option" where
  "write_values realloc [] p = Some (True, p)"
| "write_values realloc (v # vs) p =
     Option.bind (write_value realloc v p) (\<lambda>(ok, p). if ok then write_values realloc vs p else Some (False, p))"

text \<open>Reading a value of the type of another.\<close>

fun read_like :: "pickle_value \<Rightarrow> pickle \<Rightarrow> uint32 \<Rightarrow> pickle_value reading" where
  "read_like (PBool _) p iter = map_option (\<lambda>(v, i). (map_option PBool v, i)) (ReadBool p iter)"
| "read_like (PInt _) p iter = map_option (\<lambda>(v, i). (map_option PInt v, i)) (ReadInt p iter)"
| "read_like (PLong _) p iter = map_option (\<lambda>(v, i). (map_option PLong v, i)) (ReadLong p iter)"
| "read_like (PSize _) p iter = map_option (\<lambda>(v, i). (map_option PSize v, i)) (ReadSize p iter)"
| "read_like (PUInt16 _) p iter = map_option (\<lambda>(v, i). (map_option PUInt16 v, i)) (ReadUInt16 p iter)"
| "read_like (PUInt32 _) p iter = map_option (\<lambda>(v, i). (map_option PUInt32 v, i)) (ReadUInt32 p iter)"
| "read_like (PInt64 _) p iter = map_option (\<lambda>(v, i). (map_option PInt64 v, i)) (ReadInt64 p iter)"
| "read_like (PUInt64 _) p iter = map_option (\<lambda>(v, i). (map_option PUInt64 v, i)) (ReadUInt64 p iter)"
| "read_like (PString _) p iter = map_option (\<lambda>(v, i). (map_option PString v, i)) (ReadString p iter)"
| "read_like (PWString _) p iter = map_option (\<lambda>(v, i). (map_option PWString v, i)) (ReadWString p iter)"
| "read_like (PString16 _) p iter = map_option (\<lambda>(v, i). (map_option PString16 v, i)) (ReadString16 p iter)"
| "read_like (PData _) p iter = map_option (\<lambda>(v, i). (map_option PData v, i)) (ReadData p iter)"

primrec read_values :: "pickle_value list \<Rightarrow> pickle \<Rightarrow> uint32 \<Rightarrow> pickle_value list reading" where
  "read_values [] p iter = Some (Some [], iter)"
| "read_values (v # vs) p iter = do {
     (x, iter) \<leftarrow> read_like v p iter;
     case x of None \<Rightarrow> Some (None, iter)
     | Some x \<Rightarrow> map_option (\<lambda>(xs, iter). (map_option ((#) x) xs, iter)) (read_values vs p iter)
   }"

text \<open>The ranges of the types.\<close>

fun value_ok :: "pickle_value \<Rightarrow> bool" where
  "value_ok (PBool b) \<longleftrightarrow> True"
| "value_ok (PInt n) \<longleftrightarrow> - (2 ^ 31) \<le> n \<and> n < 2 ^ 31"
| "value_ok (PLong n) \<longleftrightarrow> - (2 ^ 31) \<le> n \<and> n < 2 ^ 31"
| "value_ok (PSize n) \<longleftrightarrow> n < 2 ^ 32"
| "value_ok (PUInt16 n) \<longleftrightarrow> n < 2 ^ 16"
| "value_ok (PUInt32 n) \<longleftrightarrow> n < 2 ^ 32"
| "value_ok (PInt64 n) \<longleftrightarrow> - (2 ^ 63) \<le> n \<and> n < 2 ^ 63"
| "value_ok (PUInt64 n) \<longleftrightarrow> n < 2 ^ 64"
| "value_ok (PString s) \<longleftrightarrow> True"
| "value_ok (PWString s) \<longleftrightarrow> True"
| "value_ok (PString16 s) \<longleftrightarrow> True"
| "value_ok (PData s) \<longleftrightarrow> True"

lemma write_blocks:
  "write_value realloc v p = (case blocks v of
     [b] \<Rightarrow> WriteBytes realloc b p
   | [b, c] \<Rightarrow> Option.bind (WriteBytes realloc b p) (\<lambda>(ok, p). if ok then WriteBytes realloc c p else Some (False, p))
   | _ \<Rightarrow> None)"
proof -
  have f: "(\<lambda>(ok, p). if \<not> ok then Some (False, p) else WriteBytes realloc c p) =
    (\<lambda>(ok, p). if ok then WriteBytes realloc c p else Some (False, p))" for c by (intro ext) auto
  show ?thesis
    by (cases v) (simp_all add: WriteBool_def WriteInt_def WriteLong_def WriteSize_def WriteUInt16_def WriteUInt32_def
      WriteInt64_def WriteUInt64_def WriteString_def WriteWString_def WriteString16_def WriteData_def
      write_after_length_def int_block_def f)
qed

lemma blocks_cases: "(\<exists>b. blocks v = [b]) \<or> (\<exists>b c. blocks v = [b, c])"
  by (cases v) simp_all

definition all_blocks :: "pickle_value list \<Rightarrow> byte list list" where
  "all_blocks vs = concat (map blocks vs)"

lemma all_blocks_simps [simp]: "all_blocks [] = []" "all_blocks (v # vs) = blocks v @ all_blocks vs"
  by (simp_all add: all_blocks_def)

lemma length_padded_mono: "length (padded bl) \<le> length (padded (bl @ cl))"
  by simp

lemma length_le_pad4: "length b \<le> length (pad4 b)"
  by (simp add: length_pad4)

lemma write_value_holds:
  assumes "realloc_ok realloc" "holds_blocks p bl" "pk_header_size p + length (padded (bl @ blocks v)) < 2 ^ 30"
  shows "\<exists>p'. write_value realloc v p = Some (True, p') \<and> holds_blocks p' (bl @ blocks v) \<and>
    pk_header_size p' = pk_header_size p \<and> pk_variable_buffer_offset p' = pk_variable_buffer_offset p"
  using blocks_cases [of v]
proof (elim disjE exE)
  fix b assume b: "blocks v = [b]"
  have "pk_header_size p + length (padded bl) + length b < 2 ^ 30" using assms(3) length_le_pad4 [of b] by (simp add: b)
  from WriteBytes_holds [OF assms(1,2) this] show ?thesis by (simp add: write_blocks b)
next
  fix b c assume b: "blocks v = [b, c]"
  have l: "pk_header_size p + length (padded bl) + length (pad4 b) + length (pad4 c) < 2 ^ 30" using assms(3) by (simp add: b)
  then have "pk_header_size p + length (padded bl) + length b < 2 ^ 30" using length_le_pad4 [of b] by simp
  from WriteBytes_holds [OF assms(1,2) this] obtain p1 where p1: "WriteBytes realloc b p = Some (True, p1)"
    "holds_blocks p1 (bl @ [b])" "pk_header_size p1 = pk_header_size p"
    "pk_variable_buffer_offset p1 = pk_variable_buffer_offset p" by blast
  have "pk_header_size p1 + length (padded (bl @ [b])) + length c < 2 ^ 30" using l length_le_pad4 [of c] p1(3) by simp
  from WriteBytes_holds [OF assms(1) p1(2) this] show ?thesis using p1 by (auto simp: write_blocks b)
qed

lemma write_values_holds:
  assumes "realloc_ok realloc" "holds_blocks p bl" "pk_header_size p + length (padded (bl @ all_blocks vs)) < 2 ^ 30"
  shows "\<exists>p'. write_values realloc vs p = Some (True, p') \<and> holds_blocks p' (bl @ all_blocks vs) \<and>
    pk_header_size p' = pk_header_size p"
  using assms(2,3)
proof (induction vs arbitrary: p bl)
  case (Cons v vs)
  have "pk_header_size p + length (padded (bl @ blocks v)) < 2 ^ 30" using Cons.prems(2) by simp
  from write_value_holds [OF assms(1) Cons.prems(1) this] obtain p1 where p1: "write_value realloc v p = Some (True, p1)"
    "holds_blocks p1 (bl @ blocks v)" "pk_header_size p1 = pk_header_size p" by blast
  have "pk_header_size p1 + length (padded ((bl @ blocks v) @ all_blocks vs)) < 2 ^ 30"
    using Cons.prems(2) p1(3) by simp
  from Cons.IH [OF p1(2) this] show ?case using p1 by auto
qed simp

lemma Pickle_init_holds:
  assumes "realloc_ok realloc"
  shows "\<exists>p. Pickle_init realloc = Some p \<and> holds_blocks p [] \<and> pk_header_size p = 4 \<and> pk_variable_buffer_offset p = 0"
proof -
  obtain a bs where r: "realloc 64 = Some (a, bs)" "length bs = 64"
    using spec [of _ 64, OF assms [unfolded realloc_ok_def]] by auto
  have "AlignInt 64 64 = 64" by (rule AlignInt_multiple) simp_all
  then show ?thesis using r
    by (simp add: Pickle_init_def Resize_def null_pickle_def set_payload_size_def Let_def holds_blocks_def payload_length_def)
qed

end
