(* ===== verification/PickleReading.thy ===== *)
theory PickleReading
  imports PickleProofs
begin

text \<open>
  Reading what was written: a pickle over the bytes of another (\<open>src/base/pickle.cc\<close>) runs through the
  blocks of its payload, and each reader inverts its writer.
\<close>

section \<open>A pickle over the bytes of a pickle\<close>

definition reads_blocks :: "pickle \<Rightarrow> nat \<Rightarrow> byte list list \<Rightarrow> bool" where
  "reads_blocks q base bl \<longleftrightarrow> (\<exists>data. pk_memory q = Some data \<and> 0 < pk_address q \<and> 4 \<le> length data \<and>
     base = pk_address q + pk_header_size q \<and> base + length (padded bl) < 2 ^ 32 \<and> length data < 2 ^ 30 \<and>
     bytes_nat (take 4 data) = payload_length bl \<and> length data = pk_header_size q + payload_length bl \<and>
     drop (pk_header_size q) data = take (payload_length bl) (padded bl))"

lemma pad4_append: "\<exists>z. pad4 b = b @ z"
  by (simp add: pad4_def)

lemma payload_length_snoc: "payload_length (bl @ [b]) = length (padded bl) + length b"
  by (simp add: payload_length_def)

lemma payload_length_le: "payload_length bl \<le> length (padded bl)"
proof (cases bl rule: rev_cases)
  case (snoc front b)
  then show ?thesis using length_le_pad4 [of b] by (simp add: payload_length_snoc)
qed (simp add: payload_length_def)

lemma payload_length_close: "length (padded bl) \<le> payload_length bl + 3"
proof (cases bl rule: rev_cases)
  case (snoc front b)
  have "(4 - length b mod 4) mod 4 < 4" by simp
  then show ?thesis by (simp add: snoc payload_length_snoc length_pad4)
qed simp

lemma payload_length_block: "length (padded bl) + length b \<le> payload_length (bl @ b # cl)"
proof (cases cl rule: rev_cases)
  case Nil
  then show ?thesis by (simp add: payload_length_snoc)
next
  case (snoc front c)
  have "bl @ b # cl = (bl @ b # front) @ [c]" by (simp add: snoc)
  then have "payload_length (bl @ b # cl) = length (padded (bl @ b # front)) + length c"
    by (simp only: payload_length_snoc)
  then show ?thesis using length_le_pad4 [of b] by simp
qed

lemma from_data_blocks:
  assumes "holds_blocks p bl" "pk_memory p = Some m" "n = pk_header_size p + payload_length bl"
    "n < 2 ^ 30" "0 < a" "a + n + 4 < 2 ^ 32"
  shows "reads_blocks (Pickle_from_data a (take n m)) (a + pk_header_size p) bl"
proof -
  let ?h = "pk_header_size p"
  have h: "?h mod 4 = 0" "4 \<le> ?h" "?h \<le> 64" "?h + length (padded bl) \<le> length m" "bytes_nat (take 4 m) = payload_length bl"
    "take (length (padded bl)) (drop ?h m) = padded bl"
    using assms(1,2) by (auto simp: holds_blocks_def)
  have len: "length (take n m) = n" using h(4) payload_length_le [of bl] assms(3) by simp
  have four: "take 4 (take n m) = take 4 m" using assms(3) h(2) by (simp add: min_def)
  have "sub32 n (payload_length bl) = ?h" using assms(3,4) by simp
  moreover have "AlignInt ?h 4 = ?h" by (rule AlignInt_multiple) (use h in simp_all)
  ultimately have q: "Pickle_from_data a (take n m) = \<lparr>pk_memory = Some (take n m), pk_address = a,
      pk_header_size = ?h, pk_capacity = kCapacityReadOnly, pk_variable_buffer_offset = 0\<rparr>"
    using h(2) assms(3) unfolding Pickle_from_data_def len four h(5) Let_def by simp
  have "drop ?h (take n m) = take (payload_length bl) (drop ?h m)" by (simp add: assms(3) drop_take)
  also have "\<dots> = take (payload_length bl) (take (length (padded bl)) (drop ?h m))"
    using payload_length_le [of bl] by (simp add: min_def)
  finally have "drop ?h (take n m) = take (payload_length bl) (padded bl)" by (simp only: h(6))
  moreover have "a + ?h + length (padded bl) < 2 ^ 32" using assms(3,6) payload_length_close [of bl] by simp
  ultimately show ?thesis unfolding q reads_blocks_def using assms(3-5) len four h(2,5) by (intro exI [of _ "take n m"]) simp
qed

lemma read_block:
  assumes "reads_blocks q base (bl @ b # cl)"
  shows "read_here q (base + length (padded bl)) (int (length b)) = Some (Some b, base + length (padded (bl @ [b])))"
proof -
  let ?h = "pk_header_size q" and ?l = "length (padded bl)" and ?n = "payload_length (bl @ b # cl)"
  obtain data where d: "pk_memory q = Some data" "0 < pk_address q" "4 \<le> length data" "base = pk_address q + ?h"
    "base + length (padded (bl @ b # cl)) < 2 ^ 32" "length data < 2 ^ 30" "bytes_nat (take 4 data) = ?n"
    "length data = ?h + ?n" "drop ?h data = take ?n (padded (bl @ b # cl))"
    using assms unfolding reads_blocks_def by blast
  have n: "?l + length b \<le> ?n" by (rule payload_length_block)
  have lim: "base + ?n < 2 ^ 32" using d(5) payload_length_le [of "bl @ b # cl"] by linarith
  have e: "end_of_payload q = Some (base + ?n)"
    using d(1,3,4,7) lim by (simp add: end_of_payload_def payload_address_def payload_size_def)
  have b31: "length b < 2 ^ 30" using n d(6,8) by linarith
  have u: "to_uint32 (int (length b)) = length b" using b31 by (simp add: to_uint32_def)
  have sum: "add32 (base + ?l) (length b) = base + ?l + length b" using n lim by (intro add32_small) linarith
  have "pk_address q \<le> base" using d(4) by simp
  have room: "IteratorHasRoomFor q (base + ?l) (int (length b)) = Some True"
    using n \<open>pk_address q \<le> base\<close> by (simp add: IteratorHasRoomFor_def e u sum Let_def)
  obtain z where z: "pad4 b = b @ z" using pad4_append by blast
  have rest: "drop ?l (padded (bl @ b # cl)) = b @ z @ padded cl" by (simp add: z)
  have "drop (?h + ?l) data = drop ?l (drop ?h data)" by (simp add: add.commute)
  also have "\<dots> = take (?n - ?l) (b @ z @ padded cl)" unfolding d(9) drop_take rest ..
  finally have "take (length b) (drop (?h + ?l) data) = b" using n by (simp add: min_def)
  then have bytes: "bytes_at q (base + ?l) (length b) = Some b"
    using d(1,4,8) n by (simp add: bytes_at_def add.assoc)
  have r: "(4 - length b mod 4) mod 4 < 4" by simp
  have al: "AlignInt (length b) 4 = length (pad4 b)" using b31 by (simp add: AlignInt_small length_pad4)
  have "UpdateIter (base + ?l) (length b) = base + length (padded (bl @ [b]))"
    using d(5) by (simp add: UpdateIter_def al)
  then show ?thesis by (simp add: read_here_def room bytes)
qed

section \<open>Conversions\<close>

lemma int_block_simps [simp]: "length (int_block n) = 4"
  by (simp add: int_block_def)

lemma int_block_value: "- (2 ^ 31) \<le> n \<Longrightarrow> n < 2 ^ 31 \<Longrightarrow> to_int32 (bytes_nat (int_block n)) = n"
  using to_uint32_bound [of n] by (simp add: int_block_def to_int32_to_uint32)

lemma to_int64_to_uint64: "- (2 ^ 63) \<le> i \<Longrightarrow> i < 2 ^ 63 \<Longrightarrow> to_int64 (to_uint64 i) = i"
proof (cases "0 \<le> i")
  case True
  assume "i < 2 ^ 63"
  then have "to_uint64 i = nat i" using True by (simp add: to_uint64_def)
  then show ?thesis using True \<open>i < 2 ^ 63\<close> by (simp add: to_int64_def Let_def)
next
  case False
  assume a: "- (2 ^ 63) \<le> i"
  have "i mod 2 ^ 64 = (i + 2 ^ 64) mod 2 ^ 64" by simp
  also have "\<dots> = i + 2 ^ 64" using False a by (intro mod_pos_pos_trivial) simp_all
  finally have "to_uint64 i = nat (i + 2 ^ 64)" by (simp add: to_uint64_def)
  then show ?thesis using False a by (simp add: to_int64_def Let_def)
qed

lemma to_uint64_bound: "to_uint64 i < 2 ^ 64"
  by (simp add: to_uint64_def nat_less_iff)

lemma length_bytes16 [simp]: "length (bytes16 s) = 2 * length s"
  by (induction s) (simp_all add: bytes16_def)

lemma chars16_bytes16: "chars16 (bytes16 s) = s"
proof -
  let ?bl = "map (\<lambda>c. nat_bytes 2 (unat c)) s"
  have "items 2 (length ?bl) (concat ?bl) = ?bl" by (rule items_concat_exact) simp
  then have "chars16 (bytes16 s) = map (\<lambda>b. word_of_nat (bytes_nat b)) ?bl"
    by (simp add: chars16_def bytes16_def [symmetric])
  also have "\<dots> = s"
  proof -
    have "word_of_nat (bytes_nat (nat_bytes 2 (unat c))) = c" for c :: "16 word"
    proof -
      have "unat c < 256 ^ 2" using unsigned_less [of c] by simp
      then show ?thesis by simp
    qed
    then show ?thesis by (simp add: comp_def)
  qed
  finally show ?thesis .
qed

section \<open>Values\<close>

lemma read_int_block:
  assumes "reads_blocks q base (bl @ int_block n # cl)" "start_iter q iter = base + length (padded bl)"
    "- (2 ^ 31) \<le> n" "n < 2 ^ 31"
  shows "ReadInt q iter = Some (Some n, base + length (padded (bl @ [int_block n])))"
  using read_block [OF assms(1)] int_block_value [OF assms(3,4)] by (simp add: ReadInt_def read_as_def assms(2))

lemma read_fixed:
  assumes "reads_blocks q base (bl @ b # cl)" "start_iter q iter = base + length (padded bl)" "int (length b) = n"
  shows "read_as f (read_here q (start_iter q iter) n) = Some (Some (f b), base + length (padded (bl @ [b])))"
  using read_block [OF assms(1)] by (simp add: read_as_def assms(2) flip: assms(3))

lemma start_iter_block:
  assumes "reads_blocks q base bl"
  shows "start_iter q (base + n) = base + n"
  using assms unfolding reads_blocks_def start_iter_def by auto

lemma length_block:
  assumes "reads_blocks q base bl" "b \<in> set bl"
  shows "length b < 2 ^ 30"
proof -
  obtain front cl where bl: "bl = front @ b # cl" using assms(2) by (meson split_list)
  show ?thesis using assms(1) payload_length_block [of front b cl] unfolding reads_blocks_def bl by auto
qed

lemma read_length_block:
  assumes "reads_blocks q base (bl @ int_block (to_int32 n) # cl)" "start_iter q iter = base + length (padded bl)" "n < 2 ^ 30"
  shows "ReadLength q iter = Some (Some (int n), base + length (padded (bl @ [int_block (to_int32 n)])))"
proof -
  have "to_int32 n = int n" using assms(3) by (simp add: to_int32_def Let_def)
  moreover from this have "ReadInt q iter = Some (Some (int n), base + length (padded (bl @ [int_block (to_int32 n)])))"
    using read_int_block [OF assms(1,2)] assms(3) by simp
  ultimately show ?thesis by (simp add: ReadLength_def)
qed

text \<open>What follows a length.\<close>

lemma read_after_length:
  assumes "reads_blocks q base (bl @ int_block (to_int32 n) # b # cl)" "start_iter q iter = base + length (padded bl)"
    "n \<le> length b"
  shows "after_length q iter f = f (int n) (base + length (padded (bl @ [int_block (to_int32 n)])))"
    and "read_here q (base + length (padded (bl @ [int_block (to_int32 n)]))) (int (length b)) =
      Some (Some b, base + length (padded (bl @ [int_block (to_int32 n), b])))"
proof -
  have "length b < 2 ^ 30" using length_block [OF assms(1), of b] by simp
  then have "n < 2 ^ 30" using assms(3) by linarith
  then show "after_length q iter f = f (int n) (base + length (padded (bl @ [int_block (to_int32 n)])))"
    using read_length_block [OF assms(1,2)] by (simp add: after_length_def)
  have "reads_blocks q base ((bl @ [int_block (to_int32 n)]) @ b # cl)" using assms(1) by simp
  from read_block [OF this] show "read_here q (base + length (padded (bl @ [int_block (to_int32 n)]))) (int (length b)) =
      Some (Some b, base + length (padded (bl @ [int_block (to_int32 n), b])))" by simp
qed

lemma read_chars:
  assumes "reads_blocks q base (bl @ int_block (to_int32 (length s)) # bytes16 s # cl)"
    "start_iter q iter = base + length (padded bl)"
  shows "ReadWString q iter = Some (Some s, base + length (padded (bl @ [int_block (to_int32 (length s)), bytes16 s])))"
    and "ReadString16 q iter = Some (Some s, base + length (padded (bl @ [int_block (to_int32 (length s)), bytes16 s])))"
proof -
  have le: "length s \<le> length (bytes16 s)" by simp
  have s: "2 * length s < 2 ^ 30" using length_block [OF assms(1), of "bytes16 s"] by simp
  then have len: "to_int32 (to_uint32 (int (length s) * 2)) = int (length (bytes16 s))"
    by (subst to_int32_to_uint32) auto
  note r = read_after_length [OF assms le]
  show "ReadWString q iter = Some (Some s, base + length (padded (bl @ [int_block (to_int32 (length s)), bytes16 s])))"
    using s by (simp only: ReadWString_def r(1) len r(2)) (simp add: read_as_def chars16_bytes16)
  show "ReadString16 q iter = Some (Some s, base + length (padded (bl @ [int_block (to_int32 (length s)), bytes16 s])))"
    using s by (simp only: ReadString16_def r(1) len r(2)) (simp add: read_as_def chars16_bytes16)
qed

lemma read_like_value:
  assumes "reads_blocks q base (bl @ blocks v @ cl)" "start_iter q iter = base + length (padded bl)" "value_ok v"
  shows "read_like v q iter = Some (Some v, base + length (padded (bl @ blocks v)))"
proof (cases v)
  case (PBool b)
  have "ReadInt q iter = Some (Some (if b then 1 else 0), base + length (padded (bl @ blocks v)))"
    using read_int_block [of q base bl "if b then 1 else 0" cl iter] assms by (simp add: PBool)
  then show ?thesis by (simp add: PBool ReadBool_def)
next
  case (PInt n)
  then show ?thesis using read_int_block [of q base bl n cl iter] assms by simp
next
  case (PLong n)
  then have n: "to_int32 (bytes_nat (int_block n)) = n" using assms(3) int_block_value [of n] by simp
  show ?thesis using read_fixed [of q base bl "int_block n" cl iter 4 "\<lambda>bs. to_int32 (bytes_nat bs)"] assms(1,2) PLong
    by (simp add: ReadLong_def n)
next
  case (PSize n)
  then show ?thesis using read_fixed [of q base bl "nat_bytes 4 n" cl iter 4 bytes_nat] assms by (simp add: ReadSize_def)
next
  case (PUInt16 n)
  then show ?thesis using read_fixed [of q base bl "nat_bytes 2 n" cl iter 2 bytes_nat] assms by (simp add: ReadUInt16_def)
next
  case (PUInt32 n)
  then show ?thesis using read_fixed [of q base bl "nat_bytes 4 n" cl iter 4 bytes_nat] assms by (simp add: ReadUInt32_def)
next
  case (PInt64 n)
  then have "to_int64 (bytes_nat (nat_bytes 8 (to_uint64 n))) = n"
    using assms(3) to_uint64_bound [of n] to_int64_to_uint64 [of n] by simp
  then show ?thesis using read_fixed [of q base bl "nat_bytes 8 (to_uint64 n)" cl iter 8 "\<lambda>bs. to_int64 (bytes_nat bs)"]
    assms(1,2) PInt64
    by (simp add: ReadInt64_def)
next
  case (PUInt64 n)
  then show ?thesis using read_fixed [of q base bl "nat_bytes 8 n" cl iter 8 bytes_nat] assms by (simp add: ReadUInt64_def)
next
  case (PString s)
  have "reads_blocks q base (bl @ int_block (to_int32 (length s)) # s # cl)" using assms(1) PString by simp
  note r = read_after_length [OF this assms(2) order_refl]
  show ?thesis unfolding PString read_like.simps ReadString_def r(1) r(2) by simp
next
  case (PWString s)
  have "reads_blocks q base (bl @ int_block (to_int32 (length s)) # bytes16 s # cl)" using assms(1) PWString by simp
  then show ?thesis using read_chars(1) [OF _ assms(2)] unfolding PWString by simp
next
  case (PString16 s)
  have "reads_blocks q base (bl @ int_block (to_int32 (length s)) # bytes16 s # cl)" using assms(1) PString16 by simp
  then show ?thesis using read_chars(2) [OF _ assms(2)] unfolding PString16 by simp
next
  case (PData s)
  have q: "reads_blocks q base (bl @ int_block (to_int32 (length s)) # s # cl)" using assms(1) PData by simp
  note r = read_after_length [OF q assms(2) order_refl]
  show ?thesis unfolding PData read_like.simps ReadData_def r(1) ReadBytes_def start_iter_block [OF q] r(2) by simp
qed

lemma read_values_back:
  assumes "reads_blocks q base (bl @ all_blocks vs)" "start_iter q iter = base + length (padded bl)" "\<forall>v \<in> set vs. value_ok v"
  shows "\<exists>iter'. read_values vs q iter = Some (Some vs, iter')"
  using assms
proof (induction vs arbitrary: bl iter)
  case (Cons v vs)
  have v: "reads_blocks q base (bl @ blocks v @ all_blocks vs)" using Cons.prems(1) by simp
  have "value_ok v" using Cons.prems(3) by simp
  note r = read_like_value [OF v Cons.prems(2) this]
  have "reads_blocks q base ((bl @ blocks v) @ all_blocks vs)" using v by simp
  from Cons.IH [OF this start_iter_block [OF v]] obtain iter' where
    "read_values vs q (base + length (padded (bl @ blocks v))) = Some (Some vs, iter')" using Cons.prems(3) by auto
  then show ?case by (simp only: read_values.simps r) simp
qed simp

section \<open>The properties\<close>

definition fresh_bytes :: "byte \<Rightarrow> allocator" where
  "fresh_bytes b n = Some (4096, replicate n b)"

lemma fresh_bytes_ok: "realloc_ok (fresh_bytes b)"
  by (simp add: realloc_ok_def fresh_bytes_def)

text \<open>
  C11 (roundtrip): values of all the types of a pickle, written to a new pickle one after another, are all
  written, however often the memory grows, and reading them with the matching readers from a pickle over
  the bytes, from an iterator that starts as null, answers exactly these values. The bytes may be at any address, as
  they are after a message was sent.
\<close>

theorem pickle_roundtrip:
  assumes "realloc_ok realloc" "\<forall>v \<in> set vs. value_ok v" "length (padded (all_blocks vs)) < 2 ^ 29"
    "0 < address" "address < 2 ^ 31"
  shows "\<exists>p p' n m iter. Pickle_init realloc = Some p \<and> write_values realloc vs p = Some (True, p') \<and>
    Pickle_size p' = Some n \<and> pk_memory p' = Some m \<and> n \<le> length m \<and>
    read_values vs (Pickle_from_data address (take n m)) 0 = Some (Some vs, iter)"
proof -
  from Pickle_init_holds [OF assms(1)] obtain p where p: "Pickle_init realloc = Some p" "holds_blocks p []"
    "pk_header_size p = 4" by blast
  have "pk_header_size p + length (padded ([] @ all_blocks vs)) < 2 ^ 30" using assms(3) p(3) by simp
  from write_values_holds [OF assms(1) p(2) this] obtain p' where p': "write_values realloc vs p = Some (True, p')"
    "holds_blocks p' (all_blocks vs)" "pk_header_size p' = 4" using p(3) by auto
  define n where "n = pk_header_size p' + payload_length (all_blocks vs)"
  have n: "n < 2 ^ 30" using assms(3) p'(3) payload_length_le [of "all_blocks vs"] by (simp add: n_def)
  obtain m where m: "pk_memory p' = Some m" "4 \<le> length m" "bytes_nat (take 4 m) = payload_length (all_blocks vs)"
    "pk_header_size p' + length (padded (all_blocks vs)) \<le> length m"
    using p'(2) by (auto simp: holds_blocks_def)
  have "Pickle_size p' = Some n" using m n by (simp add: Pickle_size_def payload_size_def n_def)
  moreover have "n \<le> length m" using m(4) payload_length_le [of "all_blocks vs"] by (simp add: n_def)
  moreover have a: "address + n + 4 < 2 ^ 32" using assms(5) n by simp
  have q: "reads_blocks (Pickle_from_data address (take n m)) (address + pk_header_size p') ([] @ all_blocks vs)"
    using from_data_blocks [OF p'(2) m(1) n_def n assms(4) a] by simp
  have "start_iter (Pickle_from_data address (take n m)) 0 = address + pk_header_size p' + length (padded [])"
    using q by (auto simp: reads_blocks_def start_iter_def payload_address_def)
  from read_values_back [OF q this assms(2)] obtain iter where
    "read_values vs (Pickle_from_data address (take n m)) 0 = Some (Some vs, iter)" by blast
  ultimately show ?thesis using p(1) p'(1) m(1) by blast
qed

theorem pickle_roundtrip_witness:
  "\<exists>p p' n m iter. Pickle_init (fresh_bytes 170) = Some p \<and>
    write_values (fresh_bytes 170) [PInt (- 5), PString [104, 105], PUInt16 9, PString16 [65, 66, 67], PBool True] p = Some (True, p') \<and>
    Pickle_size p' = Some n \<and> pk_memory p' = Some m \<and> n \<le> length m \<and>
    read_values [PInt (- 5), PString [104, 105], PUInt16 9, PString16 [65, 66, 67], PBool True]
      (Pickle_from_data 65536 (take n m)) 0 =
      Some (Some [PInt (- 5), PString [104, 105], PUInt16 9, PString16 [65, 66, 67], PBool True], iter)"
  by (rule pickle_roundtrip [OF fresh_bytes_ok]) (simp_all add: length_pad4 int_block_def)

text \<open>
  A copy has the header and the payload of the original, and not the padding behind its last block. What is
  written next comes after that padding, so bytes of the fresh memory become part of the payload.
\<close>

definition copied_then_written :: "byte \<Rightarrow> byte list option" where
  "copied_then_written b = do {
     p \<leftarrow> Pickle_init (fresh_bytes b);
     (_, p) \<leftarrow> WriteUInt16 (fresh_bytes b) 5 p;
     q \<leftarrow> Pickle_copy (fresh_bytes b) p;
     (_, q) \<leftarrow> WriteInt (fresh_bytes b) 7 q;
     n \<leftarrow> Pickle_size q;
     map_option (take n) (pk_memory q)
   }"

lemma nat_bytes_4: "nat_bytes 4 n = [word_of_nat n, word_of_nat (n div 256), word_of_nat (n div 256 div 256),
    word_of_nat (n div 256 div 256 div 256)]"
proof -
  have "(4 :: nat) = Suc (Suc (Suc (Suc 0)))" by simp
  then show ?thesis by (simp only: nat_bytes.simps)
qed

lemma nat_bytes_2: "nat_bytes 2 n = [word_of_nat n, word_of_nat (n div 256)]"
proof -
  have "(2 :: nat) = Suc (Suc 0)" by simp
  then show ?thesis by (simp only: nat_bytes.simps)
qed

lemma replicate_2: "replicate 2 b = [b, b]"
  by (simp add: numeral_eq_Suc)

theorem pickle_copy_padding: "copied_then_written 170 = Some [8, 0, 0, 0, 5, 0, 170, 170, 7, 0, 0, 0]"
  by (simp add: copied_then_written_def Pickle_init_def Resize_def AlignInt_def fresh_bytes_def null_pickle_def
      set_payload_size_def Let_def WriteUInt16_def WriteInt_def WriteBytes_def BeginWrite_def payload_size_def put_bytes_def
      EndWrite_def Pickle_copy_def copy_from_def Pickle_size_def nat_bytes_4 nat_bytes_2 replicate_2 to_uint32_def)

end
