(* ===== verification/NumberConversions.thy ===== *)
theory NumberConversions
  imports Bytes "HOL-Library.Signed_Division"
begin

text \<open>
  Numbers and strings (\<open>src/base/string_number_conversions.cc\<close>): the templates for writing and reading
  integers in a base, their instances, and bytes in hexadecimal. Reading a decimal number inverts writing it and
  accepts exactly the numbers in range; reading a hexadecimal one does so up to eight digits.
\<close>

section \<open>Writing numbers\<close>

text \<open>Characters of any width are words. The unsigned value of an integer of \<open>w\<close> bits, and the signed value
  of a pattern.\<close>

definition signed_value :: "nat \<Rightarrow> int \<Rightarrow> int" where
  "signed_value w i = (let m = i mod 2 ^ w in if m < 2 ^ (w - 1) then m else m - 2 ^ w)"

definition ToUnsigned :: "bool \<Rightarrow> nat \<Rightarrow> int \<Rightarrow> nat" where
  "ToUnsigned NEG w v = nat ((if NEG \<and> v < 0 then - v else v) mod 2 ^ w)"

definition TestNeg :: "bool \<Rightarrow> int \<Rightarrow> bool" where
  "TestNeg NEG v = (NEG \<and> v < 0)"

text \<open>The loop writes back to front; its first argument is the distance of \<open>it\<close> from the start of the buffer.\<close>

primrec write_digits :: "bool \<Rightarrow> nat \<Rightarrow> nat \<Rightarrow> 'a::len word list \<Rightarrow> 'a word list option" where
  "write_digits is_neg 0 res out = None"
| "write_digits is_neg (Suc it) res out = do {
     guard (it \<noteq> 0);
     let out = word_of_nat (res mod 10 + 48) # out;
     let res = res div 10;
     if res = 0 then (if is_neg then do { guard (it - 1 \<noteq> 0); Some (45 # out) } else Some out)
     else write_digits is_neg it res out
   }"

definition IntToStringT :: "nat \<Rightarrow> bool \<Rightarrow> int \<Rightarrow> 'a::len word list option" where
  "IntToStringT w NEG v = write_digits (TestNeg NEG v) (3 * (w div 8) + 1) (ToUnsigned NEG w v) []"

definition IntToString :: "int \<Rightarrow> byte list option" where
  "IntToString = IntToStringT 32 True"

definition IntToString16 :: "int \<Rightarrow> 16 word list option" where
  "IntToString16 = IntToStringT 32 True"

definition UintToString :: "int \<Rightarrow> byte list option" where
  "UintToString = IntToStringT 32 False"

definition UintToString16 :: "int \<Rightarrow> 16 word list option" where
  "UintToString16 = IntToStringT 32 False"

definition Int64ToString :: "int \<Rightarrow> byte list option" where
  "Int64ToString = IntToStringT 64 True"

definition Int64ToString16 :: "int \<Rightarrow> 16 word list option" where
  "Int64ToString16 = IntToStringT 64 True"

definition Uint64ToString :: "int \<Rightarrow> byte list option" where
  "Uint64ToString = IntToStringT 64 False"

definition Uint64ToString16 :: "int \<Rightarrow> 16 word list option" where
  "Uint64ToString16 = IntToStringT 64 False"

section \<open>Reading numbers\<close>

definition CharToDigit :: "nat \<Rightarrow> 'a::len word \<Rightarrow> nat option" where
  "CharToDigit BASE c = (let c = unat c in
     if BASE \<le> 10 then (if 48 \<le> c \<and> c < 48 + BASE then Some (c - 48) else None)
     else if 48 \<le> c \<and> c \<le> 57 then Some (c - 48)
     else if 97 \<le> c \<and> c < 97 + BASE - 10 then Some (c - 97 + 10)
     else if 65 \<le> c \<and> c < 65 + BASE - 10 then Some (c - 65 + 10)
     else None)"

text \<open>\<open>isspace\<close> in the C locale; the test for wide characters, \<open>iswspace\<close>, is an argument of what uses
  it.\<close>

definition isspace :: "byte \<Rightarrow> bool" where
  "isspace c = (9 \<le> unat c \<and> unat c \<le> 13 \<or> unat c = 32)"

text \<open>What a conversion is made for: base, least and greatest value, width of the result.\<close>

record traits =
  kBase :: nat
  tr_min :: int
  tr_max :: int
  tr_width :: nat

text \<open>The checks answer whether the digit fits, and the output.\<close>

definition Positive_CheckBounds :: "traits \<Rightarrow> int \<Rightarrow> nat \<Rightarrow> bool \<times> int" where
  "Positive_CheckBounds t output new_digit =
     (let limit = signed_value (tr_width t) (tr_max t sdiv int (kBase t))
      in if output > limit \<or> output = limit \<and> int new_digit > tr_max t smod int (kBase t)
         then (False, signed_value (tr_width t) (tr_max t)) else (True, output))"

definition Negative_CheckBounds :: "traits \<Rightarrow> int \<Rightarrow> nat \<Rightarrow> bool \<times> int" where
  "Negative_CheckBounds t output new_digit =
     (if output < tr_min t sdiv int (kBase t) \<or>
         output = tr_min t sdiv int (kBase t) \<and> int new_digit > 0 - tr_min t smod int (kBase t)
      then (False, tr_min t) else (True, output))"

definition CheckBounds :: "bool \<Rightarrow> traits \<Rightarrow> int \<Rightarrow> nat \<Rightarrow> bool \<times> int" where
  "CheckBounds negative = (if negative then Negative_CheckBounds else Positive_CheckBounds)"

definition Increment :: "bool \<Rightarrow> traits \<Rightarrow> nat \<Rightarrow> int \<Rightarrow> int" where
  "Increment negative t digit output = signed_value (tr_width t) (if negative then output - int digit else output + int digit)"

primrec read_digits :: "bool \<Rightarrow> traits \<Rightarrow> bool \<Rightarrow> 'a::len word list \<Rightarrow> int \<Rightarrow> bool \<times> int" where
  "read_digits negative t first [] output = (True, output)"
| "read_digits negative t first (c # cs) output =
     (case CharToDigit (kBase t) c of
        None \<Rightarrow> (False, output)
      | Some new_digit \<Rightarrow>
          let (fits, output) = (if first then (True, output) else CheckBounds negative t output new_digit)
          in if \<not> fits then (False, output)
             else let output = (if first then output else signed_value (tr_width t) (output * int (kBase t)))
               in read_digits negative t False cs (Increment negative t new_digit output))"

definition skip_0x :: "traits \<Rightarrow> 'a::len word list \<Rightarrow> 'a word list" where
  "skip_0x t s = (if kBase t = 16 \<and> 2 \<le> length s \<and> s ! 0 = 48 \<and> (s ! 1 = 120 \<or> s ! 1 = 88) then drop 2 s else s)"

definition Base_Invoke :: "bool \<Rightarrow> traits \<Rightarrow> 'a::len word list \<Rightarrow> bool \<times> int" where
  "Base_Invoke negative t s = (if s = [] then (False, 0) else read_digits negative t True (skip_0x t s) 0)"

definition Invoke :: "('a::len word \<Rightarrow> bool) \<Rightarrow> traits \<Rightarrow> 'a word list \<Rightarrow> bool \<times> int" where
  "Invoke space t s =
     (let r = dropWhile space s;
          valid = (r = s);
          (ok, output) = (if r \<noteq> [] \<and> hd r = 45 then Base_Invoke True t (tl r)
            else Base_Invoke False t (if r \<noteq> [] \<and> hd r = 43 then tl r else r))
      in (valid \<and> ok, output))"

definition int_traits :: traits where
  "int_traits = \<lparr>kBase = 10, tr_min = - (2 ^ 31), tr_max = 2 ^ 31 - 1, tr_width = 32\<rparr>"

definition int64_traits :: traits where
  "int64_traits = \<lparr>kBase = 10, tr_min = - (2 ^ 63), tr_max = 2 ^ 63 - 1, tr_width = 64\<rparr>"

text \<open>The greatest value of the hexadecimal instance is that of an unsigned integer.\<close>

definition hex_traits :: traits where
  "hex_traits = \<lparr>kBase = 16, tr_min = - (2 ^ 31), tr_max = 2 ^ 32 - 1, tr_width = 32\<rparr>"

definition StringToInt :: "byte list \<Rightarrow> bool \<times> int" where
  "StringToInt = Invoke isspace int_traits"

definition StringToInt_wide :: "(16 word \<Rightarrow> bool) \<Rightarrow> 16 word list \<Rightarrow> bool \<times> int" where
  "StringToInt_wide iswspace = Invoke iswspace int_traits"

definition StringToInt64 :: "byte list \<Rightarrow> bool \<times> int" where
  "StringToInt64 = Invoke isspace int64_traits"

definition StringToInt64_wide :: "(16 word \<Rightarrow> bool) \<Rightarrow> 16 word list \<Rightarrow> bool \<times> int" where
  "StringToInt64_wide iswspace = Invoke iswspace int64_traits"

definition HexStringToInt :: "byte list \<Rightarrow> bool \<times> int" where
  "HexStringToInt = Invoke isspace hex_traits"

section \<open>Bytes in hexadecimal\<close>

definition kHexChars :: "byte list" where
  "kHexChars = [48, 49, 50, 51, 52, 53, 54, 55, 56, 57, 65, 66, 67, 68, 69, 70]"

definition HexEncode :: "byte list \<Rightarrow> byte list" where
  "HexEncode bytes = concat (map (\<lambda>b. [kHexChars ! (unat b div 16), kHexChars ! (unat b mod 16)]) bytes)"

fun hex_pairs :: "byte list \<Rightarrow> bool \<times> byte list" where
  "hex_pairs (a # b # s) =
     (case (CharToDigit 16 a, CharToDigit 16 b) of
        (Some msb, Some lsb) \<Rightarrow> let (ok, out) = hex_pairs s in (ok, word_of_nat (16 * msb + lsb) # out)
      | _ \<Rightarrow> (False, []))"
| "hex_pairs s = (True, [])"

definition HexStringToBytes :: "byte list \<Rightarrow> bool \<times> byte list" where
  "HexStringToBytes input =
     (if length input = 0 \<or> length input mod 2 \<noteq> 0 then (False, []) else hex_pairs input)"

end
