(* ===== verification/NumberProofs.thy ===== *)
theory NumberProofs
  imports NumberConversions
begin

text \<open>
  What the conversions between numbers and strings (\<open>src/base/string_number_conversions.cc\<close>) promise.
\<close>

section \<open>Decimal numbers\<close>

definition decimal_digit :: "'a::len word \<Rightarrow> bool" where
  "decimal_digit c \<longleftrightarrow> 48 \<le> unat c \<and> unat c \<le> 57"

definition digit_value :: "'a::len word \<Rightarrow> nat" where
  "digit_value c = unat c - 48"

definition decimal_value :: "nat \<Rightarrow> 'a::len word list \<Rightarrow> nat" where
  "decimal_value n ds = foldl (\<lambda>n c. 10 * n + digit_value c) n ds"

text \<open>A string of decimal digits, with a sign or not, and its value.\<close>

definition decimal_string :: "'a::len word list \<Rightarrow> int \<Rightarrow> bool" where
  "decimal_string s v \<longleftrightarrow> (\<exists>ds. ds \<noteq> [] \<and> (\<forall>c \<in> set ds. decimal_digit c) \<and>
     ((s = ds \<or> s = 43 # ds) \<and> v = int (decimal_value 0 ds) \<or> s = 45 # ds \<and> v = - int (decimal_value 0 ds)))"

definition with_sign :: "bool \<Rightarrow> nat \<Rightarrow> int" where
  "with_sign negative n = (if negative then - int n else int n)"

definition decimal_traits :: "traits \<Rightarrow> bool" where
  "decimal_traits t \<longleftrightarrow> kBase t = 10 \<and> tr_min t = - (2 ^ (tr_width t - 1)) \<and> tr_max t = 2 ^ (tr_width t - 1) - 1 \<and>
     0 < tr_width t"

definition bound :: "bool \<Rightarrow> traits \<Rightarrow> nat" where
  "bound negative t = (if negative then 2 ^ (tr_width t - 1) else 2 ^ (tr_width t - 1) - 1)"

lemma decimal_value_simps [simp]: "decimal_value n [] = n" "decimal_value n (c # cs) = decimal_value (10 * n + digit_value c) cs"
  by (simp_all add: decimal_value_def)

lemma decimal_value_ge: "n \<le> decimal_value n ds"
proof (induction ds arbitrary: n)
  case (Cons c ds)
  have "n \<le> 10 * n + digit_value c" by simp
  then show ?case using Cons [of "10 * n + digit_value c"] unfolding decimal_value_simps by linarith
qed simp

lemma CharToDigit_decimal: "CharToDigit 10 c = (if decimal_digit c then Some (digit_value c) else None)"
  by (simp add: CharToDigit_def decimal_digit_def digit_value_def Let_def)

lemma digit_value_less: "decimal_digit c \<Longrightarrow> digit_value c < 10"
  unfolding decimal_digit_def digit_value_def by linarith

lemma signed_value_small:
  assumes "- (2 ^ (w - 1)) \<le> i" "i < 2 ^ (w - 1)" "0 < w"
  shows "signed_value w i = i"
proof -
  have w: "(2 :: int) ^ w = 2 * 2 ^ (w - 1)" using assms(3) by (cases w) simp_all
  show ?thesis
  proof (cases "0 \<le> i")
    case True
    then show ?thesis using assms(2) by (simp add: signed_value_def w)
  next
    case False
    have "i mod 2 ^ w = (i + 2 ^ w) mod 2 ^ w" by simp
    also have "\<dots> = i + 2 ^ w" using False assms(1) by (intro mod_pos_pos_trivial) (simp_all add: w)
    finally show ?thesis using False assms(1) by (simp add: signed_value_def w)
  qed
qed

lemma signed_in_range:
  assumes "n \<le> bound negative t" "0 < tr_width t"
  shows "signed_value (tr_width t) (with_sign negative n) = with_sign negative n"
proof (rule signed_value_small [OF _ _ assms(2)])
  define b :: nat where "b = 2 ^ (tr_width t - 1)"
  have b: "1 \<le> b" "(2 :: int) ^ (tr_width t - 1) = int b" by (simp_all add: b_def)
  have "n \<le> (if negative then b else b - 1)" using assms(1) by (simp only: bound_def b_def [symmetric])
  then show "- (2 ^ (tr_width t - 1)) \<le> with_sign negative n" "with_sign negative n < 2 ^ (tr_width t - 1)"
    unfolding b(2) with_sign_def using b(1) by (cases negative; simp)+
qed

lemma over_limit:
  fixes n d m :: nat
  assumes "d < 10"
  shows "(n > m div 10 \<or> n = m div 10 \<and> d > m mod 10) \<longleftrightarrow> 10 * n + d > m"
proof -
  have m: "m = 10 * (m div 10) + m mod 10" "m mod 10 < 10" by simp_all
  show ?thesis
  proof (cases n "m div 10" rule: linorder_cases)
    case less
    then have "10 * n + 10 \<le> 10 * (m div 10)" by linarith
    then show ?thesis using less m assms by linarith
  next
    case equal
    then show ?thesis using m by linarith
  next
    case greater
    then have "10 * (m div 10) + 10 \<le> 10 * n" by linarith
    then show ?thesis using greater m by linarith
  qed
qed

lemma signed_division_int:
  "int m sdiv 10 = int (m div 10)" "int m smod 10 = int (m mod 10)"
  "(- int m) sdiv 10 = - int (m div 10)" "(- int m) smod 10 = - int (m mod 10)"
  by (cases "m = 0"; simp add: signed_divide_int_def signed_modulo_int_def zdiv_int zmod_int)+

lemma CheckBounds_decimal:
  assumes t: "decimal_traits t" and d: "d < 10"
  shows "fst (CheckBounds negative t (with_sign negative n) d) \<longleftrightarrow> 10 * n + d \<le> bound negative t"
    and "10 * n + d \<le> bound negative t \<Longrightarrow> CheckBounds negative t (with_sign negative n) d = (True, with_sign negative n)"
proof -
  let ?m = "bound negative t"
  have over: "(n > ?m div 10 \<or> n = ?m div 10 \<and> d > ?m mod 10) \<longleftrightarrow> \<not> 10 * n + d \<le> ?m"
    unfolding over_limit [OF d] not_le ..
  have b: "kBase t = 10" "0 < tr_width t" using t by (simp_all add: decimal_traits_def)
  show "fst (CheckBounds negative t (with_sign negative n) d) \<longleftrightarrow> 10 * n + d \<le> ?m"
    and "10 * n + d \<le> ?m \<Longrightarrow> CheckBounds negative t (with_sign negative n) d = (True, with_sign negative n)"
  proof (atomize (full), cases negative)
    case True
    have m: "tr_min t = - int ?m" using t True by (simp add: decimal_traits_def bound_def)
    have "tr_min t sdiv 10 = - int (?m div 10)" "tr_min t smod 10 = - int (?m mod 10)"
      by (simp_all only: m signed_division_int)
    then have "(with_sign negative n < tr_min t sdiv 10 \<or> with_sign negative n = tr_min t sdiv 10 \<and> int d > 0 - tr_min t smod 10) \<longleftrightarrow>
        \<not> 10 * n + d \<le> ?m"
      unfolding over [symmetric] using True by (simp add: with_sign_def)
    then show "(fst (CheckBounds negative t (with_sign negative n) d) \<longleftrightarrow> 10 * n + d \<le> ?m) \<and>
        (10 * n + d \<le> ?m \<longrightarrow> CheckBounds negative t (with_sign negative n) d = (True, with_sign negative n))"
      using True b by (simp add: CheckBounds_def Negative_CheckBounds_def)
  next
    case False
    have m: "tr_max t = int ?m" using t False by (simp add: decimal_traits_def bound_def of_nat_diff)
    have "?m div 10 \<le> ?m" by simp
    then have "signed_value (tr_width t) (with_sign negative (?m div 10)) = with_sign negative (?m div 10)"
      by (rule signed_in_range [OF _ b(2)])
    then have "signed_value (tr_width t) (tr_max t sdiv 10) = int (?m div 10)" "tr_max t smod 10 = int (?m mod 10)"
      using False by (simp_all add: m signed_division_int with_sign_def)
    then have "(with_sign negative n > signed_value (tr_width t) (tr_max t sdiv 10) \<or>
        with_sign negative n = signed_value (tr_width t) (tr_max t sdiv 10) \<and> int d > tr_max t smod 10) \<longleftrightarrow>
        \<not> 10 * n + d \<le> ?m"
      unfolding over [symmetric] using False by (simp add: with_sign_def)
    then show "(fst (CheckBounds negative t (with_sign negative n) d) \<longleftrightarrow> 10 * n + d \<le> ?m) \<and>
        (10 * n + d \<le> ?m \<longrightarrow> CheckBounds negative t (with_sign negative n) d = (True, with_sign negative n))"
      using False b by (simp add: CheckBounds_def Positive_CheckBounds_def Let_def)
  qed
qed

lemma Increment_decimal:
  assumes "decimal_traits t" "10 * n + d \<le> bound negative t"
  shows "Increment negative t d (signed_value (tr_width t) (with_sign negative n * 10)) = with_sign negative (10 * n + d)"
proof -
  have w: "0 < tr_width t" using assms(1) by (simp add: decimal_traits_def)
  have "10 * n \<le> bound negative t" using assms(2) by simp
  from signed_in_range [OF this w] have "signed_value (tr_width t) (with_sign negative n * 10) = with_sign negative n * 10"
    by (simp add: with_sign_def mult.commute split: if_splits)
  moreover have "(if negative then with_sign negative n * 10 - int d else with_sign negative n * 10 + int d) =
      with_sign negative (10 * n + d)"
    by (simp add: with_sign_def)
  ultimately show ?thesis using signed_in_range [OF assms(2) w] by (simp add: Increment_def)
qed

text \<open>The digits behind the first.\<close>

lemma read_digits_decimal:
  assumes "decimal_traits t" "n \<le> bound negative t"
  shows "read_digits negative t False s (with_sign negative n) = (True, v) \<longleftrightarrow>
    (\<forall>c \<in> set s. decimal_digit c) \<and> decimal_value n s \<le> bound negative t \<and> v = with_sign negative (decimal_value n s)"
  using assms(2)
proof (induction s arbitrary: n)
  case (Cons c s)
  have b: "kBase t = 10" using assms(1) by (simp add: decimal_traits_def)
  show ?case
  proof (cases "decimal_digit c")
    case False
    then show ?thesis by (simp add: b CharToDigit_decimal)
  next
    case True
    note d = digit_value_less [OF True]
    show ?thesis
    proof (cases "10 * n + digit_value c \<le> bound negative t")
      case fits: True
      then show ?thesis
        using True Cons.IH [OF fits] CheckBounds_decimal(2) [OF assms(1) d fits] Increment_decimal [OF assms(1) fits]
        by (simp add: b CharToDigit_decimal)
    next
      case False
      then have "\<not> fst (CheckBounds negative t (with_sign negative n) (digit_value c))"
        using CheckBounds_decimal(1) [OF assms(1) d] by simp
      moreover have "\<not> decimal_value (10 * n + digit_value c) s \<le> bound negative t"
        using False decimal_value_ge [of "10 * n + digit_value c" s] by linarith
      ultimately show ?thesis using True by (simp add: b CharToDigit_decimal split_beta)
    qed
  qed
qed auto

lemma Base_Invoke_decimal:
  assumes "decimal_traits t" "9 \<le> bound negative t"
  shows "Base_Invoke negative t s = (True, v) \<longleftrightarrow>
    s \<noteq> [] \<and> (\<forall>c \<in> set s. decimal_digit c) \<and> decimal_value 0 s \<le> bound negative t \<and> v = with_sign negative (decimal_value 0 s)"
proof (cases s)
  case (Cons c cs)
  have b: "kBase t = 10" "0 < tr_width t" using assms(1) by (simp_all add: decimal_traits_def)
  show ?thesis
  proof (cases "decimal_digit c")
    case True
    then have d: "digit_value c \<le> bound negative t" using digit_value_less [OF True] assms(2) by simp
    have "Increment negative t (digit_value c) 0 = with_sign negative (digit_value c)"
      using signed_in_range [OF d b(2)] by (cases negative) (simp_all add: Increment_def with_sign_def)
    then show ?thesis using True read_digits_decimal [OF assms(1) d] Cons
      by (simp add: Base_Invoke_def skip_0x_def b CharToDigit_decimal)
  next
    case False
    then show ?thesis by (simp add: Cons Base_Invoke_def skip_0x_def b CharToDigit_decimal)
  qed
qed (simp add: Base_Invoke_def)

text \<open>A test for space that no sign and no digit passes.\<close>

definition proper_space :: "('a::len word \<Rightarrow> bool) \<Rightarrow> bool" where
  "proper_space space \<longleftrightarrow> \<not> space 43 \<and> \<not> space 45 \<and> (\<forall>c. decimal_digit c \<longrightarrow> \<not> space c)"

lemma signs_not_digits: "8 \<le> LENGTH('a) \<Longrightarrow> \<not> decimal_digit (43 :: 'a::len word)" "8 \<le> LENGTH('a) \<Longrightarrow> \<not> decimal_digit (45 :: 'a::len word)"
proof -
  assume "8 \<le> LENGTH('a)"
  then have "(2 :: nat) ^ 8 \<le> 2 ^ LENGTH('a)" by (intro power_increasing) simp_all
  then have "(256 :: nat) \<le> 2 ^ LENGTH('a)" by simp
  then have "unat (43 :: 'a word) = 43" "unat (45 :: 'a word) = 45"
    by (simp_all add: unsigned_numeral take_bit_eq_mod)
  then show "\<not> decimal_digit (43 :: 'a word)" "\<not> decimal_digit (45 :: 'a word)" by (simp_all add: decimal_digit_def)
qed

lemma decimal_string_minus:
  assumes "8 \<le> LENGTH('a)"
  shows "decimal_string (45 # ds :: 'a::len word list) v \<longleftrightarrow>
    ds \<noteq> [] \<and> (\<forall>c \<in> set ds. decimal_digit c) \<and> v = - int (decimal_value 0 ds)"
  using signs_not_digits [OF assms] assms by (auto simp: decimal_string_def)

lemma decimal_string_plus:
  assumes "8 \<le> LENGTH('a)"
  shows "decimal_string (43 # ds :: 'a::len word list) v \<longleftrightarrow>
    ds \<noteq> [] \<and> (\<forall>c \<in> set ds. decimal_digit c) \<and> v = int (decimal_value 0 ds)"
  using signs_not_digits [OF assms] assms by (auto simp: decimal_string_def)

lemma decimal_string_bare:
  assumes "s \<noteq> []" "hd s \<noteq> 45" "hd s \<noteq> 43"
  shows "decimal_string s v \<longleftrightarrow> (\<forall>c \<in> set s. decimal_digit c) \<and> v = int (decimal_value 0 s)"
  using assms by (auto simp: decimal_string_def)

lemma decimal_string_hd:
  assumes "decimal_string s v"
  shows "s \<noteq> [] \<and> (hd s = 43 \<or> hd s = 45 \<or> decimal_digit (hd s))"
  using assms by (auto simp: decimal_string_def)

lemma Invoke_decimal:
  fixes s :: "'a::len word list"
  assumes "8 \<le> LENGTH('a)" "proper_space space" "decimal_traits t" "5 \<le> tr_width t"
  shows "Invoke space t s = (True, v) \<longleftrightarrow> decimal_string s v \<and> tr_min t \<le> v \<and> v \<le> tr_max t"
proof (cases "s \<noteq> [] \<and> \<not> space (hd s)")
  case False
  have "\<not> decimal_string s v" using decimal_string_hd [of s v] False assms(2) by (auto simp: proper_space_def)
  moreover have "fst (Invoke space t s) \<noteq> True"
  proof (cases s)
    case (Cons c cs)
    then have "length (dropWhile space s) < length s" using False length_dropWhile_le [of space cs] by simp
    then have "dropWhile space s \<noteq> s" by auto
    then show ?thesis by (simp add: Invoke_def split_beta Let_def)
  qed (simp add: Invoke_def Base_Invoke_def)
  ultimately show ?thesis by (metis fst_conv)
next
  case True
  then have drop: "dropWhile space s = s" by (cases s) simp_all
  define b :: nat where "b = 2 ^ (tr_width t - 1)"
  have "(2 :: nat) ^ 4 \<le> 2 ^ (tr_width t - 1)" using assms(4) by (intro power_increasing) simp_all
  then have b: "16 \<le> b" by (simp add: b_def)
  have lim: "tr_min t = - int b" "tr_max t = int b - 1" "bound True t = b" "bound False t = b - 1"
    using assms(3) by (simp_all add: decimal_traits_def bound_def b_def)
  have nine: "9 \<le> bound True t" "9 \<le> bound False t" using b by (simp_all add: lim)
  have pos: "(n \<le> bound False t \<and> v = with_sign False n) \<longleftrightarrow> v = int n \<and> tr_min t \<le> v \<and> v \<le> tr_max t" for n
    using b by (auto simp: lim with_sign_def)
  have neg: "(n \<le> bound True t \<and> v = with_sign True n) \<longleftrightarrow> v = - int n \<and> tr_min t \<le> v \<and> v \<le> tr_max t" for n
    using b by (auto simp: lim with_sign_def)
  consider (minus) ds where "s = 45 # ds" | (plus) ds where "s = 43 # ds" | (bare) "hd s \<noteq> 45" "hd s \<noteq> 43"
    using True by (cases s) auto
  then show ?thesis
  proof cases
    case minus
    have "Invoke space t s = Base_Invoke True t ds" by (simp add: Invoke_def drop minus [symmetric]) (simp add: minus)
    then show ?thesis using Base_Invoke_decimal [OF assms(3) nine(1), of ds v] neg
      unfolding minus decimal_string_minus [OF assms(1)] by auto
  next
    case plus
    have "Invoke space t s = Base_Invoke False t ds" using assms(1) by (simp add: Invoke_def drop plus [symmetric]) (simp add: plus)
    then show ?thesis using Base_Invoke_decimal [OF assms(3) nine(2), of ds v] pos
      unfolding plus decimal_string_plus [OF assms(1)] by auto
  next
    case bare
    have "Invoke space t s = Base_Invoke False t s" using bare by (simp add: Invoke_def drop)
    then show ?thesis using Base_Invoke_decimal [OF assms(3) nine(2), of s v] pos True
      unfolding decimal_string_bare [OF conjunct1 [OF True] bare] by auto
  qed
qed

text \<open>
  C27 (bounds): \<open>StringToInt\<close> and \<open>StringToInt64\<close> accept exactly the strings of one or more decimal
  digits with at most one sign before them whose value is in the range of the type, and answer that
  value; in particular they reject every number that does not fit. The versions for wide characters do the same, for
  every test for spaces that no sign and no digit passes.
\<close>

theorem string_to_int_exact:
  "(StringToInt s = (True, v) \<longleftrightarrow> decimal_string s v \<and> - (2 ^ 31) \<le> v \<and> v < 2 ^ 31) \<and>
   (StringToInt64 s = (True, v) \<longleftrightarrow> decimal_string s v \<and> - (2 ^ 63) \<le> v \<and> v < 2 ^ 63) \<and>
   (proper_space iswspace \<longrightarrow>
     (StringToInt_wide iswspace s16 = (True, v) \<longleftrightarrow> decimal_string s16 v \<and> - (2 ^ 31) \<le> v \<and> v < 2 ^ 31) \<and>
     (StringToInt64_wide iswspace s16 = (True, v) \<longleftrightarrow> decimal_string s16 v \<and> - (2 ^ 63) \<le> v \<and> v < 2 ^ 63))"
proof -
  have space: "proper_space isspace" by (auto simp: proper_space_def isspace_def decimal_digit_def)
  have t: "decimal_traits int_traits" "decimal_traits int64_traits" by (simp_all add: decimal_traits_def int_traits_def int64_traits_def)
  have w: "5 \<le> tr_width int_traits" "5 \<le> tr_width int64_traits" by (simp_all add: int_traits_def int64_traits_def)
  have e: "8 \<le> LENGTH(8)" "8 \<le> LENGTH(16)" by simp_all
  show ?thesis
    using Invoke_decimal [OF e(1) space t(1) w(1), of s v] Invoke_decimal [OF e(1) space t(2) w(2), of s v]
      Invoke_decimal [OF e(2) _ t(1) w(1), of iswspace s16 v] Invoke_decimal [OF e(2) _ t(2) w(2), of iswspace s16 v]
    by (auto simp: StringToInt_def StringToInt64_def StringToInt_wide_def StringToInt64_wide_def int_traits_def int64_traits_def)
qed

theorem string_to_int_exact_witness: "StringToInt_wide (\<lambda>c. unat c = 32) [45, 53] = (True, - 5)"
proof -
  have "proper_space (\<lambda>c :: 16 word. unat c = 32)" by (auto simp: proper_space_def decimal_digit_def)
  moreover have "decimal_string [45, 53 :: 16 word] (- 5)"
    unfolding decimal_string_def by (intro exI [of _ "[53]"]) (simp add: decimal_digit_def digit_value_def)
  ultimately show ?thesis using string_to_int_exact [of "[]" "- 5" "\<lambda>c. unat c = 32" "[45, 53]"] by simp
qed

section \<open>Writing and reading back\<close>

lemma decimal_value_snoc: "decimal_value n (ds @ [c]) = 10 * decimal_value n ds + digit_value c"
  by (simp add: decimal_value_def)

lemma digit_character:
  assumes "8 \<le> LENGTH('a)" "r < 10"
  shows "decimal_digit (word_of_nat (r + 48) :: 'a::len word)" "digit_value (word_of_nat (r + 48) :: 'a word) = r"
proof -
  have "(2 :: nat) ^ 8 \<le> 2 ^ LENGTH('a)" using assms(1) by (intro power_increasing) simp_all
  then have "r + 48 < 2 ^ LENGTH('a)" using assms(2) by simp
  then have "unat (word_of_nat (r + 48) :: 'a word) = r + 48"
    by (simp only: unsigned_of_nat take_bit_eq_mod mod_less of_nat_id)
  then show "decimal_digit (word_of_nat (r + 48) :: 'a word)" "digit_value (word_of_nat (r + 48) :: 'a word) = r"
    using assms(2) by (simp_all add: decimal_digit_def digit_value_def)
qed

lemma write_digits_decimal:
  fixes out :: "'a::len word list"
  assumes "8 \<le> LENGTH('a)" "res < 10 ^ k" "0 < k" "k + 2 \<le> it"
  shows "\<exists>ds. write_digits is_neg it res out = Some ((if is_neg then [45] else []) @ ds @ out) \<and> ds \<noteq> [] \<and>
    (\<forall>c \<in> set ds. decimal_digit c) \<and> decimal_value 0 ds = res"
  using assms(2-4)
proof (induction it arbitrary: res out k)
  case (Suc it)
  have r: "res mod 10 < 10" by simp
  note c = digit_character [OF assms(1) r]
  let ?c = "word_of_nat (res mod 10 + 48) :: 'a word"
  show ?case
  proof (cases "res div 10 = 0")
    case True
    then have "res < 10" by simp
    then show ?thesis using True Suc.prems c
      by (intro exI [of _ "[?c]"]) simp
  next
    case False
    then obtain j where j: "k = Suc j" "0 < j" using Suc.prems(1,2) by (cases k; cases "k - 1") auto
    have "res div 10 < 10 ^ j" using Suc.prems(1) by (simp add: j less_mult_imp_div_less mult.commute)
    from Suc.IH [OF this j(2), of "?c # out"] obtain ds where ds:
      "write_digits is_neg it (res div 10) (?c # out) = Some ((if is_neg then [45] else []) @ ds @ ?c # out)"
      "\<forall>c \<in> set ds. decimal_digit c" "decimal_value 0 ds = res div 10"
      using Suc.prems(3) j by auto
    then show ?thesis using False Suc.prems(3) c
      by (intro exI [of _ "ds @ [?c]"]) (auto simp: decimal_value_snoc)
  qed
qed simp

lemma IntToStringT_decimal:
  assumes "8 \<le> LENGTH('a)" "0 < w" "NEG \<Longrightarrow> - (2 ^ (w - 1)) \<le> v \<and> v < 2 ^ (w - 1)" "\<not> NEG \<Longrightarrow> 0 \<le> v \<and> v < 2 ^ w"
    "(2 :: nat) ^ w \<le> 10 ^ k" "0 < k" "k + 2 \<le> 3 * (w div 8) + 1"
  shows "\<exists>s :: 'a::len word list. IntToStringT w NEG v = Some s \<and> decimal_string s v"
proof -
  have w: "(2 :: int) ^ w = 2 * 2 ^ (w - 1)" using assms(2) by (cases w) simp_all
  have "\<bar>v\<bar> < 2 ^ w" using assms(3,4) unfolding w by (cases NEG) auto
  then have u: "ToUnsigned NEG w v = nat \<bar>v\<bar>" using assms(3,4) by (cases NEG) (auto simp: ToUnsigned_def)
  have "int (nat \<bar>v\<bar>) < int (2 ^ w)" using \<open>\<bar>v\<bar> < 2 ^ w\<close> by simp
  then have "nat \<bar>v\<bar> < 10 ^ k" using assms(5) by linarith
  from write_digits_decimal [OF assms(1) this assms(6,7), of "TestNeg NEG v" "[]"] obtain ds :: "'a word list" where
    ds: "IntToStringT w NEG v = Some ((if TestNeg NEG v then [45] else []) @ ds)" "ds \<noteq> []"
    "\<forall>c \<in> set ds. decimal_digit c" "decimal_value 0 ds = nat \<bar>v\<bar>" by (auto simp: IntToStringT_def u)
  have "decimal_string ((if TestNeg NEG v then [45] else []) @ ds) v"
    unfolding decimal_string_def using ds assms(4) by (intro exI [of _ ds]) (auto simp: TestNeg_def)
  then show ?thesis using ds(1) by blast
qed

text \<open>
  C28 (roundtrip): every integer of 64 bits, the least one included, is read back from the string that is written for
  it, and every one of 32 bits by the functions for 32 bits; writing never leaves the buffer of the function. For an
  unsigned integer the string has its value.
\<close>

theorem int_string_roundtrip:
  assumes "- (2 ^ 63) \<le> n" "n < 2 ^ 63"
  shows "(\<exists>s. Int64ToString n = Some s \<and> StringToInt64 s = (True, n)) \<and>
    (- (2 ^ 31) \<le> n \<and> n < 2 ^ 31 \<longrightarrow> (\<exists>s. IntToString n = Some s \<and> StringToInt s = (True, n))) \<and>
    (0 \<le> n \<longrightarrow> (\<exists>s. Uint64ToString n = Some s \<and> decimal_string s n)) \<and>
    (0 \<le> n \<and> n < 2 ^ 32 \<longrightarrow> (\<exists>s. UintToString n = Some s \<and> decimal_string s n))"
proof -
  have e: "8 \<le> LENGTH(8)" by simp
  have space: "proper_space isspace" by (auto simp: proper_space_def isspace_def decimal_digit_def)
  have t: "decimal_traits int_traits" "decimal_traits int64_traits" by (simp_all add: decimal_traits_def int_traits_def int64_traits_def)
  have w: "5 \<le> tr_width int_traits" "5 \<le> tr_width int64_traits" by (simp_all add: int_traits_def int64_traits_def)
  have "\<exists>s :: byte list. IntToStringT 64 True n = Some s \<and> decimal_string s n"
    using assms by (intro IntToStringT_decimal [where k = 20]) simp_all
  then have "\<exists>s. Int64ToString n = Some s \<and> StringToInt64 s = (True, n)"
    unfolding Int64ToString_def StringToInt64_def Invoke_decimal [OF e space t(2) w(2)]
    using assms by (simp add: int64_traits_def)
  moreover have "\<exists>s. IntToString n = Some s \<and> StringToInt s = (True, n)" if n: "- (2 ^ 31) \<le> n" "n < 2 ^ 31"
  proof -
    have "\<exists>s :: byte list. IntToStringT 32 True n = Some s \<and> decimal_string s n"
      using n by (intro IntToStringT_decimal [where k = 10]) simp_all
    then show ?thesis unfolding IntToString_def StringToInt_def Invoke_decimal [OF e space t(1) w(1)]
      using n by (simp add: int_traits_def)
  qed
  moreover have "\<exists>s :: byte list. IntToStringT 64 False n = Some s \<and> decimal_string s n" if "0 \<le> n"
    using that assms by (intro IntToStringT_decimal [where k = 20]) simp_all
  moreover have "\<exists>s :: byte list. IntToStringT 32 False n = Some s \<and> decimal_string s n" if "0 \<le> n" "n < 2 ^ 32"
    using that by (intro IntToStringT_decimal [where k = 10]) simp_all
  ultimately show ?thesis by (simp add: Uint64ToString_def UintToString_def)
qed

theorem int_string_roundtrip_witness:
  "\<exists>s. Int64ToString (- 9223372036854775808) = Some s \<and> StringToInt64 s = (True, - 9223372036854775808)"
  using int_string_roundtrip [of "- 9223372036854775808"] by simp

section \<open>Hexadecimal\<close>

lemma CharToDigit_kHexChars: "k < 16 \<Longrightarrow> CharToDigit 16 (kHexChars ! k) = Some k"
proof -
  have "list_all (\<lambda>k. CharToDigit 16 (kHexChars ! k) = Some k) [0..<16]" by code_simp
  then show "k < 16 \<Longrightarrow> ?thesis" by (simp add: list_all_iff)
qed

lemma length_HexEncode [simp]: "length (HexEncode bs) = 2 * length bs"
  by (induction bs) (simp_all add: HexEncode_def)

lemma hex_pairs_HexEncode: "hex_pairs (HexEncode bs) = (True, bs)"
proof (induction bs)
  case (Cons b bs)
  have "unat b < 256" using unsigned_less [of b] by simp
  then have "unat b div 16 < 16" "unat b mod 16 < 16" by simp_all
  then show ?case using Cons by (simp add: HexEncode_def CharToDigit_kHexChars)
qed (simp add: HexEncode_def)

lemma hex_bytes_roundtrip: "bs \<noteq> [] \<Longrightarrow> HexStringToBytes (HexEncode bs) = (True, bs)"
  by (simp add: HexStringToBytes_def hex_pairs_HexEncode)

text \<open>A string of hexadecimal digits and its value.\<close>

definition hex_digits :: "byte list \<Rightarrow> bool" where
  "hex_digits s \<longleftrightarrow> (\<forall>c \<in> set s. CharToDigit 16 c \<noteq> None)"

definition hex_value :: "nat \<Rightarrow> byte list \<Rightarrow> nat" where
  "hex_value n s = foldl (\<lambda>n c. 16 * n + the (CharToDigit 16 c)) n s"

lemma hex_value_simps [simp]: "hex_value n [] = n" "hex_value n (c # cs) = hex_value (16 * n + the (CharToDigit 16 c)) cs"
  by (simp_all add: hex_value_def)

lemma hex_value_ge: "n \<le> hex_value n s"
proof (induction s arbitrary: n)
  case (Cons c s)
  have "n \<le> 16 * n + the (CharToDigit 16 c)" by simp
  then show ?case using Cons [of "16 * n + the (CharToDigit 16 c)"] unfolding hex_value_simps by linarith
qed simp

lemma CharToDigit_16: "CharToDigit 16 c = Some d \<Longrightarrow> d < 16"
  by (auto simp: CharToDigit_def Let_def split: if_splits)

lemma signed_value_mod: "signed_value w i = signed_value w (i mod 2 ^ w)"
  by (simp add: signed_value_def)

lemma signed_value_add: "signed_value w (signed_value w i + j) = signed_value w (i + j)"
proof -
  have "signed_value w i mod 2 ^ w = i mod 2 ^ w" by (simp add: signed_value_def Let_def)
  then have "(signed_value w i + j) mod 2 ^ w = (i + j) mod 2 ^ w" by (metis mod_add_left_eq)
  then show ?thesis by (metis signed_value_mod)
qed

lemma read_digits_hex:
  assumes "hex_digits s" "hex_value n s < 2 ^ 32"
  shows "read_digits False hex_traits False s (signed_value 32 (int n)) = (True, signed_value 32 (int (hex_value n s)))"
  using assms
proof (induction s arbitrary: n)
  case (Cons c s)
  obtain d where d: "CharToDigit 16 c = Some d" using Cons.prems(1) by (auto simp: hex_digits_def)
  have "16 * n + d < 2 ^ 32" using hex_value_ge [of "16 * n + d" s] Cons.prems(2) d by simp
  then have n: "n < 2 ^ 28" by simp
  have v: "signed_value 32 (int n) = int n" using n by (intro signed_value_small) simp_all
  have "signed_value 32 (268435455) = 268435455" by (simp add: signed_value_def Let_def)
  then have "CheckBounds False hex_traits (int n) d = (True, int n)"
    using n CharToDigit_16 [OF d]
    by (simp add: CheckBounds_def Positive_CheckBounds_def hex_traits_def signed_divide_int_def signed_modulo_int_def)
  moreover have "Increment False hex_traits d (signed_value 32 (int n * 16)) = signed_value 32 (int (16 * n + d))"
    by (simp add: Increment_def hex_traits_def signed_value_add mult.commute)
  moreover have "kBase hex_traits = 16" "tr_width hex_traits = 32" by (simp_all add: hex_traits_def)
  moreover have "read_digits False hex_traits False s (signed_value 32 (int (16 * n + d))) =
      (True, signed_value 32 (int (hex_value (16 * n + d) s)))"
    by (rule Cons.IH) (use Cons.prems d in \<open>simp_all add: hex_digits_def\<close>)
  ultimately show ?case using d v by simp
qed simp

lemma HexStringToInt_read:
  assumes "hex_digits s" "s \<noteq> []"
  shows "HexStringToInt s = read_digits False hex_traits True s 0"
proof -
  obtain c cs where s: "s = c # cs" using assms(2) by (cases s) auto
  obtain d where d: "CharToDigit 16 c = Some d" using assms(1) by (auto simp: hex_digits_def s)
  have c: "c \<noteq> 45" "c \<noteq> 43" "\<not> isspace c" using d by (auto simp: CharToDigit_def isspace_def Let_def split: if_splits)
  have "skip_0x hex_traits s = s"
  proof (rule ccontr)
    assume "skip_0x hex_traits s \<noteq> s"
    then have "2 \<le> length s" "s ! 1 = 120 \<or> s ! 1 = 88" by (auto simp: skip_0x_def split: if_splits)
    moreover from this(1) have "s ! 1 \<in> set s" by simp
    ultimately have "CharToDigit 16 (120 :: byte) \<noteq> None \<or> CharToDigit 16 (88 :: byte) \<noteq> None"
      using assms(1) unfolding hex_digits_def by metis
    then show False by (simp add: CharToDigit_def Let_def)
  qed
  then show ?thesis using c by (simp add: HexStringToInt_def Invoke_def Base_Invoke_def s)
qed

lemma read_digits_hex_first:
  assumes "hex_digits s" "s \<noteq> []" "hex_value 0 s < 2 ^ 32"
  shows "read_digits False hex_traits True s 0 = (True, signed_value 32 (int (hex_value 0 s)))"
proof -
  obtain c cs where s: "s = c # cs" using assms(2) by (cases s) auto
  obtain d where d: "CharToDigit 16 c = Some d" using assms(1) by (auto simp: hex_digits_def s)
  have "kBase hex_traits = 16" by (simp add: hex_traits_def)
  moreover have "Increment False hex_traits d 0 = signed_value 32 (int d)" by (simp add: Increment_def hex_traits_def)
  ultimately show ?thesis using read_digits_hex [of cs d] assms(1,3) d by (simp add: s hex_digits_def)
qed

lemma HexStringToInt_digits:
  assumes "hex_digits s" "s \<noteq> []" "hex_value 0 s < 2 ^ 32"
  shows "HexStringToInt s = (True, signed_value 32 (int (hex_value 0 s)))"
  using HexStringToInt_read [OF assms(1,2)] read_digits_hex_first [OF assms] by simp

end
