(* ===== verification/ChunkedDecoder.thy ===== *)
theory ChunkedDecoder
  imports NumberConversions
begin

text \<open>
  The decoder of the chunked transfer coding of HTTP (\<open>src/net/http/http_chunked_decoder.cc\<close>). A body comes in
  buffers of any size; the decoder removes the chunk markers from each and notices the end.
\<close>

record chunked_decoder =
  chunk_remaining :: int32
  line_buf :: "byte list"
  chunk_terminator_remaining :: bool
  reached_last_chunk :: bool
  reached_eof :: bool
  bytes_after_eof :: int32

abbreviation (input) ERR_INVALID_CHUNKED_ENCODING :: int32 where "ERR_INVALID_CHUNKED_ENCODING \<equiv> - 321"

definition HttpChunkedDecoder :: chunked_decoder where
  "HttpChunkedDecoder = \<lparr>chunk_remaining = 0, line_buf = [], chunk_terminator_remaining = False,
     reached_last_chunk = False, reached_eof = False, bytes_after_eof = 0\<rparr>"

text \<open>The digits \<open>0123456789abcdefABCDEF\<close>.\<close>

definition hex_characters :: "byte list" where
  "hex_characters = [48, 49, 50, 51, 52, 53, 54, 55, 56, 57, 97, 98, 99, 100, 101, 102, 65, 66, 67, 68, 69, 70]"

definition strip_spaces :: "byte list \<Rightarrow> byte list" where
  "strip_spaces s = rev (dropWhile (\<lambda>c. c = 32) (rev s))"

definition ParseChunkSize :: "byte list \<Rightarrow> int32 option" where
  "ParseChunkSize s =
     (let s = strip_spaces s
      in if list_ex (\<lambda>c. c \<notin> set hex_characters) s then None
         else let (ok, parsed_number) = HexStringToInt s
           in if ok \<and> parsed_number \<ge> 0 then Some parsed_number else None)"

text \<open>What a complete line does, without its end; the answer is whether it is as expected.\<close>

definition finish_line :: "byte list \<Rightarrow> chunked_decoder \<Rightarrow> bool \<times> chunked_decoder" where
  "finish_line line d =
     (if reached_last_chunk d then
        (True, (if line \<noteq> [] then d else d\<lparr>reached_eof := True\<rparr>)\<lparr>line_buf := []\<rparr>)
      else if chunk_terminator_remaining d then
        (if line \<noteq> [] then (False, d) else (True, d\<lparr>chunk_terminator_remaining := False, line_buf := []\<rparr>))
      else if line \<noteq> [] then
        (case ParseChunkSize (takeWhile (\<lambda>c. c \<noteq> 59) line) of
           None \<Rightarrow> (False, d)
         | Some n \<Rightarrow> (True, d\<lparr>chunk_remaining := n, reached_last_chunk := (if n = 0 then True else reached_last_chunk d),
             line_buf := []\<rparr>))
      else (False, d))"

definition strip_cr :: "byte list \<Rightarrow> byte list" where
  "strip_cr s = (if s \<noteq> [] \<and> last s = 13 then butlast s else s)"

text \<open>The answer is the number of bytes consumed, or an error.\<close>

definition ScanForChunkRemaining :: "byte list \<Rightarrow> chunked_decoder \<Rightarrow> (int32 \<times> chunked_decoder) option" where
  "ScanForChunkRemaining buf d = do {
     guard (chunk_remaining d = 0);
     guard (length buf > 0);
     Some (case find_index (\<lambda>c. c = 10) buf of
       Some index_of_lf \<Rightarrow>
         let line = strip_cr (take index_of_lf buf);
             d = (if line_buf d \<noteq> [] then d\<lparr>line_buf := line_buf d @ line\<rparr> else d);
             (ok, d) = finish_line (if line_buf d \<noteq> [] then line_buf d else line) d
         in (if ok then int index_of_lf + 1 else ERR_INVALID_CHUNKED_ENCODING, d)
     | None \<Rightarrow> (int (length buf), d\<lparr>line_buf := line_buf d @ strip_cr buf\<rparr>))
   }"

lemma Scan_consumes:
  "ScanForChunkRemaining buf d = Some (n, d') \<Longrightarrow> n < 0 \<or> 0 < n \<and> buf \<noteq> []"
  by (auto simp: ScanForChunkRemaining_def Let_def split: option.splits prod.splits if_splits)

text \<open>
  \<open>FilterBuf\<close>: the decoded bytes, which the code moves to the front of the buffer and counts, or an
  error. A negative number of remaining bytes would leave the buffer.
\<close>

function FilterBuf_loop :: "byte list \<Rightarrow> byte list \<Rightarrow> chunked_decoder \<Rightarrow> ((int32 + byte list) \<times> chunked_decoder) option" where
  "FilterBuf_loop out buf d =
     (if buf = [] then Some (Inr out, d)
      else if chunk_remaining d \<noteq> 0 then
        let num = min (chunk_remaining d) (int (length buf))
        in if num < 0 then None
           else FilterBuf_loop (out @ take (nat num) buf) (drop (nat num) buf)
             (d\<lparr>chunk_remaining := chunk_remaining d - num,
                chunk_terminator_remaining := (if chunk_remaining d - num = 0 then True else chunk_terminator_remaining d)\<rparr>)
      else if reached_eof d then
        Some (Inr out, d\<lparr>bytes_after_eof := to_int32 (to_uint32 (bytes_after_eof d + int (length buf)))\<rparr>)
      else case ScanForChunkRemaining buf d of
          None \<Rightarrow> None
        | Some (bytes_consumed, d) \<Rightarrow>
            if bytes_consumed < 0 then Some (Inl bytes_consumed, d)
            else FilterBuf_loop out (drop (nat bytes_consumed) buf) d)"
  by pat_completeness auto

termination
proof (relation "measure (\<lambda>(out, buf, d). length buf)", goal_cases)
  case (2 out buf d num)
  then show ?case by auto
next
  case (3 out buf d x n d')
  then show ?case using Scan_consumes [of buf d n d'] by auto
qed simp

declare FilterBuf_loop.simps [simp del]

definition FilterBuf :: "byte list \<Rightarrow> chunked_decoder \<Rightarrow> ((int32 + byte list) \<times> chunked_decoder) option" where
  "FilterBuf buf d = FilterBuf_loop [] buf d"

end
