(* ===== verification/ChunkedProofs.thy ===== *)
theory ChunkedProofs
  imports ChunkedDecoder NumberProofs
begin

text \<open>
  What the chunked decoder (\<open>src/net/http/http_chunked_decoder.cc\<close>) promises: the data of a well-formed body
  come out whole and in order however the body is cut into buffers; where the cut of an arbitrary stream
  matters and where it does not; what sizes are accepted.
\<close>

section \<open>The loop, line by line\<close>

text \<open>The answer of the decoder; after an error its state is of no use.\<close>

definition observe :: "((int32 + byte list) \<times> chunked_decoder) option \<Rightarrow> (int32 + byte list \<times> chunked_decoder) option" where
  "observe r = map_option (\<lambda>(x, d). case x of Inl e \<Rightarrow> Inl e | Inr out \<Rightarrow> Inr (out, d)) r"

lemma observe_simps [simp]: "observe None = None" "observe (Some (Inl e, d)) = Some (Inl e)"
  "observe (Some (Inr out, d)) = Some (Inr (out, d))"
  by (simp_all add: observe_def)

lemma finish_line_buf:
  "fst (finish_line line (d\<lparr>line_buf := l\<rparr>)) = fst (finish_line line d)"
  "fst (finish_line line d) \<Longrightarrow> snd (finish_line line (d\<lparr>line_buf := l\<rparr>)) = snd (finish_line line d)"
  by (auto simp: finish_line_def split: option.splits if_splits)

lemma find_lf: "10 \<notin> set x \<Longrightarrow> find_index (\<lambda>c. c = 10) (x @ 10 # y) = Some (length x)" for x :: "byte list"
  by (induction x) auto

lemma no_lf: "10 \<notin> set x \<Longrightarrow> find_index (\<lambda>c. c = 10) x = None" for x :: "byte list"
  by auto

lemma strip_cr_Nil [simp]: "strip_cr [] = []"
  by (simp add: strip_cr_def)

lemma strip_cr_append: "x = [] \<or> a = [] \<or> last a \<noteq> 13 \<Longrightarrow> strip_cr (a @ x) = strip_cr a @ strip_cr x"
  by (auto simp: strip_cr_def butlast_append)

definition line_of :: "chunked_decoder \<Rightarrow> byte list \<Rightarrow> byte list" where
  "line_of d x = line_buf d @ strip_cr x"

lemma Scan_line:
  assumes "chunk_remaining d = 0" "10 \<notin> set x"
  shows "\<exists>e. ScanForChunkRemaining (x @ 10 # y) d = Some (if fst (finish_line (line_of d x) d)
    then (int (length x) + 1, snd (finish_line (line_of d x) d)) else (ERR_INVALID_CHUNKED_ENCODING, e))"
proof (cases "line_buf d = []")
  case True
  then show ?thesis using assms
    by (simp add: ScanForChunkRemaining_def find_lf line_of_def split_beta)
next
  case False
  then show ?thesis using assms finish_line_buf [where line = "line_of d x" and l = "line_of d x" and d = d]
    by (simp add: ScanForChunkRemaining_def find_lf line_of_def split_beta Let_def)
qed

lemma loop_line:
  assumes "chunk_remaining d = 0" "\<not> reached_eof d" "10 \<notin> set x"
  shows "observe (FilterBuf_loop out (x @ 10 # y) d) =
    (if fst (finish_line (line_of d x) d) then observe (FilterBuf_loop out y (snd (finish_line (line_of d x) d)))
     else Some (Inl ERR_INVALID_CHUNKED_ENCODING))"
proof -
  obtain e where e: "ScanForChunkRemaining (x @ 10 # y) d = Some (if fst (finish_line (line_of d x) d)
    then (int (length x) + 1, snd (finish_line (line_of d x) d)) else (ERR_INVALID_CHUNKED_ENCODING, e))"
    using Scan_line [OF assms(1,3)] by blast
  have "drop (nat (int (length x) + 1)) (x @ 10 # y) = y" by (simp add: nat_add_distrib)
  then show ?thesis using assms(1,2) e by (subst FilterBuf_loop.simps) simp
qed

lemma loop_partial:
  assumes "chunk_remaining d = 0" "\<not> reached_eof d" "10 \<notin> set x" "x \<noteq> []"
  shows "FilterBuf_loop out x d = Some (Inr out, d\<lparr>line_buf := line_of d x\<rparr>)"
  using assms by (subst FilterBuf_loop.simps)
    (simp add: ScanForChunkRemaining_def no_lf line_of_def FilterBuf_loop.simps [of out "[]"])

lemma loop_Nil [simp]: "FilterBuf_loop out [] d = Some (Inr out, d)"
  by (simp add: FilterBuf_loop.simps)

lemma loop_data:
  assumes "chunk_remaining d = int (length x)" "x \<noteq> []"
  shows "FilterBuf_loop out (x @ y) d =
    FilterBuf_loop (out @ x) y (d\<lparr>chunk_remaining := 0, chunk_terminator_remaining := True\<rparr>)"
  using assms by (subst FilterBuf_loop.simps) simp

lemma loop_inside_data:
  assumes "int (length x) < chunk_remaining d" "x \<noteq> []"
  shows "FilterBuf_loop out x d = Some (Inr (out @ x), d\<lparr>chunk_remaining := chunk_remaining d - int (length x)\<rparr>)"
  using assms by (subst FilterBuf_loop.simps) simp

lemma loop_eof:
  assumes "chunk_remaining d = 0" "reached_eof d" "x \<noteq> []"
  shows "FilterBuf_loop out x d =
    Some (Inr out, d\<lparr>bytes_after_eof := to_int32 (to_uint32 (bytes_after_eof d + int (length x)))\<rparr>)"
  using assms by (subst FilterBuf_loop.simps) simp

section \<open>Cutting a stream\<close>

text \<open>
  A cut of a stream into \<open>a\<close> and \<open>b\<close> that does not separate a carriage return in a line from what
  follows it, unless it is the line feed.
\<close>

inductive cut_ok :: "chunked_decoder \<Rightarrow> byte list \<Rightarrow> byte list \<Rightarrow> bool" where
  cut_start: "cut_ok d [] b"
| cut_end: "cut_ok d a []"
| cut_after_eof: "chunk_remaining d = 0 \<Longrightarrow> reached_eof d \<Longrightarrow> cut_ok d a b"
| cut_inside_data: "int (length a) < chunk_remaining d \<Longrightarrow> cut_ok d a b"
| cut_after_data: "chunk_remaining d = int (length x) \<Longrightarrow> x \<noteq> [] \<Longrightarrow>
    cut_ok (d\<lparr>chunk_remaining := 0, chunk_terminator_remaining := True\<rparr>) a b \<Longrightarrow> cut_ok d (x @ a) b"
| cut_after_line: "chunk_remaining d = 0 \<Longrightarrow> \<not> reached_eof d \<Longrightarrow> 10 \<notin> set x \<Longrightarrow>
    (fst (finish_line (line_of d x) d) \<Longrightarrow> cut_ok (snd (finish_line (line_of d x) d)) a b) \<Longrightarrow> cut_ok d (x @ 10 # a) b"
| cut_inside_line: "chunk_remaining d = 0 \<Longrightarrow> \<not> reached_eof d \<Longrightarrow> 10 \<notin> set a \<Longrightarrow>
    last a \<noteq> 13 \<or> hd b = 10 \<Longrightarrow> cut_ok d a b"

definition and_then :: "(int32 + byte list \<times> chunked_decoder) option \<Rightarrow>
    (byte list \<Rightarrow> chunked_decoder \<Rightarrow> (int32 + byte list \<times> chunked_decoder) option) \<Rightarrow>
    (int32 + byte list \<times> chunked_decoder) option" where
  "and_then r f = (case r of None \<Rightarrow> None | Some (Inl e) \<Rightarrow> Some (Inl e) | Some (Inr (out, d)) \<Rightarrow> f out d)"

lemma and_then_simps [simp]: "and_then None f = None" "and_then (Some (Inl e)) f = Some (Inl e)"
  "and_then (Some (Inr (out, d))) f = f out d"
  by (simp_all add: and_then_def)

lemma and_then_end [simp]: "and_then r (\<lambda>out d. Some (Inr (out, d))) = r"
  by (auto simp: and_then_def split: option.splits sum.splits)

lemma to_uint32_wrap: "to_uint32 (to_int32 n + m) = to_uint32 (int n + m)"
proof -
  have "int (n mod 2 ^ 32) mod 2 ^ 32 = int n mod 2 ^ 32" by (simp add: zmod_int)
  then have "to_int32 n mod 2 ^ 32 = int n mod 2 ^ 32" by (simp add: to_int32_def Let_def zmod_int)
  then have "(to_int32 n + m) mod 2 ^ 32 = (int n + m) mod 2 ^ 32" by (metis mod_add_left_eq)
  then show ?thesis by (simp only: to_uint32_def)
qed

lemma to_uint32_of_int: "to_uint32 (int (to_uint32 i) + m) = to_uint32 (i + m)"
  by (simp add: to_uint32_def mod_simps)

text \<open>Decoding at once is decoding one part after the other.\<close>

lemma loop_append:
  assumes "cut_ok d a b"
  shows "observe (FilterBuf_loop out (a @ b) d) =
    and_then (observe (FilterBuf_loop out a d)) (\<lambda>out d. observe (FilterBuf_loop out b d))"
  using assms
proof (induction arbitrary: out)
  case (cut_after_eof d a b)
  then show ?case
    by (cases "a = []"; cases "b = []") (simp_all add: loop_eof to_uint32_wrap to_uint32_of_int add.assoc)
next
  case (cut_inside_data a d b)
  show ?case
  proof (cases "a = [] \<or> b = []")
    case False
    let ?n = "chunk_remaining d" and ?m = "chunk_remaining d - int (length a)"
    have n: "min ?n (int (length (a @ b))) = int (length a) + min ?m (int (length b))" by simp
    have m: "0 < min ?m (int (length b))" using cut_inside_data False by simp
    have "take (nat (int (length a) + min ?m (int (length b)))) (a @ b) = a @ take (nat (min ?m (int (length b)))) b"
      "drop (nat (int (length a) + min ?m (int (length b)))) (a @ b) = drop (nat (min ?m (int (length b)))) b"
      using m by (simp_all add: nat_add_distrib)
    then have "FilterBuf_loop out (a @ b) d = FilterBuf_loop (out @ a) b (d\<lparr>chunk_remaining := ?m\<rparr>)"
      using False cut_inside_data m
      by (subst (1 2) FilterBuf_loop.simps) (simp only: n Let_def, simp add: diff_diff_eq)
    then show ?thesis using False cut_inside_data by (simp add: loop_inside_data)
  qed auto
next
  case (cut_after_data d x a b)
  then show ?case by (simp add: loop_data)
next
  case (cut_after_line d x a b)
  then show ?case using loop_line [OF cut_after_line.hyps(1-3)] by simp
next
  case (cut_inside_line d a b)
  show ?case
  proof (cases "a = [] \<or> b = []")
    case False
    let ?d = "d\<lparr>line_buf := line_of d a\<rparr>"
    have d: "chunk_remaining ?d = 0" "\<not> reached_eof ?d" using cut_inside_line by simp_all
    have a: "FilterBuf_loop out a d = Some (Inr out, ?d)" using cut_inside_line False by (simp add: loop_partial)
    show ?thesis
    proof (cases "10 \<in> set b")
      case True
      then obtain x y where b: "b = x @ 10 # y" "10 \<notin> set x" by (meson split_list_first)
      have "x = [] \<or> last a \<noteq> 13" using cut_inside_line(4) b by (cases x) auto
      then have l: "line_of ?d x = line_of d (a @ x)" by (auto simp: line_of_def strip_cr_append)
      have "10 \<notin> set (a @ x)" using cut_inside_line(3) b(2) by simp
      note 1 = loop_line [OF cut_inside_line(1,2) this, of out y] and 2 = loop_line [OF d b(2), of out y]
      show ?thesis using 1 2 finish_line_buf [where line = "line_of d (a @ x)" and l = "line_of d a" and d = d] unfolding a b(1) l by simp
    next
      case no: False
      then have "hd b \<noteq> 10" using False by (cases b) auto
      then have "last a \<noteq> 13" using cut_inside_line(4) by simp
      then have "line_of ?d b = line_of d (a @ b)" by (simp add: line_of_def strip_cr_append)
      then show ?thesis using a no cut_inside_line False loop_partial [OF d no] by (simp add: loop_partial)
    qed
  qed auto
qed simp_all

section \<open>A sequence of buffers\<close>

primrec decode_pieces :: "chunked_decoder \<Rightarrow> byte list list \<Rightarrow> (int32 + byte list \<times> chunked_decoder) option" where
  "decode_pieces d [] = Some (Inr ([], d))"
| "decode_pieces d (b # bs) = and_then (observe (FilterBuf b d))
     (\<lambda>out d. and_then (decode_pieces d bs) (\<lambda>rest d. Some (Inr (out @ rest, d))))"

lemma and_then_assoc: "and_then (and_then r f) g = and_then r (\<lambda>out d. and_then (f out d) g)"
  by (auto simp: and_then_def split: option.splits sum.splits)

lemma loop_out:
  "observe (FilterBuf_loop (out' @ out) buf d) =
    and_then (observe (FilterBuf_loop out buf d)) (\<lambda>rest d. Some (Inr (out' @ rest, d)))"
proof (induction out buf d rule: FilterBuf_loop.induct)
  case (1 out buf d)
  note IH = 1
  show ?case
  proof (cases "buf = [] \<or> reached_eof d \<and> chunk_remaining d = 0")
    case True
    then show ?thesis by (subst (1 2) FilterBuf_loop.simps) auto
  next
    case loop: False
    show ?thesis
    proof (cases "chunk_remaining d = 0")
      case data: False
      let ?num = "min (chunk_remaining d) (int (length buf))"
      show ?thesis
      proof (cases "?num < 0")
        case True
        then have "chunk_remaining d < 0" by (simp add: min_less_iff_disj)
        then show ?thesis using loop data by (subst (1 2) FilterBuf_loop.simps) (simp add: Let_def)
      next
        case False
        have step: "FilterBuf_loop o' buf d = FilterBuf_loop (o' @ take (nat ?num) buf) (drop (nat ?num) buf)
             (d\<lparr>chunk_remaining := chunk_remaining d - ?num,
                chunk_terminator_remaining := (if chunk_remaining d - ?num = 0 then True else chunk_terminator_remaining d)\<rparr>)" for o'
          using loop data False by (subst FilterBuf_loop.simps) (simp only: Let_def if_True if_False simp_thms)
        show ?thesis using IH(1) [OF _ data refl False] loop unfolding step by simp
      qed
    next
      case True
      show ?thesis
      proof (cases "ScanForChunkRemaining buf d")
        case None
        then show ?thesis using loop True by (subst (1 2) FilterBuf_loop.simps) simp
      next
        case (Some r)
        obtain n d' where r: "r = (n, d')" by fastforce
        show ?thesis using loop True IH(2) [OF _ _ _ Some r [symmetric]] Some r
          by (subst (1 2) FilterBuf_loop.simps) simp
      qed
    qed
  qed
qed

lemma FilterBuf_append:
  assumes "cut_ok d a b"
  shows "observe (FilterBuf (a @ b) d) =
    and_then (observe (FilterBuf a d)) (\<lambda>out d. and_then (observe (FilterBuf b d)) (\<lambda>rest d. Some (Inr (out @ rest, d))))"
  unfolding FilterBuf_def loop_append [OF assms]
  by (intro arg_cong [where f = "and_then _"] ext loop_out [where out = "[]", simplified])

lemma decode_pieces_snoc:
  "decode_pieces d (bs @ [b]) = and_then (decode_pieces d bs)
     (\<lambda>out d. and_then (observe (FilterBuf b d)) (\<lambda>rest d. Some (Inr (out @ rest, d))))"
  by (induction bs arbitrary: d) (simp_all add: and_then_assoc)

lemma cut_ok_prefix:
  assumes "cut_ok d a e" "e = b @ c"
  shows "cut_ok d a b"
  using assms
proof (induction arbitrary: b)
  case (cut_inside_line d a e)
  show ?case
  proof (cases b)
    case Nil
    then show ?thesis by (simp add: cut_end)
  next
    case (Cons x xs)
    then have "last a \<noteq> 13 \<or> hd b = 10" using cut_inside_line by simp
    then show ?thesis by (rule cut_ok.cut_inside_line [OF cut_inside_line(1-3)])
  qed
next
  case (cut_after_line d x a e)
  then show ?case by (intro cut_ok.cut_after_line) simp_all
next
  case (cut_after_data d x a e)
  then show ?case by (simp add: cut_ok.cut_after_data)
next
  case (cut_inside_data a d e)
  then show ?case by (simp add: cut_ok.cut_inside_data)
next
  case (cut_after_eof d a e)
  then show ?case by (simp add: cut_ok.cut_after_eof)
qed (simp_all add: cut_start cut_end)

lemma decode_pieces_concat:
  assumes "\<And>a b. concat bs = a @ b \<Longrightarrow> cut_ok d a b"
  shows "decode_pieces d bs = observe (FilterBuf (concat bs) d)"
  using assms
proof (induction bs rule: rev_induct)
  case Nil
  then show ?case by (simp add: FilterBuf_def)
next
  case (snoc b bs)
  have "cut_ok d a c" if "concat bs = a @ c" for a c
    by (rule cut_ok_prefix [of d a "c @ b" c b]) (simp_all add: snoc.prems that)
  then have "decode_pieces d bs = observe (FilterBuf (concat bs) d)" by (rule snoc.IH)
  moreover have "cut_ok d (concat bs) b" by (rule snoc.prems) simp
  ultimately show ?case by (simp add: decode_pieces_snoc FilterBuf_append)
qed

lemma ParseChunkSize_nonneg: "ParseChunkSize s = Some n \<Longrightarrow> 0 \<le> n"
  by (auto simp: ParseChunkSize_def Let_def split: if_splits prod.splits)

lemma finish_line_nonneg: "0 \<le> chunk_remaining d \<Longrightarrow> 0 \<le> chunk_remaining (snd (finish_line line d))"
  by (auto simp: finish_line_def dest: ParseChunkSize_nonneg split: option.splits)

text \<open>A cut that does not separate a carriage return from what follows it is such a cut for every state.\<close>

lemma cut_not_after_cr:
  assumes "0 \<le> chunk_remaining d" "a = [] \<or> last a \<noteq> 13 \<or> b = [] \<or> hd b = 10"
  shows "cut_ok d a b"
  using assms
proof (induction "length a" arbitrary: a d rule: less_induct)
  case less
  consider (start) "a = []" | (inside) "int (length a) < chunk_remaining d"
    | (data) "a \<noteq> []" "0 < chunk_remaining d" "chunk_remaining d \<le> int (length a)"
    | (eof) "chunk_remaining d = 0" "reached_eof d"
    | (line) "a \<noteq> []" "chunk_remaining d = 0" "\<not> reached_eof d"
    using less.prems(1) by force
  then show ?case
  proof cases
    case data
    define n where "n = nat (chunk_remaining d)"
    have n: "0 < n" "n \<le> length a" "chunk_remaining d = int n" using data by (simp_all add: n_def)
    have "last a \<noteq> 13 \<or> b = [] \<or> hd b = 10" using less.prems(2) data(1) by simp
    then have "drop n a = [] \<or> last (drop n a) \<noteq> 13 \<or> b = [] \<or> hd b = 10" by (cases "n < length a") auto
    then have "cut_ok (d\<lparr>chunk_remaining := 0, chunk_terminator_remaining := True\<rparr>) (drop n a) b"
      using n by (intro less.hyps) simp_all
    then have "cut_ok d (take n a @ drop n a) b" using n by (intro cut_after_data) auto
    then show ?thesis by simp
  next
    case line
    show ?thesis
    proof (cases "10 \<in> set a")
      case True
      then obtain x y where a: "a = x @ 10 # y" "10 \<notin> set x" by (meson split_list_first)
      have "cut_ok (snd (finish_line (line_of d x) d)) y b"
        by (rule less.hyps) (use less.prems a in \<open>auto intro: finish_line_nonneg split: if_splits\<close>)
      then show ?thesis unfolding a(1) using line a(2) by (intro cut_after_line)
    next
      case False
      show ?thesis
      proof (cases "b = []")
        case True
        then show ?thesis by (simp add: cut_end)
      next
        case b: False
        show ?thesis using less.prems(2) line False b by (intro cut_inside_line) auto
      qed
    qed
  qed (auto intro: cut_start cut_inside_data cut_after_eof)
qed

text \<open>
  C10 (equivalence): for every state and arbitrary bytes, well-formed or not, two buffers that come one after the other
  are decoded as if they had come in one, with the same data, error and state, except where the cut
  comes after a carriage return with another character than a line feed behind it.
\<close>

theorem decode_cut_anywhere:
  assumes "0 \<le> chunk_remaining d" "a = [] \<or> last a \<noteq> 13 \<or> b = [] \<or> hd b = 10"
  shows "decode_pieces d (a # b # rest) = decode_pieces d ((a @ b) # rest)"
proof -
  have "cut_ok d a b" using assms by (rule cut_not_after_cr)
  then show ?thesis by (simp add: FilterBuf_append and_then_assoc)
qed

theorem decode_cut_anywhere_witness:
  "decode_pieces HttpChunkedDecoder [[49, 59, 13], [10, 65, 13], [10, 48]] = decode_pieces HttpChunkedDecoder [[49, 59, 13, 10, 65, 13], [10, 48]]"
  using decode_cut_anywhere [of HttpChunkedDecoder "[49, 59, 13]" "[10, 65, 13]" "[[10, 48]]"] by (simp add: HttpChunkedDecoder_def)

text \<open>
  There the result depends on how the network cuts the stream: a carriage return at the end of a
  buffer is dropped even when it is no part of the end of the line. One CR zero is no chunk size in one buffer,
  and the size sixteen when the buffer ends after the CR.
\<close>

theorem decode_cut_after_cr:
  "decode_pieces HttpChunkedDecoder [[49, 13, 48, 13, 10]] = Some (Inl ERR_INVALID_CHUNKED_ENCODING) \<and>
   decode_pieces HttpChunkedDecoder [[49, 13], [48, 13, 10]] = Some (Inr ([], HttpChunkedDecoder\<lparr>chunk_remaining := 16\<rparr>))"
proof -
  have p: "ParseChunkSize [49, 48] = Some 16" "ParseChunkSize [49, 13, 48] = None"
    by (simp_all add: ParseChunkSize_def strip_spaces_def hex_characters_def HexStringToInt_digits hex_digits_def hex_value_def
      CharToDigit_def signed_value_def)
  have d: "chunk_remaining HttpChunkedDecoder = 0" "\<not> reached_eof HttpChunkedDecoder" by (simp_all add: HttpChunkedDecoder_def)
  have one: "observe (FilterBuf [49, 13, 48, 13, 10] HttpChunkedDecoder) = Some (Inl ERR_INVALID_CHUNKED_ENCODING)"
    using loop_line [OF d, of "[49, 13, 48, 13]" "[]" "[]"]
    by (simp add: FilterBuf_def finish_line_def line_of_def strip_cr_def HttpChunkedDecoder_def p)
  have first: "FilterBuf [49, 13] HttpChunkedDecoder = Some (Inr [], HttpChunkedDecoder\<lparr>line_buf := [49]\<rparr>)"
    using loop_partial [OF d, of "[49, 13]" "[]"] by (simp add: FilterBuf_def line_of_def strip_cr_def HttpChunkedDecoder_def)
  have "observe (FilterBuf [48, 13, 10] (HttpChunkedDecoder\<lparr>line_buf := [49]\<rparr>)) =
      Some (Inr ([], HttpChunkedDecoder\<lparr>chunk_remaining := 16\<rparr>))"
    using loop_line [of "HttpChunkedDecoder\<lparr>line_buf := [49]\<rparr>" "[48, 13]" "[]" "[]"]
    by (simp add: FilterBuf_def finish_line_def line_of_def strip_cr_def HttpChunkedDecoder_def p)
  then show ?thesis using one first by simp
qed

end
