(* ===== verification/ChunkedBody.thy ===== *)
theory ChunkedBody
  imports ChunkedProofs
begin

text \<open>
  Well-formed bodies in the chunked transfer coding and what \<open>HttpChunkedDecoder\<close>
  (\<open>src/net/http/http_chunked_decoder.cc\<close>) makes of them, and the sizes it accepts.
\<close>

section \<open>Sizes\<close>

lemma hex_character: "c \<in> set hex_characters \<longleftrightarrow> CharToDigit 16 c \<noteq> None"
proof -
  have "c \<in> set hex_characters \<longleftrightarrow> 48 \<le> unat c \<and> unat c \<le> 57 \<or> 97 \<le> unat c \<and> unat c \<le> 102 \<or> 65 \<le> unat c \<and> unat c \<le> 70"
    by (simp add: hex_characters_def word_unat_eq_iff) presburger
  also have "\<dots> \<longleftrightarrow> CharToDigit 16 c \<noteq> None" by (simp add: CharToDigit_def Let_def) presburger
  finally show ?thesis .
qed

lemma hex_digit_simps: "CharToDigit 16 (32 :: byte) = None" "CharToDigit 16 (59 :: byte) = None"
  "CharToDigit 16 (10 :: byte) = None" "CharToDigit 16 (13 :: byte) = None"
  by (simp_all add: CharToDigit_def)

lemma hex_digits_free: "hex_digits s \<Longrightarrow> CharToDigit 16 c = None \<Longrightarrow> c \<notin> set s"
  by (auto simp: hex_digits_def)

lemma strip_spaces_pad: "s \<noteq> [] \<Longrightarrow> last s \<noteq> 32 \<Longrightarrow> strip_spaces (s @ replicate n 32) = s"
proof -
  assume s: "s \<noteq> []" "last s \<noteq> 32"
  have "dropWhile (\<lambda>c. c = 32) (replicate n 32 @ rev s) = dropWhile (\<lambda>c. c = 32) (rev s)" by (induction n) simp_all
  also have "\<dots> = rev s" using s by (cases s rule: rev_cases) simp_all
  finally show ?thesis by (simp add: strip_spaces_def)
qed

lemma ParseChunkSize_digits:
  assumes "hex_digits s" "s \<noteq> []" "HexStringToInt s = (True, n)"
  shows "ParseChunkSize (s @ replicate k 32) = (if 0 \<le> n then Some n else None)"
proof -
  have "last s \<noteq> 32" using hex_digits_free [OF assms(1) hex_digit_simps(1)] last_in_set [OF assms(2)] by auto
  then have "strip_spaces (s @ replicate k 32) = s" by (rule strip_spaces_pad [OF assms(2)])
  moreover have "\<not> list_ex (\<lambda>c. c \<notin> set hex_characters) s"
    using assms(1) unfolding hex_character by (simp add: hex_digits_def list_ex_iff)
  ultimately show ?thesis by (simp add: ParseChunkSize_def assms(3))
qed

lemma ParseChunkSize_value:
  assumes "hex_digits s" "s \<noteq> []" "hex_value 0 s < 2 ^ 31"
  shows "ParseChunkSize (s @ replicate k 32) = Some (int (hex_value 0 s))"
proof -
  have "HexStringToInt s = (True, signed_value 32 (int (hex_value 0 s)))"
    using assms(3) by (intro HexStringToInt_digits assms(1,2)) simp
  moreover have "signed_value 32 (int (hex_value 0 s)) = int (hex_value 0 s)" using assms(3) by (intro signed_value_small) simp_all
  ultimately show ?thesis using ParseChunkSize_digits [OF assms(1,2)] by simp
qed

text \<open>Reading digits in two parts.\<close>

lemma read_digits_append:
  "read_digits neg t first (s @ s') n = (let (ok, m) = read_digits neg t first s n
    in if ok then read_digits neg t (first \<and> s = []) s' m else (False, m))"
  by (induction s arbitrary: first n) (auto simp: Let_def split_beta split: option.splits)

section \<open>Bodies\<close>

text \<open>
  A chunk has a size in hexadecimal, perhaps with leading zeros and followed by spaces, an extension and
  its data.
\<close>

record body_chunk =
  size_digits :: "byte list"
  spaces :: nat
  extension :: "byte list"
  chunk_data :: "byte list"

definition chunk_line :: "body_chunk \<Rightarrow> byte list" where
  "chunk_line c = size_digits c @ replicate (spaces c) 32 @ extension c"

definition line_ok :: "byte list \<Rightarrow> bool" where
  "line_ok x \<longleftrightarrow> 10 \<notin> set x \<and> 13 \<notin> set x"

definition body_chunk_ok :: "body_chunk \<Rightarrow> bool" where
  "body_chunk_ok c \<longleftrightarrow> hex_digits (size_digits c) \<and> size_digits c \<noteq> [] \<and> hex_value 0 (size_digits c) = length (chunk_data c) \<and>
     length (chunk_data c) < 2 ^ 31 \<and> (extension c = [] \<or> hd (extension c) = 59) \<and> line_ok (extension c)"

definition encode_chunk :: "body_chunk \<Rightarrow> byte list" where
  "encode_chunk c = chunk_line c @ [13, 10] @ chunk_data c @ [13, 10]"

definition encode_body :: "body_chunk list \<Rightarrow> body_chunk \<Rightarrow> byte list list \<Rightarrow> byte list" where
  "encode_body chunks end_chunk trailers = concat (map encode_chunk chunks) @ chunk_line end_chunk @ [13, 10] @
     concat (map (\<lambda>x. x @ [13, 10]) trailers) @ [13, 10]"

subsection \<open>Lines and data\<close>

datatype token = Line "byte list" | Data "byte list"

fun render :: "token \<Rightarrow> byte list" where
  "render (Line x) = x @ [13, 10]"
| "render (Data x) = x"

fun token_data :: "token \<Rightarrow> byte list" where
  "token_data (Line x) = []"
| "token_data (Data x) = x"

definition render_all :: "token list \<Rightarrow> byte list" where
  "render_all ts = concat (map render ts)"

definition data_all :: "token list \<Rightarrow> byte list" where
  "data_all ts = concat (map token_data ts)"

lemma render_all_simps [simp]: "render_all [] = []" "render_all (t # ts) = render t @ render_all ts"
  "render_all (ts @ us) = render_all ts @ render_all us"
  by (simp_all add: render_all_def)

lemma data_all_simps [simp]: "data_all [] = []" "data_all (t # ts) = token_data t @ data_all ts"
  "data_all (ts @ us) = data_all ts @ data_all us"
  by (simp_all add: data_all_def)

text \<open>The tokens that a state expects, and the state after them.\<close>

fun token_ok :: "chunked_decoder \<Rightarrow> token \<Rightarrow> bool" where
  "token_ok d (Line x) \<longleftrightarrow> chunk_remaining d = 0 \<and> \<not> reached_eof d \<and> line_buf d = [] \<and> line_ok x \<and> fst (finish_line x d)"
| "token_ok d (Data x) \<longleftrightarrow> x \<noteq> [] \<and> chunk_remaining d = int (length x)"

fun after_token :: "chunked_decoder \<Rightarrow> token \<Rightarrow> chunked_decoder" where
  "after_token d (Line x) = snd (finish_line x d)"
| "after_token d (Data x) = d\<lparr>chunk_remaining := 0, chunk_terminator_remaining := True\<rparr>"

primrec accepts :: "chunked_decoder \<Rightarrow> token list \<Rightarrow> chunked_decoder \<Rightarrow> bool" where
  "accepts d [] d' \<longleftrightarrow> d' = d"
| "accepts d (t # ts) d' \<longleftrightarrow> token_ok d t \<and> accepts (after_token d t) ts d'"

lemma accepts_append: "accepts d ts d' \<Longrightarrow> accepts d' us d'' \<Longrightarrow> accepts d (ts @ us) d''"
  by (induction ts arbitrary: d) auto

lemma line_of_cr: "line_buf d = [] \<Longrightarrow> line_of d (x @ [13]) = x"
  by (simp add: line_of_def strip_cr_def)

lemma accepts_run:
  assumes "accepts d ts d'"
  shows "observe (FilterBuf_loop out (render_all ts @ tail) d) = observe (FilterBuf_loop (out @ data_all ts) tail d')"
  using assms
proof (induction ts arbitrary: d out)
  case (Cons t ts)
  show ?case
  proof (cases t)
    case (Line x)
    then have t: "chunk_remaining d = 0" "\<not> reached_eof d" "line_buf d = []" "10 \<notin> set (x @ [13])" "fst (finish_line x d)"
      using Cons.prems by (auto simp: line_ok_def)
    have "observe (FilterBuf_loop out (render_all (t # ts) @ tail) d) =
        observe (FilterBuf_loop out (render_all ts @ tail) (snd (finish_line x d)))"
      using loop_line [OF t(1,2,4), of out "render_all ts @ tail"] t(5) by (simp add: Line line_of_cr [OF t(3)])
    then show ?thesis using Cons.IH [of "snd (finish_line x d)" out] Cons.prems by (simp add: Line)
  next
    case (Data x)
    then show ?thesis using Cons.IH [of "after_token d t" "out @ x"] Cons.prems by (simp add: loop_data)
  qed
qed simp

text \<open>Every cut is harmless.\<close>

lemma accepts_cut:
  assumes "accepts d ts d'" "chunk_remaining d' = 0" "reached_eof d'" "render_all ts @ tail = a @ b"
  shows "cut_ok d a b"
  using assms
proof (induction ts arbitrary: d a)
  case Nil
  then show ?case by (simp add: cut_after_eof)
next
  case (Cons t ts)
  have ok: "token_ok d t" "accepts (after_token d t) ts d'" using Cons.prems(1) by simp_all
  have eq: "render t @ (render_all ts @ tail) = a @ b" using Cons.prems(4) by simp
  have split: "(\<exists>us. render t = a @ us \<and> us \<noteq> [] \<and> b = us @ render_all ts @ tail) \<or> (\<exists>a'. a = render t @ a' \<and> a' @ b = render_all ts @ tail)"
  proof -
    obtain us where "render t = a @ us \<and> us @ (render_all ts @ tail) = b \<or> render t @ us = a \<and> render_all ts @ tail = us @ b"
      using eq unfolding append_eq_append_conv2 by blast
    then show ?thesis by (cases "us = []") auto
  qed
  show ?case
  proof (cases t)
    case (Data x)
    show ?thesis using split
    proof
      assume "\<exists>us. render t = a @ us \<and> us \<noteq> [] \<and> b = us @ render_all ts @ tail"
      then show ?thesis using ok(1) by (auto simp: Data intro: cut_inside_data)
    next
      assume "\<exists>a'. a = render t @ a' \<and> a' @ b = render_all ts @ tail"
      then obtain a' where a': "a = x @ a'" "render_all ts @ tail = a' @ b" using Data by auto
      have "cut_ok (after_token d t) a' b" by (rule Cons.IH [OF ok(2) Cons.prems(2,3) a'(2)])
      then show ?thesis using ok(1) by (simp add: a' Data cut_after_data)
    qed
  next
    case (Line x)
    have t: "chunk_remaining d = 0" "\<not> reached_eof d" "line_buf d = []" "10 \<notin> set x" "13 \<notin> set x"
      using ok(1) by (simp_all add: Line line_ok_def)
    show ?thesis using split
    proof
      assume "\<exists>us. render t = a @ us \<and> us \<noteq> [] \<and> b = us @ render_all ts @ tail"
      then obtain us where us: "x @ [13, 10] = a @ us" "us \<noteq> []" "b = us @ render_all ts @ tail" using Line by auto
      have "(x @ [13]) @ [10] = a @ us" using us(1) by simp
      then obtain vs where vs: "us = vs @ [10]" "x @ [13] = a @ vs" using us(2)
        by (cases us rule: rev_cases) auto
      show ?thesis
      proof (cases vs rule: rev_cases)
        case Nil
        then have "hd b = 10" using us(3) vs(1) by simp
        moreover have "a = x @ [13]" using vs(2) Nil by simp
        then have "10 \<notin> set a" using t(4) by simp
        ultimately show ?thesis using t by (intro cut_inside_line) auto
      next
        case (snoc vs' c)
        then have x: "x = a @ vs'" using vs(2) by simp
        have "last a \<noteq> 13 \<or> a = []" using t(5) x by (metis Un_iff last_in_set set_append)
        then show ?thesis using t x by (cases "a = []") (auto intro: cut_start cut_inside_line)
      qed
    next
      assume "\<exists>a'. a = render t @ a' \<and> a' @ b = render_all ts @ tail"
      then obtain a' where a': "a = (x @ [13]) @ 10 # a'" "render_all ts @ tail = a' @ b" using Line by auto
      have "10 \<notin> set (x @ [13])" using t(4) by simp
      moreover have "cut_ok (snd (finish_line (line_of d (x @ [13])) d)) a' b"
        using Cons.IH [OF ok(2) Cons.prems(2,3) a'(2)] by (simp add: Line line_of_cr [OF t(3)])
      ultimately show ?thesis unfolding a'(1) using t(1,2) by (intro cut_after_line)
    qed
  qed
qed

subsection \<open>The properties\<close>

definition chunk_tokens :: "body_chunk \<Rightarrow> token list" where
  "chunk_tokens c = [Line (chunk_line c), Data (chunk_data c), Line []]"

definition body_tokens :: "body_chunk list \<Rightarrow> body_chunk \<Rightarrow> byte list list \<Rightarrow> token list" where
  "body_tokens chunks end_chunk trailers =
     concat (map chunk_tokens chunks) @ Line (chunk_line end_chunk) # map Line trailers @ [Line []]"

lemma render_body: "render_all (body_tokens chunks end_chunk trailers) = encode_body chunks end_chunk trailers"
proof -
  have "render_all (concat (map chunk_tokens chunks)) = concat (map encode_chunk chunks)"
    by (induction chunks) (simp_all add: chunk_tokens_def encode_chunk_def)
  moreover have "render_all (map Line trailers) = concat (map (\<lambda>x. x @ [13, 10]) trailers)" by (induction trailers) simp_all
  ultimately show ?thesis by (simp add: body_tokens_def encode_body_def)
qed

lemma data_body: "data_all (body_tokens chunks end_chunk trailers) = concat (map chunk_data chunks)"
proof -
  have "data_all (concat (map chunk_tokens chunks)) = concat (map chunk_data chunks)"
    by (induction chunks) (simp_all add: chunk_tokens_def)
  moreover have "data_all (map Line trailers) = []" by (induction trailers) simp_all
  ultimately show ?thesis by (simp add: body_tokens_def)
qed

lemma chunk_line_facts:
  assumes "body_chunk_ok c"
  shows "chunk_line c \<noteq> []" "line_ok (chunk_line c)"
    "ParseChunkSize (takeWhile (\<lambda>b. b \<noteq> 59) (chunk_line c)) = Some (int (length (chunk_data c)))"
proof -
  have d: "hex_digits (size_digits c)" "size_digits c \<noteq> []" "hex_value 0 (size_digits c) = length (chunk_data c)"
    "length (chunk_data c) < 2 ^ 31" "extension c = [] \<or> hd (extension c) = 59" "line_ok (extension c)"
    using assms by (auto simp: body_chunk_ok_def)
  show "chunk_line c \<noteq> []" using d(2) by (simp add: chunk_line_def)
  show "line_ok (chunk_line c)"
    using d(6) hex_digits_free [OF d(1)] hex_digit_simps by (auto simp: line_ok_def chunk_line_def)
  have "takeWhile (\<lambda>b. b \<noteq> 59) (extension c) = []" using d(5) by (cases "extension c") auto
  moreover have "\<forall>b \<in> set (size_digits c @ replicate (spaces c) 32). b \<noteq> 59"
    using hex_digits_free [OF d(1) hex_digit_simps(2)] by auto
  ultimately have "takeWhile (\<lambda>b. b \<noteq> 59) (chunk_line c) = size_digits c @ replicate (spaces c) 32"
    unfolding chunk_line_def append_assoc [symmetric] by (subst takeWhile_append2) auto
  then show "ParseChunkSize (takeWhile (\<lambda>b. b \<noteq> 59) (chunk_line c)) = Some (int (length (chunk_data c)))"
    using ParseChunkSize_value [OF d(1,2)] d(3,4) by simp
qed

lemma accepts_chunk:
  assumes "body_chunk_ok c" "chunk_data c \<noteq> []" "d = HttpChunkedDecoder"
  shows "accepts d (chunk_tokens c) d"
  using chunk_line_facts [OF assms(1)] assms(2)
  by (simp add: chunk_tokens_def finish_line_def assms(3) HttpChunkedDecoder_def line_ok_def)

lemma accepts_body:
  assumes "\<forall>c \<in> set chunks. body_chunk_ok c \<and> chunk_data c \<noteq> []" "body_chunk_ok end_chunk" "chunk_data end_chunk = []"
    "\<forall>x \<in> set trailers. line_ok x \<and> x \<noteq> []"
  shows "accepts HttpChunkedDecoder (body_tokens chunks end_chunk trailers)
    (HttpChunkedDecoder\<lparr>reached_last_chunk := True, reached_eof := True\<rparr>)"
proof -
  let ?d = "HttpChunkedDecoder\<lparr>reached_last_chunk := True\<rparr>"
  have "accepts HttpChunkedDecoder (concat (map chunk_tokens chunks)) HttpChunkedDecoder"
    using assms(1) by (induction chunks) (auto intro: accepts_append [OF accepts_chunk])
  moreover have "accepts ?d (map Line trailers) ?d"
    using assms(4) by (induction trailers) (simp_all add: finish_line_def HttpChunkedDecoder_def)
  then have "accepts ?d (map Line trailers @ [Line []]) (?d\<lparr>reached_eof := True\<rparr>)"
    by (rule accepts_append) (simp add: finish_line_def HttpChunkedDecoder_def line_ok_def)
  then have "accepts HttpChunkedDecoder (Line (chunk_line end_chunk) # map Line trailers @ [Line []]) (?d\<lparr>reached_eof := True\<rparr>)"
    using chunk_line_facts [OF assms(2)] assms(3) by (simp add: finish_line_def HttpChunkedDecoder_def line_ok_def)
  ultimately show ?thesis unfolding body_tokens_def by (auto intro: accepts_append)
qed

text \<open>
  C9 (roundtrip): a well-formed body, chunks with sizes in hexadecimal (with leading zeros, spaces behind them and
  extensions), a last chunk of size zero and trailer lines, is decoded to exactly the data of its
  chunks, for every way in which it is cut into buffers, even between the characters of a line end. The decoder has reached the
  end of the body, and knows how many bytes came after it.
\<close>

theorem chunked_body_decoded:
  assumes "\<forall>c \<in> set chunks. body_chunk_ok c \<and> chunk_data c \<noteq> []" "body_chunk_ok end_chunk" "chunk_data end_chunk = []"
    "\<forall>x \<in> set trailers. line_ok x \<and> x \<noteq> []" "length after < 2 ^ 31"
    "concat buffers = encode_body chunks end_chunk trailers @ after"
  shows "decode_pieces HttpChunkedDecoder buffers = Some (Inr (concat (map chunk_data chunks),
    HttpChunkedDecoder\<lparr>reached_last_chunk := True, reached_eof := True, bytes_after_eof := int (length after)\<rparr>))"
proof -
  let ?d = "HttpChunkedDecoder\<lparr>reached_last_chunk := True, reached_eof := True\<rparr>"
  have d: "chunk_remaining ?d = 0" "reached_eof ?d" by (simp_all add: HttpChunkedDecoder_def)
  note ok = accepts_body [OF assms(1-4)]
  have "decode_pieces HttpChunkedDecoder buffers = observe (FilterBuf (concat buffers) HttpChunkedDecoder)"
    by (rule decode_pieces_concat) (rule accepts_cut [OF ok d], simp add: render_body assms(6))
  also have "\<dots> = observe (FilterBuf_loop (concat (map chunk_data chunks)) after ?d)"
    using accepts_run [OF ok, of "[]" after] by (simp add: FilterBuf_def assms(6) render_body data_body)
  also have "\<dots> = Some (Inr (concat (map chunk_data chunks), ?d\<lparr>bytes_after_eof := int (length after)\<rparr>))"
  proof (cases "after = []")
    case False
    then show ?thesis using loop_eof [OF d False] to_int32_to_uint32 [of "int (length after)"] assms(5)
      by (simp add: HttpChunkedDecoder_def)
  qed (simp add: HttpChunkedDecoder_def)
  finally show ?thesis by simp
qed

theorem chunked_body_decoded_witness:
  "decode_pieces HttpChunkedDecoder [[48, 51, 32, 59, 120, 13], [10, 65, 13], [10, 13], [10, 48, 13, 10], [84, 58, 13], [10, 13, 10, 72]] =
    Some (Inr ([65, 13, 10], HttpChunkedDecoder\<lparr>reached_last_chunk := True, reached_eof := True, bytes_after_eof := 1\<rparr>))"
proof -
  let ?c = "\<lparr>size_digits = [48, 51], spaces = 1, extension = [59, 120], chunk_data = [65, 13, 10]\<rparr>"
  let ?e = "\<lparr>size_digits = [48], spaces = 0, extension = [], chunk_data = []\<rparr>"
  have "body_chunk_ok ?c" "body_chunk_ok ?e"
    by (simp_all add: body_chunk_ok_def hex_digits_def hex_value_def CharToDigit_def line_ok_def)
  then show ?thesis
    using chunked_body_decoded [of "[?c]" ?e "[[84, 58]]" "[72]"
      "[[48, 51, 32, 59, 120, 13], [10, 65, 13], [10, 13], [10, 48, 13, 10], [84, 58, 13], [10, 13, 10, 72]]"]
    by (simp add: encode_body_def encode_chunk_def chunk_line_def line_ok_def)
qed

text \<open>
  C29 (error): a size that does not fit is not always rejected. \<open>HexStringToInt\<close> reads up to 0xffffffff into
  an \<open>int\<close>; after eight digits with a value from 0x80000000 on the number is negative, so the check before the next digit passes and the
  product wraps around. Of the chunk sizes from 800000000 to fffffffff (all too large), those whose value modulo two to the 32 is
  below two to the 31 are accepted with that value; the others are rejected, since the wrapped number is negative.
\<close>

theorem chunk_size_wraps:
  assumes "hex_digits (s @ [c])" "s \<noteq> []" "2 ^ 31 \<le> hex_value 0 s" "hex_value 0 s < 2 ^ 32"
  shows "ParseChunkSize (s @ [c]) =
    (if hex_value 0 (s @ [c]) mod 2 ^ 32 < 2 ^ 31 then Some (int (hex_value 0 (s @ [c]) mod 2 ^ 32)) else None)"
proof -
  let ?v = "int (hex_value 0 s)" and ?w = "int (hex_value 0 (s @ [c]) mod 2 ^ 32)"
  obtain k where k: "CharToDigit 16 c = Some k" using assms(1) by (auto simp: hex_digits_def)
  have s: "hex_digits s" using assms(1) by (simp add: hex_digits_def)
  have sum: "hex_value 0 (s @ [c]) = 16 * hex_value 0 s + k" using k by (simp add: hex_value_def)
  have neg: "signed_value 32 ?v = ?v - 2 ^ 32" using assms(3,4) by (simp add: signed_value_def Let_def)
  have "signed_value 32 268435455 = 268435455" by (simp add: signed_value_def Let_def)
  then have fits: "CheckBounds False hex_traits (?v - 2 ^ 32) k = (True, ?v - 2 ^ 32)"
    using assms(4) by (simp add: CheckBounds_def Positive_CheckBounds_def hex_traits_def signed_divide_int_def)
  have "((?v - 2 ^ 32) * 16 + int k) mod 2 ^ 32 = (int (hex_value 0 (s @ [c])) + (- 16) * 2 ^ 32) mod 2 ^ 32"
    by (simp add: sum algebra_simps)
  then have wrap: "((?v - 2 ^ 32) * 16 + int k) mod 2 ^ 32 = int (hex_value 0 (s @ [c]) mod 2 ^ 32)"
    by (simp only: mod_mult_self1 zmod_int) simp
  have "Increment False hex_traits k (signed_value 32 ((?v - 2 ^ 32) * 16)) = signed_value 32 ((?v - 2 ^ 32) * 16 + int k)"
    by (simp add: Increment_def hex_traits_def signed_value_add)
  also have "\<dots> = signed_value 32 ?w" using wrap by (simp add: signed_value_def Let_def)
  finally have inc: "Increment False hex_traits k (signed_value 32 ((?v - 2 ^ 32) * 16)) = signed_value 32 ?w" .
  have t: "kBase hex_traits = 16" "tr_width hex_traits = 32" by (simp_all add: hex_traits_def)
  have "read_digits False hex_traits True (s @ [c]) 0 = (True, signed_value 32 ?w)"
    unfolding read_digits_append read_digits_hex_first [OF s assms(2,4)] neg using assms(2) fits inc k t by simp
  then have "HexStringToInt (s @ [c]) = (True, signed_value 32 ?w)"
    using HexStringToInt_read [OF assms(1)] by simp
  from ParseChunkSize_digits [OF assms(1) _ this, of 0]
  have "ParseChunkSize (s @ [c]) = (if 0 \<le> signed_value 32 ?w then Some (signed_value 32 ?w) else None)" by simp
  moreover have "signed_value 32 ?w = (if ?w < 2 ^ 31 then ?w else ?w - 2 ^ 32)" by (simp add: signed_value_def Let_def)
  moreover have "?w < 2 ^ 32" "?w < 2 ^ 31 \<longleftrightarrow> hex_value 0 (s @ [c]) mod 2 ^ 32 < 2 ^ 31"
    by (simp_all only: of_nat_less_numeral_power_cancel_iff) simp
  ultimately show ?thesis by auto
qed

theorem chunk_size_wraps_witness:
  "ParseChunkSize [56, 48, 48, 48, 48, 48, 48, 48, 49] = Some 1 \<and> ParseChunkSize [56, 56, 56, 56, 56, 56, 56, 56, 56] = None"
  using chunk_size_wraps [of "[56, 48, 48, 48, 48, 48, 48, 48]" 49] chunk_size_wraps [of "[56, 56, 56, 56, 56, 56, 56, 56]" 56]
  by (simp add: hex_digits_def hex_value_def CharToDigit_def)

end
