(* ===== verification/FilePath.thy ===== *)
theory FilePath
  imports Prelude
begin

text \<open>
  Paths of files (\<open>src/base/file_path.cc\<close>), in the build for POSIX systems: strings with the separator
  \<open>/\<close> and no drive letters. The loops go up from a path to its directory, which ends.
\<close>

section \<open>Strings\<close>

abbreviation (input) npos :: nat where "npos \<equiv> 4294967295"

definition IsSeparator :: "char \<Rightarrow> bool" where
  "IsSeparator c = (c = CHR ''/'')"

abbreviation (input) kCurrentDirectory :: string where "kCurrentDirectory \<equiv> ''.''"
abbreviation (input) kParentDirectory :: string where "kParentDirectory \<equiv> ''..''"
abbreviation (input) kExtensionSeparator :: char where "kExtensionSeparator \<equiv> CHR ''.''"

text \<open>The position of the last character at or before \<open>pos\<close> that passes a test: \<open>rfind\<close> and
  \<open>find_last_of\<close>.\<close>

definition rfind :: "(char \<Rightarrow> bool) \<Rightarrow> string \<Rightarrow> nat \<Rightarrow> nat" where
  "rfind P s pos = (let t = take (Suc pos) s in
     case find_index P (rev t) of None \<Rightarrow> npos | Some k \<Rightarrow> length t - 1 - k)"

definition resize :: "nat \<Rightarrow> string \<Rightarrow> string" where
  "resize n s = take n s @ replicate (n - length s) CHR 0x00"

definition ToLowerASCII :: "char \<Rightarrow> char" where
  "ToLowerASCII c = (if 65 \<le> (of_char c :: nat) \<and> (of_char c :: nat) \<le> 90 then char_of (of_char c + 32 :: nat) else c)"

definition LowerCaseEqualsASCII :: "string \<Rightarrow> string \<Rightarrow> bool" where
  "LowerCaseEqualsASCII a b = (map ToLowerASCII a = b)"

section \<open>Directories\<close>

definition FindDriveLetter :: "string \<Rightarrow> nat" where
  "FindDriveLetter path = npos"

definition IsPathAbsolute :: "string \<Rightarrow> bool" where
  "IsPathAbsolute path = (length path > 0 \<and> IsSeparator (path ! 0))"

definition AreAllSeparators :: "string \<Rightarrow> bool" where
  "AreAllSeparators input = list_all IsSeparator input"

primrec strip_loop :: "nat \<Rightarrow> nat \<Rightarrow> nat \<Rightarrow> string \<Rightarrow> string" where
  "strip_loop start 0 last_stripped path = path"
| "strip_loop start (Suc pos) last_stripped path =
     (if Suc pos > start \<and> IsSeparator (path ! pos)
      then if Suc pos \<noteq> start + 1 \<or> last_stripped = start + 2 \<or> \<not> IsSeparator (path ! (start - 1))
        then strip_loop start pos (Suc pos) (resize pos path)
        else strip_loop start pos last_stripped path
      else path)"

definition StripTrailingSeparatorsInternal :: "string \<Rightarrow> string" where
  "StripTrailingSeparatorsInternal path =
     (let start = add32 (FindDriveLetter path) 2 in strip_loop start (length path) npos path)"

definition StripTrailingSeparators :: "string \<Rightarrow> string" where
  "StripTrailingSeparators path = StripTrailingSeparatorsInternal path"

definition DirName :: "string \<Rightarrow> string" where
  "DirName path =
     (let new_path = StripTrailingSeparatorsInternal path;
          letter = FindDriveLetter new_path;
          last_separator = rfind IsSeparator new_path npos;
          new_path =
            (if last_separator = npos then resize (add32 letter 1) new_path
             else if last_separator = add32 letter 1 then resize (add32 letter 2) new_path
             else if last_separator = add32 letter 2 \<and> IsSeparator (new_path ! add32 letter 1)
               then resize (add32 letter 3) new_path
             else if last_separator \<noteq> 0 then resize last_separator new_path
             else new_path);
          new_path = StripTrailingSeparatorsInternal new_path
      in if length new_path = 0 then kCurrentDirectory else new_path)"

definition BaseName :: "string \<Rightarrow> string" where
  "BaseName path =
     (let new_path = StripTrailingSeparatorsInternal path;
          letter = FindDriveLetter new_path;
          new_path = (if letter \<noteq> npos then drop (letter + 1) new_path else new_path);
          last_separator = rfind IsSeparator new_path npos
      in if last_separator \<noteq> npos \<and> last_separator < length new_path - 1
         then drop (last_separator + 1) new_path else new_path)"

subsection \<open>Going up ends\<close>

lemma letter_plus [simp]: "add32 (FindDriveLetter p) 1 = 0" "add32 (FindDriveLetter p) (Suc 0) = 0"
  "add32 (FindDriveLetter p) 2 = 1" "add32 (FindDriveLetter p) 3 = 2"
  by (simp_all add: FindDriveLetter_def add32_def)

lemma resize_take: "n \<le> length s \<Longrightarrow> resize n s = take n s"
  by (simp add: resize_def)

lemma strip_loop_take: "pos \<le> length path \<Longrightarrow> \<exists>k. strip_loop start pos l path = take k path"
proof (induction pos arbitrary: l path)
  case 0
  show ?case by (intro exI [of _ "length path"]) simp
next
  case (Suc pos)
  have "\<exists>k. strip_loop start pos (Suc pos) (take pos path) = take k (take pos path)"
    by (rule Suc.IH) (use Suc.prems in simp)
  then have stripped: "\<exists>k. strip_loop start pos (Suc pos) (resize pos path) = take k path"
    using Suc.prems by (auto simp: resize_take)
  have kept: "\<exists>k. strip_loop start pos l path = take k path" by (rule Suc.IH) (use Suc.prems in simp)
  have "\<exists>k. path = take k path" by (intro exI [of _ "length path"]) simp
  then show ?case unfolding strip_loop.simps using stripped kept by (cases "Suc pos > start \<and> IsSeparator (path ! pos)";
    cases "Suc pos \<noteq> start + 1 \<or> l = start + 2 \<or> \<not> IsSeparator (path ! (start - 1))") (simp_all only: simp_thms if_True if_False)
qed

lemma Strip_take: "\<exists>k. StripTrailingSeparatorsInternal path = take k path"
  unfolding StripTrailingSeparatorsInternal_def Let_def by (rule strip_loop_take) simp

lemma rfind_less:
  assumes "rfind P s pos \<noteq> npos"
  shows "rfind P s pos < length s"
proof (cases "find_index P (rev (take (Suc pos) s))")
  case None
  then show ?thesis using assms by (simp add: rfind_def Let_def del: find_index_None)
next
  case (Some k)
  then have "k < length (take (Suc pos) s)" using find_index_SomeD [OF Some] by simp
  then show ?thesis using Some by (auto simp: rfind_def Let_def)
qed

lemma DirName_unfold:
  "DirName path = (let s = StripTrailingSeparatorsInternal path;
     l = rfind IsSeparator s npos;
     t = StripTrailingSeparatorsInternal (if l = npos then resize 0 s else if l = 0 then resize 1 s
       else if l = 1 \<and> IsSeparator (s ! 0) then resize 2 s else resize l s)
   in if t = [] then kCurrentDirectory else t)"
  unfolding DirName_def Let_def letter_plus by auto

lemma DirName_take: "DirName path \<noteq> [] \<and> (DirName path = kCurrentDirectory \<or> (\<exists>k. DirName path = take k path))"
proof -
  define s where "s = StripTrailingSeparatorsInternal path"
  define l where "l = rfind IsSeparator s npos"
  define t where "t = (if l = npos then resize 0 s else if l = 0 then resize 1 s
    else if l = 1 \<and> IsSeparator (s ! 0) then resize 2 s else resize l s)"
  have d: "DirName path = (if StripTrailingSeparatorsInternal t = [] then kCurrentDirectory else StripTrailingSeparatorsInternal t)"
    using DirName_unfold [of path] unfolding s_def [symmetric] Let_def l_def [symmetric] t_def .
  obtain i where i: "s = take i path" using Strip_take s_def by blast
  have l: "l \<noteq> npos \<Longrightarrow> l < length s" unfolding l_def by (rule rfind_less)
  have "\<exists>j. t = take j s"
  proof (cases "l = npos")
    case True
    then show ?thesis by (simp add: t_def resize_take)
  next
    case False
    then have "l = 0 \<Longrightarrow> 1 \<le> length s" "l = 1 \<Longrightarrow> 2 \<le> length s" "l \<le> length s" using l by (auto simp: Suc_le_eq)
    then have "t = take (if l = 0 then 1 else if l = 1 \<and> IsSeparator (s ! 0) then 2 else l) s"
      using False by (simp add: t_def resize_take)
    then show ?thesis by blast
  qed
  then obtain j where j: "t = take j s" by blast
  obtain k where k: "StripTrailingSeparatorsInternal t = take k t" using Strip_take by blast
  have "StripTrailingSeparatorsInternal t = take (min k (min j i)) path" unfolding k unfolding j i by (simp add: min.assoc)
  then show ?thesis unfolding d by (cases "StripTrailingSeparatorsInternal t = []") auto
qed

text \<open>A step up makes the path shorter, unless it stays or arrives at the current directory.\<close>

definition height :: "string \<Rightarrow> nat" where
  "height path = (if path = kCurrentDirectory then 0 else Suc (length path))"

lemma DirName_height: "DirName path = path \<or> height (DirName path) < height path"
proof (cases "DirName path = kCurrentDirectory")
  case True
  then show ?thesis by (auto simp: height_def)
next
  case False
  then obtain k where k: "DirName path = take k path" using DirName_take by blast
  have nonempty: "take k path \<noteq> []" using DirName_take [of path] k by simp
  have "path \<noteq> kCurrentDirectory"
  proof
    assume "path = kCurrentDirectory"
    then show False using nonempty False k by (cases k) simp_all
  qed
  then show ?thesis using False unfolding k height_def by (cases "k < length path") simp_all
qed

lemma DirName_lower: "current \<noteq> DirName current \<Longrightarrow> height (DirName current) < height current"
  using DirName_height [of current] by simp

section \<open>Components\<close>

function components_loop :: "string \<Rightarrow> string list \<Rightarrow> string \<times> string list" where
  "components_loop current ret_val =
     (if current \<noteq> DirName current
      then let base = BaseName current;
               ret_val = (if \<not> AreAllSeparators base then ret_val @ [base] else ret_val)
        in components_loop (DirName current) ret_val
      else (current, ret_val))"
  by pat_completeness auto
termination
  by (relation "measure (\<lambda>(current, ret_val). height current)") (simp_all add: DirName_lower)

declare components_loop.simps [simp del]

definition GetComponents :: "string \<Rightarrow> string list" where
  "GetComponents path =
     (if path = [] then []
      else let (current, ret_val) = components_loop path [];
               base = BaseName current;
               ret_val = (if base \<noteq> [] \<and> base \<noteq> kCurrentDirectory then ret_val @ [BaseName current] else ret_val);
               dir = DirName current;
               letter = FindDriveLetter dir;
               ret_val = (if letter \<noteq> npos then ret_val @ [take (letter + 1) dir] else ret_val)
        in rev ret_val)"

definition FilePath_Append :: "string \<Rightarrow> string \<Rightarrow> string option" where
  "FilePath_Append path component = do {
     guard (\<not> IsPathAbsolute component);
     if path = kCurrentDirectory then Some component
     else let new_path = StripTrailingSeparatorsInternal path;
              new_path = (if length component > 0 \<and> length new_path > 0
                then if \<not> IsSeparator (new_path ! (length new_path - 1))
                  then if add32 (FindDriveLetter new_path) 1 \<noteq> length new_path then new_path @ ''/'' else new_path
                  else new_path
                else new_path)
       in Some (new_path @ component)
   }"

text \<open>\<open>AppendRelativePath\<close> appends to a path unless it is given none.\<close>

fun same_components :: "string list \<Rightarrow> string list \<Rightarrow> string list option" where
  "same_components [] child = Some child"
| "same_components (p # parent) (c # child) = (if p \<noteq> c then None else same_components parent child)"
| "same_components (p # parent) [] = None"

primrec append_all :: "string \<Rightarrow> string list \<Rightarrow> string option" where
  "append_all path [] = Some path"
| "append_all path (c # cs) = Option.bind (FilePath_Append path c) (\<lambda>path. append_all path cs)"

definition AppendRelativePath :: "string \<Rightarrow> string \<Rightarrow> string option \<Rightarrow> (bool \<times> string option) option" where
  "AppendRelativePath parent child path =
     (let parent_components = GetComponents parent; child_components = GetComponents child
      in if parent_components = [] \<or> length parent_components \<ge> length child_components then Some (False, path)
         else case same_components parent_components child_components of
             None \<Rightarrow> Some (False, path)
           | Some rest \<Rightarrow> (case path of None \<Rightarrow> Some (True, None)
               | Some p \<Rightarrow> map_option (\<lambda>p. (True, Some p)) (append_all p rest)))"

definition IsParent :: "string \<Rightarrow> string \<Rightarrow> bool option" where
  "IsParent parent child = map_option fst (AppendRelativePath parent child None)"

definition IsAbsolute :: "string \<Rightarrow> bool" where
  "IsAbsolute path = IsPathAbsolute path"

definition ReferencesParent :: "string \<Rightarrow> bool" where
  "ReferencesParent path = list_ex (\<lambda>component. component = kParentDirectory) (GetComponents path)"

section \<open>Extensions\<close>

definition kCommonDoubleExtensions :: "string list" where
  "kCommonDoubleExtensions = [''gz'', ''z'', ''bz2'']"

definition ExtensionSeparatorPosition :: "string \<Rightarrow> nat" where
  "ExtensionSeparatorPosition path =
     (if path = kCurrentDirectory \<or> path = kParentDirectory then npos
      else let last_dot = rfind (\<lambda>c. c = kExtensionSeparator) path npos
        in if last_dot = npos \<or> last_dot = 0 then last_dot
           else let extension = drop (last_dot + 1) path;
                    is_common_double_extension = list_ex (LowerCaseEqualsASCII extension) kCommonDoubleExtensions
             in if \<not> is_common_double_extension then last_dot
                else let penultimate_dot = rfind (\<lambda>c. c = kExtensionSeparator) path (last_dot - 1);
                         last_separator = rfind IsSeparator path (last_dot - 1)
                  in if penultimate_dot \<noteq> npos \<and> (last_separator = npos \<or> penultimate_dot > last_separator) \<and>
                        last_dot - penultimate_dot \<le> 5 \<and> last_dot - penultimate_dot > 1
                     then penultimate_dot else last_dot)"

definition Extension :: "string \<Rightarrow> string" where
  "Extension path =
     (let base = BaseName path; dot = ExtensionSeparatorPosition base
      in if dot = npos then [] else drop dot base)"

definition RemoveExtension :: "string \<Rightarrow> string" where
  "RemoveExtension path =
     (if Extension path = [] then path
      else let dot = ExtensionSeparatorPosition path
        in if dot = npos then path else take dot path)"

definition InsertBeforeExtension :: "string \<Rightarrow> string \<Rightarrow> string" where
  "InsertBeforeExtension path added =
     (if added = [] then path
      else if path = [] then []
      else let base = BaseName path
        in if base = [] then []
           else if last base = kExtensionSeparator \<and> (base = kCurrentDirectory \<or> base = kParentDirectory) then []
           else RemoveExtension path @ added @ Extension path)"

definition ReplaceExtension :: "string \<Rightarrow> string \<Rightarrow> string" where
  "ReplaceExtension path extension =
     (if path = [] then []
      else let base = BaseName path
        in if base = [] then []
           else if last base = kExtensionSeparator \<and> (base = kCurrentDirectory \<or> base = kParentDirectory) then []
           else let no_ext = RemoveExtension path
             in if extension = [] \<or> extension = [kExtensionSeparator] then no_ext
                else (if extension ! 0 \<noteq> kExtensionSeparator then no_ext @ [kExtensionSeparator] else no_ext) @ extension)"

end
