(* ===== verification/FilePathProofs.thy ===== *)
theory FilePathProofs
  imports FilePath
begin

text \<open>
  Absolute paths as lists of names: what the operations of \<open>FilePath\<close> (\<open>src/base/file_path.cc\<close>) do on
  them.
\<close>

definition name_ok :: "string \<Rightarrow> bool" where
  "name_ok c \<longleftrightarrow> c \<noteq> [] \<and> CHR ''/'' \<notin> set c"

definition slashed :: "string list \<Rightarrow> string" where
  "slashed cs = concat (map (\<lambda>c. CHR ''/'' # c) cs)"

definition path_of :: "string list \<Rightarrow> string" where
  "path_of cs = (if cs = [] then ''/'' else slashed cs)"

text \<open>Names that make a path of a length below 2^32 - 1.\<close>

definition names_ok :: "string list \<Rightarrow> bool" where
  "names_ok cs \<longleftrightarrow> (\<forall>c \<in> set cs. name_ok c) \<and> length (slashed cs) < npos"

lemma slashed_simps [simp]: "slashed [] = []" "slashed (c # cs) = CHR ''/'' # c @ slashed cs" "slashed (cs @ ds) = slashed cs @ slashed ds"
  by (simp_all add: slashed_def)

lemma names_ok_append: "names_ok (cs @ ds) \<Longrightarrow> names_ok cs \<and> names_ok ds"
  by (simp add: names_ok_def)

lemma find_index_skip: "\<forall>x \<in> set xs. \<not> P x \<Longrightarrow> P y \<Longrightarrow> find_index P (xs @ y # ys) = Some (length xs)"
  by (induction xs) auto

lemma rfind_at:
  assumes "P y" "\<forall>x \<in> set zs. \<not> P x" "length (xs @ y # zs) \<le> npos"
  shows "rfind P (xs @ y # zs) npos = length xs"
proof -
  have "find_index P (rev zs @ y # rev xs) = Some (length zs)"
    using find_index_skip [of "rev zs" P y "rev xs"] assms(1,2) by simp
  moreover have "take (Suc npos) (xs @ y # zs) = xs @ y # zs" using assms(3) by simp
  ultimately show ?thesis by (simp add: rfind_def Let_def del: take_append)
qed

lemma Strip_unchanged: "path = [] \<or> path = ''/'' \<or> last path \<noteq> CHR ''/'' \<Longrightarrow> StripTrailingSeparatorsInternal path = path"
proof (cases path rule: rev_cases)
  case (snoc xs x)
  assume "path = [] \<or> path = ''/'' \<or> last path \<noteq> CHR ''/''"
  then have "path = ''/'' \<or> x \<noteq> CHR ''/''" using snoc by simp
  then show ?thesis by (auto simp: snoc StripTrailingSeparatorsInternal_def Let_def IsSeparator_def nth_append)
qed (simp add: StripTrailingSeparatorsInternal_def)

lemma last_slashed: "names_ok (cs @ [c]) \<Longrightarrow> last (slashed (cs @ [c])) \<noteq> CHR ''/''"
  by (auto simp: names_ok_def name_ok_def dest: last_in_set)

lemma Strip_path_of: "names_ok cs \<Longrightarrow> StripTrailingSeparatorsInternal (path_of cs) = path_of cs"
proof (cases cs rule: rev_cases)
  case (snoc ds c)
  assume "names_ok cs"
  then have "last (path_of cs) \<noteq> CHR ''/''" using last_slashed [of ds c] by (simp add: path_of_def snoc)
  then show ?thesis by (simp add: Strip_unchanged)
qed (simp add: path_of_def Strip_unchanged)

lemma separator_of:
  assumes "names_ok (cs @ [c])"
  shows "rfind IsSeparator (path_of (cs @ [c])) npos = length (slashed cs)"
proof -
  have "\<forall>x \<in> set c. \<not> IsSeparator x" using assms by (auto simp: names_ok_def name_ok_def IsSeparator_def)
  moreover have "length (slashed cs @ CHR ''/'' # c) \<le> npos" using assms by (simp add: names_ok_def)
  ultimately have "rfind IsSeparator (slashed cs @ CHR ''/'' # c) npos = length (slashed cs)"
    by (intro rfind_at) (simp_all add: IsSeparator_def)
  then show ?thesis by (simp add: path_of_def)
qed

lemma length_slashed: "names_ok (cs @ [c]) \<Longrightarrow> cs \<noteq> [] \<Longrightarrow> 2 \<le> length (slashed cs)"
  by (cases cs) (auto simp: names_ok_def name_ok_def Suc_le_eq)

lemma root_separator: "rfind IsSeparator ''/'' npos = 0"
  using rfind_at [of IsSeparator "CHR ''/''" "[]" "[]"] by (simp add: IsSeparator_def)

lemma DirName_root: "DirName ''/'' = ''/''"
  unfolding DirName_unfold by (simp add: Let_def root_separator Strip_unchanged resize_def)

lemma DirName_path_of:
  assumes "names_ok (cs @ [c])"
  shows "DirName (path_of (cs @ [c])) = path_of cs"
proof -
  have strip: "StripTrailingSeparatorsInternal (path_of (cs @ [c])) = path_of (cs @ [c])" by (rule Strip_path_of [OF assms])
  have below: "length (slashed cs) < npos" using assms by (simp add: names_ok_def)
  show ?thesis
  proof (cases "cs = []")
    case True
    have "DirName (path_of (cs @ [c])) = (let t = StripTrailingSeparatorsInternal (resize 1 (path_of (cs @ [c])))
        in if t = [] then kCurrentDirectory else t)"
      unfolding DirName_unfold strip separator_of [OF assms] Let_def using True by simp
    moreover have "resize 1 (path_of (cs @ [c])) = ''/''" by (simp add: True path_of_def resize_def)
    ultimately show ?thesis using True by (simp add: Strip_unchanged path_of_def)
  next
    case False
    have "2 \<le> length (slashed cs)" by (rule length_slashed [OF assms False])
    then have l: "length (slashed cs) \<noteq> 0" "length (slashed cs) \<noteq> 1" "length (slashed cs) \<noteq> npos" "slashed cs \<noteq> []"
      using below by auto
    have r: "resize (length (slashed cs)) (path_of (cs @ [c])) = path_of cs"
      using False by (simp add: path_of_def resize_def)
    have "StripTrailingSeparatorsInternal (path_of cs) = path_of cs"
      by (rule Strip_path_of) (use names_ok_append [OF assms] in simp)
    moreover have "DirName (path_of (cs @ [c])) = (let t = StripTrailingSeparatorsInternal (resize (length (slashed cs)) (path_of (cs @ [c])))
        in if t = [] then kCurrentDirectory else t)"
      unfolding DirName_unfold strip separator_of [OF assms] Let_def using l by simp
    ultimately have "DirName (path_of (cs @ [c])) = (if path_of cs = [] then kCurrentDirectory else path_of cs)"
      unfolding r by (simp only: Let_def)
    then show ?thesis using l False by (simp add: path_of_def)
  qed
qed

lemma BaseName_path_of:
  assumes "names_ok (cs @ [c])"
  shows "BaseName (path_of (cs @ [c])) = c"
proof -
  have "c \<noteq> []" "length (slashed cs) < npos" using assms by (simp_all add: names_ok_def name_ok_def)
  then show ?thesis
    by (simp add: BaseName_def Let_def Strip_path_of [OF assms] separator_of [OF assms] FindDriveLetter_def)
      (simp add: path_of_def)
qed

lemma BaseName_root: "BaseName ''/'' = ''/''"
  by (simp add: BaseName_def Let_def root_separator Strip_unchanged FindDriveLetter_def)

lemma path_of_inject:
  assumes "names_ok cs" "names_ok ds" "path_of cs = path_of ds"
  shows "cs = ds"
  using assms
proof (induction cs arbitrary: ds rule: rev_induct)
  case Nil
  show ?case
  proof (cases ds rule: rev_cases)
    case (snoc es d)
    then have "BaseName (path_of ds) = d" using Nil by (simp add: BaseName_path_of)
    moreover have "BaseName (path_of ds) = ''/''" unfolding Nil(3) [symmetric] by (simp add: path_of_def BaseName_root)
    ultimately show ?thesis using Nil(2) by (auto simp: snoc names_ok_def name_ok_def)
  qed simp
next
  case (snoc c cs)
  show ?case
  proof (cases ds rule: rev_cases)
    case Nil
    then have "BaseName (path_of (cs @ [c])) = ''/''" unfolding snoc(4) by (simp add: path_of_def BaseName_root)
    then show ?thesis using snoc(2) BaseName_path_of [OF snoc(2)] by (auto simp: names_ok_def name_ok_def)
  next
    case (snoc es d)
    note ok = snoc.prems
    have "c = d" using BaseName_path_of [of cs c] BaseName_path_of [of es d] ok snoc by simp
    moreover have "path_of cs = path_of es" using DirName_path_of [of cs c] DirName_path_of [of es d] ok snoc by simp
    ultimately show ?thesis using snoc.IH [of es] ok names_ok_append snoc by blast
  qed
qed

lemma names_ok_last: "names_ok (cs @ [c]) \<Longrightarrow> c \<noteq> [] \<and> \<not> AreAllSeparators c"
  by (cases c) (auto simp: names_ok_def name_ok_def AreAllSeparators_def IsSeparator_def)

lemma components_path_of:
  assumes "names_ok cs"
  shows "components_loop (path_of cs) out = (''/'', out @ rev cs)"
  using assms
proof (induction cs arbitrary: out rule: rev_induct)
  case Nil
  then show ?case by (subst components_loop.simps) (simp add: path_of_def DirName_root)
next
  case (snoc c cs)
  have ok: "names_ok cs" using names_ok_append snoc.prems by blast
  have "path_of (cs @ [c]) \<noteq> path_of cs" using path_of_inject [OF snoc.prems ok] by auto
  then show ?case using snoc.IH [OF ok] names_ok_last [OF snoc.prems]
    by (subst components_loop.simps) (simp add: DirName_path_of [OF snoc.prems] BaseName_path_of [OF snoc.prems])
qed

lemma GetComponents_path_of:
  assumes "names_ok cs"
  shows "GetComponents (path_of cs) = ''/'' # cs"
proof -
  have "path_of cs \<noteq> []" by (cases cs) (simp_all add: path_of_def)
  then show ?thesis by (simp add: GetComponents_def components_path_of [OF assms] BaseName_root FindDriveLetter_def)
qed

lemma same_components_prefix: "same_components ds cs = (if prefix ds cs then Some (drop (length ds) cs) else None)"
  by (induction ds cs rule: same_components.induct) auto

lemma Append_path_of:
  assumes "names_ok (cs @ [c])"
  shows "FilePath_Append (path_of cs) c = Some (path_of (cs @ [c]))"
proof -
  have ok: "names_ok cs" using names_ok_append assms by blast
  have c: "\<not> IsPathAbsolute c" "c \<noteq> []" using assms by (cases c; auto simp: IsPathAbsolute_def IsSeparator_def names_ok_def name_ok_def)+
  have p: "path_of cs \<noteq> ''.''" by (cases cs) (simp_all add: path_of_def)
  show ?thesis
  proof (cases cs rule: rev_cases)
    case Nil
    then show ?thesis using c p
      by (simp add: FilePath_Append_def path_of_def Strip_unchanged Let_def IsSeparator_def)
  next
    case (snoc ds d)
    have ne: "path_of cs \<noteq> []" "last (path_of cs) \<noteq> CHR ''/''" using last_slashed [of ds d] ok snoc by (simp_all add: path_of_def)
    then have "\<not> IsSeparator (path_of cs ! (length (path_of cs) - 1))" by (simp add: IsSeparator_def last_conv_nth)
    then have "FilePath_Append (path_of cs) c = Some ((path_of cs @ ''/'') @ c)"
      using c p ne by (simp add: FilePath_Append_def Strip_path_of [OF ok] Let_def)
    then show ?thesis using snoc by (simp add: path_of_def)
  qed
qed

text \<open>
  C32 (functional): an absolute path without empty names is the list of its names. \<open>GetComponents\<close> lists them,
  \<open>IsParent\<close> decides whether one list begins the other, \<open>ReferencesParent\<close> whether one of them is
  \<open>..\<close>, and appending \<open>BaseName\<close> to \<open>DirName\<close> gives the path back.
\<close>

theorem file_path_components:
  assumes "names_ok cs" "names_ok ds"
  shows "GetComponents (path_of cs) = ''/'' # cs \<and>
    IsParent (path_of ds) (path_of cs) = Some (strict_prefix ds cs) \<and>
    (ReferencesParent (path_of cs) \<longleftrightarrow> ''..'' \<in> set cs) \<and>
    (cs \<noteq> [] \<longrightarrow> FilePath_Append (DirName (path_of cs)) (BaseName (path_of cs)) = Some (path_of cs))"
proof (intro conjI impI)
  note [simp] = GetComponents_path_of [OF assms(1)] GetComponents_path_of [OF assms(2)]
  show "GetComponents (path_of cs) = ''/'' # cs" by simp
  have len: "length cs \<le> length ds \<Longrightarrow> \<not> strict_prefix ds cs" using prefix_length_less [of ds cs] by auto
  show "IsParent (path_of ds) (path_of cs) = Some (strict_prefix ds cs)"
    using len by (auto simp: IsParent_def AppendRelativePath_def same_components_prefix strict_prefix_def not_le split: option.splits)
  show "ReferencesParent (path_of cs) \<longleftrightarrow> ''..'' \<in> set cs" by (auto simp: ReferencesParent_def list_ex_iff)
  assume "cs \<noteq> []"
  then obtain es c where cs: "cs = es @ [c]" by (cases cs rule: rev_cases) auto
  then have ok: "names_ok (es @ [c])" using assms(1) by simp
  show "FilePath_Append (DirName (path_of cs)) (BaseName (path_of cs)) = Some (path_of cs)"
    by (simp add: cs DirName_path_of [OF ok] BaseName_path_of [OF ok] Append_path_of [OF ok])
qed

theorem file_path_components_witness:
  "GetComponents ''/usr/lib/..'' = [''/'', ''usr'', ''lib'', ''..''] \<and> IsParent ''/usr'' ''/usr/lib/..'' = Some True"
  using file_path_components [of "[''usr'', ''lib'', ''..'']" "[''usr'']"]
  by (simp add: names_ok_def name_ok_def path_of_def strict_prefix_def)

end
