(* ===== verification/SecurityPolicy.thy ===== *)
theory SecurityPolicy
  imports FilePath
begin

text \<open>
  The capabilities of child processes (\<open>src/content/browser/child_process_security_policy.cc\<close>): which URLs
  they may request, which files they may read and what else they may do. The browser grants and
  revokes, and asks before it serves a request. The lock makes every operation atomic.
\<close>

type_synonym flags = "32 word"

text \<open>Of \<open>base::PlatformFileFlags\<close>.\<close>

abbreviation (input) PLATFORM_FILE_OPEN :: flags where "PLATFORM_FILE_OPEN \<equiv> 1"
abbreviation (input) PLATFORM_FILE_READ :: flags where "PLATFORM_FILE_READ \<equiv> 16"
abbreviation (input) PLATFORM_FILE_EXCLUSIVE_READ :: flags where "PLATFORM_FILE_EXCLUSIVE_READ \<equiv> 64"
abbreviation (input) PLATFORM_FILE_ASYNC :: flags where "PLATFORM_FILE_ASYNC \<equiv> 256"
abbreviation (input) PLATFORM_FILE_ENUMERATE :: flags where "PLATFORM_FILE_ENUMERATE \<equiv> 16384"

definition kReadFilePermissions :: flags where
  "kReadFilePermissions = PLATFORM_FILE_OPEN OR PLATFORM_FILE_READ OR PLATFORM_FILE_EXCLUSIVE_READ OR PLATFORM_FILE_ASYNC"

definition kEnumerateDirectoryPermissions :: flags where
  "kEnumerateDirectoryPermissions = kReadFilePermissions OR PLATFORM_FILE_ENUMERATE"

abbreviation (input) BINDINGS_WEB_UI :: flags where "BINDINGS_WEB_UI \<equiv> 1"
abbreviation (input) BINDINGS_EXTENSION :: flags where "BINDINGS_EXTENSION \<equiv> 8"

section \<open>One child\<close>

record security_state =
  scheme_policy :: "string \<Rightarrow> bool option"
  file_permissions :: "string \<Rightarrow> flags option"
  enabled_bindings :: flags
  can_read_raw_cookies :: bool

definition SecurityState :: security_state where
  "SecurityState = \<lparr>scheme_policy = Map.empty, file_permissions = Map.empty, enabled_bindings = 0,
     can_read_raw_cookies = False\<rparr>"

definition State_GrantScheme :: "string \<Rightarrow> security_state \<Rightarrow> security_state" where
  "State_GrantScheme scheme st = st\<lparr>scheme_policy := (scheme_policy st)(scheme \<mapsto> True)\<rparr>"

definition State_RevokeScheme :: "string \<Rightarrow> security_state \<Rightarrow> security_state" where
  "State_RevokeScheme scheme st = st\<lparr>scheme_policy := (scheme_policy st)(scheme \<mapsto> False)\<rparr>"

definition State_GrantPermissionsForFile :: "string \<Rightarrow> flags \<Rightarrow> security_state \<Rightarrow> security_state" where
  "State_GrantPermissionsForFile file permissions st =
     (let file = StripTrailingSeparators file;
          old = (case file_permissions st file of None \<Rightarrow> 0 | Some f \<Rightarrow> f)
      in st\<lparr>file_permissions := (file_permissions st)(file \<mapsto> old OR permissions)\<rparr>)"

definition State_RevokeAllPermissionsForFile :: "string \<Rightarrow> security_state \<Rightarrow> security_state" where
  "State_RevokeAllPermissionsForFile file st =
     st\<lparr>file_permissions := (file_permissions st)(StripTrailingSeparators file := None)\<rparr>"

definition State_GrantBindings :: "flags \<Rightarrow> security_state \<Rightarrow> security_state" where
  "State_GrantBindings bindings st = st\<lparr>enabled_bindings := enabled_bindings st OR bindings\<rparr>"

definition State_GrantReadRawCookies :: "security_state \<Rightarrow> security_state" where
  "State_GrantReadRawCookies st = st\<lparr>can_read_raw_cookies := True\<rparr>"

definition State_RevokeReadRawCookies :: "security_state \<Rightarrow> security_state" where
  "State_RevokeReadRawCookies st = st\<lparr>can_read_raw_cookies := False\<rparr>"

definition State_CanRequestScheme :: "string \<Rightarrow> security_state \<Rightarrow> bool" where
  "State_CanRequestScheme scheme st = (case scheme_policy st scheme of None \<Rightarrow> False | Some judgment \<Rightarrow> judgment)"

text \<open>The nearest directory with an entry decides.\<close>

function permissions_loop :: "(string \<Rightarrow> flags option) \<Rightarrow> flags \<Rightarrow> string \<Rightarrow> string \<Rightarrow> bool" where
  "permissions_loop entries permissions current_path last_path =
     (if current_path = last_path then False
      else case entries current_path of
          Some f \<Rightarrow> f AND permissions = permissions
        | None \<Rightarrow> permissions_loop entries permissions (DirName current_path) current_path)"
  by pat_completeness auto
termination
proof (relation "measure (\<lambda>(entries, permissions, current_path, last_path).
    2 * height current_path + (if current_path = last_path then 0 else 1))", goal_cases)
  case (2 entries permissions current_path last_path)
  then show ?case using DirName_height [of current_path] by auto
qed simp

declare permissions_loop.simps [simp del]

definition State_HasPermissionsForFile :: "string \<Rightarrow> flags \<Rightarrow> security_state \<Rightarrow> bool" where
  "State_HasPermissionsForFile file permissions st =
     permissions_loop (file_permissions st) permissions (StripTrailingSeparators file) []"

definition has_web_ui_bindings :: "security_state \<Rightarrow> bool" where
  "has_web_ui_bindings st = (enabled_bindings st AND BINDINGS_WEB_UI \<noteq> 0)"

definition has_extension_bindings :: "security_state \<Rightarrow> bool" where
  "has_extension_bindings st = (enabled_bindings st AND BINDINGS_EXTENSION \<noteq> 0)"

section \<open>All children\<close>

text \<open>URLs are \<open>GURL\<close>s, whose class is not part of the repository, and the test whether a URL is handled by
  the network stack: an argument.\<close>

record 'u urls =
  is_valid :: "'u \<Rightarrow> bool"
  url_scheme :: "'u \<Rightarrow> string"
  url_path :: "'u \<Rightarrow> string"
  url_spec :: "'u \<Rightarrow> string"
  SchemeIs :: "'u \<Rightarrow> string \<Rightarrow> bool"
  parse_url :: "string \<Rightarrow> 'u"
  IsHandledURL :: "'u \<Rightarrow> bool"

abbreviation (input) kViewSourceScheme :: string where "kViewSourceScheme \<equiv> ''view-source''"
abbreviation (input) kAboutBlankURL :: string where "kAboutBlankURL \<equiv> ''about:blank''"
abbreviation (input) kChromeUIScheme :: string where "kChromeUIScheme \<equiv> ''chrome''"
abbreviation (input) kFileScheme :: string where "kFileScheme \<equiv> ''file''"

record policy =
  web_safe_schemes :: "string set"
  pseudo_schemes :: "string set"
  disabled_schemes :: "string set"
  security_states :: "int \<Rightarrow> security_state option"
  worker_map :: "int \<Rightarrow> int option"

definition RegisterWebSafeScheme :: "string \<Rightarrow> policy \<Rightarrow> policy option" where
  "RegisterWebSafeScheme scheme p = do {
     guard (scheme \<notin> web_safe_schemes p);
     guard (scheme \<notin> pseudo_schemes p);
     Some (p\<lparr>web_safe_schemes := insert scheme (web_safe_schemes p)\<rparr>)
   }"

definition IsWebSafeScheme :: "policy \<Rightarrow> string \<Rightarrow> bool" where
  "IsWebSafeScheme p scheme = (scheme \<in> web_safe_schemes p)"

definition RegisterPseudoScheme :: "string \<Rightarrow> policy \<Rightarrow> policy option" where
  "RegisterPseudoScheme scheme p = do {
     guard (scheme \<notin> pseudo_schemes p);
     guard (scheme \<notin> web_safe_schemes p);
     Some (p\<lparr>pseudo_schemes := insert scheme (pseudo_schemes p)\<rparr>)
   }"

definition IsPseudoScheme :: "policy \<Rightarrow> string \<Rightarrow> bool" where
  "IsPseudoScheme p scheme = (scheme \<in> pseudo_schemes p)"

definition RegisterDisabledSchemes :: "string set \<Rightarrow> policy \<Rightarrow> policy" where
  "RegisterDisabledSchemes schemes p = p\<lparr>disabled_schemes := schemes\<rparr>"

definition IsDisabledScheme :: "policy \<Rightarrow> string \<Rightarrow> bool" where
  "IsDisabledScheme p scheme = (scheme \<in> disabled_schemes p)"

definition ChildProcessSecurityPolicy :: "policy option" where
  "ChildProcessSecurityPolicy = do {
     let p = \<lparr>web_safe_schemes = {}, pseudo_schemes = {}, disabled_schemes = {}, security_states = Map.empty,
       worker_map = Map.empty\<rparr>;
     p \<leftarrow> RegisterWebSafeScheme ''http'' p;
     p \<leftarrow> RegisterWebSafeScheme ''https'' p;
     p \<leftarrow> RegisterWebSafeScheme ''ftp'' p;
     p \<leftarrow> RegisterWebSafeScheme ''data'' p;
     p \<leftarrow> RegisterWebSafeScheme ''feed'' p;
     p \<leftarrow> RegisterWebSafeScheme ''chrome-extension'' p;
     p \<leftarrow> RegisterWebSafeScheme ''blob'' p;
     p \<leftarrow> RegisterWebSafeScheme ''filesystem'' p;
     p \<leftarrow> RegisterPseudoScheme ''about'' p;
     p \<leftarrow> RegisterPseudoScheme ''javascript'' p;
     RegisterPseudoScheme kViewSourceScheme p
   }"

definition AddChild :: "int \<Rightarrow> policy \<Rightarrow> policy option" where
  "AddChild child_id p = do {
     guard (security_states p child_id = None);
     Some (p\<lparr>security_states := (security_states p)(child_id \<mapsto> SecurityState)\<rparr>)
   }"

definition Add :: "int \<Rightarrow> policy \<Rightarrow> policy option" where
  "Add child_id p = AddChild child_id p"

definition AddWorker :: "int \<Rightarrow> int \<Rightarrow> policy \<Rightarrow> policy option" where
  "AddWorker child_id main_render_process_id p = do {
     p \<leftarrow> AddChild child_id p;
     Some (p\<lparr>worker_map := (worker_map p)(child_id \<mapsto> main_render_process_id)\<rparr>)
   }"

definition Remove :: "int \<Rightarrow> policy \<Rightarrow> policy" where
  "Remove child_id p =
     (if security_states p child_id = None then p
      else p\<lparr>security_states := (security_states p)(child_id := None), worker_map := (worker_map p)(child_id := None)\<rparr>)"

text \<open>The common shape of the operations on one child.\<close>

definition update_child :: "int \<Rightarrow> (security_state \<Rightarrow> security_state) \<Rightarrow> policy \<Rightarrow> policy" where
  "update_child child_id f p =
     (case security_states p child_id of None \<Rightarrow> p
      | Some st \<Rightarrow> p\<lparr>security_states := (security_states p)(child_id \<mapsto> f st)\<rparr>)"

definition GrantScheme :: "int \<Rightarrow> string \<Rightarrow> policy \<Rightarrow> policy" where
  "GrantScheme child_id scheme = update_child child_id (State_GrantScheme scheme)"

text \<open>A URL with the scheme \<open>view-source\<close> leads to the URL in its path; that this ends depends on the parser.\<close>

partial_function (option) GrantRequestURL :: "'u urls \<Rightarrow> int \<Rightarrow> 'u \<Rightarrow> policy \<Rightarrow> policy option" where
  "GrantRequestURL G child_id url p =
     (if \<not> is_valid G url then Some p
      else if IsWebSafeScheme p (url_scheme G url) then Some p
      else if IsPseudoScheme p (url_scheme G url) then
        (if SchemeIs G url kViewSourceScheme
         then GrantRequestURL G child_id (parse_url G (url_path G url)) p else Some p)
      else Some (update_child child_id (State_GrantScheme (url_scheme G url)) p))"

definition GrantPermissionsForFile :: "int \<Rightarrow> string \<Rightarrow> flags \<Rightarrow> policy \<Rightarrow> policy" where
  "GrantPermissionsForFile child_id file permissions =
     update_child child_id (State_GrantPermissionsForFile file permissions)"

definition GrantReadFile :: "int \<Rightarrow> string \<Rightarrow> policy \<Rightarrow> policy" where
  "GrantReadFile child_id file = GrantPermissionsForFile child_id file kReadFilePermissions"

definition GrantReadDirectory :: "int \<Rightarrow> string \<Rightarrow> policy \<Rightarrow> policy" where
  "GrantReadDirectory child_id directory = GrantPermissionsForFile child_id directory kEnumerateDirectoryPermissions"

definition RevokeAllPermissionsForFile :: "int \<Rightarrow> string \<Rightarrow> policy \<Rightarrow> policy" where
  "RevokeAllPermissionsForFile child_id file = update_child child_id (State_RevokeAllPermissionsForFile file)"

definition GrantWebUIBindings :: "int \<Rightarrow> policy \<Rightarrow> policy" where
  "GrantWebUIBindings child_id = update_child child_id
     (State_GrantScheme kFileScheme \<circ> State_GrantScheme kChromeUIScheme \<circ> State_GrantBindings BINDINGS_WEB_UI)"

definition GrantExtensionBindings :: "int \<Rightarrow> policy \<Rightarrow> policy" where
  "GrantExtensionBindings child_id = update_child child_id (State_GrantBindings BINDINGS_EXTENSION)"

definition GrantReadRawCookies :: "int \<Rightarrow> policy \<Rightarrow> policy" where
  "GrantReadRawCookies child_id = update_child child_id State_GrantReadRawCookies"

definition RevokeReadRawCookies :: "int \<Rightarrow> policy \<Rightarrow> policy" where
  "RevokeReadRawCookies child_id = update_child child_id State_RevokeReadRawCookies"

section \<open>Questions\<close>

definition ask_child :: "int \<Rightarrow> (security_state \<Rightarrow> bool) \<Rightarrow> policy \<Rightarrow> bool" where
  "ask_child child_id f p = (case security_states p child_id of None \<Rightarrow> False | Some st \<Rightarrow> f st)"

function CanRequestURL :: "'u urls \<Rightarrow> policy \<Rightarrow> int \<Rightarrow> 'u \<Rightarrow> bool" where
  "CanRequestURL G p child_id url =
     (if \<not> is_valid G url then False
      else if IsDisabledScheme p (url_scheme G url) then False
      else if IsWebSafeScheme p (url_scheme G url) then True
      else if IsPseudoScheme p (url_scheme G url) then
        (if SchemeIs G url kViewSourceScheme then
           let child_url = parse_url G (url_path G url)
           in if SchemeIs G child_url kViewSourceScheme \<and> SchemeIs G url kViewSourceScheme then False
              else CanRequestURL G p child_id child_url
         else LowerCaseEqualsASCII (url_spec G url) kAboutBlankURL)
      else if \<not> IsHandledURL G url then True
      else ask_child child_id (State_CanRequestScheme (url_scheme G url)) p)"
  by pat_completeness auto
termination
  by (relation "measure (\<lambda>(G, p, child_id, url). if SchemeIs G url kViewSourceScheme then 1 else 0)") auto

declare CanRequestURL.simps [simp del]

definition ChildProcessHasPermissionsForFile :: "policy \<Rightarrow> int \<Rightarrow> string \<Rightarrow> flags \<Rightarrow> bool" where
  "ChildProcessHasPermissionsForFile p child_id file permissions =
     ask_child child_id (State_HasPermissionsForFile file permissions) p"

definition HasPermissionsForFile :: "policy \<Rightarrow> int \<Rightarrow> string \<Rightarrow> flags \<Rightarrow> bool" where
  "HasPermissionsForFile p child_id file permissions =
     (let result = ChildProcessHasPermissionsForFile p child_id file permissions
      in if \<not> result then
           (case worker_map p child_id of
              Some main \<Rightarrow> if main \<noteq> 0 then ChildProcessHasPermissionsForFile p main file permissions else result
            | None \<Rightarrow> result)
         else result)"

definition CanReadFile :: "policy \<Rightarrow> int \<Rightarrow> string \<Rightarrow> bool" where
  "CanReadFile p child_id file = HasPermissionsForFile p child_id file kReadFilePermissions"

definition CanReadDirectory :: "policy \<Rightarrow> int \<Rightarrow> string \<Rightarrow> bool" where
  "CanReadDirectory p child_id directory = HasPermissionsForFile p child_id directory kEnumerateDirectoryPermissions"

definition HasWebUIBindings :: "policy \<Rightarrow> int \<Rightarrow> bool" where
  "HasWebUIBindings p child_id = ask_child child_id has_web_ui_bindings p"

definition HasExtensionBindings :: "policy \<Rightarrow> int \<Rightarrow> bool" where
  "HasExtensionBindings p child_id = ask_child child_id has_extension_bindings p"

definition CanReadRawCookies :: "policy \<Rightarrow> int \<Rightarrow> bool" where
  "CanReadRawCookies p child_id = ask_child child_id can_read_raw_cookies p"

end
