(* ===== verification/SecurityPolicyProofs.thy ===== *)
theory SecurityPolicyProofs
  imports SecurityPolicy FilePathProofs
begin

text \<open>
  What the capabilities of child processes (\<open>src/content/browser/child_process_security_policy.cc\<close>) amount to,
  for every sequence of grants and revocations.
\<close>

section \<open>Histories\<close>

datatype 'u operation =
  OAdd int
| OAddWorker int int
| ORemove int
| ORegisterWebSafe string
| ORegisterPseudo string
| ODisable "string set"
| OGrantURL int 'u
| OGrantScheme int string
| OGrantFile int string flags
| ORevokeFile int string
| OWebUI int
| OExtension int
| OCookies int
| ORevokeCookies int

fun operate :: "'u urls \<Rightarrow> 'u operation \<Rightarrow> policy \<Rightarrow> policy option" where
  "operate G (OAdd c) p = Add c p"
| "operate G (OAddWorker c m) p = AddWorker c m p"
| "operate G (ORemove c) p = Some (Remove c p)"
| "operate G (ORegisterWebSafe s) p = RegisterWebSafeScheme s p"
| "operate G (ORegisterPseudo s) p = RegisterPseudoScheme s p"
| "operate G (ODisable ss) p = Some (RegisterDisabledSchemes ss p)"
| "operate G (OGrantURL c u) p = GrantRequestURL G c u p"
| "operate G (OGrantScheme c s) p = Some (GrantScheme c s p)"
| "operate G (OGrantFile c f perm) p = Some (GrantPermissionsForFile c f perm p)"
| "operate G (ORevokeFile c f) p = Some (RevokeAllPermissionsForFile c f p)"
| "operate G (OWebUI c) p = Some (GrantWebUIBindings c p)"
| "operate G (OExtension c) p = Some (GrantExtensionBindings c p)"
| "operate G (OCookies c) p = Some (GrantReadRawCookies c p)"
| "operate G (ORevokeCookies c) p = Some (RevokeReadRawCookies c p)"

primrec operate_all :: "'u urls \<Rightarrow> 'u operation list \<Rightarrow> policy \<Rightarrow> policy option" where
  "operate_all G [] p = Some p"
| "operate_all G (x # xs) p = Option.bind (operate G x p) (operate_all G xs)"

lemma run_snoc: "operate_all G (xs @ [x]) p = Option.bind (operate_all G xs p) (operate G x)"
  by (induction xs arbitrary: p) (auto split: Option.bind_splits)

text \<open>A child is there when it was added and not removed since.\<close>

definition adds :: "'u operation \<Rightarrow> int \<Rightarrow> bool" where
  "adds x c \<longleftrightarrow> x = OAdd c \<or> (\<exists>m. x = OAddWorker c m)"

definition alive :: "'u operation list \<Rightarrow> int \<Rightarrow> bool" where
  "alive xs c \<longleftrightarrow> (\<exists>pre x post. xs = pre @ x # post \<and> adds x c \<and> ORemove c \<notin> set post)"

text \<open>The scheme that a URL leads to, through any number of \<open>view-source\<close>.\<close>

inductive leads_to :: "'u urls \<Rightarrow> 'u \<Rightarrow> string \<Rightarrow> bool" for G where
  leads_direct: "is_valid G u \<Longrightarrow> url_scheme G u \<noteq> kViewSourceScheme \<Longrightarrow> leads_to G u (url_scheme G u)"
| leads_view: "is_valid G u \<Longrightarrow> url_scheme G u = kViewSourceScheme \<Longrightarrow> leads_to G (parse_url G (url_path G u)) s \<Longrightarrow>
    leads_to G u s"

inductive_simps leads_to_simps: "leads_to G u s"

definition grants :: "'u urls \<Rightarrow> 'u operation \<Rightarrow> int \<Rightarrow> string \<Rightarrow> bool" where
  "grants G x c s \<longleftrightarrow> x = OGrantScheme c s \<or> x = OWebUI c \<and> (s = kChromeUIScheme \<or> s = kFileScheme) \<or>
     (\<exists>u. x = OGrantURL c u \<and> leads_to G u s)"

definition granted :: "'u urls \<Rightarrow> 'u operation list \<Rightarrow> int \<Rightarrow> string \<Rightarrow> bool" where
  "granted G xs c s \<longleftrightarrow> (\<exists>pre x post. xs = pre @ x # post \<and> alive pre c \<and> grants G x c s \<and> ORemove c \<notin> set post)"

lemma alive_Nil [simp]: "\<not> alive [] c"
  by (simp add: alive_def)

lemma granted_Nil [simp]: "\<not> granted G [] c s"
  by (simp add: granted_def)

lemma split_snoc:
  "(\<exists>pre y post. xs @ [x] = pre @ y # post \<and> P pre y \<and> r \<notin> set post) \<longleftrightarrow>
    P xs x \<or> (x \<noteq> r \<and> (\<exists>pre y post. xs = pre @ y # post \<and> P pre y \<and> r \<notin> set post))"
proof
  assume "\<exists>pre y post. xs @ [x] = pre @ y # post \<and> P pre y \<and> r \<notin> set post"
  then obtain pre y post where a: "xs @ [x] = pre @ y # post" "P pre y" "r \<notin> set post" by blast
  show "P xs x \<or> (x \<noteq> r \<and> (\<exists>pre y post. xs = pre @ y # post \<and> P pre y \<and> r \<notin> set post))"
  proof (cases post rule: rev_cases)
    case Nil
    then show ?thesis using a by simp
  next
    case (snoc post' z)
    then show ?thesis using a by auto
  qed
next
  assume "P xs x \<or> (x \<noteq> r \<and> (\<exists>pre y post. xs = pre @ y # post \<and> P pre y \<and> r \<notin> set post))"
  then show "\<exists>pre y post. xs @ [x] = pre @ y # post \<and> P pre y \<and> r \<notin> set post"
  proof
    assume "P xs x"
    then show ?thesis by (intro exI [of _ xs] exI [of _ x] exI [of _ "[]"]) simp
  next
    assume "x \<noteq> r \<and> (\<exists>pre y post. xs = pre @ y # post \<and> P pre y \<and> r \<notin> set post)"
    then obtain pre y post where "xs = pre @ y # post" "P pre y" "r \<notin> set post" "x \<noteq> r" by blast
    then show ?thesis by (intro exI [of _ pre] exI [of _ y] exI [of _ "post @ [x]"]) simp
  qed
qed

lemma alive_snoc: "alive (xs @ [x]) c \<longleftrightarrow> adds x c \<or> (x \<noteq> ORemove c \<and> alive xs c)"
  unfolding alive_def by (rule split_snoc [where P = "\<lambda>pre y. adds y c"])

lemma granted_snoc:
  "granted G (xs @ [x]) c s \<longleftrightarrow> (alive xs c \<and> grants G x c s) \<or> (x \<noteq> ORemove c \<and> granted G xs c s)"
  unfolding granted_def using split_snoc [where P = "\<lambda>pre y. alive pre c \<and> grants G y c s"] by simp

lemma grants_not_remove: "grants G x c s \<Longrightarrow> x \<noteq> ORemove c"
  by (auto simp: grants_def)

lemma granted_alive: "granted G xs c s \<Longrightarrow> alive xs c"
  by (induction xs rule: rev_induct) (auto simp: granted_snoc alive_snoc dest: grants_not_remove)

section \<open>Requests\<close>

text \<open>The documented meaning of \<open>GURL::SchemeIs\<close>.\<close>

definition scheme_law :: "'u urls \<Rightarrow> bool" where
  "scheme_law G \<longleftrightarrow> (\<forall>u s. SchemeIs G u s \<longleftrightarrow> url_scheme G u = s)"

definition special :: "policy \<Rightarrow> string set" where
  "special p = web_safe_schemes p \<union> pseudo_schemes p"

definition schemes_ok :: "policy \<Rightarrow> bool" where
  "schemes_ok p \<longleftrightarrow> kViewSourceScheme \<in> pseudo_schemes p \<and> web_safe_schemes p \<inter> pseudo_schemes p = {}"

lemma GrantRequestURL_effect:
  assumes "GrantRequestURL G c u p = Some p'" "scheme_law G" "schemes_ok p"
  shows "(\<exists>t. leads_to G u t \<and> t \<notin> special p \<and> p' = update_child c (State_GrantScheme t) p) \<or>
    (p' = p \<and> (\<forall>t. leads_to G u t \<longrightarrow> t \<in> special p))"
  using assms
proof (induction rule: GrantRequestURL.raw_induct [rotated, consumes 1])
  case (1 f G c u p p')
  show ?case
  proof (cases "is_valid G u \<and> url_scheme G u = kViewSourceScheme")
    case True
    then have "f G c (parse_url G (url_path G u)) p = Some p'"
      using 1(2-4) by (auto simp: scheme_law_def schemes_ok_def IsWebSafeScheme_def IsPseudoScheme_def split: if_splits)
    from 1(1) [OF this 1(3,4)] show ?thesis using True by (simp add: leads_to_simps [of G u])
  next
    case False
    then show ?thesis using 1(2-4)
      by (auto simp: leads_to_simps [of G u] special_def scheme_law_def IsWebSafeScheme_def IsPseudoScheme_def split: if_splits)
  qed
qed

text \<open>What every operation keeps.\<close>

definition history_ok :: "'u urls \<Rightarrow> 'u operation list \<Rightarrow> policy \<Rightarrow> bool" where
  "history_ok G xs p \<longleftrightarrow> schemes_ok p \<and> (\<forall>c. security_states p c \<noteq> None \<longleftrightarrow> alive xs c) \<and>
     (\<forall>c s. s \<notin> special p \<longrightarrow> (ask_child c (State_CanRequestScheme s) p \<longleftrightarrow> granted G xs c s))"

lemma update_child_simps [simp]:
  "web_safe_schemes (update_child c f p) = web_safe_schemes p" "pseudo_schemes (update_child c f p) = pseudo_schemes p"
  "disabled_schemes (update_child c f p) = disabled_schemes p" "worker_map (update_child c f p) = worker_map p"
  "security_states (update_child c f p) d = (if d = c then map_option f (security_states p c) else security_states p d)"
  by (simp_all add: update_child_def split: option.split)

lemma special_update [simp]: "special (update_child c f p) = special p"
  by (simp add: special_def)

lemma ask_update: "ask_child d q (update_child c f p) =
  (if d = c then security_states p c \<noteq> None \<and> ask_child c (q \<circ> f) p else ask_child d q p)"
  by (auto simp: ask_child_def split: option.splits)

lemma CanRequestScheme_grant [simp]:
  "State_CanRequestScheme s (State_GrantScheme t st) \<longleftrightarrow> s = t \<or> State_CanRequestScheme s st"
  by (auto simp: State_CanRequestScheme_def State_GrantScheme_def split: option.splits)

lemma CanRequestScheme_other [simp]:
  "State_CanRequestScheme s (State_GrantPermissionsForFile f perm st) = State_CanRequestScheme s st"
  "State_CanRequestScheme s (State_RevokeAllPermissionsForFile f st) = State_CanRequestScheme s st"
  "State_CanRequestScheme s (State_GrantBindings b st) = State_CanRequestScheme s st"
  "State_CanRequestScheme s (State_GrantReadRawCookies st) = State_CanRequestScheme s st"
  "State_CanRequestScheme s (State_RevokeReadRawCookies st) = State_CanRequestScheme s st"
  "\<not> State_CanRequestScheme s SecurityState"
  by (simp_all add: State_CanRequestScheme_def State_GrantPermissionsForFile_def State_RevokeAllPermissionsForFile_def
    State_GrantBindings_def State_GrantReadRawCookies_def State_RevokeReadRawCookies_def SecurityState_def Let_def)

text \<open>An operation on the state of one child that grants the schemes of a set.\<close>

lemma history_update:
  assumes "history_ok G xs p" "\<And>d. \<not> adds x d" "\<And>d. x \<noteq> ORemove d"
    "\<And>s st. State_CanRequestScheme s (f st) \<longleftrightarrow> s \<in> S \<or> State_CanRequestScheme s st"
    "\<And>d s. s \<notin> special p \<Longrightarrow> grants G x d s \<longleftrightarrow> d = c \<and> s \<in> S"
  shows "history_ok G (xs @ [x]) (update_child c f p)"
proof -
  have alive: "alive (xs @ [x]) d \<longleftrightarrow> alive xs d" for d using assms(2,3) by (simp add: alive_snoc)
  have "ask_child d (State_CanRequestScheme s) (update_child c f p) \<longleftrightarrow> granted G (xs @ [x]) d s" if "s \<notin> special p" for d s
  proof -
    have IH: "ask_child d (State_CanRequestScheme s) p \<longleftrightarrow> granted G xs d s" "security_states p d \<noteq> None \<longleftrightarrow> alive xs d"
      using assms(1) that by (simp_all add: history_ok_def)
    have "ask_child c (State_CanRequestScheme s \<circ> f) p \<longleftrightarrow> security_states p c \<noteq> None \<and> (s \<in> S \<or> ask_child c (State_CanRequestScheme s) p)"
      by (auto simp: ask_child_def assms(4) split: option.splits)
    then show ?thesis using IH granted_alive [of G xs d s] assms(3) assms(5) [OF that] by (cases "d = c") (auto simp: ask_update granted_snoc)
  qed
  then show ?thesis using assms(1) alive by (auto simp: history_ok_def schemes_ok_def)
qed

lemma history_skip:
  assumes "history_ok G xs p" "\<And>d. \<not> adds x d" "\<And>d. x \<noteq> ORemove d" "\<And>d s. s \<notin> special p' \<Longrightarrow> \<not> grants G x d s"
    "security_states p' = security_states p" "special p \<subseteq> special p'" "schemes_ok p'"
  shows "history_ok G (xs @ [x]) p'"
proof -
  have ask: "ask_child c q p' = ask_child c q p" for c q using assms(5) by (simp add: ask_child_def)
  have "s \<notin> special p" if "s \<notin> special p'" for s using assms(6) that by blast
  then show ?thesis using assms(1-4,7) unfolding history_ok_def assms(5) ask by (simp add: alive_snoc granted_snoc)
qed

lemma history_add:
  assumes "history_ok G xs p" "AddChild c p = Some q" "p' = q\<lparr>worker_map := w\<rparr>" "\<And>d. adds x d \<longleftrightarrow> d = c"
    "\<And>d. x \<noteq> ORemove d" "\<And>d s. \<not> grants G x d s"
  shows "history_ok G (xs @ [x]) p'"
proof -
  have fresh: "security_states p c = None" and q: "q = p\<lparr>security_states := (security_states p)(c \<mapsto> SecurityState)\<rparr>"
    using assms(2) by (auto simp: AddChild_def split: if_splits)
  have "security_states p c \<noteq> None \<longleftrightarrow> alive xs c" using assms(1) unfolding history_ok_def by blast
  then have "\<not> alive xs c" using fresh by simp
  then have "\<not> granted G xs c s" for s using granted_alive by blast
  then show ?thesis using assms(1,4-6) unfolding assms(3) q
    by (auto simp: history_ok_def alive_snoc granted_snoc ask_child_def special_def schemes_ok_def)
qed

lemma history_remove:
  assumes "history_ok G xs p"
  shows "history_ok G (xs @ [ORemove c]) (Remove c p)"
proof -
  have s: "security_states (Remove c p) d = (if d = c then None else security_states p d)" for d by (simp add: Remove_def)
  have sch: "special (Remove c p) = special p" "schemes_ok (Remove c p) = schemes_ok p"
    by (simp_all add: Remove_def special_def schemes_ok_def)
  show ?thesis using assms unfolding history_ok_def sch
    by (auto simp: alive_snoc granted_snoc ask_child_def s adds_def grants_def)
qed

lemma history_step:
  assumes "history_ok G xs p" "operate G x p = Some p'" "scheme_law G"
  shows "history_ok G (xs @ [x]) p'"
proof -
  have ok: "schemes_ok p" using assms(1) by (simp add: history_ok_def)
  show ?thesis
  proof (cases x)
    case (OAdd c)
    show ?thesis by (rule history_add [OF assms(1), where c = c and q = p' and w = "worker_map p'"]) (use assms(2) OAdd in \<open>auto simp: Add_def adds_def grants_def\<close>)
  next
    case (OAddWorker c m)
    then obtain p1 where "AddChild c p = Some p1" "p' = p1\<lparr>worker_map := (worker_map p1)(c \<mapsto> m)\<rparr>"
      using assms(2) by (auto simp: AddWorker_def split: Option.bind_splits)
    then show ?thesis by (rule history_add [OF assms(1)]) (auto simp: OAddWorker adds_def grants_def)
  next
    case (ORemove c)
    then have "p' = Remove c p" using assms(2) by simp
    then show ?thesis using history_remove [OF assms(1), of c] ORemove by simp
  next
    case (ORegisterWebSafe s)
    show ?thesis
      by (rule history_skip [OF assms(1)]) (use assms(2) ok ORegisterWebSafe in
        \<open>auto simp: adds_def grants_def RegisterWebSafeScheme_def special_def schemes_ok_def split: if_splits\<close>)
  next
    case (ORegisterPseudo s)
    show ?thesis
      by (rule history_skip [OF assms(1)]) (use assms(2) ok ORegisterPseudo in
        \<open>auto simp: adds_def grants_def RegisterPseudoScheme_def special_def schemes_ok_def split: if_splits\<close>)
  next
    case (ODisable ss)
    show ?thesis
      by (rule history_skip [OF assms(1)]) (use assms(2) ok ODisable in
        \<open>auto simp: adds_def grants_def RegisterDisabledSchemes_def special_def schemes_ok_def\<close>)
  next
    case (OGrantURL c u)
    then have "GrantRequestURL G c u p = Some p'" using assms(2) by simp
    from GrantRequestURL_effect [OF this assms(3) ok] show ?thesis
    proof
      assume "\<exists>t. leads_to G u t \<and> t \<notin> special p \<and> p' = update_child c (State_GrantScheme t) p"
      then obtain t where t: "leads_to G u t" "p' = update_child c (State_GrantScheme t) p" by blast
      have "leads_to G u s \<longleftrightarrow> s = t" for s using t(1)
      proof (induction arbitrary: s)
        case (leads_direct u)
        then show ?case by (auto simp: leads_to_simps [of G u])
      next
        case (leads_view u t)
        then show ?case by (auto simp: leads_to_simps [of G u])
      qed
      then show ?thesis unfolding t(2)
        by (intro history_update [where S = "{t}", OF assms(1)]) (auto simp: OGrantURL adds_def grants_def)
    next
      assume "p' = p \<and> (\<forall>t. leads_to G u t \<longrightarrow> t \<in> special p)"
      then show ?thesis by (intro history_skip [OF assms(1)]) (auto simp: OGrantURL adds_def grants_def ok)
    qed
  next
    case (OGrantScheme c s)
    then show ?thesis using assms(2)
      by (auto simp: GrantScheme_def adds_def grants_def intro!: history_update [where S = "{s}", OF assms(1)])
  next
    case (OWebUI c)
    then show ?thesis using assms(2)
      by (auto simp: GrantWebUIBindings_def adds_def grants_def intro!: history_update [where S = "{kChromeUIScheme, kFileScheme}", OF assms(1)])
  next
    case (OGrantFile c f perm)
    then show ?thesis using assms(2)
      by (auto simp: GrantPermissionsForFile_def adds_def grants_def intro!: history_update [where S = "{}", OF assms(1)])
  next
    case (ORevokeFile c f)
    then show ?thesis using assms(2)
      by (auto simp: RevokeAllPermissionsForFile_def adds_def grants_def intro!: history_update [where S = "{}", OF assms(1)])
  next
    case (OExtension c)
    then show ?thesis using assms(2)
      by (auto simp: GrantExtensionBindings_def adds_def grants_def intro!: history_update [where S = "{}", OF assms(1)])
  next
    case (OCookies c)
    then show ?thesis using assms(2)
      by (auto simp: GrantReadRawCookies_def adds_def grants_def intro!: history_update [where S = "{}", OF assms(1)])
  next
    case (ORevokeCookies c)
    then show ?thesis using assms(2)
      by (auto simp: RevokeReadRawCookies_def adds_def grants_def intro!: history_update [where S = "{}", OF assms(1)])
  qed
qed

lemma initial_policy:
  "ChildProcessSecurityPolicy = Some \<lparr>
     web_safe_schemes = {''filesystem'', ''blob'', ''chrome-extension'', ''feed'', ''data'', ''ftp'', ''https'', ''http''},
     pseudo_schemes = {kViewSourceScheme, ''javascript'', ''about''}, disabled_schemes = {}, security_states = Map.empty,
     worker_map = Map.empty\<rparr>"
  by (simp add: ChildProcessSecurityPolicy_def RegisterWebSafeScheme_def RegisterPseudoScheme_def Let_def)

lemma history_run:
  assumes "ChildProcessSecurityPolicy = Some p0" "operate_all G xs p0 = Some p" "scheme_law G"
  shows "history_ok G xs p"
  using assms(2)
proof (induction xs arbitrary: p rule: rev_induct)
  case Nil
  then show ?case using assms(1) by (auto simp: initial_policy history_ok_def schemes_ok_def ask_child_def)
next
  case (snoc x xs)
  then obtain q where "operate_all G xs p0 = Some q" "operate G x q = Some p" by (auto simp: run_snoc split: Option.bind_splits)
  then show ?case using snoc.IH history_step assms(3) by blast
qed

text \<open>
  C13 (safety): after every history of grants, revocations, additions and removals, a child may request a
  URL that the network stack handles and whose scheme is neither web-safe, nor a pseudo scheme, nor disabled, exactly if
  that scheme was granted to this child since it was added last: by itself, with the bindings of the web UI, or
  for a URL that leads to it. A removed child may request none, and no grant to another child counts.
\<close>

theorem requests_need_grants:
  assumes "ChildProcessSecurityPolicy = Some p0" "operate_all G history p0 = Some p" "scheme_law G"
    "is_valid G url" "IsHandledURL G url" "\<not> IsDisabledScheme p (url_scheme G url)"
    "\<not> IsWebSafeScheme p (url_scheme G url)" "\<not> IsPseudoScheme p (url_scheme G url)"
  shows "CanRequestURL G p child url \<longleftrightarrow> granted G history child (url_scheme G url)"
proof -
  have "history_ok G history p" by (rule history_run [OF assms(1-3)])
  then have "ask_child child (State_CanRequestScheme (url_scheme G url)) p \<longleftrightarrow> granted G history child (url_scheme G url)"
    using assms(7,8) by (simp add: history_ok_def special_def IsWebSafeScheme_def IsPseudoScheme_def)
  then show ?thesis using assms(4-8) by (subst CanRequestURL.simps) simp
qed

text \<open>URLs as strings, the scheme before the first colon.\<close>

definition text_urls :: "string urls" where
  "text_urls = \<lparr>is_valid = \<lambda>u. True, url_scheme = takeWhile (\<lambda>c. c \<noteq> CHR '':''),
     url_path = \<lambda>u. tl (dropWhile (\<lambda>c. c \<noteq> CHR '':'') u), url_spec = \<lambda>u. u,
     SchemeIs = \<lambda>u s. takeWhile (\<lambda>c. c \<noteq> CHR '':'') u = s, parse_url = \<lambda>u. u, IsHandledURL = \<lambda>u. True\<rparr>"

theorem requests_need_grants_witness:
  "\<exists>p0 p. ChildProcessSecurityPolicy = Some p0 \<and> operate_all text_urls [OAdd 7, OGrantScheme 7 ''chrome'', OAdd 8] p0 = Some p \<and>
    CanRequestURL text_urls p 7 ''chrome:history'' \<and> \<not> CanRequestURL text_urls p 8 ''chrome:history''"
proof -
  let ?h = "[OAdd 7, OGrantScheme 7 ''chrome'', OAdd 8] :: string operation list"
  obtain p0 p where p: "ChildProcessSecurityPolicy = Some p0" "operate_all text_urls ?h p0 = Some p" "web_safe_schemes p = web_safe_schemes p0"
    "pseudo_schemes p = pseudo_schemes p0" "disabled_schemes p = {}"
    by (auto simp: initial_policy Add_def AddChild_def GrantScheme_def update_child_def)
  have law: "scheme_law text_urls" by (simp add: scheme_law_def text_urls_def)
  have alive: "alive [OAdd 7] (7 :: int)" using alive_snoc [of "[]" "OAdd 7" 7] by (simp add: adds_def)
  have h: "?h = [OAdd 7] @ OGrantScheme 7 ''chrome'' # [OAdd 8]" by simp
  have yes: "granted text_urls ?h 7 ''chrome''" unfolding granted_def
    by (intro exI conjI, rule h) (simp_all add: alive grants_def)
  have no: "\<not> granted text_urls ?h 8 ''chrome''"
    using granted_snoc [of text_urls "[OAdd 7, OGrantScheme 7 ''chrome'']" "OAdd 8" 8 "''chrome''"]
      granted_snoc [of text_urls "[OAdd 7]" "OGrantScheme 7 ''chrome''" 8 "''chrome''"]
      granted_snoc [of text_urls "[]" "OAdd 7" 8 "''chrome''"] by (simp add: grants_def)
  have q: "is_valid text_urls ''chrome:history''" "IsHandledURL text_urls ''chrome:history''"
    "url_scheme text_urls ''chrome:history'' = ''chrome''" by (simp_all add: text_urls_def)
  have "\<not> IsDisabledScheme p ''chrome''" "\<not> IsWebSafeScheme p ''chrome''" "\<not> IsPseudoScheme p ''chrome''"
    using p by (auto simp: IsDisabledScheme_def IsWebSafeScheme_def IsPseudoScheme_def initial_policy)
  then show ?thesis using requests_need_grants [OF p(1,2) law q(1,2)] p(1,2) q(3) yes no by auto
qed

section \<open>Children do not interfere\<close>

text \<open>The child that an operation is about.\<close>

fun about :: "'u operation \<Rightarrow> int option" where
  "about (OAdd c) = Some c" | "about (OAddWorker c m) = Some c" | "about (ORemove c) = Some c"
| "about (OGrantURL c u) = Some c" | "about (OGrantScheme c s) = Some c" | "about (OGrantFile c f perm) = Some c"
| "about (ORevokeFile c f) = Some c" | "about (OWebUI c) = Some c" | "about (OExtension c) = Some c"
| "about (OCookies c) = Some c" | "about (ORevokeCookies c) = Some c"
| "about _ = None"

text \<open>Everything that can be asked about a child.\<close>

definition same_answers :: "'u urls \<Rightarrow> int \<Rightarrow> policy \<Rightarrow> policy \<Rightarrow> bool" where
  "same_answers G d p p' \<longleftrightarrow> (\<forall>u. CanRequestURL G p' d u = CanRequestURL G p d u) \<and>
     (\<forall>f perm. HasPermissionsForFile p' d f perm = HasPermissionsForFile p d f perm) \<and>
     HasWebUIBindings p' d = HasWebUIBindings p d \<and> HasExtensionBindings p' d = HasExtensionBindings p d \<and>
     CanReadRawCookies p' d = CanReadRawCookies p d"

lemma CanRequestURL_cong:
  assumes "web_safe_schemes p' = web_safe_schemes p" "pseudo_schemes p' = pseudo_schemes p"
    "disabled_schemes p' = disabled_schemes p" "security_states p' d = security_states p d"
  shows "CanRequestURL G p' d u = CanRequestURL G p d u"
  using assms
proof (induction G p d u rule: CanRequestURL.induct)
  case (1 G p d u)
  have ask: "ask_child d q p' = ask_child d q p" for q using 1(5) by (simp add: ask_child_def)
  have test: "IsDisabledScheme p' s = IsDisabledScheme p s" "IsWebSafeScheme p' s = IsWebSafeScheme p s"
    "IsPseudoScheme p' s = IsPseudoScheme p s" for s
    using 1(2-4) by (simp_all add: IsDisabledScheme_def IsWebSafeScheme_def IsPseudoScheme_def)
  show ?case using 1(1) [OF _ _ _ _ _ refl] 1(2-5)
    by (subst (1 2) CanRequestURL.simps) (simp add: ask test Let_def)
qed

lemma other_child:
  assumes "operate G x p = Some p'" "about x = Some c" "d \<noteq> c"
  shows "web_safe_schemes p' = web_safe_schemes p \<and> pseudo_schemes p' = pseudo_schemes p \<and>
    disabled_schemes p' = disabled_schemes p \<and> security_states p' d = security_states p d \<and> worker_map p' d = worker_map p d"
proof (cases x)
  case (OGrantURL c' u)
  have "web_safe_schemes p' = web_safe_schemes p \<and> pseudo_schemes p' = pseudo_schemes p \<and>
    disabled_schemes p' = disabled_schemes p \<and> security_states p' d = security_states p d \<and> worker_map p' d = worker_map p d"
    if "GrantRequestURL G c u p = Some p'" for u
    using that assms(3)
  proof (induction rule: GrantRequestURL.raw_induct [rotated, consumes 1])
    case (1 f G c u p p')
    then show ?case by (auto split: if_splits)
  qed
  then show ?thesis using assms OGrantURL by simp
qed (use assms in \<open>auto simp: Add_def AddChild_def AddWorker_def Remove_def GrantScheme_def GrantPermissionsForFile_def
    RevokeAllPermissionsForFile_def GrantWebUIBindings_def GrantExtensionBindings_def GrantReadRawCookies_def
    RevokeReadRawCookies_def split: if_splits Option.bind_splits\<close>)

text \<open>
  C30 (invariant): children do not interfere. An operation on one child, a grant, a revocation, its addition or its removal,
  changes no answer about another child, except about a worker of that child.
\<close>

theorem children_isolated:
  assumes "operate G x p = Some p'" "about x = Some c" "d \<noteq> c" "worker_map p d \<noteq> Some c"
  shows "same_answers G d p p'"
proof -
  note o = other_child [OF assms(1-3)]
  have ask: "ask_child d q p' = ask_child d q p" for q using o by (simp add: ask_child_def)
  have main: "ask_child m q p' = ask_child m q p" if "worker_map p d = Some m" for m q
    using other_child [OF assms(1,2), of m] that assms(4) by (auto simp: ask_child_def)
  have "HasPermissionsForFile p' d f perm = HasPermissionsForFile p d f perm" for f perm
    using o main by (auto simp: HasPermissionsForFile_def ChildProcessHasPermissionsForFile_def ask Let_def split: option.split)
  moreover have "CanRequestURL G p' d u = CanRequestURL G p d u" for u using o by (intro CanRequestURL_cong) simp_all
  ultimately show ?thesis
    by (simp add: same_answers_def HasWebUIBindings_def HasExtensionBindings_def CanReadRawCookies_def ask)
qed

theorem children_isolated_witness:
  "\<exists>p p'. operate_all text_urls [OAdd 7, OAdd 8] p = Some p' \<and> same_answers text_urls 8 p' (GrantWebUIBindings 7 p')"
proof -
  let ?p = "\<lparr>web_safe_schemes = {}, pseudo_schemes = {}, disabled_schemes = {}, security_states = Map.empty, worker_map = Map.empty\<rparr>"
  obtain p' where p': "operate_all text_urls [OAdd 7, OAdd 8] ?p = Some p'" "worker_map p' 8 = None"
    by (simp add: Add_def AddChild_def)
  have "same_answers text_urls 8 p' (GrantWebUIBindings 7 p')"
    using p'(2) by (intro children_isolated [of text_urls "OWebUI 7" p' _ 7]) simp_all
  then show ?thesis using p'(1) by blast
qed

section \<open>Files\<close>

text \<open>The entry of the longest beginning of a path that has one.\<close>

definition nearest :: "(string \<Rightarrow> flags option) \<Rightarrow> string list \<Rightarrow> flags option" where
  "nearest entries cs = (case find (\<lambda>ds. entries (path_of ds) \<noteq> None) (rev (prefixes cs)) of
     None \<Rightarrow> None | Some ds \<Rightarrow> entries (path_of ds))"

lemma nearest_Nil: "nearest entries [] = entries ''/''"
  by (simp add: nearest_def path_of_def)

lemma nearest_snoc: "nearest entries (cs @ [c]) = (case entries (path_of (cs @ [c])) of None \<Rightarrow> nearest entries cs | Some f \<Rightarrow> Some f)"
  by (simp add: nearest_def prefixes_snoc split: option.split)

lemma permissions_loop_nearest:
  assumes "names_ok cs" "last_path \<noteq> path_of cs"
  shows "permissions_loop entries perm (path_of cs) last_path =
    (case nearest entries cs of None \<Rightarrow> False | Some f \<Rightarrow> f AND perm = perm)"
  using assms
proof (induction cs arbitrary: last_path rule: rev_induct)
  case Nil
  have "permissions_loop entries perm ''/'' ''/'' = False" by (subst permissions_loop.simps) simp
  then show ?case using Nil
    by (subst permissions_loop.simps) (auto simp: nearest_Nil path_of_def DirName_root split: option.split)
next
  case (snoc c cs)
  have ok: "names_ok cs" using names_ok_append snoc.prems(1) by blast
  have "path_of (cs @ [c]) \<noteq> path_of cs" using path_of_inject [OF snoc.prems(1) ok] by auto
  note IH = snoc.IH [OF ok this]
  show ?case using snoc.prems(2)
    by (subst permissions_loop.simps) (auto simp: nearest_snoc DirName_path_of [OF snoc.prems(1)] IH split: option.split)
qed

text \<open>What a child itself may do with a file.\<close>

definition allowed :: "policy \<Rightarrow> int \<Rightarrow> string list \<Rightarrow> flags \<Rightarrow> bool" where
  "allowed p c cs perm \<longleftrightarrow> (\<exists>st f. security_states p c = Some st \<and> nearest (file_permissions st) cs = Some f \<and> f AND perm = perm)"

lemma ask_permissions:
  assumes "names_ok cs"
  shows "ChildProcessHasPermissionsForFile p c (path_of cs) perm \<longleftrightarrow> allowed p c cs perm"
proof -
  have "path_of cs \<noteq> []" by (cases cs) (simp_all add: path_of_def)
  then have "State_HasPermissionsForFile (path_of cs) perm st =
      (case nearest (file_permissions st) cs of None \<Rightarrow> False | Some f \<Rightarrow> f AND perm = perm)" for st
    using permissions_loop_nearest [OF assms, of "[]"] Strip_path_of [OF assms]
    by (simp add: State_HasPermissionsForFile_def StripTrailingSeparators_def)
  then show ?thesis by (auto simp: ChildProcessHasPermissionsForFile_def ask_child_def allowed_def split: option.splits)
qed

text \<open>
  C14 (functional): permissions for an absolute path are those of the nearest entry, that of the path itself or of the
  closest directory above it, and nothing else; a worker has those of its main process, too.
\<close>

theorem file_permission_nearest:
  assumes "names_ok cs"
  shows "HasPermissionsForFile p child (path_of cs) perm \<longleftrightarrow>
    allowed p child cs perm \<or> (\<exists>main. worker_map p child = Some main \<and> main \<noteq> 0 \<and> allowed p main cs perm)"
  by (auto simp: HasPermissionsForFile_def ask_permissions [OF assms] Let_def split: option.splits)

theorem file_permission_nearest_witness:
  "\<exists>p. security_states p 7 \<noteq> None \<and> HasPermissionsForFile p 7 ''/home/me/a.txt'' kReadFilePermissions"
proof -
  let ?st = "SecurityState\<lparr>file_permissions := [''/home/me'' \<mapsto> kEnumerateDirectoryPermissions]\<rparr>"
  let ?p = "\<lparr>web_safe_schemes = {}, pseudo_schemes = {}, disabled_schemes = {}, security_states = [7 \<mapsto> ?st], worker_map = Map.empty\<rparr>"
  have n: "names_ok [''home'', ''me'', ''a.txt'']" by (simp add: names_ok_def name_ok_def)
  have "allowed ?p 7 [''home'', ''me'', ''a.txt''] kReadFilePermissions"
    by (simp add: allowed_def nearest_def path_of_def kEnumerateDirectoryPermissions_def kReadFilePermissions_def)
  then have "HasPermissionsForFile ?p 7 (path_of [''home'', ''me'', ''a.txt'']) kReadFilePermissions"
    using file_permission_nearest [OF n, of ?p 7 kReadFilePermissions] by blast
  then show ?thesis by (intro exI [of _ ?p]) (simp add: path_of_def)
qed

text \<open>
  C31 (error): the walk up does not look at the names. A child with the permission to read a directory may read every
  path that begins with the directory, also when it leaves it through \<open>..\<close> to any file of the system;
  \<open>ReferencesParent\<close> would tell, and is not asked.
\<close>

theorem directory_grant_escapes:
  assumes "names_ok (directory @ ''..'' # others)" "security_states p child = Some st"
    "file_permissions st = Map.empty"
  shows "CanReadFile (GrantReadDirectory child (path_of directory) p) child (path_of (directory @ ''..'' # others)) \<and>
    ReferencesParent (path_of (directory @ ''..'' # others))"
proof -
  let ?p = "GrantReadDirectory child (path_of directory) p" and ?cs = "directory @ ''..'' # others"
  let ?entries = "[path_of directory \<mapsto> kEnumerateDirectoryPermissions]"
  have d: "names_ok directory" using names_ok_append assms(1) by blast
  have st: "security_states ?p child = Some (st\<lparr>file_permissions := ?entries\<rparr>)"
    using assms(2,3) by (simp add: GrantReadDirectory_def GrantPermissionsForFile_def State_GrantPermissionsForFile_def
      StripTrailingSeparators_def Strip_path_of [OF d])
  have near: "nearest ?entries (directory @ es) = Some kEnumerateDirectoryPermissions" if "names_ok (directory @ es)" for es
    using that
  proof (induction es rule: rev_induct)
    case Nil
    then show ?case by (cases directory rule: rev_cases) (simp_all add: nearest_Nil nearest_snoc path_of_def)
  next
    case (snoc e es)
    have "names_ok (directory @ es)" using snoc.prems names_ok_append [of "directory @ es" "[e]"] by simp
    moreover have "path_of (directory @ es @ [e]) \<noteq> path_of directory"
      using path_of_inject [OF snoc.prems d] by auto
    ultimately show ?case using snoc.IH nearest_snoc [of ?entries "directory @ es" e] by (simp add: fun_upd_def)
  qed
  have "kEnumerateDirectoryPermissions AND kReadFilePermissions = kReadFilePermissions"
    by (simp add: kEnumerateDirectoryPermissions_def kReadFilePermissions_def)
  then have "allowed ?p child ?cs kReadFilePermissions" using st near [OF assms(1)] by (simp add: allowed_def)
  moreover have "ReferencesParent (path_of ?cs)" by (simp add: ReferencesParent_def GetComponents_path_of [OF assms(1)])
  ultimately show ?thesis by (simp add: CanReadFile_def HasPermissionsForFile_def ask_permissions [OF assms(1)])
qed

theorem directory_grant_escapes_witness:
  "\<exists>p p'. operate_all text_urls [OAdd 7] p = Some p' \<and>
    CanReadFile (GrantReadDirectory 7 ''/home/me/shared'' p') 7 ''/home/me/shared/../.ssh/id_rsa''"
proof -
  let ?p = "\<lparr>web_safe_schemes = {}, pseudo_schemes = {}, disabled_schemes = {}, security_states = Map.empty, worker_map = Map.empty\<rparr>"
  obtain p' where p': "operate_all text_urls [OAdd 7] ?p = Some p'" "security_states p' 7 = Some SecurityState"
    by (simp add: Add_def AddChild_def)
  have "names_ok ([''home'', ''me'', ''shared''] @ ''..'' # [''.ssh'', ''id_rsa''])" by (simp add: names_ok_def name_ok_def)
  from directory_grant_escapes [OF this p'(2)] show ?thesis using p'(1) by (auto simp: path_of_def SecurityState_def)
qed

end
