(* ===== verification/SeekableBuffer.thy ===== *)
theory SeekableBuffer
  imports Prelude "HOL-Library.Signed_Division"
begin

text \<open>
  The buffer of media data with a read position (\<open>src/media/base/seekable_buffer.cc\<close>): a list of buffers of
  which the position can move forward and, as far as data is kept, backward. \<open>size_t\<close> has 32 bits, as in the
  builds of this revision. \<open>None\<close> is a division by zero, an access outside a buffer or the list, or a failed \<open>DCHECK\<close>.
\<close>

type_synonym size_t = "32 word"
type_synonym microseconds = "64 word"

text \<open>A \<open>Buffer\<close>: what its virtual functions return.\<close>

record buffer =
  data :: "byte list"
  timestamp :: microseconds
  duration :: microseconds

definition GetDataSize :: "buffer \<Rightarrow> size_t" where
  "GetDataSize buffer = word_of_nat (length (data buffer))"

definition kNoTimestamp :: microseconds where
  "kNoTimestamp = 2 ^ 63"

text \<open>A fresh \<open>DataBuffer\<close> that is filled.\<close>

definition DataBuffer :: "byte list \<Rightarrow> buffer" where
  "DataBuffer bytes = \<lparr>data = bytes, timestamp = 0, duration = 0\<rparr>"

text \<open>The iterators of the list: a position, or \<open>None\<close> for \<open>end()\<close>.\<close>

record seekable_buffer =
  buffers :: "buffer list"
  current_buffer :: "nat option"
  current_buffer_offset :: size_t
  backward_capacity :: size_t
  backward_bytes :: size_t
  forward_capacity :: size_t
  forward_bytes :: size_t
  current_time :: microseconds

definition list_begin :: "'a list \<Rightarrow> nat option" where
  "list_begin xs = (if xs = [] then None else Some 0)"

definition list_next :: "'a list \<Rightarrow> nat \<Rightarrow> nat option" where
  "list_next xs i = (if Suc i < length xs then Some (Suc i) else None)"

definition SeekableBuffer :: "size_t \<Rightarrow> size_t \<Rightarrow> seekable_buffer" where
  "SeekableBuffer backward forward = \<lparr>buffers = [], current_buffer = None, current_buffer_offset = 0,
     backward_capacity = backward, backward_bytes = 0, forward_capacity = forward, forward_bytes = 0,
     current_time = kNoTimestamp\<rparr>"

definition Clear :: "seekable_buffer \<Rightarrow> seekable_buffer" where
  "Clear b = b\<lparr>buffers := [], current_buffer := list_begin ([] :: buffer list), current_buffer_offset := 0,
     backward_bytes := 0, forward_bytes := 0, current_time := kNoTimestamp\<rparr>"

section \<open>The time of the position\<close>

definition UpdateCurrentTime :: "nat option \<Rightarrow> size_t \<Rightarrow> seekable_buffer \<Rightarrow> seekable_buffer option" where
  "UpdateCurrentTime it offset b =
     (case it of None \<Rightarrow> Some b
      | Some i \<Rightarrow> do {
          guard (i < length (buffers b));
          let buffer = buffers b ! i;
          if sint (timestamp buffer) > 0 then do {
            guard (GetDataSize buffer \<noteq> 0);
            let time_offset = word_of_int (sint (duration buffer * ucast offset) sdiv uint (GetDataSize buffer));
            Some (b\<lparr>current_time := timestamp buffer + time_offset\<rparr>)
          } else Some b
        })"

lemma UpdateCurrentTime_only: "UpdateCurrentTime it offset b = Some b' \<Longrightarrow> \<exists>t. b' = b\<lparr>current_time := t\<rparr>"
proof -
  assume a: "UpdateCurrentTime it offset b = Some b'"
  have "\<exists>t. b = b\<lparr>current_time := t\<rparr>" by (rule exI [of _ "current_time b"]) simp
  then show ?thesis using a by (auto simp: UpdateCurrentTime_def Let_def split: option.splits if_splits)
qed

section \<open>Reading\<close>

text \<open>\<open>erase\<close> of the first buffer moves the positions behind it.\<close>

function EvictBackwardBuffers :: "seekable_buffer \<Rightarrow> seekable_buffer option" where
  "EvictBackwardBuffers b =
     (if backward_bytes b > backward_capacity b then
        if list_begin (buffers b) = current_buffer b then Some b
        else case buffers b of
            [] \<Rightarrow> None
          | buffer # rest \<Rightarrow> EvictBackwardBuffers (b\<lparr>backward_bytes := backward_bytes b - GetDataSize buffer,
              buffers := rest, current_buffer := map_option (\<lambda>i. i - 1) (current_buffer b)\<rparr>)
      else Some b)"
  by pat_completeness auto
termination by (relation "measure (length \<circ> buffers)") simp_all

declare EvictBackwardBuffers.simps [simp del]

lemma unat_minus_mono: "(c :: size_t) \<le> s - t \<Longrightarrow> unat (s - (t + c)) = unat (s - t) - unat c"
  using unat_sub [of c "s - t"] by (simp add: diff_diff_eq)

text \<open>One step takes at most the rest, and what it takes counts.\<close>

lemma rest_decreases:
  fixes s t r :: size_t
  assumes "t < s"
  shows "unat (s - (t + min (s - t) r)) \<le> unat (s - t)" "r \<noteq> 0 \<Longrightarrow> unat (s - (t + min (s - t) r)) < unat (s - t)"
proof -
  have pos: "s - t \<noteq> 0" using assms by auto
  have "unat (min (s - t) r) \<le> unat (s - t)" by (simp add: min_def word_le_nat_alt)
  moreover have "r \<noteq> 0 \<Longrightarrow> unat (min (s - t) r) > 0" using pos by (auto simp: min_def unat_gt_0)
  moreover have "unat (s - (t + min (s - t) r)) = unat (s - t) - unat (min (s - t) r)" by (rule unat_minus_mono) simp
  ultimately show "unat (s - (t + min (s - t) r)) \<le> unat (s - t)" "r \<noteq> 0 \<Longrightarrow> unat (s - (t + min (s - t) r)) < unat (s - t)"
    by auto
qed

text \<open>The loop of \<open>InternalRead\<close>, from a position of its own; \<open>with_data\<close> is false when seeking.\<close>

function read_loop :: "bool \<Rightarrow> bool \<Rightarrow> size_t \<Rightarrow> size_t \<Rightarrow> byte list \<Rightarrow> nat option \<Rightarrow> size_t \<Rightarrow> seekable_buffer \<Rightarrow>
    (size_t \<times> byte list \<times> nat option \<times> size_t \<times> seekable_buffer) option" where
  "read_loop with_data advance sz taken out it offset b =
     (if taken < sz then
        case it of None \<Rightarrow> Some (taken, out, it, offset, b)
        | Some i \<Rightarrow> do {
            guard (i < length (buffers b));
            let buffer = buffers b ! i;
            let copied = min (sz - taken) (GetDataSize buffer - offset);
            guard (with_data \<longrightarrow> unat offset + unat copied \<le> length (data buffer));
            let out = (if with_data then out @ take (unat copied) (drop (unat offset) (data buffer)) else out);
            let taken = taken + copied;
            let offset = offset + copied;
            if offset = GetDataSize buffer then do {
              b' \<leftarrow> (if advance then UpdateCurrentTime it offset b else Some b);
              (case list_next (buffers b) i of None \<Rightarrow> Some (taken, out, it, offset, b')
               | Some j \<Rightarrow> read_loop with_data advance sz taken out (Some j) 0 b')
            } else read_loop with_data advance sz taken out it offset b
          }
      else Some (taken, out, it, offset, b))"
  by pat_completeness auto
termination
proof (relation "measures [\<lambda>(wd, adv, sz, taken, out, it, offset, b). unat (sz - taken),
    \<lambda>(wd, adv, sz, taken, out, it, offset, b). length (buffers b) - (case it of None \<Rightarrow> 0 | Some i \<Rightarrow> i)]", goal_cases)
  case (2 wd adv sz taken out it offset b i u buffer copied u' out' taken' offset' b' j)
  have "length (buffers b') = length (buffers b)" using 2 by (auto dest: UpdateCurrentTime_only split: if_splits)
  moreover have "list_next (buffers b) i = Some j" by fact
  moreover have "taken' = taken + copied" "copied = min (sz - taken) (GetDataSize buffer - offset)" "it = Some i" by fact+
  moreover have "unat (sz - (taken + min (sz - taken) (GetDataSize buffer - offset))) \<le> unat (sz - taken)"
    by (rule rest_decreases(1)) fact
  ultimately show ?case by (auto simp: list_next_def split: if_splits)
next
  case (3 wd adv sz taken out it offset b i u buffer copied u' out' taken' offset')
  have "GetDataSize buffer - offset \<noteq> 0"
  proof
    assume "GetDataSize buffer - offset = 0"
    then show False using 3 by simp
  qed
  then show ?case using 3 rest_decreases(2) [of taken sz "GetDataSize buffer - offset"] by simp
qed simp

declare read_loop.simps [simp del]

definition InternalRead :: "bool \<Rightarrow> size_t \<Rightarrow> bool \<Rightarrow> seekable_buffer \<Rightarrow> (size_t \<times> byte list \<times> seekable_buffer) option" where
  "InternalRead with_data sz advance_position b = do {
     (taken, out, it, offset, b) \<leftarrow>
       read_loop with_data advance_position sz 0 [] (current_buffer b) (current_buffer_offset b) b;
     if advance_position then do {
       let b = b\<lparr>forward_bytes := forward_bytes b - taken, backward_bytes := backward_bytes b + taken\<rparr>;
       guard (current_buffer b \<noteq> None \<or> forward_bytes b = 0);
       let b = b\<lparr>current_buffer := it, current_buffer_offset := offset\<rparr>;
       b \<leftarrow> UpdateCurrentTime it offset b;
       b \<leftarrow> EvictBackwardBuffers b;
       Some (taken, out, b)
     } else Some (taken, out, b)
   }"

definition SeekableBuffer_Read :: "size_t \<Rightarrow> seekable_buffer \<Rightarrow> (size_t \<times> byte list \<times> seekable_buffer) option" where
  "SeekableBuffer_Read sz b = InternalRead True sz True b"

definition SeekableBuffer_Peek :: "size_t \<Rightarrow> seekable_buffer \<Rightarrow> (size_t \<times> byte list \<times> seekable_buffer) option" where
  "SeekableBuffer_Peek sz b = InternalRead True sz False b"

function chunk_loop :: "seekable_buffer \<Rightarrow> nat option \<Rightarrow> size_t \<Rightarrow> (nat \<times> size_t) option" where
  "chunk_loop b it offset =
     (case it of None \<Rightarrow> None
      | Some i \<Rightarrow> if offset \<ge> GetDataSize (buffers b ! i) then chunk_loop b (list_next (buffers b) i) 0 else Some (i, offset))"
  by pat_completeness auto
termination
  by (relation "measure (\<lambda>(b, it, offset). case it of None \<Rightarrow> 0 | Some i \<Rightarrow> Suc (length (buffers b) - i))")
    (auto simp: list_next_def split: if_splits)

declare chunk_loop.simps [simp del]

text \<open>The bytes from the returned address on, and their number.\<close>

definition GetCurrentChunk :: "seekable_buffer \<Rightarrow> (byte list \<times> size_t) option" where
  "GetCurrentChunk b =
     (case chunk_loop b (current_buffer b) (current_buffer_offset b) of None \<Rightarrow> None
      | Some (i, offset) \<Rightarrow> Some (drop (unat offset) (data (buffers b ! i)), GetDataSize (buffers b ! i) - offset))"

section \<open>Appending\<close>

definition Append_buffer :: "buffer \<Rightarrow> seekable_buffer \<Rightarrow> (bool \<times> seekable_buffer) option" where
  "Append_buffer buffer_in b = do {
     let b = (if buffers b = [] \<and> sint (timestamp buffer_in) > 0 then b\<lparr>current_time := timestamp buffer_in\<rparr> else b);
     let b = b\<lparr>buffers := buffers b @ [buffer_in]\<rparr>;
     b \<leftarrow> (if current_buffer b = None
        then do { guard (forward_bytes b = 0); Some (b\<lparr>current_buffer := list_begin (buffers b)\<rparr>) } else Some b);
     let b = b\<lparr>forward_bytes := forward_bytes b + GetDataSize buffer_in\<rparr>;
     Some (\<not> forward_bytes b \<ge> forward_capacity b, b)
   }"

definition Append_data :: "byte list \<Rightarrow> seekable_buffer \<Rightarrow> (bool \<times> seekable_buffer) option" where
  "Append_data bytes b =
     (if length bytes > 0 then Append_buffer (DataBuffer bytes) b else Some (forward_bytes b < forward_capacity b, b))"

section \<open>Seeking\<close>

definition SeekForward :: "size_t \<Rightarrow> seekable_buffer \<Rightarrow> (bool \<times> seekable_buffer) option" where
  "SeekForward sz b =
     (if sz > forward_bytes b then Some (False, b)
      else do { (taken, out, b) \<leftarrow> InternalRead False sz True b; guard (taken = sz); Some (True, b) })"

function back_loop :: "size_t \<Rightarrow> size_t \<Rightarrow> seekable_buffer \<Rightarrow> (size_t \<times> seekable_buffer) option" where
  "back_loop sz taken b =
     (if taken < sz then
        case current_buffer b of None \<Rightarrow> None
        | Some i \<Rightarrow>
            let consumed = min (sz - taken) (current_buffer_offset b);
                taken = taken + consumed;
                b = b\<lparr>current_buffer_offset := current_buffer_offset b - consumed,
                  forward_bytes := forward_bytes b + consumed, backward_bytes := backward_bytes b - consumed\<rparr>
            in if current_buffer_offset b = 0 then
                 if Some i = list_begin (buffers b) then Some (taken, b)
                 else do {
                   guard (0 < i \<and> i \<le> length (buffers b));
                   back_loop sz taken (b\<lparr>current_buffer := Some (i - 1),
                     current_buffer_offset := GetDataSize (buffers b ! (i - 1))\<rparr>)
                 }
               else back_loop sz taken b
      else Some (taken, b))"
  by pat_completeness auto
termination
proof (relation "measures [\<lambda>(sz, taken, b). unat (sz - taken),
    \<lambda>(sz, taken, b). case current_buffer b of None \<Rightarrow> 0 | Some i \<Rightarrow> i]", goal_cases)
  case (2 sz taken b i consumed taken' b' u)
  then show ?case using rest_decreases(1) [of taken sz "current_buffer_offset b"] by (simp add: le_eq_less_or_eq)
next
  case (3 sz taken b i consumed taken' b')
  then have "current_buffer_offset b \<noteq> 0" by auto
  then show ?case using 3 rest_decreases(2) [of taken sz "current_buffer_offset b"] by simp
qed simp

declare back_loop.simps [simp del]

definition SeekBackward :: "size_t \<Rightarrow> seekable_buffer \<Rightarrow> (bool \<times> seekable_buffer) option" where
  "SeekBackward sz b =
     (if sz > backward_bytes b then Some (False, b)
      else do {
        (taken, b) \<leftarrow> back_loop sz 0 b;
        b \<leftarrow> UpdateCurrentTime (current_buffer b) (current_buffer_offset b) b;
        guard (taken = sz);
        Some (True, b)
      })"

definition SeekableBuffer_Seek :: "int32 \<Rightarrow> seekable_buffer \<Rightarrow> (bool \<times> seekable_buffer) option" where
  "SeekableBuffer_Seek offset b =
     (if offset > 0 then SeekForward (word_of_int offset) b
      else if offset < 0 then SeekBackward (word_of_int (- offset)) b
      else Some (True, b))"

end
