(* ===== verification/SeekableProofs.thy ===== *)
theory SeekableProofs
  imports SeekableBuffer
begin

text \<open>
  The buffer of media data (\<open>src/media/base/seekable_buffer.cc\<close>) is a stream of bytes with a position: what a read
  returns depends on the bytes appended so far alone, not on how they are cut into buffers.
\<close>

section \<open>Contents\<close>

definition contents :: "buffer list \<Rightarrow> byte list" where
  "contents bs = concat (map data bs)"

definition start :: "buffer list \<Rightarrow> nat \<Rightarrow> nat" where
  "start bs i = length (contents (take i bs))"

definition position :: "seekable_buffer \<Rightarrow> nat" where
  "position b = (case current_buffer b of None \<Rightarrow> 0
    | Some i \<Rightarrow> start (buffers b) i + unat (current_buffer_offset b))"

text \<open>The bytes before and behind the position.\<close>

definition past :: "seekable_buffer \<Rightarrow> byte list" where
  "past b = take (position b) (contents (buffers b))"

definition future :: "seekable_buffer \<Rightarrow> byte list" where
  "future b = drop (position b) (contents (buffers b))"

definition valid :: "nat option \<Rightarrow> size_t \<Rightarrow> buffer list \<Rightarrow> bool" where
  "valid it offset bs \<longleftrightarrow> (case it of None \<Rightarrow> bs = [] \<and> offset = 0
    | Some i \<Rightarrow> i < length bs \<and> unat offset \<le> length (data (bs ! i)))"

text \<open>No empty buffer has a time.\<close>

definition empty_untimed :: "buffer \<Rightarrow> bool" where
  "empty_untimed buffer \<longleftrightarrow> data buffer \<noteq> [] \<or> sint (timestamp buffer) \<le> 0"

definition seekable_ok :: "seekable_buffer \<Rightarrow> bool" where
  "seekable_ok b \<longleftrightarrow> valid (current_buffer b) (current_buffer_offset b) (buffers b) \<and>
     length (contents (buffers b)) < 2 ^ 32 \<and> list_all empty_untimed (buffers b) \<and>
     unat (backward_bytes b) = length (past b) \<and> unat (forward_bytes b) = length (future b)"

lemma contents_simps [simp]:
  "contents [] = []" "contents (x # xs) = data x @ contents xs" "contents (xs @ ys) = contents xs @ contents ys"
  by (simp_all add: contents_def)

lemma start_simps [simp]: "start bs 0 = 0" "start (x # bs) (Suc i) = length (data x) + start bs i"
  by (simp_all add: start_def)

lemma start_Suc: "i < length bs \<Longrightarrow> start bs (Suc i) = start bs i + length (data (bs ! i))"
  by (simp add: start_def take_Suc_conv_app_nth)

lemma contents_at: "i < length bs \<Longrightarrow> drop (start bs i) (contents bs) = data (bs ! i) @ contents (drop (Suc i) bs)"
  by (induction bs arbitrary: i) (auto simp: less_Suc_eq_0_disj)

lemma start_le: "i < length bs \<Longrightarrow> start bs i + length (data (bs ! i)) + length (contents (drop (Suc i) bs)) = length (contents bs)"
proof -
  assume i: "i < length bs"
  have "contents bs = contents (take i bs @ bs ! i # drop (Suc i) bs)" using i by (simp add: id_take_nth_drop [symmetric])
  then show ?thesis by (simp add: start_def)
qed

lemma start_append [simp]: "i \<le> length bs \<Longrightarrow> start (bs @ cs) i = start bs i"
  by (simp add: start_def)

lemma data_small:
  assumes "i < length bs" "length (contents bs) < 2 ^ 32"
  shows "unat (GetDataSize (bs ! i)) = length (data (bs ! i))"
  using start_le [OF assms(1)] assms(2) by (simp add: GetDataSize_def unsigned_of_nat take_bit_nat_eq_self)

text \<open>What follows a position.\<close>

definition rest :: "buffer list \<Rightarrow> nat \<Rightarrow> nat \<Rightarrow> byte list" where
  "rest bs i offset = drop (start bs i + offset) (contents bs)"

lemma rest_unfold:
  assumes "i < length bs" "offset \<le> length (data (bs ! i))"
  shows "rest bs i offset = drop offset (data (bs ! i)) @ contents (drop (Suc i) bs)"
  using contents_at [OF assms(1)] assms(2) by (simp add: rest_def add.commute [of "start bs i"] flip: drop_drop)

lemma rest_next: "Suc i < length bs \<Longrightarrow> rest bs (Suc i) 0 = contents (drop (Suc i) bs)"
  by (simp add: rest_unfold Cons_nth_drop_Suc flip: contents_simps(2))

lemma same_time: "\<exists>t. (b :: seekable_buffer) = b\<lparr>current_time := t\<rparr>"
  by (rule exI [of _ "current_time b"]) simp

lemma UpdateCurrentTime_ok:
  assumes "i < length (buffers b)" "list_all empty_untimed (buffers b)" "length (contents (buffers b)) < 2 ^ 32"
  shows "\<exists>t. UpdateCurrentTime (Some i) offset b = Some (b\<lparr>current_time := t\<rparr>)"
proof (cases "sint (timestamp (buffers b ! i)) > 0")
  case True
  then have "data (buffers b ! i) \<noteq> []" using assms(1,2) by (auto simp: list_all_length empty_untimed_def)
  then have "GetDataSize (buffers b ! i) \<noteq> 0" using data_small [OF assms(1,3)] by auto
  then show ?thesis using assms(1) True by (auto simp: UpdateCurrentTime_def Let_def)
next
  case False
  then show ?thesis using assms(1)
    by (intro exI [of _ "current_time b"]) (simp add: UpdateCurrentTime_def Let_def)
qed

section \<open>The loop of a read\<close>

lemma read_loop_done: "\<not> taken < sz \<Longrightarrow> read_loop wd adv sz taken out it offset b = Some (taken, out, it, offset, b)"
  by (subst read_loop.simps) simp

text \<open>One buffer: its rest is taken, or as much as is wanted.\<close>

lemma copied_unat:
  assumes "i < length bs" "length (contents bs) < 2 ^ 32" "unat offset \<le> length (data (bs ! i))" "taken \<le> sz"
  defines "copied \<equiv> min (sz - taken) (GetDataSize (bs ! i) - offset)"
  shows "unat copied = min (unat sz - unat taken) (length (data (bs ! i)) - unat offset)"
    "unat (taken + copied) = unat taken + unat copied" "unat (offset + copied) = unat offset + unat copied"
proof -
  have d: "unat (GetDataSize (bs ! i)) = length (data (bs ! i))" by (rule data_small [OF assms(1,2)])
  have "offset \<le> GetDataSize (bs ! i)" using d assms(3) by (simp add: word_le_nat_alt)
  then have "unat (GetDataSize (bs ! i) - offset) = length (data (bs ! i)) - unat offset" using d by (simp add: unat_sub)
  moreover have "unat (sz - taken) = unat sz - unat taken" using assms(4) by (simp add: unat_sub)
  moreover have "unat (min a b) = min (unat a) (unat b)" for a b :: size_t by (simp add: min_def word_le_nat_alt)
  ultimately show u: "unat copied = min (unat sz - unat taken) (length (data (bs ! i)) - unat offset)"
    by (simp add: copied_def)
  have "unat sz < 2 ^ 32" "unat (GetDataSize (bs ! i)) < 2 ^ 32" using unsigned_less [of sz] unsigned_less [of "GetDataSize (bs ! i)"] by simp_all
  moreover have "unat taken \<le> unat sz" using assms(4) by (simp add: word_le_nat_alt)
  ultimately have "unat taken + unat copied < 2 ^ 32" "unat offset + unat copied < 2 ^ 32" using u d assms(3) by linarith+
  then show "unat (taken + copied) = unat taken + unat copied" "unat (offset + copied) = unat offset + unat copied"
    by (simp_all add: unat_plus_if')
qed

text \<open>The result of the loop: how far it got.\<close>

definition read_result :: "bool \<Rightarrow> bool \<Rightarrow> size_t \<Rightarrow> size_t \<Rightarrow> byte list \<Rightarrow> nat \<Rightarrow> size_t \<Rightarrow> seekable_buffer \<Rightarrow>
    (size_t \<times> byte list \<times> nat option \<times> size_t \<times> seekable_buffer) option \<Rightarrow> bool" where
  "read_result wd adv sz taken out i offset b r \<longleftrightarrow>
     (\<exists>taken' out' j offset' t. r = Some (taken', out', Some j, offset', if adv then b\<lparr>current_time := t\<rparr> else b) \<and>
        j < length (buffers b) \<and> unat offset' \<le> length (data (buffers b ! j)) \<and>
        (let left = rest (buffers b) i (unat offset); n = min (unat sz - unat taken) (length left)
         in unat taken' = unat taken + n \<and> out' = out @ (if wd then take n left else []) \<and>
           start (buffers b) j + unat offset' = start (buffers b) i + unat offset + n))"

lemma read_resultI:
  assumes "r = Some (taken', out', Some j, offset', if adv then b\<lparr>current_time := t\<rparr> else b)" "j < length (buffers b)"
    "unat offset' \<le> length (data (buffers b ! j))"
    "min (unat sz - unat taken) (length (rest (buffers b) i (unat offset))) = n"
    "unat taken' = unat taken + n" "out' = out @ (if wd then take n (rest (buffers b) i (unat offset)) else [])"
    "start (buffers b) j + unat offset' = start (buffers b) i + unat offset + n"
  shows "read_result wd adv sz taken out i offset b r"
  unfolding read_result_def Let_def assms(4) using assms(1-3,5-7) by blast

lemma read_loop_result:
  assumes "i < length (buffers b)" "unat offset \<le> length (data (buffers b ! i))" "taken \<le> sz"
    "list_all empty_untimed (buffers b)" "length (contents (buffers b)) < 2 ^ 32"
  shows "read_result wd adv sz taken out i offset b (read_loop wd adv sz taken out (Some i) offset b)"
  using assms
proof (induction "length (buffers b) - i" arbitrary: i offset taken out b)
  case (Suc k)
  let ?x = "buffers b ! i" and ?bs = "buffers b"
  obtain t0 where t0: "b = b\<lparr>current_time := t0\<rparr>" using same_time by blast
  show ?case
  proof (cases "taken < sz")
    case False
    then have "taken = sz" using Suc.prems(3) by simp
    then have "read_loop wd adv sz taken out (Some i) offset b = Some (taken, out, Some i, offset, if adv then b\<lparr>current_time := t0\<rparr> else b)"
      using False t0 by (simp add: read_loop_done)
    then show ?thesis using \<open>taken = sz\<close> Suc.prems(1,2) by (simp add: read_result_def Let_def) blast
  next
    case True
    define copied where "copied = min (sz - taken) (GetDataSize ?x - offset)"
    note c = copied_unat [OF Suc.prems(1,5,2,3), folded copied_def]
    define out' where "out' = (if wd then out @ take (unat copied) (drop (unat offset) (data ?x)) else out)"
    have inside: "unat offset + unat copied \<le> length (data ?x)" using c(1) Suc.prems(2) by simp
    have left: "rest ?bs i (unat offset) = drop (unat offset) (data ?x) @ contents (drop (Suc i) ?bs)"
      by (rule rest_unfold [OF Suc.prems(1,2)])
    obtain t where t: "(if adv then UpdateCurrentTime (Some i) (offset + copied) b else Some b) =
        Some (if adv then b\<lparr>current_time := t\<rparr> else b)"
      using UpdateCurrentTime_ok [OF Suc.prems(1,4,5)] by (cases adv) auto
    have at_end: "offset + copied = GetDataSize ?x \<longleftrightarrow> unat offset + unat copied = length (data ?x)"
      using c(3) data_small [OF Suc.prems(1,5)] by (simp add: word_unat_eq_iff)
    have unfold: "read_loop wd adv sz taken out (Some i) offset b =
        (if unat offset + unat copied = length (data ?x) then
           (case list_next ?bs i of None \<Rightarrow> Some (taken + copied, out', Some i, offset + copied, if adv then b\<lparr>current_time := t\<rparr> else b)
            | Some j \<Rightarrow> read_loop wd adv sz (taken + copied) out' (Some j) 0 (if adv then b\<lparr>current_time := t\<rparr> else b))
         else read_loop wd adv sz (taken + copied) out' (Some i) (offset + copied) b)"
      using True Suc.prems(1) inside t unfolding at_end [symmetric]
      by (subst read_loop.simps) (simp only: Let_def option.case copied_def [symmetric] out'_def [symmetric] guard_bind
        if_True simp_thms bind.bind_lunit split: if_split)
    consider (more) "unat offset + unat copied \<noteq> length (data ?x)"
      | (last) "unat offset + unat copied = length (data ?x)" "list_next ?bs i = None"
      | (onward) "unat offset + unat copied = length (data ?x)" "list_next ?bs i = Some (Suc i)" "Suc i < length ?bs"
      by (cases "Suc i < length ?bs") (auto simp: list_next_def)
    then show ?thesis
    proof cases
      case more
      then have all: "unat copied = unat sz - unat taken" "unat copied \<le> length (data ?x) - unat offset" using c(1) Suc.prems(2) by simp_all
      have "\<not> taken + copied < sz" using c(2) all(1) by (simp add: word_less_nat_alt)
      then have "read_loop wd adv sz taken out (Some i) offset b = Some (taken + copied, out', Some i, offset + copied, if adv then b\<lparr>current_time := t0\<rparr> else b)"
        unfolding unfold using more t0 by (simp add: read_loop_done)
      then show ?thesis using all c Suc.prems(1) inside left
        by - (rule read_resultI [where n = "unat copied"], assumption, simp_all add: out'_def)
    next
      case last
      have "Suc i \<ge> length ?bs" using last(2) by (simp add: list_next_def split: if_splits)
      then have "rest ?bs i (unat offset) = drop (unat offset) (data ?x)" using left by simp
      moreover have "read_loop wd adv sz taken out (Some i) offset b =
          Some (taken + copied, out', Some i, offset + copied, if adv then b\<lparr>current_time := t\<rparr> else b)"
        unfolding unfold using last by simp
      ultimately show ?thesis using c Suc.prems(1) inside
        by - (rule read_resultI [where n = "unat copied"], assumption, simp_all add: out'_def)
    next
      case onward
      define b' where "b' = (if adv then b\<lparr>current_time := t\<rparr> else b)"
      have bs: "buffers b' = ?bs" by (simp add: b'_def)
      have "taken + copied \<le> sz" using c(1,2) Suc.prems(3) by (simp add: word_le_nat_alt)
      moreover have "k = length ?bs - Suc i" using Suc.hyps(2) by simp
      ultimately have "read_result wd adv sz (taken + copied) out' (Suc i) 0 b' (read_loop wd adv sz (taken + copied) out' (Some (Suc i)) 0 b')"
        using Suc.hyps(1) [of b' "Suc i" 0 "taken + copied" out'] Suc.prems onward(3) by (simp add: bs)
      then obtain taken2 out2 j offset2 t2 where r: "read_loop wd adv sz (taken + copied) out' (Some (Suc i)) 0 b' =
            Some (taken2, out2, Some j, offset2, if adv then b'\<lparr>current_time := t2\<rparr> else b')"
          "j < length ?bs" "unat offset2 \<le> length (data (?bs ! j))"
        and n: "unat taken2 = unat (taken + copied) + min (unat sz - unat (taken + copied)) (length (rest ?bs (Suc i) 0))"
          "out2 = out' @ (if wd then take (min (unat sz - unat (taken + copied)) (length (rest ?bs (Suc i) 0))) (rest ?bs (Suc i) 0) else [])"
          "start ?bs j + unat offset2 = start ?bs (Suc i) + min (unat sz - unat (taken + copied)) (length (rest ?bs (Suc i) 0))"
        unfolding read_result_def Let_def bs unsigned_0 add_0_right by (elim exE conjE) (rule that)
      have next_left: "rest ?bs i (unat offset) = drop (unat offset) (data ?x) @ rest ?bs (Suc i) 0"
        using onward left by (simp add: rest_next)
      have at: "start ?bs (Suc i) = start ?bs i + unat offset + unat copied" using onward(1) start_Suc [OF Suc.prems(1)] by simp
      have len: "unat copied = length (drop (unat offset) (data ?x))" "unat copied \<le> unat sz - unat taken" using onward(1) c(1) by simp_all
      have step: "read_loop wd adv sz taken out (Some i) offset b = Some (taken2, out2, Some j, offset2, if adv then b\<lparr>current_time := t2\<rparr> else b)"
        unfolding unfold using onward r(1) by (simp add: b'_def)
      define n' where "n' = min (unat sz - unat (taken + copied)) (length (rest ?bs (Suc i) 0))"
      have total: "min (unat sz - unat taken) (length (rest ?bs i (unat offset))) = unat copied + n'"
        using len c(2) unfolding next_left length_append n'_def by linarith
      have "take (unat copied + n') (rest ?bs i (unat offset)) = drop (unat offset) (data ?x) @ take n' (rest ?bs (Suc i) 0)"
        unfolding next_left len(1) by simp
      moreover have "take (unat copied) (drop (unat offset) (data ?x)) = drop (unat offset) (data ?x)" using len(1) by simp
      ultimately show ?thesis using n [folded n'_def] c(2) at
        by (intro read_resultI [OF step r(2,3) total]) (simp_all add: out'_def)
    qed
  qed
qed simp

section \<open>The operations\<close>

lemma past_future: "past b @ future b = contents (buffers b)"
  by (simp add: past_def future_def)

lemma position_le:
  assumes "valid (current_buffer b) (current_buffer_offset b) (buffers b)"
  shows "position b \<le> length (contents (buffers b))"
  using assms by (auto simp: valid_def position_def split: option.splits dest: start_le)

lemma length_past: "valid (current_buffer b) (current_buffer_offset b) (buffers b) \<Longrightarrow> length (past b) = position b"
  by (simp add: past_def position_le)

lemma position_time [simp]: "position (b\<lparr>current_time := t\<rparr>) = position b"
  by (simp add: position_def split: option.split)

lemma seekable_ok_time [simp]:
  "seekable_ok (b\<lparr>current_time := t\<rparr>) = seekable_ok b" "past (b\<lparr>current_time := t\<rparr>) = past b"
  "future (b\<lparr>current_time := t\<rparr>) = future b"
  by (simp_all add: seekable_ok_def past_def future_def)

text \<open>What an eviction keeps.\<close>

definition evicted :: "seekable_buffer \<Rightarrow> seekable_buffer \<Rightarrow> bool" where
  "evicted b b' \<longleftrightarrow> seekable_ok b' \<and> future b' = future b \<and> suffix (past b') (past b) \<and>
     backward_capacity b' = backward_capacity b \<and> forward_capacity b' = forward_capacity b \<and>
     (backward_bytes b' \<le> backward_capacity b \<or> current_buffer b' = list_begin (buffers b'))"

lemma evict_one:
  assumes "seekable_ok b" "buffers b = x # others" "current_buffer b = Some (Suc i)"
  defines "b' \<equiv> b\<lparr>backward_bytes := backward_bytes b - GetDataSize x, buffers := others, current_buffer := Some i\<rparr>"
  shows "seekable_ok b'" "future b' = future b" "past b' = drop (length (data x)) (past b)"
proof -
  have v: "i < length others" "unat (current_buffer_offset b) \<le> length (data (others ! i))"
    and len: "length (data x) + length (contents others) < 2 ^ 32"
    using assms(1-3) by (simp_all add: seekable_ok_def valid_def)
  have pos: "position b = length (data x) + position b'" using assms(2,3) by (simp add: position_def b'_def)
  show future: "future b' = future b" unfolding future_def pos using assms(2) by (simp add: b'_def)
  show past: "past b' = drop (length (data x)) (past b)" unfolding past_def pos using assms(2) by (simp add: b'_def)
  have "unat (GetDataSize x) = length (data x)" using data_small [of 0 "x # others"] len by simp
  moreover have "unat (backward_bytes b) = length (past b)" using assms(1) by (simp add: seekable_ok_def)
  moreover have "length (data x) \<le> length (past b)" using position_le [of b] assms(1) pos by (simp add: seekable_ok_def past_def)
  ultimately have "unat (backward_bytes b - GetDataSize x) = length (past b')"
    using unat_sub [of "GetDataSize x" "backward_bytes b"] by (simp add: past word_le_nat_alt)
  then show "seekable_ok b'" using assms(1-3) v future by (simp add: seekable_ok_def valid_def b'_def)
qed

lemma Evict_ok: "seekable_ok b \<Longrightarrow> \<exists>b'. EvictBackwardBuffers b = Some b' \<and> evicted b b'"
proof (induction b rule: EvictBackwardBuffers.induct)
  case (1 b)
  show ?case
  proof (cases "backward_bytes b > backward_capacity b \<and> list_begin (buffers b) \<noteq> current_buffer b")
    case False
    then show ?thesis using 1(2) by (subst EvictBackwardBuffers.simps) (auto simp: evicted_def)
  next
    case True
    then obtain x others i where b: "buffers b = x # others" "current_buffer b = Some (Suc i)"
      using 1(2) by (cases "buffers b"; cases "current_buffer b"; cases "the (current_buffer b)")
        (auto simp: seekable_ok_def valid_def list_begin_def)
    define b1 where "b1 = b\<lparr>backward_bytes := backward_bytes b - GetDataSize x, buffers := others, current_buffer := Some i\<rparr>"
    note one = evict_one [OF 1(2) b, folded b1_def]
    have "EvictBackwardBuffers b = EvictBackwardBuffers b1"
      using True b by (subst EvictBackwardBuffers.simps) (simp add: b1_def)
    moreover obtain b' where "EvictBackwardBuffers b1 = Some b'" "evicted b1 b'"
      using 1(1) True b one(1) by (auto simp: b1_def)
    ultimately show ?thesis using one(2,3)
      by (auto simp: evicted_def b1_def intro: suffix_order.trans suffix_drop)
  qed
qed

text \<open>The state before an eviction.\<close>

definition moved :: "seekable_buffer \<Rightarrow> nat \<Rightarrow> seekable_buffer \<Rightarrow> bool" where
  "moved b p b' \<longleftrightarrow> seekable_ok b' \<and> buffers b' = buffers b \<and> position b' = p \<and>
     backward_capacity b' = backward_capacity b \<and> forward_capacity b' = forward_capacity b"

lemma moved_time: "moved b p (b'\<lparr>current_time := t\<rparr>) = moved b p b'"
  by (simp add: moved_def)

lemma InternalRead_ok:
  fixes sz :: size_t
  assumes "seekable_ok b"
  defines "n \<equiv> min (unat sz) (length (future b))"
  shows "\<exists>taken b' b1. InternalRead wd sz adv b = Some (taken, if wd then take n (future b) else [], b') \<and> unat taken = n \<and>
    (if adv then moved b (position b + n) b1 \<and> evicted b1 b' else b' = b)"
proof (cases "current_buffer b")
  case None
  then have e: "buffers b = []" "future b = []" "n = 0" "backward_bytes b = 0" "forward_bytes b = 0"
    using assms(1) by (auto simp: seekable_ok_def valid_def future_def past_def n_def simp flip: unat_eq_0)
  then have "read_loop wd adv sz 0 [] None (current_buffer_offset b) b = Some (0, [], None, current_buffer_offset b, b)"
    by (subst read_loop.simps) simp
  moreover obtain b' where b': "EvictBackwardBuffers b = Some b'" "evicted b b'" using Evict_ok [OF assms(1)] by blast
  moreover have "b = b\<lparr>forward_bytes := 0, backward_bytes := 0, current_buffer := None\<rparr>" using None e(4,5) by (cases b) auto
  then have "EvictBackwardBuffers (b\<lparr>forward_bytes := 0, backward_bytes := 0, current_buffer := None\<rparr>) = Some b'" using b'(1) by (rule subst)
  ultimately have "InternalRead wd sz adv b = Some (0, [], if adv then b' else b)" "adv \<Longrightarrow> evicted b b'"
    using e None by (simp_all add: InternalRead_def UpdateCurrentTime_def)
  then show ?thesis using e assms(1)
    by - (rule exI [of _ "0 :: size_t"], rule exI [of _ "if adv then b' else b"], rule exI [of _ b], simp add: moved_def)
next
  case (Some i)
  have v: "i < length (buffers b)" "unat (current_buffer_offset b) \<le> length (data (buffers b ! i))"
    "list_all empty_untimed (buffers b)" "length (contents (buffers b)) < 2 ^ 32"
    and bytes: "unat (backward_bytes b) = length (past b)" "unat (forward_bytes b) = length (future b)"
    using assms(1) Some by (auto simp: seekable_ok_def valid_def)
  have left: "rest (buffers b) i (unat (current_buffer_offset b)) = future b"
    by (simp add: rest_def future_def position_def Some)
  have "read_result wd adv sz 0 [] i (current_buffer_offset b) b (read_loop wd adv sz 0 [] (Some i) (current_buffer_offset b) b)"
    by (rule read_loop_result [OF v(1,2) _ v(3,4)]) simp
  then obtain taken j offset t where r: "read_loop wd adv sz 0 [] (Some i) (current_buffer_offset b) b =
      Some (taken, if wd then take n (future b) else [], Some j, offset, if adv then b\<lparr>current_time := t\<rparr> else b)"
      "j < length (buffers b)" "unat offset \<le> length (data (buffers b ! j))" "unat taken = n"
      "start (buffers b) j + unat offset = position b + n"
    unfolding read_result_def Let_def left unsigned_0 diff_zero add_0 append_Nil n_def [symmetric]
    using that by (elim exE conjE) (simp only: position_def Some option.case)
  show ?thesis
  proof (cases adv)
    case False
    then show ?thesis using r(1,4) by (simp add: InternalRead_def Some)
  next
    case True
    define b1 where "b1 = b\<lparr>current_time := t, forward_bytes := forward_bytes b - taken, backward_bytes := backward_bytes b + taken,
      current_buffer := Some j, current_buffer_offset := offset\<rparr>"
    have pos: "position b1 = position b + n" using r(5) by (simp add: position_def b1_def)
    have past: "past b1 = past b @ take n (future b)" unfolding past_def future_def pos by (simp add: b1_def take_add)
    have future: "future b1 = drop n (future b)" unfolding future_def pos by (simp add: b1_def add.commute)
    have len: "length (past b) + length (future b) < 2 ^ 32" using v(4) past_future [of b] by (metis length_append)
    have n: "n \<le> length (future b)" by (simp add: n_def)
    have "unat (backward_bytes b + taken) = length (past b1)" using bytes r(4) len n by (simp add: past unat_plus_if')
    moreover have "unat (forward_bytes b - taken) = length (future b1)"
      using bytes r(4) n unat_sub [of taken "forward_bytes b"] by (simp add: future word_le_nat_alt)
    ultimately have ok: "seekable_ok b1" using r(2,3) v by (simp add: seekable_ok_def valid_def) (simp add: b1_def)
    obtain t' where t': "UpdateCurrentTime (Some j) offset b1 = Some (b1\<lparr>current_time := t'\<rparr>)"
      using UpdateCurrentTime_ok [of j b1 offset] r(2) v by (auto simp: b1_def)
    obtain b' where b': "EvictBackwardBuffers (b1\<lparr>current_time := t'\<rparr>) = Some b'" "evicted (b1\<lparr>current_time := t'\<rparr>) b'"
      using Evict_ok ok by (metis seekable_ok_time(1))
    have "InternalRead wd sz adv b = Some (taken, if wd then take n (future b) else [], b')"
      using r(1) t' b'(1) True by (simp add: InternalRead_def Some b1_def)
    moreover have "moved b (position b + n) (b1\<lparr>current_time := t'\<rparr>)" using ok pos by (simp add: moved_time) (simp add: moved_def b1_def)
    ultimately show ?thesis using True r(4) b'(2) by auto
  qed
qed

lemma moved_parts:
  assumes "moved b p b'"
  shows "past b' = take p (contents (buffers b))" "future b' = drop p (contents (buffers b))" "seekable_ok b'"
  using assms by (simp_all add: moved_def past_def future_def)

lemma moved_ahead:
  assumes "moved b (position b + n) b'"
  shows "past b' = past b @ take n (future b)" "future b' = drop n (future b)"
proof -
  show "past b' = past b @ take n (future b)"
    using moved_parts(1) [OF assms] by (simp only: past_def [of b] future_def [of b] take_add)
  show "future b' = drop n (future b)"
    using moved_parts(2) [OF assms] by (simp only: future_def [of b] drop_drop add.commute)
qed

lemma moved_back:
  assumes "moved b (position b - n) b'" "n \<le> length (past b)" "seekable_ok b"
  shows "past b' = take (length (past b) - n) (past b)" "future b' = drop (length (past b) - n) (past b) @ future b"
proof -
  have len: "length (past b) = position b" using length_past assms(3) by (simp add: seekable_ok_def)
  note m = moved_parts [OF assms(1), unfolded past_future [symmetric]]
  show "past b' = take (length (past b) - n) (past b)" "future b' = drop (length (past b) - n) (past b) @ future b"
    unfolding m(1,2) using len by simp_all
qed

lemma Append_ok:
  assumes "seekable_ok b" "length (contents (buffers b)) + length (data x) < 2 ^ 32" "empty_untimed x"
    "Append_buffer x b = Some (result, b')"
  shows "seekable_ok b'" "past b' = past b" "future b' = future b @ data x"
    "result \<longleftrightarrow> length (future b') < unat (forward_capacity b)"
    "backward_capacity b' = backward_capacity b" "forward_capacity b' = forward_capacity b"
proof -
  have small: "unat (GetDataSize x) = length (data x)"
    using assms(2) by (simp add: GetDataSize_def unsigned_of_nat take_bit_nat_eq_self)
  have bytes: "unat (backward_bytes b) = length (past b)" "unat (forward_bytes b) = length (future b)"
    and v: "valid (current_buffer b) (current_buffer_offset b) (buffers b)" "list_all empty_untimed (buffers b)"
    using assms(1) by (auto simp: seekable_ok_def)
  have b': "buffers b' = buffers b @ [x]" "current_buffer b' = (if current_buffer b = None then Some 0 else current_buffer b)"
    "current_buffer_offset b' = current_buffer_offset b" "backward_bytes b' = backward_bytes b"
    "forward_bytes b' = forward_bytes b + GetDataSize x" "result \<longleftrightarrow> \<not> forward_bytes b' \<ge> forward_capacity b'"
    "backward_capacity b' = backward_capacity b" "forward_capacity b' = forward_capacity b"
    using assms(4) by (auto simp: Append_buffer_def Let_def list_begin_def split: if_splits)
  have pos: "position b' = position b" using v(1) by (auto simp: position_def b' valid_def split: option.splits)
  have le: "position b \<le> length (contents (buffers b))" by (rule position_le [OF v(1)])
  show past: "past b' = past b" and future: "future b' = future b @ data x"
    using le by (simp_all add: past_def future_def pos b')
  have "length (future b) \<le> length (contents (buffers b))" by (simp add: future_def)
  then have fwd: "unat (forward_bytes b') = length (future b')"
    using bytes small assms(2) by (simp add: b'(5) future unat_plus_if')
  have "valid (current_buffer b') (current_buffer_offset b') (buffers b')"
    using v(1) by (auto simp: valid_def b' nth_append split: option.splits)
  then show "seekable_ok b'" using v(2) assms(2,3) bytes past fwd by (simp add: seekable_ok_def b'(1,4))
  show "result \<longleftrightarrow> length (future b') < unat (forward_capacity b)"
    unfolding b'(6) fwd [symmetric] by (simp add: b'(8) word_le_nat_alt not_le)
  show "backward_capacity b' = backward_capacity b" "forward_capacity b' = forward_capacity b" by (fact b')+
qed

lemma Append_returns:
  assumes "seekable_ok b"
  shows "\<exists>result b'. Append_buffer x b = Some (result, b')"
proof -
  have "forward_bytes b = 0" if "current_buffer b = None"
    using that assms by (auto simp: seekable_ok_def valid_def future_def simp flip: unat_eq_0)
  then show ?thesis by (cases "current_buffer b") (simp_all add: Append_buffer_def Let_def)
qed

text \<open>One step back, within a buffer.\<close>

lemma step_back:
  assumes "seekable_ok b" "current_buffer b = Some i" "c \<le> current_buffer_offset b"
  defines "b' \<equiv> b\<lparr>current_buffer_offset := current_buffer_offset b - c, forward_bytes := forward_bytes b + c,
    backward_bytes := backward_bytes b - c\<rparr>"
  shows "moved b (position b - unat c) b'"
proof -
  have v: "i < length (buffers b)" "unat (current_buffer_offset b) \<le> length (data (buffers b ! i))"
    "list_all empty_untimed (buffers b)" "length (contents (buffers b)) < 2 ^ 32"
    and bytes: "unat (backward_bytes b) = length (past b)" "unat (forward_bytes b) = length (future b)"
    and valid: "valid (current_buffer b) (current_buffer_offset b) (buffers b)"
    using assms(1,2) by (auto simp: seekable_ok_def valid_def)
  have off: "unat (current_buffer_offset b - c) = unat (current_buffer_offset b) - unat c" using assms(3) by (simp add: unat_sub)
  have c: "unat c \<le> unat (current_buffer_offset b)" using assms(3) by (simp add: word_le_nat_alt)
  have pos: "position b' = position b - unat c" using off c by (simp add: position_def b'_def assms(2))
  have len: "length (past b) = position b" "length (future b) = length (contents (buffers b)) - position b"
    "length (past b') = position b - unat c" "length (future b') = length (contents (buffers b)) - (position b - unat c)"
    using position_le [OF valid] by (simp_all add: past_def future_def pos) (simp_all add: b'_def)
  have ge: "unat c \<le> position b" using c by (simp add: position_def assms(2))
  have "unat (backward_bytes b - c) = length (past b')"
    using unat_sub [of c "backward_bytes b"] bytes len ge by (simp add: word_le_nat_alt)
  moreover have "unat (forward_bytes b + c) = length (future b')"
    using bytes(2) len ge v(4) position_le [OF valid] by (simp add: unat_plus_if')
  ultimately have "seekable_ok b'" using v off c assms(2) by (simp add: seekable_ok_def valid_def) (simp add: b'_def)
  then show ?thesis using pos by (simp add: moved_def) (simp add: b'_def)
qed

text \<open>One iteration, and what is left after it.\<close>

lemma back_loop_unfold:
  assumes "seekable_ok b" "current_buffer b = Some i" "taken < sz" "unat sz - unat taken \<le> length (past b)"
  defines "c \<equiv> min (sz - taken) (current_buffer_offset b)"
  defines "b1 \<equiv> b\<lparr>current_buffer_offset := current_buffer_offset b - c, forward_bytes := forward_bytes b + c,
    backward_bytes := backward_bytes b - c\<rparr>"
  shows "moved b (position b - unat c) b1" "unat (taken + c) = unat taken + unat c" "unat c \<le> unat sz - unat taken"
    "unat c = unat sz - unat taken \<and> back_loop sz taken b = Some (sz, b1) \<or>
     (\<exists>j. i = Suc j \<and> c = current_buffer_offset b \<and> back_loop sz taken b = back_loop sz (taken + c)
         (b1\<lparr>current_buffer := Some j, current_buffer_offset := GetDataSize (buffers b ! j)\<rparr>))"
proof -
  show "moved b (position b - unat c) b1" unfolding b1_def by (rule step_back [OF assms(1,2)]) (simp add: c_def)
  have t: "unat taken < unat sz" using assms(3) by (simp add: word_less_nat_alt)
  have "unat (sz - taken) = unat sz - unat taken" using t by (simp add: unat_sub word_le_nat_alt)
  then have c: "unat c = min (unat sz - unat taken) (unat (current_buffer_offset b))"
    by (simp add: c_def min_def word_le_nat_alt)
  then show le: "unat c \<le> unat sz - unat taken" by simp
  have "unat sz < 2 ^ 32" using unsigned_less [of sz] by simp
  then have "unat taken + unat c < 2 ^ 32" using le t by linarith
  then show add: "unat (taken + c) = unat taken + unat c" by (simp add: unat_plus_if')
  have len: "i < length (buffers b)" using assms(1,2) by (simp add: seekable_ok_def valid_def)
  have unfold: "back_loop sz taken b =
      (if current_buffer_offset b - c = 0 then
         if Some i = list_begin (buffers b) then Some (taken + c, b1)
         else do {
           guard (0 < i \<and> i \<le> length (buffers b));
           back_loop sz (taken + c) (b1\<lparr>current_buffer := Some (i - 1),
             current_buffer_offset := GetDataSize (buffers b ! (i - 1))\<rparr>)
         }
       else back_loop sz (taken + c) b1)"
    using assms(2,3) by (subst back_loop.simps) (simp add: Let_def c_def [symmetric] b1_def [symmetric], simp add: b1_def)
  show "unat c = unat sz - unat taken \<and> back_loop sz taken b = Some (sz, b1) \<or>
     (\<exists>j. i = Suc j \<and> c = current_buffer_offset b \<and> back_loop sz taken b = back_loop sz (taken + c)
         (b1\<lparr>current_buffer := Some j, current_buffer_offset := GetDataSize (buffers b ! j)\<rparr>))"
  proof (cases "c = current_buffer_offset b")
    case False
    then have "unat c \<noteq> unat (current_buffer_offset b)" by (simp add: word_unat_eq_iff)
    then have e: "unat c = unat sz - unat taken" using c by linarith
    then have "taken + c = sz" using add t by (simp add: word_unat_eq_iff)
    then have "back_loop sz (taken + c) b1 = Some (sz, b1)" by (subst back_loop.simps) simp
    then show ?thesis using False e unfolding unfold by simp
  next
    case True
    show ?thesis
    proof (cases i)
      case 0
      have "unat sz - unat taken \<le> unat (current_buffer_offset b)"
        using assms(1,2,4) length_past [of b] 0 by (simp add: seekable_ok_def position_def)
      then have e: "unat c = unat sz - unat taken" using c by simp
      then have "taken + c = sz" using add t by (simp add: word_unat_eq_iff)
      then show ?thesis using e True 0 len unfolding unfold by (auto simp: list_begin_def)
    next
      case (Suc j)
      then show ?thesis using True len unfolding unfold by (simp add: list_begin_def)
    qed
  qed
qed

lemma moved_trans: "moved b p b1 \<Longrightarrow> moved b1 q b2 \<Longrightarrow> moved b q b2"
  by (simp add: moved_def)

text \<open>The start of a buffer is the end of the one before it.\<close>

lemma moved_previous:
  assumes "moved b p b1" "current_buffer b1 = Some (Suc j)" "current_buffer_offset b1 = 0"
  shows "moved b p (b1\<lparr>current_buffer := Some j, current_buffer_offset := GetDataSize (buffers b ! j)\<rparr>)"
proof -
  have ok: "seekable_ok b1" and bs: "buffers b1 = buffers b" using assms(1) by (simp_all add: moved_def)
  have j: "Suc j < length (buffers b)" "length (contents (buffers b)) < 2 ^ 32"
    using ok assms(2) bs by (simp_all add: seekable_ok_def valid_def)
  have sz: "unat (GetDataSize (buffers b ! j)) = length (data (buffers b ! j))" using j by (intro data_small) simp_all
  have pos: "position (b1\<lparr>current_buffer := Some j, current_buffer_offset := GetDataSize (buffers b ! j)\<rparr>) = position b1"
    using assms(2,3) j(1) sz start_Suc [of j "buffers b"] by (simp add: position_def bs)
  show ?thesis using assms(1) j sz by (auto simp: moved_def seekable_ok_def valid_def past_def future_def pos)
qed

lemma back_loop_step:
  assumes "seekable_ok b" "current_buffer b = Some i" "taken < sz" "unat sz - unat taken \<le> length (past b)"
  obtains c b1 where "moved b (position b - unat c) b1" "unat (taken + c) = unat taken + unat c" "unat c \<le> unat sz - unat taken"
    "unat c = unat sz - unat taken \<and> back_loop sz taken b = Some (sz, b1) \<or>
     (\<exists>j < i. current_buffer b1 = Some j \<and> back_loop sz taken b = back_loop sz (taken + c) b1)"
proof -
  note u = back_loop_unfold [OF assms]
  from u(4) show ?thesis
  proof (elim disjE exE conjE)
    fix j
    assume j: "i = Suc j" "min (sz - taken) (current_buffer_offset b) = current_buffer_offset b"
    note m = moved_previous [OF u(1), of j]
    assume "back_loop sz taken b = back_loop sz (taken + min (sz - taken) (current_buffer_offset b))
      (b\<lparr>current_buffer_offset := current_buffer_offset b - min (sz - taken) (current_buffer_offset b),
         forward_bytes := forward_bytes b + min (sz - taken) (current_buffer_offset b),
         backward_bytes := backward_bytes b - min (sz - taken) (current_buffer_offset b),
         current_buffer := Some j, current_buffer_offset := GetDataSize (buffers b ! j)\<rparr>)"
    then show ?thesis using j assms(2) by (intro that [OF m u(2,3)]) auto
  qed (rule that [OF u(1-3)], blast)
qed

lemma back_loop_ok:
  assumes "seekable_ok b" "current_buffer b = Some i" "unat sz - unat taken \<le> length (past b)" "taken \<le> sz"
  shows "\<exists>b'. back_loop sz taken b = Some (sz, b') \<and> moved b (position b - (unat sz - unat taken)) b'"
  using assms
proof (induction i arbitrary: b taken rule: less_induct)
  case (less i b taken)
  show ?case
  proof (cases "taken < sz")
    case False
    then have "taken = sz" using less.prems(4) by simp
    then show ?thesis using less.prems(1) by (subst back_loop.simps) (simp add: moved_def)
  next
    case True
    obtain c b1 where u: "moved b (position b - unat c) b1" "unat (taken + c) = unat taken + unat c" "unat c \<le> unat sz - unat taken"
      "unat c = unat sz - unat taken \<and> back_loop sz taken b = Some (sz, b1) \<or>
       (\<exists>j < i. current_buffer b1 = Some j \<and> back_loop sz taken b = back_loop sz (taken + c) b1)"
      by (rule back_loop_step [OF less.prems(1,2) True less.prems(3)])
    from u(4) show ?thesis
    proof (elim disjE exE conjE)
      assume "unat c = unat sz - unat taken" "back_loop sz taken b = Some (sz, b1)"
      then show ?thesis using u(1) by auto
    next
      fix j
      assume j: "j < i" "current_buffer b1 = Some j" "back_loop sz taken b = back_loop sz (taken + c) b1"
      have pos: "position b1 = position b - unat c" "seekable_ok b1" using u(1) by (simp_all add: moved_def)
      have len: "length (past b1) = position b - unat c" "length (past b) = position b"
        using length_past pos less.prems(1) by (simp_all add: seekable_ok_def)
      have "unat taken \<le> unat sz" using less.prems(4) by (simp add: word_le_nat_alt)
      then have "unat sz - unat (taken + c) \<le> length (past b1)" "taken + c \<le> sz"
        using u(2,3) less.prems(3) len by (simp_all add: word_le_nat_alt)
      from less.IH [OF j(1) pos(2) j(2) this] obtain b' where
        b': "back_loop sz (taken + c) b1 = Some (sz, b')" "moved b1 (position b1 - (unat sz - unat (taken + c))) b'" by blast
      moreover have "position b1 - (unat sz - unat (taken + c)) = position b - (unat sz - unat taken)"
        using u(2,3) unfolding pos(1) by simp
      ultimately show ?thesis using moved_trans [OF u(1)] j(3) by auto
    qed
  qed
qed

section \<open>The operations on the stream\<close>

lemma Seek_ok:
  assumes "seekable_ok b" "- (2 ^ 31) \<le> k" "k < 2 ^ 31"
  shows "\<exists>b'. SeekableBuffer_Seek k b = Some (- int (length (past b)) \<le> k \<and> k \<le> int (length (future b)), b') \<and>
    (if k < - int (length (past b)) \<or> int (length (future b)) < k then b' = b
     else if 0 < k then \<exists>b1. moved b (position b + nat k) b1 \<and> evicted b1 b'
     else moved b (position b - nat (- k)) b')"
proof -
  have bytes: "unat (backward_bytes b) = length (past b)" "unat (forward_bytes b) = length (future b)"
    using assms(1) by (simp_all add: seekable_ok_def)
  consider (ahead) "0 < k" | (behind) "k < 0" | (stay) "k = 0" by linarith
  then show ?thesis
  proof cases
    case ahead
    have u: "unat (word_of_int k :: size_t) = nat k" using ahead assms(3) by (simp add: unsigned_of_int take_bit_int_eq_self)
    show ?thesis
    proof (cases "nat k \<le> length (future b)")
      case True
      obtain taken b' b1 where "InternalRead False (word_of_int k) True b = Some (taken, [], b')"
        "unat taken = nat k" "moved b (position b + nat k) b1" "evicted b1 b'"
        using InternalRead_ok [OF assms(1), where sz = "word_of_int k" and wd = False and adv = True] u True by auto
      moreover have "taken = word_of_int k" using \<open>unat taken = nat k\<close> u by (simp add: word_unat_eq_iff)
      ultimately show ?thesis using ahead True u bytes by (simp add: SeekableBuffer_Seek_def SeekForward_def word_less_nat_alt) auto
    next
      case False
      then show ?thesis using ahead u bytes by (simp add: SeekableBuffer_Seek_def SeekForward_def word_less_nat_alt)
    qed
  next
    case behind
    have u: "unat (word_of_int (- k) :: size_t) = nat (- k)"
      using behind assms(2) by (simp add: unsigned_of_int take_bit_int_eq_self del: of_int_minus)
    show ?thesis
    proof (cases "nat (- k) \<le> length (past b)")
      case True
      then have "0 < length (past b)" using behind by (intro less_le_trans [OF _ True]) simp
      then obtain i where i: "current_buffer b = Some i"
        using length_past [of b] assms(1) by (auto simp: seekable_ok_def position_def split: option.splits)
      have "unat (word_of_int (- k) :: size_t) - unat (0 :: size_t) \<le> length (past b)" using True u by simp
      from back_loop_ok [OF assms(1) i this] obtain b1 where
        b1: "back_loop (word_of_int (- k)) 0 b = Some (word_of_int (- k), b1)" "moved b (position b - nat (- k)) b1" using u by auto
      then have v: "seekable_ok b1" by (simp add: moved_def)
      obtain b2 where "UpdateCurrentTime (current_buffer b1) (current_buffer_offset b1) b1 = Some b2"
        "moved b (position b - nat (- k)) b2"
      proof (cases "current_buffer b1")
        case None
        then show ?thesis using that b1(2) by (simp add: UpdateCurrentTime_def)
      next
        case (Some j)
        then show ?thesis using UpdateCurrentTime_ok [of j b1 "current_buffer_offset b1"] v b1(2) that
          by (auto simp: seekable_ok_def valid_def moved_time)
      qed
      then show ?thesis using behind True u bytes b1(1) by (simp add: SeekableBuffer_Seek_def SeekBackward_def word_less_nat_alt)
    next
      case False
      then show ?thesis using behind u bytes by (simp add: SeekableBuffer_Seek_def SeekBackward_def word_less_nat_alt)
    qed
  next
    case stay
    then show ?thesis using assms(1) by (simp add: SeekableBuffer_Seek_def moved_def)
  qed
qed

lemma chunk_loop_ok:
  assumes "i < length (buffers b)" "unat offset \<le> length (data (buffers b ! i))" "length (contents (buffers b)) < 2 ^ 32"
  shows "case chunk_loop b (Some i) offset of None \<Rightarrow> rest (buffers b) i (unat offset) = []
    | Some (j, offset') \<Rightarrow> j < length (buffers b) \<and> unat offset' < length (data (buffers b ! j)) \<and>
        rest (buffers b) j (unat offset') = rest (buffers b) i (unat offset)"
  using assms
proof (induction "length (buffers b) - i" arbitrary: i offset)
  case (Suc k)
  note size = data_small [OF Suc.prems(1,3)]
  show ?case
  proof (cases "offset \<ge> GetDataSize (buffers b ! i)")
    case False
    then show ?thesis using Suc.prems(1) size by (subst chunk_loop.simps) (simp add: word_le_nat_alt)
  next
    case True
    then have left: "rest (buffers b) i (unat offset) = contents (drop (Suc i) (buffers b))"
      using rest_unfold [OF Suc.prems(1,2)] size by (simp add: word_le_nat_alt)
    have unfold: "chunk_loop b (Some i) offset = chunk_loop b (list_next (buffers b) i) 0" using True by (subst chunk_loop.simps) simp
    show ?thesis
    proof (cases "Suc i < length (buffers b)")
      case True
      have "k = length (buffers b) - Suc i" using Suc.hyps(2) by simp
      note IH = Suc.hyps(1) [OF this True _ Suc.prems(3), of 0, unfolded unsigned_0]
      have "rest (buffers b) (Suc i) 0 = rest (buffers b) i (unat offset)" using left rest_next [OF True] by simp
      then show ?thesis using True IH unfolding unfold by (simp only: list_next_def if_True)
    next
      case False
      then show ?thesis using left unfolding unfold by (subst chunk_loop.simps) (simp add: list_next_def)
    qed
  qed
qed simp

lemma GetCurrentChunk_ok:
  assumes "seekable_ok b"
  shows "case GetCurrentChunk b of None \<Rightarrow> future b = []
    | Some (chunk, n) \<Rightarrow> chunk \<noteq> [] \<and> unat n = length chunk \<and> prefix chunk (future b)"
proof (cases "current_buffer b")
  case None
  then show ?thesis using assms by (simp add: GetCurrentChunk_def chunk_loop.simps seekable_ok_def valid_def future_def)
next
  case (Some i)
  have v: "i < length (buffers b)" "unat (current_buffer_offset b) \<le> length (data (buffers b ! i))"
    "length (contents (buffers b)) < 2 ^ 32" using assms Some by (auto simp: seekable_ok_def valid_def)
  have left: "rest (buffers b) i (unat (current_buffer_offset b)) = future b"
    by (simp add: rest_def future_def position_def Some)
  show ?thesis
  proof (cases "chunk_loop b (Some i) (current_buffer_offset b)")
    case None
    then show ?thesis using chunk_loop_ok [OF v] left by (simp add: GetCurrentChunk_def Some)
  next
    case (Some r)
    obtain j offset where r: "r = (j, offset)" by (cases r)
    have c: "j < length (buffers b)" "unat offset < length (data (buffers b ! j))" "rest (buffers b) j (unat offset) = future b"
      using chunk_loop_ok [OF v] Some left r by simp_all
    have "unat (GetDataSize (buffers b ! j) - offset) = length (data (buffers b ! j)) - unat offset"
      using data_small [OF c(1) v(3)] c(2) by (simp add: unat_sub word_le_nat_alt)
    moreover have "future b = drop (unat offset) (data (buffers b ! j)) @ contents (drop (Suc j) (buffers b))"
      using c rest_unfold [OF c(1), of "unat offset"] by simp
    ultimately show ?thesis using c(2) Some r \<open>current_buffer b = Some i\<close> by (auto simp: GetCurrentChunk_def)
  qed
qed

end
