(* ===== verification/SeekableStream.thy ===== *)
theory SeekableStream
  imports SeekableProofs
begin

text \<open>
  The buffer of media data for its clients (\<open>src/media/base/seekable_buffer.cc\<close>): the locale \<open>byte_window\<close> states what
  reads, appends and seeks promise, and its lemma \<open>served\<close> what follows for every sequence of them.
\<close>

section \<open>Clients\<close>

text \<open>
  The requests of a client and the answers to them. \<open>explained\<close> replays the answers on the whole stream of the appended
  bytes, which forgets nothing, and a position in it.
\<close>

datatype 'x request = Append 'x | Read size_t | Seek int32
datatype answer = Appended "byte list" | Has_read size_t "byte list" | Sought int32 bool

fun explained :: "answer list \<Rightarrow> byte list \<Rightarrow> nat \<Rightarrow> bool" where
  "explained [] stream pos \<longleftrightarrow> True"
| "explained (Appended xs # as) stream pos \<longleftrightarrow> explained as (stream @ xs) pos"
| "explained (Has_read n out # as) stream pos \<longleftrightarrow>
     out = take (unat n) (drop pos stream) \<and> explained as stream (pos + length out)"
| "explained (Sought k ok # as) stream pos \<longleftrightarrow>
     (if ok then 0 \<le> int pos + k \<and> int pos + k \<le> int (length stream) \<and> explained as stream (nat (int pos + k))
      else (k < 0 \<or> int (length stream) < int pos + k) \<and> explained as stream pos)"

primrec serve where
  "serve rd ap sk bytes [] s = Some ([], s)"
| "serve rd ap sk bytes (r # rs) s = do {
     (a, s) \<leftarrow> (case r of
         Append x \<Rightarrow> map_option (\<lambda>s. (Appended (bytes x), s)) (ap x s)
       | Read n \<Rightarrow> map_option (\<lambda>(out, s). (Has_read n out, s)) (rd n s)
       | Seek k \<Rightarrow> map_option (\<lambda>(ok, s). (Sought k ok, s)) (sk k s));
     (as, s) \<leftarrow> serve rd ap sk bytes rs s;
     Some (a # as, s)
   }"

fun appended_bytes :: "('x \<Rightarrow> byte list) \<Rightarrow> 'x request list \<Rightarrow> nat" where
  "appended_bytes bytes [] = 0"
| "appended_bytes bytes (Append x # rs) = length (bytes x) + appended_bytes bytes rs"
| "appended_bytes bytes (_ # rs) = appended_bytes bytes rs"

locale byte_window =
  fixes rd :: "size_t \<Rightarrow> 's \<Rightarrow> (byte list \<times> 's) option"
    and ap :: "'x \<Rightarrow> 's \<Rightarrow> 's option"
    and sk :: "int32 \<Rightarrow> 's \<Rightarrow> (bool \<times> 's) option"
    and bytes :: "'x \<Rightarrow> byte list"
    and fine :: "'x \<Rightarrow> bool"
    and inv :: "'s \<Rightarrow> bool"
    and before :: "'s \<Rightarrow> byte list"
    and behind :: "'s \<Rightarrow> byte list"
  assumes read_law: "inv s \<Longrightarrow> \<exists>s'. rd n s = Some (take (unat n) (behind s), s') \<and> inv s' \<and>
      behind s' = drop (unat n) (behind s) \<and> suffix (before s') (before s @ take (unat n) (behind s))"
    and append_law: "inv s \<Longrightarrow> fine x \<Longrightarrow> length (before s) + length (behind s) + length (bytes x) < 2 ^ 32 \<Longrightarrow>
      \<exists>s'. ap x s = Some s' \<and> inv s' \<and> before s' = before s \<and> behind s' = behind s @ bytes x"
    and seek_law: "inv s \<Longrightarrow> - (2 ^ 31) \<le> k \<Longrightarrow> k < 2 ^ 31 \<Longrightarrow>
      \<exists>s'. sk k s = Some (- int (length (before s)) \<le> k \<and> k \<le> int (length (behind s)), s') \<and> inv s' \<and>
        (if k < - int (length (before s)) \<or> int (length (behind s)) < k then s' = s
         else if 0 < k then behind s' = drop (nat k) (behind s) \<and> suffix (before s') (before s @ take (nat k) (behind s))
         else before s' = take (length (before s) - nat (- k)) (before s) \<and>
           behind s' = drop (length (before s) - nat (- k)) (before s) @ behind s)"
begin

definition within :: "'s \<Rightarrow> byte list \<Rightarrow> nat \<Rightarrow> bool" where
  "within s stream pos \<longleftrightarrow> inv s \<and> pos \<le> length stream \<and> behind s = drop pos stream \<and> suffix (before s) (take pos stream)"

definition acceptable :: "'x request \<Rightarrow> bool" where
  "acceptable r \<longleftrightarrow> (case r of Append x \<Rightarrow> fine x | Read n \<Rightarrow> True | Seek k \<Rightarrow> - (2 ^ 31) \<le> k \<and> k < 2 ^ 31)"

lemma within_ahead:
  assumes "within s stream pos" "inv s'" "behind s' = drop n (behind s)" "suffix (before s') (before s @ take n (behind s))"
    "n \<le> length (behind s)"
  shows "within s' stream (pos + n)"
proof -
  have "suffix (before s @ take n (behind s)) (take (pos + n) stream)"
    using assms(1) by (auto simp: within_def take_add suffix_def)
  then show ?thesis using assms suffix_order.trans by (auto simp: within_def add.commute)
qed

lemma within_back:
  assumes "within s stream pos" "inv s'" "n \<le> length (before s)" "before s' = take (length (before s) - n) (before s)"
    "behind s' = drop (length (before s) - n) (before s) @ behind s"
  shows "within s' stream (pos - n)" "n \<le> pos"
proof -
  obtain zs where zs: "take pos stream = zs @ before s" using assms(1) by (auto simp: within_def suffix_def)
  have pos: "pos = length zs + length (before s)" using arg_cong [OF zs, of length] assms(1) by (simp add: within_def)
  then show "n \<le> pos" using assms(3) by simp
  have "stream = zs @ before s @ behind s"
    using zs assms(1) append_take_drop_id [of pos stream] by (simp add: within_def)
  then show "within s' stream (pos - n)" using assms pos by (auto simp: within_def suffix_def)
qed

lemma within_append:
  assumes "within s stream pos" "fine x" "length stream + length (bytes x) < 2 ^ 32"
  shows "\<exists>s'. ap x s = Some s' \<and> within s' (stream @ bytes x) pos"
proof -
  have "length (before s) \<le> pos" using assms(1) suffix_length_le [of "before s" "take pos stream"] by (simp add: within_def)
  then have len: "length (before s) + length (behind s) + length (bytes x) < 2 ^ 32" using assms(1,3) by (simp add: within_def)
  have "inv s" using assms(1) by (simp add: within_def)
  from append_law [OF this assms(2) len] obtain s' where "ap x s = Some s'" "inv s'" "before s' = before s" "behind s' = behind s @ bytes x"
    by blast
  then show ?thesis using assms(1) by (auto simp: within_def)
qed

lemma served:
  assumes "within s stream pos" "list_all acceptable rs" "length stream + appended_bytes bytes rs < 2 ^ 32"
  shows "\<exists>as s'. serve rd ap sk bytes rs s = Some (as, s') \<and> explained as stream pos \<and> inv s'"
  using assms
proof (induction rs arbitrary: s stream pos)
  case Nil
  then show ?case by (simp add: within_def)
next
  case (Cons r rs)
  have inv: "inv s" and pos: "pos \<le> length stream" and behind: "behind s = drop pos stream" and ok: "list_all acceptable rs"
    using Cons.prems(1,2) by (simp_all add: within_def)
  have before: "length (before s) \<le> pos"
    using Cons.prems(1) suffix_length_le [of "before s" "take pos stream"] by (simp add: within_def)
  show ?case
  proof (cases r)
    case (Append x)
    have "\<exists>s'. ap x s = Some s' \<and> within s' (stream @ bytes x) pos"
      using Cons.prems Append by (intro within_append) (simp_all add: acceptable_def)
    then obtain s' where s': "ap x s = Some s'" "within s' (stream @ bytes x) pos" by blast
    from Cons.IH [OF s'(2) ok] Cons.prems(3) Append s'(1) show ?thesis by auto
  next
    case (Read n)
    obtain s' where s': "rd n s = Some (take (unat n) (behind s), s')" "inv s'" "behind s' = drop (unat n) (behind s)"
      "suffix (before s') (before s @ take (unat n) (behind s))" using read_law [OF inv] by blast
    define m where "m = min (unat n) (length (behind s))"
    have m: "take (unat n) (behind s) = take m (behind s)" "drop (unat n) (behind s) = drop m (behind s)"
      "length (take m (behind s)) = m" by (simp_all add: m_def min_def)
    have "within s' stream (pos + m)" using Cons.prems(1) s'(2-4) m by (intro within_ahead [of s]) (simp_all add: m_def)
    from Cons.IH [OF this ok] Cons.prems(3) Read s'(1) m show ?thesis by (auto simp: behind)
  next
    case (Seek k)
    have k: "- (2 ^ 31) \<le> k" "k < 2 ^ 31" using Cons.prems(2) Seek by (simp_all add: acceptable_def)
    let ?ok = "- int (length (before s)) \<le> k \<and> k \<le> int (length (behind s))"
    obtain s' where s': "sk k s = Some (?ok, s')" "inv s'"
      "if k < - int (length (before s)) \<or> int (length (behind s)) < k then s' = s
       else if 0 < k then behind s' = drop (nat k) (behind s) \<and> suffix (before s') (before s @ take (nat k) (behind s))
       else before s' = take (length (before s) - nat (- k)) (before s) \<and>
         behind s' = drop (length (before s) - nat (- k)) (before s) @ behind s"
      using seek_law [OF inv k] by blast
    have rest: "length stream + appended_bytes bytes rs < 2 ^ 32" using Cons.prems(3) Seek by simp
    show ?thesis
    proof (cases ?ok)
      case False
      then have "s' = s" using s'(3) by auto
      moreover have "k < 0 \<or> int (length stream) < int pos + k" using False before pos by (auto simp: behind)
      moreover have "(- int (length (before s)) \<le> k \<and> k \<le> int (length (behind s))) = False" using False by blast
      ultimately show ?thesis using Cons.IH [OF Cons.prems(1) ok rest] s'(1) Seek by auto
    next
      case True
      have "within s' stream (nat (int pos + k)) \<and> 0 \<le> int pos + k \<and> int pos + k \<le> int (length stream)"
      proof (cases "0 < k")
        case fwd: True
        have "within s' stream (pos + nat k)" using Cons.prems(1) s'(2,3) True fwd by (intro within_ahead [of s]) (auto split: if_splits)
        moreover have "nat (int pos + k) = pos + nat k" using fwd by (simp add: nat_add_distrib)
        ultimately show ?thesis using True fwd pos by (simp add: behind)
      next
        case False
        have le: "nat (- k) \<le> length (before s)" using True by linarith
        have parts: "before s' = take (length (before s) - nat (- k)) (before s)"
          "behind s' = drop (length (before s) - nat (- k)) (before s) @ behind s"
          using s'(3) True False by (auto split: if_splits)
        note b = within_back [OF Cons.prems(1) s'(2) le parts]
        have "nat (int pos + k) = pos - nat (- k)" "0 \<le> int pos + k" "int pos + k \<le> int (length stream)"
          using False b(2) pos by linarith+
        then show ?thesis using b(1) by simp
      qed
      moreover have "?ok = True" using True by blast
      ultimately show ?thesis using Cons.IH [of s' stream "nat (int pos + k)"] ok rest s'(1) Seek by auto
    qed
  qed
qed

end

text \<open>Both ways to append.\<close>

type_synonym appendix = "buffer + byte list"

fun appendix_bytes :: "appendix \<Rightarrow> byte list" where
  "appendix_bytes (Inl x) = data x"
| "appendix_bytes (Inr bs) = bs"

fun appendix_fine :: "appendix \<Rightarrow> bool" where
  "appendix_fine (Inl x) \<longleftrightarrow> empty_untimed x"
| "appendix_fine (Inr bs) \<longleftrightarrow> True"

fun append_any :: "appendix \<Rightarrow> seekable_buffer \<Rightarrow> seekable_buffer option" where
  "append_any (Inl x) b = map_option snd (Append_buffer x b)"
| "append_any (Inr bs) b = map_option snd (Append_data bs b)"

definition read_bytes :: "size_t \<Rightarrow> seekable_buffer \<Rightarrow> (byte list \<times> seekable_buffer) option" where
  "read_bytes n b = map_option snd (SeekableBuffer_Read n b)"

lemma length_parts: "length (past b) + length (future b) = length (contents (buffers b))"
  using past_future [of b] by (metis length_append)

lemma append_any_ok:
  assumes "seekable_ok b" "appendix_fine x" "length (past b) + length (future b) + length (appendix_bytes x) < 2 ^ 32"
  shows "\<exists>b'. append_any x b = Some b' \<and> seekable_ok b' \<and> past b' = past b \<and> future b' = future b @ appendix_bytes x"
proof (cases x)
  case (Inl buf)
  obtain result b' where a: "Append_buffer buf b = Some (result, b')" using Append_returns [OF assms(1)] by blast
  show ?thesis using Append_ok(1-3) [OF assms(1) _ _ a] assms(2,3) by (simp add: length_parts Inl a)
next
  case (Inr bs)
  show ?thesis
  proof (cases "bs = []")
    case True
    then show ?thesis using assms(1) by (simp add: Inr Append_data_def)
  next
    case False
    obtain result b' where a: "Append_buffer (DataBuffer bs) b = Some (result, b')" using Append_returns [OF assms(1)] by blast
    have d: "data (DataBuffer bs) = bs" "empty_untimed (DataBuffer bs)" by (simp_all add: DataBuffer_def empty_untimed_def)
    show ?thesis using Append_ok(1-3) [OF assms(1) _ d(2) a] assms(3) False by (simp add: length_parts Inr Append_data_def a d(1))
  qed
qed

lemma take_min: "take (min n (length xs)) xs = take n xs" "drop (min n (length xs)) xs = drop n xs"
  by (simp_all add: min_def)

lemma Read_ok:
  assumes "seekable_ok b"
  shows "\<exists>taken b'. SeekableBuffer_Read n b = Some (taken, take (unat n) (future b), b') \<and>
    unat taken = min (unat n) (length (future b)) \<and> seekable_ok b' \<and> future b' = drop (unat n) (future b) \<and>
    suffix (past b') (past b @ take (unat n) (future b)) \<and> forward_capacity b' = forward_capacity b \<and>
    backward_capacity b' = backward_capacity b \<and>
    (length (past b') \<le> unat (backward_capacity b) \<or> current_buffer b' = list_begin (buffers b'))"
proof -
  obtain taken b' b1 where r: "InternalRead True n True b = Some (taken, take (min (unat n) (length (future b))) (future b), b')"
    "unat taken = min (unat n) (length (future b))" "moved b (position b + min (unat n) (length (future b))) b1" "evicted b1 b'"
    using InternalRead_ok [OF assms, where sz = n and wd = True and adv = True] by auto
  have "unat (backward_bytes b') = length (past b')" using r(4) by (simp add: evicted_def seekable_ok_def)
  then show ?thesis using r moved_ahead [OF r(3)]
    by (auto simp: SeekableBuffer_Read_def take_min evicted_def moved_def word_le_nat_alt)
qed

interpretation sb: byte_window read_bytes append_any SeekableBuffer_Seek appendix_bytes appendix_fine seekable_ok past future
proof (unfold_locales, goal_cases)
  case (1 b n)
  then show ?case using Read_ok [of b n] by (auto simp: read_bytes_def)
next
  case (2 b x)
  then show ?case by (rule append_any_ok)
next
  case (3 b k)
  obtain b' where b': "SeekableBuffer_Seek k b = Some (- int (length (past b)) \<le> k \<and> k \<le> int (length (future b)), b')"
    "if k < - int (length (past b)) \<or> int (length (future b)) < k then b' = b
     else if 0 < k then \<exists>b1. moved b (position b + nat k) b1 \<and> evicted b1 b' else moved b (position b - nat (- k)) b'"
    using Seek_ok [OF 3] by blast
  consider (no) "k < - int (length (past b)) \<or> int (length (future b)) < k"
    | (ahead) "\<not> (k < - int (length (past b)) \<or> int (length (future b)) < k)" "0 < k"
    | (behind) "\<not> (k < - int (length (past b)) \<or> int (length (future b)) < k)" "\<not> 0 < k" by blast
  then show ?case
  proof cases
    case no
    then show ?thesis using b' 3(1) by (intro exI [of _ b]) auto
  next
    case ahead
    then obtain b1 where b1: "moved b (position b + nat k) b1" "evicted b1 b'" using b'(2) by auto
    then have "seekable_ok b'" "future b' = drop (nat k) (future b)" "suffix (past b') (past b @ take (nat k) (future b))"
      using moved_ahead [OF b1(1)] by (simp_all add: evicted_def)
    then show ?thesis using b'(1) ahead by (intro exI [of _ b']) auto
  next
    case behind
    then have m: "moved b (position b - nat (- k)) b'" using b'(2) by auto
    have "nat (- k) \<le> length (past b)" using behind by linarith
    from moved_back [OF m this 3(1)] moved_parts(3) [OF m] show ?thesis using b'(1) behind by (intro exI [of _ b']) auto
  qed
qed

lemma seekable_ok_new: "seekable_ok (SeekableBuffer backward forward)" "past (SeekableBuffer backward forward) = []"
  "future (SeekableBuffer backward forward) = []"
  by (simp_all add: SeekableBuffer_def seekable_ok_def valid_def past_def future_def position_def)

lemma seekable_ok_Clear: "seekable_ok (Clear b)" "past (Clear b) = []" "future (Clear b) = []"
  by (simp_all add: Clear_def list_begin_def seekable_ok_def valid_def past_def future_def position_def)

text \<open>
  C15 (refinement): a seekable buffer is a stream with a position, as long as no buffer without data that has a positive
  time is appended (it makes the next read divide by zero, \<open>empty_timed_buffer_crashes\<close>), the bytes appended are fewer
  than two to the 32, and the offsets of seeks have 32 bits. From a new buffer, for all other appends, reads and seeks
  in any order, every request is answered, and the answers are those of the stream of all appended bytes, however they
  were cut into buffers: a read returns the bytes at the position and advances it by their number, a successful seek moves
  it by the offset within the stream. A forward seek fails only when the stream is too short; a backward seek may
  also fail because the bytes were evicted.
\<close>

theorem seekable_buffer_stream:
  assumes "list_all (\<lambda>r. case r of Append x \<Rightarrow> appendix_fine x | Read n \<Rightarrow> True | Seek k \<Rightarrow> - (2 ^ 31) \<le> k \<and> k < 2 ^ 31) rs"
    "appended_bytes appendix_bytes rs < 2 ^ 32"
  shows "\<exists>as b. serve read_bytes append_any SeekableBuffer_Seek appendix_bytes rs (SeekableBuffer backward forward) = Some (as, b) \<and>
    explained as [] 0"
proof -
  have "sb.within (SeekableBuffer backward forward) [] 0" by (simp add: sb.within_def seekable_ok_new)
  from sb.served [OF this, of rs] show ?thesis using assms by (auto simp: sb.acceptable_def [abs_def])
qed

theorem seekable_buffer_stream_witness:
  "\<exists>as b. serve read_bytes append_any SeekableBuffer_Seek appendix_bytes
     [Append (Inr [1, 2, 3]), Append (Inl \<lparr>data = [4], timestamp = 40, duration = 40\<rparr>), Read 2, Seek 2, Seek (- 3), Read 9]
     (SeekableBuffer 8 8) = Some (as, b) \<and> explained as [] 0"
  by (rule seekable_buffer_stream) (simp_all add: empty_untimed_def)

text \<open>
  What single operations return. A read takes the bytes at the position, as many as there are, and keeps
  at most \<open>backward_capacity\<close> bytes behind it, the buffer it is in apart; a peek returns the same and changes nothing;
  the current chunk is a non-empty beginning of what follows, when anything does; the counters are exact.
\<close>

theorem seekable_buffer_operations:
  assumes "seekable_ok b"
  shows "(\<exists>taken b'. SeekableBuffer_Read n b = Some (taken, take (unat n) (future b), b') \<and>
      unat taken = min (unat n) (length (future b)) \<and> future b' = drop (unat n) (future b) \<and>
      (length (past b') \<le> unat (backward_capacity b) \<or> current_buffer b' = list_begin (buffers b'))) \<and>
    (\<exists>taken. SeekableBuffer_Peek n b = Some (taken, take (unat n) (future b), b) \<and> unat taken = min (unat n) (length (future b))) \<and>
    (case GetCurrentChunk b of None \<Rightarrow> future b = []
     | Some (chunk, m) \<Rightarrow> chunk \<noteq> [] \<and> unat m = length chunk \<and> prefix chunk (future b)) \<and>
    unat (forward_bytes b) = length (future b) \<and> unat (backward_bytes b) = length (past b)"
proof (intro conjI)
  show "\<exists>taken b'. SeekableBuffer_Read n b = Some (taken, take (unat n) (future b), b') \<and>
      unat taken = min (unat n) (length (future b)) \<and> future b' = drop (unat n) (future b) \<and>
      (length (past b') \<le> unat (backward_capacity b) \<or> current_buffer b' = list_begin (buffers b'))"
    using Read_ok [OF assms] by blast
  show "\<exists>taken. SeekableBuffer_Peek n b = Some (taken, take (unat n) (future b), b) \<and> unat taken = min (unat n) (length (future b))"
    using InternalRead_ok [OF assms, where sz = n and wd = True and adv = False]
    by (auto simp: SeekableBuffer_Peek_def take_min)
qed (use GetCurrentChunk_ok [OF assms] assms in \<open>simp_all add: seekable_ok_def\<close>)

theorem seekable_buffer_operations_witness:
  "\<exists>b taken. append_any (Inr [1, 2, 3]) (SeekableBuffer 8 8) = Some b \<and> SeekableBuffer_Peek 2 b = Some (taken, [1, 2], b) \<and> unat taken = 2"
proof -
  obtain b where b: "append_any (Inr [1, 2, 3]) (SeekableBuffer 8 8) = Some b" "seekable_ok b" "future b = [1, 2, 3]"
    using append_any_ok [OF seekable_ok_new(1), of "Inr [1, 2, 3]" 8 8] by (auto simp: seekable_ok_new)
  then show ?thesis using seekable_buffer_operations [of b 2] by auto
qed

text \<open>
  The time at the position is a division by the size of the buffer. A buffer without data that has a time
  makes the next read divide by zero; nothing keeps such a buffer out.
\<close>

theorem empty_timed_buffer_crashes:
  assumes "data x = []" "0 < sint (timestamp x)" "0 < n"
  shows "\<exists>result b. Append_buffer x (SeekableBuffer backward forward) = Some (result, b) \<and> SeekableBuffer_Read n b = None"
proof -
  obtain result b where a: "Append_buffer x (SeekableBuffer backward forward) = Some (result, b)"
    using Append_returns seekable_ok_new(1) by blast
  then have b: "buffers b = [x]" "current_buffer b = Some 0" "current_buffer_offset b = 0"
    by (auto simp: Append_buffer_def SeekableBuffer_def list_begin_def Let_def split: if_splits)
  have "GetDataSize x = 0" using assms(1) by (simp add: GetDataSize_def)
  then have "read_loop True True n 0 [] (Some 0) 0 b = None"
    using assms(2,3) b by (subst read_loop.simps) (simp add: UpdateCurrentTime_def Let_def min_def)
  then show ?thesis using a by (simp add: SeekableBuffer_Read_def InternalRead_def b)
qed

theorem empty_timed_buffer_crashes_witness:
  "\<exists>result b. Append_buffer \<lparr>data = [], timestamp = 40, duration = 0\<rparr> (SeekableBuffer 8 8) = Some (result, b) \<and>
     SeekableBuffer_Read 1 b = None"
  by (rule empty_timed_buffer_crashes) simp_all

end
