(* ===== verification/UnicodeConversions.thy ===== *)
theory UnicodeConversions
  imports Prelude
begin

text \<open>
  Strings in UTF-8, UTF-16 and UTF-32 (\<open>src/base/utf_string_conversions.cc\<close>,
  \<open>src/base/utf_string_conversion_utils.cc\<close> and the macros of ICU in
  \<open>src/base/third_party/icu/icu_utf.h\<close>), in the build for POSIX systems, where \<open>wchar_t\<close> has 32 bits.
  A \<open>std::string\<close> is a list of bytes; the units of 16 and of 32 bits are natural numbers.
\<close>

type_synonym char16 = nat
type_synonym wchar = nat

definition IsValidCodepoint :: "uint32 \<Rightarrow> bool" where
  "IsValidCodepoint code_point = (code_point < 0xD800 \<or> (code_point \<ge> 0xE000 \<and> code_point \<le> 0x10FFFF))"

definition IsValidCharacter :: "uint32 \<Rightarrow> bool" where
  "IsValidCharacter code_point = (code_point < 0xD800 \<or> (code_point \<ge> 0xE000 \<and> code_point < 0xFDD0) \<or>
     (code_point > 0xFDEF \<and> code_point \<le> 0x10FFFF \<and> code_point AND 0xFFFE \<noteq> 0xFFFE))"

section \<open>The macros of ICU\<close>

definition IS_SURROGATE :: "uint32 \<Rightarrow> bool" where
  "IS_SURROGATE c = (c AND 0xfffff800 = 0xd800)"

definition IS_SURROGATE_LEAD :: "uint32 \<Rightarrow> bool" where
  "IS_SURROGATE_LEAD c = (c AND 0x400 = 0)"

definition CBU16_IS_TRAIL :: "uint32 \<Rightarrow> bool" where
  "CBU16_IS_TRAIL c = (c AND 0xfffffc00 = 0xdc00)"

definition CBU16_GET_SUPPLEMENTARY :: "uint32 \<Rightarrow> uint32 \<Rightarrow> uint32" where
  "CBU16_GET_SUPPLEMENTARY lead trail = push_bit 10 lead + trail - (push_bit 10 0xd800 + 0xdc00 - 0x10000)"

text \<open>The table \<open>utf8_countTrailBytes\<close>.\<close>

definition COUNT_TRAIL_BYTES :: "nat \<Rightarrow> nat" where
  "COUNT_TRAIL_BYTES b = (if b < 0xc0 then 0 else if b < 0xe0 then 1 else if b < 0xf0 then 2 else if b < 0xf8 then 3
     else if b < 0xfc then 4 else if b < 0xfe then 5 else 0)"

definition utf8_minLegal :: "nat list" where
  "utf8_minLegal = [0, 0x80, 0x800, 0x10000]"

definition IS_LEAD :: "nat \<Rightarrow> bool" where
  "IS_LEAD c = (0xc0 \<le> c \<and> c - 0xc0 < 0x3e)"

definition IS_TRAIL :: "nat \<Rightarrow> bool" where
  "IS_TRAIL c = (c AND 0xc0 = 0x80)"

definition byte_at :: "byte list \<Rightarrow> nat \<Rightarrow> nat" where
  "byte_at s i = unat (s ! i)"

text \<open>The cases 3, 2 and 1 of the switch, which fall through: whether the sequence is illegal, and the bits.\<close>

primrec read_trails :: "nat \<Rightarrow> byte list \<Rightarrow> nat \<Rightarrow> nat \<Rightarrow> bool \<times> nat" where
  "read_trails 0 s i c = (False, c)"
| "read_trails (Suc k) s i c =
     (let trail = byte_at s i;
          c = push_bit 6 c OR (trail AND 0x3f)
      in if k = 2 \<and> \<not> c < 0x110 then (True, c)
         else let (illegal, c) = read_trails k s (i + 1) c
              in ((trail AND 0xc0) XOR 0x80 \<noteq> 0 \<or> illegal, c))"

primrec skip_trails :: "nat \<Rightarrow> byte list \<Rightarrow> nat \<Rightarrow> nat" where
  "skip_trails 0 s i = i"
| "skip_trails (Suc n) s i = (if IS_TRAIL (byte_at s i) then skip_trails n s (i + 1) else i)"

text \<open>The function with \<open>strict = -1\<close>. It returns the index and the code point, or \<open>CBU_SENTINEL\<close>.\<close>

definition CBU_SENTINEL :: int where "CBU_SENTINEL = - 1"

definition utf8_nextCharSafeBody :: "byte list \<Rightarrow> nat \<Rightarrow> nat \<Rightarrow> nat \<times> int" where
  "utf8_nextCharSafeBody s i c =
     (let count = COUNT_TRAIL_BYTES c in
      if i + count \<le> length s then
        let c = c AND (push_bit (6 - count) 1 - 1) in
        if count = 0 then (i, CBU_SENTINEL)
        else let (illegal, c) = (if count \<ge> 4 then (True, c) else read_trails count s i c)
             in if illegal \<or> c < utf8_minLegal ! count \<or> IS_SURROGATE c
                then (skip_trails count s i, CBU_SENTINEL) else (i + count, int c)
      else (skip_trails (length s - i) s i, CBU_SENTINEL))"

definition CBU8_NEXT :: "byte list \<Rightarrow> nat \<Rightarrow> nat \<times> int" where
  "CBU8_NEXT s i =
     (let c = byte_at s i in
      if c \<ge> 0x80 then if IS_LEAD c then utf8_nextCharSafeBody s (i + 1) c else (i + 1, CBU_SENTINEL)
      else (i + 1, int c))"

definition to_byte :: "nat \<Rightarrow> byte" where
  "to_byte n = word_of_nat n"

definition CBU8_APPEND_UNSAFE :: "uint32 \<Rightarrow> byte list" where
  "CBU8_APPEND_UNSAFE c =
     (if c \<le> 0x7f then [to_byte c]
      else (if c \<le> 0x7ff then [to_byte (drop_bit 6 c OR 0xc0)]
            else (if c \<le> 0xffff then [to_byte (drop_bit 12 c OR 0xe0)]
                  else [to_byte (drop_bit 18 c OR 0xf0), to_byte ((drop_bit 12 c AND 0x3f) OR 0x80)])
                 @ [to_byte ((drop_bit 6 c AND 0x3f) OR 0x80)])
           @ [to_byte ((c AND 0x3f) OR 0x80)])"

definition CBU16_APPEND_UNSAFE :: "uint32 \<Rightarrow> char16 list" where
  "CBU16_APPEND_UNSAFE c =
     (if c \<le> 0xffff then [c mod 0x10000]
      else [(drop_bit 10 c + 0xd7c0) mod 0x10000, ((c AND 0x3ff) OR 0xdc00) mod 0x10000])"

section \<open>Reading and writing one character\<close>

text \<open>The overloads by the type of the units. Reading returns whether the character is valid, its code point and the index
  of its last unit.\<close>

datatype units = U8 "byte list" | U16 "char16 list" | U32 "wchar list"

fun units_length :: "units \<Rightarrow> nat" where
  "units_length (U8 s) = length s"
| "units_length (U16 s) = length s"
| "units_length (U32 s) = length s"

fun ReadUnicodeCharacter :: "units \<Rightarrow> nat \<Rightarrow> bool \<times> uint32 \<times> nat" where
  "ReadUnicodeCharacter (U8 src) char_index =
     (let (i, code_point) = CBU8_NEXT src char_index
      in (IsValidCodepoint (to_uint32 code_point), to_uint32 code_point, i - 1))"
| "ReadUnicodeCharacter (U16 src) char_index =
     (if IS_SURROGATE (src ! char_index) then
        if \<not> IS_SURROGATE_LEAD (src ! char_index) \<or> char_index + 1 \<ge> length src \<or>
           \<not> CBU16_IS_TRAIL (src ! (char_index + 1)) then (False, 0, char_index)
        else let code_point = CBU16_GET_SUPPLEMENTARY (src ! char_index) (src ! (char_index + 1))
             in (IsValidCodepoint code_point, code_point, char_index + 1)
      else (IsValidCodepoint (src ! char_index), src ! char_index, char_index))"
| "ReadUnicodeCharacter (U32 src) char_index =
     (IsValidCodepoint (src ! char_index), src ! char_index, char_index)"

definition WriteUnicodeCharacter8 :: "uint32 \<Rightarrow> byte list" where
  "WriteUnicodeCharacter8 code_point = (if code_point \<le> 0x7f then [to_byte code_point] else CBU8_APPEND_UNSAFE code_point)"

definition WriteUnicodeCharacter16 :: "uint32 \<Rightarrow> char16 list" where
  "WriteUnicodeCharacter16 code_point = (if code_point \<le> 0xffff then [code_point mod 0x10000] else CBU16_APPEND_UNSAFE code_point)"

definition WriteUnicodeCharacter32 :: "uint32 \<Rightarrow> wchar list" where
  "WriteUnicodeCharacter32 code_point = [code_point]"

lemma skip_trails_ge: "i \<le> skip_trails n s i"
  by (induction n arbitrary: i) (auto intro: Suc_leD)

lemma CBU8_NEXT_ge: "i < fst (CBU8_NEXT s i)"
proof -
  have "i \<le> fst (utf8_nextCharSafeBody s i c)" for i c
    using skip_trails_ge by (auto simp: utf8_nextCharSafeBody_def Let_def split: prod.splits)
  from this [of "i + 1"] show ?thesis by (auto simp: CBU8_NEXT_def Let_def Suc_le_eq)
qed

lemma ReadUnicodeCharacter_ge: "i \<le> snd (snd (ReadUnicodeCharacter src i))"
proof (cases src)
  case (U8 s)
  then show ?thesis using CBU8_NEXT_ge [of i s] by (cases "CBU8_NEXT s i") (simp add: Let_def)
qed (simp_all add: Let_def)

section \<open>Converting strings\<close>

function convert_loop :: "units \<Rightarrow> (uint32 \<Rightarrow> 'c list) \<Rightarrow> nat \<Rightarrow> bool \<Rightarrow> 'c list \<Rightarrow> bool \<times> 'c list" where
  "convert_loop src Write i success out =
     (if i < units_length src then
        let (valid, code_point, i') = ReadUnicodeCharacter src i
        in if valid then convert_loop src Write (i' + 1) success (out @ Write code_point)
           else convert_loop src Write (i' + 1) False (out @ Write 0xFFFD)
      else (success, out))"
  by pat_completeness auto
termination
proof (relation "measure (\<lambda>(src, Write, i, success, output). units_length src - i)", goal_cases)
  case (2 src Write i success out x valid y code_point i')
  then show ?case using ReadUnicodeCharacter_ge [of i src] by (cases "ReadUnicodeCharacter src i") auto
next
  case (3 src Write i success out x valid y code_point i')
  then show ?case using ReadUnicodeCharacter_ge [of i src] by (cases "ReadUnicodeCharacter src i") auto
qed simp

declare convert_loop.simps [simp del]

definition ConvertUnicode :: "units \<Rightarrow> (uint32 \<Rightarrow> 'c list) \<Rightarrow> bool \<times> 'c list" where
  "ConvertUnicode src Write = convert_loop src Write 0 True []"

definition WideToUTF8 :: "wchar list \<Rightarrow> byte list" where
  "WideToUTF8 wide = snd (ConvertUnicode (U32 wide) WriteUnicodeCharacter8)"

definition UTF8ToWide :: "byte list \<Rightarrow> wchar list" where
  "UTF8ToWide utf8 = snd (ConvertUnicode (U8 utf8) WriteUnicodeCharacter32)"

definition WideToUTF16 :: "wchar list \<Rightarrow> char16 list" where
  "WideToUTF16 wide = snd (ConvertUnicode (U32 wide) WriteUnicodeCharacter16)"

definition UTF16ToWide :: "char16 list \<Rightarrow> wchar list" where
  "UTF16ToWide utf16 = snd (ConvertUnicode (U16 utf16) WriteUnicodeCharacter32)"

definition UTF8ToUTF16 :: "byte list \<Rightarrow> char16 list" where
  "UTF8ToUTF16 utf8 = snd (ConvertUnicode (U8 utf8) WriteUnicodeCharacter16)"

definition UTF16ToUTF8 :: "char16 list \<Rightarrow> byte list" where
  "UTF16ToUTF8 utf16 = snd (ConvertUnicode (U16 utf16) WriteUnicodeCharacter8)"

text \<open>The test of a whole string (\<open>src/base/string_util.cc\<close>), from an index on.\<close>

function utf8_loop :: "byte list \<Rightarrow> nat \<Rightarrow> bool" where
  "utf8_loop src char_index =
     (if char_index < length src then
        let (i, code_point) = CBU8_NEXT src char_index
        in if \<not> IsValidCharacter (to_uint32 code_point) then False else utf8_loop src i
      else True)"
  by pat_completeness auto
termination
proof (relation "measure (\<lambda>(src, i). length src - i)", goal_cases)
  case (2 src char_index x i code_point)
  then show ?case using CBU8_NEXT_ge [of char_index src] by (cases "CBU8_NEXT src char_index") auto
qed simp

declare utf8_loop.simps [simp del]

definition IsStringUTF8 :: "byte list \<Rightarrow> bool" where
  "IsStringUTF8 str = utf8_loop str 0"

end
