(* ===== verification/UnicodeProofs.thy ===== *)
theory UnicodeProofs
  imports UnicodeConversions
begin

text \<open>
  The conversions between UTF-8, UTF-16 and UTF-32 (\<open>src/base/utf_string_conversions.cc\<close>) are exact on texts of
  valid code points, and \<open>IsStringUTF8\<close> accepts exactly the encodings of texts of characters.
\<close>

section \<open>Bits\<close>

lemma or_add:
  fixes a b :: nat
  assumes "b < 2 ^ n"
  shows "push_bit n a OR b = a * 2 ^ n + b"
proof -
  have "take_bit n b = b" using assms by (simp add: take_bit_nat_eq_self)
  then have "push_bit n a AND b = push_bit n a AND take_bit n b" by simp
  also have "\<dots> = 0" by (auto simp: bit_eq_iff bit_simps)
  finally show ?thesis using disjunctive_add_eq_or [of "push_bit n a" b] by (simp add: push_bit_eq_mult)
qed

lemma and_mask_mod: "(x :: nat) AND (push_bit n 1 - 1) = x mod 2 ^ n"
  using take_bit_eq_mask [of n x] by (simp add: mask_eq_exp_minus_1 take_bit_eq_mod push_bit_eq_mult)

lemma and_63: "(x :: nat) AND 0x3f = x mod 64"
  using and_mask_mod [of x 6] by (simp add: push_bit_eq_mult)

lemma and_1023: "(x :: nat) AND 0x3ff = x mod 1024"
  using and_mask_mod [of x 10] by (simp add: push_bit_eq_mult)

lemma or_bits:
  fixes x :: nat
  shows "x < 64 \<Longrightarrow> x OR 0xc0 = 192 + x" "x < 64 \<Longrightarrow> x OR 0x80 = 128 + x" "x < 32 \<Longrightarrow> x OR 0xe0 = 224 + x"
    "x < 16 \<Longrightarrow> x OR 0xf0 = 240 + x" "x < 1024 \<Longrightarrow> x OR 0xdc00 = 0xdc00 + x"
  using or_add [of x 6 3] or_add [of x 6 2] or_add [of x 5 7] or_add [of x 4 15] or_add [of x 10 55]
  by (simp_all add: or.commute push_bit_eq_mult)

lemma trail_bits: "push_bit 6 c OR ((t :: nat) AND 0x3f) = c * 64 + t mod 64"
  using or_add [of "t mod 64" 6 c] by (simp add: and_63)

lemma high_bits:
  fixes c :: nat
  assumes "c < 2 ^ w" "n \<le> w"
  shows "c AND push_bit n (mask (w - n)) = push_bit n (drop_bit n c)"
proof -
  have t: "take_bit w c = c" using assms(1) by (simp add: take_bit_nat_eq_self)
  have "take_bit w c AND push_bit n (mask (w - n)) = push_bit n (drop_bit n (take_bit w c))"
    using assms(2) by (auto simp: bit_eq_iff bit_simps)
  then show ?thesis by (simp add: t)
qed

definition is_trail :: "nat \<Rightarrow> bool" where
  "is_trail t \<longleftrightarrow> 128 \<le> t \<and> t < 192"

lemma xor_0: "(a :: nat) XOR b = 0 \<longleftrightarrow> a = b"
  by (auto simp: bit_eq_iff bit_simps)

lemma trail_tests:
  assumes "t < 256"
  shows "(t AND 0xc0) XOR 0x80 \<noteq> 0 \<longleftrightarrow> \<not> is_trail t" "IS_TRAIL t \<longleftrightarrow> is_trail t"
proof -
  have "t AND 0xc0 = 64 * (t div 64)"
    using high_bits [of t 8 6] assms by (simp add: mask_eq_exp_minus_1 push_bit_eq_mult drop_bit_eq_div)
  moreover have "64 * (t div 64) = 0x80 \<longleftrightarrow> is_trail t" by (auto simp: is_trail_def)
  ultimately show "(t AND 0xc0) XOR 0x80 \<noteq> 0 \<longleftrightarrow> \<not> is_trail t" "IS_TRAIL t \<longleftrightarrow> is_trail t"
    by (simp_all add: xor_0 IS_TRAIL_def)
qed

lemma IS_SURROGATE_iff: "c < 2 ^ 32 \<Longrightarrow> IS_SURROGATE c \<longleftrightarrow> 0xd800 \<le> c \<and> c < 0xe000"
  using high_bits [of c 32 11] by (auto simp: IS_SURROGATE_def mask_eq_exp_minus_1 push_bit_eq_mult drop_bit_eq_div)

lemma CBU16_IS_TRAIL_iff: "c < 2 ^ 32 \<Longrightarrow> CBU16_IS_TRAIL c \<longleftrightarrow> 0xdc00 \<le> c \<and> c < 0xe000"
  using high_bits [of c 32 10] by (auto simp: CBU16_IS_TRAIL_def mask_eq_exp_minus_1 push_bit_eq_mult drop_bit_eq_div)

lemma IS_SURROGATE_LEAD_iff: "IS_SURROGATE_LEAD c \<longleftrightarrow> even (c div 1024)"
proof -
  have "c AND 0x400 = 0 \<longleftrightarrow> \<not> bit c 10"
    using bit_iff_and_push_bit_not_eq_0 [of c 10] by (simp add: push_bit_eq_mult)
  then show ?thesis by (simp add: IS_SURROGATE_LEAD_def bit_iff_odd)
qed

section \<open>The encoding of a code point\<close>

definition encoding8 :: "nat \<Rightarrow> nat list" where
  "encoding8 c = (if c < 0x80 then [c] else if c < 0x800 then [192 + c div 64, 128 + c mod 64]
     else if c < 0x10000 then [224 + c div 4096, 128 + c div 64 mod 64, 128 + c mod 64]
     else [240 + c div 262144, 128 + c div 4096 mod 64, 128 + c div 64 mod 64, 128 + c mod 64])"

lemma unat_to_byte: "n < 256 \<Longrightarrow> unat (to_byte n) = n"
  by (simp add: to_byte_def unsigned_of_nat take_bit_nat_eq_self)

lemma to_byte_unat: "to_byte (unat b) = b"
  by (simp add: to_byte_def)

lemma Write8_encoding: "c \<le> 0x10FFFF \<Longrightarrow> WriteUnicodeCharacter8 c = map to_byte (encoding8 c)"
  by (simp add: WriteUnicodeCharacter8_def CBU8_APPEND_UNSAFE_def encoding8_def drop_bit_eq_div and_63 or_bits div_le_mono)

lemma encoding8_byte: "c \<le> 0x10FFFF \<Longrightarrow> b \<in> set (encoding8 c) \<Longrightarrow> b < 256"
  by (auto simp: encoding8_def split: if_splits)

section \<open>Decoding\<close>

lemma byte_at_bound: "byte_at s i < 256"
  using unsigned_less [of "s ! i"] by (simp add: byte_at_def)

lemmas read_trails_step = trail_tests(1) [OF byte_at_bound, simplified] trail_bits [simplified]

lemma read_trails_1: "read_trails 1 s i c = (\<not> is_trail (byte_at s i), c * 64 + byte_at s i mod 64)"
  by (simp add: read_trails_step Let_def)

lemma read_trails_2: "read_trails 2 s i c =
    (\<not> is_trail (byte_at s i) \<or> \<not> is_trail (byte_at s (i + 1)), (c * 64 + byte_at s i mod 64) * 64 + byte_at s (i + 1) mod 64)"
  by (simp add: read_trails_step Let_def numeral_2_eq_2)

lemma read_trails_3: "read_trails 3 s i c =
    (let c1 = c * 64 + byte_at s i mod 64 in
     if c1 < 0x110 then (\<not> is_trail (byte_at s i) \<or> \<not> is_trail (byte_at s (i + 1)) \<or> \<not> is_trail (byte_at s (i + 2)),
       (c1 * 64 + byte_at s (i + 1) mod 64) * 64 + byte_at s (i + 2) mod 64)
     else (True, c1))"
  by (auto simp: read_trails_step Let_def numeral_3_eq_3 numeral_2_eq_2)

text \<open>The lead bytes of sequences of 2, 3 and 4 bytes.\<close>

lemma body_2:
  assumes "0xc0 \<le> c" "c < 0xe0"
  shows "utf8_nextCharSafeBody s i c =
    (let v = (c mod 32) * 64 + byte_at s i mod 64 in
     if i + 1 \<le> length s then
       if \<not> is_trail (byte_at s i) \<or> v < 0x80 then (skip_trails 1 s i, - 1) else (i + 1, int v)
     else (skip_trails (length s - i) s i, - 1))"
proof -
  have "COUNT_TRAIL_BYTES c = 1" using assms by (simp add: COUNT_TRAIL_BYTES_def)
  moreover have "\<not> IS_SURROGATE ((c mod 32) * 64 + byte_at s i mod 64)" by (subst IS_SURROGATE_iff) auto
  ultimately show ?thesis using and_mask_mod [of c 5]
    by (simp add: utf8_nextCharSafeBody_def Let_def CBU_SENTINEL_def read_trails_1 [unfolded One_nat_def] utf8_minLegal_def del: read_trails.simps)
qed

lemma body_3:
  assumes "0xe0 \<le> c" "c < 0xf0"
  shows "utf8_nextCharSafeBody s i c =
    (let v = ((c mod 16) * 64 + byte_at s i mod 64) * 64 + byte_at s (i + 1) mod 64 in
     if i + 2 \<le> length s then
       if \<not> is_trail (byte_at s i) \<or> \<not> is_trail (byte_at s (i + 1)) \<or> v < 0x800 \<or> (0xd800 \<le> v \<and> v < 0xe000)
       then (skip_trails 2 s i, - 1) else (i + 2, int v)
     else (skip_trails (length s - i) s i, - 1))"
proof -
  let ?v = "((c mod 16) * 64 + byte_at s i mod 64) * 64 + byte_at s (i + 1) mod 64"
  have "COUNT_TRAIL_BYTES c = 2" using assms by (simp add: COUNT_TRAIL_BYTES_def)
  moreover have "IS_SURROGATE ?v \<longleftrightarrow> 0xd800 \<le> ?v \<and> ?v < 0xe000" by (intro IS_SURROGATE_iff) auto
  ultimately show ?thesis using and_mask_mod [of c 4]
    by (simp add: utf8_nextCharSafeBody_def Let_def CBU_SENTINEL_def read_trails_2 utf8_minLegal_def del: read_trails.simps)
qed

lemma body_4:
  assumes "0xf0 \<le> c" "c < 0xf8"
  shows "utf8_nextCharSafeBody s i c =
    (let c1 = (c mod 8) * 64 + byte_at s i mod 64; v = (c1 * 64 + byte_at s (i + 1) mod 64) * 64 + byte_at s (i + 2) mod 64 in
     if i + 3 \<le> length s then
       if \<not> c1 < 0x110 \<or> \<not> is_trail (byte_at s i) \<or> \<not> is_trail (byte_at s (i + 1)) \<or> \<not> is_trail (byte_at s (i + 2)) \<or> v < 0x10000
       then (skip_trails 3 s i, - 1) else (i + 3, int v)
     else (skip_trails (length s - i) s i, - 1))"
proof -
  let ?c1 = "(c mod 8) * 64 + byte_at s i mod 64"
  let ?v = "(?c1 * 64 + byte_at s (i + 1) mod 64) * 64 + byte_at s (i + 2) mod 64"
  have "COUNT_TRAIL_BYTES c = 3" using assms by (simp add: COUNT_TRAIL_BYTES_def)
  moreover have "IS_SURROGATE ?v \<longleftrightarrow> 0xd800 \<le> ?v \<and> ?v < 0xe000" by (intro IS_SURROGATE_iff) auto
  ultimately show ?thesis using and_mask_mod [of c 3]
    by (auto simp: utf8_nextCharSafeBody_def Let_def CBU_SENTINEL_def read_trails_3 utf8_minLegal_def simp del: read_trails.simps)
qed

text \<open>The four lengths of a sequence.\<close>

lemma IS_LEAD_iff: "IS_LEAD c \<longleftrightarrow> 0xc0 \<le> c \<and> c < 0xfe"
  by (auto simp: IS_LEAD_def)

lemma NEXT_1: "byte_at s i < 0x80 \<Longrightarrow> CBU8_NEXT s i = (i + 1, int (byte_at s i))"
  by (simp add: CBU8_NEXT_def Let_def)

lemma NEXT_lead: "IS_LEAD (byte_at s i) \<Longrightarrow> CBU8_NEXT s i = utf8_nextCharSafeBody s (i + 1) (byte_at s i)"
  by (simp add: CBU8_NEXT_def Let_def IS_LEAD_def)

lemma byte_at_append: "k < length bs \<Longrightarrow> bs ! k < 256 \<Longrightarrow> byte_at (pre @ map to_byte bs @ post) (length pre + k) = bs ! k"
  by (simp add: byte_at_def nth_append unat_to_byte)

lemma mod_above: "(x :: nat) < m \<Longrightarrow> (k * m + x) mod m = x"
  by simp

lemma trail_mod: "(128 + x mod 64) mod 64 = (x :: nat) mod 64"
  using mod_above [of "x mod 64" 64 2] by simp

lemma digits_64:
  "c div 64 * 64 + c mod 64 = (c :: nat)" "c div 4096 * 64 + c div 64 mod 64 = c div 64"
  "c div 262144 * 64 + c div 4096 mod 64 = c div 4096"
proof -
  have d: "c div 4096 = c div 64 div 64" "c div 262144 = c div 4096 div 64" by (simp_all add: div_mult2_eq [symmetric])
  show "c div 64 * 64 + c mod 64 = c" by (rule div_mult_mod_eq)
  show "c div 4096 * 64 + c div 64 mod 64 = c div 64" unfolding d(1) by (rule div_mult_mod_eq)
  show "c div 262144 * 64 + c div 4096 mod 64 = c div 4096" unfolding d(2) by (rule div_mult_mod_eq)
qed

lemma NEXT_encoding:
  assumes "IsValidCodepoint c"
  shows "CBU8_NEXT (pre @ WriteUnicodeCharacter8 c @ post) (length pre) = (length pre + length (WriteUnicodeCharacter8 c), int c)"
proof -
  have c: "c \<le> 0x10FFFF" "c < 0xd800 \<or> 0xe000 \<le> c" using assms by (auto simp: IsValidCodepoint_def)
  let ?s = "pre @ map to_byte (encoding8 c) @ post"
  have at: "byte_at ?s (length pre + k) = encoding8 c ! k" if "k < length (encoding8 c)" for k
    using encoding8_byte [OF c(1), of "encoding8 c ! k"] that by (intro byte_at_append) simp_all
  have at0: "byte_at ?s (length pre) = encoding8 c ! 0" using at [of 0] by (simp add: encoding8_def split: if_splits)
  consider (1) "c < 0x80" | (2) "0x80 \<le> c" "c < 0x800" | (3) "0x800 \<le> c" "c < 0x10000" | (4) "0x10000 \<le> c" by linarith
  then have "CBU8_NEXT ?s (length pre) = (length pre + length (encoding8 c), int c)"
  proof cases
    case 1
    then show ?thesis using at0 NEXT_1 [of ?s "length pre"] by (simp add: encoding8_def)
  next
    case 2
    have e: "encoding8 c = [192 + c div 64, 128 + c mod 64]" using 2 by (simp add: encoding8_def)
    have lead: "byte_at ?s (length pre) = 192 + c div 64" "byte_at ?s (length pre + 1) = 128 + c mod 64"
      using at0 at [of 1] by (simp_all add: e)
    have m: "(192 + c div 64) mod 32 = c div 64" using 2 mod_above [of "c div 64" 32 6] by simp
    have "c div 64 < 32" using 2 by simp
    then show ?thesis using 2 lead m
      by (subst NEXT_lead) (simp_all add: IS_LEAD_iff body_2 Let_def is_trail_def e trail_mod digits_64(1) del: of_nat_add of_nat_mult of_nat_mod of_nat_Suc)
  next
    case 3
    have e: "encoding8 c = [224 + c div 4096, 128 + c div 64 mod 64, 128 + c mod 64]" using 3 by (simp add: encoding8_def)
    have lead: "byte_at ?s (length pre) = 224 + c div 4096" "byte_at ?s (length pre + 1) = 128 + c div 64 mod 64"
      "byte_at ?s (length pre + 2) = 128 + c mod 64" using at0 at [of 1] at [of 2] by (simp_all add: e)
    have m: "(224 + c div 4096) mod 16 = c div 4096" using 3 mod_above [of "c div 4096" 16 14] by simp
    have v: "(c div 4096 * 64 + c div 64 mod 64) * 64 + c mod 64 = c" by (simp only: digits_64)
    have "c div 4096 < 16" using 3 by simp
    then show ?thesis using 3 lead m c(2)
      by (subst NEXT_lead) (auto simp: IS_LEAD_iff body_3 Let_def is_trail_def e trail_mod digits_64 simp del: of_nat_add of_nat_mult of_nat_mod of_nat_Suc)
  next
    case 4
    have e: "encoding8 c = [240 + c div 262144, 128 + c div 4096 mod 64, 128 + c div 64 mod 64, 128 + c mod 64]" using 4 by (simp add: encoding8_def)
    have "length (encoding8 c) = 4" "encoding8 c ! 0 = 240 + c div 262144" "encoding8 c ! 1 = 128 + c div 4096 mod 64"
      "encoding8 c ! 2 = 128 + c div 64 mod 64" "encoding8 c ! 3 = 128 + c mod 64" by (simp_all only: e) simp_all
    note nths = this
    have lead: "byte_at ?s (length pre) = 240 + c div 262144" "byte_at ?s (length pre + 1) = 128 + c div 4096 mod 64"
      "byte_at ?s (length pre + 2) = 128 + c div 64 mod 64" "byte_at ?s (length pre + 3) = 128 + c mod 64"
      using at0 at [of 1] at [of 2] at [of 3] by (simp_all only: nths)
    have m: "(240 + c div 262144) mod 8 = c div 262144" using c(1) mod_above [of "c div 262144" 8 30] by simp
    have v: "((c div 262144 * 64 + c div 4096 mod 64) * 64 + c div 64 mod 64) * 64 + c mod 64 = c" by (simp only: digits_64)
    have bounds: "c div 4096 < 0x110" "c div 262144 < 8" using c(1) by simp_all
    define b where "b = 240 + c div 262144"
    have b: "0xf0 \<le> b" "b < 0xf8" "b mod 8 = c div 262144" "IS_LEAD b" using bounds(2) m by (simp_all add: b_def IS_LEAD_iff)
    have idx: "length pre + 1 + 1 = length pre + 2" "length pre + 1 + 2 = length pre + 3" by simp_all
    have trails: "is_trail (128 + x mod 64)" for x by (simp add: is_trail_def)
    have room: "length pre + 1 + 3 \<le> length ?s" by (simp add: e)
    have "CBU8_NEXT ?s (length pre) = utf8_nextCharSafeBody ?s (length pre + 1) b"
      using NEXT_lead [of ?s "length pre"] lead(1) b(4) by (simp only: b_def)
    also have "\<dots> = (length pre + 1 + 3, int c)"
      unfolding body_4 [OF b(1,2)] Let_def idx lead(2-4) b(3) trail_mod digits_64 using room trails bounds(1) 4 by simp
    finally show ?thesis by (simp add: e)
  qed
  then show ?thesis by (simp add: Write8_encoding [OF c(1)])
qed

lemma take_bytes: "i + k \<le> length s \<Longrightarrow> take k (drop i s) = map (\<lambda>m. to_byte (byte_at s (i + m))) [0..<k]"
  by (rule nth_equalityI) (simp_all add: byte_at_def to_byte_unat)

lemma lead_digits:
  fixes a b t :: nat
  assumes "k * m \<le> a" "a < k * m + m"
  shows "a = k * m + a mod m"
proof -
  have "a div m = k" using assms by (intro div_nat_eqI) (simp_all add: mult.commute)
  then show ?thesis using div_mult_mod_eq [of a m] by simp
qed

lemma trail_digits: "is_trail t \<Longrightarrow> 128 + t mod 64 = t"
  using lead_digits [of 2 64 t] by (simp add: is_trail_def)

lemma two_digits: "(a * 64 + t mod 64) div 64 = (a :: nat)" "(a * 64 + t mod 64) mod 64 = t mod 64"
  by simp_all

lemma three_digits: "((a * 64 + t mod 64) * 64 + u mod 64) div 4096 = (a :: nat)" "((a * 64 + t mod 64) * 64 + u mod 64) div 64 = a * 64 + t mod 64"
proof -
  have d: "x div 4096 = x div 64 div 64" for x :: nat by (simp add: div_mult2_eq [symmetric])
  show "((a * 64 + t mod 64) * 64 + u mod 64) div 4096 = a" by (simp only: d two_digits)
  show "((a * 64 + t mod 64) * 64 + u mod 64) div 64 = a * 64 + t mod 64" by (rule two_digits(1))
qed

lemma four_digits: "(((a * 64 + t mod 64) * 64 + u mod 64) * 64 + v mod 64) div 262144 = (a :: nat)"
  "(((a * 64 + t mod 64) * 64 + u mod 64) * 64 + v mod 64) div 4096 = a * 64 + t mod 64"
proof -
  have d: "x div 262144 = x div 64 div 4096" for x :: nat by (simp add: div_mult2_eq [symmetric])
  show "(((a * 64 + t mod 64) * 64 + u mod 64) * 64 + v mod 64) div 262144 = a" by (simp only: d two_digits three_digits)
  show "(((a * 64 + t mod 64) * 64 + u mod 64) * 64 + v mod 64) div 4096 = a * 64 + t mod 64" by (rule three_digits(1))
qed

lemma digit_bounds:
  fixes a t u :: nat
  shows "a < 16 \<Longrightarrow> t < 64 \<Longrightarrow> u < 64 \<Longrightarrow> (a * 64 + t) * 64 + u < 0x10000"
    "a < 0x110 \<Longrightarrow> t < 64 \<Longrightarrow> u < 64 \<Longrightarrow> (a * 64 + t) * 64 + u < 0x110000"
  by simp_all

text \<open>What is read without an error is the encoding of a valid code point.\<close>

lemma NEXT_valid:
  assumes "CBU8_NEXT s i = (j, code)" "i < length s" "0 \<le> code"
  shows "\<exists>c. code = int c \<and> IsValidCodepoint c \<and> j \<le> length s \<and> i < j \<and> take (j - i) (drop i s) = WriteUnicodeCharacter8 c"
proof -
  let ?b = "byte_at s i" and ?t = "byte_at s (i + 1)" and ?u = "byte_at s (i + 2)" and ?v = "byte_at s (i + 3)"
  have b: "?b < 256" by (rule byte_at_bound)
  consider (1) "?b < 0x80" | (stray) "0x80 \<le> ?b" "?b < 0xc0 \<or> 0xf8 \<le> ?b" | (2) "0xc0 \<le> ?b" "?b < 0xe0" | (3) "0xe0 \<le> ?b" "?b < 0xf0"
    | (4) "0xf0 \<le> ?b" "?b < 0xf8" by linarith
  then show ?thesis
  proof cases
    case 1
    then have "code = int ?b" "j = i + 1" using assms(1) by (simp_all add: NEXT_1)
    moreover have "take 1 (drop i s) = [to_byte ?b]" using assms(2) by (subst take_bytes) simp_all
    ultimately show ?thesis using 1 assms(2) by (intro exI [of _ ?b]) (simp add: IsValidCodepoint_def WriteUnicodeCharacter8_def)
  next
    case stray
    then have "code = - 1" using assms(1)
      by (auto simp: CBU8_NEXT_def Let_def IS_LEAD_iff utf8_nextCharSafeBody_def COUNT_TRAIL_BYTES_def CBU_SENTINEL_def split: if_splits)
    then show ?thesis using assms(3) by simp
  next
    case 2
    let ?c = "(?b mod 32) * 64 + ?t mod 64"
    have "CBU8_NEXT s i = utf8_nextCharSafeBody s (i + 1) ?b" using 2 by (intro NEXT_lead) (simp add: IS_LEAD_iff)
    then have r: "i + 2 \<le> length s" "is_trail ?t" "0x80 \<le> ?c" "code = int ?c" "j = i + 2"
      using assms(1,3) by (auto simp: body_2 [OF 2] Let_def split: if_splits)
    have "?b mod 32 < 32" "?t mod 64 < 64" by simp_all
    then have c: "?c < 0x800" by linarith
    have "?c div 64 = ?b mod 32" "?c mod 64 = ?t mod 64" by (rule two_digits)+
    moreover have "192 + ?b mod 32 = ?b" using lead_digits [of 6 32 ?b] 2 by simp
    ultimately have "encoding8 ?c = [?b, ?t]" using c r(3) trail_digits [OF r(2)] by (simp add: encoding8_def)
    moreover have "take 2 (drop i s) = map to_byte [?b, ?t]" using r(1) by (subst take_bytes) (simp_all add: upt_conv_Cons)
    ultimately show ?thesis using c r(1,4,5) Write8_encoding [of ?c]
      by (intro exI [of _ ?c] conjI) (simp_all add: IsValidCodepoint_def)
  next
    case 3
    let ?c = "((?b mod 16) * 64 + ?t mod 64) * 64 + ?u mod 64"
    have "CBU8_NEXT s i = utf8_nextCharSafeBody s (i + 1) ?b" using 3 by (intro NEXT_lead) (simp add: IS_LEAD_iff)
    then have r: "i + 3 \<le> length s" "is_trail ?t" "is_trail ?u" "0x800 \<le> ?c" "\<not> (0xd800 \<le> ?c \<and> ?c < 0xe000)" "code = int ?c" "j = i + 3"
      using assms(1,3) by (auto simp: body_3 [OF 3] Let_def split: if_splits)
    have "?b mod 16 < 16" "?t mod 64 < 64" "?u mod 64 < 64" by simp_all
    then have c: "?c < 0x10000" by (rule digit_bounds)
    have d: "?c div 4096 = ?b mod 16" "?c div 64 mod 64 = ?t mod 64" "?c mod 64 = ?u mod 64"
      by (rule three_digits, simp only: three_digits two_digits, rule two_digits)
    have lead: "224 + ?b mod 16 = ?b" using lead_digits [of 14 16 ?b] 3 by simp
    have "encoding8 ?c = [224 + ?c div 4096, 128 + ?c div 64 mod 64, 128 + ?c mod 64]"
      unfolding encoding8_def using c r(4) by (simp only: if_False not_less [symmetric] if_True) simp
    also have "\<dots> = [?b, ?t, ?u]" unfolding d lead trail_digits [OF r(2)] trail_digits [OF r(3)] ..
    finally have e: "encoding8 ?c = [?b, ?t, ?u]" .
    have "take 3 (drop i s) = map to_byte [?b, ?t, ?u]" using r(1) by (subst take_bytes) (simp_all add: upt_conv_Cons)
    moreover have "?c \<le> 0x10FFFF" using c by linarith
    moreover have "IsValidCodepoint ?c" using c r(5) by (simp only: IsValidCodepoint_def) linarith
    ultimately show ?thesis using r(1,6,7) Write8_encoding [of ?c] e by (intro exI [of _ ?c] conjI) simp_all
  next
    case 4
    let ?c1 = "(?b mod 8) * 64 + ?t mod 64"
    let ?c = "(?c1 * 64 + ?u mod 64) * 64 + ?v mod 64"
    have "CBU8_NEXT s i = utf8_nextCharSafeBody s (i + 1) ?b" using 4 by (intro NEXT_lead) (simp add: IS_LEAD_iff)
    then have r: "i + 4 \<le> length s" "?c1 < 0x110" "is_trail ?t" "is_trail ?u" "is_trail ?v" "0x10000 \<le> ?c" "code = int ?c" "j = i + 4"
      using assms(1,3) by (auto simp: body_4 [OF 4] Let_def numeral_3_eq_3 split: if_splits)
    have "?u mod 64 < 64" "?v mod 64 < 64" by simp_all
    then have c: "?c < 0x110000" by (rule digit_bounds(2) [OF r(2)])
    have d: "?c div 262144 = ?b mod 8" "?c div 4096 mod 64 = ?t mod 64" "?c div 64 mod 64 = ?u mod 64" "?c mod 64 = ?v mod 64"
      by (rule four_digits, simp only: four_digits two_digits, simp only: two_digits, rule two_digits)
    have lead: "240 + ?b mod 8 = ?b" using lead_digits [of 30 8 ?b] 4 by simp
    have "encoding8 ?c = [240 + ?c div 262144, 128 + ?c div 4096 mod 64, 128 + ?c div 64 mod 64, 128 + ?c mod 64]"
      unfolding encoding8_def using r(6) by (simp only: if_False not_less [symmetric] if_True) simp
    also have "\<dots> = [?b, ?t, ?u, ?v]" unfolding d lead trail_digits [OF r(3)] trail_digits [OF r(4)] trail_digits [OF r(5)] ..
    finally have e: "encoding8 ?c = [?b, ?t, ?u, ?v]" .
    have "take 4 (drop i s) = map to_byte [?b, ?t, ?u, ?v]" using r(1) by (subst take_bytes) (simp_all add: upt_conv_Cons numeral_3_eq_3)
    moreover have "?c \<le> 0x10FFFF" using c by linarith
    moreover have "IsValidCodepoint ?c" using c r(6) by (simp only: IsValidCodepoint_def) linarith
    ultimately show ?thesis using r(1,7,8) Write8_encoding [of ?c] e by (intro exI [of _ ?c] conjI) simp_all
  qed
qed

section \<open>Texts\<close>

text \<open>A text is a list of code points; its encodings.\<close>

abbreviation utf8 :: "nat list \<Rightarrow> byte list" where
  "utf8 cs \<equiv> concat (map WriteUnicodeCharacter8 cs)"

abbreviation utf16 :: "nat list \<Rightarrow> char16 list" where
  "utf16 cs \<equiv> concat (map WriteUnicodeCharacter16 cs)"

lemma Write32 [simp]: "concat (map WriteUnicodeCharacter32 cs) = cs"
  by (induction cs) (simp_all add: WriteUnicodeCharacter32_def)

lemma Write8_nonempty: "WriteUnicodeCharacter8 c \<noteq> []"
  by (simp add: WriteUnicodeCharacter8_def CBU8_APPEND_UNSAFE_def)

lemma valid_small: "IsValidCodepoint c \<Longrightarrow> c < 2 ^ 32"
  by (auto simp: IsValidCodepoint_def)

lemma codepoint_uint32: "c < 2 ^ 32 \<Longrightarrow> to_uint32 (int c) = c"
  by (simp add: to_uint32_def nat_mod_distrib)

text \<open>How a source lies before and behind an index.\<close>

definition source_at :: "units \<Rightarrow> nat \<Rightarrow> nat list \<Rightarrow> bool" where
  "source_at src i cs \<longleftrightarrow> (case src of
     U8 s \<Rightarrow> \<exists>pre. s = pre @ utf8 cs \<and> i = length pre
   | U16 s \<Rightarrow> \<exists>pre. s = pre @ utf16 cs \<and> i = length pre
   | U32 s \<Rightarrow> \<exists>pre. s = pre @ cs \<and> i = length pre)"

lemma Write16_pair:
  assumes "0x10000 \<le> c" "c \<le> 0x10FFFF"
  defines "lead \<equiv> c div 1024 + 0xd7c0" and "trail \<equiv> 0xdc00 + c mod 1024"
  shows "WriteUnicodeCharacter16 c = [lead, trail]" "IS_SURROGATE lead" "IS_SURROGATE_LEAD lead" "CBU16_IS_TRAIL trail"
    "CBU16_GET_SUPPLEMENTARY lead trail = c"
proof -
  have l: "lead < 0xdc00" "0xd800 \<le> lead" using assms(1,2) by (simp_all add: lead_def)
  have t: "0xdc00 \<le> trail" "trail < 0xe000" by (simp_all add: trail_def)
  show "WriteUnicodeCharacter16 c = [lead, trail]" using assms(1) l t
    by (simp add: WriteUnicodeCharacter16_def CBU16_APPEND_UNSAFE_def drop_bit_eq_div and_1023 or_bits lead_def trail_def)
  show "IS_SURROGATE lead" using l by (subst IS_SURROGATE_iff) simp_all
  have "lead div 1024 = 54" using l by (intro div_nat_eqI) simp_all
  then show "IS_SURROGATE_LEAD lead" by (simp add: IS_SURROGATE_LEAD_iff)
  show "CBU16_IS_TRAIL trail" using t by (subst CBU16_IS_TRAIL_iff) simp_all
  have "c div 1024 * 1024 + c mod 1024 = c" by (rule div_mult_mod_eq)
  then show "CBU16_GET_SUPPLEMENTARY lead trail = c"
    by (simp add: CBU16_GET_SUPPLEMENTARY_def push_bit_eq_mult lead_def trail_def)
qed

lemma Write16_single: "c \<le> 0xffff \<Longrightarrow> WriteUnicodeCharacter16 c = [c]"
  by (simp add: WriteUnicodeCharacter16_def)

lemma Read_source:
  assumes "source_at src i (c # cs)" "IsValidCodepoint c"
  shows "\<exists>j. ReadUnicodeCharacter src i = (True, c, j) \<and> source_at src (j + 1) cs \<and> i < units_length src"
proof (cases src)
  case (U8 s)
  then obtain pre where s: "s = pre @ WriteUnicodeCharacter8 c @ utf8 cs" "i = length pre"
    using assms(1) by (auto simp: source_at_def)
  have n: "CBU8_NEXT s i = (length (pre @ WriteUnicodeCharacter8 c), int c)" using NEXT_encoding [OF assms(2), of pre "utf8 cs"] s by simp
  have "length (WriteUnicodeCharacter8 c) > 0" using Write8_nonempty by simp
  then show ?thesis using n s assms(2) U8 codepoint_uint32 [OF valid_small [OF assms(2)]]
    by (auto simp: source_at_def intro: exI [of _ "pre @ WriteUnicodeCharacter8 c"])
next
  case (U32 s)
  then obtain pre where s: "s = pre @ c # cs" "i = length pre" using assms(1) by (auto simp: source_at_def)
  then show ?thesis using assms(2) U32 by (auto simp: source_at_def intro: exI [of _ "pre @ [c]"])
next
  case (U16 s)
  then obtain pre where s: "s = pre @ WriteUnicodeCharacter16 c @ utf16 cs" "i = length pre"
    using assms(1) by (auto simp: source_at_def)
  show ?thesis
  proof (cases "c \<le> 0xffff")
    case True
    have "\<not> IS_SURROGATE c" using assms(2) by (subst IS_SURROGATE_iff) (auto simp: IsValidCodepoint_def)
    then show ?thesis using True s assms(2) U16 by (auto simp: source_at_def Write16_single intro: exI [of _ "pre @ [c]"])
  next
    case False
    then have c: "0x10000 \<le> c" "c \<le> 0x10FFFF" using assms(2) by (auto simp: IsValidCodepoint_def)
    note w = Write16_pair [OF c]
    let ?lead = "c div 1024 + 0xd7c0" and ?trail = "0xdc00 + c mod 1024"
    have at: "s ! i = ?lead" "s ! (i + 1) = ?trail" "i + 1 < length s" using s by (simp_all add: w(1) nth_append)
    have "ReadUnicodeCharacter src i = (True, c, i + 1)"
      using w(2-5) at assms(2) by (simp only: U16 ReadUnicodeCharacter.simps) simp
    moreover have "source_at src (i + 1 + 1) cs" using s U16 w(1) by (auto simp: source_at_def intro: exI [of _ "pre @ [?lead, ?trail]"])
    ultimately show ?thesis using at(3) U16 by auto
  qed
qed

lemma source_end: "source_at src i [] \<Longrightarrow> i = units_length src"
  by (cases src) (auto simp: source_at_def)

lemma convert_loop_text:
  assumes "source_at src i cs" "list_all IsValidCodepoint cs"
  shows "convert_loop src Write i ok out = (ok, out @ concat (map Write cs))"
  using assms
proof (induction cs arbitrary: i out)
  case Nil
  then show ?case using source_end [OF Nil.prems(1)] by (subst convert_loop.simps) simp
next
  case (Cons c cs)
  then obtain j where j: "ReadUnicodeCharacter src i = (True, c, j)" "source_at src (j + 1) cs" "i < units_length src"
    using Read_source [OF Cons.prems(1)] by auto
  then show ?case using Cons.IH [OF j(2)] Cons.prems(2) by (subst convert_loop.simps) simp
qed

lemma ConvertUnicode_text:
  assumes "src = U8 (utf8 cs) \<or> src = U16 (utf16 cs) \<or> src = U32 cs" "list_all IsValidCodepoint cs"
  shows "ConvertUnicode src Write = (True, concat (map Write cs))"
proof -
  have "source_at src 0 cs" using assms(1) by (auto simp: source_at_def)
  from convert_loop_text [OF this assms(2), where out = "[]"] show ?thesis by (simp add: ConvertUnicode_def)
qed

lemma NEXT_sentinel:
  assumes "CBU8_NEXT s i = (j, code)"
  shows "code = - 1 \<or> 0 \<le> code"
proof -
  have "snd (utf8_nextCharSafeBody s i c) = - 1 \<or> 0 \<le> snd (utf8_nextCharSafeBody s i c)" for i c
    by (auto simp: utf8_nextCharSafeBody_def Let_def CBU_SENTINEL_def split: prod.split)
  then show ?thesis using assms by (auto simp: CBU8_NEXT_def Let_def CBU_SENTINEL_def split: if_splits) (metis snd_conv)
qed

lemma valid_character: "IsValidCharacter c \<Longrightarrow> IsValidCodepoint c"
  by (auto simp: IsValidCharacter_def IsValidCodepoint_def)

lemma utf8_loop_exact:
  "i \<le> length s \<Longrightarrow> utf8_loop s i \<longleftrightarrow> (\<exists>cs. list_all IsValidCharacter cs \<and> drop i s = utf8 cs)"
proof (induction s i rule: utf8_loop.induct)
  case (1 s i)
  obtain j code where n: "CBU8_NEXT s i = (j, code)" by (cases "CBU8_NEXT s i")
  show ?case
  proof (cases "i < length s")
    case False
    then show ?thesis using 1(2) by (subst utf8_loop.simps) (auto intro: exI [of _ "[]"])
  next
    case True
    have unfold: "utf8_loop s i \<longleftrightarrow> IsValidCharacter (to_uint32 code) \<and> utf8_loop s j"
      using True n by (subst utf8_loop.simps) auto
    show ?thesis
    proof
      assume "utf8_loop s i"
      then have v: "IsValidCharacter (to_uint32 code)" "utf8_loop s j" using unfold by simp_all
      have "code \<noteq> - 1" using v(1) by (auto simp: IsValidCharacter_def to_uint32_def)
      then obtain c where c: "code = int c" "IsValidCodepoint c" "j \<le> length s" "i < j" "take (j - i) (drop i s) = WriteUnicodeCharacter8 c"
        using NEXT_valid [OF n True] NEXT_sentinel [OF n] by auto
      then have vc: "IsValidCharacter c" using v(1) codepoint_uint32 [OF valid_small] by simp
      obtain cs where cs: "list_all IsValidCharacter cs" "drop j s = utf8 cs"
        using 1(1) [OF True n [symmetric] refl] v c(3) by auto
      have "drop i s = take (j - i) (drop i s) @ drop j s" using c(4) append_take_drop_id [of "j - i" "drop i s"] by simp
      then have "drop i s = utf8 (c # cs)" using c(5) cs(2) by simp
      then show "\<exists>cs. list_all IsValidCharacter cs \<and> drop i s = utf8 cs" using cs(1) vc by (intro exI [of _ "c # cs"]) simp
    next
      assume "\<exists>cs. list_all IsValidCharacter cs \<and> drop i s = utf8 cs"
      then obtain cs where cs: "list_all IsValidCharacter cs" "drop i s = utf8 cs" by blast
      then obtain c ds where c: "cs = c # ds" using True by (cases cs) auto
      have s: "s = take i s @ WriteUnicodeCharacter8 c @ utf8 ds" using cs(2) c append_take_drop_id [of i s] by simp
      have i: "length (take i s) = i" using True by simp
      have "IsValidCodepoint c" using cs(1) c valid_character by simp
      from NEXT_encoding [OF this, of "take i s" "utf8 ds"] have nj: "CBU8_NEXT s i = (i + length (WriteUnicodeCharacter8 c), int c)"
        unfolding s [symmetric] i .
      then have code: "code = int c" "j = i + length (WriteUnicodeCharacter8 c)" using n by simp_all
      have "drop (length (take i s) + length (WriteUnicodeCharacter8 c)) (take i s @ WriteUnicodeCharacter8 c @ utf8 ds) = utf8 ds"
        "length (take i s) + length (WriteUnicodeCharacter8 c) \<le> length (take i s @ WriteUnicodeCharacter8 c @ utf8 ds)"
        by (simp_all del: length_take)
      then have "drop j s = utf8 ds" "j \<le> length s" unfolding s [symmetric] i code(2) .
      moreover have "IsValidCharacter (to_uint32 code)"
        using cs(1) c code(1) codepoint_uint32 [OF valid_small [OF valid_character]] by simp
      ultimately show "utf8_loop s i" using 1(1) [OF True n [symmetric] refl] cs(1) c unfold by auto
    qed
  qed
qed

text \<open>
  C16 (equivalence): \<open>IsStringUTF8\<close> accepts exactly the encodings of texts of characters: no
  truncated, overlong or surrogate sequences, no code points beyond Unicode and no non-characters.
\<close>

theorem is_string_utf8_exact:
  "IsStringUTF8 s \<longleftrightarrow> (\<exists>cs. list_all IsValidCharacter cs \<and> s = concat (map WriteUnicodeCharacter8 cs))"
  using utf8_loop_exact [of 0 s] by (simp add: IsStringUTF8_def)

text \<open>
  C17 (roundtrip): texts of valid code points are converted exactly between UTF-8, UTF-16 and UTF-32, in every direction.
\<close>

theorem utf_conversions_exact:
  assumes "list_all IsValidCodepoint cs"
  shows "WideToUTF8 cs = utf8 cs \<and> UTF8ToWide (utf8 cs) = cs \<and> WideToUTF16 cs = utf16 cs \<and> UTF16ToWide (utf16 cs) = cs \<and>
    UTF8ToUTF16 (utf8 cs) = utf16 cs \<and> UTF16ToUTF8 (utf16 cs) = utf8 cs"
  by (simp add: WideToUTF8_def UTF8ToWide_def WideToUTF16_def UTF16ToWide_def UTF8ToUTF16_def UTF16ToUTF8_def
    ConvertUnicode_text [OF _ assms])

theorem utf_conversions_exact_witness:
  "UTF8ToUTF16 [0xF0, 0x9F, 0x98, 0x80] = [0xD83D, 0xDE00]"
  using utf_conversions_exact [of "[0x1F600]"]
  by (simp add: IsValidCodepoint_def Write8_encoding encoding8_def to_byte_def Write16_pair(1))

end
