(* ===== verification/Values.thy ===== *)
theory Values
  imports UnicodeProofs "HOL-Library.List_Lexorder"
begin

text \<open>
  The tree of values behind preferences, JSON and messages (\<open>src/base/values.cc\<close>). A value owns its
  children, so a value is a tree, and a pointer to a child is the place of the child in the tree: an operation that changes a
  child through a pointer stores the changed child back in its place. A \<open>std::map\<close> is the list of its entries in the order of
  the keys (the bytes of a \<open>std::string\<close> are compared as unsigned numbers). \<open>None\<close> is a failed \<open>DCHECK\<close>.
  Doubles are a parameter \<open>'d\<close> of the model.
\<close>

section \<open>Values\<close>

type_synonym key = "byte list"

datatype 'd Value =
    NullValue
  | BooleanValue bool
  | IntegerValue int32
  | DoubleValue 'd
  | StringValue "byte list"
  | BinaryValue "byte list"
  | DictionaryValue "(key \<times> 'd Value) list"
  | ListValue "'d Value list"

type_synonym 'd dictionary = "(key \<times> 'd Value) list"

definition CreateStringValue :: "byte list \<Rightarrow> 'd Value option" where
  "CreateStringValue in_value = do { guard (IsStringUTF8 in_value); Some (StringValue in_value) }"

definition CreateStringValue16 :: "char16 list \<Rightarrow> 'd Value" where
  "CreateStringValue16 in_value = StringValue (UTF16ToUTF8 in_value)"

text \<open>The conversions of a value: the result is the value written to \<open>out_value\<close>, when the method returns true.\<close>

fun GetAsBoolean :: "'d Value \<Rightarrow> bool option" where
  "GetAsBoolean (BooleanValue b) = Some b"
| "GetAsBoolean _ = None"

fun GetAsInteger :: "'d Value \<Rightarrow> int32 option" where
  "GetAsInteger (IntegerValue i) = Some i"
| "GetAsInteger _ = None"

fun GetAsDouble :: "(int32 \<Rightarrow> 'd) \<Rightarrow> 'd Value \<Rightarrow> 'd option" where
  "GetAsDouble double_of (DoubleValue d) = Some d"
| "GetAsDouble double_of (IntegerValue i) = Some (double_of i)"
| "GetAsDouble double_of _ = None"

fun GetAsString :: "'d Value \<Rightarrow> byte list option" where
  "GetAsString (StringValue s) = Some s"
| "GetAsString _ = None"

definition GetAsString16 :: "'d Value \<Rightarrow> char16 list option" where
  "GetAsString16 v = map_option UTF8ToUTF16 (GetAsString v)"

fun GetAsList :: "'d Value \<Rightarrow> 'd Value list option" where
  "GetAsList (ListValue l) = Some l"
| "GetAsList _ = None"

fun as_dictionary :: "'d Value \<Rightarrow> 'd dictionary option" where
  "as_dictionary (DictionaryValue d) = Some d"
| "as_dictionary _ = None"

fun as_binary :: "'d Value \<Rightarrow> byte list option" where
  "as_binary (BinaryValue b) = Some b"
| "as_binary _ = None"

section \<open>The map of a dictionary\<close>

text \<open>\<open>dictionary_[key] = in_value\<close> and \<open>dictionary_.erase\<close>.\<close>

fun map_put :: "key \<Rightarrow> 'v \<Rightarrow> (key \<times> 'v) list \<Rightarrow> (key \<times> 'v) list" where
  "map_put key v [] = [(key, v)]"
| "map_put key v ((k, w) # m) =
     (if key = k then (k, v) # m else if key < k then (key, v) # (k, w) # m else (k, w) # map_put key v m)"

definition map_erase :: "key \<Rightarrow> (key \<times> 'v) list \<Rightarrow> (key \<times> 'v) list" where
  "map_erase key m = filter (\<lambda>e. fst e \<noteq> key) m"

section \<open>Dictionaries\<close>

definition Dictionary_Clear :: "'d dictionary \<Rightarrow> 'd dictionary" where
  "Dictionary_Clear d = []"

definition HasKey :: "'d dictionary \<Rightarrow> key \<Rightarrow> bool option" where
  "HasKey d key = do { guard (IsStringUTF8 key); Some (map_of d key \<noteq> None) }"

definition SetWithoutPathExpansion :: "'d dictionary \<Rightarrow> key \<Rightarrow> 'd Value \<Rightarrow> 'd dictionary option" where
  "SetWithoutPathExpansion d key in_value = do { _ \<leftarrow> HasKey d key; Some (map_put key in_value d) }"

definition GetWithoutPathExpansion :: "'d dictionary \<Rightarrow> key \<Rightarrow> 'd Value option option" where
  "GetWithoutPathExpansion d key = do { guard (IsStringUTF8 key); Some (map_of d key) }"

definition GetIntegerWithoutPathExpansion :: "'d dictionary \<Rightarrow> key \<Rightarrow> int32 option option" where
  "GetIntegerWithoutPathExpansion d key = do { r \<leftarrow> GetWithoutPathExpansion d key; Some (Option.bind r GetAsInteger) }"

definition GetDoubleWithoutPathExpansion :: "(int32 \<Rightarrow> 'd) \<Rightarrow> 'd dictionary \<Rightarrow> key \<Rightarrow> 'd option option" where
  "GetDoubleWithoutPathExpansion double_of d key =
     do { r \<leftarrow> GetWithoutPathExpansion d key; Some (Option.bind r (GetAsDouble double_of)) }"

definition GetStringWithoutPathExpansion :: "'d dictionary \<Rightarrow> key \<Rightarrow> byte list option option" where
  "GetStringWithoutPathExpansion d key = do { r \<leftarrow> GetWithoutPathExpansion d key; Some (Option.bind r GetAsString) }"

definition GetString16WithoutPathExpansion :: "'d dictionary \<Rightarrow> key \<Rightarrow> char16 list option option" where
  "GetString16WithoutPathExpansion d key = do { r \<leftarrow> GetWithoutPathExpansion d key; Some (Option.bind r GetAsString16) }"

definition GetDictionaryWithoutPathExpansion :: "'d dictionary \<Rightarrow> key \<Rightarrow> 'd dictionary option option" where
  "GetDictionaryWithoutPathExpansion d key = do { r \<leftarrow> GetWithoutPathExpansion d key; Some (Option.bind r as_dictionary) }"

definition GetListWithoutPathExpansion :: "'d dictionary \<Rightarrow> key \<Rightarrow> 'd Value list option option" where
  "GetListWithoutPathExpansion d key = do { r \<leftarrow> GetWithoutPathExpansion d key; Some (Option.bind r GetAsList) }"

definition is_dot :: "byte \<Rightarrow> bool" where
  "is_dot b = (b = 46)"

lemma find_index_less: "find_index P xs = Some p \<Longrightarrow> p < length xs"
  using find_index_SomeD by blast

text \<open>\<open>Get\<close> (its check, its loop) and \<open>GetDictionary\<close>, which call each other.\<close>

function (sequential) Dictionary_Get :: "'d dictionary \<Rightarrow> byte list \<Rightarrow> 'd Value option option"
  and Get_loop :: "'d dictionary \<Rightarrow> byte list \<Rightarrow> 'd Value option option"
  and Dictionary_GetDictionary :: "'d dictionary \<Rightarrow> byte list \<Rightarrow> 'd dictionary option option"
where
  "Dictionary_Get d path = do { guard (IsStringUTF8 path); Get_loop d path }"
| "Get_loop d current_path =
     (case find_index is_dot current_path of
        None \<Rightarrow> GetWithoutPathExpansion d current_path
      | Some delimiter_position \<Rightarrow>
          do { child \<leftarrow> Dictionary_GetDictionary d (take delimiter_position current_path);
               case child of None \<Rightarrow> Some None
               | Some child_dictionary \<Rightarrow> Get_loop child_dictionary (drop (delimiter_position + 1) current_path) })"
| "Dictionary_GetDictionary d path = do { r \<leftarrow> Dictionary_Get d path; Some (Option.bind r as_dictionary) }"
  by pat_completeness auto
termination
  by (relation "measures [\<lambda>x. case x of Inl (d, p) \<Rightarrow> length p | Inr (Inl (d, p)) \<Rightarrow> length p | Inr (Inr (d, p)) \<Rightarrow> length p,
      \<lambda>x. case x of Inl _ \<Rightarrow> 1 | Inr (Inl _) \<Rightarrow> 0 | Inr (Inr _) \<Rightarrow> 2]")
    (auto dest!: find_index_less)

declare Dictionary_Get.simps [simp del] Get_loop.simps [simp del] Dictionary_GetDictionary.simps [simp del]

definition Dictionary_GetBoolean :: "'d dictionary \<Rightarrow> byte list \<Rightarrow> bool option option" where
  "Dictionary_GetBoolean d path = do { r \<leftarrow> Dictionary_Get d path; Some (Option.bind r GetAsBoolean) }"

definition Dictionary_GetInteger :: "'d dictionary \<Rightarrow> byte list \<Rightarrow> int32 option option" where
  "Dictionary_GetInteger d path = do { r \<leftarrow> Dictionary_Get d path; Some (Option.bind r GetAsInteger) }"

definition Dictionary_GetDouble :: "(int32 \<Rightarrow> 'd) \<Rightarrow> 'd dictionary \<Rightarrow> byte list \<Rightarrow> 'd option option" where
  "Dictionary_GetDouble double_of d path = do { r \<leftarrow> Dictionary_Get d path; Some (Option.bind r (GetAsDouble double_of)) }"

definition Dictionary_GetString :: "'d dictionary \<Rightarrow> byte list \<Rightarrow> byte list option option" where
  "Dictionary_GetString d path = do { r \<leftarrow> Dictionary_Get d path; Some (Option.bind r GetAsString) }"

definition Dictionary_GetString16 :: "'d dictionary \<Rightarrow> byte list \<Rightarrow> char16 list option option" where
  "Dictionary_GetString16 d path = do { r \<leftarrow> Dictionary_Get d path; Some (Option.bind r GetAsString16) }"

definition IsStringASCII :: "byte list \<Rightarrow> bool" where
  "IsStringASCII str = list_all (\<lambda>b. unat b \<le> 0x7f) str"

text \<open>A string with other characters is \<open>NOTREACHED\<close>.\<close>

definition Dictionary_GetStringASCII :: "'d dictionary \<Rightarrow> byte list \<Rightarrow> byte list option option" where
  "Dictionary_GetStringASCII d path =
     do { r \<leftarrow> Dictionary_GetString d path;
          case r of None \<Rightarrow> Some None
          | Some str \<Rightarrow> do { guard (IsStringASCII str); Some (Some str) } }"

definition Dictionary_GetBinary :: "'d dictionary \<Rightarrow> byte list \<Rightarrow> byte list option option" where
  "Dictionary_GetBinary d path = do { r \<leftarrow> Dictionary_Get d path; Some (Option.bind r as_binary) }"

definition Dictionary_GetList :: "'d dictionary \<Rightarrow> byte list \<Rightarrow> 'd Value list option option" where
  "Dictionary_GetList d path = do { r \<leftarrow> Dictionary_Get d path; Some (Option.bind r GetAsList) }"

text \<open>The loop of \<open>Set\<close>: the child on the path is changed in place, or a new one is attached.\<close>

function Set_loop :: "'d dictionary \<Rightarrow> byte list \<Rightarrow> 'd Value \<Rightarrow> 'd dictionary option" where
  "Set_loop d current_path in_value =
     (case find_index is_dot current_path of
        None \<Rightarrow> SetWithoutPathExpansion d current_path in_value
      | Some delimiter_position \<Rightarrow>
          let key = take delimiter_position current_path;
              rest = drop (delimiter_position + 1) current_path
          in do { child \<leftarrow> Dictionary_GetDictionary d key;
                  case child of
                    Some child_dictionary \<Rightarrow>
                      do { changed \<leftarrow> Set_loop child_dictionary rest in_value;
                           Some (map_put key (DictionaryValue changed) d) }
                  | None \<Rightarrow>
                      do { d \<leftarrow> SetWithoutPathExpansion d key (DictionaryValue []);
                           changed \<leftarrow> Set_loop [] rest in_value;
                           Some (map_put key (DictionaryValue changed) d) } })"
  by pat_completeness auto
termination
  by (relation "measure (\<lambda>(d, p, v). length p)") (auto dest!: find_index_less)

declare Set_loop.simps [simp del]

definition Dictionary_Set :: "'d dictionary \<Rightarrow> byte list \<Rightarrow> 'd Value \<Rightarrow> 'd dictionary option" where
  "Dictionary_Set d path in_value = do { guard (IsStringUTF8 path); Set_loop d path in_value }"

definition SetBoolean :: "'d dictionary \<Rightarrow> byte list \<Rightarrow> bool \<Rightarrow> 'd dictionary option" where
  "SetBoolean d path in_value = Dictionary_Set d path (BooleanValue in_value)"

definition SetInteger :: "'d dictionary \<Rightarrow> byte list \<Rightarrow> int32 \<Rightarrow> 'd dictionary option" where
  "SetInteger d path in_value = Dictionary_Set d path (IntegerValue in_value)"

definition SetDouble :: "'d dictionary \<Rightarrow> byte list \<Rightarrow> 'd \<Rightarrow> 'd dictionary option" where
  "SetDouble d path in_value = Dictionary_Set d path (DoubleValue in_value)"

definition SetString :: "'d dictionary \<Rightarrow> byte list \<Rightarrow> byte list \<Rightarrow> 'd dictionary option" where
  "SetString d path in_value = do { v \<leftarrow> CreateStringValue in_value; Dictionary_Set d path v }"

definition SetString16 :: "'d dictionary \<Rightarrow> byte list \<Rightarrow> char16 list \<Rightarrow> 'd dictionary option" where
  "SetString16 d path in_value = Dictionary_Set d path (CreateStringValue16 in_value)"

text \<open>Removing returns whether there was a value, the value, and the dictionary.\<close>

definition RemoveWithoutPathExpansion :: "'d dictionary \<Rightarrow> key \<Rightarrow> ('d Value option \<times> 'd dictionary) option" where
  "RemoveWithoutPathExpansion d key = do {
     guard (IsStringUTF8 key);
     Some (case map_of d key of None \<Rightarrow> (None, d) | Some entry \<Rightarrow> (Some entry, map_erase key d)) }"

text \<open>The tree after the dictionary that \<open>GetDictionary\<close> finds under a path has become another one.\<close>

function store_dictionary :: "'d dictionary \<Rightarrow> byte list \<Rightarrow> 'd dictionary \<Rightarrow> 'd dictionary" where
  "store_dictionary d path changed =
     (case find_index is_dot path of
        None \<Rightarrow> map_put path (DictionaryValue changed) d
      | Some p \<Rightarrow>
          (case Option.bind (map_of d (take p path)) as_dictionary of
             None \<Rightarrow> d
           | Some child \<Rightarrow> map_put (take p path) (DictionaryValue (store_dictionary child (drop (p + 1) path) changed)) d))"
  by pat_completeness auto
termination
  by (relation "measure (\<lambda>(d, p, c). length p)") (auto dest!: find_index_less)

declare store_dictionary.simps [simp del]

text \<open>\<open>rfind\<close> of a character in a string.\<close>

definition last_index :: "('a \<Rightarrow> bool) \<Rightarrow> 'a list \<Rightarrow> nat option" where
  "last_index P xs = map_option (\<lambda>k. length xs - 1 - k) (find_index P (rev xs))"

definition Dictionary_Remove :: "'d dictionary \<Rightarrow> byte list \<Rightarrow> ('d Value option \<times> 'd dictionary) option" where
  "Dictionary_Remove d path = do {
     guard (IsStringUTF8 path);
     case last_index is_dot path of
       None \<Rightarrow> RemoveWithoutPathExpansion d path
     | Some delimiter_position \<Rightarrow>
         do { r \<leftarrow> Dictionary_GetDictionary d (take delimiter_position path);
              case r of None \<Rightarrow> Some (None, d)
              | Some current_dictionary \<Rightarrow>
                  do { (v, changed) \<leftarrow> RemoveWithoutPathExpansion current_dictionary (drop (delimiter_position + 1) path);
                       Some (v, store_dictionary d (take delimiter_position path) changed) } } }"

section \<open>Copies and comparison\<close>

text \<open>The entries of a dictionary are visited through the iterator over its keys; the value under such a key is its entry.\<close>

fun DeepCopy :: "'d Value \<Rightarrow> 'd Value option"
  and copy_entries :: "'d dictionary \<Rightarrow> 'd dictionary \<Rightarrow> 'd dictionary option"
  and copy_list :: "'d Value list \<Rightarrow> 'd Value list \<Rightarrow> 'd Value list option"
where
  "DeepCopy NullValue = Some NullValue"
| "DeepCopy (BooleanValue b) = Some (BooleanValue b)"
| "DeepCopy (IntegerValue i) = Some (IntegerValue i)"
| "DeepCopy (DoubleValue x) = Some (DoubleValue x)"
| "DeepCopy (StringValue s) = CreateStringValue s"
| "DeepCopy (BinaryValue b) = Some (BinaryValue b)"
| "DeepCopy (DictionaryValue d) = map_option DictionaryValue (copy_entries [] d)"
| "DeepCopy (ListValue l) = map_option ListValue (copy_list [] l)"
| "copy_entries result [] = Some result"
| "copy_entries result ((k, v) # es) =
     do { c \<leftarrow> DeepCopy v; result \<leftarrow> SetWithoutPathExpansion result k c; copy_entries result es }"
| "copy_list result [] = Some result"
| "copy_list result (v # vs) = do { c \<leftarrow> DeepCopy v; copy_list (result @ [c]) vs }"

fun Equals :: "('d \<Rightarrow> 'd \<Rightarrow> bool) \<Rightarrow> 'd Value \<Rightarrow> 'd Value \<Rightarrow> bool option"
  and equals_entries :: "('d \<Rightarrow> 'd \<Rightarrow> bool) \<Rightarrow> 'd dictionary \<Rightarrow> 'd dictionary \<Rightarrow> bool option"
  and equals_list :: "('d \<Rightarrow> 'd \<Rightarrow> bool) \<Rightarrow> 'd Value list \<Rightarrow> 'd Value list \<Rightarrow> bool option"
where
  "Equals deq NullValue other = Some (case other of NullValue \<Rightarrow> True | _ \<Rightarrow> False)"
| "Equals deq (BooleanValue a) other = Some (case other of BooleanValue b \<Rightarrow> a = b | _ \<Rightarrow> False)"
| "Equals deq (IntegerValue a) other = Some (case other of IntegerValue b \<Rightarrow> a = b | _ \<Rightarrow> False)"
| "Equals deq (DoubleValue a) other = Some (case other of DoubleValue b \<Rightarrow> deq a b | _ \<Rightarrow> False)"
| "Equals deq (StringValue a) other = Some (case other of StringValue b \<Rightarrow> a = b | _ \<Rightarrow> False)"
| "Equals deq (BinaryValue a) other =
     Some (case other of BinaryValue b \<Rightarrow> length b = length a \<and> a = b | _ \<Rightarrow> False)"
| "Equals deq (DictionaryValue a) other =
     (case other of DictionaryValue b \<Rightarrow> equals_entries deq a b | _ \<Rightarrow> Some False)"
| "Equals deq (ListValue a) other = (case other of ListValue b \<Rightarrow> equals_list deq a b | _ \<Rightarrow> Some False)"
| "equals_entries deq ((k, v) # a) ((l, w) # b) =
     (if k \<noteq> l then Some False
      else do { guard (IsStringUTF8 k); guard (IsStringUTF8 l);
                same \<leftarrow> Equals deq v w;
                if \<not> same then Some False else equals_entries deq a b })"
| "equals_entries deq a b = Some (a = [] \<and> b = [])"
| "equals_list deq (v # a) (w # b) =
     do { same \<leftarrow> Equals deq v w; if \<not> same then Some False else equals_list deq a b }"
| "equals_list deq a b = Some (a = [] \<and> b = [])"

text \<open>\<open>Some None\<close> is the result \<open>NULL\<close>.\<close>

fun CopyWithoutEmptyChildren :: "'d Value \<Rightarrow> 'd Value option option"
  and copy_full_entries :: "'d dictionary \<Rightarrow> 'd dictionary \<Rightarrow> 'd dictionary option"
  and copy_full_list :: "'d Value list \<Rightarrow> 'd Value list \<Rightarrow> 'd Value list option"
where
  "CopyWithoutEmptyChildren (ListValue l) =
     map_option (\<lambda>copy. if copy \<noteq> [] then Some (ListValue copy) else None) (copy_full_list [] l)"
| "CopyWithoutEmptyChildren (DictionaryValue d) =
     map_option (\<lambda>copy. if copy \<noteq> [] then Some (DictionaryValue copy) else None) (copy_full_entries [] d)"
| "CopyWithoutEmptyChildren node = map_option Some (DeepCopy node)"
| "copy_full_entries copy [] = Some copy"
| "copy_full_entries copy ((k, v) # es) =
     do { guard (IsStringUTF8 k);
          child_copy \<leftarrow> CopyWithoutEmptyChildren v;
          copy \<leftarrow> (case child_copy of None \<Rightarrow> Some copy | Some c \<Rightarrow> SetWithoutPathExpansion copy k c);
          copy_full_entries copy es }"
| "copy_full_list copy [] = Some copy"
| "copy_full_list copy (v # vs) =
     do { child_copy \<leftarrow> CopyWithoutEmptyChildren v;
          copy_full_list (case child_copy of None \<Rightarrow> copy | Some c \<Rightarrow> copy @ [c]) vs }"

definition DeepCopyWithoutEmptyChildren :: "'d dictionary \<Rightarrow> 'd dictionary option" where
  "DeepCopyWithoutEmptyChildren d = do {
     copy \<leftarrow> CopyWithoutEmptyChildren (DictionaryValue d);
     Some (case Option.bind copy as_dictionary of None \<Rightarrow> [] | Some c \<Rightarrow> c) }"

text \<open>The dictionary that is merged in is not part of the tree it is merged into.\<close>

function (sequential) MergeDictionary :: "'d dictionary \<Rightarrow> 'd dictionary \<Rightarrow> 'd dictionary option" where
  "MergeDictionary d [] = Some d"
| "MergeDictionary d ((key, merge_value) # entries) =
     do { guard (IsStringUTF8 key);
          sub \<leftarrow> (case merge_value of DictionaryValue _ \<Rightarrow> GetDictionaryWithoutPathExpansion d key | _ \<Rightarrow> Some None);
          d \<leftarrow> (case (sub, merge_value) of
                 (Some sub_dict, DictionaryValue m) \<Rightarrow>
                   do { merged \<leftarrow> MergeDictionary sub_dict m; Some (map_put key (DictionaryValue merged) d) }
               | _ \<Rightarrow> do { copy \<leftarrow> DeepCopy merge_value; SetWithoutPathExpansion d key copy });
          MergeDictionary d entries }"
  by pat_completeness auto
termination
  by (relation "measure (\<lambda>(d, m). size_list (size_prod (\<lambda>_. 0) (size_Value (\<lambda>_. 0))) m)") auto

section \<open>Lists\<close>

definition List_Clear :: "'d Value list \<Rightarrow> 'd Value list" where
  "List_Clear l = []"

definition List_Swap :: "'d Value list \<Rightarrow> 'd Value list \<Rightarrow> 'd Value list \<times> 'd Value list" where
  "List_Swap l other = (other, l)"

definition List_Append :: "'d Value list \<Rightarrow> 'd Value \<Rightarrow> 'd Value list" where
  "List_Append l in_value = l @ [in_value]"

text \<open>The padding with null values appends until the list has \<open>index\<close> elements.\<close>

definition List_Set :: "'d Value list \<Rightarrow> nat \<Rightarrow> 'd Value option \<Rightarrow> bool \<times> 'd Value list" where
  "List_Set l index in_value =
     (case in_value of
        None \<Rightarrow> (False, l)
      | Some v \<Rightarrow>
          (True, if index \<ge> length l
                 then List_Append (((\<lambda>l. List_Append l NullValue) ^^ (index - length l)) l) v
                 else l[index := v]))"

definition List_Get :: "'d Value list \<Rightarrow> nat \<Rightarrow> 'd Value option" where
  "List_Get l index = (if index \<ge> length l then None else Some (l ! index))"

definition List_GetBoolean :: "'d Value list \<Rightarrow> nat \<Rightarrow> bool option" where
  "List_GetBoolean l index = Option.bind (List_Get l index) GetAsBoolean"

definition List_GetInteger :: "'d Value list \<Rightarrow> nat \<Rightarrow> int32 option" where
  "List_GetInteger l index = Option.bind (List_Get l index) GetAsInteger"

definition List_GetDouble :: "(int32 \<Rightarrow> 'd) \<Rightarrow> 'd Value list \<Rightarrow> nat \<Rightarrow> 'd option" where
  "List_GetDouble double_of l index = Option.bind (List_Get l index) (GetAsDouble double_of)"

definition List_GetString :: "'d Value list \<Rightarrow> nat \<Rightarrow> byte list option" where
  "List_GetString l index = Option.bind (List_Get l index) GetAsString"

definition List_GetString16 :: "'d Value list \<Rightarrow> nat \<Rightarrow> char16 list option" where
  "List_GetString16 l index = Option.bind (List_Get l index) GetAsString16"

definition List_GetBinary :: "'d Value list \<Rightarrow> nat \<Rightarrow> byte list option" where
  "List_GetBinary l index = Option.bind (List_Get l index) as_binary"

definition List_GetDictionary :: "'d Value list \<Rightarrow> nat \<Rightarrow> 'd dictionary option" where
  "List_GetDictionary l index = Option.bind (List_Get l index) as_dictionary"

definition List_GetList :: "'d Value list \<Rightarrow> nat \<Rightarrow> 'd Value list option" where
  "List_GetList l index = Option.bind (List_Get l index) GetAsList"

definition List_Remove :: "'d Value list \<Rightarrow> nat \<Rightarrow> 'd Value option \<times> 'd Value list" where
  "List_Remove l index = (if index \<ge> length l then (None, l) else (Some (l ! index), erase index l))"

fun position_of :: "('d \<Rightarrow> 'd \<Rightarrow> bool) \<Rightarrow> 'd Value \<Rightarrow> 'd Value list \<Rightarrow> nat \<Rightarrow> nat option option" where
  "position_of deq v [] i = Some None"
| "position_of deq v (x # xs) i =
     do { same \<leftarrow> Equals deq x v; if same then Some (Some i) else position_of deq v xs (i + 1) }"

definition List_Remove_value :: "('d \<Rightarrow> 'd \<Rightarrow> bool) \<Rightarrow> 'd Value list \<Rightarrow> 'd Value \<Rightarrow> (int32 \<times> 'd Value list) option" where
  "List_Remove_value deq l v = do {
     r \<leftarrow> position_of deq v l 0;
     case r of None \<Rightarrow> Some (- 1, l)
     | Some index \<Rightarrow> do { guard (index < 2 ^ 31); Some (int index, erase index l) } }"

definition AppendIfNotPresent :: "('d \<Rightarrow> 'd \<Rightarrow> bool) \<Rightarrow> 'd Value list \<Rightarrow> 'd Value \<Rightarrow> (bool \<times> 'd Value list) option" where
  "AppendIfNotPresent deq l in_value = do {
     r \<leftarrow> position_of deq in_value l 0;
     Some (case r of None \<Rightarrow> (True, l @ [in_value]) | Some _ \<Rightarrow> (False, l)) }"

definition List_Insert :: "'d Value list \<Rightarrow> nat \<Rightarrow> 'd Value \<Rightarrow> bool \<times> 'd Value list" where
  "List_Insert l index in_value = (if index > length l then (False, l) else (True, insert_at index in_value l))"

end
