(* ===== verification/ValuesTypes.thy ===== *)
theory ValuesTypes
  imports Values
begin

text \<open>
  The values that the operations build (the keys of a dictionary are distinct, sorted and valid UTF-8, integers are of
  32 bits, strings are valid UTF-8), and that every operation keeps them so without failing a check.
\<close>

section \<open>Paths and UTF-8\<close>

lemma IsStringUTF8_iff: "IsStringUTF8 s \<longleftrightarrow> (\<exists>cs. list_all IsValidCharacter cs \<and> s = utf8 cs)"
  using utf8_loop_exact [of 0 s] by (simp add: IsStringUTF8_def)

lemma IsStringUTF8_Nil [simp]: "IsStringUTF8 []"
  by (simp add: IsStringUTF8_iff exI [of _ "[]"])

lemma IsStringUTF8_append: "IsStringUTF8 a \<Longrightarrow> IsStringUTF8 b \<Longrightarrow> IsStringUTF8 (a @ b)"
  unfolding IsStringUTF8_iff by (metis concat_append list_all_append map_append)

lemma is_dot_byte: "is_dot (to_byte n) \<Longrightarrow> n < 256 \<Longrightarrow> n = 46"
  using unat_to_byte [of n] by (auto simp: is_dot_def)

lemma dot_character:
  assumes "IsValidCharacter c" "WriteUnicodeCharacter8 c = x # xs"
  shows "c = 46 \<and> x = 46 \<and> xs = [] \<or> (\<forall>b \<in> set (x # xs). \<not> is_dot b)"
proof -
  have c: "c \<le> 0x10FFFF" using valid_character [OF assms(1)] by (auto simp: IsValidCodepoint_def)
  have e: "x # xs = map to_byte (encoding8 c)" using Write8_encoding [OF c] assms(2) by simp
  show ?thesis
  proof (cases "c = 46")
    case True
    then show ?thesis using e by (simp add: encoding8_def to_byte_def)
  next
    case False
    have "\<not> is_dot (to_byte n)" if n: "n \<in> set (encoding8 c)" for n
    proof
      assume "is_dot (to_byte n)"
      then have "n = 46" using is_dot_byte encoding8_byte [OF c n] by blast
      then show False using n False by (auto simp: encoding8_def split: if_splits)
    qed
    then show ?thesis unfolding e by auto
  qed
qed

lemma find_index_append:
  "(\<forall>x \<in> set xs. \<not> P x) \<Longrightarrow> find_index P (xs @ ys) = map_option (\<lambda>i. length xs + i) (find_index P ys)"
  by (induction xs; cases "find_index P ys"; simp del: find_index_None)

lemma utf8_cut:
  "list_all IsValidCharacter cs \<Longrightarrow> find_index is_dot (utf8 cs) = Some p \<Longrightarrow>
     \<exists>as bs. list_all IsValidCharacter as \<and> list_all IsValidCharacter bs \<and> take p (utf8 cs) = utf8 as \<and> drop (p + 1) (utf8 cs) = utf8 bs"
proof (induction cs arbitrary: p)
  case (Cons c cs)
  obtain x xs where x: "WriteUnicodeCharacter8 c = x # xs" using Write8_nonempty [of c] by (cases "WriteUnicodeCharacter8 c") auto
  have "IsValidCharacter c" using Cons.prems(1) by simp
  from dot_character [OF this x] show ?case
  proof
    assume d: "c = 46 \<and> x = 46 \<and> xs = []"
    then have "p = 0" using Cons.prems(2) x by (simp add: is_dot_def)
    then show ?thesis using d x Cons.prems(1) by (intro exI [of _ "[]"] exI [of _ cs]) simp
  next
    assume n: "\<forall>b \<in> set (x # xs). \<not> is_dot b"
    then obtain q where q: "find_index is_dot (utf8 cs) = Some q" "p = length (x # xs) + q"
      using Cons.prems(2) find_index_append [OF n, of "utf8 cs"] x
      by (cases "find_index is_dot (utf8 cs)") (auto simp del: find_index_None find_index.simps)
    obtain as bs where ab: "list_all IsValidCharacter as" "list_all IsValidCharacter bs" "take q (utf8 cs) = utf8 as"
      "drop (q + 1) (utf8 cs) = utf8 bs"
      using Cons.IH [OF _ q(1)] Cons.prems(1) by auto
    have p: "p = Suc (length xs + q)" using q(2) by simp
    have "utf8 (c # cs) = x # xs @ utf8 cs" using x by simp
    then have "take p (utf8 (c # cs)) = utf8 (c # as)" "drop (p + 1) (utf8 (c # cs)) = utf8 bs"
      using ab(3,4) x unfolding p by simp_all
    then show ?thesis using ab Cons.prems(1) by (intro exI [of _ "c # as"] exI [of _ bs]) simp
  qed
qed simp

lemma path_cut:
  assumes "IsStringUTF8 path" "find_index is_dot path = Some p"
  shows "IsStringUTF8 (take p path)" "IsStringUTF8 (drop (p + 1) path)"
proof -
  obtain cs where cs: "list_all IsValidCharacter cs" "path = utf8 cs" using assms(1) IsStringUTF8_iff by blast
  show "IsStringUTF8 (take p path)" "IsStringUTF8 (drop (p + 1) path)"
    using utf8_cut [OF cs(1)] assms(2) cs(2) by (auto simp: IsStringUTF8_iff)
qed

text \<open>The keys along a path.\<close>

function parts :: "byte list \<Rightarrow> key list" where
  "parts path = (case find_index is_dot path of None \<Rightarrow> [path] | Some p \<Rightarrow> take p path # parts (drop (p + 1) path))"
  by pat_completeness auto
termination
  by (relation "measure length") (auto dest!: find_index_less)

declare parts.simps [simp del]

lemma parts_key: "find_index is_dot path = None \<Longrightarrow> parts path = [path]"
  by (subst parts.simps) (simp del: find_index_None)

lemma parts_step: "find_index is_dot path = Some p \<Longrightarrow> parts path = take p path # parts (drop (p + 1) path)"
  by (subst parts.simps) simp

lemma parts_nonempty [simp]: "parts path \<noteq> []"
  by (subst parts.simps) (simp split: option.split)

lemma parts_utf8: "IsStringUTF8 path \<Longrightarrow> list_all IsStringUTF8 (parts path)"
proof (induction path rule: parts.induct)
  case (1 path)
  show ?case
  proof (cases "find_index is_dot path")
    case None
    then show ?thesis using 1(2) by (simp add: parts_key)
  next
    case (Some p)
    then show ?thesis using 1(1) [OF Some] path_cut [OF 1(2) Some] by (simp add: parts_step)
  qed
qed

section \<open>The entries of a map\<close>

lemma map_of_put [simp]: "map_of (map_put k v m) = (map_of m)(k \<mapsto> v)"
  by (induction k v m rule: map_put.induct) (auto simp: fun_eq_iff)

lemma keys_put: "fst ` set (map_put k v m) = insert k (fst ` set m)"
  by (induction k v m rule: map_put.induct) auto

lemma sorted_put: "sorted_wrt (<) (map fst m) \<Longrightarrow> sorted_wrt (<) (map fst (map_put k v m))"
proof (induction k v m rule: map_put.induct)
  case (2 k v l w m)
  have "\<forall>x \<in> set (map fst (map_put k v m)). l < x" if "\<not> k < l" "k \<noteq> l"
  proof -
    have "l < k" using that by (meson linorder_neqE)
    then show ?thesis using 2(2) keys_put [of k v m] by (auto simp del: fun_upd_apply)
  qed
  then show ?case using 2 by (auto intro: order_less_trans)
qed simp

lemma map_of_erase [simp]: "map_of (map_erase k m) = (map_of m)(k := None)"
  unfolding map_erase_def by (induction m) (auto simp: fun_eq_iff)

lemma sorted_erase: "sorted_wrt (<) (map fst m) \<Longrightarrow> sorted_wrt (<) (map fst (map_erase k m))"
  unfolding map_erase_def by (induction m) auto

text \<open>Putting the entries of a sorted list one after the other gives the list.\<close>

lemma map_put_last: "\<forall>x \<in> set m. fst x < k \<Longrightarrow> map_put k v m = m @ [(k, v)]"
  by (induction k v m rule: map_put.induct) auto

section \<open>Well-formed values\<close>

fun value_ok :: "'d Value \<Rightarrow> bool" where
  "value_ok (IntegerValue i) = (- (2 ^ 31) \<le> i \<and> i < 2 ^ 31)"
| "value_ok (StringValue s) = IsStringUTF8 s"
| "value_ok (DictionaryValue d) = (sorted_wrt (<) (map fst d) \<and> list_all (\<lambda>e. IsStringUTF8 (fst e) \<and> value_ok (snd e)) d)"
| "value_ok (ListValue l) = list_all value_ok l"
| "value_ok _ = True"

abbreviation dictionary_ok :: "'d dictionary \<Rightarrow> bool" where
  "dictionary_ok d \<equiv> value_ok (DictionaryValue d)"

lemma put_entries: "x \<in> set (map_put k v m) \<Longrightarrow> x = (k, v) \<or> x \<in> set m"
  by (induction k v m rule: map_put.induct) (auto split: if_splits)

lemma dictionary_ok_put: "dictionary_ok d \<Longrightarrow> IsStringUTF8 k \<Longrightarrow> value_ok v \<Longrightarrow> dictionary_ok (map_put k v d)"
  using sorted_put [of d k v] by (auto simp: list_all_iff dest!: put_entries)

lemma dictionary_ok_erase: "dictionary_ok d \<Longrightarrow> dictionary_ok (map_erase k d)"
  using sorted_erase [of d k] by (auto simp: list_all_iff map_erase_def)

lemma dictionary_ok_get: "dictionary_ok d \<Longrightarrow> map_of d k = Some v \<Longrightarrow> value_ok v \<and> IsStringUTF8 k"
  by (auto simp: list_all_iff dest!: map_of_SomeD)

lemma dictionary_ok_child: "dictionary_ok d \<Longrightarrow> Option.bind (map_of d k) as_dictionary = Some c \<Longrightarrow> dictionary_ok c"
  using dictionary_ok_get [of d k] by (cases "map_of d k") (auto elim!: as_dictionary.elims)

lemma SetWithoutPathExpansion_utf8 [simp]: "IsStringUTF8 k \<Longrightarrow> SetWithoutPathExpansion d k v = Some (map_put k v d)"
  by (simp add: SetWithoutPathExpansion_def HasKey_def)

section \<open>Values under a path\<close>

fun tree_find :: "'d Value \<Rightarrow> key list \<Rightarrow> 'd Value option" where
  "tree_find v [] = Some v"
| "tree_find v (k # ks) = do { d \<leftarrow> as_dictionary v; w \<leftarrow> map_of d k; tree_find w ks }"

fun tree_put :: "key list \<Rightarrow> 'd Value \<Rightarrow> 'd dictionary \<Rightarrow> 'd dictionary" where
  "tree_put [] v d = d"
| "tree_put [k] v d = map_put k v d"
| "tree_put (k # ks) v d =
     map_put k (DictionaryValue (tree_put ks v (case Option.bind (map_of d k) as_dictionary of None \<Rightarrow> [] | Some c \<Rightarrow> c))) d"

lemma Get_parts:
  "IsStringUTF8 path \<Longrightarrow> Dictionary_Get d path = Some (tree_find (DictionaryValue d) (parts path))"
  "IsStringUTF8 path \<Longrightarrow> Get_loop d path = Some (tree_find (DictionaryValue d) (parts path))"
  "IsStringUTF8 path \<Longrightarrow> Dictionary_GetDictionary d path = Some (Option.bind (tree_find (DictionaryValue d) (parts path)) as_dictionary)"
proof (induction d path and d path and d path rule: Dictionary_Get_Get_loop_Dictionary_GetDictionary.induct)
  case (2 d path)
  show ?case
  proof (cases "find_index is_dot path")
    case None
    then show ?thesis using 2(3) by (subst Get_loop.simps) (simp add: parts_key GetWithoutPathExpansion_def del: find_index_None)
  next
    case (Some p)
    let ?k = "take p path"
    note u = path_cut [OF 2(3) Some]
    have k: "find_index is_dot ?k = None" using find_index_SomeD [OF Some] find_index_less [OF Some]
      by (auto simp: in_set_conv_nth)
    have g: "Dictionary_GetDictionary d ?k = Some (Option.bind (map_of d ?k) as_dictionary)"
      using 2(1) [OF Some u(1)] parts_key [OF k] by simp
    show ?thesis
    proof (cases "Option.bind (map_of d ?k) as_dictionary")
      case None
      have "Option.bind (map_of d ?k) (\<lambda>w. tree_find w (parts (drop (p + 1) path))) = None"
        using None by (cases "map_of d ?k"; cases "parts (drop (p + 1) path)") auto
      then show ?thesis using Some g None by (subst Get_loop.simps) (simp add: parts_step)
    next
      case (Some c)
      note Some' = Some
      from Some' have c: "map_of d ?k = Some (DictionaryValue c)" by (cases "map_of d ?k") (auto elim!: as_dictionary.elims)
      have "Get_loop c (drop (p + 1) path) = Some (tree_find (DictionaryValue c) (parts (drop (p + 1) path)))"
        using 2(2) [OF \<open>find_index is_dot path = Some p\<close> g] Some' u(2) by simp
      then show ?thesis using \<open>find_index is_dot path = Some p\<close> g Some' c by (subst Get_loop.simps) (simp add: parts_step)
    qed
  qed
next
  case (1 d path)
  then show ?case by (subst Dictionary_Get.simps) simp
next
  case (3 d path)
  then show ?case by (subst Dictionary_GetDictionary.simps) simp
qed

lemma tree_put_step: "ks \<noteq> [] \<Longrightarrow> tree_put (k # ks) v d =
     map_put k (DictionaryValue (tree_put ks v (case Option.bind (map_of d k) as_dictionary of None \<Rightarrow> [] | Some c \<Rightarrow> c))) d"
  by (cases ks) auto

lemma find_index_key: "find_index is_dot path = Some p \<Longrightarrow> find_index is_dot (take p path) = None"
  using find_index_SomeD [of is_dot path p] find_index_less [of is_dot path p] by (auto simp: in_set_conv_nth)

lemma map_put_twice: "map_put k v (map_put k w m) = map_put k v m"
  by (induction k v m rule: map_put.induct) auto

lemma Set_parts: "IsStringUTF8 path \<Longrightarrow> Set_loop d path v = Some (tree_put (parts path) v d)"
proof (induction d path v rule: Set_loop.induct)
  case (1 d path v)
  show ?case
  proof (cases "find_index is_dot path")
    case None
    then show ?thesis using 1(3) by (subst Set_loop.simps) (simp add: parts_key del: find_index_None)
  next
    case (Some p)
    let ?k = "take p path" and ?rest = "drop (p + 1) path"
    note u = path_cut [OF 1(3) Some]
    have g: "Dictionary_GetDictionary d ?k = Some (Option.bind (map_of d ?k) as_dictionary)"
      using Get_parts(3) [OF u(1), of d] parts_key [OF find_index_key [OF Some]] by simp
    show ?thesis
    proof (cases "Option.bind (map_of d ?k) as_dictionary")
      case None
      have "Set_loop [] ?rest v = Some (tree_put (parts ?rest) v [])"
        using 1(1) [OF Some refl refl g None] u by simp
      then show ?thesis using Some g None u
        by (subst Set_loop.simps) (simp add: parts_step tree_put_step map_put_twice)
    next
      case (Some c)
      have "Set_loop c ?rest v = Some (tree_put (parts ?rest) v c)"
        using 1(2) [OF \<open>find_index is_dot path = Some p\<close> refl refl g Some] u by simp
      then show ?thesis using \<open>find_index is_dot path = Some p\<close> g Some u
        by (subst Set_loop.simps) (simp add: parts_step tree_put_step)
    qed
  qed
qed

end
