(* ===== verification/ValuesProofs.thy ===== *)
theory ValuesProofs
  imports ValuesTypes
begin

text \<open>
  What the operations on trees of values do: the laws of \<open>Get\<close>, \<open>Set\<close> and \<open>Remove\<close> along paths, copies and
  comparison, merging, and the type that every sequence of operations keeps.
\<close>

section \<open>Trees\<close>

lemma tree_find_append: "tree_find v (ks @ qs) = Option.bind (tree_find v ks) (\<lambda>w. tree_find w qs)"
  by (induction v ks rule: tree_find.induct) (auto intro: Option.bind_cong)

lemma find_put_same: "ks \<noteq> [] \<Longrightarrow> tree_find (DictionaryValue (tree_put ks v d)) (ks @ qs) = tree_find v qs"
  by (induction ks v d rule: tree_put.induct) auto

lemma find_put_other:
  "\<not> prefix ks qs \<Longrightarrow> \<not> prefix qs ks \<Longrightarrow>
     tree_find (DictionaryValue (tree_put ks v d)) qs = tree_find (DictionaryValue d) qs"
proof (induction ks v d arbitrary: qs rule: tree_put.induct)
  case (2 k v d)
  then show ?case by (cases qs) auto
next
  case (3 k l ks v d)
  obtain q qs' where q: "qs = q # qs'" using 3(3) by (cases qs) auto
  show ?case
  proof (cases "q = k")
    case True
    then have n: "\<not> prefix (l # ks) qs'" "\<not> prefix qs' (l # ks)" using 3(2,3) q by auto
    have "Option.bind (map_of d k) (\<lambda>w. tree_find w qs') =
      tree_find (DictionaryValue (case Option.bind (map_of d k) as_dictionary of None \<Rightarrow> [] | Some c \<Rightarrow> c)) qs'"
      using n(2) by (cases "map_of d k"; cases qs') (auto elim!: as_dictionary.elims split: option.split)
    then show ?thesis using True q 3(1) [OF n] by simp
  next
    case False
    then show ?thesis using q by simp
  qed
qed simp

lemma find_put_above:
  "strict_prefix qs ks \<Longrightarrow> \<exists>c. tree_find (DictionaryValue (tree_put ks v d)) qs = Some (DictionaryValue c)"
proof (induction ks v d arbitrary: qs rule: tree_put.induct)
  case (2 k v d)
  then show ?case by (cases qs) auto
next
  case (3 k l ks v d)
  then show ?case by (cases qs) auto
qed simp

lemma dictionary_ok_tree_put:
  "dictionary_ok d \<Longrightarrow> value_ok v \<Longrightarrow> list_all IsStringUTF8 ks \<Longrightarrow> dictionary_ok (tree_put ks v d)"
proof (induction ks v d rule: tree_put.induct)
  case (2 k v d)
  then show ?case using dictionary_ok_put by simp
next
  case (3 k l ks v d)
  let ?c = "case Option.bind (map_of d k) as_dictionary of None \<Rightarrow> [] | Some c \<Rightarrow> c"
  have "dictionary_ok ?c" using dictionary_ok_child [OF 3(2), of k] by (cases "Option.bind (map_of d k) as_dictionary") simp_all
  then have "dictionary_ok (tree_put (l # ks) v ?c)" using 3(1) [OF _ 3(3)] 3(4) by simp
  then show ?case using dictionary_ok_put [OF 3(2), of k] 3(4) by simp
qed simp

lemma value_ok_find: "value_ok v \<Longrightarrow> tree_find v ks = Some w \<Longrightarrow> value_ok w"
proof (induction v ks rule: tree_find.induct)
  case (2 v k ks)
  then obtain d x where d: "as_dictionary v = Some d" "map_of d k = Some x" "tree_find x ks = Some w"
    by (auto simp: bind_eq_Some_conv)
  then have "dictionary_ok d" using 2(2) by (auto elim!: as_dictionary.elims)
  then show ?case using 2(1) [OF d(1,2) _ d(3)] dictionary_ok_get [OF _ d(2)] by simp
qed simp

section \<open>Removing\<close>

lemma find_index_eqI: "p < length xs \<Longrightarrow> P (xs ! p) \<Longrightarrow> \<forall>j < p. \<not> P (xs ! j) \<Longrightarrow> find_index P xs = Some p"
proof (induction xs arbitrary: p)
  case (Cons x xs)
  show ?case
  proof (cases p)
    case 0
    then show ?thesis using Cons.prems by simp
  next
    case (Suc q)
    have "\<not> P x" "\<forall>j < q. \<not> P (xs ! j)" using Cons.prems(3) unfolding Suc by (force, metis Suc_less_eq nth_Cons_Suc)
    then show ?thesis using Cons.IH [of q] Cons.prems Suc by simp
  qed
qed simp

lemma last_index_SomeD:
  assumes "last_index P xs = Some p"
  shows "p < length xs" "P (xs ! p)" "\<And>j. p < j \<Longrightarrow> j < length xs \<Longrightarrow> \<not> P (xs ! j)"
proof -
  obtain k where k: "find_index P (rev xs) = Some k" "p = length xs - 1 - k" using assms by (auto simp: last_index_def)
  have f: "k < length xs" "P (rev xs ! k)" "\<And>j. j < k \<Longrightarrow> \<not> P (rev xs ! j)" using find_index_SomeD [OF k(1)] by auto
  show "p < length xs" "P (xs ! p)" using k(2) f(1,2) by (auto simp: rev_nth)
  fix j assume j: "p < j" "j < length xs"
  have "rev xs ! (length xs - 1 - j) = xs ! j" using j by (simp add: rev_nth)
  then show "\<not> P (xs ! j)" using f(3) [of "length xs - 1 - j"] j k(2) by auto
qed

lemma last_index_None [simp]: "last_index P xs = None \<longleftrightarrow> (\<forall>x \<in> set xs. \<not> P x)"
  by (simp add: last_index_def)

lemma last_index_eqI:
  assumes "p < length xs" "P (xs ! p)" "\<And>j. p < j \<Longrightarrow> j < length xs \<Longrightarrow> \<not> P (xs ! j)"
  shows "last_index P xs = Some p"
proof -
  have "\<exists>q. last_index P xs = Some q" using assms(1,2) last_index_None [of P xs] nth_mem by blast
  then obtain q where q: "last_index P xs = Some q" by blast
  have "q = p" using last_index_SomeD [OF q] assms by (metis linorder_neqE_nat)
  then show ?thesis using q by simp
qed

lemma parts_last: "last_index is_dot path = Some p \<Longrightarrow> parts path = parts (take p path) @ [drop (p + 1) path]"
proof (induction path arbitrary: p rule: parts.induct)
  case (1 path)
  note l = last_index_SomeD [OF 1(2)]
  obtain q where q: "find_index is_dot path = Some q"
    using l(1,2) find_index_None [of is_dot path] nth_mem by (metis not_None_eq)
  note f = find_index_SomeD [OF q]
  have qp: "q \<le> p" using f l(1,2) by (meson not_le)
  show ?case
  proof (cases "q = p")
    case True
    have "find_index is_dot (drop (p + 1) path) = None" "find_index is_dot (take p path) = None"
      using l f True by (auto simp: in_set_conv_nth)
    then show ?thesis using q True by (simp add: parts_step parts_key del: find_index_None)
  next
    case False
    then have lt: "q < p" using qp by simp
    let ?rest = "drop (q + 1) path"
    have "last_index is_dot ?rest = Some (p - (q + 1))" using l lt by (intro last_index_eqI) auto
    from 1(1) [OF q this] have r: "parts ?rest = parts (take (p - (q + 1)) ?rest) @ [drop (p + 1) path]" using lt by simp
    have "find_index is_dot (take p path) = Some q" using f lt by (intro find_index_eqI) auto
    from parts_step [OF this] have "parts (take p path) = take q path # parts (take (p - (q + 1)) ?rest)"
      using lt by (simp add: drop_take min_absorb2)
    then show ?thesis using parts_step [OF q] r by simp
  qed
qed

lemma store_parts:
  "tree_find (DictionaryValue d) (parts path) = Some (DictionaryValue c) \<Longrightarrow>
     store_dictionary d path x = tree_put (parts path) (DictionaryValue x) d"
proof (induction d path x rule: store_dictionary.induct)
  case (1 d path x)
  show ?case
  proof (cases "find_index is_dot path")
    case None
    then show ?thesis by (subst store_dictionary.simps) (simp add: parts_key del: find_index_None)
  next
    case (Some p)
    let ?k = "take p path" and ?rest = "drop (p + 1) path"
    obtain w where w: "map_of d ?k = Some w" "tree_find w (parts ?rest) = Some (DictionaryValue c)"
      using 1(2) parts_step [OF Some] by (auto simp: bind_eq_Some_conv)
    then obtain e where e: "as_dictionary w = Some e" by (cases "parts ?rest") (auto simp: bind_eq_Some_conv)
    then have we: "w = DictionaryValue e" by (auto elim!: as_dictionary.elims)
    have b: "Option.bind (map_of d ?k) as_dictionary = Some e" using w e by simp
    have "store_dictionary e ?rest x = tree_put (parts ?rest) (DictionaryValue x) e" using 1(1) [OF Some b] w(2) we by simp
    then show ?thesis using Some b by (subst store_dictionary.simps) (simp add: parts_step tree_put_step)
  qed
qed

text \<open>The cut at the last dot.\<close>

lemma path_cut_last:
  assumes "IsStringUTF8 path" "last_index is_dot path = Some p"
  shows "IsStringUTF8 (take p path)" "IsStringUTF8 (drop (p + 1) path)"
proof -
  have "IsStringUTF8 (take p path) \<and> IsStringUTF8 (drop (p + 1) path)" using assms
  proof (induction path arbitrary: p rule: parts.induct)
    case (1 path)
    note l = last_index_SomeD [OF 1(3)]
    obtain q where q: "find_index is_dot path = Some q"
      using l(1,2) find_index_None [of is_dot path] nth_mem by (metis not_None_eq)
    note f = find_index_SomeD [OF q] and u = path_cut [OF 1(2) q]
    have qp: "q \<le> p" using f l(1,2) by (meson not_le)
    show ?case
    proof (cases "q = p")
      case True
      then show ?thesis using u by simp
    next
      case False
      then have lt: "q < p" using qp by simp
      let ?rest = "drop (q + 1) path"
      have "last_index is_dot ?rest = Some (p - (q + 1))" using l lt by (intro last_index_eqI) auto
      from 1(1) [OF q u(2) this] have r: "IsStringUTF8 (take (p - (q + 1)) ?rest)" "IsStringUTF8 (drop (p + 1) path)"
        using lt by simp_all
      have "path ! q = 46" using f by (simp add: is_dot_def)
      then have "take p path = (take q path @ [46]) @ take (p - (q + 1)) ?rest"
        using lt l(1) id_take_nth_drop [of q "take p path"] by (simp add: min_absorb2 drop_take)
      moreover have "IsStringUTF8 [46]" unfolding IsStringUTF8_iff
        by (intro exI [of _ "[46]"]) (simp add: IsValidCharacter_def WriteUnicodeCharacter8_def to_byte_def)
      ultimately show ?thesis using r u(1) IsStringUTF8_append by metis
    qed
  qed
  then show "IsStringUTF8 (take p path)" "IsStringUTF8 (drop (p + 1) path)" by simp_all
qed

lemma as_dictionary_Some: "as_dictionary v = Some d \<longleftrightarrow> v = DictionaryValue d"
  by (cases v) auto

lemma RemoveWithoutPathExpansion_utf8:
  assumes "IsStringUTF8 k"
  shows "\<exists>d'. RemoveWithoutPathExpansion d k = Some (map_of d k, d') \<and> map_of d' = (map_of d)(k := None) \<and>
    (dictionary_ok d \<longrightarrow> dictionary_ok d')"
proof (cases "map_of d k")
  case None
  then show ?thesis using assms by (auto simp: RemoveWithoutPathExpansion_def fun_upd_idem_iff)
next
  case (Some v)
  then show ?thesis using assms dictionary_ok_erase by (auto simp: RemoveWithoutPathExpansion_def)
qed

lemma find_removed: "map_of d k = None \<Longrightarrow> tree_find (DictionaryValue d) (k # qs) = None"
  by simp

lemma Remove_parts:
  assumes "IsStringUTF8 path"
  shows "\<exists>d'. Dictionary_Remove d path = Some (tree_find (DictionaryValue d) (parts path), d') \<and>
    (dictionary_ok d \<longrightarrow> dictionary_ok d') \<and>
    (\<forall>qs. prefix (parts path) qs \<longrightarrow> tree_find (DictionaryValue d') qs = None) \<and>
    (\<forall>qs. \<not> prefix (parts path) qs \<longrightarrow> \<not> prefix qs (parts path) \<longrightarrow>
       tree_find (DictionaryValue d') qs = tree_find (DictionaryValue d) qs)"
proof (cases "last_index is_dot path")
  case None
  then have p: "parts path = [path]" by (intro parts_key) simp
  obtain d' where d': "RemoveWithoutPathExpansion d path = Some (map_of d path, d')" "map_of d' = (map_of d)(path := None)"
    "dictionary_ok d \<longrightarrow> dictionary_ok d'"
    using RemoveWithoutPathExpansion_utf8 [OF assms, of d] by blast
  have r: "Dictionary_Remove d path = Some (tree_find (DictionaryValue d) (parts path), d')"
    using None assms d'(1) p by (simp add: Dictionary_Remove_def del: last_index_None)
  have "tree_find (DictionaryValue d') qs = tree_find (DictionaryValue d) qs" if "\<not> prefix (parts path) qs" "\<not> prefix qs (parts path)" for qs
    using that d'(2) p by (cases qs) auto
  moreover have "tree_find (DictionaryValue d') qs = None" if "prefix (parts path) qs" for qs
    using that d'(2) p by (cases qs) auto
  ultimately show ?thesis using r d'(3) by blast
next
  case (Some p)
  let ?ks = "parts (take p path)" and ?k = "drop (p + 1) path"
  note u = path_cut_last [OF assms Some] and pp = parts_last [OF Some]
  have g: "Dictionary_GetDictionary d (take p path) = Some (Option.bind (tree_find (DictionaryValue d) ?ks) as_dictionary)"
    by (rule Get_parts(3) [OF u(1)])
  have whole: "tree_find (DictionaryValue d) (?ks @ ?k # qs) =
    Option.bind (Option.bind (tree_find (DictionaryValue d) ?ks) as_dictionary) (\<lambda>c. tree_find (DictionaryValue c) (?k # qs))" for qs
    by (simp add: tree_find_append Option.bind_assoc)
  show ?thesis
  proof (cases "Option.bind (tree_find (DictionaryValue d) ?ks) as_dictionary")
    case None
    have "Dictionary_Remove d path = Some (tree_find (DictionaryValue d) (parts path), d)"
      using Some assms g None whole [of "[]"] unfolding pp by (simp add: Dictionary_Remove_def del: last_index_None tree_find.simps)
    moreover have "tree_find (DictionaryValue d) qs = None" if "prefix (parts path) qs" for qs
      using that whole None unfolding pp by (auto simp: prefix_def simp del: tree_find.simps)
    ultimately show ?thesis by blast
  next
    case c: (Some c)
    then have f: "tree_find (DictionaryValue d) ?ks = Some (DictionaryValue c)" by (auto simp: bind_eq_Some_conv as_dictionary_Some)
    obtain c' where c': "RemoveWithoutPathExpansion c ?k = Some (map_of c ?k, c')" "map_of c' = (map_of c)(?k := None)"
      "dictionary_ok c \<longrightarrow> dictionary_ok c'"
      using RemoveWithoutPathExpansion_utf8 [OF u(2), of c] by blast
    let ?d = "tree_put ?ks (DictionaryValue c') d"
    have "Dictionary_Remove d path = Some (tree_find (DictionaryValue d) (parts path), ?d)"
      using Some assms g c c'(1) whole [of "[]"] store_parts [OF f] unfolding pp by (simp add: Dictionary_Remove_def del: last_index_None)
    moreover have "dictionary_ok d \<longrightarrow> dictionary_ok ?d"
      using dictionary_ok_tree_put [OF _ _ parts_utf8 [OF u(1)]] c'(3) value_ok_find [OF _ f] by blast
    moreover have "tree_find (DictionaryValue ?d) qs = None" if "prefix (parts path) qs" for qs
      using that find_put_same [of ?ks "DictionaryValue c'" d] c'(2) unfolding pp by (auto simp: prefix_def)
    moreover have "tree_find (DictionaryValue ?d) qs = tree_find (DictionaryValue d) qs"
      if q: "\<not> prefix (parts path) qs" "\<not> prefix qs (parts path)" for qs
    proof (cases "prefix ?ks qs")
      case True
      then obtain r where r: "qs = ?ks @ r" by (auto simp: prefix_def)
      then obtain l r' where l: "r = l # r'" "l \<noteq> ?k" using q unfolding pp by (cases r) auto
      then show ?thesis using find_put_same [of ?ks "DictionaryValue c'" d r] c'(2) f r by (simp add: tree_find_append)
    next
      case False
      then show ?thesis using q(2) find_put_other [of ?ks qs] unfolding pp by simp
    qed
    ultimately show ?thesis by blast
  qed
qed

section \<open>Copies and comparison\<close>

lemma DeepCopy_ok:
  fixes v :: "'d Value"
  shows "value_ok v \<Longrightarrow> DeepCopy v = Some v"
  "sorted_wrt (<) (map fst ((r :: 'd dictionary) @ es)) \<Longrightarrow> list_all (\<lambda>e. IsStringUTF8 (fst e) \<and> value_ok (snd e)) es \<Longrightarrow>
     copy_entries r es = Some (r @ es)"
  "list_all value_ok vs \<Longrightarrow> copy_list (q :: 'd Value list) vs = Some (q @ vs)"
proof (induction v and r es and q vs rule: DeepCopy_copy_entries_copy_list.induct)
  case (10 result k v es)
  have "map_put k v result = result @ [(k, v)]" using 10(3) by (intro map_put_last) (auto simp: sorted_wrt_append)
  then show ?case using 10 by simp
qed (auto simp: CreateStringValue_def)

lemma Equals_ok:
  "value_ok a \<Longrightarrow> value_ok b \<Longrightarrow> Equals deq a b = Some (rel_Value deq a b)"
  "list_all (\<lambda>e. IsStringUTF8 (fst e) \<and> value_ok (snd e)) d \<Longrightarrow> list_all (\<lambda>e. IsStringUTF8 (fst e) \<and> value_ok (snd e)) e \<Longrightarrow>
     equals_entries deq d e = Some (list_all2 (rel_prod (=) (rel_Value deq)) d e)"
  "list_all value_ok l \<Longrightarrow> list_all value_ok m \<Longrightarrow> equals_list deq l m = Some (list_all2 (rel_Value deq) l m)"
proof (induction deq a b and deq d e and deq l m rule: Equals_equals_entries_equals_list.induct)
qed (auto split: Value.split)

section \<open>Merging\<close>

fun merged_entry :: "'d Value option \<Rightarrow> 'd Value option \<Rightarrow> 'd Value option" where
  "merged_entry (Some (DictionaryValue d)) (Some (DictionaryValue e)) = map_option DictionaryValue (MergeDictionary d e)"
| "merged_entry v None = v"
| "merged_entry v (Some w) = Some w"

lemma Merge_step:
  assumes "dictionary_ok d" "IsStringUTF8 k" "value_ok v"
    and "\<And>sub m. v = DictionaryValue m \<Longrightarrow> map_of d k = Some (DictionaryValue sub) \<Longrightarrow> dictionary_ok sub \<Longrightarrow>
      \<exists>x. MergeDictionary sub m = Some x \<and> dictionary_ok x"
  shows "\<exists>w. MergeDictionary d ((k, v) # es) = MergeDictionary (map_put k w d) es \<and> dictionary_ok (map_put k w d) \<and>
    merged_entry (map_of d k) (Some v) = Some w"
proof (cases "\<exists>m sub. v = DictionaryValue m \<and> map_of d k = Some (DictionaryValue sub)")
  case True
  then obtain m sub where m: "v = DictionaryValue m" "map_of d k = Some (DictionaryValue sub)" by blast
  moreover have "dictionary_ok sub" using dictionary_ok_get [OF assms(1) m(2)] by simp
  ultimately obtain x where "MergeDictionary sub m = Some x" "dictionary_ok x" using assms(4) by blast
  then show ?thesis using m assms(2) dictionary_ok_put [OF assms(1,2)]
    by (intro exI [of _ "DictionaryValue x"]) (simp add: GetDictionaryWithoutPathExpansion_def GetWithoutPathExpansion_def)
next
  case False
  have "dictionary_ok (map_put k v d)" by (rule dictionary_ok_put [OF assms(1-3)])
  moreover have "MergeDictionary d ((k, v) # es) = MergeDictionary (map_put k v d) es"
    using False assms(2) DeepCopy_ok(1) [OF assms(3)]
    by (cases v; cases "map_of d k")
      (auto simp: GetDictionaryWithoutPathExpansion_def GetWithoutPathExpansion_def as_dictionary_Some split: option.split)
  moreover have "merged_entry (map_of d k) (Some v) = Some v"
    using False by (cases "(map_of d k, Some v)" rule: merged_entry.cases) auto
  ultimately show ?thesis by blast
qed

lemma Merge_entries:
  "dictionary_ok d \<Longrightarrow> dictionary_ok es \<Longrightarrow>
     \<exists>m. MergeDictionary d es = Some m \<and> dictionary_ok m \<and> (\<forall>k. map_of m k = merged_entry (map_of d k) (map_of es k))"
proof (induction "size_list (size_prod (\<lambda>_. 0) (size_Value (\<lambda>_. 0))) es" arbitrary: d es rule: less_induct)
  case less
  show ?case
  proof (cases es)
    case Nil
    then show ?thesis using less(2) by (auto elim: merged_entry.elims)
  next
    case (Cons e es')
    obtain k v where e: "e = (k, v)" by (cases e)
    have ok: "IsStringUTF8 k" "value_ok v" "dictionary_ok es'" "map_of es' k = None"
      using less(3) Cons e by (auto simp: map_of_eq_None_iff)
    have sub_ok: "\<exists>x. MergeDictionary sub m = Some x \<and> dictionary_ok x"
      if "v = DictionaryValue m" "dictionary_ok sub" for sub m
      using less(1) [OF _ that(2), of m] ok(2) that(1) Cons e by auto
    obtain w where w: "MergeDictionary d es = MergeDictionary (map_put k w d) es'" "dictionary_ok (map_put k w d)"
      "merged_entry (map_of d k) (Some v) = Some w"
      using Merge_step [OF less(2) ok(1,2), of es'] sub_ok Cons e by metis
    obtain m where m: "MergeDictionary (map_put k w d) es' = Some m" "dictionary_ok m"
      "\<forall>l. map_of m l = merged_entry (map_of (map_put k w d) l) (map_of es' l)"
      using less(1) [OF _ w(2) ok(3)] Cons by auto
    have "map_of m l = merged_entry (map_of d l) (map_of es l)" for l
      using m(3) w(3) ok(4) Cons e by (cases "l = k") auto
    then show ?thesis using w(1) m by auto
  qed
qed

end
