(* ===== verification/ValuesLaws.thy ===== *)
theory ValuesLaws
  imports ValuesProofs
begin

text \<open>
  The properties of the trees of values: every sequence of operations builds well-formed values without failing a check,
  the laws of paths, merging, copies and comparison, and the strings that a copy in a debug build rejects.
\<close>

section \<open>Copies without empty children\<close>

fun prune :: "'d Value \<Rightarrow> 'd Value option"
  and prune_entries :: "'d dictionary \<Rightarrow> 'd dictionary"
  and prune_list :: "'d Value list \<Rightarrow> 'd Value list"
where
  "prune (ListValue l) = (if prune_list l = [] then None else Some (ListValue (prune_list l)))"
| "prune (DictionaryValue d) = (if prune_entries d = [] then None else Some (DictionaryValue (prune_entries d)))"
| "prune v = Some v"
| "prune_entries [] = []"
| "prune_entries ((k, v) # es) = (case prune v of None \<Rightarrow> prune_entries es | Some c \<Rightarrow> (k, c) # prune_entries es)"
| "prune_list [] = []"
| "prune_list (v # vs) = (case prune v of None \<Rightarrow> prune_list vs | Some c \<Rightarrow> c # prune_list vs)"

lemma CopyWithoutEmptyChildren_prune:
  fixes v :: "'d Value"
  shows "value_ok v \<Longrightarrow> CopyWithoutEmptyChildren v = Some (prune v)"
  "sorted_wrt (<) (map fst ((r :: 'd dictionary) @ es)) \<Longrightarrow> list_all (\<lambda>e. IsStringUTF8 (fst e) \<and> value_ok (snd e)) es \<Longrightarrow>
     copy_full_entries r es = Some (r @ prune_entries es)"
  "list_all value_ok vs \<Longrightarrow> copy_full_list (q :: 'd Value list) vs = Some (q @ prune_list vs)"
proof (induction v and r es and q vs rule: CopyWithoutEmptyChildren_copy_full_entries_copy_full_list.induct)
  case (5 result k v es)
  show ?case
  proof (cases "prune v")
    case None
    have "sorted_wrt (<) (map fst (result @ es))" using 5(3) by (auto simp: sorted_wrt_append)
    then show ?thesis using 5 None by simp
  next
    case (Some c)
    have "map_put k c result = result @ [(k, c)]" using 5(3) by (intro map_put_last) (auto simp: sorted_wrt_append)
    then show ?thesis using 5 Some by (simp add: sorted_wrt_append)
  qed
next
  case (7 copy v vs)
  then show ?case by (cases "prune v") simp_all
qed (auto simp: CreateStringValue_def)

lemma prune_keys: "e \<in> set (prune_entries es) \<Longrightarrow> fst e \<in> fst ` set es"
  by (induction es) (auto split: option.splits)

lemma prune_sorted: "sorted_wrt (<) (map fst es) \<Longrightarrow> sorted_wrt (<) (map fst (prune_entries es))"
proof (induction es)
  case (Cons e es)
  have "\<forall>x \<in> set (prune_entries es). fst e < fst x" using Cons.prems by (auto dest!: prune_keys)
  then show ?case using Cons by (cases e) (auto split: option.split)
qed simp

lemma prune_ok:
  fixes v :: "'d Value"
  shows "value_ok v \<Longrightarrow> prune v = Some c \<Longrightarrow> value_ok c"
  "list_all (\<lambda>e. IsStringUTF8 (fst e) \<and> value_ok (snd e)) es \<Longrightarrow>
     list_all (\<lambda>e. IsStringUTF8 (fst e) \<and> value_ok (snd e)) (prune_entries (es :: 'd dictionary))"
  "list_all value_ok vs \<Longrightarrow> list_all value_ok (prune_list (vs :: 'd Value list))"
proof (induction v and es and vs arbitrary: c rule: prune_prune_entries_prune_list.induct)
qed (auto split: option.splits if_splits intro: prune_sorted)

section \<open>Sequences of operations\<close>

text \<open>The operations that change a dictionary or a list, with arguments that satisfy the checks.\<close>

datatype 'd dictionary_op =
    SetOp "byte list" "'d Value" | SetKeyOp key "'d Value" | RemoveOp "byte list" | RemoveKeyOp key
  | MergeOp "'d dictionary" | PruneOp | ClearOp

fun apply_op :: "'d dictionary_op \<Rightarrow> 'd dictionary \<Rightarrow> 'd dictionary option" where
  "apply_op (SetOp path v) d = Dictionary_Set d path v"
| "apply_op (SetKeyOp k v) d = SetWithoutPathExpansion d k v"
| "apply_op (RemoveOp path) d = map_option snd (Dictionary_Remove d path)"
| "apply_op (RemoveKeyOp k) d = map_option snd (RemoveWithoutPathExpansion d k)"
| "apply_op (MergeOp e) d = MergeDictionary d e"
| "apply_op PruneOp d = DeepCopyWithoutEmptyChildren d"
| "apply_op ClearOp d = Some (Dictionary_Clear d)"

fun op_ok :: "'d dictionary_op \<Rightarrow> bool" where
  "op_ok (SetOp path v) = (IsStringUTF8 path \<and> value_ok v)"
| "op_ok (SetKeyOp k v) = (IsStringUTF8 k \<and> value_ok v)"
| "op_ok (RemoveOp path) = IsStringUTF8 path"
| "op_ok (RemoveKeyOp k) = IsStringUTF8 k"
| "op_ok (MergeOp e) = dictionary_ok e"
| "op_ok PruneOp = True"
| "op_ok ClearOp = True"

fun run_ops :: "'d dictionary_op list \<Rightarrow> 'd dictionary \<Rightarrow> 'd dictionary option" where
  "run_ops [] d = Some d"
| "run_ops (x # xs) d = Option.bind (apply_op x d) (run_ops xs)"

datatype 'd list_op = SetItem nat "'d Value option" | AppendItem "'d Value" | AppendNew "'d Value" | InsertItem nat "'d Value"
  | RemoveItem nat | RemoveValue "'d Value"

fun apply_list_op :: "('d \<Rightarrow> 'd \<Rightarrow> bool) \<Rightarrow> 'd list_op \<Rightarrow> 'd Value list \<Rightarrow> 'd Value list option" where
  "apply_list_op deq (SetItem i v) l = Some (snd (List_Set l i v))"
| "apply_list_op deq (AppendItem v) l = Some (List_Append l v)"
| "apply_list_op deq (AppendNew v) l = map_option snd (AppendIfNotPresent deq l v)"
| "apply_list_op deq (InsertItem i v) l = Some (snd (List_Insert l i v))"
| "apply_list_op deq (RemoveItem i) l = Some (snd (List_Remove l i))"
| "apply_list_op deq (RemoveValue v) l = map_option snd (List_Remove_value deq l v)"

fun list_op_ok :: "'d list_op \<Rightarrow> bool" where
  "list_op_ok (SetItem i v) = pred_option value_ok v"
| "list_op_ok (AppendItem v) = value_ok v"
| "list_op_ok (AppendNew v) = value_ok v"
| "list_op_ok (InsertItem i v) = value_ok v"
| "list_op_ok (RemoveItem i) = True"
| "list_op_ok (RemoveValue v) = value_ok v"

lemma apply_op_ok:
  assumes "op_ok x" "dictionary_ok d"
  shows "\<exists>e. apply_op x d = Some e \<and> dictionary_ok e"
proof (cases x)
  case (SetOp path v)
  then show ?thesis using assms Set_parts [of path d v] dictionary_ok_tree_put [OF assms(2), of v "parts path"] parts_utf8
    by (simp add: Dictionary_Set_def)
next
  case (SetKeyOp k v)
  then show ?thesis using assms dictionary_ok_put [OF assms(2)] by simp
next
  case (RemoveOp path)
  then show ?thesis using assms Remove_parts [of path d] by auto
next
  case (RemoveKeyOp k)
  then show ?thesis using assms RemoveWithoutPathExpansion_utf8 [of k d] by auto
next
  case (MergeOp e)
  then show ?thesis using assms Merge_entries [OF assms(2), of e] by auto
next
  case PruneOp
  have "CopyWithoutEmptyChildren (DictionaryValue d) = Some (prune (DictionaryValue d))"
    by (rule CopyWithoutEmptyChildren_prune(1) [OF assms(2)])
  then show ?thesis using PruneOp prune_ok(1) [OF assms(2)] by (auto simp: DeepCopyWithoutEmptyChildren_def)
qed (simp add: Dictionary_Clear_def)

lemma position_of_exact:
  "value_ok v \<Longrightarrow> list_all value_ok l \<Longrightarrow>
     position_of deq v l i = Some (map_option (\<lambda>j. i + j) (find_index (\<lambda>x. rel_Value deq x v) l))"
proof (induction l arbitrary: i)
  case (Cons x l)
  then show ?case using Equals_ok(1) [of x v deq] by (cases "find_index (\<lambda>x. rel_Value deq x v) l") (simp_all del: find_index_None)
qed simp

lemma pad_list: "list_all value_ok l \<Longrightarrow> list_all value_ok (((\<lambda>l. List_Append l NullValue) ^^ n) l)"
  by (induction n) (simp_all add: List_Append_def)

lemma apply_list_op_ok:
  assumes "list_op_ok x" "value_ok (ListValue l)" "length l \<le> 2 ^ 31"
  shows "\<exists>m. apply_list_op deq x l = Some m \<and> value_ok (ListValue m)"
proof (cases x)
  case (SetItem i v)
  then show ?thesis using assms pad_list [of l "i - length l"]
    by (cases v) (auto simp: List_Set_def List_Append_def list_all_iff dest: set_update_subset_insert [THEN subsetD])
next
  case (RemoveValue v)
  then have p: "position_of deq v l 0 = Some (find_index (\<lambda>x. rel_Value deq x v) l)"
    using assms position_of_exact [of v l deq 0] by (simp add: option.map_ident)
  have "list_all value_ok (erase i l)" for i
    using assms(2) by (auto simp: erase_def list_all_iff dest: in_set_takeD in_set_dropD)
  then show ?thesis using RemoveValue p find_index_less [of _ l] assms(2,3)
    by (cases "find_index (\<lambda>x. rel_Value deq x v) l") (fastforce simp: List_Remove_value_def)+
next
  case (AppendNew v)
  then have "position_of deq v l 0 = Some (find_index (\<lambda>x. rel_Value deq x v) l)"
    using assms position_of_exact [of v l deq 0] by (simp add: option.map_ident)
  then show ?thesis using AppendNew assms by (auto simp: AppendIfNotPresent_def split: option.split)
qed (use assms in \<open>auto simp: List_Append_def List_Insert_def List_Remove_def insert_at_def erase_def list_all_iff
  dest: in_set_takeD in_set_dropD\<close>)

lemma run_ops_ok: "list_all op_ok xs \<Longrightarrow> dictionary_ok d \<Longrightarrow> \<exists>e. run_ops xs d = Some e \<and> dictionary_ok e"
proof (induction xs arbitrary: d)
  case (Cons x xs)
  then show ?case using apply_op_ok [of x d] by fastforce
qed simp

section \<open>The properties\<close>

text \<open>
  C18 (type): from the empty dictionary, every sequence of operations with valid strings and well-formed
  values succeeds (no check fails) and builds a well-formed dictionary; looking up any path in it succeeds and
  finds only well-formed values; and every operation on a list keeps it well-formed.
\<close>

theorem values_keep_type:
  assumes "list_all op_ok xs" "list_op_ok x" "value_ok (ListValue l)" "length l \<le> 2 ^ 31"
  shows "(\<exists>d. run_ops xs [] = Some d \<and> dictionary_ok d \<and>
      (\<forall>path. IsStringUTF8 path \<longrightarrow> (\<exists>r. Dictionary_Get d path = Some r \<and> pred_option value_ok r))) \<and>
    (\<exists>m. apply_list_op deq x l = Some m \<and> value_ok (ListValue m))"
proof -
  obtain d where d: "run_ops xs [] = Some d" "dictionary_ok d" using run_ops_ok [OF assms(1), of "[]"] by auto
  have "\<exists>r. Dictionary_Get d path = Some r \<and> pred_option value_ok r" if "IsStringUTF8 path" for path
    using Get_parts(1) [OF that, of d] value_ok_find [OF d(2), of "parts path"]
    by (cases "tree_find (DictionaryValue d) (parts path)") auto
  then show ?thesis using d apply_list_op_ok [OF assms(2-4), of deq] by blast
qed

theorem values_keep_type_witness:
  "\<exists>d. run_ops [SetOp [] (IntegerValue 5 :: int Value), MergeOp [], PruneOp, RemoveOp []] [] = Some d \<and> dictionary_ok d"
  using values_keep_type [of "[SetOp [] (IntegerValue 5), MergeOp [], PruneOp, RemoveOp []]" "AppendItem NullValue" "[]"] by auto

text \<open>
  C19 (functional): the laws of paths. \<open>Set\<close> succeeds; afterwards a lookup of the path, or of a path
  below it, finds what the value holds there, and lookups of paths that neither lead to it nor start with it are unchanged,
  also when a value that is no dictionary lies on the way. \<open>Remove\<close> gives the value under the path; afterwards
  nothing is found there or below, and the same other paths are unchanged.
\<close>

theorem dictionary_paths:
  assumes "IsStringUTF8 path"
  shows "(\<exists>e. Dictionary_Set d path v = Some e \<and>
      (\<forall>q. IsStringUTF8 q \<longrightarrow> prefix (parts path) (parts q) \<longrightarrow>
         Dictionary_Get e q = Some (tree_find v (drop (length (parts path)) (parts q)))) \<and>
      (\<forall>q. IsStringUTF8 q \<longrightarrow> strict_prefix (parts q) (parts path) \<longrightarrow> (\<exists>c. Dictionary_Get e q = Some (Some (DictionaryValue c)))) \<and>
      (\<forall>q. IsStringUTF8 q \<longrightarrow> \<not> prefix (parts path) (parts q) \<longrightarrow> \<not> prefix (parts q) (parts path) \<longrightarrow>
         Dictionary_Get e q = Dictionary_Get d q)) \<and>
    (\<exists>r e. Dictionary_Get d path = Some r \<and> Dictionary_Remove d path = Some (r, e) \<and>
      (\<forall>q. IsStringUTF8 q \<longrightarrow> prefix (parts path) (parts q) \<longrightarrow> Dictionary_Get e q = Some None) \<and>
      (\<forall>q. IsStringUTF8 q \<longrightarrow> \<not> prefix (parts path) (parts q) \<longrightarrow> \<not> prefix (parts q) (parts path) \<longrightarrow>
         Dictionary_Get e q = Dictionary_Get d q))"
proof (rule conjI)
  let ?e = "tree_put (parts path) v d"
  have "Dictionary_Set d path v = Some ?e" using Set_parts [OF assms, of d v] assms by (simp add: Dictionary_Set_def)
  moreover have "Dictionary_Get ?e q = Some (tree_find v (drop (length (parts path)) (parts q)))"
    if "IsStringUTF8 q" "prefix (parts path) (parts q)" for q
    using that find_put_same [OF parts_nonempty, of path v d] by (auto simp: Get_parts(1) prefix_def)
  moreover have "\<exists>c. Dictionary_Get ?e q = Some (Some (DictionaryValue c))"
    if "IsStringUTF8 q" "strict_prefix (parts q) (parts path)" for q
    using that find_put_above [of "parts q" "parts path" v d] by (auto simp: Get_parts(1))
  moreover have "Dictionary_Get ?e q = Dictionary_Get d q"
    if "IsStringUTF8 q" "\<not> prefix (parts path) (parts q)" "\<not> prefix (parts q) (parts path)" for q
    using that find_put_other [of "parts path" "parts q" v d] by (simp add: Get_parts(1))
  ultimately show "\<exists>e. Dictionary_Set d path v = Some e \<and>
      (\<forall>q. IsStringUTF8 q \<longrightarrow> prefix (parts path) (parts q) \<longrightarrow>
         Dictionary_Get e q = Some (tree_find v (drop (length (parts path)) (parts q)))) \<and>
      (\<forall>q. IsStringUTF8 q \<longrightarrow> strict_prefix (parts q) (parts path) \<longrightarrow> (\<exists>c. Dictionary_Get e q = Some (Some (DictionaryValue c)))) \<and>
      (\<forall>q. IsStringUTF8 q \<longrightarrow> \<not> prefix (parts path) (parts q) \<longrightarrow> \<not> prefix (parts q) (parts path) \<longrightarrow>
         Dictionary_Get e q = Dictionary_Get d q)" by blast
qed (use Remove_parts [OF assms, of d] assms in \<open>auto simp: Get_parts(1)\<close>)

theorem dictionary_paths_witness:
  "\<exists>e. Dictionary_Set [([97], IntegerValue 7)] [97, 46, 98] (BooleanValue True :: int Value) = Some e \<and>
     Dictionary_Get e [97, 46, 98] = Some (Some (BooleanValue True))"
proof -
  have u: "IsStringUTF8 [97, 46, 98 :: byte]" unfolding IsStringUTF8_iff
    by (intro exI [of _ "[97, 46, 98]"]) (simp add: IsValidCharacter_def WriteUnicodeCharacter8_def to_byte_def)
  show ?thesis using dictionary_paths [OF u, of "[([97], IntegerValue 7)]" "BooleanValue True"] u by (auto dest!: spec [of _ "[97, 46, 98]"])
qed

text \<open>
  C23 (functional): merging a dictionary into another one succeeds; under each key the result has the value
  that is merged in, or the merged dictionaries where both have a dictionary, and otherwise what was there.
\<close>

theorem merge_dictionary_entries:
  assumes "dictionary_ok d" "dictionary_ok e"
  shows "\<exists>m. MergeDictionary d e = Some m \<and> dictionary_ok m \<and> (\<forall>k. map_of m k = merged_entry (map_of d k) (map_of e k))"
  by (rule Merge_entries [OF assms])

theorem merge_dictionary_entries_witness:
  "\<exists>m. MergeDictionary [([97], DictionaryValue [([98], NullValue)])]
      [([97], DictionaryValue [([99], IntegerValue 1 :: int Value)])] = Some m \<and>
     map_of m [97] = Some (DictionaryValue [([98], NullValue), ([99], IntegerValue 1)])"
proof -
  have u: "IsStringUTF8 [97 :: byte]" "IsStringUTF8 [98 :: byte]" "IsStringUTF8 [99 :: byte]" unfolding IsStringUTF8_iff
    by (intro exI [of _ "[97]"] exI [of _ "[98]"] exI [of _ "[99]"];
      simp add: IsValidCharacter_def WriteUnicodeCharacter8_def to_byte_def)+
  show ?thesis using merge_dictionary_entries [of "[([97], DictionaryValue [([98], NullValue)])]" "[([97], DictionaryValue [([99], IntegerValue 1)])]"] u
    by (auto dest!: spec [of _ "[97]"])
qed

text \<open>
  C20 (equivalence): on well-formed values a deep copy is equal to the original, \<open>Equals\<close> decides equality
  up to the comparison of doubles (so a value with a double that is not a number differs from its copy), and the copy without
  empty children is the value without them.
\<close>

theorem copies_and_comparison:
  assumes "value_ok v" "value_ok w"
  shows "DeepCopy v = Some v \<and> Equals deq v w = Some (rel_Value deq v w) \<and> CopyWithoutEmptyChildren v = Some (prune v)"
  using DeepCopy_ok(1) [OF assms(1)] Equals_ok(1) [OF assms] CopyWithoutEmptyChildren_prune(1) [OF assms(1)] by simp

theorem copies_and_comparison_witness:
  "CopyWithoutEmptyChildren (ListValue [ListValue [], DoubleValue (2 :: int)]) = Some (Some (ListValue [DoubleValue 2])) \<and>
   Equals (\<lambda>_ _. False) (DoubleValue (2 :: int)) (DoubleValue 2) = Some False"
  using copies_and_comparison [of "ListValue [ListValue [], DoubleValue 2]" NullValue] copies_and_comparison [of "DoubleValue 2" "DoubleValue 2" "\<lambda>_ _. False"] by simp

text \<open>
  C33 (error): a string of UTF-16 is stored without a check, also when it has non-characters such as
  \<open>U+FFFE\<close>; but copying the stored value fails the check of the copied string, for exactly these strings.
\<close>

theorem wide_string_copy_aborts:
  assumes "list_all IsValidCodepoint cs"
  shows "DeepCopy (CreateStringValue16 (utf16 cs)) = None \<longleftrightarrow> \<not> list_all IsValidCharacter cs"
proof -
  have w: "UTF16ToUTF8 (utf16 cs) = utf8 cs" by (simp add: UTF16ToUTF8_def ConvertUnicode_text [OF _ assms])
  have "cs = ds" if "utf8 cs = utf8 ds" "list_all IsValidCharacter ds" for ds
  proof -
    have "list_all IsValidCodepoint ds" using that(2) valid_character by (auto simp: list_all_iff)
    then have "UTF8ToWide (utf8 ds) = ds" "UTF8ToWide (utf8 cs) = cs" using assms
      by (simp_all add: UTF8ToWide_def ConvertUnicode_text Write32)
    then show ?thesis using that(1) by simp
  qed
  then have "IsStringUTF8 (utf8 cs) \<longleftrightarrow> list_all IsValidCharacter cs" unfolding IsStringUTF8_iff by blast
  then show ?thesis by (simp add: CreateStringValue16_def CreateStringValue_def w)
qed

theorem wide_string_copy_aborts_witness: "DeepCopy (CreateStringValue16 [0xFFFE]) = (None :: int Value option)"
  using wide_string_copy_aborts [of "[0xFFFE]"] by (simp add: IsValidCodepoint_def IsValidCharacter_def Write16_single)

end
