(* ===== verification/JsonReader.thy ===== *)
theory JsonReader
  imports ValuesLaws NumberConversions
begin

text \<open>
  The JSON parser (\<open>src/base/json/json_reader.cc\<close>). A pointer into the text is the list of the characters
  from there to the end of the text, with the terminating null character of \<open>c_str()\<close>; reading behind it has no result, like
  a failed check. The conversion of a string to a double and the test \<open>IsFinite\<close> are parameters.
\<close>

section \<open>Tokens and the state of the parser\<close>

type_synonym ptr = "wchar list"

definition deref :: "ptr \<Rightarrow> nat \<Rightarrow> wchar option" where
  "deref p i = (if i < length p then Some (p ! i) else None)"

datatype Token_Type =
    OBJECT_BEGIN | OBJECT_END | ARRAY_BEGIN | ARRAY_END | STRING | NUMBER | BOOL_TRUE | BOOL_FALSE | NULL_TOKEN
  | LIST_SEPARATOR | OBJECT_PAIR_SEPARATOR | END_OF_INPUT | INVALID_TOKEN

record Token =
  token_type :: Token_Type
  token_begin :: ptr
  token_length :: nat

definition new_Token :: "Token_Type \<Rightarrow> ptr \<Rightarrow> nat \<Rightarrow> Token" where
  "new_Token t b len = \<lparr>token_type = t, token_begin = b, token_length = len\<rparr>"

definition kInvalidToken :: Token where
  "kInvalidToken = new_Token INVALID_TOKEN [] 0"

datatype JsonParseError =
    JSON_NO_ERROR | JSON_BAD_ROOT_ELEMENT_TYPE | JSON_INVALID_ESCAPE | JSON_SYNTAX_ERROR | JSON_TRAILING_COMMA
  | JSON_TOO_MUCH_NESTING | JSON_UNEXPECTED_DATA_AFTER_ROOT | JSON_UNSUPPORTED_ENCODING | JSON_UNQUOTED_DICTIONARY_KEY

record json_reader =
  start_pos :: ptr
  json_pos :: ptr
  stack_depth :: nat
  allow_trailing_comma :: bool
  error_code :: JsonParseError
  error_line :: nat
  error_col :: nat

definition kStackLimit :: nat where "kStackLimit = 100"

definition new_reader :: json_reader where
  "new_reader = \<lparr>start_pos = [], json_pos = [], stack_depth = 0, allow_trailing_comma = False,
     error_code = JSON_NO_ERROR, error_line = 0, error_col = 0\<rparr>"

text \<open>The line and the column of an error; pointers into the text are equal when as much of the text follows.\<close>

fun error_position :: "ptr \<Rightarrow> ptr \<Rightarrow> nat \<Rightarrow> nat \<Rightarrow> (nat \<times> nat) option" where
  "error_position pos error_pos line_number column_number =
     (if length pos = length error_pos then Some (line_number, column_number)
      else case pos of
          [] \<Rightarrow> None
        | c # pos' \<Rightarrow>
            if c = 0 then None
            else if c = 10 then error_position pos' error_pos (line_number + 1) 1
            else error_position pos' error_pos line_number (column_number + 1))"

declare error_position.simps [simp del]

definition SetErrorCode :: "json_reader \<Rightarrow> JsonParseError \<Rightarrow> ptr \<Rightarrow> json_reader option" where
  "SetErrorCode s error error_pos = do {
     (line_number, column_number) \<leftarrow> error_position (start_pos s) error_pos 1 1;
     Some (s\<lparr>error_line := line_number, error_col := column_number, error_code := error\<rparr>) }"

section \<open>White space and comments\<close>

fun line_comment :: "ptr \<Rightarrow> ptr option" where
  "line_comment [] = None"
| "line_comment (c # p) = (if c = 0 then Some (c # p) else if c = 10 \<or> c = 13 then Some p else line_comment p)"

fun block_comment :: "ptr \<Rightarrow> ptr option" where
  "block_comment [] = None"
| "block_comment (c # p) =
     (if c = 0 then Some (c # p)
      else if c = 42 then do { d \<leftarrow> deref p 0; if d = 47 then Some (drop 1 p) else block_comment p }
      else block_comment p)"

definition EatComment :: "ptr \<Rightarrow> (bool \<times> ptr) option" where
  "EatComment p = do {
     c \<leftarrow> deref p 0;
     if c \<noteq> 47 then Some (False, p)
     else do {
       next_char \<leftarrow> deref p 1;
       if next_char = 47 then map_option (Pair True) (line_comment (drop 2 p))
       else if next_char = 42 then map_option (Pair True) (block_comment (drop 2 p))
       else Some (False, p) } }"

lemma deref_less: "deref p i = Some c \<Longrightarrow> i < length p \<and> p ! i = c"
  by (simp add: deref_def split: if_splits)

lemma line_comment_shorter: "line_comment p = Some q \<Longrightarrow> length q \<le> length p"
  by (induction p) (auto split: if_splits)

lemma block_comment_shorter: "block_comment p = Some q \<Longrightarrow> length q \<le> length p"
proof (induction p)
  case (Cons c p)
  then show ?case by (cases p) (auto simp: deref_def split: if_splits)
qed simp

lemma EatComment_shorter: "EatComment p = Some (True, q) \<Longrightarrow> length q < length p"
  by (auto simp: EatComment_def bind_eq_Some_conv split: if_splits
    dest!: deref_less line_comment_shorter block_comment_shorter)

function EatWhitespaceAndComments :: "ptr \<Rightarrow> ptr option" where
  "EatWhitespaceAndComments p = do {
     c \<leftarrow> deref p 0;
     if c = 0 then Some p
     else if c \<in> {32, 10, 13, 9} then EatWhitespaceAndComments (drop 1 p)
     else if c = 47 then do {
       (eaten, q) \<leftarrow> EatComment p;
       if \<not> eaten then Some q else EatWhitespaceAndComments q }
     else Some p }"
  by pat_completeness auto
termination
  by (relation "measure length") (auto dest!: deref_less EatComment_shorter)

declare EatWhitespaceAndComments.simps [simp del]

section \<open>Scanning tokens\<close>

fun next_match :: "ptr \<Rightarrow> nat \<Rightarrow> wchar list \<Rightarrow> bool option" where
  "next_match p i [] = Some True"
| "next_match p i (c # str) = do {
     first \<leftarrow> deref p 0;
     if first = 0 then Some False
     else do { x \<leftarrow> deref p i; if x \<noteq> c then Some False else next_match p (i + 1) str } }"

definition NextStringMatch :: "ptr \<Rightarrow> wchar list \<Rightarrow> bool option" where
  "NextStringMatch p str = next_match p 0 str"

text \<open>The number of digits that follow, and \<open>ReadIntToken\<close>: whether the digits are valid, and the new length of the token.\<close>

fun digits_run :: "ptr \<Rightarrow> nat option" where
  "digits_run [] = None"
| "digits_run (c # p) = (if c \<noteq> 0 \<and> 48 \<le> c \<and> c \<le> 57 then map_option Suc (digits_run p) else Some 0)"

definition ReadIntToken :: "ptr \<Rightarrow> nat \<Rightarrow> bool \<Rightarrow> (bool \<times> nat) option" where
  "ReadIntToken b len can_have_leading_zeros = do {
     first \<leftarrow> deref b len;
     n \<leftarrow> digits_run (drop len b);
     Some (\<not> (n = 0) \<and> \<not> (\<not> can_have_leading_zeros \<and> n > 1 \<and> first = 48), len + n) }"

definition ParseNumberToken :: "ptr \<Rightarrow> Token option" where
  "ParseNumberToken p = do {
     c \<leftarrow> deref p 0;
     let len = (if c = 45 then 1 else 0);
     _ \<leftarrow> deref p len;
     (ok, len) \<leftarrow> ReadIntToken p len False;
     if \<not> ok then Some kInvalidToken
     else do {
       c \<leftarrow> deref p len;
       (ok, len, c) \<leftarrow>
         (if c = 46 then do { (ok, len) \<leftarrow> ReadIntToken p (len + 1) True; c \<leftarrow> (if ok then deref p len else Some c); Some (ok, len, c) }
          else Some (True, len, c));
       if \<not> ok then Some kInvalidToken
       else if c = 101 \<or> c = 69 then do {
         c \<leftarrow> deref p (len + 1);
         let len = (if c = 45 \<or> c = 43 then len + 2 else len + 1);
         _ \<leftarrow> deref p len;
         (ok, len) \<leftarrow> ReadIntToken p len True;
         if \<not> ok then Some kInvalidToken else Some (new_Token NUMBER p len) }
       else Some (new_Token NUMBER p len) } }"

definition IsHexDigit :: "wchar \<Rightarrow> bool" where
  "IsHexDigit c = (48 \<le> c \<and> c \<le> 57 \<or> 97 \<le> c \<and> c \<le> 102 \<or> 65 \<le> c \<and> c \<le> 70)"

definition HexDigitToInt :: "wchar \<Rightarrow> nat option" where
  "HexDigitToInt c = do {
     guard (IsHexDigit c);
     Some (if 48 \<le> c \<and> c \<le> 57 then c - 48 else if 65 \<le> c \<and> c \<le> 70 then c - 65 + 10
           else if 97 \<le> c \<and> c \<le> 102 then c - 97 + 10 else 0) }"

text \<open>\<open>digits\<close> digits from an index on.\<close>

fun ReadHexDigits :: "ptr \<Rightarrow> nat \<Rightarrow> nat \<Rightarrow> bool option" where
  "ReadHexDigits b i 0 = Some True"
| "ReadHexDigits b i (Suc digits) = do {
     c \<leftarrow> deref b i;
     if c = 0 then Some False else if \<not> IsHexDigit c then Some False else ReadHexDigits b (i + 1) digits }"

text \<open>The loop of \<open>ParseStringToken\<close>: the token, or the position of an invalid escape sequence.\<close>

datatype string_token = StringToken Token | Unterminated | InvalidEscape nat

function string_loop :: "ptr \<Rightarrow> nat \<Rightarrow> string_token option" where
  "string_loop b len = do {
     c \<leftarrow> deref b len;
     if c = 0 then Some Unterminated
     else if c = 92 then do {
       c \<leftarrow> deref b (len + 1);
       if c = 120 then do {
         ok \<leftarrow> ReadHexDigits b (len + 1 + 1) 2;
         if \<not> ok then Some (InvalidEscape (len + 1)) else string_loop b (len + 1 + 2 + 1) }
       else if c = 117 then do {
         ok \<leftarrow> ReadHexDigits b (len + 1 + 1) 4;
         if \<not> ok then Some (InvalidEscape (len + 1)) else string_loop b (len + 1 + 4 + 1) }
       else if c \<in> {92, 47, 98, 102, 110, 114, 116, 118, 34} then string_loop b (len + 1 + 1)
       else Some (InvalidEscape (len + 1)) }
     else if c = 34 then Some (StringToken (new_Token STRING b (len + 1)))
     else string_loop b (len + 1) }"
  by pat_completeness auto
termination
  by (relation "measure (\<lambda>(b, len). length b - len)") (auto dest!: deref_less)

declare string_loop.simps [simp del]

definition ParseStringToken :: "json_reader \<Rightarrow> (Token \<times> json_reader) option" where
  "ParseStringToken s = do {
     r \<leftarrow> string_loop (json_pos s) 1;
     case r of
       StringToken t \<Rightarrow> Some (t, s)
     | Unterminated \<Rightarrow> Some (kInvalidToken, s)
     | InvalidEscape len \<Rightarrow> do { s \<leftarrow> SetErrorCode s JSON_INVALID_ESCAPE (drop len (json_pos s)); Some (kInvalidToken, s) } }"

definition kNullString :: "wchar list" where "kNullString = [110, 117, 108, 108]"
definition kTrueString :: "wchar list" where "kTrueString = [116, 114, 117, 101]"
definition kFalseString :: "wchar list" where "kFalseString = [102, 97, 108, 115, 101]"

text \<open>An unmatched word, like any other character, leaves the token \<open>INVALID_TOKEN\<close>.\<close>

definition keyword_token :: "ptr \<Rightarrow> wchar list \<Rightarrow> Token_Type \<Rightarrow> Token option" where
  "keyword_token p str t = do {
     matched \<leftarrow> NextStringMatch p str;
     Some (if matched then new_Token t p (length str) else kInvalidToken) }"

definition scan_token :: "json_reader \<Rightarrow> (Token \<times> json_reader) option" where
  "scan_token s = do {
     let p = json_pos s;
     c \<leftarrow> deref p 0;
     if c = 0 then Some (new_Token END_OF_INPUT [] 0, s)
     else if c = 110 then do { t \<leftarrow> keyword_token p kNullString NULL_TOKEN; Some (t, s) }
     else if c = 116 then do { t \<leftarrow> keyword_token p kTrueString BOOL_TRUE; Some (t, s) }
     else if c = 102 then do { t \<leftarrow> keyword_token p kFalseString BOOL_FALSE; Some (t, s) }
     else if c = 91 then Some (new_Token ARRAY_BEGIN p 1, s)
     else if c = 93 then Some (new_Token ARRAY_END p 1, s)
     else if c = 44 then Some (new_Token LIST_SEPARATOR p 1, s)
     else if c = 123 then Some (new_Token OBJECT_BEGIN p 1, s)
     else if c = 125 then Some (new_Token OBJECT_END p 1, s)
     else if c = 58 then Some (new_Token OBJECT_PAIR_SEPARATOR p 1, s)
     else if 48 \<le> c \<and> c \<le> 57 \<or> c = 45 then do { t \<leftarrow> ParseNumberToken p; Some (t, s) }
     else if c = 34 then ParseStringToken s
     else Some (kInvalidToken, s) }"

definition ParseToken :: "json_reader \<Rightarrow> (Token \<times> json_reader) option" where
  "ParseToken s = do { p \<leftarrow> EatWhitespaceAndComments (json_pos s); scan_token (s\<lparr>json_pos := p\<rparr>) }"

section \<open>Decoding tokens\<close>

definition DecodeNumber :: "(byte list \<Rightarrow> 'd option) \<Rightarrow> ('d \<Rightarrow> bool) \<Rightarrow> Token \<Rightarrow> 'd Value option" where
  "DecodeNumber StringToDouble IsFinite t =
     (let num_string = WideToUTF8 (take (token_length t) (token_begin t))
      in case StringToInt num_string of
           (True, num_int) \<Rightarrow> Some (IntegerValue num_int)
         | (False, _) \<Rightarrow>
             (case StringToDouble num_string of
                Some num_double \<Rightarrow> if IsFinite num_double then Some (DoubleValue num_double) else None
              | None \<Rightarrow> None))"

text \<open>The value of \<open>digits\<close> hexadecimal digits from an index on.\<close>

fun hex_number :: "ptr \<Rightarrow> nat \<Rightarrow> nat \<Rightarrow> nat \<Rightarrow> nat option" where
  "hex_number b i 0 n = Some n"
| "hex_number b i (Suc digits) n = do {
     c \<leftarrow> deref b i;
     d \<leftarrow> HexDigitToInt c;
     hex_number b (i + 1) digits (push_bit 4 n + d) }"

definition single_escape :: "wchar \<Rightarrow> wchar option" where
  "single_escape c =
     (if c = 34 \<or> c = 47 \<or> c = 92 then Some c
      else if c = 98 then Some 8 else if c = 102 then Some 12 else if c = 110 then Some 10
      else if c = 114 then Some 13 else if c = 116 then Some 9 else if c = 118 then Some 11 else None)"

function decode_loop :: "ptr \<Rightarrow> nat \<Rightarrow> nat \<Rightarrow> wchar list \<Rightarrow> wchar list option" where
  "decode_loop b len i decoded_str =
     (if i + 1 < len then do {
        c \<leftarrow> deref b i;
        if c = 92 then do {
          c \<leftarrow> deref b (i + 1);
          if c = 120 then do { n \<leftarrow> hex_number b (i + 2) 2 0; decode_loop b len (i + 1 + 2 + 1) (decoded_str @ [n]) }
          else if c = 117 then do { n \<leftarrow> hex_number b (i + 2) 4 0; decode_loop b len (i + 1 + 4 + 1) (decoded_str @ [n]) }
          else do { n \<leftarrow> single_escape c; decode_loop b len (i + 1 + 1) (decoded_str @ [n]) } }
        else decode_loop b len (i + 1) (decoded_str @ [c]) }
      else Some decoded_str)"
  by pat_completeness auto
termination
  by (relation "measure (\<lambda>(b, len, i, d). len - i)") auto

declare decode_loop.simps [simp del]

text \<open>A missing result is the \<open>NOTREACHED\<close> of an escape sequence that the scanner lets through.\<close>

definition DecodeString :: "Token \<Rightarrow> 'd Value option" where
  "DecodeString t = do {
     decoded_str \<leftarrow> decode_loop (token_begin t) (token_length t) 1 [];
     Some (CreateStringValue16 (WideToUTF16 decoded_str)) }"

section \<open>Building values\<close>

definition advance_past :: "json_reader \<Rightarrow> Token \<Rightarrow> json_reader" where
  "advance_past s t = s\<lparr>json_pos := drop (token_length t) (json_pos s)\<rparr>"

text \<open>
  After a value of a list or of an object: the next token, or nothing when the container is malformed. The
  \<open>bool\<close> is whether the loop goes on (with its test of the token).
\<close>

definition after_value :: "json_reader \<Rightarrow> Token_Type \<Rightarrow> ((bool \<times> Token) option \<times> json_reader) option" where
  "after_value s closing = do {
     (token, s) \<leftarrow> ParseToken s;
     if token_type token = LIST_SEPARATOR then do {
       (token, s) \<leftarrow> ParseToken (advance_past s token);
       if token_type token = closing then
         if \<not> allow_trailing_comma s then do {
           s \<leftarrow> SetErrorCode s JSON_TRAILING_COMMA (json_pos s);
           Some (None, s) }
         else Some (Some (False, token), s)
       else Some (Some (True, token), s) }
     else if token_type token \<noteq> closing then Some (None, s)
     else Some (Some (True, token), s) }"

text \<open>
  \<open>BuildValue\<close> and its two loops are one function over what is to be done. The result of a loop is the token that ends it
  and the container; for \<open>Build\<close> it is the last token and the value. \<open>None\<close> in it is \<open>NULL\<close>.
\<close>

datatype 'd task = Build bool | Array_loop Token "'d Value list" | Object_loop Token "'d dictionary"

partial_function (option) BuildValue ::
  "(byte list \<Rightarrow> 'd option) \<Rightarrow> ('d \<Rightarrow> bool) \<Rightarrow> 'd task \<Rightarrow> json_reader \<Rightarrow> ((Token \<times> 'd Value) option \<times> json_reader) option"
where
  "BuildValue StringToDouble IsFinite task s =
     (case task of
        Build is_root \<Rightarrow>
          let s = s\<lparr>stack_depth := stack_depth s + 1\<rparr> in
          if stack_depth s > kStackLimit then do {
            s \<leftarrow> SetErrorCode s JSON_TOO_MUCH_NESTING (json_pos s);
            Some (None, s) }
          else do {
            (token, s) \<leftarrow> ParseToken s;
            if is_root \<and> token_type token \<noteq> OBJECT_BEGIN \<and> token_type token \<noteq> ARRAY_BEGIN then do {
              s \<leftarrow> SetErrorCode s JSON_BAD_ROOT_ELEMENT_TYPE (json_pos s);
              Some (None, s) }
            else do {
              (node, s) \<leftarrow>
                (case token_type token of
                   NULL_TOKEN \<Rightarrow> Some (Some (token, NullValue), s)
                 | BOOL_TRUE \<Rightarrow> Some (Some (token, BooleanValue True), s)
                 | BOOL_FALSE \<Rightarrow> Some (Some (token, BooleanValue False), s)
                 | NUMBER \<Rightarrow> Some (map_option (Pair token) (DecodeNumber StringToDouble IsFinite token), s)
                 | STRING \<Rightarrow> do { v \<leftarrow> DecodeString token; Some (Some (token, v), s) }
                 | ARRAY_BEGIN \<Rightarrow> do {
                     (token, s) \<leftarrow> ParseToken (advance_past s token);
                     BuildValue StringToDouble IsFinite (Array_loop token []) s }
                 | OBJECT_BEGIN \<Rightarrow> do {
                     (token, s) \<leftarrow> ParseToken (advance_past s token);
                     BuildValue StringToDouble IsFinite (Object_loop token []) s }
                 | _ \<Rightarrow> Some (None, s));
              case node of
                None \<Rightarrow> Some (None, s)
              | Some (token, v) \<Rightarrow>
                  let s = advance_past s token in Some (Some (token, v), s\<lparr>stack_depth := stack_depth s - 1\<rparr>) } }
      | Array_loop token l \<Rightarrow>
          if token_type token = ARRAY_END then Some (Some (token, ListValue l), s)
          else do {
            (r, s) \<leftarrow> BuildValue StringToDouble IsFinite (Build False) s;
            case r of
              None \<Rightarrow> Some (None, s)
            | Some (_, array_node) \<Rightarrow> do {
                (r, s) \<leftarrow> after_value s ARRAY_END;
                case r of
                  None \<Rightarrow> Some (None, s)
                | Some (goes_on, token) \<Rightarrow>
                    if goes_on then BuildValue StringToDouble IsFinite (Array_loop token (List_Append l array_node)) s
                    else Some (Some (token, ListValue (List_Append l array_node)), s) } }
      | Object_loop token d \<Rightarrow>
          if token_type token = OBJECT_END then Some (Some (token, DictionaryValue d), s)
          else if token_type token \<noteq> STRING then do {
            s \<leftarrow> SetErrorCode s JSON_UNQUOTED_DICTIONARY_KEY (json_pos s);
            Some (None, s) }
          else do {
            dict_key_value \<leftarrow> DecodeString token;
            dict_key \<leftarrow> GetAsString (dict_key_value :: 'd Value);
            (token, s) \<leftarrow> ParseToken (advance_past s token);
            if token_type token \<noteq> OBJECT_PAIR_SEPARATOR then Some (None, s)
            else do {
              (token, s) \<leftarrow> ParseToken (advance_past s token);
              (r, s) \<leftarrow> BuildValue StringToDouble IsFinite (Build False) s;
              case r of
                None \<Rightarrow> Some (None, s)
              | Some (_, dict_value) \<Rightarrow> do {
                  d \<leftarrow> SetWithoutPathExpansion d dict_key dict_value;
                  (r, s) \<leftarrow> after_value s OBJECT_END;
                  case r of
                    None \<Rightarrow> Some (None, s)
                  | Some (goes_on, token) \<Rightarrow>
                      if goes_on then BuildValue StringToDouble IsFinite (Object_loop token d) s
                      else Some (Some (token, DictionaryValue d), s) } } })"

text \<open>The text up to its first null character, as \<open>std::string\<close> is made from \<open>c_str()\<close>.\<close>

definition c_str :: "byte list \<Rightarrow> byte list" where
  "c_str json = takeWhile (\<lambda>b. b \<noteq> 0) json"

definition JsonToValue ::
  "(byte list \<Rightarrow> 'd option) \<Rightarrow> ('d \<Rightarrow> bool) \<Rightarrow> json_reader \<Rightarrow> byte list \<Rightarrow> bool \<Rightarrow> bool \<Rightarrow> ('d Value option \<times> json_reader) option"
where
  "JsonToValue StringToDouble IsFinite s json check_root trailing_comma =
     (if \<not> IsStringUTF8 (c_str json) then Some (None, s\<lparr>error_code := JSON_UNSUPPORTED_ENCODING\<rparr>)
      else do {
        let json_wide = UTF8ToWide json;
        let start = json_wide @ [0];
        let start = (if json_wide \<noteq> [] \<and> hd start = 0xFEFF then drop 1 start else start);
        let s = s\<lparr>start_pos := start, json_pos := start, allow_trailing_comma := trailing_comma, stack_depth := 0,
                  error_code := JSON_NO_ERROR\<rparr>;
        (root, s) \<leftarrow> BuildValue StringToDouble IsFinite (Build check_root) s;
        (accepted, s) \<leftarrow>
          (if root \<noteq> None then do {
             (token, s) \<leftarrow> ParseToken s;
             if token_type token = END_OF_INPUT then Some (True, s)
             else do { s \<leftarrow> SetErrorCode s JSON_UNEXPECTED_DATA_AFTER_ROOT (json_pos s); Some (False, s) } }
           else Some (False, s));
        if accepted then Some (map_option snd root, s)
        else do {
          s \<leftarrow> (if error_code s = JSON_NO_ERROR then SetErrorCode s JSON_SYNTAX_ERROR (json_pos s) else Some s);
          Some (None, s) } })"

section \<open>Errors\<close>

definition ErrorCodeToString :: "JsonParseError \<Rightarrow> string" where
  "ErrorCodeToString error = (case error of
       JSON_NO_ERROR \<Rightarrow> ''''
     | JSON_BAD_ROOT_ELEMENT_TYPE \<Rightarrow> ''Root value must be an array or object.''
     | JSON_INVALID_ESCAPE \<Rightarrow> ''Invalid escape sequence.''
     | JSON_SYNTAX_ERROR \<Rightarrow> ''Syntax error.''
     | JSON_TRAILING_COMMA \<Rightarrow> ''Trailing comma not allowed.''
     | JSON_TOO_MUCH_NESTING \<Rightarrow> ''Too much nesting.''
     | JSON_UNEXPECTED_DATA_AFTER_ROOT \<Rightarrow> ''Unexpected data after root element.''
     | JSON_UNSUPPORTED_ENCODING \<Rightarrow> ''Unsupported encoding. JSON must be UTF-8.''
     | JSON_UNQUOTED_DICTIONARY_KEY \<Rightarrow> ''Dictionary keys must be quoted.'')"

text \<open>The conversion of a number with \<open>%i\<close> or \<open>%d\<close>, without its sign.\<close>

fun decimal :: "nat \<Rightarrow> nat list" where
  "decimal n = (if n < 10 then [48 + n] else decimal (n div 10) @ [48 + n mod 10])"

declare decimal.simps [simp del]

definition FormatErrorMessage :: "nat \<Rightarrow> nat \<Rightarrow> string \<Rightarrow> string" where
  "FormatErrorMessage line column description =
     (if line \<noteq> 0 \<or> column \<noteq> 0
      then ''Line: '' @ map char_of (decimal line) @ '', column: '' @ map char_of (decimal column) @ '', '' @ description
      else description)"

definition GetErrorMessage :: "json_reader \<Rightarrow> string" where
  "GetErrorMessage s = FormatErrorMessage (error_line s) (error_col s) (ErrorCodeToString (error_code s))"

definition ReadAndReturnError ::
  "(byte list \<Rightarrow> 'd option) \<Rightarrow> ('d \<Rightarrow> bool) \<Rightarrow> byte list \<Rightarrow> bool \<Rightarrow> ('d Value option \<times> (JsonParseError \<times> string) option) option"
where
  "ReadAndReturnError StringToDouble IsFinite json trailing_comma = do {
     (root, s) \<leftarrow> JsonToValue StringToDouble IsFinite new_reader json True trailing_comma;
     Some (if root \<noteq> None then (root, None) else (None, Some (error_code s, GetErrorMessage s))) }"

definition JSONReader_Read :: "(byte list \<Rightarrow> 'd option) \<Rightarrow> ('d \<Rightarrow> bool) \<Rightarrow> byte list \<Rightarrow> bool \<Rightarrow> 'd Value option option" where
  "JSONReader_Read StringToDouble IsFinite json trailing_comma =
     map_option fst (ReadAndReturnError StringToDouble IsFinite json trailing_comma)"

end
