(* ===== verification/JsonWriter.thy ===== *)
theory JsonWriter
  imports JsonReader
begin

text \<open>
  The JSON writer (\<open>src/base/json/json_writer.cc\<close>, \<open>src/base/json/string_escape.cc\<close>). The output is a list of bytes
  that the functions return instead of appending it. The conversion of a double to a string is a parameter.
\<close>

section \<open>Quoted strings\<close>

text \<open>Characters of the output are written as numbers.\<close>

definition ascii :: "nat list \<Rightarrow> byte list" where
  "ascii = map to_byte"

definition JsonSingleEscapeChar :: "nat \<Rightarrow> nat list option" where
  "JsonSingleEscapeChar c =
     (if c = 8 then Some [92, 98] else if c = 12 then Some [92, 102] else if c = 10 then Some [92, 110]
      else if c = 13 then Some [92, 114] else if c = 9 then Some [92, 116] else if c = 92 then Some [92, 92]
      else if c = 34 then Some [92, 34] else None)"

definition hex_char :: "nat \<Rightarrow> nat" where
  "hex_char d = (if d < 10 then 48 + d else 55 + d)"

text \<open>The format \<open>\\u%04X\<close> of a number below \<open>2 ^ 16\<close>.\<close>

definition unicode_escape :: "nat \<Rightarrow> nat list" where
  "unicode_escape c = [92, 117, hex_char (c div 4096 mod 16), hex_char (c div 256 mod 16), hex_char (c div 16 mod 16), hex_char (c mod 16)]"

definition JsonEscapeChar :: "nat \<Rightarrow> nat list" where
  "JsonEscapeChar c =
     (case JsonSingleEscapeChar c of
        Some e \<Rightarrow> e
      | None \<Rightarrow> if c < 32 \<or> c > 126 \<or> c = 60 \<or> c = 62 then unicode_escape c else [c])"

text \<open>The template, on the unsigned values of the characters.\<close>

definition JsonDoubleQuoteT :: "nat list \<Rightarrow> bool \<Rightarrow> nat list" where
  "JsonDoubleQuoteT str put_in_quotes =
     (if put_in_quotes then [34] else []) @ concat (map JsonEscapeChar str) @ (if put_in_quotes then [34] else [])"

definition JsonDoubleQuote :: "byte list \<Rightarrow> bool \<Rightarrow> nat list" where
  "JsonDoubleQuote str put_in_quotes = JsonDoubleQuoteT (map unat str) put_in_quotes"

definition JsonDoubleQuote16 :: "char16 list \<Rightarrow> bool \<Rightarrow> nat list" where
  "JsonDoubleQuote16 str put_in_quotes = JsonDoubleQuoteT str put_in_quotes"

definition GetDoubleQuotedJson :: "byte list \<Rightarrow> nat list" where
  "GetDoubleQuotedJson str = JsonDoubleQuote str True"

definition GetDoubleQuotedJson16 :: "char16 list \<Rightarrow> nat list" where
  "GetDoubleQuotedJson16 str = JsonDoubleQuote16 str True"

section \<open>Values\<close>

definition kPrettyPrintLineEnding :: "nat list" where "kPrettyPrintLineEnding = [10]"

definition AppendQuotedString :: "byte list \<Rightarrow> nat list" where
  "AppendQuotedString str = JsonDoubleQuote16 (UTF8ToUTF16 str) True"

definition IndentLine :: "nat \<Rightarrow> nat list" where
  "IndentLine depth = replicate (depth * 3) 32"

text \<open>The format \<open>%d\<close>.\<close>

definition format_d :: "int32 \<Rightarrow> nat list" where
  "format_d i = (if i < 0 then 45 # decimal (nat (- i)) else decimal (nat i))"

text \<open>The text of a double is completed so that it is read as a double.\<close>

definition write_double :: "('d \<Rightarrow> nat list) \<Rightarrow> 'd \<Rightarrow> nat list" where
  "write_double DoubleToString value =
     (let real = DoubleToString value;
          real = (if 46 \<notin> set real \<and> 101 \<notin> set real \<and> 69 \<notin> set real then real @ [46, 48] else real)
      in if real ! 0 = 46 then 48 # real
         else if length real > 1 \<and> real ! 0 = 45 \<and> real ! 1 = 46 then 45 # 48 # drop 1 real
         else real)"

text \<open>\<open>None\<close> is the \<open>NOTREACHED\<close> of a binary value.\<close>

fun BuildJSONString :: "('d \<Rightarrow> nat list) \<Rightarrow> bool \<Rightarrow> 'd Value \<Rightarrow> nat \<Rightarrow> bool \<Rightarrow> nat list option"
  and write_list :: "('d \<Rightarrow> nat list) \<Rightarrow> bool \<Rightarrow> 'd Value list \<Rightarrow> bool \<Rightarrow> nat \<Rightarrow> bool \<Rightarrow> nat list option"
  and write_members :: "('d \<Rightarrow> nat list) \<Rightarrow> bool \<Rightarrow> 'd dictionary \<Rightarrow> bool \<Rightarrow> nat \<Rightarrow> bool \<Rightarrow> nat list option"
where
  "BuildJSONString dts pretty NullValue depth escape = Some [110, 117, 108, 108]"
| "BuildJSONString dts pretty (BooleanValue value) depth escape =
     Some (if value then [116, 114, 117, 101] else [102, 97, 108, 115, 101])"
| "BuildJSONString dts pretty (IntegerValue value) depth escape = Some (format_d value)"
| "BuildJSONString dts pretty (DoubleValue value) depth escape = Some (write_double dts value)"
| "BuildJSONString dts pretty (StringValue value) depth escape =
     Some (if escape then JsonDoubleQuote16 (UTF8ToUTF16 value) True else JsonDoubleQuote value True)"
| "BuildJSONString dts pretty (BinaryValue value) depth escape = None"
| "BuildJSONString dts pretty (ListValue l) depth escape = do {
     elements \<leftarrow> write_list dts pretty l True depth escape;
     Some ([91] @ (if pretty then [32] else []) @ elements @ (if pretty then [32] else []) @ [93]) }"
| "BuildJSONString dts pretty (DictionaryValue d) depth escape = do {
     entries \<leftarrow> write_members dts pretty d True depth escape;
     Some ([123] @ (if pretty then kPrettyPrintLineEnding else []) @ entries @
       (if pretty then kPrettyPrintLineEnding @ IndentLine depth else []) @ [125]) }"
| "write_list dts pretty [] first depth escape = Some []"
| "write_list dts pretty (v # vs) first depth escape = do {
     element \<leftarrow> BuildJSONString dts pretty v depth escape;
     elements \<leftarrow> write_list dts pretty vs False depth escape;
     Some ((if first then [] else if pretty then [44, 32] else [44]) @ element @ elements) }"
| "write_members dts pretty [] first depth escape = Some []"
| "write_members dts pretty ((k, v) # es) first depth escape = do {
     guard (IsStringUTF8 k);
     element \<leftarrow> BuildJSONString dts pretty v (depth + 1) escape;
     entries \<leftarrow> write_members dts pretty es False depth escape;
     Some ((if first then [] else 44 # (if pretty then kPrettyPrintLineEnding else [])) @
       (if pretty then IndentLine (depth + 1) else []) @ AppendQuotedString k @ (if pretty then [58, 32] else [58]) @
       element @ entries) }"

definition WriteWithOptionalEscape :: "('d \<Rightarrow> nat list) \<Rightarrow> 'd Value \<Rightarrow> bool \<Rightarrow> bool \<Rightarrow> byte list option" where
  "WriteWithOptionalEscape dts node pretty escape = do {
     json \<leftarrow> BuildJSONString dts pretty node 0 escape;
     Some (ascii (json @ (if pretty then kPrettyPrintLineEnding else []))) }"

definition JSONWriter_Write :: "('d \<Rightarrow> nat list) \<Rightarrow> 'd Value \<Rightarrow> bool \<Rightarrow> byte list option" where
  "JSONWriter_Write dts node pretty = WriteWithOptionalEscape dts node pretty True"

end
