(* ===== verification/JsonScanning.thy ===== *)
theory JsonScanning
  imports JsonWriter NumberProofs
begin

text \<open>
  What the scanner of the parser finds in the texts that the writer produces: white space, words, numbers and
  quoted strings, and that a quoted string is decoded to the characters it was made from.
\<close>

section \<open>Pointers\<close>

lemma deref_nth [simp]: "deref (c # p) 0 = Some c" "deref (c # p) (Suc i) = deref p i" "deref [] i = None"
  by (simp_all add: deref_def)

lemma deref_drop: "drop i b = p \<Longrightarrow> deref b (i + k) = deref p k"
  by (auto simp: deref_def)

definition white :: "ptr \<Rightarrow> bool" where
  "white ws \<longleftrightarrow> (\<forall>c \<in> set ws. c = 32 \<or> c = 10)"

lemma white_simps [simp]: "white []" "white (c # ws) \<longleftrightarrow> (c = 32 \<or> c = 10) \<and> white ws" "white (ws @ vs) \<longleftrightarrow> white ws \<and> white vs"
  "white (replicate n 32)"
  by (auto simp: white_def)

lemma eat_white: "white ws \<Longrightarrow> p \<noteq> [] \<Longrightarrow> hd p \<notin> {32, 10, 13, 9, 47} \<Longrightarrow> EatWhitespaceAndComments (ws @ p) = Some p"
proof (induction ws)
  case Nil
  then show ?case by (cases p; subst EatWhitespaceAndComments.simps) auto
next
  case (Cons c ws)
  then show ?case by (subst EatWhitespaceAndComments.simps) auto
qed

lemma parse_white:
  assumes "json_pos s = ws @ p" "white ws" "p \<noteq> []" "hd p \<notin> {32, 10, 13, 9, 47}"
  shows "ParseToken s = scan_token (s\<lparr>json_pos := p\<rparr>)"
  using eat_white [OF assms(2-4)] assms(1) by (simp add: ParseToken_def)

section \<open>Numbers\<close>

definition is_digit :: "nat \<Rightarrow> bool" where
  "is_digit c \<longleftrightarrow> 48 \<le> c \<and> c \<le> 57"

abbreviation digits :: "nat list \<Rightarrow> bool" where
  "digits ds \<equiv> ds \<noteq> [] \<and> list_all is_digit ds"

text \<open>The numbers of JSON: a sign, digits without leading zeros, a fraction and an exponent.\<close>

definition number_text :: "nat list \<Rightarrow> bool" where
  "number_text t \<longleftrightarrow> (\<exists>sg ip fp ep. t = sg @ ip @ fp @ ep \<and> (sg = [] \<or> sg = [45]) \<and>
     digits ip \<and> (length ip > 1 \<longrightarrow> hd ip \<noteq> 48) \<and>
     (fp = [] \<or> (\<exists>ds. fp = 46 # ds \<and> digits ds)) \<and>
     (ep = [] \<or> (\<exists>e sn ds. ep = e # sn @ ds \<and> (e = 101 \<or> e = 69) \<and> (sn = [] \<or> sn = [43] \<or> sn = [45]) \<and> digits ds)))"

definition delimited :: "ptr \<Rightarrow> bool" where
  "delimited p \<longleftrightarrow> p \<noteq> [] \<and> hd p \<in> {44, 93, 125, 32, 10, 0}"

definition no_digit :: "ptr \<Rightarrow> bool" where
  "no_digit p \<longleftrightarrow> p \<noteq> [] \<and> \<not> is_digit (hd p)"

lemma digits_run_digits: "list_all is_digit ds \<Longrightarrow> no_digit p \<Longrightarrow> digits_run (ds @ p) = Some (length ds)"
proof (induction ds)
  case Nil
  then show ?case by (cases p) (auto simp: no_digit_def is_digit_def)
qed (auto simp: is_digit_def)

lemma ReadInt_digits:
  assumes "drop len b = ds @ p" "digits ds" "no_digit p"
  shows "ReadIntToken b len lead = Some (lead \<or> \<not> (length ds > 1 \<and> hd ds = 48), len + length ds)"
  using digits_run_digits [OF _ assms(3), of ds] deref_drop [OF assms(1), of 0] assms
  by (cases ds) (auto simp: ReadIntToken_def)

lemma ReadInt_next: "drop len b = ds @ p \<Longrightarrow> drop (len + length ds) b = p"
  by (metis add.commute append_eq_conv_conj drop_drop)

lemma delimited_no_digit: "delimited p \<Longrightarrow> no_digit p"
  by (auto simp: delimited_def no_digit_def is_digit_def)

lemma ParseNumberToken_text:
  assumes "number_text t" "delimited p"
  shows "ParseNumberToken (t @ p) = Some (new_Token NUMBER (t @ p) (length t))"
proof -
  obtain sg ip fp ep where t: "t = sg @ ip @ fp @ ep" and sg: "sg = [] \<or> sg = [45]" and
    ip: "digits ip" "length ip > 1 \<longrightarrow> hd ip \<noteq> 48" and fp: "fp = [] \<or> (\<exists>ds. fp = 46 # ds \<and> digits ds)" and
    ep: "ep = [] \<or> (\<exists>e sn ds. ep = e # sn @ ds \<and> (e = 101 \<or> e = 69) \<and> (sn = [] \<or> sn = [43] \<or> sn = [45]) \<and> digits ds)"
    using assms(1) unfolding number_text_def by blast
  let ?b = "t @ p" and ?n = "length sg" and ?m = "length sg + length ip" and ?k = "length sg + length ip + length fp"
  have d0: "drop ?n ?b = ip @ (fp @ ep @ p)" and d1: "drop ?m ?b = fp @ ep @ p" and d2: "drop ?k ?b = ep @ p"
    by (simp_all add: t)
  have np: "no_digit p" by (rule delimited_no_digit [OF assms(2)])
  have ne: "no_digit (ep @ p)" using ep np by (auto simp: no_digit_def is_digit_def)
  have nf: "no_digit (fp @ ep @ p)" using fp ne by (auto simp: no_digit_def is_digit_def)
  have start: "deref ?b 0 = Some (hd (sg @ ip))" "deref ?b ?n \<noteq> None"
    using ip(1) sg t by (auto simp: deref_def hd_append hd_conv_nth nth_append)
  have first: "(if hd (sg @ ip) = 45 then 1 else 0) = ?n"
    using sg ip(1) by (cases ip) (auto simp: is_digit_def)
  have r1: "ReadIntToken ?b ?n False = Some (True, ?m)" using ReadInt_digits [OF d0 ip(1) nf] ip(2) by auto
  have c1: "deref ?b ?m = Some (hd (fp @ ep @ p))"
    using deref_drop [OF d1, of 0] nf by (cases "fp @ ep @ p") (auto simp: no_digit_def)
  have c2: "deref ?b ?k = Some (hd (ep @ p))"
    using deref_drop [OF d2, of 0] ne by (cases "ep @ p") (auto simp: no_digit_def)
  have hp: "hd p \<noteq> 46" "hd p \<noteq> 101" "hd p \<noteq> 69" using assms(2) by (auto simp: delimited_def)
  have frac: "(if hd (fp @ ep @ p) = 46
      then do { (ok, len) \<leftarrow> ReadIntToken ?b (?m + 1) True; c \<leftarrow> (if ok then deref ?b len else Some (hd (fp @ ep @ p))); Some (ok, len, c) }
      else Some (True, ?m, hd (fp @ ep @ p))) = Some (True, ?k, hd (ep @ p))"
  proof (cases "fp = []")
    case True
    then show ?thesis using ep hp by (auto simp: hd_append)
  next
    case False
    then obtain ds where ds: "fp = 46 # ds" "digits ds" using fp by blast
    have "drop (?m + 1) ?b = ds @ (ep @ p)" using ds(1) by (simp add: t)
    from ReadInt_digits [OF this ds(2) ne, of True] show ?thesis using ds c2 by simp
  qed
  have expo: "(if hd (ep @ p) = 101 \<or> hd (ep @ p) = 69 then do {
         c \<leftarrow> deref ?b (?k + 1);
         let len = (if c = 45 \<or> c = 43 then ?k + 2 else ?k + 1);
         _ \<leftarrow> deref ?b len;
         (ok, len) \<leftarrow> ReadIntToken ?b len True;
         if \<not> ok then Some kInvalidToken else Some (new_Token NUMBER ?b len) }
       else Some (new_Token NUMBER ?b ?k)) = Some (new_Token NUMBER ?b (length t))"
  proof (cases "ep = []")
    case True
    then show ?thesis using hp by (simp add: t add.assoc)
  next
    case False
    then obtain e sn ds where e: "ep = e # sn @ ds" "e = 101 \<or> e = 69" "sn = [] \<or> sn = [43] \<or> sn = [45]" "digits ds"
      using ep by blast
    have d3: "drop (?k + 1) ?b = sn @ ds @ p" using e(1) by (simp add: t)
    have d4: "drop (?k + 1 + length sn) ?b = ds @ p" using e(1) by (simp add: t)
    have sgn: "deref ?b (?k + 1) = Some (hd (sn @ ds))"
      using deref_drop [OF d3, of 0] e(3,4) by (cases ds) auto
    have len: "(if hd (sn @ ds) = 45 \<or> hd (sn @ ds) = 43 then ?k + 2 else ?k + 1) = ?k + 1 + length sn"
      using e(3,4) by (cases ds) (auto simp: is_digit_def)
    have nxt: "deref ?b (?k + 1 + length sn) = Some (hd ds)"
      using deref_drop [OF d4, of 0] e(4) by (cases ds) auto
    have lt: "length t = ?k + 1 + length sn + length ds" using e(1) by (simp add: t)
    show ?thesis using ReadInt_digits [OF d4 e(4) np, of True] sgn len nxt e(1,2) by (simp add: lt Let_def)
  qed
  obtain x where x: "deref ?b ?n = Some x" using start(2) by blast
  show ?thesis unfolding ParseNumberToken_def
    using start(1) x first r1 c1 frac expo by (simp only: bind.simps Let_def case_prod_conv simp_thms if_True if_False option.case)
qed

section \<open>Quoted strings\<close>

lemma hex_char_digit: "d < 16 \<Longrightarrow> IsHexDigit (hex_char d) \<and> HexDigitToInt (hex_char d) = Some d \<and> hex_char d \<noteq> 0"
  by (auto simp: IsHexDigit_def HexDigitToInt_def hex_char_def)

lemma hex_digits_16: "c < 2 ^ 16 \<Longrightarrow> ((c div 4096 mod 16 * 16 + c div 256 mod 16) * 16 + c div 16 mod 16) * 16 + c mod 16 = (c :: nat)"
proof -
  assume "c < 2 ^ 16"
  then have "c div 4096 mod 16 = c div 4096" by (intro mod_less) (simp add: less_mult_imp_div_less)
  moreover have "c div 4096 = c div 256 div 16" "c div 256 = c div 16 div 16" by (simp_all add: div_mult2_eq [symmetric])
  ultimately show ?thesis by (metis div_mult_mod_eq)
qed

lemma four: "(4 :: nat) = Suc (Suc (Suc (Suc 0)))"
  by simp

lemma four_hex_digits:
  assumes "drop i b = hex_char w # hex_char x # hex_char y # hex_char z # q" "w < 16" "x < 16" "y < 16" "z < 16"
  shows "ReadHexDigits b i 4 = Some True" "hex_number b i 4 0 = Some (((w * 16 + x) * 16 + y) * 16 + z)"
proof -
  note at = deref_drop [OF assms(1)]
  have d: "deref b i = Some (hex_char w)" "deref b (Suc i) = Some (hex_char x)" "deref b (Suc (Suc i)) = Some (hex_char y)"
    "deref b (Suc (Suc (Suc i))) = Some (hex_char z)"
    using at [of 0] at [of "Suc 0"] at [of "Suc (Suc 0)"] at [of "Suc (Suc (Suc 0))"] by simp_all
  have p: "push_bit 4 n = n * 16" for n :: nat by (simp add: push_bit_eq_mult)
  show "ReadHexDigits b i 4 = Some True" unfolding four using d assms(2-5) hex_char_digit by simp
  have "hex_number b i (Suc (Suc (Suc (Suc 0)))) 0 = Some (((w * 16 + x) * 16 + y) * 16 + z)"
    using d assms(2-5) hex_char_digit by (simp add: p)
  then show "hex_number b i 4 0 = Some (((w * 16 + x) * 16 + y) * 16 + z)" by (simp only: four [symmetric])
qed

lemma unicode_digits:
  assumes "drop i b = drop 2 (unicode_escape c) @ q" 
  shows "ReadHexDigits b i 4 = Some True" "c < 2 ^ 16 \<Longrightarrow> hex_number b i 4 0 = Some c"
proof -
  have m: "x mod 16 < 16" for x :: nat by simp
  have h: "drop i b = hex_char (c div 4096 mod 16) # hex_char (c div 256 mod 16) # hex_char (c div 16 mod 16) # hex_char (c mod 16) # q"
    using assms by (simp add: unicode_escape_def)
  note r = four_hex_digits [OF h m m m m]
  show "ReadHexDigits b i 4 = Some True" by (rule r(1))
  assume "c < 2 ^ 16"
  from r(2) [unfolded hex_digits_16 [OF this]] show "hex_number b i 4 0 = Some c" .
qed

text \<open>The characters that the writer makes from one character.\<close>

lemma JsonEscapeChar_cases:
  obtains (single) x where "JsonEscapeChar c = [92, x]" "single_escape x = Some c" "x \<in> {92, 98, 102, 110, 114, 116, 34}"
  | (unicode) "JsonEscapeChar c = unicode_escape c"
  | (plain) "JsonEscapeChar c = [c]" "c \<noteq> 92" "c \<noteq> 34" "32 \<le> c" "c \<le> 126"
proof -
  have "(\<exists>x. JsonEscapeChar c = [92, x] \<and> single_escape x = Some c \<and> x \<in> {92, 98, 102, 110, 114, 116, 34}) \<or>
    JsonEscapeChar c = unicode_escape c \<or> JsonEscapeChar c = [c] \<and> c \<noteq> 92 \<and> c \<noteq> 34 \<and> 32 \<le> c \<and> c \<le> 126"
    by (auto simp: JsonEscapeChar_def JsonSingleEscapeChar_def single_escape_def)
  then show ?thesis using single unicode plain by blast
qed

lemma string_loop_escaped:
  "drop len b = concat (map JsonEscapeChar cs) @ 34 # p \<Longrightarrow>
     string_loop b len = Some (StringToken (new_Token STRING b (len + length (concat (map JsonEscapeChar cs)) + 1)))"
proof (induction cs arbitrary: len)
  case Nil
  then show ?case using deref_drop [of len b _ 0] by (subst string_loop.simps) simp
next
  case (Cons c cs)
  let ?q = "concat (map JsonEscapeChar cs) @ 34 # p"
  have at: "deref b (len + k) = deref (JsonEscapeChar c @ ?q) k" for k using deref_drop Cons.prems by simp
  have nxt: "drop (len + length (JsonEscapeChar c)) b = ?q" by (rule ReadInt_next) (simp add: Cons.prems)
  note at0 = at [of 0] and at1 = at [of 1]
  show ?case
  proof (cases c rule: JsonEscapeChar_cases)
    case (single x)
    have "drop (len + 2) b = ?q" using nxt single(1) by simp
    from Cons.IH [OF this] show ?thesis using at0 at1 single by (subst string_loop.simps) auto
  next
    case unicode
    have l: "length (JsonEscapeChar c) = 6" using unicode by (simp add: unicode_escape_def)
    have "drop (len + 6) b = ?q" using nxt unfolding l .
    moreover have "ReadHexDigits b (len + 2) 4 = Some True"
      using ReadInt_next [of len b "[92, 117]" "drop 2 (unicode_escape c) @ ?q"] Cons.prems unicode
      by (intro unicode_digits(1)) (simp add: unicode_escape_def)
    ultimately have "string_loop b len = string_loop b (len + 6)"
      using at0 at1 unicode by (subst string_loop.simps) (simp add: unicode_escape_def add.commute)
    moreover have "string_loop b (len + 6) = Some (StringToken (new_Token STRING b (len + 6 + length (concat (map JsonEscapeChar cs)) + 1)))"
      by (rule Cons.IH) fact
    ultimately show ?thesis using l by (simp add: add.assoc)
  next
    case plain
    have "drop (len + 1) b = ?q" using nxt plain(1) by simp
    from Cons.IH [OF this] show ?thesis using at0 plain by (subst string_loop.simps) simp
  qed
qed

lemma decode_loop_escaped:
  "drop i b = concat (map JsonEscapeChar cs) @ 34 # p \<Longrightarrow> list_all (\<lambda>c. c < 2 ^ 16) cs \<Longrightarrow>
     len = i + length (concat (map JsonEscapeChar cs)) + 1 \<Longrightarrow> decode_loop b len i acc = Some (acc @ cs)"
proof (induction cs arbitrary: i acc)
  case Nil
  then show ?case by (subst decode_loop.simps) simp
next
  case (Cons c cs)
  let ?q = "concat (map JsonEscapeChar cs) @ 34 # p"
  have at: "deref b (i + k) = deref (JsonEscapeChar c @ ?q) k" for k using deref_drop Cons.prems(1) by simp
  have nxt: "drop (i + length (JsonEscapeChar c)) b = ?q" by (rule ReadInt_next) (simp add: Cons.prems(1))
  have ih: "decode_loop b len (i + length (JsonEscapeChar c)) (acc @ [c]) = Some (acc @ c # cs)"
    using Cons.IH [OF nxt, of "acc @ [c]"] Cons.prems(2,3) by simp
  note at0 = at [of 0] and at1 = at [of 1]
  show ?case
  proof (cases c rule: JsonEscapeChar_cases)
    case (single x)
    then show ?thesis using at0 at1 ih Cons.prems(3) by (subst decode_loop.simps) auto
  next
    case unicode
    have l: "length (JsonEscapeChar c) = 6" using unicode by (simp add: unicode_escape_def)
    have "hex_number b (i + 2) 4 0 = Some c"
      using ReadInt_next [of i b "[92, 117]" "drop 2 (unicode_escape c) @ ?q"] Cons.prems(1,2) unicode
      by (intro unicode_digits(2)) (simp_all add: unicode_escape_def)
    moreover have "decode_loop b len (i + 6) (acc @ [c]) = Some (acc @ c # cs)" using ih unfolding l .
    moreover have "i + 1 < len" using Cons.prems(3) l by simp
    ultimately show ?thesis using at0 at1 unicode by (subst decode_loop.simps) (simp add: unicode_escape_def add.commute)
  next
    case plain
    then show ?thesis using at0 ih Cons.prems(3) by (subst decode_loop.simps) simp
  qed
qed

end
