(* ===== verification/JsonTexts.thy ===== *)
theory JsonTexts
  imports JsonScanning
begin

text \<open>
  The texts that the writer makes of strings and numbers, and what the parser reads in them.
\<close>

section \<open>Strings\<close>

text \<open>A string as it is read back: each character outside of the basic plane, which the writer escapes as two surrogates, becomes
  two replacement characters.\<close>

definition reread :: "nat list \<Rightarrow> nat list" where
  "reread cs = concat (map (\<lambda>c. if c \<ge> 0x10000 then [0xFFFD, 0xFFFD] else [c]) cs)"

lemma reread_simps [simp]: "reread [] = []" "reread (c # cs) = (if c \<ge> 0x10000 then [0xFFFD, 0xFFFD] else [c]) @ reread cs"
  by (simp_all add: reread_def)

lemma reread_plane: "list_all (\<lambda>c. c < 0x10000) cs \<Longrightarrow> reread cs = cs"
  by (induction cs) simp_all

lemma reread_valid: "list_all IsValidCodepoint cs \<Longrightarrow> list_all IsValidCodepoint (reread cs)"
  by (induction cs) (auto simp: IsValidCodepoint_def)

lemma reread_character: "list_all IsValidCharacter cs \<Longrightarrow> list_all IsValidCharacter (reread cs)"
proof -
  have "IsValidCharacter 0xFFFD" by (simp add: IsValidCharacter_def)
  then show "list_all IsValidCharacter cs \<Longrightarrow> list_all IsValidCharacter (reread cs)" by (induction cs) auto
qed

definition replaced :: "nat \<Rightarrow> nat" where
  "replaced u = (if IsValidCodepoint u then u else 0xFFFD)"

lemma convert_loop_wide:
  "drop i us = vs \<Longrightarrow> i \<le> length us \<Longrightarrow> snd (convert_loop (U32 us) Write i ok out) = out @ concat (map (\<lambda>u. Write (replaced u)) vs)"
proof (induction vs arbitrary: i ok out)
  case Nil
  then show ?case by (subst convert_loop.simps) simp
next
  case (Cons v vs)
  have "i < length us" using Cons.prems by (cases "i < length us") auto
  moreover have "us ! i = v" "drop (i + 1) us = vs"
    using nth_via_drop [OF Cons.prems(1)] ReadInt_next [of i us "[v]" vs] Cons.prems(1) by simp_all
  ultimately show ?case using Cons.IH [of "i + 1"] by (subst convert_loop.simps) (simp add: replaced_def)
qed

lemma WideToUTF16_units: "WideToUTF16 us = utf16 (map replaced us)"
  using convert_loop_wide [of 0 us us WriteUnicodeCharacter16 True "[]"]
  by (simp add: WideToUTF16_def ConvertUnicode_def comp_def)

lemma valid_cases: "IsValidCodepoint c \<Longrightarrow> c < 0x10000 \<or> 0x10000 \<le> c \<and> c \<le> 0x10FFFF"
  by (auto simp: IsValidCodepoint_def)

lemma pair_bounds:
  fixes c :: nat
  shows "0x10000 \<le> c \<Longrightarrow> c \<le> 0x10FFFF \<Longrightarrow> 0xD800 \<le> c div 1024 + 0xd7c0 \<and> c div 1024 + 0xd7c0 < 0xDC00"
  using div_le_mono [of "0x10000" c 1024] div_le_mono [of c "0x10FFFF" 1024] by simp

lemma replaced_units: "list_all IsValidCodepoint cs \<Longrightarrow> map replaced (utf16 cs) = reread cs"
proof (induction cs)
  case (Cons c cs)
  show ?case
  proof (cases "c < 0x10000")
    case True
    then show ?thesis using Cons by (simp add: Write16_single replaced_def)
  next
    case False
    then have c: "0x10000 \<le> c" "c \<le> 0x10FFFF" using Cons.prems valid_cases [of c] by auto
    have "c mod 1024 < 1024" by simp
    then have "\<not> IsValidCodepoint (c div 1024 + 0xd7c0)" "\<not> IsValidCodepoint (0xdc00 + c mod 1024)"
      using pair_bounds [OF c] unfolding IsValidCodepoint_def by linarith+
    then show ?thesis using Cons Write16_pair(1) [OF c] c by (simp add: replaced_def)
  qed
qed simp

lemma units_small: "list_all IsValidCodepoint cs \<Longrightarrow> list_all (\<lambda>c. c < 2 ^ 16) (utf16 cs)"
proof (induction cs)
  case (Cons c cs)
  show ?case
  proof (cases "c < 0x10000")
    case True
    then show ?thesis using Cons by (simp add: Write16_single)
  next
    case False
    then have c: "0x10000 \<le> c" "c \<le> 0x10FFFF" using Cons.prems valid_cases [of c] by auto
    have "c mod 1024 < 1024" by simp
    then have "c div 1024 + 0xd7c0 < 2 ^ 16" "0xdc00 + c mod 1024 < 2 ^ 16" using pair_bounds [OF c] by simp_all
    then show ?thesis using Cons Write16_pair(1) [OF c] by simp
  qed
qed simp

lemma reread_bytes: "list_all IsValidCodepoint cs \<Longrightarrow> UTF16ToUTF8 (WideToUTF16 (utf16 cs)) = utf8 (reread cs)"
  by (simp add: WideToUTF16_units replaced_units UTF16ToUTF8_def ConvertUnicode_text reread_valid)

lemma UTF8ToUTF16_text: "list_all IsValidCodepoint cs \<Longrightarrow> UTF8ToUTF16 (utf8 cs) = utf16 cs"
  by (simp add: UTF8ToUTF16_def ConvertUnicode_text)

text \<open>The quoted text of a string.\<close>

definition quoted :: "nat list \<Rightarrow> nat list" where
  "quoted cs = 34 # concat (map JsonEscapeChar (utf16 cs)) @ [34]"

lemma write_quoted: "list_all IsValidCodepoint cs \<Longrightarrow> JsonDoubleQuote16 (UTF8ToUTF16 (utf8 cs)) True = quoted cs"
  by (simp add: UTF8ToUTF16_text JsonDoubleQuote16_def JsonDoubleQuoteT_def quoted_def)

lemma read_quoted:
  assumes "list_all IsValidCodepoint cs" "json_pos s = ws @ quoted cs @ p" "white ws"
  defines "t \<equiv> new_Token STRING (quoted cs @ p) (length (quoted cs))"
  shows "ParseToken s = Some (t, s\<lparr>json_pos := quoted cs @ p\<rparr>)" "DecodeString t = Some (StringValue (utf8 (reread cs)))"
proof -
  let ?b = "quoted cs @ p" and ?body = "concat (map JsonEscapeChar (utf16 cs))"
  have d: "drop 1 ?b = ?body @ 34 # p" by (simp add: quoted_def)
  have len: "length (quoted cs) = 1 + length ?body + 1" by (simp add: quoted_def)
  have "hd ?b = 34" by (simp add: quoted_def)
  then have q: "ParseToken s = scan_token (s\<lparr>json_pos := ?b\<rparr>)" "deref ?b 0 = Some 34"
    using parse_white [OF assms(2,3)] by (auto simp: quoted_def)
  have "ParseStringToken (s\<lparr>json_pos := ?b\<rparr>) = Some (t, s\<lparr>json_pos := ?b\<rparr>)"
    using string_loop_escaped [OF d] len by (simp add: ParseStringToken_def t_def)
  then show "ParseToken s = Some (t, s\<lparr>json_pos := ?b\<rparr>)" using q by (simp add: scan_token_def)
  show "DecodeString t = Some (StringValue (utf8 (reread cs)))"
    using decode_loop_escaped [OF d units_small [OF assms(1)] len, of "[]"] reread_bytes [OF assms(1)]
    by (simp add: DecodeString_def t_def new_Token_def CreateStringValue16_def)
qed

section \<open>Numbers\<close>

lemma decimal_digits: "digits (decimal n)"
proof (induction n rule: decimal.induct)
  case (1 n)
  show ?case
  proof (cases "n < 10")
    case True
    then show ?thesis by (subst (1 2) decimal.simps) (simp add: is_digit_def)
  next
    case False
    have "n mod 10 < 10" by simp
    then have "is_digit (48 + n mod 10)" unfolding is_digit_def by linarith
    then show ?thesis using 1 False by (subst (1 2) decimal.simps) simp
  qed
qed

lemma decimal_head: "n > 0 \<Longrightarrow> hd (decimal n) \<noteq> 48"
proof (induction n rule: decimal.induct)
  case (1 n)
  show ?case
  proof (cases "n < 10")
    case True
    then show ?thesis using 1(2) by (subst decimal.simps) simp
  next
    case False
    then have "hd (decimal (n div 10)) \<noteq> 48" using 1(1) by (simp add: div_greater_zero_iff)
    then show ?thesis using False decimal_digits [of "n div 10"] by (subst decimal.simps) (simp add: hd_append)
  qed
qed

lemma decimal_no_zeros: "length (decimal n) > 1 \<longrightarrow> hd (decimal n) \<noteq> 48"
proof (cases "n = 0")
  case True
  then show ?thesis by (subst (1 2) decimal.simps) simp
qed (use decimal_head in blast)

lemma digit_byte: "is_digit c \<Longrightarrow> decimal_digit (to_byte c) \<and> digit_value (to_byte c) = c - 48"
  using unat_to_byte [of c] by (simp add: is_digit_def decimal_digit_def digit_value_def)

lemma decimal_read: "decimal_value 0 (map to_byte (decimal n)) = n"
proof (induction n rule: decimal.induct)
  case (1 n)
  show ?case
  proof (cases "n < 10")
    case True
    then show ?thesis using digit_byte [of "48 + n"] by (subst decimal.simps) (simp add: is_digit_def)
  next
    case False
    have "n mod 10 < 10" by simp
    then have "is_digit (48 + n mod 10)" unfolding is_digit_def by linarith
    from digit_byte [OF this] show ?thesis using 1 False by (subst decimal.simps) (simp add: decimal_value_snoc)
  qed
qed

lemma format_d_number: "number_text (format_d i)"
proof -
  have "number_text (sg @ decimal n)" if "sg = [] \<or> sg = [45]" for sg n
    unfolding number_text_def using that decimal_digits [of n] decimal_no_zeros [of n]
    by (intro exI [of _ sg] exI [of _ "decimal n"] exI [of _ "[]"]) simp
  from this [of "[]"] this [of "[45]"] show ?thesis by (simp add: format_d_def)
qed

lemma StringToInt_decimal: "StringToInt s = (True, v) \<longleftrightarrow> decimal_string s v \<and> - (2 ^ 31) \<le> v \<and> v < 2 ^ 31"
proof -
  have "proper_space isspace" by (auto simp: proper_space_def isspace_def decimal_digit_def)
  then show ?thesis using Invoke_decimal [of isspace int_traits s v]
    by (auto simp: StringToInt_def int_traits_def decimal_traits_def)
qed

lemma read_format_d:
  assumes "- (2 ^ 31) \<le> i" "i < 2 ^ 31"
  shows "StringToInt (map to_byte (format_d i)) = (True, i)"
proof -
  have d: "\<forall>c \<in> set (map to_byte (decimal n)). decimal_digit c" for n
    using decimal_digits [of n] digit_byte by (auto simp: list_all_iff)
  have "decimal_string (map to_byte (format_d i)) i"
  proof (cases "i < 0")
    case True
    then show ?thesis using d [of "nat (- i)"] decimal_read [of "nat (- i)"] decimal_digits [of "nat (- i)"]
      unfolding decimal_string_def format_d_def by (intro exI [of _ "map to_byte (decimal (nat (- i)))"]) (simp add: to_byte_def)
  next
    case False
    then show ?thesis using d [of "nat i"] decimal_read [of "nat i"] decimal_digits [of "nat i"]
      unfolding decimal_string_def format_d_def by (intro exI [of _ "map to_byte (decimal (nat i))"]) simp
  qed
  then show ?thesis using assms by (simp add: StringToInt_decimal)
qed

text \<open>A number with a fraction or an exponent is no integer.\<close>

lemma not_integer:
  assumes "46 \<in> set t \<or> 101 \<in> set t \<or> 69 \<in> set t"
  shows "fst (StringToInt (map to_byte t)) = False"
proof (rule ccontr)
  assume "fst (StringToInt (map to_byte t)) \<noteq> False"
  then obtain v where "StringToInt (map to_byte t) = (True, v)" by (cases "StringToInt (map to_byte t)") auto
  then have "decimal_string (map to_byte t) v" using StringToInt_decimal by blast
  then obtain ds where d: "ds \<noteq> [] \<and> (\<forall>c \<in> set ds. decimal_digit c) \<and>
     ((map to_byte t = ds \<or> map to_byte t = 43 # ds) \<and> v = int (decimal_value 0 ds) \<or>
       map to_byte t = 45 # ds \<and> v = - int (decimal_value 0 ds))"
    unfolding decimal_string_def ..
  then have ds: "\<forall>c \<in> set ds. decimal_digit c" "map to_byte t = ds \<or> map to_byte t = 43 # ds \<or> map to_byte t = 45 # ds"
    by argo+
  have e: "to_byte 46 = 46" "to_byte 101 = 101" "to_byte 69 = 69" by (simp_all add: to_byte_def)
  have "\<exists>c \<in> set (map to_byte t). c = 46 \<or> c = 101 \<or> c = 69" using assms e by (metis image_eqI set_map)
  then obtain c where c: "c \<in> set (map to_byte t)" "c = 46 \<or> c = 101 \<or> c = 69" by blast
  have n: "\<not> decimal_digit c" "c \<noteq> 43" "c \<noteq> 45" using c(2) by (auto simp: decimal_digit_def)
  from ds(2) show False
  proof (elim disjE)
    assume "map to_byte t = ds"
    then show False using c(1) n ds(1) by simp
  next
    assume "map to_byte t = 43 # ds"
    then show False using c(1) n ds(1) by simp
  next
    assume "map to_byte t = 45 # ds"
    then show False using c(1) n ds(1) by simp
  qed
qed

lemma number_ascii: "number_text t \<Longrightarrow> c \<in> set t \<Longrightarrow> c < 128 \<and> 0 < c"
proof -
  assume "number_text t" and c: "c \<in> set t"
  then obtain sg ip fp ep where t: "t = sg @ ip @ fp @ ep" "sg = [] \<or> sg = [45]" "digits ip" "fp = [] \<or> (\<exists>ds. fp = 46 # ds \<and> digits ds)"
    "ep = [] \<or> (\<exists>e sn ds. ep = e # sn @ ds \<and> (e = 101 \<or> e = 69) \<and> (sn = [] \<or> sn = [43] \<or> sn = [45]) \<and> digits ds)"
    unfolding number_text_def by blast
  have d: "c < 128 \<and> 0 < c" if "list_all is_digit ds" "c \<in> set ds" for ds using that by (auto simp: list_all_iff is_digit_def)
  have "c \<in> set sg \<or> c \<in> set ip \<or> c \<in> set fp \<or> c \<in> set ep" using c t(1) by simp
  then show "c < 128 \<and> 0 < c" using t(2-5) d by (elim disjE exE conjE) auto
qed

lemma number_head: "number_text t \<Longrightarrow> t \<noteq> [] \<and> (is_digit (hd t) \<or> hd t = 45)"
  unfolding number_text_def by (auto simp: neq_Nil_conv)

lemma WideToUTF8_ascii: "\<forall>c \<in> set t. c < 128 \<Longrightarrow> WideToUTF8 t = map to_byte t"
proof -
  assume a: "\<forall>c \<in> set t. c < 128"
  then have "list_all IsValidCodepoint t" by (auto simp: list_all_iff IsValidCodepoint_def)
  then have "WideToUTF8 t = utf8 t" by (simp add: WideToUTF8_def ConvertUnicode_text)
  also have "\<dots> = map to_byte t" using a by (induction t) (auto simp: WriteUnicodeCharacter8_def)
  finally show ?thesis .
qed

lemma read_number:
  assumes "number_text t" "delimited p" "json_pos s = ws @ t @ p" "white ws"
  defines "k \<equiv> new_Token NUMBER (t @ p) (length t)"
  shows "ParseToken s = Some (k, s\<lparr>json_pos := t @ p\<rparr>)"
    "DecodeNumber std isf k = (case StringToInt (map to_byte t) of (True, i) \<Rightarrow> Some (IntegerValue i)
       | (False, _) \<Rightarrow> (case std (map to_byte t) of Some x \<Rightarrow> if isf x then Some (DoubleValue x) else None | None \<Rightarrow> None))"
proof -
  obtain c u where t: "t = c # u" "is_digit c \<or> c = 45" using number_head [OF assms(1)] by (cases t) auto
  then have "hd (t @ p) \<notin> {32, 10, 13, 9, 47}" by (auto simp: is_digit_def)
  from parse_white [OF assms(3,4) _ this] have "ParseToken s = scan_token (s\<lparr>json_pos := t @ p\<rparr>)" using t(1) by simp
  moreover have "scan_token (s\<lparr>json_pos := t @ p\<rparr>) = do { k \<leftarrow> ParseNumberToken (t @ p); Some (k, s\<lparr>json_pos := t @ p\<rparr>) }"
    using t by (auto simp: scan_token_def is_digit_def Let_def)
  ultimately show "ParseToken s = Some (k, s\<lparr>json_pos := t @ p\<rparr>)"
    using ParseNumberToken_text [OF assms(1,2)] by (simp add: k_def)
  have "WideToUTF8 t = map to_byte t" using number_ascii [OF assms(1)] WideToUTF8_ascii by blast
  then show "DecodeNumber std isf k = (case StringToInt (map to_byte t) of (True, i) \<Rightarrow> Some (IntegerValue i)
       | (False, _) \<Rightarrow> (case std (map to_byte t) of Some x \<Rightarrow> if isf x then Some (DoubleValue x) else None | None \<Rightarrow> None))"
    by (simp add: DecodeNumber_def k_def new_Token_def Let_def)
qed

end
