(* ===== verification/JsonRoundtrip.thy ===== *)
theory JsonRoundtrip
  imports JsonTexts
begin

text \<open>
  Reading what the writer has written: every value that can be written is read back, up to the characters
  outside of the basic plane in its strings.
\<close>

section \<open>Values that can be written and read\<close>

definition plane_string :: "byte list \<Rightarrow> bool" where
  "plane_string s \<longleftrightarrow> list_all (\<lambda>c. c < 0x10000) (UTF8ToWide s)"

definition lossy :: "byte list \<Rightarrow> byte list" where
  "lossy s = WideToUTF8 (reread (UTF8ToWide s))"

fun read_back :: "'d Value \<Rightarrow> 'd Value" where
  "read_back (StringValue s) = StringValue (lossy s)"
| "read_back (ListValue l) = ListValue (map read_back l)"
| "read_back (DictionaryValue d) = DictionaryValue (map (\<lambda>(k, v). (k, read_back v)) d)"
| "read_back v = v"

text \<open>At most \<open>n\<close> values inside of each other.\<close>

fun nested :: "nat \<Rightarrow> 'd Value \<Rightarrow> bool" where
  "nested 0 v = False"
| "nested (Suc n) (ListValue l) = list_all (nested n) l"
| "nested (Suc n) (DictionaryValue d) = list_all (\<lambda>e. nested n (snd e)) d"
| "nested (Suc n) v = True"

text \<open>The text of a double is a number that is read as this double.\<close>

definition double_ok :: "('d \<Rightarrow> nat list) \<Rightarrow> (byte list \<Rightarrow> 'd option) \<Rightarrow> ('d \<Rightarrow> bool) \<Rightarrow> 'd \<Rightarrow> bool" where
  "double_ok dts std isf x \<longleftrightarrow> number_text (write_double dts x) \<and> std (map to_byte (write_double dts x)) = Some x \<and> isf x"

text \<open>No binary values, and keys in the basic plane.\<close>

fun writable :: "'d Value \<Rightarrow> bool" where
  "writable (BinaryValue b) = False"
| "writable (ListValue l) = list_all writable l"
| "writable (DictionaryValue d) = list_all (\<lambda>e. plane_string (fst e) \<and> writable (snd e)) d"
| "writable v = True"

fun container :: "'d Value \<Rightarrow> bool" where
  "container (ListValue l) = True"
| "container (DictionaryValue d) = True"
| "container v = False"

lemma text_of: "IsStringUTF8 s \<Longrightarrow> \<exists>cs. list_all IsValidCharacter cs \<and> list_all IsValidCodepoint cs \<and> s = utf8 cs \<and> UTF8ToWide s = cs"
proof -
  assume "IsStringUTF8 s"
  then obtain cs where cs: "list_all IsValidCharacter cs" "s = utf8 cs" by (auto simp: IsStringUTF8_iff)
  then have "list_all IsValidCodepoint cs" using valid_character by (auto simp: list_all_iff)
  then show ?thesis using cs by (auto simp: UTF8ToWide_def ConvertUnicode_text Write32)
qed

lemma lossy_text: "list_all IsValidCodepoint cs \<Longrightarrow> lossy (utf8 cs) = utf8 (reread cs)"
  by (simp add: lossy_def UTF8ToWide_def WideToUTF8_def ConvertUnicode_text Write32 reread_valid)

section \<open>One value\<close>

definition node_of ::
  "(byte list \<Rightarrow> 'd option) \<Rightarrow> ('d \<Rightarrow> bool) \<Rightarrow> Token \<Rightarrow> json_reader \<Rightarrow> ((Token \<times> 'd Value) option \<times> json_reader) option" where
  "node_of std isf token s =
     (case token_type token of
        NULL_TOKEN \<Rightarrow> Some (Some (token, NullValue), s)
      | BOOL_TRUE \<Rightarrow> Some (Some (token, BooleanValue True), s)
      | BOOL_FALSE \<Rightarrow> Some (Some (token, BooleanValue False), s)
      | NUMBER \<Rightarrow> Some (map_option (Pair token) (DecodeNumber std isf token), s)
      | STRING \<Rightarrow> do { v \<leftarrow> DecodeString token; Some (Some (token, v), s) }
      | ARRAY_BEGIN \<Rightarrow> do {
          (token, s) \<leftarrow> ParseToken (advance_past s token);
          BuildValue std isf (Array_loop token []) s }
      | OBJECT_BEGIN \<Rightarrow> do {
          (token, s) \<leftarrow> ParseToken (advance_past s token);
          BuildValue std isf (Object_loop token []) s }
      | _ \<Rightarrow> Some (None, s))"

lemma Build_node:
  assumes "stack_depth s < 100" "ParseToken (s\<lparr>stack_depth := stack_depth s + 1\<rparr>) = Some (k, s')"
    "root \<longrightarrow> token_type k = OBJECT_BEGIN \<or> token_type k = ARRAY_BEGIN"
    "node_of std isf k s' = Some (Some (k', v), s'')"
  shows "BuildValue std isf (Build root) s = Some (Some (k', v), (advance_past s'' k')\<lparr>stack_depth := stack_depth s'' - 1\<rparr>)"
  using assms by (subst BuildValue.simps) (auto simp: node_of_def kStackLimit_def Let_def advance_past_def)

text \<open>That the parser finds the value in a text: the first token is no closing one, and building the value consumes the text.\<close>

definition reads :: "(byte list \<Rightarrow> 'd option) \<Rightarrow> ('d \<Rightarrow> bool) \<Rightarrow> 'd Value \<Rightarrow> nat list \<Rightarrow> bool" where
  "reads std isf v t \<longleftrightarrow> (\<forall>c \<in> set t. 0 < c \<and> c < 128) \<and>
     (\<forall>s ws p n. json_pos s = ws @ t @ p \<longrightarrow> white ws \<longrightarrow> delimited p \<longrightarrow> nested n v \<longrightarrow> stack_depth s + n \<le> 100 \<longrightarrow>
        (\<exists>k. ParseToken s = Some (k, s\<lparr>json_pos := t @ p\<rparr>) \<and> token_type k \<noteq> ARRAY_END \<and> token_type k \<noteq> OBJECT_END) \<and>
        (\<forall>root. (root \<longrightarrow> container v) \<longrightarrow>
           (\<exists>k. BuildValue std isf (Build root) s = Some (Some (k, read_back v), s\<lparr>json_pos := p\<rparr>))))"

lemma same_pos: "json_pos s = q \<Longrightarrow> s\<lparr>json_pos := q\<rparr> = (s :: json_reader)"
  by auto

lemma scan_parse: "json_pos s = t @ p \<Longrightarrow> t \<noteq> [] \<Longrightarrow> hd t \<notin> {32, 10, 13, 9, 47} \<Longrightarrow> ParseToken s = scan_token s"
  using parse_white [of s "[]" "t @ p"] same_pos [of s "t @ p"] by simp

lemma readsI:
  fixes v :: "'d Value"
  assumes "\<forall>c \<in> set t. 0 < c \<and> c < 128" "t \<noteq> []" "hd t \<notin> {32, 10, 13, 9, 47}"
    and "\<And>s p n. json_pos s = t @ p \<Longrightarrow> delimited p \<Longrightarrow> nested n v \<Longrightarrow> stack_depth s + n \<le> 101 \<Longrightarrow>
      \<exists>k k' s'. ParseToken s = Some (k, s) \<and> token_type k \<noteq> ARRAY_END \<and> token_type k \<noteq> OBJECT_END \<and>
        (container v \<longrightarrow> token_type k = OBJECT_BEGIN \<or> token_type k = ARRAY_BEGIN) \<and>
        node_of std isf k s = Some (Some (k', read_back v), s') \<and> advance_past s' k' = s\<lparr>json_pos := p\<rparr>"
  shows "reads std isf v t"
  unfolding reads_def
proof (intro conjI allI impI)
  fix s :: json_reader and ws p n root
  assume a: "json_pos s = ws @ t @ p" "white ws" "delimited p" "nested n v" "stack_depth s + n \<le> 100"
  have parse: "ParseToken u = ParseToken (u\<lparr>json_pos := t @ p\<rparr>)" if "json_pos u = ws @ t @ p" for u
  proof -
    have "ParseToken u = scan_token (u\<lparr>json_pos := t @ p\<rparr>)" using parse_white [OF that a(2)] assms(2,3) by simp
    then show ?thesis using scan_parse [of "u\<lparr>json_pos := t @ p\<rparr>" t p] assms(2,3) by simp
  qed
  show "\<exists>k. ParseToken s = Some (k, s\<lparr>json_pos := t @ p\<rparr>) \<and> token_type k \<noteq> ARRAY_END \<and> token_type k \<noteq> OBJECT_END"
    using assms(4) [of "s\<lparr>json_pos := t @ p\<rparr>" p n] a parse [OF a(1)] by fastforce
  assume r: "root \<longrightarrow> container v"
  have n: "0 < n" using a(4) by (cases n) auto
  let ?s = "s\<lparr>stack_depth := stack_depth s + 1\<rparr>"
  obtain k k' s' where k: "ParseToken (?s\<lparr>json_pos := t @ p\<rparr>) = Some (k, ?s\<lparr>json_pos := t @ p\<rparr>)"
    "container v \<longrightarrow> token_type k = OBJECT_BEGIN \<or> token_type k = ARRAY_BEGIN"
    "node_of std isf k (?s\<lparr>json_pos := t @ p\<rparr>) = Some (Some (k', read_back v), s')" "advance_past s' k' = ?s\<lparr>json_pos := p\<rparr>"
    using assms(4) [of "?s\<lparr>json_pos := t @ p\<rparr>" p n] a by auto
  have "ParseToken ?s = Some (k, ?s\<lparr>json_pos := t @ p\<rparr>)" using parse [of ?s] a(1) k(1) by simp
  from Build_node [OF _ this _ k(3), of root] have b: "BuildValue std isf (Build root) s =
      Some (Some (k', read_back v), (advance_past s' k')\<lparr>stack_depth := stack_depth s' - 1\<rparr>)"
    using a(5) n r k(2) by auto
  have "stack_depth s' = stack_depth (advance_past s' k')" by (simp add: advance_past_def)
  also have "\<dots> = stack_depth s + 1" using k(4) by simp
  finally show "\<exists>k. BuildValue std isf (Build root) s = Some (Some (k, read_back v), s\<lparr>json_pos := p\<rparr>)"
    using b k(4) by simp
qed (use assms(1) in blast)+

text \<open>Values without children.\<close>

lemma reads_keyword:
  assumes "(t, ty, v) \<in> {(kNullString, NULL_TOKEN, NullValue), (kTrueString, BOOL_TRUE, BooleanValue True),
    (kFalseString, BOOL_FALSE, BooleanValue False)}"
  shows "reads std isf v t"
proof (rule readsI)
  fix s :: json_reader and p n
  assume s: "json_pos s = t @ p"
  have "ParseToken s = scan_token s" using scan_parse [OF s] assms by (auto simp: kNullString_def kTrueString_def kFalseString_def)
  then have "ParseToken s = Some (new_Token ty (t @ p) (length t), s)"
    using s assms by (auto simp: scan_token_def keyword_token_def NextStringMatch_def kNullString_def kTrueString_def kFalseString_def Let_def)
  then show "\<exists>k k' s'. ParseToken s = Some (k, s) \<and> token_type k \<noteq> ARRAY_END \<and> token_type k \<noteq> OBJECT_END \<and>
        (container v \<longrightarrow> token_type k = OBJECT_BEGIN \<or> token_type k = ARRAY_BEGIN) \<and>
        node_of std isf k s = Some (Some (k', read_back v), s') \<and> advance_past s' k' = s\<lparr>json_pos := p\<rparr>"
    using assms s by (auto simp: node_of_def new_Token_def advance_past_def)
qed (use assms in \<open>auto simp: kNullString_def kTrueString_def kFalseString_def\<close>)

lemma reads_number:
  assumes "number_text t" "\<And>p. DecodeNumber std isf (new_Token NUMBER (t @ p) (length t)) = Some v" "read_back v = v" "\<not> container v"
  shows "reads std isf v t"
proof (rule readsI)
  fix s :: json_reader and p n
  assume s: "json_pos s = t @ p" and d: "delimited p"
  have "ParseToken s = Some (new_Token NUMBER (t @ p) (length t), s)"
    using read_number(1) [OF assms(1) d, of s "[]"] s by simp
  then show "\<exists>k k' s'. ParseToken s = Some (k, s) \<and> token_type k \<noteq> ARRAY_END \<and> token_type k \<noteq> OBJECT_END \<and>
        (container v \<longrightarrow> token_type k = OBJECT_BEGIN \<or> token_type k = ARRAY_BEGIN) \<and>
        node_of std isf k s = Some (Some (k', read_back v), s') \<and> advance_past s' k' = s\<lparr>json_pos := p\<rparr>"
    using assms s by (auto simp: node_of_def new_Token_def advance_past_def)
qed (use assms(1) number_ascii number_head [OF assms(1)] in \<open>auto simp: is_digit_def\<close>)

lemma quoted_ascii: "list_all IsValidCodepoint cs \<Longrightarrow> c \<in> set (quoted cs) \<Longrightarrow> 0 < c \<and> c < 128"
proof -
  have "0 < c \<and> c < 128" if "c \<in> set (JsonEscapeChar u)" for u
  proof (cases u rule: JsonEscapeChar_cases)
    case unicode
    have "hex_char d < 128 \<and> 0 < hex_char d" if "d < 16" for d using that by (simp add: hex_char_def)
    then show ?thesis using that unicode by (auto simp: unicode_escape_def)
  qed (use that in auto)
  then show "c \<in> set (quoted cs) \<Longrightarrow> ?thesis" by (auto simp: quoted_def)
qed

lemma reads_string:
  fixes std :: "byte list \<Rightarrow> 'd option"
  assumes "list_all IsValidCodepoint cs"
  shows "reads std isf (StringValue (utf8 cs)) (quoted cs)"
proof (rule readsI)
  fix s :: json_reader and p n
  assume s: "json_pos s = quoted cs @ p"
  let ?k = "new_Token STRING (quoted cs @ p) (length (quoted cs))"
  have q: "ParseToken s = Some (?k, s)" using read_quoted(1) [OF assms, of s "[]" p] s same_pos [OF s] by simp
  have d: "DecodeString ?k = Some (StringValue (utf8 (reread cs)) :: 'd Value)"
    by (rule read_quoted(2) [OF assms, of s "[]" p]) (simp_all add: s)
  show "\<exists>k k' s'. ParseToken s = Some (k, s) \<and> token_type k \<noteq> ARRAY_END \<and> token_type k \<noteq> OBJECT_END \<and>
        (container (StringValue (utf8 cs)) \<longrightarrow> token_type k = OBJECT_BEGIN \<or> token_type k = ARRAY_BEGIN) \<and>
        node_of std isf k s = Some (Some (k', read_back (StringValue (utf8 cs))), s') \<and> advance_past s' k' = s\<lparr>json_pos := p\<rparr>"
    using q d s lossy_text [OF assms] by (auto simp: node_of_def new_Token_def advance_past_def)
qed (use quoted_ascii [OF assms] in \<open>auto simp: quoted_def\<close>)

end
