(* ===== verification/JsonContainers.thy ===== *)
theory JsonContainers
  imports JsonRoundtrip
begin

text \<open>
  Lists and dictionaries: the loops of the parser on the texts of the writer.
\<close>

section \<open>Punctuation\<close>

definition mark :: "nat \<Rightarrow> Token_Type \<Rightarrow> bool" where
  "mark c ty \<longleftrightarrow> (c, ty) \<in> {(91, ARRAY_BEGIN), (93, ARRAY_END), (44, LIST_SEPARATOR), (123, OBJECT_BEGIN), (125, OBJECT_END),
     (58, OBJECT_PAIR_SEPARATOR)}"

lemma parse_mark:
  assumes "json_pos s = ws @ c # q" "white ws" "mark c ty"
  shows "ParseToken s = Some (new_Token ty (c # q) 1, s\<lparr>json_pos := c # q\<rparr>)"
proof -
  have "ParseToken s = scan_token (s\<lparr>json_pos := c # q\<rparr>)" using parse_white [OF assms(1,2)] assms(3) by (auto simp: mark_def)
  then show ?thesis using assms(3) by (auto simp: scan_token_def mark_def Let_def)
qed

lemma token_simps [simp]: "token_type (new_Token ty b n) = ty" "token_length (new_Token ty b n) = n"
  by (simp_all add: new_Token_def)

lemma after_closing:
  assumes "json_pos s = ws @ c # p" "white ws" "mark c closing" "closing \<noteq> LIST_SEPARATOR"
  shows "after_value s closing = Some (Some (True, new_Token closing (c # p) 1), s\<lparr>json_pos := c # p\<rparr>)"
  using parse_mark [OF assms(1-3)] assms(4) by (simp add: after_value_def)

lemma after_comma:
  assumes "json_pos s = 44 # q" "ParseToken (s\<lparr>json_pos := q\<rparr>) = Some (k, s')" "token_type k \<noteq> closing"
  shows "after_value s closing = Some (Some (True, k), s')"
  using parse_mark [of s "[]" 44 q LIST_SEPARATOR] assms by (simp add: after_value_def mark_def advance_past_def)

section \<open>Lists\<close>

definition gap :: "bool \<Rightarrow> nat list" where
  "gap pretty = (if pretty then [32] else [])"

lemma white_gap [simp]: "white (gap pretty)"
  by (simp add: gap_def)

definition more_elements :: "bool \<Rightarrow> nat list list \<Rightarrow> nat list" where
  "more_elements pretty ts = concat (map (\<lambda>t. 44 # gap pretty @ t) ts)"

lemma more_elements_simps [simp]: "more_elements pretty [] = []" "more_elements pretty (t # ts) = 44 # gap pretty @ t @ more_elements pretty ts"
  by (simp_all add: more_elements_def)

lemma reads_parse:
  assumes "reads std isf v t" "json_pos s = ws @ t @ p" "white ws" "delimited p" "nested n v" "stack_depth s + n \<le> 100"
  obtains k where "ParseToken s = Some (k, s\<lparr>json_pos := t @ p\<rparr>)" "token_type k \<noteq> ARRAY_END" "token_type k \<noteq> OBJECT_END"
  using assms unfolding reads_def by blast

lemma reads_build:
  assumes "reads std isf v t" "json_pos s = ws @ t @ p" "white ws" "delimited p" "nested n v" "stack_depth s + n \<le> 100"
    "root \<longrightarrow> container v"
  obtains k where "BuildValue std isf (Build root) s = Some (Some (k, read_back v), s\<lparr>json_pos := p\<rparr>)"
  using assms unfolding reads_def by blast

lemma array_loop:
  assumes "list_all2 (reads std isf) (v # vs) (t # ts)" "json_pos s = t @ more_elements pretty ts @ gap pretty @ 93 # p"
    "list_all (nested n) (v # vs)" "stack_depth s + n \<le> 100" "token_type k \<noteq> ARRAY_END"
  shows "BuildValue std isf (Array_loop k l) s =
    Some (Some (new_Token ARRAY_END (93 # p) 1, ListValue (l @ map read_back (v # vs))), s\<lparr>json_pos := 93 # p\<rparr>)"
  using assms
proof (induction vs arbitrary: v t ts s k l)
  case Nil
  then have ts: "ts = []" "reads std isf v t" by auto
  let ?q = "gap pretty @ 93 # p"
  have "delimited ?q" by (auto simp: delimited_def gap_def)
  then obtain j where j: "BuildValue std isf (Build False) s = Some (Some (j, read_back v), s\<lparr>json_pos := ?q\<rparr>)"
    using reads_build [OF ts(2), of s "[]" ?q n False] Nil ts(1) by auto
  have "after_value (s\<lparr>json_pos := ?q\<rparr>) ARRAY_END = Some (Some (True, new_Token ARRAY_END (93 # p) 1), s\<lparr>json_pos := 93 # p\<rparr>)"
    using after_closing [of "s\<lparr>json_pos := ?q\<rparr>" "gap pretty" 93 p ARRAY_END] by (simp add: mark_def)
  moreover have "BuildValue std isf (Array_loop (new_Token ARRAY_END (93 # p) 1) m) u = Some (Some (new_Token ARRAY_END (93 # p) 1, ListValue m), u)" for m u
    by (subst BuildValue.simps) simp
  ultimately show ?case using Nil.prems(5) j by (subst BuildValue.simps) (simp add: List_Append_def)
next
  case (Cons w vs)
  then obtain u us where ts: "ts = u # us" "reads std isf v t" "reads std isf w u" "list_all2 (reads std isf) (w # vs) (u # us)"
    by (auto simp: list_all2_Cons1)
  let ?q = "more_elements pretty us @ gap pretty @ 93 # p"
  let ?r = "44 # gap pretty @ u @ ?q"
  have q: "delimited ?q" by (cases us) (auto simp: delimited_def gap_def)
  have "delimited ?r" by (simp add: delimited_def)
  then obtain j where j: "BuildValue std isf (Build False) s = Some (Some (j, read_back v), s\<lparr>json_pos := ?r\<rparr>)"
    using reads_build [OF ts(2), of s "[]" ?r n False] Cons.prems ts(1) by auto
  obtain k' where k': "ParseToken (s\<lparr>json_pos := gap pretty @ u @ ?q\<rparr>) = Some (k', s\<lparr>json_pos := u @ ?q\<rparr>)" "token_type k' \<noteq> ARRAY_END"
    using reads_parse [OF ts(3), of "s\<lparr>json_pos := gap pretty @ u @ ?q\<rparr>" "gap pretty" ?q n] q Cons.prems by auto
  have "after_value (s\<lparr>json_pos := ?r\<rparr>) ARRAY_END = Some (Some (True, k'), s\<lparr>json_pos := u @ ?q\<rparr>)"
    using after_comma [of "s\<lparr>json_pos := ?r\<rparr>" "gap pretty @ u @ ?q"] k' by simp
  moreover have "BuildValue std isf (Array_loop k' (l @ [read_back v])) (s\<lparr>json_pos := u @ ?q\<rparr>) =
      Some (Some (new_Token ARRAY_END (93 # p) 1, ListValue ((l @ [read_back v]) @ map read_back (w # vs))), s\<lparr>json_pos := 93 # p\<rparr>)"
    using Cons.IH [OF ts(4), of "s\<lparr>json_pos := u @ ?q\<rparr>"] Cons.prems k'(2) by simp
  ultimately show ?case using Cons.prems(5) j by (subst BuildValue.simps) (simp add: List_Append_def)
qed

definition list_text :: "bool \<Rightarrow> nat list list \<Rightarrow> nat list" where
  "list_text pretty ts = [91] @ gap pretty @ (case ts of [] \<Rightarrow> [] | t # us \<Rightarrow> t @ more_elements pretty us) @ gap pretty @ [93]"

lemma more_elements_ascii: "\<forall>t \<in> set ts. \<forall>c \<in> set t. 0 < c \<and> c < 128 \<Longrightarrow> c \<in> set (more_elements pretty ts) \<Longrightarrow> 0 < c \<and> c < (128 :: nat)"
  by (induction ts) (auto simp: gap_def split: if_splits)

lemma reads_ascii: "reads std isf v t \<Longrightarrow> c \<in> set t \<Longrightarrow> 0 < c \<and> c < 128"
  by (simp add: reads_def)

lemma all2_ascii: "list_all2 (reads std isf) vs ts \<Longrightarrow> \<forall>t \<in> set ts. \<forall>c \<in> set t. 0 < c \<and> c < 128"
  by (induction vs ts rule: list_all2_induct) (auto dest: reads_ascii)

lemma reads_list:
  assumes "list_all2 (reads std isf) vs ts"
  shows "reads std isf (ListValue vs) (list_text pretty ts)"
proof (rule readsI)
  fix s :: json_reader and p n
  assume s: "json_pos s = list_text pretty ts @ p" and n: "nested n (ListValue vs)" "stack_depth s + n \<le> 101"
  obtain m where m: "n = Suc m" "list_all (nested m) vs" using n(1) by (cases n) auto
  let ?b = "tl (list_text pretty ts) @ p"
  have s': "json_pos s = 91 # ?b" using s by (simp add: list_text_def)
  have k: "ParseToken s = Some (new_Token ARRAY_BEGIN (91 # ?b) 1, s)"
    using parse_mark [of s "[]" 91 ?b ARRAY_BEGIN] s' same_pos [OF s'] by (simp add: mark_def)
  have "\<exists>s'. node_of std isf (new_Token ARRAY_BEGIN (91 # ?b) 1) s =
      Some (Some (new_Token ARRAY_END (93 # p) 1, read_back (ListValue vs)), s') \<and> advance_past s' (new_Token ARRAY_END (93 # p) 1) = s\<lparr>json_pos := p\<rparr>"
  proof (cases vs)
    case Nil
    then have b: "?b = (gap pretty @ gap pretty) @ 93 # p" using assms by (simp add: list_text_def)
    have "ParseToken (s\<lparr>json_pos := ?b\<rparr>) = Some (new_Token ARRAY_END (93 # p) 1, s\<lparr>json_pos := 93 # p\<rparr>)"
      using parse_mark [of "s\<lparr>json_pos := ?b\<rparr>" "gap pretty @ gap pretty" 93 p ARRAY_END] b by (simp add: mark_def)
    moreover have "BuildValue std isf (Array_loop (new_Token ARRAY_END (93 # p) 1) []) u = Some (Some (new_Token ARRAY_END (93 # p) 1, ListValue []), u)" for u
      by (subst BuildValue.simps) simp
    ultimately show ?thesis using s' Nil by (simp add: node_of_def advance_past_def)
  next
    case (Cons v ws)
    then obtain t us where t: "ts = t # us" "reads std isf v t" using assms by (auto simp: list_all2_Cons1)
    let ?q = "more_elements pretty us @ gap pretty @ 93 # p"
    have b: "?b = gap pretty @ t @ ?q" using t(1) by (simp add: list_text_def)
    have q: "delimited ?q" by (cases us) (auto simp: delimited_def gap_def)
    obtain k' where k': "ParseToken (s\<lparr>json_pos := ?b\<rparr>) = Some (k', s\<lparr>json_pos := t @ ?q\<rparr>)" "token_type k' \<noteq> ARRAY_END"
      using reads_parse [OF t(2), of "s\<lparr>json_pos := ?b\<rparr>" "gap pretty" ?q m] q m n(2) b Cons by auto
    have "BuildValue std isf (Array_loop k' []) (s\<lparr>json_pos := t @ ?q\<rparr>) =
      Some (Some (new_Token ARRAY_END (93 # p) 1, ListValue ([] @ map read_back (v # ws))), s\<lparr>json_pos := 93 # p\<rparr>)"
      using array_loop [of std isf v ws t us "s\<lparr>json_pos := t @ ?q\<rparr>" pretty p m k' "[]"] assms t(1) Cons m n(2) k'(2) by simp
    then show ?thesis using s' k' Cons by (simp add: node_of_def advance_past_def)
  qed
  then obtain s' where n: "node_of std isf (new_Token ARRAY_BEGIN (91 # ?b) 1) s =
      Some (Some (new_Token ARRAY_END (93 # p) 1, read_back (ListValue vs)), s')" "advance_past s' (new_Token ARRAY_END (93 # p) 1) = s\<lparr>json_pos := p\<rparr>"
    by blast
  show "\<exists>k k' s'. ParseToken s = Some (k, s) \<and> token_type k \<noteq> ARRAY_END \<and> token_type k \<noteq> OBJECT_END \<and>
        (container (ListValue vs) \<longrightarrow> token_type k = OBJECT_BEGIN \<or> token_type k = ARRAY_BEGIN) \<and>
        node_of std isf k s = Some (Some (k', read_back (ListValue vs)), s') \<and> advance_past s' k' = s\<lparr>json_pos := p\<rparr>"
    by (rule exI [of _ "new_Token ARRAY_BEGIN (91 # ?b) 1"], rule exI [of _ "new_Token ARRAY_END (93 # p) 1"], rule exI [of _ s'])
      (use k n in \<open>simp del: read_back.simps\<close>)
next
  show "\<forall>c \<in> set (list_text pretty ts). 0 < c \<and> c < 128"
    using all2_ascii [OF assms] more_elements_ascii [of "tl ts"] by (cases ts) (auto simp: list_text_def gap_def)
qed (simp_all add: list_text_def)

section \<open>Dictionaries\<close>

text \<open>An entry with its texts: the characters of the key, and the text of the value.\<close>

definition reads_entry :: "(byte list \<Rightarrow> 'd option) \<Rightarrow> ('d \<Rightarrow> bool) \<Rightarrow> key \<times> 'd Value \<Rightarrow> nat list \<times> nat list \<Rightarrow> bool" where
  "reads_entry std isf e x \<longleftrightarrow> fst e = utf8 (fst x) \<and> list_all IsValidCharacter (fst x) \<and> list_all IsValidCodepoint (fst x) \<and>
     list_all (\<lambda>c. c < 0x10000) (fst x) \<and> reads std isf (snd e) (snd x)"

definition line_gap :: "bool \<Rightarrow> nat \<Rightarrow> nat list" where
  "line_gap pretty depth = (if pretty then 10 # replicate (depth * 3) 32 else [])"

lemma white_line_gap [simp]: "white (line_gap pretty depth)"
  by (simp add: line_gap_def)

definition entry_text :: "bool \<Rightarrow> nat list \<times> nat list \<Rightarrow> nat list" where
  "entry_text pretty x = quoted (fst x) @ 58 # gap pretty @ snd x"

definition more_entries :: "bool \<Rightarrow> nat \<Rightarrow> (nat list \<times> nat list) list \<Rightarrow> nat list" where
  "more_entries pretty depth xs = concat (map (\<lambda>x. 44 # line_gap pretty (depth + 1) @ entry_text pretty x) xs)"

lemma more_entries_simps [simp]: "more_entries pretty depth [] = []"
  "more_entries pretty depth (x # xs) = 44 # line_gap pretty (depth + 1) @ entry_text pretty x @ more_entries pretty depth xs"
  by (simp_all add: more_entries_def)

definition key_token :: "nat list \<Rightarrow> ptr \<Rightarrow> Token" where
  "key_token c p = new_Token STRING (quoted c @ p) (length (quoted c))"

lemma parse_key:
  assumes "reads_entry std isf e x" "json_pos s = ws @ quoted (fst x) @ p" "white ws"
  shows "ParseToken s = Some (key_token (fst x) p, s\<lparr>json_pos := quoted (fst x) @ p\<rparr>)"
    "DecodeString (key_token (fst x) p) = Some (StringValue (fst e) :: 'd Value)"
proof -
  have v: "list_all IsValidCodepoint (fst x)" "reread (fst x) = fst x" "fst e = utf8 (fst x)"
    using assms(1) reread_plane by (auto simp: reads_entry_def)
  show "ParseToken s = Some (key_token (fst x) p, s\<lparr>json_pos := quoted (fst x) @ p\<rparr>)"
    using read_quoted(1) [OF v(1) assms(2,3)] by (simp add: key_token_def)
  have "DecodeString (new_Token STRING (quoted (fst x) @ p) (length (quoted (fst x)))) = Some (StringValue (utf8 (reread (fst x))) :: 'd Value)"
    by (rule read_quoted(2) [OF v(1) assms(2,3)])
  then show "DecodeString (key_token (fst x) p) = Some (StringValue (fst e) :: 'd Value)" using v by (simp add: key_token_def)
qed

text \<open>One turn of the loop, up to what follows the value.\<close>

lemma object_turn:
  fixes std :: "byte list \<Rightarrow> 'd option"
  assumes "reads_entry std isf (k, v) x" "json_pos s = entry_text pretty x @ q" "delimited q" "nested n v" "stack_depth s + n \<le> 100"
    "after_value (s\<lparr>json_pos := q\<rparr>) OBJECT_END = Some (Some (True, tok), s')"
  shows "\<exists>p. ParseToken s = Some (key_token (fst x) p, s) \<and>
    BuildValue std isf (Object_loop (key_token (fst x) p) d) s = BuildValue std isf (Object_loop tok (map_put k (read_back v) d)) s'"
proof -
  let ?p = "58 # gap pretty @ snd x @ q"
  have s: "json_pos s = [] @ quoted (fst x) @ ?p" using assms(2) by (simp add: entry_text_def)
  note key = parse_key [OF assms(1) s, simplified]
  have u: "IsStringUTF8 k" using assms(1) by (auto simp: reads_entry_def IsStringUTF8_iff)
  have c: "ParseToken (advance_past s (key_token (fst x) ?p)) = Some (new_Token OBJECT_PAIR_SEPARATOR ?p 1, s\<lparr>json_pos := ?p\<rparr>)"
    using parse_mark [of "advance_past s (key_token (fst x) ?p)" "[]" 58 "gap pretty @ snd x @ q"] s by (simp add: advance_past_def key_token_def mark_def)
  have r: "reads std isf v (snd x)" using assms(1) by (simp add: reads_entry_def)
  obtain j where j: "ParseToken (s\<lparr>json_pos := gap pretty @ snd x @ q\<rparr>) = Some (j, s\<lparr>json_pos := snd x @ q\<rparr>)"
    using reads_parse [OF r, of "s\<lparr>json_pos := gap pretty @ snd x @ q\<rparr>" "gap pretty" q n] assms(3-5) by auto
  obtain j' where j': "BuildValue std isf (Build False) (s\<lparr>json_pos := snd x @ q\<rparr>) = Some (Some (j', read_back v), s\<lparr>json_pos := q\<rparr>)"
    using reads_build [OF r, of "s\<lparr>json_pos := snd x @ q\<rparr>" "[]" q n False] assms(3-5) by auto
  have "ParseToken s = Some (key_token (fst x) ?p, s)" using key(1) s same_pos [of s "quoted (fst x) @ ?p"] by simp
  moreover have "BuildValue std isf (Object_loop (key_token (fst x) ?p) d) s = BuildValue std isf (Object_loop tok (map_put k (read_back v) d)) s'"
    using key(2) [where 'd = 'd] c j j' u assms(6)
    by (subst BuildValue.simps) (simp add: key_token_def advance_past_def)
  ultimately show ?thesis by blast
qed

lemma object_loop:
  fixes std :: "byte list \<Rightarrow> 'd option"
  assumes "list_all2 (reads_entry std isf) (e # es) (x # xs)"
    "json_pos s = entry_text pretty x @ more_entries pretty depth xs @ line_gap pretty depth @ 125 # p"
    "list_all (\<lambda>e. nested n (snd e)) (e # es)" "stack_depth s + n \<le> 100" "sorted_wrt (<) (map fst (d @ e # es))"
  shows "\<exists>k. ParseToken s = Some (k, s) \<and> token_type k = STRING \<and> BuildValue std isf (Object_loop k d) s =
    Some (Some (new_Token OBJECT_END (125 # p) 1, DictionaryValue (d @ map (\<lambda>(k, v). (k, read_back v)) (e # es))), s\<lparr>json_pos := 125 # p\<rparr>)"
  using assms
proof (induction es arbitrary: e x xs s d)
  case Nil
  obtain k v where e: "e = (k, v)" by (cases e)
  have xs: "xs = []" "reads_entry std isf (k, v) x" using Nil.prems(1) e by auto
  let ?q = "line_gap pretty depth @ 125 # p"
  have q: "delimited ?q" by (auto simp: delimited_def line_gap_def)
  have a: "after_value (s\<lparr>json_pos := ?q\<rparr>) OBJECT_END = Some (Some (True, new_Token OBJECT_END (125 # p) 1), s\<lparr>json_pos := 125 # p\<rparr>)"
    using after_closing [of "s\<lparr>json_pos := ?q\<rparr>" "line_gap pretty depth" 125 p OBJECT_END] by (simp add: mark_def)
  obtain r where "ParseToken s = Some (key_token (fst x) r, s)"
    "BuildValue std isf (Object_loop (key_token (fst x) r) d) s =
      BuildValue std isf (Object_loop (new_Token OBJECT_END (125 # p) 1) (map_put k (read_back v) d)) (s\<lparr>json_pos := 125 # p\<rparr>)"
    using object_turn [OF xs(2) _ q _ _ a, of pretty n d] Nil.prems xs(1) e by auto
  moreover have "BuildValue std isf (Object_loop (new_Token OBJECT_END (125 # p) 1) m) u = Some (Some (new_Token OBJECT_END (125 # p) 1, DictionaryValue m), u)" for m u
    by (subst BuildValue.simps) simp
  moreover have "map_put k (read_back v) d = d @ [(k, read_back v)]"
    using Nil.prems(5) e by (intro map_put_last) (auto simp: sorted_wrt_append)
  ultimately show ?case using e by (auto simp: key_token_def)
next
  case (Cons f es)
  obtain k v where e: "e = (k, v)" by (cases e)
  obtain y ys where xs: "xs = y # ys" "reads_entry std isf (k, v) x" "list_all2 (reads_entry std isf) (f # es) (y # ys)"
    using Cons.prems(1) e by (auto simp: list_all2_Cons1)
  let ?r = "entry_text pretty y @ more_entries pretty depth ys @ line_gap pretty depth @ 125 # p"
  let ?q = "44 # line_gap pretty (depth + 1) @ ?r" and ?s = "s\<lparr>json_pos := entry_text pretty y @ more_entries pretty depth ys @ line_gap pretty depth @ 125 # p\<rparr>"
  let ?d = "d @ [(k, read_back v)]"
  have put: "map_put k (read_back v) d = ?d" using Cons.prems(5) e by (intro map_put_last) (auto simp: sorted_wrt_append)
  obtain k' where k': "ParseToken ?s = Some (k', ?s)" "token_type k' = STRING"
    "BuildValue std isf (Object_loop k' ?d) ?s =
      Some (Some (new_Token OBJECT_END (125 # p) 1, DictionaryValue (?d @ map (\<lambda>(k, v). (k, read_back v)) (f # es))), ?s\<lparr>json_pos := 125 # p\<rparr>)"
    using Cons.IH [OF xs(3), of ?s ?d] Cons.prems e by (auto simp: sorted_wrt_append)
  have "hd ?r = 34" "?r \<noteq> []" by (simp_all add: entry_text_def quoted_def)
  then have "ParseToken (s\<lparr>json_pos := line_gap pretty (depth + 1) @ ?r\<rparr>) = ParseToken ?s"
    using parse_white [of "s\<lparr>json_pos := line_gap pretty (depth + 1) @ ?r\<rparr>" "line_gap pretty (depth + 1)" ?r] parse_white [of ?s "[]" ?r] by simp
  then have a: "after_value (s\<lparr>json_pos := ?q\<rparr>) OBJECT_END = Some (Some (True, k'), ?s)"
    using after_comma [of "s\<lparr>json_pos := ?q\<rparr>" "line_gap pretty (depth + 1) @ ?r" k' ?s OBJECT_END] k'(1,2) by simp
  have "delimited ?q" by (simp add: delimited_def)
  from object_turn [OF xs(2) _ this _ _ a, of pretty n d]
  obtain r where "ParseToken s = Some (key_token (fst x) r, s)"
    "BuildValue std isf (Object_loop (key_token (fst x) r) d) s = BuildValue std isf (Object_loop k' ?d) ?s"
    using Cons.prems xs(1) e put by auto
  then show ?case using k'(3) e by (auto simp: key_token_def)
qed

definition dictionary_text :: "bool \<Rightarrow> nat \<Rightarrow> (nat list \<times> nat list) list \<Rightarrow> nat list" where
  "dictionary_text pretty depth xs = [123] @
     (case xs of [] \<Rightarrow> (if pretty then [10] else []) | x # ys \<Rightarrow> line_gap pretty (depth + 1) @ entry_text pretty x @ more_entries pretty depth ys) @
     line_gap pretty depth @ [125]"

lemma entries_ascii: "list_all2 (reads_entry std isf) es xs \<Longrightarrow> x \<in> set xs \<Longrightarrow> c \<in> set (entry_text pretty x) \<Longrightarrow> 0 < c \<and> c < 128"
proof (induction es xs rule: list_all2_induct)
  case (Cons e es y ys)
  then show ?case using quoted_ascii [of "fst y" c] reads_ascii [of std isf "snd e" "snd y" c]
    by (auto simp: entry_text_def reads_entry_def gap_def split: if_splits)
qed simp

lemma reads_dictionary:
  assumes "list_all2 (reads_entry std isf) es xs" "sorted_wrt (<) (map fst es)"
  shows "reads std isf (DictionaryValue es) (dictionary_text pretty depth xs)"
proof (rule readsI)
  fix s :: json_reader and p n
  assume s: "json_pos s = dictionary_text pretty depth xs @ p" and n: "nested n (DictionaryValue es)" "stack_depth s + n \<le> 101"
  obtain m where m: "n = Suc m" "list_all (\<lambda>e. nested m (snd e)) es" using n(1) by (cases n) auto
  let ?b = "tl (dictionary_text pretty depth xs) @ p"
  have s': "json_pos s = 123 # ?b" using s by (simp add: dictionary_text_def)
  have k: "ParseToken s = Some (new_Token OBJECT_BEGIN (123 # ?b) 1, s)"
    using parse_mark [of s "[]" 123 ?b OBJECT_BEGIN] s' same_pos [OF s'] by (simp add: mark_def)
  have "\<exists>s'. node_of std isf (new_Token OBJECT_BEGIN (123 # ?b) 1) s =
      Some (Some (new_Token OBJECT_END (125 # p) 1, read_back (DictionaryValue es)), s') \<and> advance_past s' (new_Token OBJECT_END (125 # p) 1) = s\<lparr>json_pos := p\<rparr>"
  proof (cases es)
    case Nil
    let ?w = "(if pretty then [10] else []) @ line_gap pretty depth"
    have b: "?b = ?w @ 125 # p" using assms Nil by (simp add: dictionary_text_def)
    have "ParseToken (s\<lparr>json_pos := ?b\<rparr>) = Some (new_Token OBJECT_END (125 # p) 1, s\<lparr>json_pos := 125 # p\<rparr>)"
      using parse_mark [of "s\<lparr>json_pos := ?b\<rparr>" ?w 125 p OBJECT_END] b by (simp add: mark_def)
    moreover have "BuildValue std isf (Object_loop (new_Token OBJECT_END (125 # p) 1) []) u = Some (Some (new_Token OBJECT_END (125 # p) 1, DictionaryValue []), u)" for u
      by (subst BuildValue.simps) simp
    ultimately show ?thesis using s' Nil by (simp add: node_of_def advance_past_def)
  next
    case (Cons e fs)
    then obtain x ys where x: "xs = x # ys" using assms by (auto simp: list_all2_Cons1)
    let ?q = "entry_text pretty x @ more_entries pretty depth ys @ line_gap pretty depth @ 125 # p"
    have b: "?b = line_gap pretty (depth + 1) @ ?q" using x by (simp add: dictionary_text_def)
    have "hd ?q = 34" "?q \<noteq> []" by (simp_all add: entry_text_def quoted_def)
    then have pq: "ParseToken (s\<lparr>json_pos := ?b\<rparr>) = ParseToken (s\<lparr>json_pos := ?q\<rparr>)"
      using parse_white [of "s\<lparr>json_pos := ?b\<rparr>" "line_gap pretty (depth + 1)" ?q] parse_white [of "s\<lparr>json_pos := ?q\<rparr>" "[]" ?q] b by simp
    obtain k' where "ParseToken (s\<lparr>json_pos := ?q\<rparr>) = Some (k', s\<lparr>json_pos := ?q\<rparr>)"
      "BuildValue std isf (Object_loop k' []) (s\<lparr>json_pos := ?q\<rparr>) =
        Some (Some (new_Token OBJECT_END (125 # p) 1, DictionaryValue ([] @ map (\<lambda>(k, v). (k, read_back v)) (e # fs))), s\<lparr>json_pos := 125 # p\<rparr>)"
      using object_loop [of std isf e fs x ys "s\<lparr>json_pos := ?q\<rparr>" pretty depth p m "[]"] assms x Cons m n(2) by auto
    then show ?thesis using s' pq Cons by (simp add: node_of_def advance_past_def)
  qed
  then obtain s' where n: "node_of std isf (new_Token OBJECT_BEGIN (123 # ?b) 1) s =
      Some (Some (new_Token OBJECT_END (125 # p) 1, read_back (DictionaryValue es)), s')" "advance_past s' (new_Token OBJECT_END (125 # p) 1) = s\<lparr>json_pos := p\<rparr>"
    by blast
  show "\<exists>k k' s'. ParseToken s = Some (k, s) \<and> token_type k \<noteq> ARRAY_END \<and> token_type k \<noteq> OBJECT_END \<and>
        (container (DictionaryValue es) \<longrightarrow> token_type k = OBJECT_BEGIN \<or> token_type k = ARRAY_BEGIN) \<and>
        node_of std isf k s = Some (Some (k', read_back (DictionaryValue es)), s') \<and> advance_past s' k' = s\<lparr>json_pos := p\<rparr>"
    by (rule exI [of _ "new_Token OBJECT_BEGIN (123 # ?b) 1"], rule exI [of _ "new_Token OBJECT_END (125 # p) 1"], rule exI [of _ s'])
      (use k n in \<open>simp del: read_back.simps\<close>)
next
  show "\<forall>c \<in> set (dictionary_text pretty depth xs). 0 < c \<and> c < 128"
    using entries_ascii [OF assms(1)] by (cases xs) (auto simp: dictionary_text_def line_gap_def more_entries_def)
qed (simp_all add: dictionary_text_def)

end
