(* ===== verification/JsonLaws.thy ===== *)
theory JsonLaws
  imports JsonContainers
begin

text \<open>
  The round trip through the writer and the parser, and the strings that do not survive it.
\<close>

section \<open>The texts of the writer\<close>

lemma write_list_texts:
  fixes vs :: "'d Value list"
  assumes "\<And>v. v \<in> set vs \<Longrightarrow> \<exists>t. BuildJSONString dts pretty v depth True = Some t \<and> reads std isf v t"
  shows "\<exists>ts. list_all2 (reads std isf) vs ts \<and> write_list dts pretty vs False depth True = Some (more_elements pretty ts) \<and>
    write_list dts pretty vs True depth True = Some (case ts of [] \<Rightarrow> [] | t # us \<Rightarrow> t @ more_elements pretty us)"
  using assms
proof (induction vs)
  case (Cons v vs)
  obtain t where t: "BuildJSONString dts pretty v depth True = Some t" "reads std isf v t" using Cons.prems by force
  obtain ts where "list_all2 (reads std isf) vs ts" "write_list dts pretty vs False depth True = Some (more_elements pretty ts)"
    using Cons.IH Cons.prems by force
  then show ?case using t by (intro exI [of _ "t # ts"]) (simp add: gap_def)
qed simp

lemma write_entries_texts:
  fixes es :: "'d dictionary"
  assumes "\<And>k v. (k, v) \<in> set es \<Longrightarrow> IsStringUTF8 k \<and> plane_string k \<and> (\<exists>t. BuildJSONString dts pretty v (depth + 1) True = Some t \<and> reads std isf v t)"
  shows "\<exists>xs. list_all2 (reads_entry std isf) es xs \<and>
    (if pretty then [123, 10] else [123]) @ the (write_members dts pretty es True depth True) @
      (if pretty then 10 # IndentLine depth else []) @ [125] = dictionary_text pretty depth xs \<and>
    write_members dts pretty es True depth True \<noteq> None \<and>
    write_members dts pretty es False depth True = Some (more_entries pretty depth xs)"
  using assms
proof (induction es)
  case Nil
  then show ?case by (intro exI [of _ "[]"]) (simp add: dictionary_text_def line_gap_def IndentLine_def)
next
  case (Cons e es)
  obtain k v where e: "e = (k, v)" by (cases e)
  obtain t where t: "BuildJSONString dts pretty v (depth + 1) True = Some t" "reads std isf v t" and k: "IsStringUTF8 k" "plane_string k"
    using Cons.prems [of k v] e by auto
  obtain xs where xs: "list_all2 (reads_entry std isf) es xs" "write_members dts pretty es False depth True = Some (more_entries pretty depth xs)"
    using Cons.IH Cons.prems by auto
  obtain cs where cs: "list_all IsValidCharacter cs" "list_all IsValidCodepoint cs" "k = utf8 cs" "UTF8ToWide k = cs"
    using text_of [OF k(1)] by blast
  have q: "AppendQuotedString k = quoted cs" using write_quoted [OF cs(2)] cs(3) by (simp add: AppendQuotedString_def)
  have "reads_entry std isf e (cs, t)" using e cs t(2) k(2) by (simp add: reads_entry_def plane_string_def)
  then show ?case using e t k(1) xs q
    by (intro exI [of _ "(cs, t) # xs"])
      (simp add: dictionary_text_def line_gap_def IndentLine_def entry_text_def gap_def kPrettyPrintLineEnding_def)
qed

lemma write_double_point: "46 \<in> set (write_double dts x) \<or> 101 \<in> set (write_double dts x) \<or> 69 \<in> set (write_double dts x)"
proof -
  define r where "r = (if 46 \<notin> set (dts x) \<and> 101 \<notin> set (dts x) \<and> 69 \<notin> set (dts x) then dts x @ [46, 48] else dts x)"
  have m: "46 \<in> set r \<or> 101 \<in> set r \<or> 69 \<in> set r" by (auto simp: r_def)
  have w: "write_double dts x = (if r ! 0 = 46 then 48 # r else if length r > 1 \<and> r ! 0 = 45 \<and> r ! 1 = 46 then 45 # 48 # drop 1 r else r)"
    by (simp add: write_double_def r_def Let_def)
  show ?thesis using m unfolding w by (cases r) auto
qed

lemma writes:
  "value_ok v \<Longrightarrow> writable v \<Longrightarrow> \<forall>x \<in> set_Value v. double_ok dts std isf x \<Longrightarrow>
     \<exists>t. BuildJSONString dts pretty v depth True = Some t \<and> reads std isf v t"
proof (induction v arbitrary: depth)
  case NullValue
  then show ?case using reads_keyword [of kNullString NULL_TOKEN NullValue std isf] by (simp add: kNullString_def)
next
  case (BooleanValue b)
  then show ?case using reads_keyword [of kTrueString BOOL_TRUE "BooleanValue True" std isf]
    reads_keyword [of kFalseString BOOL_FALSE "BooleanValue False" std isf] by (cases b) (simp_all add: kTrueString_def kFalseString_def)
next
  case (IntegerValue i)
  then have "StringToInt (map to_byte (format_d i)) = (True, i)" using read_format_d by simp
  then have "DecodeNumber std isf (new_Token NUMBER (format_d i @ p) (length (format_d i))) = Some (IntegerValue i)" for p
    using WideToUTF8_ascii [of "format_d i"] number_ascii [OF format_d_number, of _ i] by (simp add: DecodeNumber_def new_Token_def)
  from reads_number [OF format_d_number this] show ?case by simp
next
  case (DoubleValue x)
  let ?t = "write_double dts x"
  have x: "number_text ?t" "std (map to_byte ?t) = Some x" "isf x" using DoubleValue by (auto simp: double_ok_def)
  obtain i where "StringToInt (map to_byte ?t) = (False, i)"
    using not_integer [OF write_double_point, of dts x] by (cases "StringToInt (map to_byte ?t)") auto
  then have "DecodeNumber std isf (new_Token NUMBER (?t @ p) (length ?t)) = Some (DoubleValue x)" for p
    using WideToUTF8_ascii [of ?t] number_ascii [OF x(1)] x(2,3) by (simp add: DecodeNumber_def new_Token_def)
  from reads_number [OF x(1) this] show ?case by simp
next
  case (StringValue s)
  then obtain cs where cs: "list_all IsValidCodepoint cs" "s = utf8 cs" using text_of [of s] by auto
  then show ?case using reads_string [OF cs(1)] write_quoted [OF cs(1)] by simp
next
  case (BinaryValue b)
  then show ?case by simp
next
  case (DictionaryValue d)
  have "IsStringUTF8 k \<and> plane_string k \<and> (\<exists>t. BuildJSONString dts pretty v (depth + 1) True = Some t \<and> reads std isf v t)"
    if kv: "(k, v) \<in> set d" for k v
    using DictionaryValue.IH [of "(k, v)" v "depth + 1"] DictionaryValue.prems kv by (fastforce simp: list_all_iff)
  from write_entries_texts [where es = d, OF this] obtain xs where xs: "list_all2 (reads_entry std isf) d xs"
    "(if pretty then [123, 10] else [123]) @ the (write_members dts pretty d True depth True) @
      (if pretty then 10 # IndentLine depth else []) @ [125] = dictionary_text pretty depth xs"
    "write_members dts pretty d True depth True \<noteq> None" by auto
  then have "BuildJSONString dts pretty (DictionaryValue d) depth True = Some (dictionary_text pretty depth xs)"
    by (auto simp: kPrettyPrintLineEnding_def)
  then show ?case using reads_dictionary [OF xs(1)] DictionaryValue.prems by auto
next
  case (ListValue l)
  have "\<exists>t. BuildJSONString dts pretty v depth True = Some t \<and> reads std isf v t" if "v \<in> set l" for v
    using ListValue.IH [OF that, of depth] ListValue.prems that by (fastforce simp: list_all_iff)
  from write_list_texts [where vs = l, OF this] obtain ts where ts: "list_all2 (reads std isf) l ts"
    "write_list dts pretty l True depth True = Some (case ts of [] \<Rightarrow> [] | t # us \<Rightarrow> t @ more_elements pretty us)" by auto
  then have "BuildJSONString dts pretty (ListValue l) depth True = Some (list_text pretty ts)" by (simp add: list_text_def gap_def)
  then show ?case using reads_list [OF ts(1)] by auto
qed

section \<open>Reading a whole text\<close>

lemma ascii_text:
  assumes "\<forall>c \<in> set t. 0 < c \<and> c < 128"
  shows "c_str (ascii t) = ascii t" "IsStringUTF8 (ascii t)" "UTF8ToWide (ascii t) = t"
proof -
  have u: "ascii t = utf8 t" using assms by (induction t) (auto simp: ascii_def WriteUnicodeCharacter8_def)
  have v: "list_all IsValidCharacter t" "list_all IsValidCodepoint t" using assms by (auto simp: list_all_iff IsValidCharacter_def IsValidCodepoint_def)
  show "IsStringUTF8 (ascii t)" using u v(1) by (auto simp: IsStringUTF8_iff)
  show "UTF8ToWide (ascii t) = t" by (simp add: u UTF8ToWide_def ConvertUnicode_text v(2) Write32)
  have "to_byte c \<noteq> 0" if "c \<in> set t" for c using unat_to_byte [of c] assms that by fastforce
  then show "c_str (ascii t) = ascii t" by (auto simp: c_str_def ascii_def takeWhile_eq_all_conv)
qed

lemma read_text:
  fixes std :: "byte list \<Rightarrow> 'd option"
  assumes "reads std isf v t" "container v" "nested 100 v" "white ws" "t \<noteq> []"
  shows "JSONReader_Read std isf (ascii (t @ ws)) trailing = Some (Some (read_back v))"
proof -
  have a: "\<forall>c \<in> set (t @ ws). 0 < c \<and> c < 128" using reads_ascii [OF assms(1)] assms(4) by (auto simp: white_def)
  note tx = ascii_text [OF a]
  let ?s = "new_reader\<lparr>start_pos := t @ ws @ [0], json_pos := t @ ws @ [0], allow_trailing_comma := trailing, stack_depth := 0, error_code := JSON_NO_ERROR\<rparr>"
  have bom: "hd (t @ ws @ [0]) \<noteq> 0xFEFF" using a assms(5) by (cases t) auto
  have "delimited (ws @ [0])" using assms(4) by (cases ws) (auto simp: delimited_def)
  then obtain k where k: "BuildValue std isf (Build True) ?s = Some (Some (k, read_back v), ?s\<lparr>json_pos := ws @ [0]\<rparr>)"
    using reads_build [OF assms(1), of ?s "[]" "ws @ [0]" 100 True] assms(2,3) by auto
  have "ParseToken (?s\<lparr>json_pos := ws @ [0]\<rparr>) = scan_token (?s\<lparr>json_pos := [0]\<rparr>)"
    using parse_white [of "?s\<lparr>json_pos := ws @ [0]\<rparr>" ws "[0]"] assms(4) by simp
  then have e: "ParseToken (?s\<lparr>json_pos := ws @ [0]\<rparr>) = Some (new_Token END_OF_INPUT [] 0, ?s\<lparr>json_pos := [0]\<rparr>)"
    by (simp add: scan_token_def Let_def)
  have "JsonToValue std isf new_reader (ascii (t @ ws)) True trailing = Some (Some (read_back v), ?s\<lparr>json_pos := [0]\<rparr>)"
    using tx bom k e by (simp add: JsonToValue_def Let_def)
  then show ?thesis by (simp add: JSONReader_Read_def ReadAndReturnError_def)
qed

lemma write_and_read:
  assumes "value_ok v" "writable v" "\<forall>x \<in> set_Value v. double_ok dts std isf x" "container v" "nested 100 v"
  shows "\<exists>json. JSONWriter_Write dts v pretty = Some json \<and> JSONReader_Read std isf json trailing = Some (Some (read_back v))"
proof -
  obtain t where t: "BuildJSONString dts pretty v 0 True = Some t" "reads std isf v t" using writes [OF assms(1-3)] by blast
  have "t \<noteq> []" using t(1) assms(4) by (cases v) (auto simp: bind_eq_Some_conv)
  then show ?thesis using t read_text [OF t(2) assms(4,5), of "if pretty then [10] else []"]
    by (auto simp: JSONWriter_Write_def WriteWithOptionalEscape_def kPrettyPrintLineEnding_def)
qed

lemma nested_string: "nested 100 (ListValue [StringValue s])"
proof -
  have "nested (Suc (Suc n)) (ListValue [StringValue s])" for n by simp
  from this [of 98] show ?thesis by simp
qed

text \<open>Values whose strings lie in the basic plane.\<close>

fun plane :: "'d Value \<Rightarrow> bool" where
  "plane (StringValue s) = plane_string s"
| "plane (ListValue l) = list_all plane l"
| "plane (DictionaryValue d) = list_all (\<lambda>e. plane (snd e)) d"
| "plane v = True"

lemma read_back_plane: "value_ok v \<Longrightarrow> plane v \<Longrightarrow> read_back v = v"
proof (induction v)
  case (StringValue s)
  then obtain cs where cs: "list_all IsValidCodepoint cs" "s = utf8 cs" "UTF8ToWide s = cs" using text_of [of s] by auto
  then show ?case using StringValue lossy_text [OF cs(1)] by (simp add: plane_string_def reread_plane)
next
  case (DictionaryValue d)
  then have "read_back (snd e) = snd e" if "e \<in> set d" for e using that by (cases e) (fastforce simp: list_all_iff)
  then have "map (\<lambda>(k, v). (k, read_back v)) d = d" by (intro map_idI) (auto simp: case_prod_beta)
  then show ?case by simp
next
  case (ListValue l)
  then show ?case by (simp add: list_all_iff map_idI)
qed simp_all

section \<open>The properties\<close>

text \<open>
  C21 (roundtrip): a list or dictionary (strings and keys in the basic plane, no binary values, at most a
  hundred values inside of each other, and doubles whose text is read as the same double) is written, in either layout, as
  a text that the parser reads back as the same value.
\<close>

theorem json_roundtrip:
  assumes "value_ok v" "writable v" "plane v" "\<forall>x \<in> set_Value v. double_ok dts std isf x" "container v" "nested 100 v"
  shows "\<exists>json. JSONWriter_Write dts v pretty = Some json \<and> JSONReader_Read std isf json trailing = Some (Some v)"
  using write_and_read [OF assms(1,2,4-6)] read_back_plane [OF assms(1,3)] by simp

theorem json_roundtrip_witness:
  "\<exists>json. JSONWriter_Write (\<lambda>_ :: unit. [49, 46, 53])
      (DictionaryValue [(ascii [97], ListValue [IntegerValue (- 5), StringValue (ascii [60, 98]), DoubleValue ()])]) True = Some json \<and>
    JSONReader_Read (\<lambda>_. Some ()) (\<lambda>_. True) json False =
      Some (Some (DictionaryValue [(ascii [97], ListValue [IntegerValue (- 5), StringValue (ascii [60, 98]), DoubleValue ()])]))"
proof -
  let ?v = "DictionaryValue [(ascii [97], ListValue [IntegerValue (- 5), StringValue (ascii [60, 98]), DoubleValue ()])]"
  have u: "IsStringUTF8 (ascii [97])" "IsStringUTF8 (ascii [60, 98])" "plane_string (ascii [97])" "plane_string (ascii [60, 98])"
    using ascii_text [of "[97]"] ascii_text [of "[60, 98]"] by (simp_all add: plane_string_def)
  have "number_text [49, 46, 53]" unfolding number_text_def
    by (intro exI [of _ "[]"] exI [of _ "[49]"] exI [of _ "[46, 53]"]) (simp add: is_digit_def)
  then have d: "double_ok (\<lambda>_. [49, 46, 53]) (\<lambda>_. Some ()) (\<lambda>_. True) ()" by (simp add: double_ok_def write_double_def)
  have "nested (Suc (Suc (Suc n))) ?v" for n by simp
  from this [of 97] have "nested 100 ?v" by simp
  then show ?thesis using json_roundtrip [of ?v "\<lambda>_. [49, 46, 53]" "\<lambda>_. Some ()" "\<lambda>_. True" True False] u d by simp
qed

text \<open>
  C34 (error): a string with characters outside of the basic plane is written with two escaped surrogates for
  each of them, and read back with two replacement characters in its place.
\<close>

theorem json_supplementary_replaced:
  fixes dts :: "'d \<Rightarrow> nat list" and std :: "byte list \<Rightarrow> 'd option"
  assumes "list_all IsValidCharacter cs"
  shows "\<exists>json. JSONWriter_Write dts (ListValue [StringValue (utf8 cs)]) pretty = Some json \<and>
    JSONReader_Read std isf json trailing = Some (Some (ListValue [StringValue (utf8 (reread cs))]))"
proof -
  have v: "list_all IsValidCodepoint cs" using assms valid_character by (auto simp: list_all_iff)
  have "IsStringUTF8 (utf8 cs)" using assms IsStringUTF8_iff by blast
  then show ?thesis using write_and_read [of "ListValue [StringValue (utf8 cs)]" dts std isf pretty trailing] lossy_text [OF v] nested_string [of "utf8 cs"]
    by simp
qed

theorem json_supplementary_replaced_witness:
  "\<exists>json. JSONWriter_Write (\<lambda>_ :: unit. []) (ListValue [StringValue (utf8 [0x1F600])]) False = Some json \<and>
    JSONReader_Read (\<lambda>_. None :: unit option) (\<lambda>_. True) json False = Some (Some (ListValue [StringValue (utf8 [0xFFFD, 0xFFFD])]))"
  using json_supplementary_replaced [of "[0x1F600]" "\<lambda>_ :: unit. []" False "\<lambda>_. None :: unit option" "\<lambda>_. True" False]
  by (simp add: IsValidCharacter_def)

text \<open>
  C35 (error): without escaping, each byte of a string is written as the escape of a character, so a string
  that is not ASCII is read back as the text of its single bytes.
\<close>

theorem json_unescaped_garbled:
  fixes dts :: "'d \<Rightarrow> nat list" and std :: "byte list \<Rightarrow> 'd option"
  shows "\<exists>json. WriteWithOptionalEscape dts (ListValue [StringValue s]) pretty False = Some json \<and>
    JSONReader_Read std isf json trailing = Some (Some (ListValue [StringValue (utf8 (map unat s))]))"
proof -
  let ?u = "map unat s"
  have b: "unat c < 256" for c :: byte using unsigned_less [of c] by simp
  have "IsValidCodepoint (unat c)" "unat c < 0x10000" "unat c \<le> 0xffff" for c :: byte using b [of c] by (simp_all add: IsValidCodepoint_def)
  then have v: "list_all IsValidCodepoint ?u" and p: "list_all (\<lambda>c. c < 0x10000) ?u" and "\<forall>c \<in> set ?u. c \<le> 0xffff"
    by (auto simp: list_all_iff)
  then have "utf16 ?u = ?u" by (induction s) (simp_all add: Write16_single)
  then have q: "JsonDoubleQuote s True = quoted ?u" by (simp add: JsonDoubleQuote_def JsonDoubleQuoteT_def quoted_def)
  have r: "reads std isf (ListValue [StringValue (utf8 ?u)]) (list_text pretty [quoted ?u])"
    by (rule reads_list) (use reads_string [OF v, of std isf] in \<open>simp del: map_map concat.simps\<close>)
  have t: "BuildJSONString dts pretty (ListValue [StringValue s]) 0 False = Some (list_text pretty [quoted ?u])"
    using q by (simp add: list_text_def gap_def)
  show ?thesis
    using read_text [OF r _ nested_string, of "if pretty then [10] else []" trailing] t lossy_text [OF v] reread_plane [OF p]
    by (cases pretty) (simp_all add: WriteWithOptionalEscape_def kPrettyPrintLineEnding_def list_text_def gap_def q del: map_map)
qed

end
