(* ===== verification/JsonTermination.thy ===== *)
theory JsonTermination
  imports JsonLaws
begin

text \<open>
  The parser returns on every text: it never reads behind the terminating null character, fails no
  check, and every loop ends; it gives a well-formed value or an error code.
\<close>

section \<open>Pointers that stay in the text\<close>

text \<open>The second pointer is reached from the first one without passing a null character, and one lies ahead.\<close>

definition ahead :: "ptr \<Rightarrow> ptr \<Rightarrow> bool" where
  "ahead p q \<longleftrightarrow> (\<exists>pre. p = pre @ q \<and> 0 \<notin> set pre \<and> 0 \<in> set q)"

lemma ahead_refl: "0 \<in> set p \<Longrightarrow> ahead p p"
  by (auto simp: ahead_def)

lemma ahead_trans: "ahead p q \<Longrightarrow> ahead q r \<Longrightarrow> ahead p r"
  unfolding ahead_def by (metis append.assoc Un_iff set_append)

lemma ahead_zero: "ahead p q \<Longrightarrow> 0 \<in> set q \<and> 0 \<in> set p"
  by (auto simp: ahead_def)

lemma ahead_length: "ahead p q \<Longrightarrow> length q \<le> length p"
  by (auto simp: ahead_def)

lemma ahead_Cons: "c \<noteq> 0 \<Longrightarrow> 0 \<in> set p \<Longrightarrow> ahead (c # p) p"
  unfolding ahead_def by (intro exI [of _ "[c]"]) simp

lemma ahead_deref: "ahead b (drop n b) \<Longrightarrow> \<exists>c. deref b n = Some c"
  by (cases "n < length b") (auto simp: deref_def ahead_def)

lemma ahead_next: "ahead b (drop n b) \<Longrightarrow> deref b n = Some c \<Longrightarrow> c \<noteq> 0 \<Longrightarrow> ahead b (drop (n + 1) b)"
proof -
  assume a: "ahead b (drop n b)" "deref b n = Some c" "c \<noteq> 0"
  then have d: "drop n b = c # drop (n + 1) b" by (auto simp: deref_def Cons_nth_drop_Suc split: if_splits)
  moreover have "0 \<in> set (drop (n + 1) b)" using ahead_zero [OF a(1)] a(3) d by auto
  ultimately show ?thesis using ahead_trans [OF a(1)] ahead_Cons [OF a(3)] by auto
qed

lemma error_position_total: "ahead p q \<Longrightarrow> \<exists>r. error_position p q l c = Some r"
proof -
  have "\<exists>r. error_position (pre @ q) q l c = Some r" if "0 \<notin> set pre" for pre using that
  proof (induction pre arbitrary: l c)
    case Nil
    then show ?case by (subst error_position.simps) simp
  next
    case (Cons x pre)
    then show ?case by (subst error_position.simps) auto
  qed
  then show "ahead p q \<Longrightarrow> ?thesis" by (auto simp: ahead_def)
qed

lemma line_comment_total: "0 \<in> set p \<Longrightarrow> \<exists>q. line_comment p = Some q \<and> ahead p q"
proof (induction p)
  case (Cons c p)
  show ?case
  proof (cases "c = 0")
    case False
    then have z: "0 \<in> set p" using Cons.prems by simp
    then show ?thesis using False Cons.IH ahead_Cons [OF False z] ahead_trans by fastforce
  qed (simp add: ahead_refl)
qed simp

lemma block_comment_total: "0 \<in> set p \<Longrightarrow> \<exists>q. block_comment p = Some q \<and> ahead p q"
proof (induction p)
  case (Cons c p)
  show ?case
  proof (cases "c = 0")
    case False
    then have z: "0 \<in> set p" using Cons.prems by simp
    then obtain d r where p: "p = d # r" by (cases p) auto
    obtain q where q: "block_comment p = Some q" "ahead p q" using Cons.IH z by blast
    have a: "ahead (c # p) q" using ahead_trans [OF ahead_Cons [OF False z] q(2)] .
    show ?thesis
    proof (cases "c = 42 \<and> d = 47")
      case True
      have "0 \<in> set r" using z p True by auto
      then have "ahead (c # p) r" using ahead_trans [OF ahead_Cons [OF False z]] ahead_Cons [of d r] p True by auto
      then show ?thesis using True p by simp
    next
      case other: False
      then show ?thesis using False q(1) a p by auto
    qed
  qed (simp add: ahead_refl)
qed simp

lemma EatComment_total: "0 \<in> set p \<Longrightarrow> \<exists>b q. EatComment p = Some (b, q) \<and> ahead p q"
proof -
  assume z: "0 \<in> set p"
  then obtain c p' where p: "p = c # p'" by (cases p) auto
  show ?thesis
  proof (cases "c = 47")
    case True
    then have z': "0 \<in> set p'" using z p by simp
    then obtain d r where r: "p' = d # r" by (cases p') auto
    show ?thesis
    proof (cases "d = 47 \<or> d = 42")
      case d: True
      then have zr: "0 \<in> set r" using z' r by auto
      have "ahead p r" unfolding ahead_def using p r zr True d by (intro exI [of _ "[c, d]"]) auto
      then show ?thesis using line_comment_total [OF zr] block_comment_total [OF zr] ahead_trans [of p r] d True p r
        by (auto simp: EatComment_def)
    next
      case False
      then show ?thesis using p r True ahead_refl [OF z] by (simp add: EatComment_def ex_bool_eq)
    qed
  next
    case False
    then show ?thesis using p ahead_refl [OF z] by (simp add: EatComment_def ex_bool_eq)
  qed
qed

lemma Eat_total: "0 \<in> set p \<Longrightarrow> \<exists>q. EatWhitespaceAndComments p = Some q \<and> ahead p q"
proof (induction p rule: EatWhitespaceAndComments.induct)
  case (1 p)
  then obtain c p' where p: "p = c # p'" by (cases p) auto
  have c: "deref p 0 = Some c" using p by simp
  consider (zero) "c = 0" | (space) "c \<noteq> 0" "c \<in> {32, 10, 13, 9}" | (comment) "c = 47" | (other) "c \<noteq> 0" "c \<notin> {32, 10, 13, 9}" "c \<noteq> 47" by blast
  then show ?case
  proof cases
    case space
    then have z: "0 \<in> set p'" using 1(3) p by simp
    then obtain q where "EatWhitespaceAndComments p' = Some q" "ahead p' q" using 1(1) [OF c] space p by auto
    then show ?thesis using space p ahead_trans [OF ahead_Cons [OF space(1) z]] by (subst EatWhitespaceAndComments.simps) auto
  next
    case comment
    obtain b q where q: "EatComment p = Some (b, q)" "ahead p q" using EatComment_total [OF 1(3)] by blast
    show ?thesis
    proof (cases b)
      case True
      then obtain r where "EatWhitespaceAndComments q = Some r" "ahead q r"
        using 1(2) [OF c _ _ _ q(1) refl] comment ahead_zero [OF q(2)] by auto
      then show ?thesis using comment p q True ahead_trans [OF q(2)] by (subst EatWhitespaceAndComments.simps) auto
    next
      case False
      then show ?thesis using comment p q by (subst EatWhitespaceAndComments.simps) auto
    qed
  qed (use 1(3) p in \<open>(subst EatWhitespaceAndComments.simps; auto intro: ahead_refl)+\<close>)
qed

section \<open>Tokens\<close>

lemma next_match_total:
  assumes "0 \<in> set q" "p = pre @ q" "length pre = i" "0 \<notin> set str"
  shows "\<exists>b. next_match p i str = Some b \<and> (b \<longrightarrow> ahead q (drop (length str) q))"
  using assms
proof (induction str arbitrary: q pre i)
  case Nil
  then show ?case by (intro exI [of _ True]) (simp add: ahead_refl)
next
  case (Cons c str)
  obtain x q' where q: "q = x # q'" using Cons.prems by (cases q) auto
  have d: "deref p i = Some x" using Cons.prems q by (simp add: deref_def nth_append)
  have "p \<noteq> []" using Cons.prems q by simp
  then obtain f where f: "deref p 0 = Some f" by (cases p) auto
  show ?case
  proof (cases "x = c \<and> f \<noteq> 0")
    case True
    have x: "x \<noteq> 0" "0 \<in> set q'" using Cons.prems True q by auto
    obtain b where "next_match p (i + 1) str = Some b" "b \<longrightarrow> ahead q' (drop (length str) q')"
      using Cons.IH [OF x(2), of "pre @ [x]" "i + 1"] Cons.prems q by auto
    then show ?thesis using d f True ahead_trans [OF ahead_Cons [OF x]] q by auto
  next
    case False
    then show ?thesis using d f by auto
  qed
qed

lemma digits_run_total: "0 \<in> set p \<Longrightarrow> \<exists>n. digits_run p = Some n \<and> ahead p (drop n p)"
proof (induction p)
  case (Cons c p)
  show ?case
  proof (cases "c \<noteq> 0 \<and> 48 \<le> c \<and> c \<le> 57")
    case True
    then have z: "c \<noteq> 0" "0 \<in> set p" using Cons.prems by auto
    then obtain n where "digits_run p = Some n" "ahead p (drop n p)" using Cons.IH by blast
    then show ?thesis using True ahead_trans [OF ahead_Cons [OF z]] by auto
  next
    case False
    then show ?thesis using Cons.prems ahead_refl [of "c # p"] by auto
  qed
qed simp

lemma ReadIntToken_total:
  assumes "ahead b (drop len b)"
  shows "\<exists>ok n. ReadIntToken b len lead = Some (ok, n) \<and> ahead b (drop n b) \<and> len \<le> n \<and> (ok \<longrightarrow> len < n)"
proof -
  obtain c where c: "deref b len = Some c" using ahead_deref [OF assms] by blast
  obtain n where n: "digits_run (drop len b) = Some n" "ahead (drop len b) (drop n (drop len b))"
    using digits_run_total ahead_zero [OF assms] by blast
  have "ahead b (drop (len + n) b)" using ahead_trans [OF assms n(2)] by (simp add: add.commute)
  then show ?thesis using c n(1) by (auto simp: ReadIntToken_def)
qed

text \<open>What a token promises at the pointer where it was found.\<close>

definition in_text :: "ptr \<Rightarrow> Token \<Rightarrow> bool" where
  "in_text p t \<longleftrightarrow> token_begin t = p \<and> 0 < token_length t \<and> ahead p (drop (token_length t) p)"

lemma in_text_Token [simp]: "in_text p (new_Token ty b n) \<longleftrightarrow> b = p \<and> 0 < n \<and> ahead p (drop n p)"
  by (simp add: in_text_def new_Token_def)

lemma ParseNumberToken_total:
  assumes "0 \<in> set p"
  shows "\<exists>t. ParseNumberToken p = Some t \<and> (t = kInvalidToken \<or> token_type t = NUMBER \<and> in_text p t)"
proof -
  obtain c where c: "deref p 0 = Some c" using assms by (cases p) auto
  have a0: "ahead p (drop 0 p)" using ahead_refl [OF assms] by simp
  let ?l = "if c = 45 then 1 else 0 :: nat"
  have al: "ahead p (drop ?l p)" using ahead_next [OF a0 c] a0 by auto
  obtain x where x: "deref p ?l = Some x" using ahead_deref [OF al] by blast
  obtain ok n where r: "ReadIntToken p ?l False = Some (ok, n)" "ahead p (drop n p)" "?l \<le> n" "ok \<longrightarrow> ?l < n" using ReadIntToken_total [OF al] by blast
  show ?thesis
  proof (cases ok)
    case False
    then show ?thesis using c x r by (simp add: ParseNumberToken_def Let_def)
  next
    case True
    then have n: "0 < n" using r by auto
    obtain d where d: "deref p n = Some d" using ahead_deref [OF r(2)] by blast
    define frac where "frac = (if d = 46 then do { (ok, len) \<leftarrow> ReadIntToken p (n + 1) True; c \<leftarrow> (if ok then deref p len else Some d); Some (ok, len, c) }
          else Some (True, n, d))"
    have "\<exists>ok m e. frac = Some (ok, m, e) \<and> 0 < m \<and> ahead p (drop m p) \<and> (ok \<longrightarrow> deref p m = Some e)"
    proof (cases "d = 46")
      case False
      then show ?thesis using d r(2) n by (simp add: frac_def ex_bool_eq)
    next
      case True
      have an: "ahead p (drop (n + 1) p)" by (rule ahead_next [OF r(2) d]) (simp add: True)
      obtain ok m where m: "ReadIntToken p (n + 1) True = Some (ok, m)" "ahead p (drop m p)" "n + 1 \<le> m" using ReadIntToken_total [OF an] by blast
      obtain e where "deref p m = Some e" using ahead_deref [OF m(2)] by blast
      then show ?thesis using True m by (auto simp: frac_def)
    qed
    then obtain ok2 m e where f: "frac = Some (ok2, m, e)" "0 < m" "ahead p (drop m p)" "ok2 \<longrightarrow> deref p m = Some e" by blast
    have N: "ParseNumberToken p = (if \<not> ok2 then Some kInvalidToken
       else if e = 101 \<or> e = 69 then do {
         c \<leftarrow> deref p (m + 1);
         let len = (if c = 45 \<or> c = 43 then m + 2 else m + 1);
         _ \<leftarrow> deref p len;
         (ok, len) \<leftarrow> ReadIntToken p len True;
         if \<not> ok then Some kInvalidToken else Some (new_Token NUMBER p len) }
       else Some (new_Token NUMBER p m))"
      using c x r(1) True d f(1) unfolding ParseNumberToken_def by (simp only: bind.simps Let_def case_prod_conv simp_thms if_True if_False frac_def)
    show ?thesis
    proof (cases "ok2 \<and> (e = 101 \<or> e = 69)")
      case False
      then show ?thesis using N f by auto
    next
      case exp: True
      have am: "ahead p (drop (m + 1) p)" by (rule ahead_next [OF f(3)]) (use exp f(4) in auto)
      obtain g where g: "deref p (m + 1) = Some g" using ahead_deref [OF am] by blast
      let ?k = "if g = 45 \<or> g = 43 then m + 2 else m + 1"
      have ak: "ahead p (drop ?k p)" using ahead_next [OF am g] am by auto
      obtain h where h: "deref p ?k = Some h" using ahead_deref [OF ak] by blast
      obtain ok3 j where j: "ReadIntToken p ?k True = Some (ok3, j)" "ahead p (drop j p)" "?k \<le> j" using ReadIntToken_total [OF ak] by blast
      have "0 < j" using j(3) by (auto split: if_splits)
      then show ?thesis using N exp g h j by (auto simp: Let_def)
    qed
  qed
qed

section \<open>Strings\<close>

text \<open>An escape of a code point in the text never denotes a non-character.\<close>

definition escapes_ok :: "ptr \<Rightarrow> bool" where
  "escapes_ok b \<longleftrightarrow> (\<forall>i n. deref b i = Some 92 \<longrightarrow> deref b (i + 1) = Some 117 \<longrightarrow> hex_number b (i + 2) 4 0 = Some n \<longrightarrow>
     IsValidCharacter (replaced n))"

definition good :: "ptr \<Rightarrow> bool" where
  "good b \<longleftrightarrow> list_all IsValidCharacter (takeWhile (\<lambda>c. c \<noteq> 0) b) \<and> escapes_ok b"

lemma deref_at_drop: "deref (drop k b) i = deref b (k + i)"
  by (simp add: deref_drop)

lemma hex_number_drop: "hex_number (drop k b) i d n = hex_number b (k + i) d n"
  by (induction d arbitrary: i n) (simp_all add: deref_at_drop add.assoc)

lemma good_ahead: "good b \<Longrightarrow> ahead b q \<Longrightarrow> good q"
proof -
  assume g: "good b" and "ahead b q"
  then obtain pre where pre: "b = pre @ q" "0 \<notin> set pre" by (auto simp: ahead_def)
  then have q: "q = drop (length pre) b" by simp
  have "takeWhile (\<lambda>c. c \<noteq> 0) b = pre @ takeWhile (\<lambda>c. c \<noteq> 0) q" using pre by (auto simp: takeWhile_append)
  moreover have "escapes_ok q" using g unfolding q good_def escapes_ok_def deref_at_drop hex_number_drop
    by (metis add.assoc)
  ultimately show ?thesis using g by (simp add: good_def)
qed

lemma good_character: "good b \<Longrightarrow> ahead b (drop i b) \<Longrightarrow> deref b i = Some c \<Longrightarrow> c \<noteq> 0 \<Longrightarrow> IsValidCharacter c"
proof -
  assume a: "good b" "ahead b (drop i b)" "deref b i = Some c" "c \<noteq> 0"
  have "drop i b = c # drop (i + 1) b" using a(3) by (auto simp: deref_def Cons_nth_drop_Suc split: if_splits)
  then show ?thesis using good_ahead [OF a(1,2)] a(4) by (simp add: good_def)
qed

definition usable :: "wchar list \<Rightarrow> bool" where
  "usable ds \<longleftrightarrow> list_all (\<lambda>d. IsValidCharacter (replaced d)) ds"

lemma usable_simps [simp]: "usable []" "usable (d # ds) \<longleftrightarrow> IsValidCharacter (replaced d) \<and> usable ds"
  by (simp_all add: usable_def)

lemma replaced_character: "IsValidCharacter c \<Longrightarrow> replaced c = c"
  using valid_character by (simp add: replaced_def)

lemma replaced_small: "c < 0xD800 \<Longrightarrow> IsValidCharacter (replaced c)"
  by (simp add: replaced_def IsValidCodepoint_def IsValidCharacter_def)

lemma ReadHexDigits_total:
  "ahead b (drop i b) \<Longrightarrow> \<exists>ok. ReadHexDigits b i k = Some ok \<and>
     (ok \<longrightarrow> ahead b (drop (i + k) b) \<and> (\<forall>m. \<exists>n. hex_number b i k m = Some n \<and> n < (m + 1) * 16 ^ k))"
proof (induction k arbitrary: i)
  case 0
  then show ?case by (simp add: ex_bool_eq)
next
  case (Suc k)
  obtain c where c: "deref b i = Some c" using ahead_deref [OF Suc.prems] by blast
  show ?case
  proof (cases "c \<noteq> 0 \<and> IsHexDigit c")
    case False
    then show ?thesis using c by auto
  next
    case True
    then obtain ok where ok: "ReadHexDigits b (i + 1) k = Some ok"
      "ok \<longrightarrow> ahead b (drop (i + 1 + k) b) \<and> (\<forall>m. \<exists>n. hex_number b (i + 1) k m = Some n \<and> n < (m + 1) * 16 ^ k)"
      using Suc.IH [OF ahead_next [OF Suc.prems c]] by blast
    obtain d where d: "HexDigitToInt c = Some d" "d < 16" using True by (auto simp: HexDigitToInt_def IsHexDigit_def)
    have "\<exists>n. hex_number b i (Suc k) m = Some n \<and> n < (m + 1) * 16 ^ Suc k" if o: ok for m
    proof -
      obtain n where n: "hex_number b (i + 1) k (push_bit 4 m + d) = Some n" "n < (push_bit 4 m + d + 1) * 16 ^ k" using ok(2) o by blast
      have "push_bit 4 m + d + 1 \<le> (m + 1) * 16" using d(2) by (simp add: push_bit_eq_mult)
      then have "(push_bit 4 m + d + 1) * 16 ^ k \<le> (m + 1) * 16 * 16 ^ k" by (rule mult_le_mono1)
      then have "n < (m + 1) * 16 ^ Suc k" using less_le_trans [OF n(2)] by (simp only: power_Suc mult.assoc)
      then show ?thesis using n(1) c d(1) by simp
    qed
    then show ?thesis using c True ok by (intro exI [of _ ok]) auto
  qed
qed

definition string_found :: "ptr \<Rightarrow> nat \<Rightarrow> string_token \<Rightarrow> bool" where
  "string_found b len r = (case r of
       StringToken t \<Rightarrow> \<exists>n ds. t = new_Token STRING b n \<and> len < n \<and> ahead b (drop n b) \<and> usable ds \<and> (\<forall>acc. decode_loop b n len acc = Some (acc @ ds))
     | Unterminated \<Rightarrow> True
     | InvalidEscape n \<Rightarrow> ahead b (drop n b))"

text \<open>One step of the scanner and of the decoder.\<close>

lemma string_found_step:
  assumes "string_found b m r" "len < m" "IsValidCharacter (replaced d)"
    "\<And>n acc. m < n \<Longrightarrow> decode_loop b n len acc = decode_loop b n m (acc @ [d])"
  shows "string_found b len r"
proof (cases r)
  case (StringToken t)
  then obtain n ds where t: "t = new_Token STRING b n" "m < n" "ahead b (drop n b)" "usable ds" "\<forall>acc. decode_loop b n m acc = Some (acc @ ds)"
    using assms(1) by (auto simp: string_found_def)
  then have "\<forall>acc. decode_loop b n len acc = Some (acc @ d # ds)" using assms(4) by simp
  then show ?thesis using t assms(2,3) StringToken unfolding string_found_def
    by (auto intro!: exI [of _ n] exI [of _ "d # ds"])
qed (use assms(1) in \<open>auto simp: string_found_def\<close>)

lemma string_loop_total:
  assumes "good b"
  shows "ahead b (drop len b) \<Longrightarrow> \<exists>r. string_loop b len = Some r \<and> string_found b len r"
proof (induction "length b - len" arbitrary: len rule: less_induct)
  case less
  obtain c where c: "deref b len = Some c" using ahead_deref [OF less.prems] by blast
  have lt: "len < length b" using c deref_less by blast
  have rec: "\<exists>r. string_loop b m = Some r \<and> string_found b m r" if "len < m" "ahead b (drop m b)" for m
    using less.hyps [OF _ that(2)] that(1) lt by simp
  show ?case
  proof (cases "c = 0 \<or> c = 34")
    case True
    have "ahead b (drop (len + 1) b)" if "c = 34" by (rule ahead_next [OF less.prems c]) (simp add: that)
    moreover have "decode_loop b (len + 1) len acc = Some (acc @ [])" for acc by (subst decode_loop.simps) simp
    ultimately show ?thesis using True c by (subst string_loop.simps) (auto simp: string_found_def intro!: exI [of _ "[]"])
  next
    case nz: False
    then have a1: "ahead b (drop (len + 1) b)" by (intro ahead_next [OF less.prems c]) simp
    show ?thesis
    proof (cases "c = 92")
      case False
      obtain r where r: "string_loop b (len + 1) = Some r" "string_found b (len + 1) r" using rec [OF _ a1] by auto
      have "string_found b len r"
      proof (rule string_found_step [OF r(2)])
        show "IsValidCharacter (replaced c)" using good_character [OF assms less.prems c] nz replaced_character by simp
        show "decode_loop b n len acc = decode_loop b n (len + 1) (acc @ [c])" if "len + 1 < n" for n acc
          using that c False by (subst decode_loop.simps) simp
      qed simp
      then show ?thesis using r(1) c nz False by (subst string_loop.simps) simp
    next
      case True
      obtain e where e: "deref b (len + 1) = Some e" using ahead_deref [OF a1] by blast
      have a2: "ahead b (drop (len + 2) b)" if "e \<noteq> 0" using ahead_next [OF a1 e that] by simp
      consider (hex) k where "e = 120 \<and> k = 2 \<or> e = 117 \<and> k = (4 :: nat)" | (single) "e \<in> {92, 47, 98, 102, 110, 114, 116, 118, 34}"
        | (bad) "e \<notin> {120, 117, 92, 47, 98, 102, 110, 114, 116, 118, 34}" by auto
      then show ?thesis
      proof cases
        case bad
        then show ?thesis using c e True a1 by (subst string_loop.simps) (simp add: string_found_def)
      next
        case single
        then have nz: "e \<noteq> 0" by auto
        obtain d where d: "single_escape e = Some d" "d < 128" using single by (auto simp: single_escape_def)
        obtain r where r: "string_loop b (len + 2) = Some r" "string_found b (len + 2) r" using rec [OF _ a2 [OF nz]] by auto
        have "string_found b len r"
        proof (rule string_found_step [OF r(2)])
          show "IsValidCharacter (replaced d)" using d(2) replaced_small by simp
          show "decode_loop b n len acc = decode_loop b n (len + 2) (acc @ [d])" if "len + 2 < n" for n acc
            using that c e True single d(1) by (subst decode_loop.simps) auto
        qed simp
        then show ?thesis using r(1) c e True single by (subst string_loop.simps) auto
      next
        case hex
        then have nz: "e \<noteq> 0" by auto
        obtain ok where ok: "ReadHexDigits b (len + 2) k = Some ok"
          "ok \<longrightarrow> ahead b (drop (len + 2 + k) b) \<and> (\<forall>m. \<exists>n. hex_number b (len + 2) k m = Some n \<and> n < (m + 1) * 16 ^ k)"
          using ReadHexDigits_total [OF a2 [OF nz]] by blast
        show ?thesis
        proof (cases ok)
          case False
          then show ?thesis using ok(1) c e True hex a1 by (subst string_loop.simps) (auto simp: string_found_def)
        next
          case o: True
          then obtain d where d: "hex_number b (len + 2) k 0 = Some d" "d < 16 ^ k" using ok(2) by fastforce
          obtain r where r: "string_loop b (len + 2 + k) = Some r" "string_found b (len + 2 + k) r" using rec [of "len + 2 + k"] ok(2) o by auto
          have v: "IsValidCharacter (replaced d)"
          proof (cases "e = 117")
            case u: True
            then show ?thesis using assms c e True d(1) hex unfolding good_def escapes_ok_def by auto
          next
            case False
            then show ?thesis using d(2) hex replaced_small [of d] by simp
          qed
          have s: "len + 1 + k + 1 = len + 2 + k" by simp
          have "string_found b len r"
          proof (rule string_found_step [OF r(2) _ v])
            show "decode_loop b n len acc = decode_loop b n (len + 2 + k) (acc @ [d])" if "len + 2 + k < n" for n acc
              using that c e True hex d(1) by (subst decode_loop.simps) (auto simp: add.commute)
          qed simp
          moreover have "string_loop b len = string_loop b (len + 2 + k)"
            using ok(1) o c e True hex by (subst string_loop.simps) (auto simp: add.commute)
          ultimately show ?thesis using r(1) by simp
        qed
      qed
    qed
  qed
qed

section \<open>The state of the parser\<close>

definition reader_ok :: "ptr \<Rightarrow> json_reader \<Rightarrow> bool" where
  "reader_ok start s \<longleftrightarrow> start_pos s = start \<and> good start \<and> ahead start (json_pos s)"

lemma reader_ok_zero: "reader_ok start s \<Longrightarrow> 0 \<in> set (json_pos s)"
  using ahead_zero by (auto simp: reader_ok_def)

lemma SetErrorCode_total:
  assumes "reader_ok start s" "ahead (json_pos s) p"
  shows "\<exists>l c. SetErrorCode s e p = Some (s\<lparr>error_line := l, error_col := c, error_code := e\<rparr>)"
proof -
  have "ahead (start_pos s) p" using assms ahead_trans by (auto simp: reader_ok_def)
  then obtain r where r: "error_position (start_pos s) p 1 1 = Some r" using error_position_total by blast
  then show ?thesis by (cases r) (auto simp: SetErrorCode_def)
qed

text \<open>The token that was found at the pointer of the state.\<close>

definition found :: "json_reader \<Rightarrow> Token \<Rightarrow> bool" where
  "found s t \<longleftrightarrow> (token_type t = END_OF_INPUT \<or> token_type t = INVALID_TOKEN) \<or> in_text (json_pos s) t \<and>
     (token_type t = STRING \<longrightarrow> (\<exists>ds. usable ds \<and> decode_loop (json_pos s) (token_length t) 1 [] = Some ds))"

definition scanned :: "ptr \<Rightarrow> json_reader \<Rightarrow> Token \<times> json_reader \<Rightarrow> bool" where
  "scanned start s r \<longleftrightarrow> found (snd r) (fst r) \<and> reader_ok start (snd r) \<and> ahead (json_pos s) (json_pos (snd r)) \<and>
     stack_depth (snd r) = stack_depth s"

lemma mark_found: "0 \<in> set (json_pos s) \<Longrightarrow> deref (json_pos s) 0 = Some c \<Longrightarrow> c \<noteq> 0 \<Longrightarrow> ty \<noteq> STRING \<Longrightarrow> found s (new_Token ty (json_pos s) 1)"
  using ahead_next [of "json_pos s" 0 c] ahead_refl by (simp add: found_def)

lemma keyword_total:
  assumes "0 \<in> set (json_pos s)" "0 \<notin> set str" "str \<noteq> []" "ty \<noteq> STRING"
  shows "\<exists>t. keyword_token (json_pos s) str ty = Some t \<and> found s t"
proof -
  obtain b where "next_match (json_pos s) 0 str = Some b" "b \<longrightarrow> ahead (json_pos s) (drop (length str) (json_pos s))"
    using next_match_total [OF assms(1), of "json_pos s" "[]" 0 str] assms(2) by auto
  then show ?thesis using assms(3,4) by (cases b) (auto simp: keyword_token_def NextStringMatch_def found_def kInvalidToken_def)
qed

lemma scan_total:
  assumes "reader_ok start s"
  shows "\<exists>r. scan_token s = Some r \<and> scanned start s r"
proof -
  note z = reader_ok_zero [OF assms]
  have a: "ahead (json_pos s) (json_pos s)" by (rule ahead_refl [OF z])
  have here: "scanned start s (t, s)" if "found s t" for t using that assms a by (simp add: scanned_def)
  obtain c where c: "deref (json_pos s) 0 = Some c" using z by (cases "json_pos s") auto
  have mk: "found s (new_Token ty (json_pos s) 1)" if "c \<noteq> 0" "ty \<noteq> STRING" for ty using mark_found [OF z c that] .
  obtain t1 where t1: "keyword_token (json_pos s) kNullString NULL_TOKEN = Some t1" "found s t1"
    using keyword_total [OF z, of kNullString NULL_TOKEN] by (auto simp: kNullString_def)
  obtain t2 where t2: "keyword_token (json_pos s) kTrueString BOOL_TRUE = Some t2" "found s t2"
    using keyword_total [OF z, of kTrueString BOOL_TRUE] by (auto simp: kTrueString_def)
  obtain t3 where t3: "keyword_token (json_pos s) kFalseString BOOL_FALSE = Some t3" "found s t3"
    using keyword_total [OF z, of kFalseString BOOL_FALSE] by (auto simp: kFalseString_def)
  obtain t4 where t4: "ParseNumberToken (json_pos s) = Some t4" "found s t4"
    using ParseNumberToken_total [OF z] by (auto simp: found_def kInvalidToken_def)
  show ?thesis
  proof (cases "c = 34")
    case True
    have a1: "ahead (json_pos s) (drop 1 (json_pos s))" using ahead_next [of "json_pos s" 0 c] a c True by simp
    have "good (json_pos s)" using assms good_ahead by (auto simp: reader_ok_def)
    from string_loop_total [OF this a1] obtain r where r: "string_loop (json_pos s) 1 = Some r" "string_found (json_pos s) 1 r" by blast
    show ?thesis
    proof (cases r)
      case (InvalidEscape n)
      then have "ahead (json_pos s) (drop n (json_pos s))" using r(2) by (simp add: string_found_def)
      then obtain l k where e: "SetErrorCode s JSON_INVALID_ESCAPE (drop n (json_pos s)) = Some (s\<lparr>error_line := l, error_col := k, error_code := JSON_INVALID_ESCAPE\<rparr>)"
        using SetErrorCode_total [OF assms] by blast
      then show ?thesis using c True r(1) InvalidEscape assms a
        by (auto simp: scan_token_def ParseStringToken_def scanned_def found_def kInvalidToken_def reader_ok_def Let_def)
    next
      case Unterminated
      then show ?thesis using c True r(1) here by (auto simp: scan_token_def ParseStringToken_def found_def kInvalidToken_def Let_def)
    next
      case (StringToken t)
      then have "found s t" using r(2) by (auto simp: string_found_def found_def)
      then show ?thesis using c True r(1) here StringToken by (auto simp: scan_token_def ParseStringToken_def Let_def)
    qed
  next
    case False
    define k where "k = (if c = 0 then new_Token END_OF_INPUT [] 0 else if c = 110 then t1 else if c = 116 then t2 else if c = 102 then t3
      else if c = 91 then new_Token ARRAY_BEGIN (json_pos s) 1 else if c = 93 then new_Token ARRAY_END (json_pos s) 1
      else if c = 44 then new_Token LIST_SEPARATOR (json_pos s) 1 else if c = 123 then new_Token OBJECT_BEGIN (json_pos s) 1
      else if c = 125 then new_Token OBJECT_END (json_pos s) 1 else if c = 58 then new_Token OBJECT_PAIR_SEPARATOR (json_pos s) 1
      else if 48 \<le> c \<and> c \<le> 57 \<or> c = 45 then t4 else kInvalidToken)"
    have "scan_token s = Some (k, s)" using False by (simp add: scan_token_def k_def c t1(1) t2(1) t3(1) t4(1) Let_def)
    moreover have "found s (new_Token END_OF_INPUT [] 0)" "found s kInvalidToken" by (simp_all add: found_def kInvalidToken_def)
    then have "found s k" unfolding k_def using t1(2) t2(2) t3(2) t4(2) mk by simp
    ultimately show ?thesis using here by blast
  qed
qed

lemma ParseToken_total:
  assumes "reader_ok start s"
  shows "\<exists>r. ParseToken s = Some r \<and> scanned start s r"
proof -
  obtain q where q: "EatWhitespaceAndComments (json_pos s) = Some q" "ahead (json_pos s) q"
    using Eat_total [OF reader_ok_zero [OF assms]] by blast
  have "reader_ok start (s\<lparr>json_pos := q\<rparr>)" using assms q(2) ahead_trans by (auto simp: reader_ok_def)
  from scan_total [OF this] obtain r where "scan_token (s\<lparr>json_pos := q\<rparr>) = Some r" "scanned start (s\<lparr>json_pos := q\<rparr>) r" by blast
  then show ?thesis using q ahead_trans [OF q(2)] by (auto simp: ParseToken_def scanned_def)
qed

lemma advance_found:
  assumes "reader_ok start s" "found s t" "token_type t \<noteq> END_OF_INPUT" "token_type t \<noteq> INVALID_TOKEN"
  shows "reader_ok start (advance_past s t)" "length (json_pos (advance_past s t)) < length (json_pos s)" "stack_depth (advance_past s t) = stack_depth s"
proof -
  have i: "in_text (json_pos s) t" using assms(2-4) by (simp add: found_def)
  show "reader_ok start (advance_past s t)" using assms(1) i ahead_trans by (auto simp: reader_ok_def advance_past_def in_text_def)
  have "json_pos s \<noteq> []" using reader_ok_zero [OF assms(1)] by auto
  then show "length (json_pos (advance_past s t)) < length (json_pos s)" using i by (cases "json_pos s") (auto simp: advance_past_def in_text_def)
qed (simp add: advance_past_def)

end
