(* ===== verification/JsonReturns.thy ===== *)
theory JsonReturns
  imports JsonTermination
begin

text \<open>
  The recursion of the parser: every call and every loop returns, keeps the pointer in the text and builds
  well-formed values.
\<close>

section \<open>Decoded tokens\<close>

lemma DecodeString_total:
  assumes "found s t" "token_type t = STRING"
  shows "\<exists>x. DecodeString t = Some (StringValue x :: 'd Value) \<and> IsStringUTF8 x"
proof -
  obtain ds where ds: "usable ds" "decode_loop (token_begin t) (token_length t) 1 [] = Some ds"
    using assms by (auto simp: found_def in_text_def)
  let ?rs = "map replaced ds"
  have r: "list_all IsValidCharacter ?rs" using ds(1) by (simp add: usable_def list_all_iff)
  have v: "list_all IsValidCodepoint ?rs" by (auto simp: list_all_iff replaced_def IsValidCodepoint_def)
  have "UTF16ToUTF8 (WideToUTF16 ds) = utf8 ?rs" unfolding WideToUTF16_units by (simp only: UTF16ToUTF8_def ConvertUnicode_text [OF _ v] snd_conv simp_thms)
  moreover have "IsStringUTF8 (utf8 ?rs)" using r IsStringUTF8_iff by blast
  ultimately show ?thesis using ds(2) by (auto simp: DecodeString_def CreateStringValue16_def)
qed

lemma DecodeNumber_ok: "DecodeNumber std isf t = Some v \<Longrightarrow> value_ok v"
proof -
  assume a: "DecodeNumber std isf t = Some v"
  let ?s = "WideToUTF8 (take (token_length t) (token_begin t))"
  obtain ok i where i: "StringToInt ?s = (ok, i)" by (cases "StringToInt ?s")
  show "value_ok v"
  proof (cases ok)
    case True
    then have "- (2 ^ 31) \<le> i \<and> i < 2 ^ 31" using i StringToInt_decimal [of ?s i] by simp
    then show ?thesis using a i True by (auto simp: DecodeNumber_def Let_def)
  next
    case False
    then show ?thesis using a i by (auto simp: DecodeNumber_def Let_def split: option.splits if_splits)
  qed
qed

section \<open>The loops\<close>

definition real_token :: "json_reader \<Rightarrow> Token \<Rightarrow> bool" where
  "real_token s t \<longleftrightarrow> found s t \<and> token_type t \<noteq> END_OF_INPUT \<and> token_type t \<noteq> INVALID_TOKEN"

lemma after_value_total:
  assumes "reader_ok start s" "closing = ARRAY_END \<or> closing = OBJECT_END"
  shows "\<exists>r s'. after_value s closing = Some (r, s') \<and> reader_ok start s' \<and> length (json_pos s') \<le> length (json_pos s) \<and>
    stack_depth s' = stack_depth s \<and> (\<forall>go k. r = Some (go, k) \<longrightarrow> found s' k \<and> (\<not> go \<longrightarrow> token_type k = closing))"
proof -
  obtain t s1 where t: "ParseToken s = Some (t, s1)" "scanned start s (t, s1)" using ParseToken_total [OF assms(1)] by auto
  then have s1: "found s1 t" "reader_ok start s1" "length (json_pos s1) \<le> length (json_pos s)" "stack_depth s1 = stack_depth s"
    using ahead_length by (auto simp: scanned_def)
  show ?thesis
  proof (cases "token_type t = LIST_SEPARATOR")
    case False
    then show ?thesis using t(1) s1 by (auto simp: after_value_def)
  next
    case True
    note adv = advance_found [OF s1(2,1)]
    obtain k s2 where k: "ParseToken (advance_past s1 t) = Some (k, s2)" "scanned start (advance_past s1 t) (k, s2)"
      using ParseToken_total adv(1) True by fastforce
    then have s2: "found s2 k" "reader_ok start s2" "length (json_pos s2) \<le> length (json_pos s)" "stack_depth s2 = stack_depth s"
      using ahead_length adv(2,3) True s1 by (fastforce simp: scanned_def)+
    obtain l c where e: "SetErrorCode s2 JSON_TRAILING_COMMA (json_pos s2) = Some (s2\<lparr>error_line := l, error_col := c, error_code := JSON_TRAILING_COMMA\<rparr>)"
      using SetErrorCode_total [OF s2(2) ahead_refl [OF reader_ok_zero [OF s2(2)]]] by blast
    show ?thesis using t(1) True k(1) e s2 assms(2) by (auto simp: after_value_def reader_ok_def)
  qed
qed

definition ready :: "ptr \<Rightarrow> 'd task \<Rightarrow> json_reader \<Rightarrow> bool" where
  "ready start task s \<longleftrightarrow> reader_ok start s \<and> (case task of
       Build _ \<Rightarrow> True
     | Array_loop k l \<Rightarrow> found s k \<and> list_all value_ok l
     | Object_loop k d \<Rightarrow> found s k \<and> dictionary_ok d)"

definition outcome :: "ptr \<Rightarrow> 'd task \<Rightarrow> json_reader \<Rightarrow> (Token \<times> 'd Value) option \<times> json_reader \<Rightarrow> bool" where
  "outcome start task s r \<longleftrightarrow> reader_ok start (snd r) \<and> (\<forall>k v. fst r = Some (k, v) \<longrightarrow>
     value_ok v \<and> stack_depth (snd r) = stack_depth s \<and> (case task of
       Build _ \<Rightarrow> length (json_pos (snd r)) < length (json_pos s)
     | _ \<Rightarrow> real_token (snd r) k \<and> length (json_pos (snd r)) \<le> length (json_pos s)))"

definition task_size :: "'d task \<Rightarrow> json_reader \<Rightarrow> nat" where
  "task_size task s = 2 * length (json_pos s) + (case task of Build _ \<Rightarrow> 0 | _ \<Rightarrow> 1)"

definition returns :: "(byte list \<Rightarrow> 'd option) \<Rightarrow> ('d \<Rightarrow> bool) \<Rightarrow> ptr \<Rightarrow> 'd task \<Rightarrow> json_reader \<Rightarrow> bool" where
  "returns std isf start task s \<longleftrightarrow> (\<exists>r. BuildValue std isf task s = Some r \<and> outcome start task s r)"

lemma outcome_fail: "reader_ok start s' \<Longrightarrow> outcome start task s (None, s')"
  by (simp add: outcome_def)

lemma SetErrorCode_fail:
  assumes "reader_ok start s"
  obtains s' where "SetErrorCode s e (json_pos s) = Some s'" "reader_ok start s'"
proof -
  obtain l c where "SetErrorCode s e (json_pos s) = Some (s\<lparr>error_line := l, error_col := c, error_code := e\<rparr>)"
    using SetErrorCode_total [OF assms ahead_refl [OF reader_ok_zero [OF assms]]] by blast
  then show ?thesis using that assms by (auto simp: reader_ok_def)
qed

lemma Array_returns:
  fixes l :: "'d Value list"
  assumes "ready start (Array_loop k l) s"
    and ih: "\<And>(task :: 'd task) s'. task_size task s' < task_size (Array_loop k l) s \<Longrightarrow> ready start task s' \<Longrightarrow> returns std isf start task s'"
  shows "returns std isf start (Array_loop k l) s"
proof (cases "token_type k = ARRAY_END")
  case True
  then show ?thesis using assms(1) unfolding returns_def by (subst BuildValue.simps) (simp add: outcome_def ready_def real_token_def)
next
  case False
  have s: "reader_ok start s" "list_all value_ok l" using assms(1) by (auto simp: ready_def)
  have "returns std isf start (Build False) s" using s by (intro ih) (simp_all add: task_size_def ready_def)
  then obtain r s1 where b: "BuildValue std isf (Build False) s = Some (r, s1)" "outcome start (Build False :: 'd task) s (r, s1)"
    by (auto simp: returns_def)
  show ?thesis
  proof (cases r)
    case None
    then have "BuildValue std isf (Array_loop k l) s = Some (None, s1)" using False b(1) by (subst BuildValue.simps) simp
    then show ?thesis using b(2) by (simp add: returns_def outcome_def)
  next
    case (Some p)
    then obtain j v where p: "r = Some (j, v)" by (cases p) auto
    then have s1: "reader_ok start s1" "value_ok v" "stack_depth s1 = stack_depth s" "length (json_pos s1) < length (json_pos s)"
      using b(2) by (auto simp: outcome_def)
    obtain q s2 where q: "after_value s1 ARRAY_END = Some (q, s2)" "reader_ok start s2" "length (json_pos s2) \<le> length (json_pos s1)"
      "stack_depth s2 = stack_depth s1" "\<forall>go k. q = Some (go, k) \<longrightarrow> found s2 k \<and> (\<not> go \<longrightarrow> token_type k = ARRAY_END)"
      using after_value_total [OF s1(1)] by blast
    let ?l = "List_Append l v"
    have vl: "list_all value_ok ?l" using s(2) s1(2) by (simp add: List_Append_def)
    have step: "BuildValue std isf (Array_loop k l) s = (case q of None \<Rightarrow> Some (None, s2) | Some (goes_on, token) \<Rightarrow>
        if goes_on then BuildValue std isf (Array_loop token ?l) s2 else Some (Some (token, ListValue ?l), s2))"
      using False b(1) p q(1) by (subst BuildValue.simps) simp
    show ?thesis
    proof (cases q)
      case None
      then show ?thesis using step q(2) outcome_fail by (auto simp: returns_def)
    next
      case (Some x)
      then obtain go t where x: "q = Some (go, t)" by (cases x) auto
      show ?thesis
      proof (cases go)
        case True
        have "returns std isf start (Array_loop t ?l) s2"
          using q x vl s1(4) by (intro ih) (auto simp: task_size_def ready_def)
        then show ?thesis using step x True q s1 unfolding returns_def outcome_def by (auto; fastforce)
      next
        case False
        then show ?thesis using step x q s1 vl unfolding returns_def outcome_def by (auto simp: real_token_def)
      qed
    qed
  qed
qed

lemma Object_returns:
  fixes d :: "'d dictionary"
  assumes "ready start (Object_loop k d) s"
    and ih: "\<And>(task :: 'd task) s'. task_size task s' < task_size (Object_loop k d) s \<Longrightarrow> ready start task s' \<Longrightarrow> returns std isf start task s'"
  shows "returns std isf start (Object_loop k d) s"
proof -
  have s: "reader_ok start s" "dictionary_ok d" "found s k" using assms(1) by (auto simp: ready_def)
  show ?thesis
  proof (cases "token_type k = STRING")
    case False
    show ?thesis
    proof (cases "token_type k = OBJECT_END")
      case True
      then show ?thesis using s unfolding returns_def by (subst BuildValue.simps) (simp add: outcome_def real_token_def)
    next
      case n: False
      obtain s' where "SetErrorCode s JSON_UNQUOTED_DICTIONARY_KEY (json_pos s) = Some s'" "reader_ok start s'"
        using SetErrorCode_fail [OF s(1)] .
      then show ?thesis using False n unfolding returns_def by (subst BuildValue.simps) (simp add: outcome_fail)
    qed
  next
    case True
    obtain x where x: "DecodeString k = Some (StringValue x :: 'd Value)" "IsStringUTF8 x" using DecodeString_total [OF s(3) True] by blast
    note adv = advance_found [OF s(1,3), unfolded True, simplified]
    obtain t s1 where t: "ParseToken (advance_past s k) = Some (t, s1)" "scanned start (advance_past s k) (t, s1)"
      using ParseToken_total [OF adv(1)] by auto
    then have s1: "found s1 t" "reader_ok start s1" "length (json_pos s1) < length (json_pos s)" "stack_depth s1 = stack_depth s"
      using ahead_length [of "json_pos (advance_past s k)" "json_pos s1"] adv(2,3) by (auto simp: scanned_def)
    show ?thesis
    proof (cases "token_type t = OBJECT_PAIR_SEPARATOR")
      case False
      then have "BuildValue std isf (Object_loop k d) s = Some (None, s1)" using True x t(1) by (subst BuildValue.simps) simp
      then show ?thesis using s1(2) by (simp add: returns_def outcome_def)
    next
      case pair: True
      note adv1 = advance_found [OF s1(2,1), unfolded pair, simplified]
      obtain u s2 where u: "ParseToken (advance_past s1 t) = Some (u, s2)" "scanned start (advance_past s1 t) (u, s2)"
        using ParseToken_total [OF adv1(1)] by auto
      then have s2: "reader_ok start s2" "length (json_pos s2) < length (json_pos s)" "stack_depth s2 = stack_depth s"
        using ahead_length [of "json_pos (advance_past s1 t)" "json_pos s2"] adv1(2,3) s1(3,4) by (auto simp: scanned_def)
      have "returns std isf start (Build False) s2" using s2 by (intro ih) (simp_all add: task_size_def ready_def)
      then obtain r s3 where b: "BuildValue std isf (Build False) s2 = Some (r, s3)" "outcome start (Build False :: 'd task) s2 (r, s3)"
        by (auto simp: returns_def)
      show ?thesis
      proof (cases r)
        case None
        then have "BuildValue std isf (Object_loop k d) s = Some (None, s3)" using True x t(1) pair u(1) b(1) by (subst BuildValue.simps) simp
        then show ?thesis using b(2) by (simp add: returns_def outcome_def)
      next
        case (Some p)
        then obtain j v where p: "r = Some (j, v)" by (cases p) auto
        then have s3: "reader_ok start s3" "value_ok v" "stack_depth s3 = stack_depth s" "length (json_pos s3) < length (json_pos s)"
          using b(2) s2 by (auto simp: outcome_def)
        let ?d = "map_put x v d"
        have vd: "dictionary_ok ?d" by (rule dictionary_ok_put [OF s(2) x(2) s3(2)])
        obtain q s4 where q: "after_value s3 OBJECT_END = Some (q, s4)" "reader_ok start s4" "length (json_pos s4) \<le> length (json_pos s3)"
          "stack_depth s4 = stack_depth s3" "\<forall>go k. q = Some (go, k) \<longrightarrow> found s4 k \<and> (\<not> go \<longrightarrow> token_type k = OBJECT_END)"
          using after_value_total [OF s3(1)] by blast
        have step: "BuildValue std isf (Object_loop k d) s = (case q of None \<Rightarrow> Some (None, s4) | Some (goes_on, token) \<Rightarrow>
            if goes_on then BuildValue std isf (Object_loop token ?d) s4 else Some (Some (token, DictionaryValue ?d), s4))"
          using True x t(1) pair u(1) b(1) p q(1) by (subst BuildValue.simps) simp
        show ?thesis
        proof (cases q)
          case None
          then show ?thesis using step q(2) outcome_fail by (auto simp: returns_def)
        next
          case (Some y)
          then obtain go w where y: "q = Some (go, w)" by (cases y) auto
          show ?thesis
          proof (cases go)
            case True
            have "returns std isf start (Object_loop w ?d) s4"
              using q y vd s3(4) by (intro ih) (auto simp: task_size_def ready_def)
            then show ?thesis using step y True q s3 unfolding returns_def outcome_def by (auto; fastforce)
          next
            case False
            then show ?thesis using step y q s3 vd unfolding returns_def outcome_def by (auto simp: real_token_def)
          qed
        qed
      qed
    qed
  qed
qed

section \<open>One value\<close>

text \<open>The result of a node: a token and a value, before the token is consumed.\<close>

definition node_outcome :: "ptr \<Rightarrow> json_reader \<Rightarrow> (Token \<times> 'd Value) option \<times> json_reader \<Rightarrow> bool" where
  "node_outcome start s r \<longleftrightarrow> reader_ok start (snd r) \<and> (\<forall>k v. fst r = Some (k, v) \<longrightarrow>
     value_ok v \<and> stack_depth (snd r) = stack_depth s \<and> real_token (snd r) k \<and> length (json_pos (snd r)) \<le> length (json_pos s))"

lemma outcome_node:
  assumes "outcome start task s1 r" "\<forall>b. task \<noteq> Build b" "length (json_pos s1) < length (json_pos s)" "stack_depth s1 = stack_depth s"
  shows "node_outcome start s r"
  unfolding node_outcome_def
proof (intro conjI allI impI)
  show "reader_ok start (snd r)" using assms(1) by (simp add: outcome_def)
  fix k v
  assume r: "fst r = Some (k, v)"
  show "value_ok v" "stack_depth (snd r) = stack_depth s" using assms(1,4) r by (simp_all add: outcome_def)
  show "real_token (snd r) k" "length (json_pos (snd r)) \<le> length (json_pos s)"
    using assms(1-3) r by (cases task; simp add: outcome_def)+
qed

lemma node_returns:
  fixes std :: "byte list \<Rightarrow> 'd option"
  assumes "reader_ok start s" "found s k"
    and ih: "\<And>(task :: 'd task) s'. task_size task s' < 2 * length (json_pos s) \<Longrightarrow> ready start task s' \<Longrightarrow> returns std isf start task s'"
  shows "\<exists>r. node_of std isf k s = Some r \<and> node_outcome start s r"
proof (cases "token_type k = ARRAY_BEGIN \<or> token_type k = OBJECT_BEGIN")
  case True
  let ?task = "\<lambda>t. if token_type k = ARRAY_BEGIN then Array_loop t [] else Object_loop t [] :: 'd task"
  note adv = advance_found [OF assms(1,2)]
  obtain t s1 where t: "ParseToken (advance_past s k) = Some (t, s1)" "scanned start (advance_past s k) (t, s1)"
    using ParseToken_total [of start "advance_past s k"] adv(1) True by fastforce
  then have s1: "found s1 t" "reader_ok start s1" "length (json_pos s1) < length (json_pos s)" "stack_depth s1 = stack_depth s"
    using ahead_length [of "json_pos (advance_past s k)" "json_pos s1"] adv(2,3) True by (auto simp: scanned_def)
  have "returns std isf start (?task t) s1" using s1 by (intro ih) (auto simp: task_size_def ready_def)
  then obtain r where r: "BuildValue std isf (?task t) s1 = Some r" "outcome start (?task t) s1 r" by (auto simp: returns_def)
  have "node_of std isf k s = Some r" using True t(1) r(1) by (auto simp: node_of_def)
  moreover have "node_outcome start s r" by (rule outcome_node [OF r(2) _ s1(3,4)]) simp
  ultimately show ?thesis by blast
next
  case False
  have none: "node_outcome start s (None, s)" using assms(1) by (simp add: node_outcome_def)
  have some: "node_outcome start s (Some (k, v), s)" if "value_ok v" "token_type k \<noteq> END_OF_INPUT" "token_type k \<noteq> INVALID_TOKEN" for v :: "'d Value"
    using that assms(1,2) by (simp add: node_outcome_def real_token_def)
  show ?thesis
  proof (cases "token_type k")
    case STRING
    then obtain x where "DecodeString k = Some (StringValue x :: 'd Value)" "IsStringUTF8 x" using DecodeString_total [OF assms(2)] by blast
    then show ?thesis using some STRING by (simp add: node_of_def)
  next
    case NUMBER
    then show ?thesis using some none DecodeNumber_ok [of std isf k] by (cases "DecodeNumber std isf k") (auto simp: node_of_def)
  qed (use False some none in \<open>simp_all add: node_of_def\<close>)
qed

lemma Build_returns:
  fixes std :: "byte list \<Rightarrow> 'd option"
  assumes "reader_ok start s"
    and ih: "\<And>(task :: 'd task) s'. task_size task s' < 2 * length (json_pos s) \<Longrightarrow> ready start task s' \<Longrightarrow> returns std isf start task s'"
  shows "returns std isf start (Build root) s"
proof -
  let ?s = "s\<lparr>stack_depth := stack_depth s + 1\<rparr>"
  have s: "reader_ok start ?s" using assms(1) by (simp add: reader_ok_def)
  show ?thesis
  proof (cases "stack_depth ?s > kStackLimit")
    case True
    obtain s' where s': "SetErrorCode ?s JSON_TOO_MUCH_NESTING (json_pos ?s) = Some s'" "reader_ok start s'" using SetErrorCode_fail [OF s] .
    then have "BuildValue std isf (Build root) s = Some (None, s')" using True by (subst BuildValue.simps) simp
    then show ?thesis using s'(2) by (simp add: returns_def outcome_fail)
  next
    case False
    obtain k s1 where k: "ParseToken ?s = Some (k, s1)" "scanned start ?s (k, s1)" using ParseToken_total [OF s] by auto
    then have s1: "found s1 k" "reader_ok start s1" "length (json_pos s1) \<le> length (json_pos s)" "stack_depth s1 = stack_depth s + 1"
      using ahead_length [of "json_pos ?s" "json_pos s1"] by (auto simp: scanned_def)
    show ?thesis
    proof (cases "root \<and> token_type k \<noteq> OBJECT_BEGIN \<and> token_type k \<noteq> ARRAY_BEGIN")
      case True
      obtain s' where s': "SetErrorCode s1 JSON_BAD_ROOT_ELEMENT_TYPE (json_pos s1) = Some s'" "reader_ok start s'" using SetErrorCode_fail [OF s1(2)] .
      then have "BuildValue std isf (Build root) s = Some (None, s')" using True False k(1) by (subst BuildValue.simps) simp
      then show ?thesis using s'(2) by (simp add: returns_def outcome_fail)
    next
      case nr: False
      have "task_size task s' < 2 * length (json_pos s)" if "task_size task s' < 2 * length (json_pos s1)" for task :: "'d task" and s'
        using that s1(3) by linarith
      then obtain r where r: "node_of std isf k s1 = Some r" "node_outcome start s1 r"
        using node_returns [OF s1(2,1), of std isf] ih by blast
      obtain q s2 where q: "r = (q, s2)" by (cases r)
      have step: "BuildValue std isf (Build root) s = (case q of None \<Rightarrow> Some (None, s2) | Some (token, v) \<Rightarrow>
          Some (Some (token, v), (advance_past s2 token)\<lparr>stack_depth := stack_depth s2 - 1\<rparr>))"
        using False nr k(1) r(1) q by (subst BuildValue.simps) (auto simp: node_of_def advance_past_def Let_def split: option.split)
      show ?thesis
      proof (cases q)
        case None
        then show ?thesis using step r(2) q by (simp add: returns_def outcome_def node_outcome_def)
      next
        case (Some x)
        then obtain t v where x: "q = Some (t, v)" by (cases x) auto
        then have o: "value_ok v" "stack_depth s2 = stack_depth s + 1" "reader_ok start s2" "real_token s2 t" "length (json_pos s2) \<le> length (json_pos s)"
          using r(2) q s1 by (auto simp: node_outcome_def)
        have adv: "reader_ok start (advance_past s2 t)" "length (json_pos (advance_past s2 t)) < length (json_pos s2)"
          using advance_found [OF o(3), of t] o(4) by (auto simp: real_token_def)
        then have "reader_ok start ((advance_past s2 t)\<lparr>stack_depth := stack_depth s2 - 1\<rparr>)" by (simp add: reader_ok_def)
        then show ?thesis using step x o adv(2) by (simp add: returns_def outcome_def)
      qed
    qed
  qed
qed

lemma task_returns:
  fixes std :: "byte list \<Rightarrow> 'd option" and task :: "'d task"
  shows "ready start task s \<Longrightarrow> returns std isf start task s"
proof (induction "task_size task s" arbitrary: task s rule: less_induct)
  case less
  show ?case
  proof (cases task)
    case (Build root)
    then show ?thesis using Build_returns [of start s std isf root] less by (simp add: ready_def task_size_def)
  next
    case (Array_loop k l)
    then show ?thesis using Array_returns [of start k l s std isf] less by simp
  next
    case (Object_loop k d)
    then show ?thesis using Object_returns [of start k d s std isf] less by simp
  qed
qed

section \<open>The text\<close>

lemma convert_loop_prefix:
  "list_all IsValidCodepoint cs \<Longrightarrow>
     convert_loop (U8 (pre @ utf8 cs @ rest)) Write (length pre) ok out =
     convert_loop (U8 (pre @ utf8 cs @ rest)) Write (length (pre @ utf8 cs)) ok (out @ concat (map Write cs))"
proof (induction cs arbitrary: pre out)
  case (Cons c cs)
  let ?w = "WriteUnicodeCharacter8 c"
  let ?s = "pre @ ?w @ utf8 cs @ rest"
  have v: "IsValidCodepoint c" using Cons.prems by simp
  have n: "CBU8_NEXT ?s (length pre) = (length (pre @ ?w), int c)" using NEXT_encoding [OF v, of pre "utf8 cs @ rest"] by simp
  have w: "0 < length ?w" using Write8_nonempty by simp
  have "convert_loop (U8 ?s) Write (length pre) ok out = convert_loop (U8 ?s) Write (length (pre @ ?w)) ok (out @ Write c)"
    using n w v codepoint_uint32 [OF valid_small [OF v]] by (subst convert_loop.simps) simp
  then show ?case using Cons.IH [of "pre @ ?w" "out @ Write c"] Cons.prems by simp
qed simp

lemma convert_loop_out: "\<exists>more. snd (convert_loop src Write i ok out) = out @ more"
proof (induction src Write i ok out rule: convert_loop.induct)
  case (1 src Write i ok out)
  show ?case
  proof (cases "i < units_length src")
    case True
    obtain v c j where r: "ReadUnicodeCharacter src i = (v, c, j)" by (cases "ReadUnicodeCharacter src i") auto
    show ?thesis
    proof (cases v)
      case True
      then show ?thesis using 1(1) [OF \<open>i < units_length src\<close> refl r [symmetric] refl True] r \<open>i < units_length src\<close> by (subst convert_loop.simps) auto
    next
      case False
      then show ?thesis using 1(2) [OF \<open>i < units_length src\<close> refl r [symmetric] refl False] r \<open>i < units_length src\<close> by (subst convert_loop.simps) auto
    qed
  next
    case False
    then show ?thesis by (subst convert_loop.simps) auto
  qed
qed

text \<open>Up to the first null character, the wide text is the decoded text.\<close>

lemma wide_text:
  assumes "IsStringUTF8 (c_str json)"
  obtains cs more where "UTF8ToWide json @ [0] = cs @ 0 # more" "list_all IsValidCharacter cs" "0 \<notin> set cs"
proof -
  obtain cs where cs: "list_all IsValidCharacter cs" "list_all IsValidCodepoint cs" "c_str json = utf8 cs" using text_of [OF assms] by blast
  have z: "0 \<notin> set (utf8 cs)" unfolding cs(3) [symmetric] c_str_def by (auto dest: set_takeWhileD)
  have "WriteUnicodeCharacter8 0 = [0]" by (simp add: WriteUnicodeCharacter8_def to_byte_def)
  then have nz: "0 \<notin> set cs" using z by (auto simp: image_iff)
  obtain rest where json: "json = utf8 cs @ rest" "rest = [] \<or> hd rest = 0"
  proof
    show "json = utf8 cs @ dropWhile (\<lambda>b. b \<noteq> 0) json" using cs(3) by (metis c_str_def takeWhile_dropWhile_id)
    show "dropWhile (\<lambda>b. b \<noteq> 0) json = [] \<or> hd (dropWhile (\<lambda>b. b \<noteq> 0) json) = 0" using hd_dropWhile [of "\<lambda>b. b \<noteq> 0" json] by auto
  qed
  have conv: "UTF8ToWide json = snd (convert_loop (U8 json) WriteUnicodeCharacter32 (length (utf8 cs)) True cs)"
    using convert_loop_prefix [OF cs(2), of "[]" rest WriteUnicodeCharacter32 True "[]"] json(1)
    by (simp add: UTF8ToWide_def ConvertUnicode_def Write32)
  show ?thesis
  proof (cases rest)
    case Nil
    then have "UTF8ToWide json = cs" using conv json(1) by (subst (asm) convert_loop.simps) simp
    then show ?thesis using that [of cs "[]"] cs(1) nz by simp
  next
    case (Cons b bs)
    then have "json = utf8 cs @ utf8 [0] @ bs" using json by (simp add: WriteUnicodeCharacter8_def to_byte_def)
    then have "convert_loop (U8 json) WriteUnicodeCharacter32 (length (utf8 cs)) True cs =
        convert_loop (U8 json) WriteUnicodeCharacter32 (length (utf8 cs @ utf8 [0])) True (cs @ [0])"
      using convert_loop_prefix [of "[0]" "utf8 cs" bs WriteUnicodeCharacter32 True cs] by (simp add: IsValidCodepoint_def WriteUnicodeCharacter32_def)
    then obtain more where "UTF8ToWide json = (cs @ [0]) @ more"
      using conv convert_loop_out [of "U8 json" WriteUnicodeCharacter32 "length (utf8 cs @ utf8 [0])" True "cs @ [0]"] by auto
    then show ?thesis using that [of cs "more @ [0]"] cs(1) nz by simp
  qed
qed

lemma good_text:
  assumes "IsStringUTF8 (c_str json)" "escapes_ok (UTF8ToWide json @ [0])"
  defines "text \<equiv> UTF8ToWide json @ [0]"
  defines "start \<equiv> (if UTF8ToWide json \<noteq> [] \<and> hd text = 0xFEFF then drop 1 text else text)"
  shows "good start \<and> ahead start start"
proof -
  obtain cs more where cs: "text = cs @ 0 # more" "list_all IsValidCharacter cs" "0 \<notin> set cs" using wide_text [OF assms(1)] unfolding text_def by blast
  have "takeWhile (\<lambda>c. c \<noteq> 0) text = cs" using cs(1,3) by (auto simp: takeWhile_append)
  then have g: "good text" using cs(2) assms(2) by (simp add: good_def text_def)
  have z: "0 \<in> set text" using cs(1) by simp
  have "ahead text start"
  proof (cases "UTF8ToWide json \<noteq> [] \<and> hd text = 0xFEFF")
    case True
    then obtain t where t: "text = 0xFEFF # t" unfolding text_def by (cases "UTF8ToWide json") auto
    then show ?thesis using True z ahead_Cons [of "0xFEFF" t] by (simp add: start_def)
  next
    case False
    then have "start = text" unfolding start_def by (rule if_not_P)
    then show ?thesis using ahead_refl [OF z] by simp
  qed
  then show ?thesis using good_ahead [OF g] ahead_refl ahead_zero by blast
qed

section \<open>The property\<close>

lemma JsonToValue_returns:
  fixes std :: "byte list \<Rightarrow> 'd option"
  assumes "escapes_ok (UTF8ToWide json @ [0])"
  shows "\<exists>r s'. JsonToValue std isf s json check_root trailing = Some (r, s') \<and> (\<forall>v. r = Some v \<longrightarrow> value_ok v) \<and>
    (r = None \<longrightarrow> error_code s' \<noteq> JSON_NO_ERROR)"
proof (cases "IsStringUTF8 (c_str json)")
  case False
  then show ?thesis by (simp add: JsonToValue_def)
next
  case True
  define wide where "wide = UTF8ToWide json @ [0]"
  define start where "start = (if UTF8ToWide json \<noteq> [] \<and> hd wide = 0xFEFF then drop 1 wide else wide)"
  let ?s = "s\<lparr>start_pos := start, json_pos := start, allow_trailing_comma := trailing, stack_depth := 0, error_code := JSON_NO_ERROR\<rparr>"
  have "good start" "ahead start start" using good_text [OF True assms] unfolding start_def wide_def by auto
  then have s: "reader_ok start ?s" by (simp add: reader_ok_def)
  then have "returns std isf start (Build check_root) ?s" by (intro task_returns) (simp add: ready_def)
  then obtain root s1 where b: "BuildValue std isf (Build check_root) ?s = Some (root, s1)" "outcome start (Build check_root :: 'd task) ?s (root, s1)"
    by (auto simp: returns_def)
  then have s1: "reader_ok start s1" "\<And>k v. root = Some (k, v) \<Longrightarrow> value_ok v" by (auto simp: outcome_def)
  obtain t s2 where t: "ParseToken s1 = Some (t, s2)" "scanned start s1 (t, s2)" using ParseToken_total [OF s1(1)] by auto
  then have s2: "reader_ok start s2" by (simp add: scanned_def)
  have fail: "\<exists>l c. SetErrorCode u e (json_pos u) = Some (u\<lparr>error_line := l, error_col := c, error_code := e\<rparr>)" if "reader_ok start u" for u e
    using SetErrorCode_total [OF that ahead_refl [OF reader_ok_zero [OF that]]] by blast
  have st: "(if UTF8ToWide json \<noteq> [] \<and> hd (UTF8ToWide json @ [0]) = 0xFEFF then drop 1 (UTF8ToWide json @ [0]) else UTF8ToWide json @ [0]) = start"
    by (simp only: start_def wide_def)
  have J: "JsonToValue std isf s json check_root trailing = do {
      (accepted, s) \<leftarrow>
          (if root \<noteq> None then do {
             (token, s) \<leftarrow> ParseToken s1;
             if token_type token = END_OF_INPUT then Some (True, s)
             else do { s \<leftarrow> SetErrorCode s JSON_UNEXPECTED_DATA_AFTER_ROOT (json_pos s); Some (False, s) } }
           else Some (False, s1));
        if accepted then Some (map_option snd root, s)
        else do {
          s \<leftarrow> (if error_code s = JSON_NO_ERROR then SetErrorCode s JSON_SYNTAX_ERROR (json_pos s) else Some s);
          Some (None, s) } }"
    by (simp only: JsonToValue_def Let_def True not_True_eq_False if_False st b(1) bind.simps case_prod_conv)
  show ?thesis
  proof (cases root)
    case None
    obtain l c where "SetErrorCode s1 JSON_SYNTAX_ERROR (json_pos s1) = Some (s1\<lparr>error_line := l, error_col := c, error_code := JSON_SYNTAX_ERROR\<rparr>)"
      using fail [OF s1(1)] by blast
    then show ?thesis unfolding J using None by (cases "error_code s1 = JSON_NO_ERROR") auto
  next
    case (Some x)
    then obtain k v where x: "root = Some (k, v)" by (cases x) auto
    obtain l c where "SetErrorCode s2 JSON_UNEXPECTED_DATA_AFTER_ROOT (json_pos s2) =
        Some (s2\<lparr>error_line := l, error_col := c, error_code := JSON_UNEXPECTED_DATA_AFTER_ROOT\<rparr>)"
      using fail [OF s2] by blast
    then show ?thesis unfolding J using x t(1) s1(2) by (cases "token_type t = END_OF_INPUT") auto
  qed
qed

text \<open>
  C22 (termination): the parser returns on every text in which no escape denotes a non-character: it reads
  nothing behind the end of the text, fails no check and all its loops end. It gives a well-formed value, or none and
  an error code.
\<close>

theorem json_reader_returns:
  assumes "escapes_ok (UTF8ToWide json @ [0])"
  shows "\<exists>r s'. JsonToValue std isf s json check_root trailing = Some (r, s') \<and> (\<forall>v. r = Some v \<longrightarrow> value_ok v) \<and>
    (r = None \<longrightarrow> error_code s' \<noteq> JSON_NO_ERROR)"
  by (rule JsonToValue_returns [OF assms])

lemma ascii_escapes_ok: "\<forall>c \<in> set t. 0 < c \<and> c < 128 \<Longrightarrow> 117 \<notin> set t \<Longrightarrow> escapes_ok (UTF8ToWide (ascii t) @ [0])"
  by (auto simp: ascii_text escapes_ok_def deref_def nth_append in_set_conv_nth split: if_splits)

theorem json_reader_returns_witness:
  "\<exists>r s'. JsonToValue (\<lambda>_. None :: unit option) (\<lambda>_. True) new_reader (ascii [91, 47, 42, 49]) True False = Some (r, s')"
proof -
  have "escapes_ok (UTF8ToWide (ascii [91, 47, 42, 49]) @ [0])" by (rule ascii_escapes_ok) simp_all
  from json_reader_returns [OF this] show ?thesis by blast
qed

end
