(* ===== verification/Spec2Isabelle.thy ===== *)
theory Spec2Isabelle
  imports Prelude IdAllocator FencedAllocator RingBuffer MappedMemory CmdBufferCommon
    CommandBufferService CmdParser CommonDecoder GpuScheduler
    CmdBufferHelper CommandFifo GpuChannel
    PolicyOpcodes PolicyProcessor LowLevelPolicy PolicyMemory PolicyRules PolicyPatterns
    PolicyMeaning PolicyDecision PolicyPacking PolicyStore PolicyErrors
    Bytes PrefixSet
    Pickle PickleProofs PickleReading NumberConversions NumberProofs
    ChunkedDecoder ChunkedProofs ChunkedBody
    FilePath FilePathProofs SecurityPolicy SecurityPolicyProofs
    SeekableBuffer SeekableProofs SeekableStream
    UnicodeConversions UnicodeProofs
    Values ValuesTypes ValuesProofs ValuesLaws
    JsonReader JsonWriter JsonScanning JsonTexts JsonRoundtrip JsonContainers JsonLaws JsonTermination JsonReturns
begin

text \<open>
  A verification development for Chromium (the browser at the state of 2011, without its vendored
  libraries). It models self-contained subsystems that stand between processes which do not trust each
  other, and proves what makes them correct.

  \<^bold>\<open>The GPU command buffer\<close> (\<open>src/gpu/command_buffer\<close>). A client process writes GL commands into a ring
  in shared memory; a service process reads and executes them.
  \<^item> \<open>IdAllocator\<close>: \<open>common/id_allocator.cc\<close>, the set of used resource ids, and
    \<open>service/id_manager.cc\<close>, the map from client ids to service ids.
  \<^item> \<open>FencedAllocator\<close>, \<open>RingBuffer\<close>, \<open>MappedMemory\<close>: \<open>client/fenced_allocator.cc\<close>,
    \<open>client/ring_buffer.cc\<close>, \<open>client/mapped_memory.cc\<close>, the allocation of shared memory by the client.
    Freed blocks may still be in use by the service until a token has passed; the helper that is asked
    to wait for it is an argument of the operations.
  \<^item> \<open>CmdBufferCommon\<close>: \<open>common/cmd_buffer_common.h\<close> and \<open>common/bitfield_helpers.h\<close>, the header and the
    structures of the common commands, as the entries they write.
  \<^item> \<open>CommandBufferService\<close>: \<open>service/command_buffer_service.cc\<close>, the state that both sides see, and the
    table of transfer buffers. The memory of the operating system is an argument.
  \<^item> \<open>CmdParser\<close>, \<open>CommonDecoder\<close>, \<open>GpuScheduler\<close>: \<open>service/cmd_parser.cc\<close>,
    \<open>service/common_decoder.cc\<close>, \<open>service/gpu_scheduler.cc\<close> and the dispatch of
    \<open>service/gles2_cmd_decoder.cc\<close>. One record holds the state of service, parser and decoder, extended
    field by field; a handler takes it and returns it updated with an \<open>error::Error\<close>.
  \<^item> \<open>CmdBufferHelper\<close>: \<open>client/cmd_buffer_helper.cc\<close> and \<open>client/cmd_buffer_helper.h\<close>, the client
    side. The command buffer it talks to is a record of operations.
  \<^item> \<open>CommandFifo\<close>, \<open>GpuChannel\<close>: the composition. The ring is a queue of commands: the helper
    appends, the scheduler takes from the front, for every wrap-around and every order of waits.

  The lemmas of each component show an invariant that its operations keep (block lists without gaps,
  offsets within the ring, tables without dangling ids), that allocations stay disjoint and succeed when they can, and that the
  loops that wait return. \<open>CommonDecoder\<close> shows that arbitrary bytes in the ring do not
  make the service read or write outside of the memory it was given.

  \<^bold>\<open>The policy engine of the sandbox\<close> (\<open>src/sandbox/src\<close>). The broker compiles rules about intercepted
  system calls into opcodes in a piece of memory that is copied into the target process; broker and
  target evaluate them.
  \<^item> \<open>PolicyOpcodes\<close>: \<open>policy_engine_opcodes.cc\<close> and \<open>policy_engine_params.h\<close>: opcodes as they lie in
    memory (units of 16 bits, with relative addresses of strings), the factory and the evaluation. The
    comparison \<open>RtlCompareUnicodeString\<close> of the operating system is an argument; the hypothesis
    \<open>compares\<close> says that for strings of one length it compares character by character.
  \<^item> \<open>PolicyProcessor\<close>: \<open>policy_engine_processor.cc\<close>, shown equivalent to a list of rules of which the
    first one whose conditions hold decides.
  \<^item> \<open>LowLevelPolicy\<close>: \<open>policy_low_level.cc\<close> and \<open>PolicyBase::EvalPolicy\<close> of
    \<open>sandbox_policy_base.cc\<close>: patterns, rules, the packing of the rules of all services.
  \<^item> \<open>PolicyMemory\<close>, \<open>PolicyRules\<close>, \<open>PolicyPatterns\<close>, \<open>PolicyMeaning\<close>, \<open>PolicyDecision\<close>,
    \<open>PolicyPacking\<close>, \<open>PolicyStore\<close>: the refinement. Memory is abstracted to lists of opcodes
    (\<open>view\<close>), these to comparisons of patterns and numbers (\<open>comparison\<close>), and a
    packed policy to the list of rules as they were added (\<open>policy_decides\<close>). This holds for patterns of
    literals and asterisks with a literal, and negated patterns of several fragments at the end of their rule; question
    marks as wildcards are modelled, but the engine gives them another meaning.
  \<^item> \<open>PolicyErrors\<close>: theorems about rules outside of these limits and calls with parameters of other types,
    for which the engine departs from that reading.

  \<^bold>\<open>The prefix set of safe browsing\<close> (\<open>src/chrome/browser/safe_browsing/prefix_set.cc\<close>). The prefixes of
  the hashes of unsafe URLs, compressed.
  \<^item> \<open>Bytes\<close>: numbers as little-endian bytes, shared by the file and message formats.
  \<^item> \<open>PrefixSet\<close>: the set, abstracted to a list of runs and that to the list of prefixes; membership,
    listing, access by position and the file.

  \<^bold>\<open>Pickles\<close> (\<open>src/base/pickle.cc\<close>, \<open>src/base/pickle.h\<close>). The messages between the processes.
  \<^item> \<open>Pickle\<close>: the object and all its operations, over the bytes in its memory; \<open>realloc\<close> is an
    argument.
  \<^item> \<open>PickleProofs\<close>: reading arbitrary bytes stays within them; a pickle abstracted to the blocks written
    to it.
  \<^item> \<open>PickleReading\<close>: each reader inverts its writer, for sequences of values of all types.

  \<^bold>\<open>Numbers and the chunked transfer coding\<close> (\<open>src/base/string_number_conversions.cc\<close>,
  \<open>src/net/http/http_chunked_decoder.cc\<close>).
  \<^item> \<open>NumberConversions\<close>, \<open>NumberProofs\<close>: integers to strings and back, in all widths; the test for
    wide spaces of the C library is an argument. Writing and reading are inverse, and the decimal readers accept exactly what
    fits.
  \<^item> \<open>ChunkedDecoder\<close>, \<open>ChunkedProofs\<close>, \<open>ChunkedBody\<close>: the decoder of HTTP bodies, which come in
    buffers of any size. The result does not depend on the cuts (with one exception, shown), and for a
    well-formed body it is the data of the chunks.

  \<^bold>\<open>The capabilities of child processes\<close> (\<open>src/content/browser/child_process_security_policy.cc\<close>,
  \<open>src/base/file_path.cc\<close>).
  \<^item> \<open>FilePath\<close>, \<open>FilePathProofs\<close>: paths in the build for POSIX systems; an absolute path as the list of
    its names.
  \<^item> \<open>SecurityPolicy\<close>, \<open>SecurityPolicyProofs\<close>: grants, revocations and questions. Which URLs a child may
    request is read off the history of the operations, children do not interfere, and the nearest directory
    with an entry decides about a file. \<open>GURL\<close> is an argument, with the documented meaning of
    \<open>SchemeIs\<close> as hypothesis \<open>scheme_law\<close>.

  \<^bold>\<open>The buffer of media data\<close> (\<open>src/media/base/seekable_buffer.cc\<close>).
  \<^item> \<open>SeekableBuffer\<close>: the list of buffers with the read position, and the operations.
  \<^item> \<open>SeekableProofs\<close>, \<open>SeekableStream\<close>: every operation on the bytes before and behind the
    position, and the locale \<open>byte_window\<close> of what they promise: for every sequence of requests the buffer
    is a stream with a position.

  \<^bold>\<open>UTF-8, UTF-16 and UTF-32\<close> (\<open>src/base/utf_string_conversions.cc\<close>,
  \<open>src/base/utf_string_conversion_utils.cc\<close>, \<open>src/base/third_party/icu/icu_utf.cc\<close>).
  \<^item> \<open>UnicodeConversions\<close>: reading and writing one character, the conversions and \<open>IsStringUTF8\<close>,
    for strings shorter than \<open>2 ^ 31\<close> units.
  \<^item> \<open>UnicodeProofs\<close>: the decoder reads back exactly what the encoder writes, and nothing else.

  \<^bold>\<open>Values\<close> (\<open>src/base/values.cc\<close>): the trees behind preferences and JSON.
  \<^item> \<open>Values\<close>: the datatype and every operation; a dictionary is the sorted list of its entries.
  \<^item> \<open>ValuesTypes\<close>, \<open>ValuesProofs\<close>, \<open>ValuesLaws\<close>: paths and the keys along them,
    well-formed values, and what the operations do.

  \<^bold>\<open>JSON\<close> (\<open>src/base/json/json_reader.cc\<close>, \<open>src/base/json/json_writer.cc\<close>,
  \<open>src/base/json/string_escape.cc\<close>).
  \<^item> \<open>JsonReader\<close>, \<open>JsonWriter\<close>: the parser, in which a pointer is the rest of the text with its
    terminating null character, and the writer. \<open>StringToDouble\<close>, \<open>DoubleToString\<close> and \<open>IsFinite\<close> are
    arguments.
  \<^item> \<open>JsonScanning\<close>, \<open>JsonTexts\<close>, \<open>JsonRoundtrip\<close>, \<open>JsonContainers\<close>, \<open>JsonLaws\<close>: the tokens of
    the texts that the writer makes, the values that are read from them, by induction on the value, and what is not
    read back. The nesting is limited to the hundred levels of the parser.
  \<^item> \<open>JsonTermination\<close>, \<open>JsonReturns\<close>: the parser on arbitrary texts, by the length of what is left of
    the text. The hypothesis \<open>escapes_ok\<close> excludes escapes of non-characters, at which a check fails.

  \<^bold>\<open>Conventions.\<close> The model is of a debug build in which a failed \<open>CHECK\<close>, \<open>DCHECK\<close> or
  \<open>NOTREACHED\<close>, an access out of range and a call that does not return have no result (\<open>None\<close>), so
  that a theorem that gives a result rules them out. Taking the address of the first element of an empty vector, as
  \<open>prefix_set.cc\<close> does before it transfers no bytes, is not counted as an access. Errors that the code returns are values. An unsigned 32-bit integer is
  a natural number with the wrap-around written out (\<open>add32\<close>, \<open>sub32\<close>), a signed one an integer,
  bit fields and characters are words; \<open>size_t\<close> and pointers have 32 bits. Loops whose end depends on
  another process or on the input (the waits of the helper, the recursive dispatch of a command, the
  search of a free id) are partial functions, and theorems show that they return, under the hypothesis that the
  other process makes progress; there is no fuel.

  \<^bold>\<open>Not modelled.\<close> The handlers of the GL commands and the managers of GL objects (their effect is in the
  GL driver; only the dispatch is modelled, and nothing is proved about rings with GL commands), the conversions between
  doubles and strings (they wrap the vendored library \<open>dmg_fp\<close>; the JSON theorems hold for all conversions and state what
  they need of them as \<open>double_ok\<close>), generated code, IPC transport, threads
  and the message loop (the callbacks of the modelled parts are explicit), platform code, and the
  parts of the browser outside of the subsystems above.
\<close>

end
